(* ===== verification/Prelude.thy ===== *)
theory Prelude
  imports Main "HOL-Library.Word"
begin

text \<open>
  Shared vocabulary of the development.

  The library signals every failure by a C++ exception (\<open>FC_ASSERT\<close>, \<open>FC_THROW\<close>,
  \<open>FC_CAPTURE_AND_THROW\<close>, exceptions of the standard library and of Boost).  Here an operation
  that can throw returns a value of type \<open>'a result\<close>: \<open>Inl e\<close> is the exception,
  \<open>Inr x\<close> the normal result.  An exception leaves no new state: \<open>Inl\<close> carries none.
  \<open>bindE\<close> is sequencing (the first exception wins), \<open>assertE\<close> is \<open>FC_ASSERT\<close>
  followed by the rest of the function.
\<close>

datatype err =
    AssertFailed          \<comment> \<open>\<open>fc::assert_exception\<close>, \<open>FC_ASSERT\<close>\<close>
  | Overflow              \<comment> \<open>\<open>fc::overflow_exception\<close>\<close>
  | Underflow             \<comment> \<open>\<open>fc::underflow_exception\<close>\<close>
  | DivideByZero          \<comment> \<open>division by zero, \<open>boost::bad_rational\<close>, \<open>std::domain_error\<close>\<close>
  | BlackSwan             \<comment> \<open>\<open>graphene::chain::black_swan_exception\<close>\<close>
  | Unlinkable            \<comment> \<open>\<open>graphene::chain::unlinkable_block_exception\<close>\<close>
  | InsufficientFeeds     \<comment> \<open>\<open>graphene::chain::insufficient_feeds\<close>\<close>
  | UnfilledMarginCall    \<comment> \<open>\<open>call_order_update_unfilled_margin_call\<close>\<close>
  | MissingOtherAuth      \<comment> \<open>\<open>graphene::chain::tx_missing_other_auth\<close>\<close>
  | MissingOwnerAuth      \<comment> \<open>\<open>graphene::chain::tx_missing_owner_auth\<close>\<close>
  | MissingActiveAuth     \<comment> \<open>\<open>graphene::chain::tx_missing_active_auth\<close>\<close>
  | IrrelevantSig         \<comment> \<open>\<open>graphene::chain::tx_irrelevant_sig\<close>\<close>
  | DuplicateSig          \<comment> \<open>\<open>graphene::chain::tx_duplicate_sig\<close>\<close>
  | CommitteeApproval     \<comment> \<open>\<open>graphene::chain::invalid_committee_approval\<close>\<close>
  | InsufficientFee       \<comment> \<open>\<open>graphene::chain::insufficient_fee\<close>\<close>
  | FromNotWhitelisted    \<comment> \<open>\<open>transfer_from_account_not_whitelisted\<close>\<close>
  | ToNotWhitelisted      \<comment> \<open>\<open>transfer_to_account_not_whitelisted\<close>\<close>
  | RestrictedTransfer    \<comment> \<open>\<open>transfer_restricted_transfer_asset\<close>\<close>
  | OverrideNotPermitted  \<comment> \<open>\<open>override_transfer_not_permitted\<close>\<close>
  | ReserveInvalid        \<comment> \<open>\<open>asset_reserve_invalid_on_mia\<close>\<close>
  | NotFound              \<comment> \<open>\<open>object_database::get\<close> of an id that is not in its index\<close>
  | OtherThrow            \<comment> \<open>any other \<open>FC_THROW\<close>\<close>
  | UndefinedBehaviour    \<comment> \<open>the C++ standard gives the step no meaning\<close>
  | OutOfFuel             \<comment> \<open>not an exception: the model's bound on a loop was reached\<close>

type_synonym 'a result = "err + 'a"

named_theorems result_simps
  \<open>equations that take a computation in the result type apart\<close>

definition bindE :: "'a result \<Rightarrow> ('a \<Rightarrow> 'b result) \<Rightarrow> 'b result" where
  "bindE m f = (case m of Inl e \<Rightarrow> Inl e | Inr x \<Rightarrow> f x)"

definition assertE :: "bool \<Rightarrow> 'a result \<Rightarrow> 'a result" where
  "assertE b m = (if b then m else Inl AssertFailed)"

definition of_option :: "err \<Rightarrow> 'a option \<Rightarrow> 'a result" where
  "of_option e x = (case x of None \<Rightarrow> Inl e | Some y \<Rightarrow> Inr y)"

definition is_ok :: "'a result \<Rightarrow> bool" where
  "is_ok m = (case m of Inl _ \<Rightarrow> False | Inr _ \<Rightarrow> True)"

lemma bindE_simps [simp]:
  "bindE (Inl e) f = Inl e"
  "bindE (Inr x) f = f x"
  by (simp_all add: bindE_def)

lemma bindE_eq_Inr [result_simps]:
  "bindE m f = Inr y \<longleftrightarrow> (\<exists>x. m = Inr x \<and> f x = Inr y)"
  by (cases m) (simp_all add: bindE_def)

lemma bindE_eq_Inl:
  "bindE m f = Inl e \<longleftrightarrow> m = Inl e \<or> (\<exists>x. m = Inr x \<and> f x = Inl e)"
  by (cases m) (simp_all add: bindE_def)

lemma bindE_cong [fundef_cong]:
  "m = m' \<Longrightarrow> (\<And>x. m' = Inr x \<Longrightarrow> f x = g x) \<Longrightarrow> bindE m f = bindE m' g"
  by (cases m') (simp_all add: bindE_def)

lemma bindE_assoc: "bindE (bindE m f) g = bindE m (\<lambda>x. bindE (f x) g)"
  by (cases m) simp_all

lemma assertE_simps [simp]:
  "assertE True m = m"
  "assertE False m = Inl AssertFailed"
  by (simp_all add: assertE_def)

lemma assertE_eq_Inr [result_simps]: "assertE b m = Inr y \<longleftrightarrow> b \<and> m = Inr y"
  by (simp add: assertE_def)

lemma assertE_eq_Inl: "assertE b m = Inl e \<longleftrightarrow> (b \<and> m = Inl e) \<or> (\<not> b \<and> e = AssertFailed)"
  by (auto simp: assertE_def)

lemma assertE_cong [fundef_cong]:
  "b = b' \<Longrightarrow> (b' \<Longrightarrow> m = m') \<Longrightarrow> assertE b m = assertE b' m'"
  by (simp add: assertE_def)

lemma of_option_simps [simp]:
  "of_option e None = Inl e"
  "of_option e (Some x) = Inr x"
  by (simp_all add: of_option_def)

lemma of_option_eq_Inr [result_simps]: "of_option e x = Inr y \<longleftrightarrow> x = Some y"
  by (cases x) simp_all

lemma is_ok_simps [simp]:
  "\<not> is_ok (Inl e)"
  "is_ok (Inr x)"
  by (simp_all add: is_ok_def)

lemma is_ok_iff: "is_ok m \<longleftrightarrow> (\<exists>x. m = Inr x)"
  by (cases m) simp_all

lemma is_ok_bindE: "is_ok (bindE m f) \<longleftrightarrow> (\<exists>x. m = Inr x \<and> is_ok (f x))"
  by (cases m) simp_all

subsection \<open>Taking a successful computation apart\<close>

text \<open>Elimination rules that walk along a run that succeeded: \<open>(elim result_elims)\<close> leaves one goal for
  each way through the branches, with the intermediate results as facts.\<close>

lemma bindE_E: "bindE m f = Inr y \<Longrightarrow> (\<And>x. m = Inr x \<Longrightarrow> f x = Inr y \<Longrightarrow> P) \<Longrightarrow> P"
  by (auto simp: bindE_eq_Inr)

lemma assertE_E: "assertE b m = Inr y \<Longrightarrow> (b \<Longrightarrow> m = Inr y \<Longrightarrow> P) \<Longrightarrow> P"
  by (auto simp: assertE_eq_Inr)

lemma if_result_E:
  "(if b then m else n) = Inr y \<Longrightarrow> (b \<Longrightarrow> m = Inr y \<Longrightarrow> P) \<Longrightarrow> (\<not> b \<Longrightarrow> n = Inr y \<Longrightarrow> P) \<Longrightarrow> P"
  by (simp split: if_splits)

lemma prod_result_E:
  "(case p of (a, b) \<Rightarrow> f a b) = Inr y \<Longrightarrow> (\<And>a b. p = (a, b) \<Longrightarrow> f a b = Inr y \<Longrightarrow> P) \<Longrightarrow> P"
  by (cases p) simp

lemma option_result_E:
  "(case x of None \<Rightarrow> m | Some y \<Rightarrow> f y) = Inr z \<Longrightarrow> (x = None \<Longrightarrow> m = Inr z \<Longrightarrow> P) \<Longrightarrow>
     (\<And>y. x = Some y \<Longrightarrow> f y = Inr z \<Longrightarrow> P) \<Longrightarrow> P"
  by (cases x) simp_all

lemmas result_elims = bindE_E assertE_E if_result_E prod_result_E option_result_E

subsection \<open>Folding a fallible step over a list\<close>

fun foldE :: "('a \<Rightarrow> 's \<Rightarrow> 's result) \<Rightarrow> 'a list \<Rightarrow> 's \<Rightarrow> 's result" where
  "foldE f [] s = Inr s"
| "foldE f (x # xs) s = bindE (f x s) (foldE f xs)"

lemma foldE_invariant:
  assumes "foldE f xs s = Inr t" and "P s"
    and "\<And>x s s'. x \<in> set xs \<Longrightarrow> P s \<Longrightarrow> f x s = Inr s' \<Longrightarrow> P s'"
  shows "P t"
  using assms
proof (induction xs arbitrary: s)
  case Nil
  then show ?case by simp
next
  case (Cons x xs)
  from Cons.prems(1) obtain s' where s': "f x s = Inr s'" "foldE f xs s' = Inr t"
    by (auto simp: result_simps)
  moreover from s'(1) Cons.prems have "P s'" by auto
  ultimately show ?case using Cons.IH Cons.prems(3) by auto
qed

lemma foldE_each:
  assumes "foldE f xs s = Inr t" "P s" "\<And>x s s'. x \<in> set xs \<Longrightarrow> P s \<Longrightarrow> f x s = Inr s' \<Longrightarrow> P s' \<and> Q x"
  shows "P t \<and> (\<forall>x \<in> set xs. Q x)"
  using assms
proof (induction xs arbitrary: s)
  case (Cons x xs)
  then obtain s1 where s1: "f x s = Inr s1" "foldE f xs s1 = Inr t" by (auto simp: bindE_eq_Inr)
  have x: "P s1 \<and> Q x" by (rule Cons.prems(3) [OF _ Cons.prems(2) s1(1)]) simp
  have "P t \<and> (\<forall>x \<in> set xs. Q x)"
    by (rule Cons.IH [OF s1(2) conjunct1 [OF x]]) (rule Cons.prems(3), simp_all)
  with x show ?case by simp
qed simp

lemma foldE_total:
  assumes "P s" "\<And>x s. x \<in> set xs \<Longrightarrow> P s \<Longrightarrow> \<exists>s'. f x s = Inr s' \<and> P s'"
  shows "\<exists>t. foldE f xs s = Inr t \<and> P t"
  using assms
proof (induction xs arbitrary: s)
  case (Cons x xs)
  obtain s1 where s1: "f x s = Inr s1" "P s1" using Cons.prems(2) [OF _ Cons.prems(1), of x] by auto
  have "\<exists>t. foldE f xs s1 = Inr t \<and> P t" by (rule Cons.IH [OF s1(2)]) (rule Cons.prems(2), simp_all)
  then show ?case using s1(1) by simp
qed simp

lemma case_option_ex: "(case x of None \<Rightarrow> False | Some y \<Rightarrow> p y) \<longleftrightarrow> (\<exists>y. x = Some y \<and> p y)"
  by (cases x) simp_all

lemma foldE_back:
  assumes "foldE f xs s = Inr s'" "Q s'" "\<And>x s s'. x \<in> set xs \<Longrightarrow> f x s = Inr s' \<Longrightarrow> Q s' \<Longrightarrow> Q s"
  shows "Q s"
  using assms
proof (induction xs arbitrary: s)
  case (Cons x xs)
  obtain s1 where s1: "f x s = Inr s1" "foldE f xs s1 = Inr s'" using Cons.prems(1) by (auto simp: bindE_eq_Inr)
  have "Q s1" by (rule Cons.IH [OF s1(2) Cons.prems(2)]) (rule Cons.prems(3), simp_all)
  then show ?case using Cons.prems(3) [OF _ s1(1)] by simp
qed simp

text \<open>A whole pass: two runs of a fold whose steps agree.\<close>

lemma foldE_sim:
  assumes "foldE f xs s = Inr s'" "R s t" "Q s'"
    and bwd: "\<And>x s s'. x \<in> set xs \<Longrightarrow> f x s = Inr s' \<Longrightarrow> Q s' \<Longrightarrow> Q s"
    and step: "\<And>x s s' t. x \<in> set xs \<Longrightarrow> f x s = Inr s' \<Longrightarrow> Q s' \<Longrightarrow> R s t \<Longrightarrow> \<exists>t'. h x t = Inr t' \<and> R s' t'"
  shows "\<exists>t'. foldE h xs t = Inr t' \<and> R s' t'"
  using assms
proof (induction xs arbitrary: s t)
  case (Cons x xs)
  obtain s1 where s1: "f x s = Inr s1" "foldE f xs s1 = Inr s'" using Cons.prems(1) by (auto simp: bindE_eq_Inr)
  have q: "Q s1" by (rule foldE_back [where Q = Q, OF s1(2) Cons.prems(3)]) (rule Cons.prems(4), simp_all)
  obtain t1 where t1: "h x t = Inr t1" "R s1 t1" using Cons.prems(5) [OF _ s1(1) q Cons.prems(2)] by auto
  have "\<exists>t'. foldE h xs t1 = Inr t' \<and> R s' t'"
  proof (rule Cons.IH [OF s1(2) t1(2) Cons.prems(3)])
    show "Q v" if "y \<in> set xs" "f y v = Inr w" "Q w" for y v w using Cons.prems(4) [OF _ that(2,3)] that(1) by simp
    show "\<exists>t'. h y u = Inr t' \<and> R w t'" if "y \<in> set xs" "f y v = Inr w" "Q w" "R v u" for y v w u
      using Cons.prems(5) [OF _ that(2-4)] that(1) by simp
  qed
  then show ?case using t1(1) by simp
qed simp

lemma foldE_same:
  assumes "foldE f xs s = Inr s'" "\<And>x s s'. x \<in> set xs \<Longrightarrow> f x s = Inr s' \<Longrightarrow> h x s = Inr s'"
  shows "foldE h xs s = Inr s'"
  using foldE_sim [where R = "(=)" and Q = "\<lambda>_. True", OF assms(1) refl] assms(2) by auto

subsection \<open>Integer arithmetic the components share\<close>

lemma floor_div_bounds:
  fixes a b :: int
  assumes "0 < b"
  shows "(a div b) * b \<le> a" and "a < (a div b + 1) * b"
proof -
  have "(a div b) * b + a mod b = a" by simp
  moreover have "0 \<le> a mod b" "a mod b < b" using assms by simp_all
  moreover have "(a div b + 1) * b = (a div b) * b + b" by (simp add: algebra_simps)
  ultimately show "(a div b) * b \<le> a" and "a < (a div b + 1) * b"
    by linarith+
qed

lemma le_div_iff_mult_le:
  fixes a b c :: int
  assumes "0 < b"
  shows "c \<le> a div b \<longleftrightarrow> c * b \<le> a"
proof
  assume "c \<le> a div b"
  then have "c * b \<le> (a div b) * b" using assms by (simp add: mult_right_mono)
  also have "\<dots> \<le> a" using assms by (rule floor_div_bounds)
  finally show "c * b \<le> a" .
next
  assume "c * b \<le> a"
  also have "a < (a div b + 1) * b" using assms by (rule floor_div_bounds)
  finally have "c < a div b + 1" using assms by (simp add: mult_less_cancel_right)
  then show "c \<le> a div b" by simp
qed

lemma ceiling_div_le_iff:
  fixes a b c :: int
  assumes "0 < b"
  shows "(a + b - 1) div b \<le> c \<longleftrightarrow> a \<le> c * b"
proof -
  have "(a + b - 1) div b \<le> c \<longleftrightarrow> \<not> c + 1 \<le> (a + b - 1) div b" by linarith
  also have "\<dots> \<longleftrightarrow> \<not> (c + 1) * b \<le> a + b - 1"
    using assms by (simp only: le_div_iff_mult_le)
  also have "\<dots> \<longleftrightarrow> a \<le> c * b" by (auto simp: algebra_simps)
  finally show ?thesis .
qed

end
