(* ===== verification/Config.thy ===== *)
theory Config
  imports Main
begin

text \<open>
  The chain constants of \<open>chain/include/graphene/chain/config.hpp\<close> and the hard fork times of
  \<open>chain/hardfork.d\<close> that the modelled code reads.  Times are \<open>fc::time_point_sec\<close>
  values, seconds since the epoch, as natural numbers.
\<close>

definition MAX_SHARE_SUPPLY :: int where
  "MAX_SHARE_SUPPLY = 1000000000000000"

definition PERCENT_100 :: int where
  "PERCENT_100 = 10000"

definition PERCENT_1 :: int where
  "PERCENT_1 = PERCENT_100 div 100"

definition COLLATERAL_RATIO_DENOM :: int where
  "COLLATERAL_RATIO_DENOM = 1000"

definition MIN_COLLATERAL_RATIO :: int where
  "MIN_COLLATERAL_RATIO = 1001"

definition MAX_COLLATERAL_RATIO :: int where
  "MAX_COLLATERAL_RATIO = 32000"

definition DEFAULT_MAINTENANCE_COLLATERAL_RATIO :: int where
  "DEFAULT_MAINTENANCE_COLLATERAL_RATIO = 1750"

definition DEFAULT_MAX_SHORT_SQUEEZE_RATIO :: int where
  "DEFAULT_MAX_SHORT_SQUEEZE_RATIO = 1500"

lemmas ratio_consts = MAX_SHARE_SUPPLY_def PERCENT_100_def PERCENT_1_def
  COLLATERAL_RATIO_DENOM_def MIN_COLLATERAL_RATIO_def MAX_COLLATERAL_RATIO_def
  DEFAULT_MAINTENANCE_COLLATERAL_RATIO_def DEFAULT_MAX_SHORT_SQUEEZE_RATIO_def

definition HARDFORK_413_TIME :: nat where "HARDFORK_413_TIME = 1446652800"
definition HARDFORK_419_TIME :: nat where "HARDFORK_419_TIME = 1446652800"
definition HARDFORK_436_TIME :: nat where "HARDFORK_436_TIME = 1450288800"
definition HARDFORK_445_TIME :: nat where "HARDFORK_445_TIME = 1450288800"
definition HARDFORK_480_TIME :: nat where "HARDFORK_480_TIME = 1450378800"
definition HARDFORK_555_TIME :: nat where "HARDFORK_555_TIME = 1456250400"
definition HARDFORK_615_TIME :: nat where "HARDFORK_615_TIME = 1458752400"
definition HARDFORK_CORE_184_TIME :: nat where "HARDFORK_CORE_184_TIME = 1532008920"
definition HARDFORK_CORE_188_TIME :: nat where "HARDFORK_CORE_188_TIME = 1532008920"
definition HARDFORK_CORE_199_TIME :: nat where "HARDFORK_CORE_199_TIME = 1532008920"
definition HARDFORK_CORE_216_TIME :: nat where "HARDFORK_CORE_216_TIME = 1512747600"
definition HARDFORK_CORE_338_TIME :: nat where "HARDFORK_CORE_338_TIME = 1532008920"
definition HARDFORK_CORE_342_TIME :: nat where "HARDFORK_CORE_342_TIME = 1532008920"
definition HARDFORK_CORE_343_TIME :: nat where "HARDFORK_CORE_343_TIME = 1532008920"
definition HARDFORK_CORE_453_TIME :: nat where "HARDFORK_CORE_453_TIME = 1532008920"
definition HARDFORK_CORE_583_TIME :: nat where "HARDFORK_CORE_583_TIME = 1532008920"
definition HARDFORK_CORE_604_TIME :: nat where "HARDFORK_CORE_604_TIME = 1532008920"
definition HARDFORK_CORE_606_TIME :: nat where "HARDFORK_CORE_606_TIME = 1532008920"
definition HARDFORK_CORE_625_TIME :: nat where "HARDFORK_CORE_625_TIME = 1532008920"
definition HARDFORK_CORE_1040_TIME :: nat where "HARDFORK_CORE_1040_TIME = 1532008920"
definition HARDFORK_CORE_834_TIME :: nat where "HARDFORK_CORE_834_TIME = 1532008920"

lemmas hardfork_times =
  HARDFORK_413_TIME_def HARDFORK_419_TIME_def HARDFORK_436_TIME_def HARDFORK_445_TIME_def
  HARDFORK_480_TIME_def HARDFORK_555_TIME_def HARDFORK_615_TIME_def HARDFORK_CORE_184_TIME_def
  HARDFORK_CORE_188_TIME_def HARDFORK_CORE_199_TIME_def HARDFORK_CORE_216_TIME_def HARDFORK_CORE_338_TIME_def
  HARDFORK_CORE_342_TIME_def HARDFORK_CORE_343_TIME_def HARDFORK_CORE_453_TIME_def HARDFORK_CORE_583_TIME_def
  HARDFORK_CORE_604_TIME_def HARDFORK_CORE_606_TIME_def HARDFORK_CORE_625_TIME_def HARDFORK_CORE_834_TIME_def
  HARDFORK_CORE_1040_TIME_def

end
