(* ===== verification/Safe_Int.thy ===== *)
theory Safe_Int
  imports Prelude "HOL-Library.Signed_Division"
begin

text \<open>
  The overflow-checked integer \<open>fc::safe<int64_t>\<close> of \<open>fc/include/fc/safe.hpp\<close>, the
  representation of every quantity of shares (\<open>share_type\<close>).

  The value of a \<open>safe<int64_t>\<close> is an \<open>int64_t\<close>; it is modelled as an \<open>int\<close>
  that satisfies \<open>int64_ok\<close>.  Each operator tests its operands exactly as the source does,
  with C++ division (\<open>sdiv\<close> and \<open>smod\<close>, which truncate towards zero), before it
  computes.  The theorems show that these tests are the right ones: an operator returns the exact
  mathematical result whenever that result is an \<open>int64_t\<close> and throws otherwise.
\<close>

type_synonym share = int

definition safe_min :: int where
  "safe_min = - (2 ^ 63)"

definition safe_max :: int where
  "safe_max = 2 ^ 63 - 1"

definition int64_ok :: "int \<Rightarrow> bool" where
  "int64_ok x \<longleftrightarrow> safe_min \<le> x \<and> x \<le> safe_max"

definition safe_add :: "share \<Rightarrow> share \<Rightarrow> share result" where
  "safe_add a b =
     (if 0 < b \<and> safe_max - b < a then Inl Overflow
      else if b < 0 \<and> a < safe_min - b then Inl Underflow
      else Inr (a + b))"

definition safe_sub :: "share \<Rightarrow> share \<Rightarrow> share result" where
  "safe_sub a b =
     (if 0 < b \<and> a < safe_min + b then Inl Underflow
      else if b < 0 \<and> safe_max + b < a then Inl Overflow
      else Inr (a - b))"

definition safe_mul :: "share \<Rightarrow> share \<Rightarrow> share result" where
  "safe_mul a b =
     (if 0 < a then
        (if 0 < b then
           (if safe_max sdiv b < a then Inl Overflow else Inr (a * b))
         else
           (if b < safe_min sdiv a then Inl Underflow else Inr (a * b)))
      else
        (if 0 < b then
           (if a < safe_min sdiv b then Inl Underflow else Inr (a * b))
         else
           (if a \<noteq> 0 \<and> b < safe_max sdiv a then Inl Overflow else Inr (a * b))))"

definition safe_div :: "share \<Rightarrow> share \<Rightarrow> share result" where
  "safe_div a b =
     (if b = 0 then Inl DivideByZero
      else if a = safe_min \<and> b = - 1 then Inl Overflow
      else Inr (a sdiv b))"

definition safe_mod :: "share \<Rightarrow> share \<Rightarrow> share result" where
  "safe_mod a b =
     (if b = 0 then Inl DivideByZero
      else if a = safe_min \<and> b = - 1 then Inl Overflow
      else Inr (a smod b))"

definition safe_neg :: "share \<Rightarrow> share result" where
  "safe_neg a = (if a = safe_min then Inl Overflow else Inr (- a))"

definition safe_incr :: "share \<Rightarrow> share result" where
  "safe_incr a = safe_add a 1"

definition safe_decr :: "share \<Rightarrow> share result" where
  "safe_decr a = safe_sub a 1"

named_theorems safe_defs \<open>definitions of the checked operators\<close>

declare safe_add_def [safe_defs] safe_sub_def [safe_defs] safe_mul_def [safe_defs]
  safe_div_def [safe_defs] safe_mod_def [safe_defs] safe_neg_def [safe_defs]
  safe_incr_def [safe_defs] safe_decr_def [safe_defs]

subsection \<open>What the operators compute\<close>

lemma int64_ok_zero [simp]: "int64_ok 0" "int64_ok 1"
  by (simp_all add: int64_ok_def safe_min_def safe_max_def)

lemma safe_add_eq_Inr:
  "int64_ok a \<Longrightarrow> int64_ok b \<Longrightarrow> safe_add a b = Inr c \<longleftrightarrow> c = a + b \<and> int64_ok c"
  by (auto simp: safe_add_def int64_ok_def)

lemma safe_sub_eq_Inr:
  "int64_ok a \<Longrightarrow> int64_ok b \<Longrightarrow> safe_sub a b = Inr c \<longleftrightarrow> c = a - b \<and> int64_ok c"
  by (auto simp: safe_sub_def int64_ok_def)

lemma safe_add_Inr [result_simps]:
  "safe_add a b = Inr c \<longleftrightarrow> c = a + b \<and> (0 < b \<longrightarrow> a + b \<le> safe_max) \<and> (b < 0 \<longrightarrow> safe_min \<le> a + b)"
  by (auto simp: safe_add_def)

lemma safe_sub_Inr [result_simps]:
  "safe_sub a b = Inr c \<longleftrightarrow> c = a - b \<and> (0 < b \<longrightarrow> safe_min \<le> a - b) \<and> (b < 0 \<longrightarrow> a - b \<le> safe_max)"
  by (auto simp: safe_sub_def)

lemma safe_neg_Inr [result_simps]: "safe_neg a = Inr c \<longleftrightarrow> a \<noteq> safe_min \<and> c = - a"
  by (auto simp: safe_neg_def)

lemma sdiv_pos_pos: "0 \<le> (a::int) \<Longrightarrow> 0 < b \<Longrightarrow> a sdiv b = a div b"
  by (cases "a = 0") (simp_all add: signed_divide_int_def sgn_if)

lemma sdiv_neg_pos: "(a::int) < 0 \<Longrightarrow> 0 < b \<Longrightarrow> a sdiv b = - ((- a) div b)"
  by (simp add: signed_divide_int_def sgn_if)

lemma sdiv_pos_neg: "0 < (a::int) \<Longrightarrow> b < 0 \<Longrightarrow> a sdiv b = - (a div (- b))"
  by (simp add: signed_divide_int_def sgn_if)

lemma div_less_iff: "0 < (b::int) \<Longrightarrow> m div b < a \<longleftrightarrow> m < a * b"
  using le_div_iff_mult_le [of b a m] by linarith

lemma safe_bounds [simp]:
  "0 < safe_max" "0 \<le> safe_max" "safe_min < 0" "safe_min \<le> 0" "safe_min \<le> safe_max"
  by (simp_all add: safe_min_def safe_max_def)

lemma safe_mul_cases:
  "safe_mul a b =
     (if safe_max < a * b then Inl Overflow
      else if a * b < safe_min then Inl Underflow
      else Inr (a * b))"
proof -
  consider (pp) "0 < a" "0 < b" | (pn) "0 < a" "b \<le> 0" | (np) "a \<le> 0" "0 < b"
    | (nn) "a < 0" "b \<le> 0" | (z) "a = 0" "b \<le> 0" by linarith
  then show ?thesis
  proof cases
    case pp
    then have "0 < a * b" by simp
    then have "\<not> a * b < safe_min" using safe_bounds by linarith
    with pp show ?thesis by (simp add: safe_mul_def sdiv_pos_pos div_less_iff)
  next
    case pn
    then have "a * b \<le> 0" by (simp add: mult_le_0_iff)
    then have "\<not> safe_max < a * b" using safe_bounds by linarith
    moreover have "b < safe_min sdiv a \<longleftrightarrow> a * b < safe_min"
      using pn div_less_iff [of a "- safe_min" "- b"]
      by (simp add: sdiv_neg_pos mult.commute) linarith
    ultimately show ?thesis using pn by (simp add: safe_mul_def)
  next
    case np
    then have "a * b \<le> 0" by (simp add: mult_le_0_iff)
    then have "\<not> safe_max < a * b" using safe_bounds by linarith
    moreover have "a < safe_min sdiv b \<longleftrightarrow> a * b < safe_min"
      using np div_less_iff [of b "- safe_min" "- a"] by (simp add: sdiv_neg_pos) linarith
    ultimately show ?thesis using np by (simp add: safe_mul_def)
  next
    case nn
    then have "0 \<le> a * b" by (simp add: zero_le_mult_iff)
    then have "\<not> a * b < safe_min" using safe_bounds by linarith
    moreover have "b < safe_max sdiv a \<longleftrightarrow> safe_max < a * b"
      using nn div_less_iff [of "- a" safe_max "- b"]
      by (simp add: sdiv_pos_neg mult.commute) linarith
    ultimately show ?thesis using nn by (simp add: safe_mul_def)
  next
    case z
    then show ?thesis using safe_bounds by (simp add: safe_mul_def not_less)
  qed
qed

lemma abs_sdiv_le: "\<bar>a sdiv b\<bar> \<le> \<bar>a\<bar>" for a b :: int
proof (cases "b = 0")
  case True
  then show ?thesis by (simp add: signed_divide_int_def)
next
  case False
  then have "\<bar>a\<bar> div \<bar>b\<bar> \<le> \<bar>a\<bar> div 1" by (intro zdiv_mono2) auto
  moreover have "0 \<le> \<bar>a\<bar> div \<bar>b\<bar>" using False by (simp add: pos_imp_zdiv_nonneg_iff)
  ultimately show ?thesis by (auto simp: signed_divide_int_def abs_mult sgn_if)
qed

lemma sdiv_int64:
  assumes "int64_ok a" and "b \<noteq> 0" and "\<not> (a = safe_min \<and> b = - 1)"
  shows "int64_ok (a sdiv b)"
proof (cases "a = safe_min")
  case False
  with assms(1) abs_sdiv_le [of a b] show ?thesis
    by (auto simp: int64_ok_def safe_min_def safe_max_def)
next
  case True
  with assms consider "b = 1" | "2 \<le> \<bar>b\<bar>" by linarith
  then show ?thesis
  proof cases
    case 1
    with True show ?thesis by (simp add: int64_ok_def)
  next
    case 2
    then have "\<bar>a\<bar> div \<bar>b\<bar> \<le> \<bar>a\<bar> div 2" by (intro zdiv_mono2) auto
    moreover have "0 \<le> \<bar>a\<bar> div \<bar>b\<bar>" using 2 by (simp add: pos_imp_zdiv_nonneg_iff)
    moreover have "\<bar>a\<bar> div 2 = 2 ^ 62" using True by (simp add: safe_min_def)
    ultimately have "\<bar>a sdiv b\<bar> \<le> 2 ^ 62" by (auto simp: signed_divide_int_def abs_mult sgn_if)
    then show ?thesis by (auto simp: int64_ok_def safe_min_def safe_max_def)
  qed
qed

text \<open>
  C1. Exactness of the checked arithmetic of \<open>share_type\<close>: on any two \<open>int64_t\<close>
  operands, each of \<open>+\<close>, \<open>-\<close> and \<open>*\<close> throws the overflow exception
  exactly when the mathematical result is above the largest \<open>int64_t\<close>, the underflow
  exception exactly when it is below the smallest, and otherwise returns it unchanged; division
  by a nonzero divisor throws exactly when the truncated quotient is not an \<open>int64_t\<close>, and so does the
  remainder, which otherwise is what the quotient leaves of the dividend; negation throws exactly when
  the negated value is not an \<open>int64_t\<close>.
\<close>

theorem safe_arith_exact:
  assumes "int64_ok a" and "int64_ok b"
  shows "safe_add a b = (if safe_max < a + b then Inl Overflow
           else if a + b < safe_min then Inl Underflow else Inr (a + b))
       \<and> safe_sub a b = (if safe_max < a - b then Inl Overflow
           else if a - b < safe_min then Inl Underflow else Inr (a - b))
       \<and> safe_mul a b = (if safe_max < a * b then Inl Overflow
           else if a * b < safe_min then Inl Underflow else Inr (a * b))
       \<and> safe_div a b = (if b = 0 then Inl DivideByZero
           else if int64_ok (a sdiv b) then Inr (a sdiv b) else Inl Overflow)
       \<and> safe_mod a b = (if b = 0 then Inl DivideByZero
           else if int64_ok (a sdiv b) then Inr (a - (a sdiv b) * b) else Inl Overflow)
       \<and> safe_neg a = (if int64_ok (- a) then Inr (- a) else Inl Overflow)"
proof (intro conjI)
  show "safe_div a b = (if b = 0 then Inl DivideByZero
          else if int64_ok (a sdiv b) then Inr (a sdiv b) else Inl Overflow)"
    using sdiv_int64 [OF assms(1), of b]
    by (auto simp: safe_div_def int64_ok_def safe_min_def safe_max_def)
  show "safe_mod a b = (if b = 0 then Inl DivideByZero
          else if int64_ok (a sdiv b) then Inr (a - (a sdiv b) * b) else Inl Overflow)"
    using sdiv_int64 [OF assms(1), of b]
    by (auto simp: safe_mod_def int64_ok_def safe_min_def safe_max_def minus_sdiv_mult_eq_smod)
  show "safe_neg a = (if int64_ok (- a) then Inr (- a) else Inl Overflow)"
    using assms(1) by (auto simp: safe_neg_def int64_ok_def safe_min_def safe_max_def)
qed (use assms in \<open>auto simp: safe_add_def safe_sub_def safe_mul_cases int64_ok_def\<close>)

theorem safe_arith_exact_witness:
  "safe_add safe_max 1 = Inl Overflow \<and> safe_sub safe_min 1 = Inl Underflow
   \<and> safe_mul 3037000500 3037000500 = Inl Overflow \<and> safe_mul (- 3) 5 = Inr (- 15)
   \<and> safe_div safe_min (- 1) = Inl Overflow \<and> safe_mod (- 3) 5 = Inr (- 3) \<and> safe_neg safe_min = Inl Overflow"
  using safe_arith_exact [of safe_max 1] safe_arith_exact [of safe_min 1]
    safe_arith_exact [of 3037000500 3037000500] safe_arith_exact [of "- 3" 5]
    safe_arith_exact [of safe_min "- 1"]
  by (simp add: int64_ok_def safe_min_def safe_max_def signed_divide_int_def)

end
