(* ===== verification/Rational.thy ===== *)
theory Rational
  imports Prelude
begin

text \<open>
  The exact fractions \<open>boost::rational<T>\<close> that the price arithmetic of
  \<open>chain/protocol/asset.cpp\<close> computes with: a pair (numerator, denominator) that the
  constructor brings to lowest terms with a positive denominator, as the Boost manual documents.
  The integers are unbounded here.  In the source they are \<open>int128_t\<close> (or \<open>int32_t\<close> for
  \<open>ratio_type\<close>); the values the callers build from two \<open>int64_t\<close> amounts and a
  16-bit ratio stay far below \<open>2 ^ 127\<close>.
\<close>

type_synonym rational = "int \<times> int"

definition numer :: "rational \<Rightarrow> int" where
  "numer r = fst r"

definition denom :: "rational \<Rightarrow> int" where
  "denom r = snd r"

definition rnormalize :: "int \<Rightarrow> int \<Rightarrow> rational" where
  "rnormalize n d =
     (let g = gcd n d in if d < 0 then ((- n) div g, (- d) div g) else (n div g, d div g))"

definition mk_rational :: "int \<Rightarrow> int \<Rightarrow> rational result" where
  "mk_rational n d = (if d = 0 then Inl DivideByZero else Inr (rnormalize n d))"

definition rat_mult :: "rational \<Rightarrow> rational \<Rightarrow> rational" where
  "rat_mult a b = rnormalize (numer a * numer b) (denom a * denom b)"

definition rat_minus :: "rational \<Rightarrow> rational \<Rightarrow> rational" where
  "rat_minus a b = rnormalize (numer a * denom b - numer b * denom a) (denom a * denom b)"

definition rat_abs :: "rational \<Rightarrow> rational" where
  "rat_abs a = (\<bar>numer a\<bar>, denom a)"

definition rat_less :: "rational \<Rightarrow> rational \<Rightarrow> bool" where
  "rat_less a b \<longleftrightarrow> numer a * denom b < numer b * denom a"

lemma numer_denom_simps [simp]: "numer (n, d) = n" "denom (n, d) = d"
  by (simp_all add: numer_def denom_def)

lemma rnormalize_scale:
  assumes "0 < d"
  obtains g where "0 < g" "n = numer (rnormalize n d) * g" "d = denom (rnormalize n d) * g"
proof
  show "0 < gcd n d" using assms by simp
  show "n = numer (rnormalize n d) * gcd n d"
    using assms by (simp add: rnormalize_def Let_def)
  show "d = denom (rnormalize n d) * gcd n d"
    using assms by (simp add: rnormalize_def Let_def)
qed

lemma rnormalize_cross:
  assumes "0 < d"
  shows "numer (rnormalize n d) * d = n * denom (rnormalize n d)"
  using rnormalize_scale [OF assms, of n] by (metis mult.assoc mult.commute)

lemma denom_rnormalize_pos: "0 < d \<Longrightarrow> 0 < denom (rnormalize n d)"
  by (metis rnormalize_scale zero_less_mult_pos2)

lemma numer_rnormalize_pos: "0 < d \<Longrightarrow> 0 < n \<Longrightarrow> 0 < numer (rnormalize n d)"
  by (metis rnormalize_scale zero_less_mult_pos2)

lemma numer_rnormalize_nonneg: "0 < d \<Longrightarrow> 0 \<le> n \<Longrightarrow> 0 \<le> numer (rnormalize n d)"
  using numer_rnormalize_pos [of d n] by (cases "n = 0") (auto simp: rnormalize_def Let_def)

lemma abs_div_gcd_le: "\<bar>x div g\<bar> \<le> \<bar>x\<bar>" if "g dvd x" for x g :: int
proof (cases "x = 0")
  case False
  with that obtain k where k: "x = g * k" "g \<noteq> 0" "k \<noteq> 0" by (auto elim: dvdE)
  then have "\<bar>k\<bar> * 1 \<le> \<bar>k\<bar> * \<bar>g\<bar>" by (intro mult_left_mono) auto
  with k show ?thesis by (simp add: abs_mult mult.commute)
qed simp

lemma rnormalize_abs_le:
  "\<bar>numer (rnormalize n d)\<bar> \<le> \<bar>n\<bar>" "\<bar>denom (rnormalize n d)\<bar> \<le> \<bar>d\<bar>"
  using abs_div_gcd_le [of "gcd n d" n] abs_div_gcd_le [of "gcd n d" d]
    abs_div_gcd_le [of "gcd n d" "- n"] abs_div_gcd_le [of "gcd n d" "- d"]
  by (auto simp: rnormalize_def Let_def)

lemma rnormalize_coprime:
  assumes "0 < d"
  shows "coprime (numer (rnormalize n d)) (denom (rnormalize n d))"
  using assms div_gcd_coprime [of n d] by (auto simp: rnormalize_def Let_def)

lemma rnormalize_idem: "coprime n d \<Longrightarrow> 0 < d \<Longrightarrow> rnormalize n d = (n, d)"
  by (simp add: rnormalize_def)

lemma rnormalize_0: "0 < d \<Longrightarrow> rnormalize 0 d = (0, 1)"
  by (simp add: rnormalize_def Let_def)

lemma rnormalize_le:
  assumes "0 < n" "0 < d"
  shows "numer (rnormalize n d) \<le> n" "denom (rnormalize n d) \<le> d"
  using rnormalize_abs_le [of n d] assms by linarith+

lemma rat_mult_pos:
  assumes "0 < numer a" "0 < denom a" "0 < numer b" "0 < denom b"
  shows "0 < numer (rat_mult a b)" "0 < denom (rat_mult a b)"
  using assms by (simp_all add: rat_mult_def numer_rnormalize_pos denom_rnormalize_pos)

lemma rat_mult_cross:
  assumes "0 < denom a" "0 < denom b"
  shows "numer (rat_mult a b) * (denom a * denom b) = numer a * numer b * denom (rat_mult a b)"
  using rnormalize_cross [of "denom a * denom b" "numer a * numer b"] assms
  by (simp add: rat_mult_def)

lemma rat_mult_rnormalize_cross:
  fixes a b c d :: int
  assumes "0 < b" "0 < d"
  defines "cp \<equiv> rat_mult (rnormalize a b) (rnormalize c d)"
  shows "numer cp * (b * d) = a * c * denom cp"
proof -
  let ?p = "rnormalize a b" and ?q = "rnormalize c d"
  have p: "numer ?p * b = a * denom ?p" and q: "numer ?q * d = c * denom ?q"
    using rnormalize_cross assms(1,2) by auto
  have dp: "0 < denom ?p" "0 < denom ?q" using assms(1,2) by (simp_all add: denom_rnormalize_pos)
  have "(numer cp * (b * d)) * (denom ?p * denom ?q) = (numer cp * (denom ?p * denom ?q)) * (b * d)"
    by (simp add: ac_simps)
  also have "\<dots> = (numer ?p * b) * (numer ?q * d) * denom cp"
    unfolding cp_def by (subst rat_mult_cross [OF dp]) (simp add: ac_simps)
  also have "\<dots> = (a * c * denom cp) * (denom ?p * denom ?q)"
    using p q by algebra
  finally show ?thesis using dp by simp
qed

lemma rat_mult_le:
  assumes "0 < numer a" "0 < denom a" "0 < numer b" "0 < denom b"
  shows "numer (rat_mult a b) \<le> numer a * numer b" "denom (rat_mult a b) \<le> denom a * denom b"
  unfolding rat_mult_def using assms by (intro rnormalize_le; simp)+

lemma rnormalize_measure:
  assumes "\<bar>n'\<bar> + \<bar>d'\<bar> < \<bar>n\<bar> + \<bar>d\<bar>"
  shows "nat (\<bar>numer (rnormalize n' d')\<bar> + \<bar>denom (rnormalize n' d')\<bar>) < nat (\<bar>n\<bar> + \<bar>d\<bar>)"
  using assms rnormalize_abs_le [of n' d'] by linarith

end
