(* ===== verification/Asset.thy ===== *)
theory Asset
  imports Prelude Safe_Int Rational Config
begin

text \<open>
  \<open>asset\<close>, \<open>price\<close> and \<open>price_feed\<close> of
  \<open>chain/include/graphene/chain/protocol/asset.hpp\<close> and
  \<open>chain/protocol/asset.cpp\<close>: amounts of an asset, exchange rates as quotients of two amounts,
  the comparison of rates by cross multiplication in 128 bits, the conversion of an amount at a
  rate (rounding down or up), and the derived rates of margin calls.

  An asset is named by its instance number (\<open>asset_id_type\<close>); number 0 is the core asset.
  The 128-bit products are computed in \<open>128 word\<close>, as \<open>uint128_t\<close> wraps modulo
  \<open>2 ^ 128\<close> (also on a negative operand, which converts by two's complement).  The lemmas
  below show that nothing wraps on \<open>int64_t\<close> operands that are not negative.
\<close>

type_synonym asset_id_type = nat

definition CORE :: asset_id_type where
  "CORE = 0"

record asset =
  amount :: share
  asset_id :: asset_id_type

record price =
  base :: asset
  quote :: asset

definition mk_asset :: "share \<Rightarrow> asset_id_type \<Rightarrow> asset" where
  "mk_asset a i = \<lparr>amount = a, asset_id = i\<rparr>"

definition null_price :: price where
  "null_price = \<lparr>base = mk_asset 0 CORE, quote = mk_asset 0 CORE\<rparr>"

lemma mk_asset_simps [simp]:
  "amount (mk_asset a i) = a" "asset_id (mk_asset a i) = i"
  "mk_asset a i = mk_asset b j \<longleftrightarrow> a = b \<and> i = j"
  by (simp_all add: mk_asset_def)

lemma mk_asset_amount [simp]: "mk_asset (amount x) (asset_id x) = x"
  by (simp add: mk_asset_def)

lemma asset_eq_iff: "x = y \<longleftrightarrow> amount x = amount y \<and> asset_id x = asset_id y" for x y :: asset
  by auto

subsection \<open>Arithmetic and comparison of amounts\<close>

definition asset_add :: "asset \<Rightarrow> asset \<Rightarrow> asset result" where
  "asset_add a b =
     assertE (asset_id a = asset_id b)
       (bindE (safe_add (amount a) (amount b)) (\<lambda>x. Inr (mk_asset x (asset_id a))))"

definition asset_sub :: "asset \<Rightarrow> asset \<Rightarrow> asset result" where
  "asset_sub a b =
     assertE (asset_id a = asset_id b)
       (bindE (safe_sub (amount a) (amount b)) (\<lambda>x. Inr (mk_asset x (asset_id a))))"

definition asset_neg :: "asset \<Rightarrow> asset result" where
  "asset_neg a = bindE (safe_neg (amount a)) (\<lambda>x. Inr (mk_asset x (asset_id a)))"

definition asset_less :: "asset \<Rightarrow> asset \<Rightarrow> bool result" where
  "asset_less a b = assertE (asset_id a = asset_id b) (Inr (amount a < amount b))"

definition asset_le :: "asset \<Rightarrow> asset \<Rightarrow> bool result" where
  "asset_le a b = bindE (asset_less b a) (\<lambda>r. Inr (\<not> r))"

definition asset_gt :: "asset \<Rightarrow> asset \<Rightarrow> bool result" where
  "asset_gt a b = asset_less b a"

definition asset_ge :: "asset \<Rightarrow> asset \<Rightarrow> bool result" where
  "asset_ge a b = bindE (asset_less a b) (\<lambda>r. Inr (\<not> r))"

definition asset_min :: "asset \<Rightarrow> asset \<Rightarrow> asset result" where
  "asset_min a b = bindE (asset_less b a) (\<lambda>r. Inr (if r then b else a))"

definition scaled_precision_lut :: "int list" where
  "scaled_precision_lut = map (\<lambda>n. 10 ^ n) [0..<19]"

definition scaled_precision :: "nat \<Rightarrow> share result" where
  "scaled_precision p = assertE (p < 19) (Inr (scaled_precision_lut ! p))"

lemma asset_arith_Inr [result_simps]:
  "asset_add a b = Inr c \<longleftrightarrow>
     asset_id a = asset_id b \<and> asset_id c = asset_id a \<and> safe_add (amount a) (amount b) = Inr (amount c)"
  "asset_sub a b = Inr c \<longleftrightarrow>
     asset_id a = asset_id b \<and> asset_id c = asset_id a \<and> safe_sub (amount a) (amount b) = Inr (amount c)"
  "asset_neg a = Inr c \<longleftrightarrow> asset_id c = asset_id a \<and> safe_neg (amount a) = Inr (amount c)"
  unfolding asset_add_def asset_sub_def asset_neg_def
  by (auto simp: bindE_eq_Inr assertE_eq_Inr asset_eq_iff)

lemma asset_cmp_Inr [result_simps]:
  "asset_less a b = Inr r \<longleftrightarrow> asset_id a = asset_id b \<and> (r \<longleftrightarrow> amount a < amount b)"
  "asset_le a b = Inr r \<longleftrightarrow> asset_id b = asset_id a \<and> (r \<longleftrightarrow> amount a \<le> amount b)"
  "asset_gt a b = Inr r \<longleftrightarrow> asset_id b = asset_id a \<and> (r \<longleftrightarrow> amount b < amount a)"
  "asset_ge a b = Inr r \<longleftrightarrow> asset_id a = asset_id b \<and> (r \<longleftrightarrow> amount b \<le> amount a)"
  unfolding asset_less_def asset_le_def asset_gt_def asset_ge_def
  by (auto simp: bindE_eq_Inr assertE_eq_Inr)

lemma asset_min_Inr [result_simps]:
  "asset_min a b = Inr c \<longleftrightarrow>
     asset_id b = asset_id a \<and> c = (if amount b < amount a then b else a)"
  unfolding asset_min_def by (auto simp: result_simps)

subsection \<open>Prices\<close>

definition u128 :: "int \<Rightarrow> 128 word" where
  "u128 x = word_of_int x"

definition price_eq :: "price \<Rightarrow> price \<Rightarrow> bool" where
  "price_eq a b \<longleftrightarrow>
     (if (asset_id (base a), asset_id (quote a)) \<noteq> (asset_id (base b), asset_id (quote b)) then False
      else u128 (amount (quote b)) * u128 (amount (base a))
             = u128 (amount (quote a)) * u128 (amount (base b)))"

definition price_less :: "price \<Rightarrow> price \<Rightarrow> bool" where
  "price_less a b \<longleftrightarrow>
     (if asset_id (base a) < asset_id (base b) then True
      else if asset_id (base b) < asset_id (base a) then False
      else if asset_id (quote a) < asset_id (quote b) then True
      else if asset_id (quote b) < asset_id (quote a) then False
      else u128 (amount (quote b)) * u128 (amount (base a))
             < u128 (amount (quote a)) * u128 (amount (base b)))"

definition price_gt :: "price \<Rightarrow> price \<Rightarrow> bool" where
  "price_gt a b = price_less b a"

definition price_le :: "price \<Rightarrow> price \<Rightarrow> bool" where
  "price_le a b = (\<not> price_less b a)"

definition price_ge :: "price \<Rightarrow> price \<Rightarrow> bool" where
  "price_ge a b = (\<not> price_less a b)"

definition price_inv :: "price \<Rightarrow> price" where
  "price_inv p = \<lparr>base = quote p, quote = base p\<rparr>"

definition asset_div :: "asset \<Rightarrow> asset \<Rightarrow> price result" where
  "asset_div b q = assertE (asset_id b \<noteq> asset_id q) (Inr \<lparr>base = b, quote = q\<rparr>)"

definition price_max :: "asset_id_type \<Rightarrow> asset_id_type \<Rightarrow> price result" where
  "price_max b q = asset_div (mk_asset MAX_SHARE_SUPPLY b) (mk_asset 1 q)"

definition price_min :: "asset_id_type \<Rightarrow> asset_id_type \<Rightarrow> price result" where
  "price_min b q = asset_div (mk_asset 1 b) (mk_asset MAX_SHARE_SUPPLY q)"

definition price_is_null :: "price \<Rightarrow> bool" where
  "price_is_null p \<longleftrightarrow> asset_id (base p) = CORE \<and> asset_id (quote p) = CORE"

definition price_validate :: "price \<Rightarrow> unit result" where
  "price_validate p =
     assertE (0 < amount (base p))
       (assertE (0 < amount (quote p))
         (assertE (asset_id (base p) \<noteq> asset_id (quote p)) (Inr ())))"

definition asset_mul :: "asset \<Rightarrow> price \<Rightarrow> asset result" where
  "asset_mul a b =
     (if asset_id a = asset_id (base b) then
        assertE (0 < amount (base b))
          (let result = (u128 (amount a) * u128 (amount (quote b))) div u128 (amount (base b))
           in assertE (result \<le> u128 MAX_SHARE_SUPPLY)
                (Inr (mk_asset (uint result) (asset_id (quote b)))))
      else if asset_id a = asset_id (quote b) then
        assertE (0 < amount (quote b))
          (let result = (u128 (amount a) * u128 (amount (base b))) div u128 (amount (quote b))
           in assertE (result \<le> u128 MAX_SHARE_SUPPLY)
                (Inr (mk_asset (uint result) (asset_id (base b)))))
      else Inl AssertFailed)"

definition multiply_and_round_up :: "asset \<Rightarrow> price \<Rightarrow> asset result" where
  "multiply_and_round_up a b =
     (if asset_id a = asset_id (base b) then
        assertE (0 < amount (base b))
          (let result = (u128 (amount a) * u128 (amount (quote b)) + u128 (amount (base b)) - 1)
                          div u128 (amount (base b))
           in assertE (result \<le> u128 MAX_SHARE_SUPPLY)
                (Inr (mk_asset (uint result) (asset_id (quote b)))))
      else if asset_id a = asset_id (quote b) then
        assertE (0 < amount (quote b))
          (let result = (u128 (amount a) * u128 (amount (base b)) + u128 (amount (quote b)) - 1)
                          div u128 (amount (quote b))
           in assertE (result \<le> u128 MAX_SHARE_SUPPLY)
                (Inr (mk_asset (uint result) (asset_id (base b)))))
      else Inl AssertFailed)"

subsection \<open>No wrap-around on amounts\<close>

definition share_ok :: "share \<Rightarrow> bool" where
  "share_ok x \<longleftrightarrow> 0 \<le> x \<and> x \<le> safe_max"

definition valid_price :: "price \<Rightarrow> bool" where
  "valid_price p \<longleftrightarrow>
     0 < amount (base p) \<and> amount (base p) \<le> safe_max \<and>
     0 < amount (quote p) \<and> amount (quote p) \<le> safe_max \<and>
     asset_id (base p) \<noteq> asset_id (quote p)"

lemma valid_priceD:
  "valid_price p \<Longrightarrow> share_ok (amount (base p))"
  "valid_price p \<Longrightarrow> share_ok (amount (quote p))"
  "valid_price p \<Longrightarrow> 0 < amount (base p)"
  "valid_price p \<Longrightarrow> 0 < amount (quote p)"
  "valid_price p \<Longrightarrow> asset_id (base p) \<noteq> asset_id (quote p)"
  by (auto simp: valid_price_def share_ok_def)

lemma uint_u128: "0 \<le> x \<Longrightarrow> x < 2 ^ 128 \<Longrightarrow> uint (u128 x) = x"
  by (simp add: u128_def uint_word_of_int)

lemma share_product_bound:
  assumes "share_ok a" "share_ok b"
  shows "0 \<le> a * b" "a * b < 2 ^ 126"
proof -
  show "0 \<le> a * b" using assms by (simp add: share_ok_def)
  have "a * b \<le> safe_max * safe_max" using assms by (intro mult_mono) (auto simp: share_ok_def)
  then show "a * b < 2 ^ 126" by (simp add: safe_max_def)
qed

lemma u128_mult: "u128 a * u128 b = u128 (a * b)"
  by (simp add: u128_def)

lemma u128_add: "u128 a + u128 b = u128 (a + b)"
  by (simp add: u128_def)

lemma u128_minus_1: "u128 a - 1 = u128 (a - 1)"
  by (simp add: u128_def)

lemma u128_less_iff:
  "0 \<le> a \<Longrightarrow> a < 2 ^ 128 \<Longrightarrow> 0 \<le> b \<Longrightarrow> b < 2 ^ 128 \<Longrightarrow> u128 a < u128 b \<longleftrightarrow> a < b"
  by (simp add: word_less_def uint_u128)

lemma u128_le_iff:
  "0 \<le> a \<Longrightarrow> a < 2 ^ 128 \<Longrightarrow> 0 \<le> b \<Longrightarrow> b < 2 ^ 128 \<Longrightarrow> u128 a \<le> u128 b \<longleftrightarrow> a \<le> b"
  by (simp add: word_le_def uint_u128)

lemma u128_eq_iff:
  "0 \<le> a \<Longrightarrow> a < 2 ^ 128 \<Longrightarrow> 0 \<le> b \<Longrightarrow> b < 2 ^ 128 \<Longrightarrow> u128 a = u128 b \<longleftrightarrow> a = b"
  by (metis uint_u128)

lemma u128_div:
  assumes "0 \<le> a" "a < 2 ^ 128" "0 < b" "b < 2 ^ 128"
  shows "u128 a div u128 b = u128 (a div b)"
proof -
  have "uint (u128 a div u128 b) = a div b"
    using assms by (simp add: uint_div uint_u128)
  then show ?thesis by (metis u128_def word_of_int_uint)
qed

lemmas u128_arith = u128_mult u128_add u128_minus_1

lemma price_less_cross:
  assumes "valid_price p" "valid_price q"
    and "asset_id (base p) = asset_id (base q)" "asset_id (quote p) = asset_id (quote q)"
  shows "price_less p q \<longleftrightarrow>
     amount (base p) * amount (quote q) < amount (base q) * amount (quote p)"
proof -
  note b = share_product_bound [OF valid_priceD(2) [OF assms(2)] valid_priceD(1) [OF assms(1)]]
    share_product_bound [OF valid_priceD(2) [OF assms(1)] valid_priceD(1) [OF assms(2)]]
  show ?thesis
    using assms(3,4) b by (simp add: price_less_def u128_mult u128_less_iff mult.commute)
qed

lemma price_eq_cross:
  assumes "valid_price p" "valid_price q"
  shows "price_eq p q \<longleftrightarrow>
     asset_id (base p) = asset_id (base q) \<and> asset_id (quote p) = asset_id (quote q) \<and>
     amount (base p) * amount (quote q) = amount (base q) * amount (quote p)"
proof -
  note b = share_product_bound [OF valid_priceD(2) [OF assms(2)] valid_priceD(1) [OF assms(1)]]
    share_product_bound [OF valid_priceD(2) [OF assms(1)] valid_priceD(1) [OF assms(2)]]
  show ?thesis using b by (auto simp: price_eq_def u128_mult u128_eq_iff mult.commute)
qed

lemma price_inv_simps [simp]:
  "base (price_inv p) = quote p" "quote (price_inv p) = base p" "price_inv (price_inv p) = p"
  by (simp_all add: price_inv_def)

lemma valid_price_inv [simp]: "valid_price (price_inv p) \<longleftrightarrow> valid_price p"
  by (auto simp: valid_price_def)

lemma asset_div_Inr [result_simps]:
  "asset_div b q = Inr p \<longleftrightarrow> asset_id b \<noteq> asset_id q \<and> p = \<lparr>base = b, quote = q\<rparr>"
  by (auto simp: asset_div_def assertE_eq_Inr)

lemma price_validate_Inr: "price_validate p = Inr u \<longleftrightarrow>
    0 < amount (base p) \<and> 0 < amount (quote p) \<and> asset_id (base p) \<noteq> asset_id (quote p)"
  by (auto simp: price_validate_def assertE_eq_Inr)

subsection \<open>The order of prices\<close>

text \<open>
  The order book, the margin call book and the settlement queue are sorted containers; they work
  as long as the comparison handed to them is a strict weak order on the keys they hold.
\<close>

locale strict_weak_order =
  fixes valid :: "'a \<Rightarrow> bool" and less :: "'a \<Rightarrow> 'a \<Rightarrow> bool"
  assumes irrefl: "valid x \<Longrightarrow> \<not> less x x"
    and trans: "valid x \<Longrightarrow> valid y \<Longrightarrow> valid z \<Longrightarrow> less x y \<Longrightarrow> less y z \<Longrightarrow> less x z"
    and neg_trans: "valid x \<Longrightarrow> valid y \<Longrightarrow> valid z \<Longrightarrow>
      less x z \<Longrightarrow> less x y \<or> less y z"
begin

lemma asym: "valid x \<Longrightarrow> valid y \<Longrightarrow> less x y \<Longrightarrow> \<not> less y x"
  using irrefl trans by blast

lemma equiv_trans:
  assumes "valid x" "valid y" "valid z"
    and "\<not> less x y" "\<not> less y x" "\<not> less y z" "\<not> less z y"
  shows "\<not> less x z \<and> \<not> less z x"
  using assms neg_trans by blast

lemma less_equiv_trans:
  assumes "valid x" "valid y" "valid z" "less x y" "\<not> less y z" "\<not> less z y"
  shows "less x z"
  using assms neg_trans by blast

end

lemma cross_less_trans:
  fixes a b c d e f :: int
  assumes "0 < b" "0 < d" "0 < f" "a * d < c * b" "c * f < e * d"
  shows "a * f < e * b"
proof -
  have "a * d * f < c * b * f" using assms by simp
  also have "\<dots> = c * f * b" by (simp add: ac_simps)
  also have "\<dots> < e * d * b" using assms by simp
  finally have "(a * f) * d < (e * b) * d" by (simp add: ac_simps)
  then show ?thesis using assms(2) by (simp add: mult_less_cancel_right)
qed

lemma cross_le_trans:
  fixes a b c d e f :: int
  assumes "0 < b" "0 < d" "0 < f" "a * d \<le> c * b" "c * f \<le> e * d"
  shows "a * f \<le> e * b"
proof -
  have "a * d * f \<le> c * b * f" using assms by simp
  also have "\<dots> = c * f * b" by (simp add: ac_simps)
  also have "\<dots> \<le> e * d * b" using assms by simp
  finally have "(a * f) * d \<le> (e * b) * d" by (simp add: ac_simps)
  then show ?thesis using assms(2) by (simp add: mult_le_cancel_right)
qed

lemma price_less_pair:
  "asset_id (base p) \<noteq> asset_id (base q) \<or> asset_id (quote p) \<noteq> asset_id (quote q) \<Longrightarrow>
   price_less p q \<longleftrightarrow> asset_id (base p) < asset_id (base q) \<or>
     asset_id (base p) = asset_id (base q) \<and> asset_id (quote p) < asset_id (quote q)"
  by (auto simp: price_less_def)

text \<open>The lexicographic part of the order: the pair of assets a price is quoted in.\<close>

definition market_less :: "price \<Rightarrow> price \<Rightarrow> bool" where
  "market_less p q \<longleftrightarrow> asset_id (base p) < asset_id (base q) \<or>
     asset_id (base p) = asset_id (base q) \<and> asset_id (quote p) < asset_id (quote q)"

definition same_market :: "price \<Rightarrow> price \<Rightarrow> bool" where
  "same_market p q \<longleftrightarrow>
     asset_id (base p) = asset_id (base q) \<and> asset_id (quote p) = asset_id (quote q)"

lemma market_cases: "market_less p q \<or> same_market p q \<or> market_less q p"
  unfolding market_less_def same_market_def by linarith

lemma market_less_trans: "market_less p q \<Longrightarrow> market_less q r \<Longrightarrow> market_less p r"
  unfolding market_less_def by linarith

lemma market_less_same:
  "market_less p q \<Longrightarrow> same_market q r \<Longrightarrow> market_less p r"
  "same_market p q \<Longrightarrow> market_less q r \<Longrightarrow> market_less p r"
  "market_less p q \<Longrightarrow> \<not> same_market p q"
  "market_less p q \<Longrightarrow> \<not> market_less q p"
  unfolding market_less_def same_market_def by auto

lemma same_market_trans: "same_market p q \<Longrightarrow> same_market q r \<Longrightarrow> same_market p r"
  unfolding same_market_def by simp

definition cross_less :: "price \<Rightarrow> price \<Rightarrow> bool" where
  "cross_less p q \<longleftrightarrow> amount (base p) * amount (quote q) < amount (base q) * amount (quote p)"

lemma price_less_lex:
  assumes "valid_price p" "valid_price q"
  shows "price_less p q \<longleftrightarrow> market_less p q \<or> same_market p q \<and> cross_less p q"
proof (cases "same_market p q")
  case True
  with assms show ?thesis
    using price_less_cross [OF assms] market_less_same(3) [of p q]
    by (auto simp: same_market_def cross_less_def)
next
  case False
  then show ?thesis by (auto simp: price_less_def market_less_def same_market_def)
qed

lemma valid_price_pos: "valid_price p \<Longrightarrow> 0 < amount (base p) \<and> 0 < amount (quote p)"
  by (simp add: valid_price_def)

lemma cross_less_trans':
  assumes "valid_price p" "valid_price q" "valid_price r" "cross_less p q" "cross_less q r"
  shows "cross_less p r"
  using assms(4,5) unfolding cross_less_def
  by (rule cross_less_trans [rotated 3]) (simp_all add: assms valid_price_pos)

lemma cross_le_trans':
  assumes "valid_price p" "valid_price q" "valid_price r" "\<not> cross_less q p" "\<not> cross_less r q"
  shows "\<not> cross_less r p"
  using assms(4,5) unfolding cross_less_def not_less
  by (rule cross_le_trans [rotated 3]) (simp_all add: assms valid_price_pos)

lemma price_less_trans:
  assumes "valid_price p" "valid_price q" "valid_price r" "price_less p q" "price_less q r"
  shows "price_less p r"
proof -
  have "market_less p q \<or> same_market p q \<and> cross_less p q"
    "market_less q r \<or> same_market q r \<and> cross_less q r"
    using assms by (simp_all only: price_less_lex)
  then have "market_less p r \<or> same_market p r \<and> cross_less p r"
    using cross_less_trans' [OF assms(1-3)]
    by (blast intro: market_less_trans market_less_same(1,2) same_market_trans)
  then show ?thesis using assms by (simp only: price_less_lex)
qed

lemma price_le_trans:
  assumes "valid_price p" "valid_price q" "valid_price r" "price_less r p"
  shows "price_less q p \<or> price_less r q"
proof (rule ccontr)
  assume "\<not> (price_less q p \<or> price_less r q)"
  then have n: "\<not> market_less q p" "\<not> (same_market q p \<and> cross_less q p)"
    "\<not> market_less r q" "\<not> (same_market r q \<and> cross_less r q)"
    using assms by (simp_all add: price_less_lex)
  have "same_market p q \<or> market_less p q" "same_market q r \<or> market_less q r"
    using market_cases [of p q] market_cases [of q r] n(1,3) by blast+
  moreover have "market_less r p \<or> same_market r p \<and> cross_less r p"
    using assms by (simp only: price_less_lex)
  moreover have sym: "\<And>x y. same_market x y \<Longrightarrow> same_market y x" by (simp add: same_market_def)
  moreover have "\<not> cross_less q p \<Longrightarrow> \<not> cross_less r q \<Longrightarrow> \<not> cross_less r p"
    using cross_le_trans' [OF assms(1-3)] .
  ultimately show False
    using n by (metis market_less_trans market_less_same same_market_trans)
qed

interpretation price_order: strict_weak_order valid_price price_less
proof unfold_locales
  show "\<not> price_less p p" if "valid_price p" for p
    using that by (simp add: price_less_cross)
  show "price_less p r" if "valid_price p" "valid_price q" "valid_price r"
    "price_less p q" "price_less q r" for p q r
    using that by (rule price_less_trans)
  show "price_less p q \<or> price_less q r" if "valid_price p" "valid_price q" "valid_price r"
    "price_less p r" for p q r
    using that price_le_trans [of r q p] by blast
qed

text \<open>
  C2. The 128-bit comparison of prices orders valid prices of one market exactly as the rational
  numbers base/quote, and over all markets it is a strict weak order whose equivalence is
  \<open>operator ==\<close>: what the sorted indices of the order book need.
\<close>

theorem price_less_is_rational_order:
  assumes "valid_price p" and "valid_price q" and "valid_price r"
  shows "(asset_id (base p) = asset_id (base q) \<and> asset_id (quote p) = asset_id (quote q) \<longrightarrow>
            (price_less p q \<longleftrightarrow>
               rat_less (amount (base p), amount (quote p)) (amount (base q), amount (quote q))))
       \<and> \<not> price_less p p
       \<and> (price_less p q \<longrightarrow> price_less q r \<longrightarrow> price_less p r)
       \<and> (price_less p r \<longrightarrow> price_less p q \<or> price_less q r)
       \<and> (price_eq p q \<longleftrightarrow> \<not> price_less p q \<and> \<not> price_less q p)"
proof (intro conjI impI)
  show "price_less p q \<longleftrightarrow>
      rat_less (amount (base p), amount (quote p)) (amount (base q), amount (quote q))"
    if "asset_id (base p) = asset_id (base q) \<and> asset_id (quote p) = asset_id (quote q)"
    using that assms by (simp add: price_less_cross rat_less_def)
  show "\<not> price_less p p" using assms(1) by (rule price_order.irrefl)
  show "price_less p r" if "price_less p q" "price_less q r"
    using assms that by (rule price_order.trans)
  show "price_less p q \<or> price_less q r" if "price_less p r"
    using assms that by (rule price_order.neg_trans)
  show "price_eq p q \<longleftrightarrow> \<not> price_less p q \<and> \<not> price_less q p"
    using assms(1,2) by (cases "asset_id (base p) = asset_id (base q) \<and>
        asset_id (quote p) = asset_id (quote q)")
      (auto simp: price_eq_cross price_less_cross price_less_pair)
qed

theorem price_less_is_rational_order_witness:
  "\<exists>p q r. valid_price p \<and> valid_price q \<and> valid_price r
     \<and> price_less p q \<and> price_less q r \<and> price_less p r \<and> \<not> price_eq p q"
proof -
  let ?p = "\<lparr>base = mk_asset 1 1, quote = mk_asset 3 0\<rparr>"
  let ?q = "\<lparr>base = mk_asset 1 1, quote = mk_asset 2 0\<rparr>"
  let ?r = "\<lparr>base = mk_asset 5 1, quote = mk_asset 4 0\<rparr>"
  have v: "valid_price ?p" "valid_price ?q" "valid_price ?r"
    by (simp_all add: valid_price_def safe_max_def)
  have "price_less ?p ?q" "price_less ?q ?r"
    by (simp_all add: price_less_def u128_def)
  with v price_less_is_rational_order [OF v] show ?thesis by blast
qed

subsection \<open>Conversion at a price\<close>

definition ceil_div :: "int \<Rightarrow> int \<Rightarrow> int" where
  "ceil_div a b = (a + b - 1) div b"

lemma ceil_div_le_iff: "0 < b \<Longrightarrow> ceil_div a b \<le> c \<longleftrightarrow> a \<le> c * b"
  by (simp add: ceil_div_def ceiling_div_le_iff)

lemma ceil_div_ge: "0 < b \<Longrightarrow> a \<le> ceil_div a b * b"
  using ceil_div_le_iff [of b a "ceil_div a b"] by simp

lemma ceil_div_nonneg: "0 < b \<Longrightarrow> 0 \<le> a \<Longrightarrow> 0 \<le> ceil_div a b"
  by (simp add: ceil_div_def pos_imp_zdiv_nonneg_iff)

lemma ceil_div_pos: "0 < b \<Longrightarrow> 0 < a \<Longrightarrow> 0 < ceil_div a b"
  using ceil_div_le_iff [of b a 0] by linarith

lemma ceil_floor_div:
  fixes a b :: int
  assumes "0 < b"
  shows "a div b \<le> ceil_div a b" "ceil_div a b \<le> a div b + 1"
proof -
  show "a div b \<le> ceil_div a b"
    unfolding ceil_div_def using assms by (intro zdiv_mono1) auto
  show "ceil_div a b \<le> a div b + 1"
    using assms floor_div_bounds(2) [of b a] by (simp add: ceil_div_le_iff)
qed

definition checked_supply :: "int \<Rightarrow> asset_id_type \<Rightarrow> asset result" where
  "checked_supply r i = assertE (r \<le> MAX_SHARE_SUPPLY) (Inr (mk_asset r i))"

lemma checked_supply_Inr [result_simps]:
  "checked_supply r i = Inr c \<longleftrightarrow> r \<le> MAX_SHARE_SUPPLY \<and> c = mk_asset r i"
  by (auto simp: checked_supply_def assertE_eq_Inr)

lemma u128_le_supply:
  assumes "0 \<le> r" "r < 2 ^ 128"
  shows "u128 r \<le> u128 MAX_SHARE_SUPPLY \<longleftrightarrow> r \<le> MAX_SHARE_SUPPLY"
  using assms by (subst u128_le_iff) (simp_all add: MAX_SHARE_SUPPLY_def)

lemma div_in_range:
  fixes x y :: int
  assumes "0 \<le> x" "x < N" "0 < y"
  shows "0 \<le> x div y \<and> x div y < N"
proof -
  have "x div y \<le> x div 1" using assms by (intro zdiv_mono2) auto
  with assms show ?thesis by (simp add: pos_imp_zdiv_nonneg_iff)
qed

lemma asset_mul_base:
  assumes "share_ok (amount a)" "valid_price p" "asset_id a = asset_id (base p)"
  shows "asset_mul a p =
     checked_supply (amount a * amount (quote p) div amount (base p)) (asset_id (quote p))"
proof -
  let ?x = "amount a * amount (quote p)" and ?y = "amount (base p)"
  have y: "0 < ?y" "?y < 2 ^ 128"
    using assms(2) by (auto simp: valid_price_def safe_max_def)
  have "?x < 2 ^ 126" "0 \<le> ?x"
    using share_product_bound assms(1) valid_priceD(2) [OF assms(2)] by auto
  then have x: "0 \<le> ?x" "?x < 2 ^ 128" by simp_all
  have q: "0 \<le> ?x div ?y" "?x div ?y < 2 ^ 128" using div_in_range [OF x y(1)] by auto
  show ?thesis
    using assms(3) y x q
    by (simp add: asset_mul_def checked_supply_def Let_def u128_arith u128_div u128_le_supply uint_u128)
qed

lemma round_up_base:
  assumes "share_ok (amount a)" "valid_price p" "asset_id a = asset_id (base p)"
  shows "multiply_and_round_up a p =
     checked_supply (ceil_div (amount a * amount (quote p)) (amount (base p))) (asset_id (quote p))"
proof -
  let ?y = "amount (base p)"
  let ?x = "amount a * amount (quote p) + ?y - 1"
  have y: "0 < ?y" "?y < 2 ^ 63"
    using assms(2) by (auto simp: valid_price_def safe_max_def)
  have "amount a * amount (quote p) < 2 ^ 126" "0 \<le> amount a * amount (quote p)"
    using share_product_bound assms(1) valid_priceD(2) [OF assms(2)] by auto
  then have x: "0 \<le> ?x" "?x < 2 ^ 128" using y by simp_all
  have q: "0 \<le> ?x div ?y" "?x div ?y < 2 ^ 128" using div_in_range [OF x y(1)] by auto
  show ?thesis
    using assms(3) y x q
    by (simp add: multiply_and_round_up_def checked_supply_def ceil_div_def Let_def u128_arith u128_div
        u128_le_supply uint_u128)
qed

lemma asset_mul_inv: "valid_price p \<Longrightarrow> asset_mul a (price_inv p) = asset_mul a p"
  by (auto simp: asset_mul_def valid_price_def)

lemma round_up_inv: "valid_price p \<Longrightarrow> multiply_and_round_up a (price_inv p) = multiply_and_round_up a p"
  by (auto simp: multiply_and_round_up_def valid_price_def)

lemma asset_mul_quote:
  assumes "share_ok (amount a)" "valid_price p" "asset_id a = asset_id (quote p)"
  shows "asset_mul a p =
     checked_supply (amount a * amount (base p) div amount (quote p)) (asset_id (base p))"
  using asset_mul_base [of a "price_inv p"] assms by (simp add: asset_mul_inv)

lemma round_up_quote:
  assumes "share_ok (amount a)" "valid_price p" "asset_id a = asset_id (quote p)"
  shows "multiply_and_round_up a p =
     checked_supply (ceil_div (amount a * amount (base p)) (amount (quote p))) (asset_id (base p))"
  using round_up_base [of a "price_inv p"] assms by (simp add: round_up_inv)

text \<open>
  C3. Conversion of an amount at a price: for a non-negative amount of one side of a valid price,
  \<open>a * p\<close> is the exact quotient rounded down and \<open>a.multiply_and_round_up(p)\<close> the exact
  quotient rounded up, each in the other asset, and each throws exactly when its result would exceed
  the maximum share supply; the 128-bit intermediate product never wraps.  Converting at the
  inverse price gives the same.
\<close>

theorem conversion_rounding:
  assumes "share_ok (amount a)" and "valid_price p" and "asset_id a = asset_id (base p)"
  shows "asset_mul a p =
          (let r = amount a * amount (quote p) div amount (base p)
           in if r \<le> MAX_SHARE_SUPPLY then Inr (mk_asset r (asset_id (quote p))) else Inl AssertFailed)
       \<and> multiply_and_round_up a p =
          (let r = amount a * amount (quote p) div amount (base p);
               r' = (if amount (base p) dvd amount a * amount (quote p) then r else r + 1)
           in if r' \<le> MAX_SHARE_SUPPLY then Inr (mk_asset r' (asset_id (quote p))) else Inl AssertFailed)
       \<and> asset_mul a (price_inv p) = asset_mul a p
       \<and> multiply_and_round_up a (price_inv p) = multiply_and_round_up a p"
proof -
  let ?x = "amount a * amount (quote p)" and ?y = "amount (base p)"
  have y: "0 < ?y" using assms(2) by (simp add: valid_price_def)
  have "ceil_div ?x ?y = (if ?y dvd ?x then ?x div ?y else ?x div ?y + 1)"
  proof (cases "?y dvd ?x")
    case True
    then have "ceil_div ?x ?y \<le> ?x div ?y" using y by (simp add: ceil_div_le_iff)
    with True show ?thesis using ceil_floor_div(1) [OF y, of ?x] by simp
  next
    case False
    then have "?x div ?y * ?y \<noteq> ?x" by (metis dvd_triv_right)
    then have "\<not> ceil_div ?x ?y \<le> ?x div ?y"
      using y floor_div_bounds(1) [OF y, of ?x] by (simp add: ceil_div_le_iff)
    with False show ?thesis using ceil_floor_div(2) [OF y, of ?x] by simp
  qed
  then show ?thesis
    using assms by (simp add: asset_mul_base round_up_base asset_mul_inv round_up_inv
        checked_supply_def assertE_def Let_def)
qed

theorem conversion_rounding_witness:
  "asset_mul (mk_asset 10 1) \<lparr>base = mk_asset 3 1, quote = mk_asset 7 0\<rparr> = Inr (mk_asset 23 0)
   \<and> multiply_and_round_up (mk_asset 10 1) \<lparr>base = mk_asset 3 1, quote = mk_asset 7 0\<rparr>
        = Inr (mk_asset 24 0)"
  using conversion_rounding [of "mk_asset 10 1" "\<lparr>base = mk_asset 3 1, quote = mk_asset 7 0\<rparr>"]
  by (simp add: share_ok_def valid_price_def safe_max_def MAX_SHARE_SUPPLY_def Let_def)

lemma floor_ceil_roundtrip:
  fixes x b q :: int
  assumes "0 < b" "0 < q" "0 \<le> x"
  defines "r \<equiv> x * q div b"
  defines "c \<equiv> ceil_div (r * b) q"
  shows "0 \<le> c" "c \<le> x" "c * q div b = r"
proof -
  have r: "r * b \<le> x * q" "0 \<le> r"
    using floor_div_bounds(1) [OF assms(1)] assms by (simp_all add: r_def pos_imp_zdiv_nonneg_iff)
  show "0 \<le> c" using assms r by (simp add: c_def ceil_div_nonneg)
  show le: "c \<le> x" using assms(2) r by (simp add: c_def ceil_div_le_iff)
  have "r * b \<le> c * q" unfolding c_def using assms(2) by (rule ceil_div_ge)
  then have "r \<le> c * q div b" using assms(1) by (simp add: le_div_iff_mult_le)
  moreover have "c * q div b \<le> r"
    unfolding r_def using assms(1,2) le by (intro zdiv_mono1) (simp_all add: mult_right_mono)
  ultimately show "c * q div b = r" by simp
qed

text \<open>
  C4. The rounding rule of hard fork core-342: let a party offer \<open>a\<close> at price \<open>p\<close> and
  receive \<open>r = a * p\<close> (rounded down).  The amount it is then charged,
  \<open>c = r.multiply_and_round_up(p)\<close>, is never more than it offered, never negative, and still
  buys exactly \<open>r\<close>; when \<open>r\<close> is nonzero the charge is positive.
\<close>

theorem round_trip_never_overcharges:
  assumes "share_ok (amount a)" and "valid_price p" and "asset_id a = asset_id (base p)"
    and "amount a \<le> MAX_SHARE_SUPPLY"
    and "asset_mul a p = Inr r"
  shows "\<exists>c. multiply_and_round_up r p = Inr c \<and> asset_id c = asset_id a
     \<and> 0 \<le> amount c \<and> amount c \<le> amount a
     \<and> asset_mul c p = Inr r \<and> (amount r \<noteq> 0 \<longrightarrow> 0 < amount c)"
proof -
  let ?b = "amount (base p)" and ?q = "amount (quote p)"
  have pos: "0 < ?b" "0 < ?q" "0 \<le> amount a"
    using assms(1,2) by (simp_all add: valid_price_def share_ok_def)
  have r: "r = mk_asset (amount a * ?q div ?b) (asset_id (quote p))"
    and rM: "amount r \<le> MAX_SHARE_SUPPLY"
    using assms(5) asset_mul_base [OF assms(1-3)] by (auto simp: result_simps)
  define c where "c = ceil_div (amount r * ?b) ?q"
  have c: "0 \<le> c" "c \<le> amount a" "c * ?q div ?b = amount r"
    using floor_ceil_roundtrip [OF pos] by (simp_all add: c_def r)
  have r0: "0 \<le> amount r" using pos by (simp add: r pos_imp_zdiv_nonneg_iff)
  then have rok: "share_ok (amount r)"
    using rM by (simp add: share_ok_def MAX_SHARE_SUPPLY_def safe_max_def)
  have "multiply_and_round_up r p = checked_supply c (asset_id (base p))"
    unfolding c_def using rok assms(2) r by (subst round_up_quote) simp_all
  moreover have cM: "c \<le> MAX_SHARE_SUPPLY" using c(2) assms(4) by simp
  ultimately have up: "multiply_and_round_up r p = Inr (mk_asset c (asset_id (base p)))"
    by (simp add: checked_supply_def)
  have "share_ok c" using c(1) cM by (simp add: share_ok_def MAX_SHARE_SUPPLY_def safe_max_def)
  then have "asset_mul (mk_asset c (asset_id (base p))) p = Inr r"
    using assms(2) c(3) rM r by (subst asset_mul_base) (simp_all add: checked_supply_def)
  moreover have "amount r \<noteq> 0 \<longrightarrow> 0 < c"
    using r0 pos by (auto simp: c_def intro!: ceil_div_pos)
  ultimately show ?thesis using up c assms(3) by auto
qed

theorem round_trip_never_overcharges_witness:
  "\<exists>r c. asset_mul (mk_asset 10 1) \<lparr>base = mk_asset 3 1, quote = mk_asset 2 0\<rparr> = Inr r
     \<and> multiply_and_round_up r \<lparr>base = mk_asset 3 1, quote = mk_asset 2 0\<rparr> = Inr c
     \<and> amount c \<le> 10"
proof -
  let ?p = "\<lparr>base = mk_asset 3 1, quote = mk_asset 2 0\<rparr>"
  have "asset_mul (mk_asset 10 1) ?p = Inr (mk_asset 6 0)"
    by (simp add: asset_mul_def u128_def MAX_SHARE_SUPPLY_def Let_def)
  moreover from round_trip_never_overcharges [OF _ _ _ _ this]
  have "\<exists>c. multiply_and_round_up (mk_asset 6 0) ?p = Inr c \<and> amount c \<le> 10"
    by (auto simp: share_ok_def valid_price_def safe_max_def MAX_SHARE_SUPPLY_def)
  ultimately show ?thesis by blast
qed

end
