(* ===== verification/Price_Feed.thy ===== *)
theory Price_Feed
  imports Asset
begin

text \<open>
  Derived prices of \<open>chain/protocol/asset.cpp\<close>: scaling a price by a ratio, the call price of
  a debt position, the maximum short squeeze price of a feed, and the validation of feeds.  The
  three loops that shrink a fraction until both parts fit into the maximum share supply are
  recursive functions with a termination proof.
\<close>

record price_feed =
  pf_settlement_price :: price
  pf_core_exchange_rate :: price
  pf_maintenance_collateral_ratio :: int
  pf_maximum_short_squeeze_ratio :: int

definition default_price_feed :: price_feed where
  "default_price_feed = \<lparr>pf_settlement_price = null_price, pf_core_exchange_rate = null_price,
     pf_maintenance_collateral_ratio = DEFAULT_MAINTENANCE_COLLATERAL_RATIO,
     pf_maximum_short_squeeze_ratio = DEFAULT_MAX_SHORT_SQUEEZE_RATIO\<rparr>"

text \<open>\<open>operator ==\<close> of \<open>price_feed\<close> compares prices with \<open>operator ==\<close> of \<open>price\<close> and
  leaves the core exchange rate out.\<close>

definition price_feed_eq :: "price_feed \<Rightarrow> price_feed \<Rightarrow> bool" where
  "price_feed_eq a b \<longleftrightarrow>
     price_eq (pf_settlement_price a) (pf_settlement_price b) \<and>
     pf_maintenance_collateral_ratio a = pf_maintenance_collateral_ratio b \<and>
     pf_maximum_short_squeeze_ratio a = pf_maximum_short_squeeze_ratio b"

subsection \<open>Call price\<close>

function call_price_shrink :: "int \<Rightarrow> int \<Rightarrow> rational" where
  "call_price_shrink n d =
     (if n > MAX_SHARE_SUPPLY \<or> d > MAX_SHARE_SUPPLY
      then call_price_shrink (numer (rnormalize (n div 2 + 1) (d div 2 + 1)))
             (denom (rnormalize (n div 2 + 1) (d div 2 + 1)))
      else (n, d))"
  by pat_completeness auto

lemma half_plus_1_abs:
  "\<bar>x div 2 + 1\<bar> \<le> \<bar>x\<bar> + (1::int)"
  "MAX_SHARE_SUPPLY < x \<Longrightarrow> \<bar>x div 2 + 1\<bar> + 2 \<le> \<bar>x\<bar>"
  by (simp_all add: MAX_SHARE_SUPPLY_def)

termination call_price_shrink
proof (relation "measure (\<lambda>(n, d). nat (\<bar>n\<bar> + \<bar>d\<bar>))")
  show "wf (measure (\<lambda>(n::int, d::int). nat (\<bar>n\<bar> + \<bar>d\<bar>)))" by simp
next
  fix n d :: int
  assume "MAX_SHARE_SUPPLY < n \<or> MAX_SHARE_SUPPLY < d"
  then have "\<bar>n div 2 + 1\<bar> + \<bar>d div 2 + 1\<bar> < \<bar>n\<bar> + \<bar>d\<bar>"
    using half_plus_1_abs(1) [of n] half_plus_1_abs(1) [of d]
      half_plus_1_abs(2) [of n] half_plus_1_abs(2) [of d] by linarith
  then show "((numer (rnormalize (n div 2 + 1) (d div 2 + 1)), denom (rnormalize (n div 2 + 1) (d div 2 + 1))), n, d)
      \<in> measure (\<lambda>(n, d). nat (\<bar>n\<bar> + \<bar>d\<bar>))"
    by (simp only: in_measure prod.case rnormalize_measure)
qed

declare call_price_shrink.simps [simp del]

definition call_price :: "asset \<Rightarrow> asset \<Rightarrow> int \<Rightarrow> price result" where
  "call_price debt collateral collateral_ratio =
     bindE (mk_rational (amount debt) (amount collateral)) (\<lambda>swan.
     bindE (mk_rational collateral_ratio COLLATERAL_RATIO_DENOM) (\<lambda>ratio.
     let cp = rat_mult swan ratio;
         cp' = call_price_shrink (numer cp) (denom cp)
     in asset_div (mk_asset (denom cp') (asset_id collateral))
                  (mk_asset (numer cp') (asset_id debt))))"

subsection \<open>Price feeds\<close>

function mssp_shrink :: "int \<Rightarrow> int \<Rightarrow> rational" where
  "mssp_shrink n d =
     (if n > MAX_SHARE_SUPPLY \<or> d > MAX_SHARE_SUPPLY
      then mssp_shrink (numer (rnormalize (n div 2 + n mod 2) (d div 2 + d mod 2)))
             (denom (rnormalize (n div 2 + n mod 2) (d div 2 + d mod 2)))
      else (n, d))"
  by pat_completeness auto

lemma sum_less_sum_disj:
  "a < c \<or> b < d \<Longrightarrow> a \<le> c \<Longrightarrow> b \<le> d \<Longrightarrow> a + b < c + (d::int)"
  by linarith

lemma half_up: "x div 2 + x mod 2 = (x + 1) div (2::int)"
  by presburger

lemma half_up_abs:
  "\<bar>x div 2 + x mod 2\<bar> \<le> \<bar>x::int\<bar>"
  "MAX_SHARE_SUPPLY < x \<Longrightarrow> \<bar>x div 2 + x mod 2\<bar> < \<bar>x\<bar>"
  unfolding half_up by (simp_all add: MAX_SHARE_SUPPLY_def)

termination mssp_shrink
proof (relation "measure (\<lambda>(n, d). nat (\<bar>n\<bar> + \<bar>d\<bar>))")
  show "wf (measure (\<lambda>(n::int, d::int). nat (\<bar>n\<bar> + \<bar>d\<bar>)))" by simp
next
  fix n d :: int
  assume "MAX_SHARE_SUPPLY < n \<or> MAX_SHARE_SUPPLY < d"
  then have "\<bar>n div 2 + n mod 2\<bar> < \<bar>n\<bar> \<or> \<bar>d div 2 + d mod 2\<bar> < \<bar>d\<bar>"
    using half_up_abs(2) by blast
  then have "\<bar>n div 2 + n mod 2\<bar> + \<bar>d div 2 + d mod 2\<bar> < \<bar>n\<bar> + \<bar>d\<bar>"
    using half_up_abs(1) [of n] half_up_abs(1) [of d] by (rule sum_less_sum_disj)
  then show "((numer (rnormalize (n div 2 + n mod 2) (d div 2 + d mod 2)), denom (rnormalize (n div 2 + n mod 2) (d div 2 + d mod 2))), n, d)
      \<in> measure (\<lambda>(n, d). nat (\<bar>n\<bar> + \<bar>d\<bar>))"
    by (simp only: in_measure prod.case rnormalize_measure)
qed

declare mssp_shrink.simps [simp del]

definition max_short_squeeze_price :: "price_feed \<Rightarrow> price result" where
  "max_short_squeeze_price f =
     bindE (mk_rational (amount (base (pf_settlement_price f)))
                        (amount (quote (pf_settlement_price f)))) (\<lambda>sp.
     bindE (mk_rational COLLATERAL_RATIO_DENOM (pf_maximum_short_squeeze_ratio f)) (\<lambda>ratio.
     let cp = rat_mult sp ratio;
         cp' = mssp_shrink (numer cp) (denom cp)
     in asset_div (mk_asset (numer cp') (asset_id (base (pf_settlement_price f))))
                  (mk_asset (denom cp') (asset_id (quote (pf_settlement_price f))))))"

definition price_feed_validate :: "price_feed \<Rightarrow> unit result" where
  "price_feed_validate f =
     bindE (if \<not> price_is_null (pf_settlement_price f) then price_validate (pf_settlement_price f)
            else Inr ()) (\<lambda>_.
     assertE (MIN_COLLATERAL_RATIO \<le> pf_maximum_short_squeeze_ratio f) (
     assertE (pf_maximum_short_squeeze_ratio f \<le> MAX_COLLATERAL_RATIO) (
     assertE (MIN_COLLATERAL_RATIO \<le> pf_maintenance_collateral_ratio f) (
     assertE (pf_maintenance_collateral_ratio f \<le> MAX_COLLATERAL_RATIO) (
     bindE (max_short_squeeze_price f) (\<lambda>_. Inr ()))))))"

definition price_feed_is_for :: "price_feed \<Rightarrow> asset_id_type \<Rightarrow> bool" where
  "price_feed_is_for f a =
     (if \<not> price_is_null (pf_settlement_price f) then asset_id (base (pf_settlement_price f)) = a
      else if \<not> price_is_null (pf_core_exchange_rate f) then asset_id (base (pf_core_exchange_rate f)) = a
      else True)"

subsection \<open>Scaling a price by a ratio\<close>

text \<open>The loop of \<open>operator * (price, ratio_type)\<close>; the flags are \<open>shrinked\<close> and \<open>using_max\<close>.\<close>

function ratio_shrink :: "int \<Rightarrow> int \<Rightarrow> bool \<Rightarrow> rational \<times> bool \<times> bool" where
  "ratio_shrink n d shrinked =
     (if n > MAX_SHARE_SUPPLY \<or> d > MAX_SHARE_SUPPLY
      then (if n = 1 then ((1, MAX_SHARE_SUPPLY), shrinked, True)
            else if d = 1 then ((MAX_SHARE_SUPPLY, 1), shrinked, True)
            else ratio_shrink (numer (rnormalize (n div 2) (d div 2)))
                   (denom (rnormalize (n div 2) (d div 2))) True)
      else ((n, d), shrinked, False))"
  by pat_completeness auto

lemma half_down_abs:
  "\<bar>x div 2\<bar> \<le> \<bar>x::int\<bar>" "MAX_SHARE_SUPPLY < x \<Longrightarrow> \<bar>x div 2\<bar> < \<bar>x\<bar>"
  by (simp_all add: MAX_SHARE_SUPPLY_def)

termination ratio_shrink
proof (relation "measure (\<lambda>(n, d, s). nat (\<bar>n\<bar> + \<bar>d\<bar>))")
  show "wf (measure (\<lambda>(n::int, d::int, s::bool). nat (\<bar>n\<bar> + \<bar>d\<bar>)))" by simp
next
  fix n d :: int and s :: bool
  assume "MAX_SHARE_SUPPLY < n \<or> MAX_SHARE_SUPPLY < d"
  then have "\<bar>n div 2\<bar> + \<bar>d div 2\<bar> < \<bar>n\<bar> + \<bar>d\<bar>"
    using half_down_abs(1) [of n] half_down_abs(1) [of d]
      half_down_abs(2) [of n] half_down_abs(2) [of d] by linarith
  then show "((numer (rnormalize (n div 2) (d div 2)), denom (rnormalize (n div 2) (d div 2)), True), n, d, s)
      \<in> measure (\<lambda>(n, d, s). nat (\<bar>n\<bar> + \<bar>d\<bar>))"
    by (simp only: in_measure prod.case rnormalize_measure)
qed

declare ratio_shrink.simps [simp del]

text \<open>The correction after the loop: of the shrunk fraction \<open>cp\<close> and the quotient rounded to an
  integer or to the inverse of one, the one closer to the exact value \<open>ocp\<close>.\<close>

definition ratio_correct :: "rational \<Rightarrow> rational \<Rightarrow> rational" where
  "ratio_correct cp ocp =
     (let num = numer ocp; den = denom ocp;
          num' = (if num > den then min (num div den) MAX_SHARE_SUPPLY else 1);
          den' = (if num > den then 1 else min (den div num) MAX_SHARE_SUPPLY);
          ncp = rnormalize num' den'
      in if num' = MAX_SHARE_SUPPLY \<or> den' = MAX_SHARE_SUPPLY then ncp
         else if rat_less (rat_abs (rat_minus ncp ocp)) (rat_abs (rat_minus cp ocp)) then ncp
         else cp)"

text \<open>The end of the operator: build the price of the fraction \<open>cp\<close>, put the original price back if
  rounding moved it the wrong way, validate.  \<open>adjusted\<close> is \<open>shrinked || using_max\<close>.\<close>

definition scaled_price :: "price \<Rightarrow> rational \<Rightarrow> bool \<Rightarrow> rational \<Rightarrow> price result" where
  "scaled_price p r adjusted cp =
     bindE (asset_div (mk_asset (numer cp) (asset_id (base p)))
                      (mk_asset (denom cp) (asset_id (quote p)))) (\<lambda>np.
     let np' = (if adjusted \<and>
                   (denom r < numer r \<and> price_less np p \<or>
                    numer r < denom r \<and> price_gt np p)
                then p else np)
     in bindE (price_validate np') (\<lambda>_. Inr np'))"

definition price_mul_ratio :: "price \<Rightarrow> rational \<Rightarrow> price result" where
  "price_mul_ratio p r =
     bindE (price_validate p) (\<lambda>_.
     assertE (0 < numer r \<and> 0 < denom r) (
     if numer r = denom r then Inr p
     else
       bindE (mk_rational (amount (base p)) (amount (quote p))) (\<lambda>p128.
       bindE (mk_rational (numer r) (denom r)) (\<lambda>r128.
       let ocp = rat_mult p128 r128;
           (cp, shrinked, using_max) = ratio_shrink (numer ocp) (denom ocp) False;
           cp' = (if shrinked then ratio_correct cp ocp else cp)
       in scaled_price p r (shrinked \<or> using_max) cp'))))"

definition price_div_ratio :: "price \<Rightarrow> rational \<Rightarrow> price result" where
  "price_div_ratio p r =
     bindE (mk_rational (denom r) (numer r)) (\<lambda>r'. price_mul_ratio p r')"

subsection \<open>The call price\<close>

lemma call_price_shrink_range:
  assumes "0 < n" "0 < d"
  shows "0 < numer (call_price_shrink n d) \<and> numer (call_price_shrink n d) \<le> MAX_SHARE_SUPPLY \<and>
         0 < denom (call_price_shrink n d) \<and> denom (call_price_shrink n d) \<le> MAX_SHARE_SUPPLY"
  using assms
proof (induction n d rule: call_price_shrink.induct)
  case (1 n d)
  show ?case
  proof (cases "n > MAX_SHARE_SUPPLY \<or> d > MAX_SHARE_SUPPLY")
    case True
    have "0 < n div 2 + 1" "0 < d div 2 + 1" using "1.prems" by auto
    then have "0 < numer (rnormalize (n div 2 + 1) (d div 2 + 1))"
      "0 < denom (rnormalize (n div 2 + 1) (d div 2 + 1))"
      by (simp_all add: numer_rnormalize_pos denom_rnormalize_pos)
    with "1.IH" [OF True] True show ?thesis
      by (simp add: call_price_shrink.simps [of n d])
  next
    case False
    with "1.prems" show ?thesis by (simp add: call_price_shrink.simps [of n d])
  qed
qed

text \<open>
  C5. The call price of a debt position: for positive debt and collateral in different assets and
  a positive ratio the computation terminates without an exception, quotes collateral against debt,
  both parts lie between 1 and the maximum share supply (so the price is valid and usable in every
  conversion), and when the reduced fraction already fits, it is exactly
  collateral * 1000 / (debt * ratio).
\<close>

theorem call_price_valid:
  assumes "0 < amount debt" and "0 < amount collateral" and "0 < ratio"
    and "asset_id debt \<noteq> asset_id collateral"
  shows "\<exists>p. call_price debt collateral ratio = Inr p \<and> valid_price p
     \<and> amount (base p) \<le> MAX_SHARE_SUPPLY \<and> amount (quote p) \<le> MAX_SHARE_SUPPLY
     \<and> asset_id (base p) = asset_id collateral \<and> asset_id (quote p) = asset_id debt
     \<and> (amount debt * ratio \<le> MAX_SHARE_SUPPLY \<longrightarrow>
        amount collateral * COLLATERAL_RATIO_DENOM \<le> MAX_SHARE_SUPPLY \<longrightarrow>
        amount (base p) * (amount debt * ratio)
          = amount (quote p) * (amount collateral * COLLATERAL_RATIO_DENOM))"
proof -
  define swan where "swan = rnormalize (amount debt) (amount collateral)"
  define rt where "rt = rnormalize ratio COLLATERAL_RATIO_DENOM"
  define cp where "cp = rat_mult swan rt"
  define cp' where "cp' = call_price_shrink (numer cp) (denom cp)"
  define p where "p = \<lparr>base = mk_asset (denom cp') (asset_id collateral),
                       quote = mk_asset (numer cp') (asset_id debt)\<rparr>"
  have D: "0 < COLLATERAL_RATIO_DENOM" by (simp add: COLLATERAL_RATIO_DENOM_def)
  have pos: "0 < numer cp" "0 < denom cp"
    using assms D unfolding cp_def swan_def rt_def
    by (intro rat_mult_pos; simp add: numer_rnormalize_pos denom_rnormalize_pos)+
  have rng: "0 < numer cp'" "numer cp' \<le> MAX_SHARE_SUPPLY" "0 < denom cp'" "denom cp' \<le> MAX_SHARE_SUPPLY"
    using call_price_shrink_range [OF pos] by (simp_all add: cp'_def)
  have eq: "call_price debt collateral ratio = Inr p"
    using assms D
    by (simp add: call_price_def mk_rational_def asset_div_def p_def cp'_def cp_def swan_def rt_def Let_def)
  have cross: "numer cp * (amount collateral * COLLATERAL_RATIO_DENOM) = amount debt * ratio * denom cp"
    unfolding cp_def swan_def rt_def using assms(2) D by (rule rat_mult_rnormalize_cross)
  have exact: "amount (base p) * (amount debt * ratio)
      = amount (quote p) * (amount collateral * COLLATERAL_RATIO_DENOM)"
    if small: "amount debt * ratio \<le> MAX_SHARE_SUPPLY"
      "amount collateral * COLLATERAL_RATIO_DENOM \<le> MAX_SHARE_SUPPLY"
  proof -
    have s: "0 < numer swan" "0 < denom swan" "0 < numer rt" "0 < denom rt"
      "numer swan \<le> amount debt" "denom swan \<le> amount collateral"
      "numer rt \<le> ratio" "denom rt \<le> COLLATERAL_RATIO_DENOM"
      using assms D by (simp_all add: swan_def rt_def numer_rnormalize_pos denom_rnormalize_pos rnormalize_le)
    moreover have "numer cp \<le> numer swan * numer rt" "denom cp \<le> denom swan * denom rt"
      unfolding cp_def using s(1-4) by (rule rat_mult_le)+
    ultimately have "numer cp \<le> amount debt * ratio"
      "denom cp \<le> amount collateral * COLLATERAL_RATIO_DENOM"
      by (meson mult_mono order.trans order_less_imp_le assms D)+
    with small have "cp' = (numer cp, denom cp)"
      by (simp add: cp'_def call_price_shrink.simps [of "numer cp" "denom cp"])
    with cross show ?thesis by (simp add: p_def ac_simps)
  qed
  have "valid_price p"
    using rng assms(4) by (auto simp: p_def valid_price_def safe_max_def MAX_SHARE_SUPPLY_def)
  with eq exact rng show ?thesis by (auto simp: p_def)
qed

theorem call_price_valid_witness:
  "\<exists>p. call_price (mk_asset 1000 1) (mk_asset 3000 0) 1750 = Inr p \<and> valid_price p
     \<and> amount (base p) * (1000 * 1750) = amount (quote p) * (3000 * 1000)"
  using call_price_valid [of "mk_asset 1000 1" "mk_asset 3000 0" 1750]
  by (auto simp: MAX_SHARE_SUPPLY_def COLLATERAL_RATIO_DENOM_def)

subsection \<open>Feeds\<close>

lemma bindE_const_error: "bindE m (\<lambda>_. bindE (Inl e) f) = Inr x \<longleftrightarrow> False"
  by (cases m) simp_all

lemma mssp_null: "price_is_null (pf_settlement_price f) \<Longrightarrow> max_short_squeeze_price f \<noteq> Inr p"
  by (auto simp: price_is_null_def max_short_squeeze_price_def result_simps Let_def)

text \<open>
  \<open>price_feed::validate\<close> skips the validation of a null settlement price, as if a null feed
  were acceptable, but the unguarded call of \<open>max_short_squeeze_price()\<close> that follows throws on
  every null settlement price: no feed with a null settlement price passes the validation.
\<close>

lemma null_feed_never_validates:
  assumes "price_is_null (pf_settlement_price f)"
  shows "\<not> is_ok (price_feed_validate f)"
  using mssp_null [OF assms] by (auto simp: is_ok_iff price_feed_validate_def result_simps)

lemma null_feed_never_validates_witness:
  "price_is_null (pf_settlement_price default_price_feed)
   \<and> price_feed_is_for default_price_feed 7 \<and> \<not> is_ok (price_feed_validate default_price_feed)"
  using null_feed_never_validates [of default_price_feed]
  by (simp add: default_price_feed_def price_is_null_def null_price_def price_feed_is_for_def)

lemma mssp_shrink_range:
  assumes "0 < n" "0 < d"
  shows "0 < numer (mssp_shrink n d) \<and> numer (mssp_shrink n d) \<le> MAX_SHARE_SUPPLY \<and>
         0 < denom (mssp_shrink n d) \<and> denom (mssp_shrink n d) \<le> MAX_SHARE_SUPPLY"
  using assms
proof (induction n d rule: mssp_shrink.induct)
  case (1 n d)
  show ?case
  proof (cases "n > MAX_SHARE_SUPPLY \<or> d > MAX_SHARE_SUPPLY")
    case True
    have "0 < n div 2 + n mod 2" "0 < d div 2 + d mod 2" using "1.prems" unfolding half_up by auto
    then have "0 < numer (rnormalize (n div 2 + n mod 2) (d div 2 + d mod 2))"
      "0 < denom (rnormalize (n div 2 + n mod 2) (d div 2 + d mod 2))"
      by (simp_all only: numer_rnormalize_pos denom_rnormalize_pos)
    with "1.IH" [OF True] True show ?thesis
      by (simp only: mssp_shrink.simps [of n d] if_True)
  next
    case False
    with "1.prems" show ?thesis by (simp add: mssp_shrink.simps [of n d])
  qed
qed

lemma mssp_valid:
  assumes "valid_price (pf_settlement_price f)" "0 < pf_maximum_short_squeeze_ratio f"
  shows "\<exists>p. max_short_squeeze_price f = Inr p \<and> valid_price p
    \<and> amount (base p) \<le> MAX_SHARE_SUPPLY \<and> amount (quote p) \<le> MAX_SHARE_SUPPLY
    \<and> asset_id (base p) = asset_id (base (pf_settlement_price f))
    \<and> asset_id (quote p) = asset_id (quote (pf_settlement_price f))"
proof -
  let ?sp = "pf_settlement_price f"
  define cp where "cp = rat_mult (rnormalize (amount (base ?sp)) (amount (quote ?sp)))
      (rnormalize COLLATERAL_RATIO_DENOM (pf_maximum_short_squeeze_ratio f))"
  define cp' where "cp' = mssp_shrink (numer cp) (denom cp)"
  note v = valid_priceD [OF assms(1)]
  have D: "0 < COLLATERAL_RATIO_DENOM" by (simp add: COLLATERAL_RATIO_DENOM_def)
  have "0 < numer cp" "0 < denom cp"
    using v D assms(2) unfolding cp_def
    by (intro rat_mult_pos; simp add: numer_rnormalize_pos denom_rnormalize_pos)+
  then have rng: "0 < numer cp'" "numer cp' \<le> MAX_SHARE_SUPPLY" "0 < denom cp'" "denom cp' \<le> MAX_SHARE_SUPPLY"
    using mssp_shrink_range by (simp_all add: cp'_def)
  let ?p = "\<lparr>base = mk_asset (numer cp') (asset_id (base ?sp)),
             quote = mk_asset (denom cp') (asset_id (quote ?sp))\<rparr>"
  have "max_short_squeeze_price f = Inr ?p"
    using v D assms(2)
    by (simp add: max_short_squeeze_price_def mk_rational_def asset_div_def cp'_def cp_def Let_def)
  moreover have "valid_price ?p"
    using rng v(5) by (auto simp: valid_price_def safe_max_def MAX_SHARE_SUPPLY_def)
  ultimately show ?thesis using rng by auto
qed

subsection \<open>Scaling\<close>

lemma ratio_shrink_result:
  assumes "0 < n" "0 < d"
  shows "\<exists>n' d' s m. ratio_shrink n d s0 = ((n', d'), s, m)
     \<and> 0 < n' \<and> n' \<le> MAX_SHARE_SUPPLY \<and> 0 < d' \<and> d' \<le> MAX_SHARE_SUPPLY
     \<and> (s0 \<longrightarrow> s) \<and> (\<not> s \<longrightarrow> \<not> m \<longrightarrow> n' = n \<and> d' = d)"
  using assms
proof (induction n d s0 rule: ratio_shrink.induct)
  case (1 n d s0)
  have M: "0 < MAX_SHARE_SUPPLY" "1 \<le> MAX_SHARE_SUPPLY" by (simp_all add: MAX_SHARE_SUPPLY_def)
  consider (small) "\<not> (n > MAX_SHARE_SUPPLY \<or> d > MAX_SHARE_SUPPLY)"
    | (edge) "n > MAX_SHARE_SUPPLY \<or> d > MAX_SHARE_SUPPLY" "n = 1 \<or> d = 1"
    | (rec) "n > MAX_SHARE_SUPPLY \<or> d > MAX_SHARE_SUPPLY" "n \<noteq> 1" "d \<noteq> 1" by blast
  then show ?case
  proof cases
    case small
    with "1.prems" show ?thesis by (simp add: ratio_shrink.simps [of n d]) blast
  next
    case edge
    with M show ?thesis by (auto simp: ratio_shrink.simps [of n d])
  next
    case rec
    have "0 < n div 2" "0 < d div 2" using "1.prems" rec(2,3) by linarith+
    then have "0 < numer (rnormalize (n div 2) (d div 2))" "0 < denom (rnormalize (n div 2) (d div 2))"
      by (simp_all only: numer_rnormalize_pos denom_rnormalize_pos)
    from "1.IH" [OF rec this] show ?thesis
      using rec by (simp add: ratio_shrink.simps [of n d]) blast
  qed
qed

lemma ratio_correct_range:
  assumes "0 < numer ocp" "0 < denom ocp"
    and "0 < numer cp" "numer cp \<le> MAX_SHARE_SUPPLY" "0 < denom cp" "denom cp \<le> MAX_SHARE_SUPPLY"
  shows "0 < numer (ratio_correct cp ocp) \<and> numer (ratio_correct cp ocp) \<le> MAX_SHARE_SUPPLY \<and>
         0 < denom (ratio_correct cp ocp) \<and> denom (ratio_correct cp ocp) \<le> MAX_SHARE_SUPPLY"
proof -
  define n' where "n' = (if numer ocp > denom ocp then min (numer ocp div denom ocp) MAX_SHARE_SUPPLY else 1)"
  define d' where "d' = (if numer ocp > denom ocp then 1 else min (denom ocp div numer ocp) MAX_SHARE_SUPPLY)"
  have M: "1 \<le> MAX_SHARE_SUPPLY" by (simp add: MAX_SHARE_SUPPLY_def)
  have "0 < n'" "n' \<le> MAX_SHARE_SUPPLY" "0 < d'" "d' \<le> MAX_SHARE_SUPPLY"
    using assms(1,2) M pos_imp_zdiv_pos_iff
    by (auto simp: n'_def d'_def pos_imp_zdiv_pos_iff)
  then have "0 < numer (rnormalize n' d')" "0 < denom (rnormalize n' d')"
    "numer (rnormalize n' d') \<le> MAX_SHARE_SUPPLY" "denom (rnormalize n' d') \<le> MAX_SHARE_SUPPLY"
    using rnormalize_le [of n' d'] by (simp_all add: numer_rnormalize_pos denom_rnormalize_pos)
  with assms show ?thesis
    by (simp add: ratio_correct_def Let_def flip: n'_def d'_def)
qed

lemma exact_scaling_direction:
  fixes b q rn rd n d :: int
  assumes pos: "0 < b" "0 < q" "0 < rn" "0 < rd" "0 < n" "0 < d"
    and cross: "n * (q * rd) = b * rn * d"
  shows "rd < rn \<longrightarrow> b * d < n * q" "rn < rd \<longrightarrow> n * q < b * d"
proof -
  have e: "(n * q) * rd = (b * d) * rn" using cross by (simp add: ac_simps)
  have bd: "0 < b * d" using pos by simp
  have "rd < rn \<longrightarrow> (b * d) * rd < (n * q) * rd" "rn < rd \<longrightarrow> (n * q) * rd < (b * d) * rd"
    unfolding e using bd by (blast intro: mult_strict_left_mono)+
  then show "rd < rn \<longrightarrow> b * d < n * q" "rn < rd \<longrightarrow> n * q < b * d"
    using pos(4) by (simp_all only: mult_less_cancel_right_pos)
qed

lemma price_mul_ratio_spec:
  assumes "valid_price p" and "0 < numer r" and "0 < denom r"
  shows "\<exists>q. price_mul_ratio p r = Inr q \<and> valid_price q
     \<and> asset_id (base q) = asset_id (base p) \<and> asset_id (quote q) = asset_id (quote p)
     \<and> (denom r < numer r \<longrightarrow> \<not> price_less q p)
     \<and> (numer r < denom r \<longrightarrow> \<not> price_less p q)
     \<and> (numer r = denom r \<longrightarrow> q = p)"
proof (cases "numer r = denom r")
  case True
  have "price_validate p = Inr ()" using assms(1) by (simp add: price_validate_def valid_price_def)
  with True assms show ?thesis by (simp add: price_mul_ratio_def price_order.irrefl)
next
  case False
  note v = valid_priceD [OF assms(1)]
  have val: "price_validate p = Inr ()" using v by (simp add: price_validate_def)
  define ocp where "ocp = rat_mult (rnormalize (amount (base p)) (amount (quote p)))
                                   (rnormalize (numer r) (denom r))"
  have pos: "0 < numer ocp" "0 < denom ocp"
    using v assms unfolding ocp_def
    by (intro rat_mult_pos; simp add: numer_rnormalize_pos denom_rnormalize_pos)+
  obtain n d s m where sh: "ratio_shrink (numer ocp) (denom ocp) False = ((n, d), s, m)"
    and rng: "0 < n" "n \<le> MAX_SHARE_SUPPLY" "0 < d" "d \<le> MAX_SHARE_SUPPLY"
    and exact: "\<not> s \<Longrightarrow> \<not> m \<Longrightarrow> n = numer ocp \<and> d = denom ocp"
    using ratio_shrink_result [OF pos, of False] by blast
  define cp where "cp = (if s then ratio_correct (n, d) ocp else (n, d))"
  define np where "np = \<lparr>base = mk_asset (numer cp) (asset_id (base p)),
                         quote = mk_asset (denom cp) (asset_id (quote p))\<rparr>"
  define np' where "np' = (if (s \<or> m) \<and> (denom r < numer r \<and> price_less np p \<or>
                                numer r < denom r \<and> price_gt np p) then p else np)"
  have cp: "0 < numer cp \<and> numer cp \<le> MAX_SHARE_SUPPLY \<and> 0 < denom cp \<and> denom cp \<le> MAX_SHARE_SUPPLY"
    using ratio_correct_range [OF pos, of "(n, d)"] rng by (simp add: cp_def)
  then have vnp: "valid_price np"
    using v(5) by (auto simp: np_def valid_price_def safe_max_def MAX_SHARE_SUPPLY_def)
  then have vnp': "valid_price np'" using assms(1) by (simp add: np'_def)
  have nd: "asset_div (mk_asset (numer cp) (asset_id (base p)))
      (mk_asset (denom cp) (asset_id (quote p))) = Inr np"
    using v(5) by (simp add: asset_div_def np_def)
  have "price_mul_ratio p r = scaled_price p r (s \<or> m) cp"
    using val False assms(2,3) v sh
    by (simp add: price_mul_ratio_def mk_rational_def cp_def flip: ocp_def)
  also have "\<dots> = bindE (price_validate np') (\<lambda>_. Inr np')"
    by (simp only: scaled_price_def nd bindE_simps Let_def np'_def)
  also have "\<dots> = Inr np'"
    using vnp' by (simp add: price_validate_def valid_price_def)
  finally have eq: "price_mul_ratio p r = Inr np'" .
  have same: "asset_id (base np) = asset_id (base p)" "asset_id (quote np) = asset_id (quote p)"
    by (simp_all add: np_def)
  have dir: "(denom r < numer r \<longrightarrow> \<not> price_less np p) \<and> (numer r < denom r \<longrightarrow> \<not> price_less p np)"
    if ns: "\<not> s" "\<not> m"
  proof -
    have cpo: "cp = ocp" using exact ns by (cases ocp) (simp add: cp_def)
    have cross: "numer ocp * (amount (quote p) * denom r) = amount (base p) * numer r * denom ocp"
      unfolding ocp_def using v(4) assms(3) by (rule rat_mult_rnormalize_cross)
    have am: "amount (base np) = numer ocp" "amount (quote np) = denom ocp"
      by (simp_all add: np_def cpo)
    note ed = exact_scaling_direction [OF v(3,4) assms(2,3) pos cross]
    have "price_less np p \<longleftrightarrow> numer ocp * amount (quote p) < amount (base p) * denom ocp"
      "price_less p np \<longleftrightarrow> amount (base p) * denom ocp < numer ocp * amount (quote p)"
      using price_less_cross [OF vnp assms(1) same] price_less_cross [OF assms(1) vnp same [symmetric]] am
      by (simp_all only: mult.commute)
    with ed show ?thesis by auto
  qed
  have "(denom r < numer r \<longrightarrow> \<not> price_less np' p) \<and> (numer r < denom r \<longrightarrow> \<not> price_less p np')"
  proof (cases "s \<or> m")
    case True
    then show ?thesis using price_order.irrefl [OF assms(1)] by (auto simp: np'_def price_gt_def)
  next
    case ns: False
    then show ?thesis using dir by (simp add: np'_def)
  qed
  moreover have "asset_id (base np') = asset_id (base p)" "asset_id (quote np') = asset_id (quote p)"
    using same by (simp_all add: np'_def)
  ultimately show ?thesis using eq vnp' False by auto
qed

text \<open>
  C7. Scaling a price: for every valid price and every positive ratio, \<open>p * r\<close> terminates
  without an exception, gives a valid price of the same market, and never moves the price against
  the ratio: a ratio above one never yields a smaller price, a ratio below one never a larger one,
  and one leaves it unchanged, whatever was rounded or clipped on the way.
\<close>

theorem price_mul_ratio_total:
  assumes "valid_price p" and "0 < numer r" and "0 < denom r"
  shows "\<exists>q. price_mul_ratio p r = Inr q \<and> valid_price q
     \<and> asset_id (base q) = asset_id (base p) \<and> asset_id (quote q) = asset_id (quote p)
     \<and> (denom r < numer r \<longrightarrow> \<not> price_less q p)
     \<and> (numer r < denom r \<longrightarrow> \<not> price_less p q)
     \<and> (numer r = denom r \<longrightarrow> q = p)"
  by (rule price_mul_ratio_spec [OF assms])

theorem price_mul_ratio_total_witness:
  "\<exists>q. price_mul_ratio \<lparr>base = mk_asset 999999999999999 1, quote = mk_asset 7 0\<rparr> (1500, 1000) = Inr q
     \<and> valid_price q
     \<and> \<not> price_less q \<lparr>base = mk_asset 999999999999999 1, quote = mk_asset 7 0\<rparr>"
  using price_mul_ratio_total
    [of "\<lparr>base = mk_asset 999999999999999 1, quote = mk_asset 7 0\<rparr>" "(1500, 1000)"]
  by (auto simp: valid_price_def safe_max_def)

end
