(* ===== verification/Object_Id.thy ===== *)
theory Object_Id
  imports Prelude
begin

unbundle bit_operations_syntax

text \<open>
  Object identifiers, \<open>db/include/graphene/db/object_id.hpp\<close>: 64 bits holding the space (8),
  the type (8) and the instance (48) of an object.  \<open>object_id_type\<close> is a \<open>64 word\<close>; the typed
  wrapper \<open>object_id<SpaceID,TypeID>\<close> keeps only the instance.  Number printing and parsing are
  \<open>boost::lexical_cast\<close> in the code and parameters here.
\<close>

type_synonym object_id_type = "64 word"

definition MAX_INSTANCE_ID :: "64 word" where
  "MAX_INSTANCE_ID = drop_bit 16 (- 1)"

definition mk_object_id :: "8 word \<Rightarrow> 8 word \<Rightarrow> 64 word \<Rightarrow> object_id_type result" where
  "mk_object_id s t i =
     assertE (drop_bit 48 i = 0) (Inr (push_bit 56 (ucast s) OR push_bit 48 (ucast t) OR i))"

definition id_space :: "object_id_type \<Rightarrow> 8 word" where
  "id_space n = ucast (drop_bit 56 n)"

definition id_type :: "object_id_type \<Rightarrow> 8 word" where
  "id_type n = ucast (drop_bit 48 n AND 0xff)"

definition id_space_type :: "object_id_type \<Rightarrow> 16 word" where
  "id_space_type n = ucast (drop_bit 48 n)"

definition id_instance :: "object_id_type \<Rightarrow> 64 word" where
  "id_instance n = n AND MAX_INSTANCE_ID"

definition id_is_null :: "object_id_type \<Rightarrow> bool" where
  "id_is_null n = (n = 0)"

definition id_incr :: "object_id_type \<Rightarrow> object_id_type" where
  "id_incr n = n + 1"

definition id_plus :: "object_id_type \<Rightarrow> int \<Rightarrow> object_id_type result" where
  "id_plus a delta = mk_object_id (id_space a) (id_type a) (id_instance a + word_of_int delta)"

text \<open>\<open>id.is<T>()\<close> and \<open>id.as<T>()\<close> for a type \<open>T\<close> with the given space and type ids; the
  typed id keeps the instance.\<close>

definition id_is :: "8 word \<Rightarrow> 8 word \<Rightarrow> object_id_type \<Rightarrow> bool" where
  "id_is s t n = (drop_bit 48 n = (push_bit 8 (ucast s) OR ucast t))"

definition id_as :: "8 word \<Rightarrow> 8 word \<Rightarrow> object_id_type \<Rightarrow> 64 word result" where
  "id_as s t n = assertE (id_is s t n) (Inr (id_instance n))"

text \<open>\<open>object_id<SpaceID,TypeID>\<close>: construction from a number, conversion to \<open>object_id_type\<close>.\<close>

definition typed_id :: "64 word \<Rightarrow> 64 word result" where
  "typed_id i = assertE (drop_bit 48 i = 0) (Inr i)"

definition typed_to_id :: "8 word \<Rightarrow> 8 word \<Rightarrow> 64 word \<Rightarrow> object_id_type result" where
  "typed_to_id s t i = mk_object_id s t i"

subsection \<open>Packing and unpacking\<close>

lemma high_bits_zero:
  "drop_bit 48 (i :: 64 word) = 0 \<Longrightarrow> 48 \<le> n \<Longrightarrow> \<not> bit i n"
proof -
  assume a: "drop_bit 48 i = 0" and n: "48 \<le> n"
  have "bit i n = bit (drop_bit 48 i) (n - 48)" using n by (simp add: bit_drop_bit_eq)
  then show ?thesis by (simp add: a)
qed

lemma bit_MAX_INSTANCE_ID: "bit MAX_INSTANCE_ID n \<longleftrightarrow> n < 48"
proof -
  have eq: "MAX_INSTANCE_ID = mask 48" by (simp add: MAX_INSTANCE_ID_def mask_eq_exp_minus_1)
  show ?thesis unfolding eq by (auto simp: bit_mask_iff)
qed

lemma byte_mask: "(0xff :: 64 word) = mask 8"
  by (simp add: mask_eq_exp_minus_1)

lemma bit_byte: "bit (w :: 8 word) n \<Longrightarrow> n < 8"
  using bit_imp_le_length [of w n] by simp

lemma mk_object_id_ok: "is_ok (mk_object_id s t i) \<longleftrightarrow> drop_bit 48 i = 0"
  by (simp add: mk_object_id_def assertE_def)

lemma packed_fields:
  assumes "mk_object_id s t i = Inr n"
  shows "id_space n = s" "id_type n = t" "id_instance n = i"
proof -
  from assms have i: "drop_bit 48 i = 0" and n: "n = push_bit 56 (ucast s) OR push_bit 48 (ucast t) OR i"
    by (auto simp: mk_object_id_def result_simps)
  note h = high_bits_zero [OF i]
  show "id_space n = s"
    unfolding id_space_def n
    by (rule bit_word_eqI) (auto simp: bit_simps h dest: bit_byte)
  show "id_type n = t"
    unfolding id_type_def n
    by (rule bit_word_eqI) (auto simp: bit_simps h byte_mask)
  show "id_instance n = i"
    unfolding id_instance_def n
  proof (rule bit_word_eqI)
    fix k
    assume "k < LENGTH(64)"
    show "bit ((push_bit 56 (ucast s) OR push_bit 48 (ucast t) OR i) AND MAX_INSTANCE_ID) k = bit i k"
      using h [of k] by (cases "k < 48") (auto simp: bit_simps bit_MAX_INSTANCE_ID)
  qed
qed

lemma unpacked_repack:
  "mk_object_id (id_space n) (id_type n) (id_instance n) = Inr n"
proof -
  have "drop_bit 48 (id_instance n) = 0"
    by (rule bit_word_eqI) (simp add: id_instance_def bit_simps bit_MAX_INSTANCE_ID)
  moreover have "push_bit 56 (ucast (id_space n)) OR push_bit 48 (ucast (id_type n)) OR id_instance n = n"
  proof (rule bit_word_eqI)
    fix k
    assume k: "k < LENGTH(64)"
    consider "k < 48" | "48 \<le> k" "k < 56" | "56 \<le> k" "k < 64" using k by fastforce
    then show "bit (push_bit 56 (ucast (id_space n)) OR push_bit 48 (ucast (id_type n)) OR id_instance n) k
        = bit n k"
      by cases (auto simp: id_instance_def id_space_def id_type_def bit_simps byte_mask bit_MAX_INSTANCE_ID)
  qed
  ultimately show ?thesis by (simp add: mk_object_id_def)
qed

lemma space_type_bits:
  "drop_bit 48 m = push_bit 8 (ucast (id_space m)) OR ucast (id_type (m :: 64 word))"
proof (rule bit_word_eqI)
  fix k
  assume k: "k < LENGTH(64)"
  consider "k < 8" | "8 \<le> k" "k < 16" | "16 \<le> k" by linarith
  then show "bit (drop_bit 48 m) k = bit (push_bit 8 (ucast (id_space m)) OR ucast (id_type m) :: 64 word) k"
  proof cases
    case 2
    then have "48 + k = 56 + (k - 8)" by simp
    with 2 show ?thesis by (auto simp: id_space_def id_type_def bit_simps byte_mask)
  next
    case 3
    then have "\<not> bit m (48 + k)" using bit_imp_le_length [of m "48 + k"] by auto
    with 3 show ?thesis by (auto simp: id_space_def id_type_def bit_simps byte_mask dest: bit_byte)
  qed (auto simp: id_space_def id_type_def bit_simps byte_mask)
qed

lemma two_bytes_eq:
  "push_bit 8 (ucast a) OR ucast b = (push_bit 8 (ucast c) OR ucast d :: 64 word)
   \<longleftrightarrow> a = c \<and> b = (d :: 8 word)" for a :: "8 word"
proof
  assume eq: "push_bit 8 (ucast a) OR ucast b = (push_bit 8 (ucast c) OR ucast d :: 64 word)"
  have "bit a k = bit c k" if "k < 8" for k
    using arg_cong [OF eq, of "\<lambda>w. bit w (k + 8)"] that by (auto simp: bit_simps dest: bit_byte)
  moreover have "bit b k = bit d k" if "k < 8" for k
    using arg_cong [OF eq, of "\<lambda>w. bit w k"] that by (auto simp: bit_simps)
  ultimately show "a = c \<and> b = d" by (auto intro!: bit_word_eqI)
qed simp

lemma id_is_fields: "id_is s t m = (id_space m = s \<and> id_type m = t)"
  by (simp add: id_is_def space_type_bits two_bytes_eq)

text \<open>
  An object id is its three fields: the constructor accepts exactly the instances below
  2^48, the accessors then return what was packed, packing the accessors of any id gives the id
  back, and the test for a type is the test of the two type fields.
\<close>

lemma object_id_fields:
  "is_ok (mk_object_id s t i) = (drop_bit 48 i = 0)
   \<and> (case mk_object_id s t i of Inl e \<Rightarrow> e = AssertFailed
        | Inr n \<Rightarrow> id_space n = s \<and> id_type n = t \<and> id_instance n = i)
   \<and> mk_object_id (id_space m) (id_type m) (id_instance m) = Inr m
   \<and> id_is s t m = (id_space m = s \<and> id_type m = t)"
proof -
  have "case mk_object_id s t i of Inl e \<Rightarrow> e = AssertFailed
        | Inr n \<Rightarrow> id_space n = s \<and> id_type n = t \<and> id_instance n = i"
    using packed_fields [of s t i] by (cases "mk_object_id s t i") (auto simp: mk_object_id_def assertE_eq_Inl)
  moreover have "id_is s t m = (id_space m = s \<and> id_type m = t)"
    by (rule id_is_fields)
  ultimately show ?thesis using mk_object_id_ok unpacked_repack by blast
qed

subsection \<open>The textual form space.type.instance\<close>

text \<open>\<open>std::string::find(c, pos)\<close>; \<open>None\<close> is \<open>npos\<close>.\<close>

definition str_find :: "string \<Rightarrow> char \<Rightarrow> nat \<Rightarrow> nat option" where
  "str_find s c pos =
     (if c \<in> set (drop pos s) then Some (pos + length (takeWhile (\<lambda>x. x \<noteq> c) (drop pos s))) else None)"

definition id_to_string :: "(64 word \<Rightarrow> string) \<Rightarrow> object_id_type \<Rightarrow> string" where
  "id_to_string num n =
     num (ucast (id_space n)) @ ''.'' @ num (ucast (id_type n)) @ ''.'' @ num (id_instance n)"

definition typed_id_to_string :: "(64 word \<Rightarrow> string) \<Rightarrow> 8 word \<Rightarrow> 8 word \<Rightarrow> 64 word \<Rightarrow> string" where
  "typed_id_to_string num s t i = num (ucast s) @ ''.'' @ num (ucast t) @ ''.'' @ num i"

text \<open>The three substrings of the parser.  With no second dot \<open>substr(npos + 1)\<close> is the whole
  string and the middle part extends to the end.\<close>

definition split_id :: "string \<Rightarrow> (string \<times> string \<times> string) result" where
  "split_id s =
     (let first_dot = str_find s CHR ''.'' 0;
          second_dot = str_find s CHR ''.'' (case first_dot of None \<Rightarrow> 0 | Some k \<Rightarrow> k + 1)
      in assertE (first_dot \<noteq> second_dot) (
         case first_dot of None \<Rightarrow> Inl AssertFailed | Some f \<Rightarrow>
         assertE (f \<noteq> 0)
           (Inr (take f s,
                 (case second_dot of None \<Rightarrow> drop (f + 1) s | Some k \<Rightarrow> take (k - f - 1) (drop (f + 1) s)),
                 (case second_dot of None \<Rightarrow> s | Some k \<Rightarrow> drop (k + 1) s)))))"

definition id_from_string :: "(string \<Rightarrow> 64 word option) \<Rightarrow> string \<Rightarrow> object_id_type result" where
  "id_from_string rd s =
     bindE (split_id s) (\<lambda>(sp, ty, ins).
     bindE (of_option OtherThrow (rd ins)) (\<lambda>number.
     assertE (number \<le> MAX_INSTANCE_ID) (
     bindE (of_option OtherThrow (rd sp)) (\<lambda>space_id.
     assertE (space_id \<le> 0xff) (
     bindE (of_option OtherThrow (rd ty)) (\<lambda>type_id.
     assertE (type_id \<le> 0xff)
       (Inr (number OR (push_bit 56 space_id OR push_bit 48 type_id)))))))))"

definition typed_id_from_string ::
  "(string \<Rightarrow> 64 word option) \<Rightarrow> 8 word \<Rightarrow> 8 word \<Rightarrow> string \<Rightarrow> 64 word result" where
  "typed_id_from_string rd s_id t_id s =
     bindE (split_id s) (\<lambda>(sp, ty, ins).
     bindE (of_option OtherThrow (rd sp)) (\<lambda>space_id.
     assertE (space_id = ucast s_id) (
     bindE (of_option OtherThrow (rd ty)) (\<lambda>type_id.
     assertE (type_id = ucast t_id)
       (of_option OtherThrow (rd ins))))))"

lemma str_find_append:
  "c \<notin> set a \<Longrightarrow> str_find (a @ c # b) c 0 = Some (length a)"
  by (simp add: str_find_def takeWhile_append)

lemma str_find_second:
  assumes "c \<notin> set b"
  shows "str_find (a @ c # b @ c # d) c (Suc (length a)) = Some (length a + 1 + length b)"
  using assms by (simp add: str_find_def takeWhile_append)

lemma split_id_three_parts:
  assumes "CHR ''.'' \<notin> set a" "CHR ''.'' \<notin> set b" "a \<noteq> []"
  shows "split_id (a @ ''.'' @ b @ ''.'' @ d) = Inr (a, b, d)"
  using assms by (simp add: split_id_def str_find_append str_find_second Let_def)

lemma ucast_byte_le: "(ucast (b :: 8 word) :: 64 word) \<le> 0xff"
proof -
  have "uint b < 256" using uint_lt2p [of b] by simp
  then show ?thesis by (simp add: word_le_def unsigned_ucast_eq take_bit_eq_mod)
qed

lemma id_instance_le: "id_instance n \<le> MAX_INSTANCE_ID"
  by (simp add: id_instance_def word_and_le1)

text \<open>
  Printing an id and parsing the text gives the id back, for the general and for the typed
  form.  \<open>num\<close> and \<open>rd\<close> stand for \<open>boost::lexical_cast\<close> in both directions, of which the code
  relies on three things: reading inverts printing, and a printed number is non-empty and has
  no dot.
\<close>

lemma object_id_text_round_trip:
  assumes "\<And>w. rd (num w) = Some w" and "\<And>w. num w \<noteq> []" and "\<And>w. CHR ''.'' \<notin> set (num w)"
  shows "id_from_string rd (id_to_string num n) = Inr n
     \<and> typed_id_from_string rd s t (typed_id_to_string num s t i) = Inr i"
proof -
  have "split_id (id_to_string num n)
      = Inr (num (ucast (id_space n)), num (ucast (id_type n)), num (id_instance n))"
    unfolding id_to_string_def using assms(2,3) by (intro split_id_three_parts)
  moreover have "id_instance n OR (push_bit 56 (ucast (id_space n)) OR push_bit 48 (ucast (id_type n))) = n"
    using unpacked_repack [of n] by (auto simp: mk_object_id_def result_simps ac_simps)
  ultimately have "id_from_string rd (id_to_string num n) = Inr n"
    by (simp add: id_from_string_def assms(1) ucast_byte_le id_instance_le)
  moreover have "split_id (typed_id_to_string num s t i) = Inr (num (ucast s), num (ucast t), num i)"
    unfolding typed_id_to_string_def using assms(2,3) by (intro split_id_three_parts)
  then have "typed_id_from_string rd s t (typed_id_to_string num s t i) = Inr i"
    by (simp add: typed_id_from_string_def assms(1))
  ultimately show ?thesis ..
qed

subsection \<open>Decimal numerals\<close>

text \<open>A concrete pair of number printer and reader, used to show that the hypotheses of the
  round trips can hold.\<close>

function decimal :: "nat \<Rightarrow> string" where
  "decimal n = (if n < 10 then [char_of (48 + n)] else decimal (n div 10) @ [char_of (48 + n mod 10)])"
  by pat_completeness auto
termination by (relation "measure id") auto

declare decimal.simps [simp del]

definition is_digit :: "char \<Rightarrow> bool" where
  "is_digit c = (48 \<le> (of_char c :: nat) \<and> (of_char c :: nat) \<le> 57)"

definition decimal_value :: "string \<Rightarrow> nat" where
  "decimal_value s = foldl (\<lambda>a c. a * 10 + (of_char c - 48)) 0 s"

definition read_decimal :: "string \<Rightarrow> nat option" where
  "read_decimal s = (if s \<noteq> [] \<and> list_all is_digit s then Some (decimal_value s) else None)"

definition print_u64 :: "64 word \<Rightarrow> string" where
  "print_u64 w = decimal (unat w)"

definition read_u64 :: "string \<Rightarrow> 64 word option" where
  "read_u64 s = (case read_decimal s of None \<Rightarrow> None
     | Some n \<Rightarrow> if n < 2 ^ 64 then Some (of_nat n) else None)"

lemma of_char_digit: "n < 10 \<Longrightarrow> (of_char (char_of (48 + n) :: char) :: nat) = 48 + n"
  by simp

lemma decimal_nonempty: "decimal n \<noteq> []"
  by (simp add: decimal.simps [of n])

lemma decimal_digits: "list_all is_digit (decimal n)"
proof (induction n rule: decimal.induct)
  case (1 n)
  then show ?case by (auto simp: decimal.simps [of n] is_digit_def)
qed

lemma decimal_value_decimal: "decimal_value (decimal n) = n"
proof (induction n rule: decimal.induct)
  case (1 n)
  then show ?case by (auto simp: decimal.simps [of n] decimal_value_def)
qed

lemma read_decimal_decimal: "read_decimal (decimal n) = Some n"
  by (simp add: read_decimal_def decimal_nonempty decimal_digits decimal_value_decimal)

lemma read_print_u64: "read_u64 (print_u64 w) = Some w"
  using unsigned_less [of w] by (simp add: read_u64_def print_u64_def read_decimal_decimal)

lemma print_u64_nonempty: "print_u64 w \<noteq> []"
  by (simp add: print_u64_def decimal_nonempty)

lemma print_u64_no_dot: "CHR ''.'' \<notin> set (print_u64 w)"
proof
  assume "CHR ''.'' \<in> set (print_u64 w)"
  then have "is_digit (CHR ''.'')"
    using decimal_digits [of "unat w"] by (auto simp: print_u64_def list_all_iff)
  then show False by (simp add: is_digit_def)
qed

lemma object_id_text_round_trip_witness:
  "id_from_string read_u64 (id_to_string print_u64 0x0107000000001234) = Inr 0x0107000000001234
   \<and> typed_id_from_string read_u64 1 7 (typed_id_to_string print_u64 1 7 4660) = Inr 4660"
  using object_id_text_round_trip [of read_u64 print_u64 "0x0107000000001234" 1 7 4660]
  by (simp add: read_print_u64 print_u64_nonempty print_u64_no_dot)

end
