(* ===== verification/Object_Index.thy ===== *)
theory Object_Index
  imports Object_Id
begin

text \<open>
  The containers of the object database: \<open>generic_index\<close> (\<open>db/include/graphene/db/generic_index.hpp\<close>,
  a \<open>boost::multi_index_container\<close> whose first key is the id), \<open>simple_index\<close>
  (\<open>simple_index.hpp\<close>, a vector indexed by instance) and \<open>primary_index\<close> (\<open>index.hpp\<close>), which adds
  the counter of ids.  The contract of an index is the locale \<open>object_index\<close>; it is interpreted on
  both containers and on the virtual dispatch over them.

  A multi-index container refuses an element that shares a unique key with another one.  Which
  keys are unique depends on the object type, so \<open>uq p q\<close> (the two objects share a unique key
  other than the i) is an argument of the operations.
\<close>

record 'v object =
  oid :: object_id_type
  val :: 'v

type_synonym 'v obj_cond = "'v object \<Rightarrow> 'v object \<Rightarrow> bool"

subsection \<open>\<open>generic_index\<close>\<close>

definition gi_find :: "'v object list \<Rightarrow> object_id_type \<Rightarrow> 'v object option" where
  "gi_find os i = List.find (\<lambda>p. oid p = i) os"

text \<open>The insertion of \<open>item\<close> collides with an element of the container.\<close>

definition gi_clash :: "'v obj_cond \<Rightarrow> 'v object \<Rightarrow> 'v object list \<Rightarrow> bool" where
  "gi_clash uq item os = list_ex (\<lambda>p. oid p = oid item \<or> uq p item) os"

definition gi_insert :: "'v obj_cond \<Rightarrow> 'v object \<Rightarrow> 'v object list \<Rightarrow> 'v object list result" where
  "gi_insert uq item os = assertE (\<not> gi_clash uq item os) (Inr (os @ [item]))"

text \<open>\<open>obj\<close> is a reference into the container; a reference that is not is undefined behaviour.
  The callback may throw, and the container may refuse the new value.\<close>

definition gi_modify ::
  "'v obj_cond \<Rightarrow> object_id_type \<Rightarrow> ('v object \<Rightarrow> 'v object result) \<Rightarrow> 'v object list \<Rightarrow> 'v object list result" where
  "gi_modify uq i m os =
     bindE (of_option UndefinedBehaviour (gi_find os i)) (\<lambda>ob.
     bindE (m ob) (\<lambda>ob'.
     assertE (\<not> gi_clash uq ob' (filter (\<lambda>p. oid p \<noteq> i) os))
       (Inr (List.map (\<lambda>p. if oid p = i then ob' else p) os))))"

definition gi_remove :: "object_id_type \<Rightarrow> 'v object list \<Rightarrow> 'v object list result" where
  "gi_remove i os =
     bindE (of_option UndefinedBehaviour (gi_find os i)) (\<lambda>_.
     Inr (filter (\<lambda>p. oid p \<noteq> i) os))"

subsection \<open>\<open>simple_index\<close>\<close>

abbreviation slot_of :: "object_id_type \<Rightarrow> nat" where
  "slot_of i \<equiv> unat (id_instance i)"

definition si_find :: "'v object option list \<Rightarrow> object_id_type \<Rightarrow> 'v object option" where
  "si_find os i = (if length os \<le> slot_of i then None else os ! slot_of i)"

text \<open>\<open>_objects.resize(instance + 1)\<close> when the vector is shorter.\<close>

definition si_grow :: "nat \<Rightarrow> 'v object option list \<Rightarrow> 'v object option list" where
  "si_grow k os = (if length os \<le> k then os @ replicate (k + 1 - length os) None else os)"

definition si_insert :: "'v object \<Rightarrow> 'v object option list \<Rightarrow> 'v object option list result" where
  "si_insert item os = Inr ((si_grow (slot_of (oid item)) os) [slot_of (oid item) := Some item])"

definition si_modify ::
  "object_id_type \<Rightarrow> ('v object \<Rightarrow> 'v object result) \<Rightarrow> 'v object option list \<Rightarrow> 'v object option list result" where
  "si_modify i m os =
     bindE (of_option UndefinedBehaviour (si_find os i)) (\<lambda>ob.
     bindE (m ob) (\<lambda>ob'. Inr (os [slot_of i := Some ob'])))"

definition si_remove :: "object_id_type \<Rightarrow> 'v object option list \<Rightarrow> 'v object option list result" where
  "si_remove i os =
     bindE (of_option UndefinedBehaviour (si_find os i)) (\<lambda>_.
     Inr (rev (dropWhile (\<lambda>x. x = None) (rev (os [slot_of i := None])))))"

subsection \<open>\<open>primary_index\<close> over either container\<close>

datatype 'v container = Generic "'v object list" | Simple "'v object option list"

record 'v prim_index =
  pi_objects :: "'v container"
  pi_next_id :: object_id_type

definition ix_find :: "'v prim_index \<Rightarrow> object_id_type \<Rightarrow> 'v object option" where
  "ix_find ix i = (case pi_objects ix of Generic os \<Rightarrow> gi_find os i | Simple os \<Rightarrow> si_find os i)"

definition ix_get :: "'v prim_index \<Rightarrow> object_id_type \<Rightarrow> 'v object result" where
  "ix_get ix i = of_option AssertFailed (ix_find ix i)"

definition ix_insert :: "'v obj_cond \<Rightarrow> 'v object \<Rightarrow> 'v prim_index \<Rightarrow> 'v prim_index result" where
  "ix_insert uq item ix =
     (case pi_objects ix of
        Generic os \<Rightarrow> bindE (gi_insert uq item os) (\<lambda>os'. Inr (ix\<lparr>pi_objects := Generic os'\<rparr>))
      | Simple os \<Rightarrow> bindE (si_insert item os) (\<lambda>os'. Inr (ix\<lparr>pi_objects := Simple os'\<rparr>)))"

definition ix_modify ::
  "'v obj_cond \<Rightarrow> object_id_type \<Rightarrow> ('v object \<Rightarrow> 'v object result) \<Rightarrow> 'v prim_index \<Rightarrow> 'v prim_index result" where
  "ix_modify uq i m ix =
     (case pi_objects ix of
        Generic os \<Rightarrow> bindE (gi_modify uq i m os) (\<lambda>os'. Inr (ix\<lparr>pi_objects := Generic os'\<rparr>))
      | Simple os \<Rightarrow> bindE (si_modify i m os) (\<lambda>os'. Inr (ix\<lparr>pi_objects := Simple os'\<rparr>)))"

definition ix_remove :: "object_id_type \<Rightarrow> 'v prim_index \<Rightarrow> 'v prim_index result" where
  "ix_remove i ix =
     (case pi_objects ix of
        Generic os \<Rightarrow> bindE (gi_remove i os) (\<lambda>os'. Inr (ix\<lparr>pi_objects := Generic os'\<rparr>))
      | Simple os \<Rightarrow> bindE (si_remove i os) (\<lambda>os'. Inr (ix\<lparr>pi_objects := Simple os'\<rparr>)))"

text \<open>\<open>create\<close>: the constructor callback gets an object with the next id and may throw.
  \<open>simple_index\<close> stores the id again after the callback, \<open>generic_index\<close> keeps what the callback
  left there.  The result is the object stored and the index.\<close>

definition ix_create ::
  "'v obj_cond \<Rightarrow> (object_id_type \<Rightarrow> 'v object result) \<Rightarrow> 'v prim_index \<Rightarrow> ('v object \<times> 'v prim_index) result" where
  "ix_create uq ctor ix =
     bindE (ctor (pi_next_id ix)) (\<lambda>item.
     case pi_objects ix of
       Generic os \<Rightarrow>
         bindE (gi_insert uq item os) (\<lambda>os'.
         Inr (item, ix\<lparr>pi_objects := Generic os', pi_next_id := id_incr (pi_next_id ix)\<rparr>))
     | Simple os \<Rightarrow>
         (let item' = item\<lparr>oid := pi_next_id ix\<rparr> in
         bindE (si_insert item' os) (\<lambda>os'.
         Inr (item', ix\<lparr>pi_objects := Simple os', pi_next_id := id_incr (pi_next_id ix)\<rparr>))))"

subsection \<open>The contract of an index\<close>

text \<open>\<open>mine id\<close>: the id belongs to the index.  What a caller relies on: after an operation that
  did not throw, lookups have changed at the id of the operation only.\<close>

locale object_index =
  fixes mine :: "object_id_type \<Rightarrow> bool"
    and inv :: "'ix \<Rightarrow> bool"
    and find :: "'ix \<Rightarrow> object_id_type \<Rightarrow> 'v object option"
    and insert :: "'v object \<Rightarrow> 'ix \<Rightarrow> 'ix result"
    and modify :: "object_id_type \<Rightarrow> ('v object \<Rightarrow> 'v object result) \<Rightarrow> 'ix \<Rightarrow> 'ix result"
    and remove :: "object_id_type \<Rightarrow> 'ix \<Rightarrow> 'ix result"
  assumes find_id: "inv ix \<Longrightarrow> mine i \<Longrightarrow> find ix i = Some ob \<Longrightarrow> oid ob = i"
    and insert_law: "inv ix \<Longrightarrow> mine (oid ob) \<Longrightarrow> mine i \<Longrightarrow> insert ob ix = Inr ix' \<Longrightarrow>
      inv ix' \<and> find ix' i = (if i = oid ob then Some ob else find ix i)"
    and modify_law: "inv ix \<Longrightarrow> mine k \<Longrightarrow> mine i \<Longrightarrow> modify k m ix = Inr ix' \<Longrightarrow>
      (\<And>ob ob'. find ix k = Some ob \<Longrightarrow> m ob = Inr ob' \<Longrightarrow> oid ob' = k) \<Longrightarrow>
      \<exists>ob ob'. find ix k = Some ob \<and> m ob = Inr ob' \<and> inv ix' \<and>
        find ix' i = (if i = k then Some ob' else find ix i)"
    and remove_law: "inv ix \<Longrightarrow> mine k \<Longrightarrow> mine i \<Longrightarrow> remove k ix = Inr ix' \<Longrightarrow>
      find ix k \<noteq> None \<and> inv ix' \<and> find ix' i = (if i = k then None else find ix i)"
begin

lemma remove_insert:
  assumes "inv ix" "mine (oid ob)" "mine i" "find ix (oid ob) = None"
    and "insert ob ix = Inr ix1" "remove (oid ob) ix1 = Inr ix2"
  shows "inv ix2 \<and> find ix2 i = find ix i"
  using insert_law [OF assms(1,2,3,5)] remove_law [of ix1 "oid ob" i ix2] assms by auto

lemma modify_back:
  assumes "inv ix" "mine k" "mine i" "find ix k = Some ob"
    and "modify k m ix = Inr ix1" "\<And>ob'. m ob = Inr ob' \<Longrightarrow> oid ob' = k"
    and "modify k (\<lambda>_. Inr ob) ix1 = Inr ix2"
  shows "inv ix2 \<and> find ix2 i = find ix i"
proof -
  have k: "oid ob = k" using find_id assms(1,2,4) .
  obtain ob' where 1: "inv ix1" "find ix1 i = (if i = k then Some ob' else find ix i)"
    using modify_law [OF assms(1,2,3,5)] assms(4,6) by auto
  then show ?thesis using modify_law [OF 1(1) assms(2,3,7)] k assms(4) by auto
qed

lemma insert_removed:
  assumes "inv ix" "mine k" "mine i" "find ix k = Some ob"
    and "remove k ix = Inr ix1" "insert ob ix1 = Inr ix2"
  shows "inv ix2 \<and> find ix2 i = find ix i"
proof -
  have k: "oid ob = k" using find_id assms(1,2,4) .
  have "inv ix1" using remove_law [OF assms(1,2,3,5)] by blast
  then show ?thesis
    using insert_law [of ix1 ob i ix2] remove_law [OF assms(1,2,3,5)] assms k by auto
qed

end

subsection \<open>Both containers satisfy it\<close>

definition of_index :: "8 word \<times> 8 word \<Rightarrow> object_id_type \<Rightarrow> bool" where
  "of_index k i = (id_space i = fst k \<and> id_type i = snd k)"

definition gi_inv :: "8 word \<times> 8 word \<Rightarrow> 'v object list \<Rightarrow> bool" where
  "gi_inv k os = (distinct (List.map oid os) \<and> (\<forall>p \<in> set os. of_index k (oid p)))"

definition si_inv :: "8 word \<times> 8 word \<Rightarrow> 'v object option list \<Rightarrow> bool" where
  "si_inv k os = (\<forall>j < length os. \<forall>ob. os ! j = Some ob \<longrightarrow> of_index k (oid ob) \<and> slot_of (oid ob) = j)"

definition ix_inv :: "8 word \<times> 8 word \<Rightarrow> 'v prim_index \<Rightarrow> bool" where
  "ix_inv k ix = (case pi_objects ix of Generic os \<Rightarrow> gi_inv k os | Simple os \<Rightarrow> si_inv k os)"

lemma gi_find_Nil [simp]: "gi_find [] i = None"
  by (simp add: gi_find_def)

lemma gi_find_Cons [simp]: "gi_find (p # os) i = (if oid p = i then Some p else gi_find os i)"
  by (simp add: gi_find_def)

lemma gi_find_append [simp]:
  "gi_find (xs @ ys) i = (case gi_find xs i of None \<Rightarrow> gi_find ys i | Some p \<Rightarrow> Some p)"
  by (induction xs) simp_all

lemma gi_find_None: "gi_find os i = None \<longleftrightarrow> i \<notin> oid ` set os"
  by (induction os) auto

lemma gi_find_Some: "gi_find os i = Some p \<Longrightarrow> p \<in> set os \<and> oid p = i"
  by (induction os) (auto split: if_splits)

lemma gi_find_iff: "gi_inv k os \<Longrightarrow> gi_find os i = Some p \<longleftrightarrow> p \<in> set os \<and> oid p = i"
  by (induction os) (auto simp: gi_inv_def)

lemma gi_find_filter: "gi_find (filter (\<lambda>p. oid p \<noteq> k) os) i = (if i = k then None else gi_find os i)"
  by (induction os) auto

lemma gi_find_map:
  assumes "oid ob = k"
  shows "gi_find (List.map (\<lambda>p. if oid p = k then ob else p) os) i =
    (if i = k \<and> gi_find os k \<noteq> None then Some ob else gi_find os i)"
  using assms by (induction os) auto

lemma map_oid_replace:
  "oid ob = k \<Longrightarrow> List.map (oid \<circ> (\<lambda>p. if oid p = k then ob else p)) os = List.map oid os"
  by (induction os) auto

lemma generic_insert_law:
  assumes "gi_inv k os" "of_index k (oid ob)" "of_index k j" "gi_insert uq ob os = Inr os'"
  shows "gi_inv k os' \<and> gi_find os' j = (if j = oid ob then Some ob else gi_find os j)"
proof -
  from assms(4) have os': "os' = os @ [ob]" and new: "oid ob \<notin> oid ` set os"
    by (auto simp: gi_insert_def result_simps gi_clash_def list_ex_iff)
  with assms(1,2) have "gi_inv k os'" by (auto simp: gi_inv_def)
  moreover have "gi_find os (oid ob) = None" using new by (simp only: gi_find_None) simp
  then have "gi_find os' j = (if j = oid ob then Some ob else gi_find os j)"
    by (auto simp: os' split: option.splits)
  ultimately show ?thesis ..
qed

lemma generic_modify_law:
  assumes "gi_inv k os" "of_index k i" "of_index k j" "gi_modify uq i m os = Inr os'"
    and "\<And>ob ob'. gi_find os i = Some ob \<Longrightarrow> m ob = Inr ob' \<Longrightarrow> oid ob' = i"
  shows "\<exists>ob ob'. gi_find os i = Some ob \<and> m ob = Inr ob' \<and> gi_inv k os' \<and>
    gi_find os' j = (if j = i then Some ob' else gi_find os j)"
proof -
  from assms(4) obtain ob ob' where o: "gi_find os i = Some ob" "m ob = Inr ob'"
    and os': "os' = List.map (\<lambda>p. if oid p = i then ob' else p) os"
    by (auto simp: gi_modify_def result_simps)
  have i: "oid ob' = i" using assms(5) o by blast
  have "gi_inv k os'" using assms(1,2) i by (auto simp: os' gi_inv_def map_oid_replace [OF i])
  moreover have "gi_find os' j = (if j = i then Some ob' else gi_find os j)"
    using o(1) by (simp add: os' gi_find_map [OF i])
  ultimately show ?thesis using o by blast
qed

lemma generic_remove_law:
  assumes "gi_inv k os" "of_index k i" "of_index k j" "gi_remove i os = Inr os'"
  shows "gi_find os i \<noteq> None \<and> gi_inv k os' \<and> gi_find os' j = (if j = i then None else gi_find os j)"
  using assms by (auto simp: gi_remove_def result_simps gi_inv_def gi_find_filter distinct_map_filter)

lemma generic_find_oid: "gi_inv k os \<Longrightarrow> of_index k i \<Longrightarrow> gi_find os i = Some ob \<Longrightarrow> oid ob = i"
  by (simp add: gi_find_iff)

lemma slot_of_inj:
  assumes "of_index k i" "of_index k j"
  shows "slot_of i = slot_of j \<longleftrightarrow> i = j"
proof
  assume "slot_of i = slot_of j"
  then have "id_instance i = id_instance j" by (rule word_unat_eq_iff [THEN iffD2])
  then have "Inr i = (Inr j :: object_id_type result)"
    using assms unpacked_repack [of i] unpacked_repack [of j] by (simp only: of_index_def) 
  then show "i = j" by simp
qed simp

definition si_at :: "'v object option list \<Rightarrow> nat \<Rightarrow> 'v object option" where
  "si_at os j = (if length os \<le> j then None else os ! j)"

lemma si_find_at: "si_find os i = si_at os (slot_of i)"
  by (simp add: si_find_def si_at_def)

lemma si_at_grow [simp]: "si_at (si_grow k os) j = si_at os j"
  by (auto simp: si_at_def si_grow_def nth_append)

lemma si_at_update: "k < length os \<Longrightarrow> si_at (os [k := x]) j = (if j = k then x else si_at os j)"
  by (auto simp: si_at_def nth_list_update)

lemma length_si_grow: "k < length (si_grow k os)"
  by (auto simp: si_grow_def)

lemma si_at_trim [simp]: "si_at (rev (dropWhile (\<lambda>x. x = None) (rev os))) j = si_at os j"
proof (induction os rule: rev_induct)
  case (snoc x os)
  then show ?case by (cases x) (auto simp: si_at_def nth_append)
qed simp

lemma si_inv_at: "si_inv k os \<longleftrightarrow> (\<forall>j ob. si_at os j = Some ob \<longrightarrow> of_index k (oid ob) \<and> slot_of (oid ob) = j)"
  by (auto simp: si_inv_def si_at_def not_le split: if_splits)

lemma simple_find_oid: "si_inv k os \<Longrightarrow> of_index k i \<Longrightarrow> si_find os i = Some ob \<Longrightarrow> oid ob = i"
  using slot_of_inj [of k "oid ob" i] by (auto simp: si_inv_at si_find_at)

lemma simple_insert_law:
  assumes "si_inv k os" "of_index k (oid ob)" "of_index k j" "si_insert ob os = Inr os'"
  shows "si_inv k os' \<and> si_find os' j = (if j = oid ob then Some ob else si_find os j)"
  using assms
  by (auto simp: si_insert_def si_inv_at si_find_at si_at_update length_si_grow slot_of_inj split: if_splits)

lemma simple_modify_law:
  assumes "si_inv k os" "of_index k i" "of_index k j" "si_modify i m os = Inr os'"
    and "\<And>ob ob'. si_find os i = Some ob \<Longrightarrow> m ob = Inr ob' \<Longrightarrow> oid ob' = i"
  shows "\<exists>ob ob'. si_find os i = Some ob \<and> m ob = Inr ob' \<and> si_inv k os' \<and>
    si_find os' j = (if j = i then Some ob' else si_find os j)"
proof -
  from assms(4) obtain ob ob' where o: "si_find os i = Some ob" "m ob = Inr ob'"
    and os': "os' = os [slot_of i := Some ob']"
    by (auto simp: si_modify_def result_simps)
  have i: "oid ob' = i" using assms(5) o by blast
  have len: "slot_of i < length os" using o(1) by (simp add: si_find_def split: if_splits)
  have "si_inv k os'"
    using assms(1,2) i len by (auto simp: si_inv_at os' si_at_update split: if_splits)
  moreover have "si_find os' j = (if j = i then Some ob' else si_find os j)"
    using assms(2,3) len by (simp add: os' si_find_at si_at_update slot_of_inj)
  ultimately show ?thesis using o by blast
qed

lemma simple_remove_law:
  assumes "si_inv k os" "of_index k i" "of_index k j" "si_remove i os = Inr os'"
  shows "si_find os i \<noteq> None \<and> si_inv k os' \<and> si_find os' j = (if j = i then None else si_find os j)"
proof -
  from assms(4) obtain ob where o: "si_find os i = Some ob"
    and os': "os' = rev (dropWhile (\<lambda>x. x = None) (rev (os [slot_of i := None])))"
    by (auto simp: si_remove_def result_simps)
  have len: "slot_of i < length os" using o by (simp add: si_find_def split: if_splits)
  have "si_inv k os'"
    using assms(1) len by (auto simp: si_inv_at os' si_at_update split: if_splits)
  moreover have "si_find os' j = (if j = i then None else si_find os j)"
    using assms(2,3) len by (simp add: os' si_find_at si_at_update slot_of_inj)
  ultimately show ?thesis using o by blast
qed

interpretation generic: object_index "of_index k" "gi_inv k" gi_find "gi_insert uq" "gi_modify uq" gi_remove
  for uq :: "'v obj_cond" and k
proof unfold_locales
  show "oid ob = i" if "gi_inv k os" "of_index k i" "gi_find os i = Some ob" for os i ob
    using that by (rule generic_find_oid)
  show "gi_inv k os' \<and> gi_find os' i = (if i = oid ob then Some ob else gi_find os i)"
    if "gi_inv k os" "of_index k (oid ob)" "of_index k i" "gi_insert uq ob os = Inr os'" for os os' i ob
    using that by (rule generic_insert_law)
  show "\<exists>ob ob'. gi_find os j = Some ob \<and> m ob = Inr ob' \<and> gi_inv k os' \<and>
      gi_find os' i = (if i = j then Some ob' else gi_find os i)"
    if "gi_inv k os" "of_index k j" "of_index k i" "gi_modify uq j m os = Inr os'"
      "\<And>ob ob'. gi_find os j = Some ob \<Longrightarrow> m ob = Inr ob' \<Longrightarrow> oid ob' = j" for os os' i j m
    using that by (rule generic_modify_law)
  show "gi_find os j \<noteq> None \<and> gi_inv k os' \<and> gi_find os' i = (if i = j then None else gi_find os i)"
    if "gi_inv k os" "of_index k j" "of_index k i" "gi_remove j os = Inr os'" for os os' i j
    using that by (rule generic_remove_law)
qed

interpretation simple: object_index "of_index k" "si_inv k" si_find si_insert si_modify si_remove
  for k
proof unfold_locales
  show "oid ob = i" if "si_inv k os" "of_index k i" "si_find os i = Some ob" for os i ob
    using that by (rule simple_find_oid)
  show "si_inv k os' \<and> si_find os' i = (if i = oid ob then Some ob else si_find os i)"
    if "si_inv k os" "of_index k (oid ob)" "of_index k i" "si_insert ob os = Inr os'" for os os' i ob
    using that by (rule simple_insert_law)
  show "\<exists>ob ob'. si_find os j = Some ob \<and> m ob = Inr ob' \<and> si_inv k os' \<and>
      si_find os' i = (if i = j then Some ob' else si_find os i)"
    if "si_inv k os" "of_index k j" "of_index k i" "si_modify j m os = Inr os'"
      "\<And>ob ob'. si_find os j = Some ob \<Longrightarrow> m ob = Inr ob' \<Longrightarrow> oid ob' = j" for os os' i j m
    using that by (rule simple_modify_law)
  show "si_find os j \<noteq> None \<and> si_inv k os' \<and> si_find os' i = (if i = j then None else si_find os i)"
    if "si_inv k os" "of_index k j" "of_index k i" "si_remove j os = Inr os'" for os os' i j
    using that by (rule simple_remove_law)
qed

lemma prim_find_oid:
  assumes "ix_inv k ix" "of_index k i" "ix_find ix i = Some ob"
  shows "oid ob = i"
proof (cases "pi_objects ix")
  case (Generic os)
  with assms show ?thesis using generic_find_oid [of k os i ob] by (simp add: ix_inv_def ix_find_def)
next
  case (Simple os)
  with assms show ?thesis using simple_find_oid [of k os i ob] by (simp add: ix_inv_def ix_find_def)
qed

lemma prim_insert_law:
  assumes "ix_inv k ix" "of_index k (oid ob)" "of_index k i" "ix_insert uq ob ix = Inr ix'"
  shows "ix_inv k ix' \<and> ix_find ix' i = (if i = oid ob then Some ob else ix_find ix i)"
proof (cases "pi_objects ix")
  case (Generic os)
  then obtain os' where "gi_insert uq ob os = Inr os'" "ix' = ix\<lparr>pi_objects := Generic os'\<rparr>"
    using assms(4) by (auto simp: ix_insert_def result_simps)
  with Generic assms(1-3) show ?thesis
    using generic_insert_law [of k os ob i uq os'] by (simp add: ix_inv_def ix_find_def)
next
  case (Simple os)
  then obtain os' where "si_insert ob os = Inr os'" "ix' = ix\<lparr>pi_objects := Simple os'\<rparr>"
    using assms(4) by (auto simp: ix_insert_def result_simps)
  with Simple assms(1-3) show ?thesis
    using simple_insert_law [of k os ob i os'] by (simp add: ix_inv_def ix_find_def)
qed

lemma prim_modify_law:
  assumes "ix_inv k ix" "of_index k j" "of_index k i" "ix_modify uq j m ix = Inr ix'"
    and "\<And>ob ob'. ix_find ix j = Some ob \<Longrightarrow> m ob = Inr ob' \<Longrightarrow> oid ob' = j"
  shows "\<exists>ob ob'. ix_find ix j = Some ob \<and> m ob = Inr ob' \<and> ix_inv k ix' \<and>
      ix_find ix' i = (if i = j then Some ob' else ix_find ix i)"
proof (cases "pi_objects ix")
  case (Generic os)
  then obtain os' where m: "gi_modify uq j m os = Inr os'" and ix': "ix' = ix\<lparr>pi_objects := Generic os'\<rparr>"
    using assms(4) by (auto simp: ix_modify_def result_simps)
  have ff: "ix_find ix = gi_find os" "ix_find ix' = gi_find os'" "ix_inv k ix = gi_inv k os" "ix_inv k ix' = gi_inv k os'"
    using Generic ix' by (simp_all add: ix_find_def ix_inv_def fun_eq_iff)
  show ?thesis
    unfolding ff by (rule generic_modify_law [OF assms(1) [unfolded ff] assms(2,3) m assms(5) [unfolded ff]])
next
  case (Simple os)
  then obtain os' where m: "si_modify j m os = Inr os'" and ix': "ix' = ix\<lparr>pi_objects := Simple os'\<rparr>"
    using assms(4) by (auto simp: ix_modify_def result_simps)
  have ff: "ix_find ix = si_find os" "ix_find ix' = si_find os'" "ix_inv k ix = si_inv k os" "ix_inv k ix' = si_inv k os'"
    using Simple ix' by (simp_all add: ix_find_def ix_inv_def fun_eq_iff)
  show ?thesis
    unfolding ff by (rule simple_modify_law [OF assms(1) [unfolded ff] assms(2,3) m assms(5) [unfolded ff]])
qed

lemma prim_remove_law:
  assumes "ix_inv k ix" "of_index k j" "of_index k i" "ix_remove j ix = Inr ix'"
  shows "ix_find ix j \<noteq> None \<and> ix_inv k ix' \<and> ix_find ix' i = (if i = j then None else ix_find ix i)"
proof (cases "pi_objects ix")
  case (Generic os)
  then obtain os' where "gi_remove j os = Inr os'" "ix' = ix\<lparr>pi_objects := Generic os'\<rparr>"
    using assms(4) by (auto simp: ix_remove_def result_simps)
  with Generic assms(1-3) show ?thesis
    using generic_remove_law [of k os j i os'] by (simp add: ix_inv_def ix_find_def)
next
  case (Simple os)
  then obtain os' where "si_remove j os = Inr os'" "ix' = ix\<lparr>pi_objects := Simple os'\<rparr>"
    using assms(4) by (auto simp: ix_remove_def result_simps)
  with Simple assms(1-3) show ?thesis
    using simple_remove_law [of k os j i os'] by (simp add: ix_inv_def ix_find_def)
qed

interpretation prim: object_index "of_index k" "ix_inv k" ix_find "ix_insert uq" "ix_modify uq" ix_remove
  for uq :: "'v obj_cond" and k
proof unfold_locales
  show "oid ob = i" if "ix_inv k ix" "of_index k i" "ix_find ix i = Some ob" for ix :: "'v prim_index" and i ob
    using that by (rule prim_find_oid)
  show "ix_inv k ix' \<and> ix_find ix' i = (if i = oid ob then Some ob else ix_find ix i)"
    if "ix_inv k ix" "of_index k (oid ob)" "of_index k i" "ix_insert uq ob ix = Inr ix'" for ix ix' i ob
    using that by (rule prim_insert_law)
  show "\<exists>ob ob'. ix_find ix j = Some ob \<and> m ob = Inr ob' \<and> ix_inv k ix' \<and>
      ix_find ix' i = (if i = j then Some ob' else ix_find ix i)"
    if "ix_inv k ix" "of_index k j" "of_index k i" "ix_modify uq j m ix = Inr ix'"
      "\<And>ob ob'. ix_find ix j = Some ob \<Longrightarrow> m ob = Inr ob' \<Longrightarrow> oid ob' = j" for ix ix' i j m
    using that by (rule prim_modify_law)
  show "ix_find ix j \<noteq> None \<and> ix_inv k ix' \<and> ix_find ix' i = (if i = j then None else ix_find ix i)"
    if "ix_inv k ix" "of_index k j" "of_index k i" "ix_remove j ix = Inr ix'" for ix ix' :: "'v prim_index" and i j
    using that by (rule prim_remove_law)
qed

subsection \<open>When the operations do not throw\<close>

lemma prim_insert_ok:
  assumes "ix_inv k ix" "ix_find ix (oid ob) = None"
    and "\<And>i p. of_index k i \<Longrightarrow> ix_find ix i = Some p \<Longrightarrow> \<not> uq p ob"
  shows "\<exists>ix'. ix_insert uq ob ix = Inr ix'"
proof (cases "pi_objects ix")
  case (Generic os)
  have "\<not> gi_clash uq ob os"
  proof
    assume "gi_clash uq ob os"
    then obtain p where p: "p \<in> set os" "oid p = oid ob \<or> uq p ob" by (auto simp: gi_clash_def list_ex_iff)
    have inv: "gi_inv k os" using assms(1) Generic by (simp add: ix_inv_def)
    then have "gi_find os (oid p) = Some p" "of_index k (oid p)"
      using p(1) by (auto simp: gi_find_iff gi_inv_def)
    then show False using assms(2,3) p(2) Generic by (auto simp: ix_find_def)
  qed
  then show ?thesis by (simp add: ix_insert_def gi_insert_def Generic)
qed (simp add: ix_insert_def si_insert_def)

lemma prim_modify_ok:
  assumes "ix_inv k ix" "ix_find ix j = Some ob" "m ob = Inr ob'" "oid ob' = j"
    and "\<And>i p. of_index k i \<Longrightarrow> ix_find ix i = Some p \<Longrightarrow> i \<noteq> j \<Longrightarrow> \<not> uq p ob'"
  shows "\<exists>ix'. ix_modify uq j m ix = Inr ix'"
proof (cases "pi_objects ix")
  case (Generic os)
  have "\<not> gi_clash uq ob' (filter (\<lambda>p. oid p \<noteq> j) os)"
  proof
    assume "gi_clash uq ob' (filter (\<lambda>p. oid p \<noteq> j) os)"
    then obtain p where p: "p \<in> set os" "oid p \<noteq> j" "uq p ob'"
      using assms(4) by (auto simp: gi_clash_def list_ex_iff)
    have inv: "gi_inv k os" using assms(1) Generic by (simp add: ix_inv_def)
    then have "gi_find os (oid p) = Some p" "of_index k (oid p)"
      using p(1) by (auto simp: gi_find_iff gi_inv_def)
    then show False using assms(5) p(2,3) Generic by (auto simp: ix_find_def)
  qed
  then show ?thesis using assms(2,3) by (simp add: ix_modify_def gi_modify_def Generic ix_find_def)
next
  case (Simple os)
  then show ?thesis using assms(2,3) by (simp add: ix_modify_def si_modify_def ix_find_def)
qed

lemma prim_remove_ok: "ix_find ix j = Some ob \<Longrightarrow> \<exists>ix'. ix_remove j ix = Inr ix'"
  by (cases "pi_objects ix") (auto simp: ix_remove_def gi_remove_def si_remove_def ix_find_def)

end
