(* ===== verification/Undo_Database.thy ===== *)
theory Undo_Database
  imports Object_Index "HOL-Library.AList"
begin

text \<open>
  The object database and its undo log: \<open>db/undo_database.cpp\<close>, \<open>undo_database.hpp\<close>,
  \<open>object_database.cpp\<close>, \<open>object_database.hpp\<close> and the hooks of \<open>primary_index\<close> in \<open>index.hpp\<close>.
  Every change of an object goes through an index, which tells the undo log about it; the log is
  a stack of states, one per undo session.  The unordered maps of a state are association lists:
  the iteration order is the order of insertion.  The deque \<open>_stack\<close> is a list whose head is
  \<open>back()\<close>.  An index is named by the space and type of its objects; the id with instance 0
  that the code uses as a key carries the same information.
\<close>

type_synonym index_key = "8 word \<times> 8 word"

definition index_key :: "object_id_type \<Rightarrow> index_key" where
  "index_key i = (id_space i, id_type i)"

record 'v undo_state =
  old_values :: "(object_id_type \<times> 'v object) list"
  old_index_next_ids :: "(index_key \<times> object_id_type) list"
  new_ids :: "object_id_type list"
  removed :: "(object_id_type \<times> 'v object) list"

definition empty_undo_state :: "'v undo_state" where
  "empty_undo_state = \<lparr>old_values = [], old_index_next_ids = [], new_ids = [], removed = []\<rparr>"

record 'v object_database =
  od_index :: "index_key \<Rightarrow> 'v prim_index option"
  ud_active_sessions :: nat
  ud_disabled :: bool
  ud_stack :: "'v undo_state list"
  ud_max_size :: nat

subsection \<open>The hooks of the undo log\<close>

definition state_on_create :: "'v object \<Rightarrow> 'v undo_state \<Rightarrow> 'v undo_state" where
  "state_on_create ob st =
     (let k = index_key (oid ob);
          st' = (if map_of (old_index_next_ids st) k = None
                 then st\<lparr>old_index_next_ids := AList.update k (oid ob) (old_index_next_ids st)\<rparr> else st)
      in st'\<lparr>new_ids := List.insert (oid ob) (new_ids st')\<rparr>)"

definition state_on_modify :: "'v object \<Rightarrow> 'v undo_state \<Rightarrow> 'v undo_state" where
  "state_on_modify ob st =
     (if oid ob \<in> set (new_ids st) then st
      else if map_of (old_values st) (oid ob) \<noteq> None then st
      else st\<lparr>old_values := AList.update (oid ob) ob (old_values st)\<rparr>)"

definition state_on_remove :: "'v object \<Rightarrow> 'v undo_state \<Rightarrow> 'v undo_state" where
  "state_on_remove ob st =
     (if oid ob \<in> set (new_ids st) then st\<lparr>new_ids := removeAll (oid ob) (new_ids st)\<rparr>
      else case map_of (old_values st) (oid ob) of
        Some was \<Rightarrow> st\<lparr>removed := AList.update (oid ob) was (removed st),
                      old_values := AList.delete (oid ob) (old_values st)\<rparr>
      | None \<Rightarrow>
          if map_of (removed st) (oid ob) \<noteq> None then st
          else st\<lparr>removed := AList.update (oid ob) ob (removed st)\<rparr>)"

text \<open>A hook does nothing while the log is disabled and otherwise changes the top state, which is
  created when there is none.\<close>

definition log_change :: "('v undo_state \<Rightarrow> 'v undo_state) \<Rightarrow> 'v object_database \<Rightarrow> 'v object_database" where
  "log_change f db =
     (if ud_disabled db then db
      else case ud_stack db of
        [] \<Rightarrow> db\<lparr>ud_stack := [f empty_undo_state]\<rparr>
      | st # rest \<Rightarrow> db\<lparr>ud_stack := f st # rest\<rparr>)"

definition on_create :: "'v object \<Rightarrow> 'v object_database \<Rightarrow> 'v object_database" where
  "on_create ob = log_change (state_on_create ob)"

definition on_modify :: "'v object \<Rightarrow> 'v object_database \<Rightarrow> 'v object_database" where
  "on_modify ob = log_change (state_on_modify ob)"

definition on_remove :: "'v object \<Rightarrow> 'v object_database \<Rightarrow> 'v object_database" where
  "on_remove ob = log_change (state_on_remove ob)"

subsection \<open>The object database\<close>

definition get_index :: "'v object_database \<Rightarrow> index_key \<Rightarrow> 'v prim_index result" where
  "get_index db k = of_option AssertFailed (od_index db k)"

definition put_index :: "index_key \<Rightarrow> 'v prim_index \<Rightarrow> 'v object_database \<Rightarrow> 'v object_database" where
  "put_index k ix db = db\<lparr>od_index := (od_index db)(k \<mapsto> ix)\<rparr>"

definition find_object :: "'v object_database \<Rightarrow> object_id_type \<Rightarrow> 'v object option result" where
  "find_object db i = bindE (get_index db (index_key i)) (\<lambda>ix. Inr (ix_find ix i))"

definition get_object :: "'v object_database \<Rightarrow> object_id_type \<Rightarrow> 'v object result" where
  "get_object db i = bindE (get_index db (index_key i)) (\<lambda>ix. ix_get ix i)"

definition db_create ::
  "'v obj_cond \<Rightarrow> index_key \<Rightarrow> (object_id_type \<Rightarrow> 'v object result) \<Rightarrow> 'v object_database \<Rightarrow>
   ('v object \<times> 'v object_database) result" where
  "db_create uq k ctor db =
     bindE (get_index db k) (\<lambda>ix.
     bindE (ix_create uq ctor ix) (\<lambda>(ob, ix').
     Inr (ob, on_create ob (put_index k ix' db))))"

definition db_insert :: "'v obj_cond \<Rightarrow> 'v object \<Rightarrow> 'v object_database \<Rightarrow> 'v object_database result" where
  "db_insert uq ob db =
     bindE (get_index db (index_key (oid ob))) (\<lambda>ix.
     bindE (ix_insert uq ob ix) (\<lambda>ix'.
     Inr (on_create ob (put_index (index_key (oid ob)) ix' db))))"

text \<open>\<open>obj\<close> is a reference to a stored object, here named by its id.\<close>

definition db_remove :: "object_id_type \<Rightarrow> 'v object_database \<Rightarrow> 'v object_database result" where
  "db_remove i db =
     bindE (get_index db (index_key i)) (\<lambda>ix.
     bindE (of_option UndefinedBehaviour (ix_find ix i)) (\<lambda>ob.
     bindE (ix_remove i ix) (\<lambda>ix'.
     Inr (put_index (index_key i) ix' (on_remove ob db)))))"

definition db_modify ::
  "'v obj_cond \<Rightarrow> object_id_type \<Rightarrow> ('v object \<Rightarrow> 'v object result) \<Rightarrow> 'v object_database \<Rightarrow>
   'v object_database result" where
  "db_modify uq i m db =
     bindE (get_index db (index_key i)) (\<lambda>ix.
     bindE (of_option UndefinedBehaviour (ix_find ix i)) (\<lambda>ob.
     bindE (ix_modify uq i m ix) (\<lambda>ix'.
     Inr (put_index (index_key i) ix' (on_modify ob db)))))"

definition db_set_next_id :: "index_key \<Rightarrow> object_id_type \<Rightarrow> 'v object_database \<Rightarrow> 'v object_database result" where
  "db_set_next_id k n db =
     bindE (get_index db k) (\<lambda>ix. Inr (put_index k (ix\<lparr>pi_next_id := n\<rparr>) db))"

subsection \<open>Undo sessions\<close>

definition ud_enable :: "'v object_database \<Rightarrow> 'v object_database" where
  "ud_enable db = db\<lparr>ud_disabled := False\<rparr>"

definition ud_disable :: "'v object_database \<Rightarrow> 'v object_database" where
  "ud_disable db = db\<lparr>ud_disabled := True\<rparr>"

definition set_max_size :: "nat \<Rightarrow> 'v object_database \<Rightarrow> 'v object_database" where
  "set_max_size n db = db\<lparr>ud_max_size := n\<rparr>"

record session =
  apply_undo :: bool
  disable_on_exit :: bool

definition start_undo_session :: "bool \<Rightarrow> 'v object_database \<Rightarrow> session \<times> 'v object_database" where
  "start_undo_session force_enable db =
     (if ud_disabled db \<and> \<not> force_enable
      then (\<lparr>apply_undo = True, disable_on_exit = False\<rparr>, db)
      else
        (let d = (ud_disabled db \<and> force_enable);
             db1 = (if force_enable then db\<lparr>ud_disabled := False\<rparr> else db);
             kept = take (ud_max_size db1) (ud_stack db1)
         in (\<lparr>apply_undo = True, disable_on_exit = d\<rparr>,
             db1\<lparr>ud_stack := empty_undo_state # kept,
                 ud_active_sessions := ud_active_sessions db1 + 1\<rparr>)))"

text \<open>The four loops of \<open>undo\<close> and \<open>pop_commit\<close>.\<close>

definition undo_modify :: "'v obj_cond \<Rightarrow> object_id_type \<times> 'v object \<Rightarrow> 'v object_database \<Rightarrow> 'v object_database result" where
  "undo_modify uq item db =
     bindE (get_object db (oid (snd item))) (\<lambda>ob. db_modify uq (oid ob) (\<lambda>_. Inr (snd item)) db)"

definition undo_create :: "object_id_type \<Rightarrow> 'v object_database \<Rightarrow> 'v object_database result" where
  "undo_create i db = bindE (get_object db i) (\<lambda>ob. db_remove (oid ob) db)"

definition restore :: "'v obj_cond \<Rightarrow> 'v undo_state \<Rightarrow> 'v object_database \<Rightarrow> 'v object_database result" where
  "restore uq st db =
     bindE (foldE (undo_modify uq) (old_values st) db) (\<lambda>db1.
     bindE (foldE undo_create (new_ids st) db1) (\<lambda>db2.
     bindE (foldE (\<lambda>(k, n). db_set_next_id k n) (old_index_next_ids st) db2) (\<lambda>db3.
     foldE (\<lambda>(_, ob). db_insert uq ob) (removed st) db3)))"

definition undo :: "'v obj_cond \<Rightarrow> 'v object_database \<Rightarrow> 'v object_database result" where
  "undo uq db =
     assertE (\<not> ud_disabled db) (
     assertE (0 < ud_active_sessions db) (
     case ud_stack db of [] \<Rightarrow> Inl UndefinedBehaviour
     | st # _ \<Rightarrow>
       bindE (restore uq st (ud_disable db)) (\<lambda>db'.
       Inr (db'\<lparr>ud_stack := tl (ud_stack db'), ud_disabled := False,
               ud_active_sessions := ud_active_sessions db' - 1\<rparr>))))"

definition pop_commit :: "'v obj_cond \<Rightarrow> 'v object_database \<Rightarrow> 'v object_database result" where
  "pop_commit uq db =
     assertE (ud_active_sessions db = 0) (
     case ud_stack db of [] \<Rightarrow> Inl AssertFailed
     | st # _ \<Rightarrow>
       bindE (restore uq st (ud_disable db)) (\<lambda>db'.
       Inr (db'\<lparr>ud_stack := tl (ud_stack db'), ud_disabled := False\<rparr>)))"

text \<open>\<open>merge\<close>: one step per entry of the newer state, each keyed by the id of the object stored.\<close>

definition merge_upd :: "object_id_type \<times> 'v object \<Rightarrow> 'v undo_state \<Rightarrow> 'v undo_state" where
  "merge_upd item prev =
     (if oid (snd item) \<in> set (new_ids prev) then prev
      else if map_of (old_values prev) (oid (snd item)) \<noteq> None then prev
      else prev\<lparr>old_values := AList.update (oid (snd item)) (snd item) (old_values prev)\<rparr>)"

definition merge_new :: "object_id_type \<Rightarrow> 'v undo_state \<Rightarrow> 'v undo_state" where
  "merge_new i prev = prev\<lparr>new_ids := List.insert i (new_ids prev)\<rparr>"

definition merge_next_id :: "index_key \<times> object_id_type \<Rightarrow> 'v undo_state \<Rightarrow> 'v undo_state" where
  "merge_next_id item prev =
     (if map_of (old_index_next_ids prev) (fst item) = None
      then prev\<lparr>old_index_next_ids := AList.update (fst item) (snd item) (old_index_next_ids prev)\<rparr>
      else prev)"

definition merge_del :: "object_id_type \<times> 'v object \<Rightarrow> 'v undo_state \<Rightarrow> 'v undo_state" where
  "merge_del item prev =
     (let i = oid (snd item) in
      if i \<in> set (new_ids prev) then prev\<lparr>new_ids := removeAll i (new_ids prev)\<rparr>
      else case map_of (old_values prev) i of
        Some was \<Rightarrow> prev\<lparr>removed := AList.update i was (removed prev),
                        old_values := AList.delete i (old_values prev)\<rparr>
      | None \<Rightarrow> prev\<lparr>removed := AList.update i (snd item) (removed prev)\<rparr>)"

definition merge_states :: "'v undo_state \<Rightarrow> 'v undo_state \<Rightarrow> 'v undo_state" where
  "merge_states prev st =
     fold merge_del (removed st)
       (fold merge_next_id (old_index_next_ids st)
         (fold merge_new (new_ids st)
           (fold merge_upd (old_values st) prev)))"

definition merge_top :: "'v object_database \<Rightarrow> 'v object_database result" where
  "merge_top db =
     assertE (0 < ud_active_sessions db) (
     if ud_active_sessions db = 1 \<and> length (ud_stack db) = 1
     then Inr (db\<lparr>ud_stack := [], ud_active_sessions := ud_active_sessions db - 1\<rparr>)
     else case ud_stack db of
       st # prev # rest \<Rightarrow>
         Inr (db\<lparr>ud_stack := merge_states prev st # rest,
                 ud_active_sessions := ud_active_sessions db - 1\<rparr>)
     | _ \<Rightarrow> Inl AssertFailed)"

definition commit :: "'v object_database \<Rightarrow> 'v object_database result" where
  "commit db =
     assertE (0 < ud_active_sessions db) (Inr (db\<lparr>ud_active_sessions := ud_active_sessions db - 1\<rparr>))"

definition head_state :: "'v object_database \<Rightarrow> 'v undo_state result" where
  "head_state db = (case ud_stack db of [] \<Rightarrow> Inl AssertFailed | st # _ \<Rightarrow> Inr st)"

text \<open>The session guard: \<open>commit\<close>, \<open>undo\<close>, \<open>merge\<close>, and the destructor.\<close>

definition session_commit :: "session \<Rightarrow> 'v object_database \<Rightarrow> (session \<times> 'v object_database) result" where
  "session_commit s db = bindE (commit db) (\<lambda>db'. Inr (s\<lparr>apply_undo := False\<rparr>, db'))"

definition session_undo :: "'v obj_cond \<Rightarrow> session \<Rightarrow> 'v object_database \<Rightarrow> (session \<times> 'v object_database) result" where
  "session_undo uq s db =
     bindE (if apply_undo s then undo uq db else Inr db) (\<lambda>db'. Inr (s\<lparr>apply_undo := False\<rparr>, db'))"

definition session_merge :: "session \<Rightarrow> 'v object_database \<Rightarrow> (session \<times> 'v object_database) result" where
  "session_merge s db =
     bindE (if apply_undo s then merge_top db else Inr db) (\<lambda>db'. Inr (s\<lparr>apply_undo := False\<rparr>, db'))"

definition session_destroy :: "'v obj_cond \<Rightarrow> session \<Rightarrow> 'v object_database \<Rightarrow> 'v object_database result" where
  "session_destroy uq s db =
     bindE (if apply_undo s then undo uq db else Inr db) (\<lambda>db'.
     Inr (if disable_on_exit s then ud_disable db' else db'))"

text \<open>The move constructor: the new session, and what is left of the source.\<close>

definition session_move :: "session \<Rightarrow> session \<times> session" where
  "session_move mv = (\<lparr>apply_undo = apply_undo mv, disable_on_exit = False\<rparr>, mv\<lparr>apply_undo := False\<rparr>)"

subsection \<open>What the operations do to lookups\<close>

definition db_view :: "'v object_database \<Rightarrow> object_id_type \<Rightarrow> 'v object option" where
  "db_view db i = (case od_index db (index_key i) of None \<Rightarrow> None | Some ix \<Rightarrow> ix_find ix i)"

definition db_next :: "'v object_database \<Rightarrow> index_key \<Rightarrow> object_id_type option" where
  "db_next db k = map_option pi_next_id (od_index db k)"

definition db_wf :: "'v object_database \<Rightarrow> bool" where
  "db_wf db = (\<forall>k ix. od_index db k = Some ix \<longrightarrow> ix_inv k ix)"

definition log_of :: "'v object_database \<Rightarrow> nat \<times> bool \<times> 'v undo_state list \<times> nat" where
  "log_of db = (ud_active_sessions db, ud_disabled db, ud_stack db, ud_max_size db)"

definition no_conflict :: "'v obj_cond \<Rightarrow> 'v object set \<Rightarrow> bool" where
  "no_conflict uq S = (\<forall>p \<in> S. \<forall>q \<in> S. oid p \<noteq> oid q \<longrightarrow> \<not> uq p q)"

lemma db_wfD: "db_wf db \<Longrightarrow> od_index db k = Some ix \<Longrightarrow> ix_inv k ix"
  unfolding db_wf_def by blast

lemma of_index_key: "of_index k i \<longleftrightarrow> index_key i = k"
  by (cases k) (simp add: of_index_def index_key_def)

lemma od_index_log_change [simp]: "od_index (log_change f db) = od_index db"
  by (simp add: log_change_def split: list.splits)

lemma od_index_hooks [simp]:
  "od_index (on_create ob db) = od_index db"
  "od_index (on_modify ob db) = od_index db"
  "od_index (on_remove ob db) = od_index db"
  by (simp_all add: on_create_def on_modify_def on_remove_def)

lemma log_of_put_index [simp]: "log_of (put_index k ix db) = log_of db"
  by (simp add: log_of_def put_index_def)

lemma log_change_put_index: "log_change f (put_index k ix db) = put_index k ix (log_change f db)"
  by (simp add: log_change_def put_index_def split: list.splits)

lemma log_change_disabled [simp]: "ud_disabled db \<Longrightarrow> log_change f db = db"
  by (simp add: log_change_def)

lemma db_view_put_index:
  assumes "od_index db k = Some ix"
    and "\<And>i. of_index k i \<Longrightarrow> ix_find ix' i = (if i = j then x else ix_find ix i)" and "of_index k j"
  shows "db_view (put_index k ix' db) = (db_view db) (j := x)"
proof
  fix i
  show "db_view (put_index k ix' db) i = ((db_view db) (j := x)) i"
    using assms by (cases "index_key i = k") (auto simp: db_view_def put_index_def of_index_key)
qed

lemma db_view_oid: "db_wf db \<Longrightarrow> db_view db i = Some ob \<Longrightarrow> oid ob = i"
  by (auto simp: db_view_def of_index_key split: option.splits intro: prim.find_id dest: db_wfD)

lemma db_wf_put_index: "db_wf db \<Longrightarrow> ix_inv k ix \<Longrightarrow> db_wf (put_index k ix db)"
  by (simp add: db_wf_def put_index_def)

lemma pi_next_id_ix_ops:
  "ix_insert uq ob ix = Inr ix' \<Longrightarrow> pi_next_id ix' = pi_next_id ix"
  "ix_modify uq i m ix = Inr ix' \<Longrightarrow> pi_next_id ix' = pi_next_id ix"
  "ix_remove i ix = Inr ix' \<Longrightarrow> pi_next_id ix' = pi_next_id ix"
  by (auto simp: ix_insert_def ix_modify_def ix_remove_def result_simps split: container.splits)

lemma db_next_put_index:
  "od_index db k = Some ix \<Longrightarrow> pi_next_id ix' = pi_next_id ix \<Longrightarrow> db_next (put_index k ix' db) = db_next db"
  by (auto simp: db_next_def put_index_def)

lemma get_index_Inr [result_simps]: "get_index db k = Inr ix \<longleftrightarrow> od_index db k = Some ix"
  by (simp add: get_index_def result_simps)

lemma db_insert_spec:
  assumes "db_wf db" "db_insert uq ob db = Inr db'"
  shows "db_wf db' \<and> db_view db' = (db_view db) (oid ob \<mapsto> ob) \<and> db_next db' = db_next db
    \<and> log_of db' = log_of (on_create ob db)"
proof -
  let ?k = "index_key (oid ob)"
  from assms(2) obtain ix ix' where ix: "od_index db ?k = Some ix" "ix_insert uq ob ix = Inr ix'"
    and db': "db' = put_index ?k ix' (on_create ob db)"
    by (auto simp: db_insert_def result_simps on_create_def log_change_put_index)
  have inv: "ix_inv ?k ix" using assms(1) ix(1) by (rule db_wfD)
  have k: "of_index ?k (oid ob)" by (simp add: of_index_key)
  have law: "ix_inv ?k ix'" "\<And>i. of_index ?k i \<Longrightarrow> ix_find ix' i = (if i = oid ob then Some ob else ix_find ix i)"
    using prim.insert_law [OF inv k k ix(2)] prim.insert_law [OF inv k _ ix(2)] by blast+
  have "db_wf (on_create ob db)" using assms(1) by (simp add: db_wf_def)
  moreover have "db_view (on_create ob db) = db_view db" "db_next (on_create ob db) = db_next db"
    by (simp_all add: db_view_def db_next_def fun_eq_iff)
  ultimately show ?thesis
    using db_wf_put_index [of "on_create ob db" ?k ix'] law
      db_view_put_index [of "on_create ob db" ?k ix ix' "oid ob" "Some ob"]
      db_next_put_index [of "on_create ob db" ?k ix ix'] pi_next_id_ix_ops(1) [OF ix(2)] k
    by (simp add: db' ix(1))
qed

lemma db_remove_spec:
  assumes "db_wf db" "db_remove i db = Inr db'"
  shows "\<exists>ob. db_view db i = Some ob \<and> db_wf db' \<and> db_view db' = (db_view db) (i := None)
    \<and> db_next db' = db_next db \<and> log_of db' = log_of (on_remove ob db)"
proof -
  let ?k = "index_key i"
  from assms(2) obtain ix ob ix' where ix: "od_index db ?k = Some ix" "ix_remove i ix = Inr ix'"
    and ob: "ix_find ix i = Some ob" and db': "db' = put_index ?k ix' (on_remove ob db)"
    by (auto simp: db_remove_def result_simps)
  have inv: "ix_inv ?k ix" using assms(1) ix(1) by (rule db_wfD)
  have k: "of_index ?k i" by (simp add: of_index_key)
  have law: "ix_inv ?k ix'" "\<And>j. of_index ?k j \<Longrightarrow> ix_find ix' j = (if j = i then None else ix_find ix j)"
    using prim.remove_law [OF inv k k ix(2)] prim.remove_law [OF inv k _ ix(2)] by blast+
  have v: "db_view db i = Some ob" using ix(1) ob by (simp add: db_view_def)
  have "db_wf (on_remove ob db)" using assms(1) by (simp add: db_wf_def)
  moreover have "db_view (on_remove ob db) = db_view db" "db_next (on_remove ob db) = db_next db"
    by (simp_all add: db_view_def db_next_def fun_eq_iff)
  ultimately show ?thesis
    using db_wf_put_index [of "on_remove ob db" ?k ix'] law v
      db_view_put_index [of "on_remove ob db" ?k ix ix' i None]
      db_next_put_index [of "on_remove ob db" ?k ix ix'] pi_next_id_ix_ops(3) [OF ix(2)] k
    by (simp add: db' ix(1))
qed

lemma db_modify_spec:
  assumes "db_wf db" "db_modify uq i m db = Inr db'"
    and "\<And>ob ob'. db_view db i = Some ob \<Longrightarrow> m ob = Inr ob' \<Longrightarrow> oid ob' = i"
  shows "\<exists>ob ob'. db_view db i = Some ob \<and> m ob = Inr ob' \<and> db_wf db' \<and> db_view db' = (db_view db) (i \<mapsto> ob')
    \<and> db_next db' = db_next db \<and> log_of db' = log_of (on_modify ob db)"
proof -
  let ?k = "index_key i"
  from assms(2) obtain ix ob ix' where ix: "od_index db ?k = Some ix" "ix_modify uq i m ix = Inr ix'"
    and ob: "ix_find ix i = Some ob" and db': "db' = put_index ?k ix' (on_modify ob db)"
    by (auto simp: db_modify_def result_simps)
  have inv: "ix_inv ?k ix" using assms(1) ix(1) by (rule db_wfD)
  have k: "of_index ?k i" by (simp add: of_index_key)
  have v: "db_view db i = ix_find ix i" using ix(1) by (simp add: db_view_def)
  have pre: "oid o2 = i" if "ix_find ix i = Some o1" "m o1 = Inr o2" for o1 o2
    using assms(3) [of o1 o2] that v by simp
  have law: "\<exists>o1 o2. ix_find ix i = Some o1 \<and> m o1 = Inr o2 \<and> ix_inv ?k ix' \<and>
      ix_find ix' j = (if j = i then Some o2 else ix_find ix j)" if "of_index ?k j" for j
    by (rule prim.modify_law [OF inv k that ix(2)]) (rule pre)
  obtain ob' where m: "m ob = Inr ob'" and inv': "ix_inv ?k ix'"
    using law [OF k] by (simp add: ob) blast
  have law: "ix_find ix' j = (if j = i then Some ob' else ix_find ix j)" if "of_index ?k j" for j
    using law [OF that] by (simp add: ob m)
  have "db_wf (on_modify ob db)" using assms(1) by (simp add: db_wf_def)
  moreover have "db_view (on_modify ob db) = db_view db" "db_next (on_modify ob db) = db_next db"
    by (simp_all add: db_view_def db_next_def fun_eq_iff)
  ultimately show ?thesis
    using db_wf_put_index [of "on_modify ob db" ?k ix'] law v ob m inv'
      db_view_put_index [of "on_modify ob db" ?k ix ix' i "Some ob'"]
      db_next_put_index [of "on_modify ob db" ?k ix ix'] pi_next_id_ix_ops(2) [OF ix(2)] k
    by (simp add: db' ix(1))
qed

end
