(* ===== verification/Undo_Correct.thy ===== *)
theory Undo_Correct
  imports Undo_Database
begin

text \<open>
  What the undo log guarantees.  \<open>tracks st v n v0 n0\<close> says that the undo state \<open>st\<close> records how to
  get from the lookups \<open>v\<close> and id counters \<open>n\<close> back to \<open>v0\<close> and \<open>n0\<close>; every operation of the
  database keeps it, \<open>restore\<close> uses it, and \<open>merge\<close> composes it.
\<close>

subsection \<open>Association lists of an undo state\<close>

definition keys_ok :: "('k \<times> 'a) list \<Rightarrow> bool" where
  "keys_ok al = distinct (List.map fst al)"

definition entries_ok :: "(object_id_type \<times> 'v object) list \<Rightarrow> bool" where
  "entries_ok al = (keys_ok al \<and> (\<forall>(i, ob) \<in> set al. oid ob = i))"

definition state_ok :: "'v undo_state \<Rightarrow> bool" where
  "state_ok st = (entries_ok (old_values st) \<and> entries_ok (removed st) \<and>
     keys_ok (old_index_next_ids st) \<and> distinct (new_ids st))"

lemma keys_ok_update: "keys_ok al \<Longrightarrow> keys_ok (AList.update k x al)"
  by (simp add: keys_ok_def distinct_update)

lemma keys_ok_delete: "keys_ok al \<Longrightarrow> keys_ok (AList.delete k al)"
  by (simp add: keys_ok_def distinct_delete)

lemma entries_ok_iff:
  "entries_ok al \<longleftrightarrow> keys_ok al \<and> (\<forall>i ob. map_of al i = Some ob \<longrightarrow> oid ob = i)"
  by (auto simp: entries_ok_def keys_ok_def map_of_eq_Some_iff)

lemma entries_ok_update: "entries_ok al \<Longrightarrow> entries_ok (AList.update (oid ob) ob al)"
  by (auto simp: entries_ok_iff keys_ok_update update_conv split: if_splits)

lemma entries_ok_delete: "entries_ok al \<Longrightarrow> entries_ok (AList.delete k al)"
  by (auto simp: entries_ok_iff keys_ok_delete delete_conv split: if_splits)

lemmas alist_simps = update_conv' delete_conv'

subsection \<open>Recording\<close>

definition entry_tracks ::
  "'v undo_state \<Rightarrow> (object_id_type \<Rightarrow> 'v object option) \<Rightarrow> (object_id_type \<Rightarrow> 'v object option) \<Rightarrow> object_id_type \<Rightarrow> bool" where
  "entry_tracks st v v0 i =
     (if i \<in> set (new_ids st) then v0 i = None \<and> v i \<noteq> None \<and> map_of (old_values st) i = None \<and> map_of (removed st) i = None
      else case map_of (old_values st) i of
        Some ob \<Rightarrow> v0 i = Some ob \<and> v i \<noteq> None \<and> map_of (removed st) i = None
      | None \<Rightarrow> (case map_of (removed st) i of
            Some ob \<Rightarrow> v0 i = Some ob \<and> v i = None
          | None \<Rightarrow> v i = v0 i))"

definition next_tracks ::
  "'v undo_state \<Rightarrow> (index_key \<Rightarrow> object_id_type option) \<Rightarrow> (index_key \<Rightarrow> object_id_type option) \<Rightarrow> index_key \<Rightarrow> bool" where
  "next_tracks st n n0 k =
     (case map_of (old_index_next_ids st) k of
        Some x \<Rightarrow> n0 k = Some x \<and> n k \<noteq> None
      | None \<Rightarrow> n k = n0 k)"

definition tracks where
  "tracks st v n v0 n0 = (state_ok st \<and> (\<forall>i. entry_tracks st v v0 i) \<and> (\<forall>k. next_tracks st n n0 k))"

lemma tracks_parts:
  assumes "tracks st v n v0 n0"
  shows "state_ok st" "entry_tracks st v v0 i" "next_tracks st n n0 k"
  using assms unfolding tracks_def by blast+

lemma tracksI:
  assumes "state_ok st" "\<And>i. entry_tracks st v v0 i" "\<And>k. next_tracks st n n0 k"
  shows "tracks st v n v0 n0"
  using assms unfolding tracks_def by blast

lemma old_index_next_ids_kept [simp]:
  "old_index_next_ids (state_on_modify ob st) = old_index_next_ids st"
  "old_index_next_ids (state_on_remove ob st) = old_index_next_ids st"
  by (simp_all add: state_on_modify_def state_on_remove_def split: option.splits)

lemma new_ids_empty [simp]: "new_ids empty_undo_state = []"
  by (simp add: empty_undo_state_def)

lemma tracks_empty: "tracks empty_undo_state v n v n"
  by (simp add: tracks_def empty_undo_state_def state_ok_def entries_ok_def keys_ok_def
      entry_tracks_def next_tracks_def)

lemma tracks_modify:
  assumes "tracks st v n v0 n0" and "v (oid ob) = Some ob"
  shows "tracks (state_on_modify ob st) (v (oid ob \<mapsto> ob')) n v0 n0"
proof -
  have "entry_tracks (state_on_modify ob st) (v (oid ob \<mapsto> ob')) v0 i" for i
    using tracks_parts(2) [OF assms(1), of i] assms(2)
    by (auto simp: entry_tracks_def state_on_modify_def alist_simps split: option.splits if_splits)
  moreover have "state_ok (state_on_modify ob st)"
    using assms(1) by (simp add: tracks_def state_ok_def state_on_modify_def entries_ok_update)
  moreover have "next_tracks (state_on_modify ob st) n n0 k" for k
    using tracks_parts(3) [OF assms(1), of k] by (simp only: next_tracks_def old_index_next_ids_kept)
  ultimately show ?thesis by (blast intro: tracksI)
qed

lemma tracks_remove:
  assumes "tracks st v n v0 n0" and "v (oid ob) = Some ob"
  shows "tracks (state_on_remove ob st) (v (oid ob := None)) n v0 n0"
proof -
  have "entry_tracks (state_on_remove ob st) (v (oid ob := None)) v0 i" for i
    using tracks_parts(2) [OF assms(1), of i] assms(2)
    by (auto simp: entry_tracks_def state_on_remove_def alist_simps split: option.splits if_splits)
  moreover have "state_ok (state_on_remove ob st)"
  proof (cases "map_of (old_values st) (oid ob)")
    case (Some was)
    then have "oid was = oid ob" using assms(1) by (auto simp: tracks_def state_ok_def entries_ok_iff)
    then show ?thesis
      using assms(1) Some entries_ok_update [of "removed st" was]
      by (auto simp: tracks_def state_ok_def state_on_remove_def entries_ok_delete distinct_removeAll)
  next
    case None
    then show ?thesis
      using assms(1) by (auto simp: tracks_def state_ok_def state_on_remove_def entries_ok_update distinct_removeAll)
  qed
  moreover have "next_tracks (state_on_remove ob st) n n0 k" for k
    using tracks_parts(3) [OF assms(1), of k] by (simp only: next_tracks_def old_index_next_ids_kept)
  ultimately show ?thesis by (blast intro: tracksI)
qed

lemma tracks_create:
  assumes "tracks st v n v0 n0" and "v (oid ob) = None" and "v0 (oid ob) = None"
    and "n (index_key (oid ob)) = Some (oid ob)"
  shows "tracks (state_on_create ob st) (v (oid ob \<mapsto> ob)) (n (index_key (oid ob) \<mapsto> id_incr (oid ob))) v0 n0"
proof -
  have "entry_tracks (state_on_create ob st) (v (oid ob \<mapsto> ob)) v0 i" for i
    using tracks_parts(2) [OF assms(1), of i] assms(2,3)
    by (auto simp: entry_tracks_def state_on_create_def Let_def split: option.splits if_splits)
  moreover have "state_ok (state_on_create ob st)"
    using assms(1) by (simp add: tracks_def state_ok_def state_on_create_def Let_def keys_ok_update)
  moreover have "next_tracks (state_on_create ob st) (n (index_key (oid ob) \<mapsto> id_incr (oid ob))) n0 k" for k
    using tracks_parts(3) [OF assms(1), of k] assms(4)
    by (auto simp: next_tracks_def state_on_create_def Let_def alist_simps split: option.splits if_splits)
  ultimately show ?thesis by (blast intro: tracksI)
qed

subsection \<open>Restoring\<close>

text \<open>\<open>same_log\<close> and disabled: what holds between the steps of \<open>restore\<close>.\<close>

definition quiet :: "'v object_database \<Rightarrow> 'v object_database \<Rightarrow> bool" where
  "quiet db db' = (ud_disabled db \<and> db_wf db' \<and> log_of db' = log_of db)"

lemma quiet_disabled: "quiet db db' \<Longrightarrow> ud_disabled db'"
  by (auto simp: quiet_def log_of_def)

lemma hooks_disabled:
  "ud_disabled db \<Longrightarrow> on_create ob db = db" "ud_disabled db \<Longrightarrow> on_modify ob db = db"
  "ud_disabled db \<Longrightarrow> on_remove ob db = db"
  by (simp_all add: on_create_def on_modify_def on_remove_def)

lemma get_object_view: "db_view db i = Some ob \<Longrightarrow> get_object db i = Inr ob"
  by (auto simp: get_object_def db_view_def get_index_def ix_get_def split: option.splits)

lemma db_modify_ok:
  assumes "db_wf db" "db_view db i = Some ob" "m ob = Inr ob'" "oid ob' = i"
    and "\<And>j p. db_view db j = Some p \<Longrightarrow> j \<noteq> i \<Longrightarrow> \<not> uq p ob'"
  shows "\<exists>db'. db_modify uq i m db = Inr db'"
proof -
  let ?k = "index_key i"
  obtain ix where ix: "od_index db ?k = Some ix" "ix_find ix i = Some ob"
    using assms(2) by (auto simp: db_view_def split: option.splits)
  have "\<not> uq p ob'" if "of_index ?k j" "ix_find ix j = Some p" "j \<noteq> i" for j p
    using assms(5) [of j p] that ix(1) by (simp add: db_view_def of_index_key)
  then obtain ix' where "ix_modify uq i m ix = Inr ix'"
    using prim_modify_ok [where m = m, OF db_wfD [OF assms(1) ix(1)] ix(2) assms(3,4)] by blast
  then show ?thesis using ix by (simp add: db_modify_def get_index_def)
qed

lemma db_insert_ok:
  assumes "db_wf db" "db_view db (oid ob) = None" "od_index db (index_key (oid ob)) \<noteq> None"
    and "\<And>j p. db_view db j = Some p \<Longrightarrow> \<not> uq p ob"
  shows "\<exists>db'. db_insert uq ob db = Inr db'"
proof -
  let ?k = "index_key (oid ob)"
  obtain ix where ix: "od_index db ?k = Some ix" "ix_find ix (oid ob) = None"
    using assms(2,3) by (auto simp: db_view_def)
  have "\<not> uq p ob" if "of_index ?k j" "ix_find ix j = Some p" for j p
    using assms(4) [of j p] that ix(1) by (simp add: db_view_def of_index_key)
  then obtain ix' where "ix_insert uq ob ix = Inr ix'"
    using prim_insert_ok [OF db_wfD [OF assms(1) ix(1)] ix(2)] by blast
  then show ?thesis using ix by (simp add: db_insert_def get_index_def)
qed

lemma db_remove_ok:
  assumes "db_view db i = Some ob"
  shows "\<exists>db'. db_remove i db = Inr db'"
proof -
  obtain ix where ix: "od_index db (index_key i) = Some ix" "ix_find ix i = Some ob"
    using assms by (auto simp: db_view_def split: option.splits)
  then show ?thesis using prim_remove_ok [OF ix(2)] by (auto simp: db_remove_def get_index_def)
qed

lemma undo_modify_step:
  assumes "quiet db0 db" "oid ob = i" "db_view db i \<noteq> None"
    and "no_conflict uq S" "ob \<in> S" "ran (db_view db) \<subseteq> S"
  shows "\<exists>db'. undo_modify uq (i, ob) db = Inr db' \<and> quiet db0 db' \<and> db_view db' = (db_view db) (i \<mapsto> ob)
    \<and> db_next db' = db_next db"
proof -
  have wf: "db_wf db" using assms(1) by (simp add: quiet_def)
  obtain cur where cur: "db_view db i = Some cur" using assms(3) by blast
  have "oid cur = i" using db_view_oid [OF wf cur] .
  have nc: "\<not> uq p ob" if "db_view db j = Some p" "j \<noteq> i" for j p
  proof -
    have "p \<in> S" "oid p = j" using that(1) assms(6) db_view_oid [OF wf] by (auto simp: ran_def)
    then show ?thesis using assms(2,4,5) that(2) by (auto simp: no_conflict_def)
  qed
  obtain db' where db': "db_modify uq i (\<lambda>_. Inr ob) db = Inr db'"
    using db_modify_ok [OF wf cur, where m = "\<lambda>_. Inr ob" and ob' = ob and uq = uq] assms(2) nc by auto
  have "quiet db0 db' \<and> db_view db' = (db_view db) (i \<mapsto> ob) \<and> db_next db' = db_next db"
    using db_modify_spec [OF wf db'] assms(1,2) quiet_disabled [OF assms(1)]
    by (auto simp: quiet_def hooks_disabled)
  moreover have "undo_modify uq (i, ob) db = Inr db'"
    using db' cur \<open>oid cur = i\<close> assms(2) by (simp add: undo_modify_def get_object_view)
  ultimately show ?thesis by blast
qed

lemma dom_map_of_Cons:
  "j \<in> dom (map_of al) \<Longrightarrow> j \<in> dom (map_of (x # al))" "i \<in> dom (map_of ((i, y) # al))"
  by (auto simp: domIff)

lemma map_add_map_of_Cons:
  assumes "i \<notin> dom (map_of al)"
  shows "v (i \<mapsto> x) ++ map_of al = v ++ map_of ((i, x) # al)"
  using assms by (simp add: map_add_upd_left)

lemma ran_map_of_Cons:
  assumes "i \<notin> dom (map_of al)"
  shows "ran (map_of ((i, ob) # al)) = insert ob (ran (map_of al))"
  using assms by (simp add: domIff ran_map_upd)

lemma restore_old_values:
  assumes "quiet db0 db" "entries_ok al" "\<And>i. i \<in> dom (map_of al) \<Longrightarrow> db_view db i \<noteq> None"
    and "no_conflict uq S" "ran (map_of al) \<subseteq> S" "ran (db_view db) \<subseteq> S"
  shows "\<exists>db'. foldE (undo_modify uq) al db = Inr db' \<and> quiet db0 db' \<and> db_view db' = db_view db ++ map_of al
    \<and> db_next db' = db_next db"
  using assms
proof (induction al arbitrary: db)
  case Nil
  then show ?case by simp
next
  case (Cons item al)
  obtain i ob where item: "item = (i, ob)" by (cases item)
  have ok: "entries_ok al" "oid ob = i" "i \<notin> dom (map_of al)"
    using Cons.prems(2) by (auto simp: item entries_ok_def keys_ok_def dom_map_of_conv_image_fst)
  have S: "ob \<in> S" "ran (map_of al) \<subseteq> S"
    using Cons.prems(5) [unfolded item ran_map_of_Cons [OF ok(3)]] by blast+
  obtain db1 where 1: "undo_modify uq item db = Inr db1" "quiet db0 db1"
    "db_view db1 = (db_view db) (i \<mapsto> ob)" "db_next db1 = db_next db"
    using undo_modify_step [OF Cons.prems(1) ok(2) Cons.prems(3) [OF dom_map_of_Cons(2) [of i ob al, folded item]] Cons.prems(4) S(1) Cons.prems(6)]
    by (auto simp: item)
  have "\<exists>db'. foldE (undo_modify uq) al db1 = Inr db' \<and> quiet db0 db' \<and>
      db_view db' = db_view db1 ++ map_of al \<and> db_next db' = db_next db1"
  proof (rule Cons.IH [OF 1(2) ok(1) _ Cons.prems(4) S(2)])
    show "ran (db_view db1) \<subseteq> S" using Cons.prems(6) S(1) by (auto simp: 1(3) ran_def)
    show "db_view db1 j \<noteq> None" if "j \<in> dom (map_of al)" for j
      using Cons.prems(3) [OF dom_map_of_Cons(1)] that by (auto simp: 1(3))
  qed
  then obtain db' where 2: "foldE (undo_modify uq) al db1 = Inr db'" "quiet db0 db'"
    "db_view db' = db_view db ++ map_of (item # al)" "db_next db' = db_next db"
    using map_add_map_of_Cons [OF ok(3), of "db_view db" ob] by (auto simp only: 1(3,4) item)
  then have "foldE (undo_modify uq) (item # al) db = Inr db'" by (simp add: 1(1))
  with 2 show ?case by blast
qed

lemma restore_new_ids:
  assumes "quiet db0 db" "distinct ids" "\<And>i. i \<in> set ids \<Longrightarrow> db_view db i \<noteq> None"
  shows "\<exists>db'. foldE undo_create ids db = Inr db' \<and> quiet db0 db'
    \<and> db_view db' = (\<lambda>i. if i \<in> set ids then None else db_view db i) \<and> db_next db' = db_next db"
  using assms
proof (induction ids arbitrary: db)
  case Nil
  then show ?case by simp
next
  case (Cons i ids)
  have wf: "db_wf db" using Cons.prems(1) by (simp add: quiet_def)
  obtain cur where cur: "db_view db i = Some cur" using Cons.prems(3) [of i] by auto
  have "oid cur = i" using db_view_oid [OF wf cur] .
  obtain db1 where rm: "db_remove i db = Inr db1" using db_remove_ok [OF cur] by blast
  then have 1: "undo_create i db = Inr db1"
    using cur \<open>oid cur = i\<close> by (simp add: undo_create_def get_object_view)
  have 2: "quiet db0 db1" "db_view db1 = (db_view db) (i := None)" "db_next db1 = db_next db"
    using db_remove_spec [OF wf rm] Cons.prems(1) quiet_disabled [OF Cons.prems(1)]
    by (auto simp: quiet_def hooks_disabled)
  have "db_view db1 j \<noteq> None" if "j \<in> set ids" for j
    using Cons.prems(2,3) that by (auto simp: 2(2))
  then obtain db' where "foldE undo_create ids db1 = Inr db'" "quiet db0 db'"
      "db_view db' = (\<lambda>j. if j \<in> set ids then None else db_view db1 j)" "db_next db' = db_next db1"
    using Cons.IH [OF 2(1)] Cons.prems(2) by auto
  then show ?case using 1 2 by (auto simp: fun_eq_iff)
qed

lemma restore_next_ids:
  assumes "quiet db0 db" "keys_ok al" "\<And>k. k \<in> dom (map_of al) \<Longrightarrow> db_next db k \<noteq> None"
  shows "\<exists>db'. foldE (\<lambda>(k, n). db_set_next_id k n) al db = Inr db' \<and> quiet db0 db'
    \<and> db_view db' = db_view db \<and> db_next db' = db_next db ++ map_of al"
  using assms
proof (induction al arbitrary: db)
  case Nil
  then show ?case by simp
next
  case (Cons item al)
  obtain k n where item: "item = (k, n)" by (cases item)
  have kd: "k \<in> dom (map_of (item # al))" by (simp add: item)
  obtain ix where ix: "od_index db k = Some ix"
    using Cons.prems(3) [OF kd] by (auto simp: db_next_def)
  let ?ix = "ix\<lparr>pi_next_id := n\<rparr>" let ?db1 = "put_index k ?ix db"
  have wf: "db_wf db" using Cons.prems(1) by (simp add: quiet_def)
  have find: "ix_find ?ix = ix_find ix" by (simp add: ix_find_def fun_eq_iff)
  have "ix_inv k ?ix" using db_wfD [OF wf ix] by (simp add: ix_inv_def)
  then have q: "quiet db0 ?db1" using Cons.prems(1) db_wf_put_index [OF wf] by (simp add: quiet_def)
  have v: "db_view ?db1 = db_view db"
    using ix by (auto simp: db_view_def put_index_def find fun_eq_iff)
  have nx: "db_next ?db1 = (db_next db) (k \<mapsto> n)"
    by (auto simp: db_next_def put_index_def fun_eq_iff)
  have nin: "k \<notin> dom (map_of al)" "keys_ok al"
    using Cons.prems(2) by (auto simp: item keys_ok_def dom_map_of_conv_image_fst)
  have "db_next ?db1 j \<noteq> None" if "j \<in> dom (map_of al)" for j
    using Cons.prems(3) [OF dom_map_of_Cons(1) [OF that]] by (auto simp: nx)
  then obtain db' where "foldE (\<lambda>(k, n). db_set_next_id k n) al ?db1 = Inr db'" "quiet db0 db'"
      "db_view db' = db_view ?db1" "db_next db' = db_next ?db1 ++ map_of al"
    using Cons.IH [OF q nin(2)] by blast
  moreover have "db_set_next_id k n db = Inr ?db1" by (simp add: db_set_next_id_def get_index_def ix)
  ultimately have "foldE (\<lambda>(k, n). db_set_next_id k n) (item # al) db = Inr db'"
    "db_view db' = db_view db" "db_next db' = db_next db ++ map_of (item # al)" "quiet db0 db'"
    using map_add_map_of_Cons [OF nin(1), of "db_next db" n] by (simp_all only: item nx v foldE.simps prod.case bindE_simps)
  then show ?case by blast
qed

lemma restore_removed:
  assumes "quiet db0 db" "entries_ok al" "\<And>i. i \<in> dom (map_of al) \<Longrightarrow> db_view db i = None"
    and "\<And>i. i \<in> dom (map_of al) \<Longrightarrow> db_next db (index_key i) \<noteq> None"
    and "no_conflict uq S" "ran (map_of al) \<subseteq> S" "ran (db_view db) \<subseteq> S"
  shows "\<exists>db'. foldE (\<lambda>(_, ob). db_insert uq ob) al db = Inr db' \<and> quiet db0 db'
    \<and> db_view db' = db_view db ++ map_of al \<and> db_next db' = db_next db"
  using assms
proof (induction al arbitrary: db)
  case Nil
  then show ?case by simp
next
  case (Cons item al)
  obtain i ob where item: "item = (i, ob)" by (cases item)
  have ok: "entries_ok al" "oid ob = i" "i \<notin> dom (map_of al)"
    using Cons.prems(2) by (auto simp: item entries_ok_def keys_ok_def dom_map_of_conv_image_fst)
  have i: "i \<in> dom (map_of (item # al))" by (simp add: item)
  have S: "ob \<in> S" "ran (map_of al) \<subseteq> S"
    using Cons.prems(6) [unfolded item ran_map_of_Cons [OF ok(3)]] by blast+
  have wf: "db_wf db" using Cons.prems(1) by (simp add: quiet_def)
  have none: "db_view db (oid ob) = None" using Cons.prems(3) [OF i] ok(2) by simp
  have nc: "\<not> uq p ob" if "db_view db j = Some p" for j p
  proof -
    have "p \<in> S" "oid p = j" using that Cons.prems(7) db_view_oid [OF wf] by (auto simp: ran_def)
    moreover have "j \<noteq> i" using that none ok(2) by auto
    ultimately show ?thesis using ok(2) Cons.prems(5) S(1) by (auto simp: no_conflict_def)
  qed
  obtain db1 where ins: "db_insert uq ob db = Inr db1"
    using db_insert_ok [OF wf none, of uq] nc Cons.prems(4) [OF i] ok(2) by (auto simp: db_next_def)
  have 2: "quiet db0 db1" "db_view db1 = (db_view db) (i \<mapsto> ob)" "db_next db1 = db_next db"
    using db_insert_spec [OF wf ins] Cons.prems(1) quiet_disabled [OF Cons.prems(1)] ok(2)
    by (auto simp: quiet_def hooks_disabled)
  have "\<exists>db'. foldE (\<lambda>(_, ob). db_insert uq ob) al db1 = Inr db' \<and> quiet db0 db' \<and>
      db_view db' = db_view db1 ++ map_of al \<and> db_next db' = db_next db1"
  proof (rule Cons.IH [OF 2(1) ok(1) _ _ Cons.prems(5) S(2)])
    show "ran (db_view db1) \<subseteq> S" using Cons.prems(7) S(1) by (auto simp: 2(2) ran_def)
    show "db_view db1 j = None" if "j \<in> dom (map_of al)" for j
      using Cons.prems(3) [OF dom_map_of_Cons(1) [OF that]] that ok(3) by (auto simp: 2(2))
    show "db_next db1 (index_key j) \<noteq> None" if "j \<in> dom (map_of al)" for j
      using Cons.prems(4) [OF dom_map_of_Cons(1) [OF that]] by (auto simp: 2(3))
  qed
  then obtain db' where 3: "foldE (\<lambda>(_, ob). db_insert uq ob) al db1 = Inr db'" "quiet db0 db'"
    "db_view db' = db_view db ++ map_of (item # al)" "db_next db' = db_next db"
    using map_add_map_of_Cons [OF ok(3), of "db_view db" ob] by (auto simp only: 2 item)
  then have "foldE (\<lambda>(_, ob). db_insert uq ob) (item # al) db = Inr db'" by (simp add: ins item)
  with 3 show ?case by blast
qed

text \<open>Undoing the top state brings back exactly the lookups and counters it tracks.\<close>

lemma restore_tracks:
  assumes "tracks st (db_view db) (db_next db) v0 n0" "db_wf db" "ud_disabled db"
    and "no_conflict uq (ran (db_view db) \<union> ran v0)"
    and "\<And>i. v0 i \<noteq> None \<Longrightarrow> db_next db (index_key i) \<noteq> None"
  shows "\<exists>db'. restore uq st db = Inr db' \<and> db_view db' = v0 \<and> db_next db' = n0 \<and> db_wf db'
    \<and> log_of db' = log_of db"
proof -
  let ?S = "ran (db_view db) \<union> ran v0"
  have ok: "entries_ok (old_values st)" "entries_ok (removed st)" "keys_ok (old_index_next_ids st)"
    "distinct (new_ids st)"
    using tracks_parts(1) [OF assms(1)] by (auto simp: state_ok_def)
  note et = tracks_parts(2) [OF assms(1)] note nt = tracks_parts(3) [OF assms(1)]
  have q: "quiet db db" using assms(2,3) by (simp add: quiet_def)
  have old: "db_view db i \<noteq> None \<and> v0 i = map_of (old_values st) i"
    if "i \<in> dom (map_of (old_values st))" for i
    using et [of i] that by (auto simp: entry_tracks_def split: if_splits)
  have rem: "db_view db i = None \<and> v0 i = map_of (removed st) i"
    if "i \<in> dom (map_of (removed st))" for i
    using et [of i] that by (auto simp: entry_tracks_def split: if_splits option.splits)
  have oldv: "v0 i = Some x" if "map_of (old_values st) i = Some x" for i x
    using old [of i] that by auto
  have S: "ran (map_of (old_values st)) \<subseteq> ?S" "ran (map_of (removed st)) \<subseteq> ?S"
    using old rem by (fastforce simp: ran_def dom_def)+
  obtain db1 where 1: "foldE (undo_modify uq) (old_values st) db = Inr db1" "quiet db db1"
    "db_view db1 = db_view db ++ map_of (old_values st)" "db_next db1 = db_next db"
    using restore_old_values [OF q ok(1) _ assms(4) S(1)] old by blast
  have "db_view db1 i \<noteq> None" if "i \<in> set (new_ids st)" for i
    using et [of i] that by (auto simp: 1(3) entry_tracks_def)
  then obtain db2 where 2: "foldE undo_create (new_ids st) db1 = Inr db2" "quiet db db2"
    "db_view db2 = (\<lambda>i. if i \<in> set (new_ids st) then None else db_view db1 i)" "db_next db2 = db_next db"
    using restore_new_ids [OF 1(2) ok(4)] 1(4) by auto
  have "db_next db2 k \<noteq> None" if "k \<in> dom (map_of (old_index_next_ids st))" for k
    using nt [of k] that by (auto simp: 2(4) next_tracks_def)
  then obtain db3 where 3: "foldE (\<lambda>(k, n). db_set_next_id k n) (old_index_next_ids st) db2 = Inr db3"
    "quiet db db3" "db_view db3 = db_view db2" "db_next db3 = db_next db ++ map_of (old_index_next_ids st)"
    using restore_next_ids [OF 2(2) ok(3)] 2(4) by auto
  have v3: "db_view db3 i = None" if "i \<in> dom (map_of (removed st))" for i
    using et [of i] that rem [OF that] by (auto simp: 3(3) 2(3) 1(3) entry_tracks_def map_add_def split: option.splits if_splits)
  have n3: "db_next db3 (index_key i) \<noteq> None" if "i \<in> dom (map_of (removed st))" for i
    using assms(5) [of i] rem [OF that] that by (auto simp: 3(4))
  have "ran (db_view db3) \<subseteq> ?S"
    by (auto simp: 3(3) 2(3) 1(3) ran_def map_add_def split: option.splits if_splits dest: oldv)
  then obtain db4 where 4: "foldE (\<lambda>(_, ob). db_insert uq ob) (removed st) db3 = Inr db4" "quiet db db4"
    "db_view db4 = db_view db3 ++ map_of (removed st)" "db_next db4 = db_next db3"
    using restore_removed [OF 3(2) ok(2) v3 n3 assms(4) S(2)] by blast
  have "db_view db4 i = v0 i" for i
    using et [of i]
    by (auto simp: 4(3) 3(3) 2(3) 1(3) entry_tracks_def map_add_def split: option.splits if_splits)
  moreover have "db_next db4 k = n0 k" for k
    using nt [of k] by (auto simp: 4(4) 3(4) next_tracks_def map_add_def split: option.splits)
  moreover have "restore uq st db = Inr db4"
    unfolding restore_def by (simp only: 1(1) 2(1) 3(1) 4(1) bindE_simps)
  ultimately show ?thesis using 4(2) by (auto simp: quiet_def fun_eq_iff)
qed

subsection \<open>Merging\<close>

lemma map_of_fold_merge_upd:
  assumes "entries_ok al"
  shows "map_of (old_values (fold merge_upd al prev)) i =
      (case map_of (old_values prev) i of Some x \<Rightarrow> Some x
       | None \<Rightarrow> if i \<in> set (new_ids prev) then None else map_of al i)
    \<and> new_ids (fold merge_upd al prev) = new_ids prev \<and> removed (fold merge_upd al prev) = removed prev
    \<and> old_index_next_ids (fold merge_upd al prev) = old_index_next_ids prev
    \<and> (entries_ok (old_values prev) \<longrightarrow> entries_ok (old_values (fold merge_upd al prev)))"
  using assms
proof (induction al arbitrary: prev)
  case Nil
  then show ?case by (auto split: option.splits)
next
  case (Cons item al)
  obtain j ob where item: "item = (j, ob)" by (cases item)
  have ok: "entries_ok al" "oid ob = j" "map_of al j = None"
    using Cons.prems by (auto simp: item entries_ok_def keys_ok_def map_of_eq_None_iff)
  show ?case
    using Cons.IH [OF ok(1), of "merge_upd item prev"] ok(2,3)
    by (auto simp: item merge_upd_def alist_simps entries_ok_update [of _ ob, unfolded ok(2)] split: option.splits)
qed

lemma fold_merge_new:
  "set (new_ids (fold merge_new ids prev)) = set ids \<union> set (new_ids prev)
   \<and> old_values (fold merge_new ids prev) = old_values prev \<and> removed (fold merge_new ids prev) = removed prev
   \<and> old_index_next_ids (fold merge_new ids prev) = old_index_next_ids prev
   \<and> (distinct (new_ids prev) \<longrightarrow> distinct (new_ids (fold merge_new ids prev)))"
  by (induction ids arbitrary: prev) (auto simp: merge_new_def)

lemma map_of_fold_merge_next_id:
  assumes "keys_ok al"
  shows "map_of (old_index_next_ids (fold merge_next_id al prev)) k =
      (case map_of (old_index_next_ids prev) k of Some x \<Rightarrow> Some x | None \<Rightarrow> map_of al k)
    \<and> new_ids (fold merge_next_id al prev) = new_ids prev \<and> removed (fold merge_next_id al prev) = removed prev
    \<and> old_values (fold merge_next_id al prev) = old_values prev
    \<and> (keys_ok (old_index_next_ids prev) \<longrightarrow> keys_ok (old_index_next_ids (fold merge_next_id al prev)))"
  using assms
proof (induction al arbitrary: prev)
  case Nil
  then show ?case by (auto split: option.splits)
next
  case (Cons item al)
  obtain j x where item: "item = (j, x)" by (cases item)
  have ok: "keys_ok al" "map_of al j = None"
    using Cons.prems by (auto simp: item keys_ok_def map_of_eq_None_iff)
  show ?case
    using Cons.IH [OF ok(1), of "merge_next_id item prev"] ok(2)
    by (auto simp: item merge_next_id_def alist_simps keys_ok_update split: option.splits)
qed

lemma merge_del_cases:
  assumes "oid ob = j"
  shows "j \<in> set (new_ids prev) \<Longrightarrow> merge_del (j, ob) prev = prev\<lparr>new_ids := removeAll j (new_ids prev)\<rparr>"
    and "j \<notin> set (new_ids prev) \<Longrightarrow> map_of (old_values prev) j = Some was \<Longrightarrow>
      merge_del (j, ob) prev = prev\<lparr>removed := AList.update j was (removed prev), old_values := AList.delete j (old_values prev)\<rparr>"
    and "j \<notin> set (new_ids prev) \<Longrightarrow> map_of (old_values prev) j = None \<Longrightarrow>
      merge_del (j, ob) prev = prev\<lparr>removed := AList.update j ob (removed prev)\<rparr>"
  using assms by (simp_all add: merge_del_def)

lemma merge_del_step:
  assumes "oid ob = j" "j \<in> set (new_ids prev) \<Longrightarrow> map_of (old_values prev) j = None"
  shows "set (new_ids (merge_del (j, ob) prev)) = set (new_ids prev) - {j}"
    "map_of (old_values (merge_del (j, ob) prev)) i = (if i = j then None else map_of (old_values prev) i)"
    "map_of (removed (merge_del (j, ob) prev)) i =
        (if i = j \<and> j \<notin> set (new_ids prev)
         then (case map_of (old_values prev) j of Some was \<Rightarrow> Some was | None \<Rightarrow> Some ob)
         else map_of (removed prev) i)"
    "old_index_next_ids (merge_del (j, ob) prev) = old_index_next_ids prev"
    "distinct (new_ids prev) \<Longrightarrow> distinct (new_ids (merge_del (j, ob) prev))"
  using assms by (auto simp: merge_del_def alist_simps distinct_removeAll split: option.splits)

lemma merge_del_entries_ok:
  assumes "oid ob = j" "entries_ok (old_values prev)" "entries_ok (removed prev)"
  shows "entries_ok (old_values (merge_del (j, ob) prev)) \<and> entries_ok (removed (merge_del (j, ob) prev))"
proof (cases "j \<in> set (new_ids prev)")
  case True
  then show ?thesis using assms by (simp add: merge_del_def)
next
  case new: False
  show ?thesis
  proof (cases "map_of (old_values prev) j")
    case None
    then show ?thesis using new assms by (auto simp: merge_del_def entries_ok_update)
  next
    case (Some was)
    then have "oid was = j" using assms(2) by (simp add: entries_ok_iff)
    then show ?thesis
      using new Some assms entries_ok_update [of "removed prev" was]
      by (simp add: merge_del_def entries_ok_delete)
  qed
qed

lemma fold_merge_del:
  assumes "entries_ok al"
    and "\<And>i. i \<in> dom (map_of al) \<Longrightarrow> i \<in> set (new_ids prev) \<Longrightarrow> map_of (old_values prev) i = None"
  shows "set (new_ids (fold merge_del al prev)) = set (new_ids prev) - dom (map_of al)
    \<and> (\<forall>i. map_of (old_values (fold merge_del al prev)) i =
        (if i \<in> dom (map_of al) then None else map_of (old_values prev) i))
    \<and> (\<forall>i. map_of (removed (fold merge_del al prev)) i =
        (case map_of al i of None \<Rightarrow> map_of (removed prev) i
         | Some ob \<Rightarrow> if i \<in> set (new_ids prev) then map_of (removed prev) i
             else case map_of (old_values prev) i of Some was \<Rightarrow> Some was | None \<Rightarrow> Some ob))
    \<and> old_index_next_ids (fold merge_del al prev) = old_index_next_ids prev
    \<and> (distinct (new_ids prev) \<longrightarrow> distinct (new_ids (fold merge_del al prev)))
    \<and> (entries_ok (old_values prev) \<longrightarrow> entries_ok (removed prev) \<longrightarrow>
        entries_ok (old_values (fold merge_del al prev)) \<and> entries_ok (removed (fold merge_del al prev)))"
  using assms
proof (induction al arbitrary: prev)
  case Nil
  then show ?case by simp
next
  case (Cons item al)
  obtain j ob where item: "item = (j, ob)" by (cases item)
  have ok: "entries_ok al" "oid ob = j" "map_of al j = None"
    using Cons.prems(1) by (auto simp: item entries_ok_def keys_ok_def map_of_eq_None_iff)
  have j: "j \<in> set (new_ids prev) \<Longrightarrow> map_of (old_values prev) j = None"
    using Cons.prems(2) [OF dom_map_of_Cons(2) [of j ob al, folded item]] .
  note step = merge_del_step [OF ok(2) j]
  let ?prev = "merge_del (j, ob) prev"
  have "map_of (old_values ?prev) i = None" if "i \<in> dom (map_of al)" "i \<in> set (new_ids ?prev)" for i
    using Cons.prems(2) [OF dom_map_of_Cons(1) [OF that(1)]] that(2) by (auto simp: step(1,2))
  note IH = Cons.IH [OF ok(1) this]
  have "set (new_ids (fold merge_del al ?prev)) = set (new_ids prev) - dom (map_of (item # al))"
    using IH step(1) by (auto simp: item)
  moreover have "map_of (old_values (fold merge_del al ?prev)) i =
      (if i \<in> dom (map_of (item # al)) then None else map_of (old_values prev) i)" for i
    using IH step(2) [of i] by (auto simp: item domIff)
  moreover have "map_of (removed (fold merge_del al ?prev)) i =
      (case map_of (item # al) i of None \<Rightarrow> map_of (removed prev) i
         | Some ob \<Rightarrow> if i \<in> set (new_ids prev) then map_of (removed prev) i
             else case map_of (old_values prev) i of Some was \<Rightarrow> Some was | None \<Rightarrow> Some ob)" for i
    using IH step(1) step(2) [of i] step(3) [of i] ok(3)
    by (cases "i = j"; cases "map_of al i") (auto simp: item)
  moreover have "distinct (new_ids prev) \<longrightarrow> distinct (new_ids (fold merge_del al ?prev))"
    using IH step(5) by blast
  moreover have "entries_ok (old_values prev) \<longrightarrow> entries_ok (removed prev) \<longrightarrow>
      entries_ok (old_values (fold merge_del al ?prev)) \<and> entries_ok (removed (fold merge_del al ?prev))"
    using IH merge_del_entries_ok [OF ok(2)] by blast
  moreover have "old_index_next_ids (fold merge_del al ?prev) = old_index_next_ids prev"
    using IH step(4) by simp
  ultimately show ?case unfolding fold_simps item by blast
qed

text \<open>The combinations of two states that the table in \<open>merge\<close> calls possible.\<close>

definition mergeable :: "'v undo_state \<Rightarrow> 'v undo_state \<Rightarrow> bool" where
  "mergeable A B = (\<forall>i.
     (i \<in> set (new_ids B) \<longrightarrow> map_of (old_values A) i = None \<and> map_of (removed B) i = None) \<and>
     (i \<in> set (new_ids A) \<longrightarrow> map_of (old_values A) i = None) \<and>
     (i \<in> dom (map_of (old_values B)) \<longrightarrow> map_of (removed B) i = None \<and> i \<notin> set (new_ids B)))"

lemma mergeableD:
  assumes "mergeable A B"
  shows "i \<in> set (new_ids B) \<Longrightarrow> map_of (old_values A) i = None \<and> map_of (removed B) i = None"
    "i \<in> set (new_ids A) \<Longrightarrow> map_of (old_values A) i = None"
    "i \<in> dom (map_of (old_values B)) \<Longrightarrow> map_of (removed B) i = None \<and> i \<notin> set (new_ids B)"
  using assms unfolding mergeable_def by blast+

lemma merged_state:
  assumes A: "state_ok A" and B: "state_ok B" and "mergeable A B"
  shows "state_ok (merge_states A B)"
    and "set (new_ids (merge_states A B)) = (set (new_ids A) \<union> set (new_ids B)) - dom (map_of (removed B))"
    and "map_of (old_values (merge_states A B)) i =
      (if i \<in> dom (map_of (removed B)) then None
       else case map_of (old_values A) i of Some x \<Rightarrow> Some x
       | None \<Rightarrow> if i \<in> set (new_ids A) then None else map_of (old_values B) i)"
    and "map_of (removed (merge_states A B)) i =
      (case map_of (removed B) i of None \<Rightarrow> map_of (removed A) i
       | Some ob \<Rightarrow> if i \<in> set (new_ids A) then map_of (removed A) i
           else case map_of (old_values A) i of Some was \<Rightarrow> Some was | None \<Rightarrow> Some ob)"
    and "map_of (old_index_next_ids (merge_states A B)) k =
      (case map_of (old_index_next_ids A) k of Some x \<Rightarrow> Some x | None \<Rightarrow> map_of (old_index_next_ids B) k)"
proof -
  note disj = mergeableD [OF assms(3)]
  define P1 where "P1 = fold merge_upd (old_values B) A"
  define P2 where "P2 = fold merge_new (new_ids B) P1"
  define P3 where "P3 = fold merge_next_id (old_index_next_ids B) P2"
  have M: "merge_states A B = fold merge_del (removed B) P3"
    by (simp add: merge_states_def P1_def P2_def P3_def)
  have ok: "entries_ok (old_values B)" "entries_ok (removed B)" "keys_ok (old_index_next_ids B)"
    "entries_ok (old_values A)" "entries_ok (removed A)" "keys_ok (old_index_next_ids A)" "distinct (new_ids A)"
    using A B by (simp_all add: state_ok_def)
  note 1 = map_of_fold_merge_upd [OF ok(1), of A, folded P1_def]
  note 2 = fold_merge_new [of "new_ids B" P1, folded P2_def]
  note 3 = map_of_fold_merge_next_id [OF ok(3), of P2, folded P3_def]
  have new3: "set (new_ids P3) = set (new_ids A) \<union> set (new_ids B)" using 1 2 3 by auto
  have old3: "map_of (old_values P3) i = (case map_of (old_values A) i of Some x \<Rightarrow> Some x
       | None \<Rightarrow> if i \<in> set (new_ids A) then None else map_of (old_values B) i)" for i
    using 1 [of i] 2 3 by simp
  have rem3: "removed P3 = removed A" using 1 2 3 by simp
  have next3: "map_of (old_index_next_ids P3) k =
      (case map_of (old_index_next_ids A) k of Some x \<Rightarrow> Some x | None \<Rightarrow> map_of (old_index_next_ids B) k)" for k
    using 1 2 3 [of k] by simp
  have ok3: "entries_ok (old_values P3)" "distinct (new_ids P3)" "keys_ok (old_index_next_ids P3)"
    using 1 2 3 ok by simp_all
  have "map_of (old_values P3) i = None" if "i \<in> dom (map_of (removed B))" "i \<in> set (new_ids P3)" for i
    using that disj [of i] by (auto simp: new3 old3)
  note 4 = fold_merge_del [OF ok(2) this, folded M]
  show "state_ok (merge_states A B)"
    using 4 ok3 ok(5) rem3 by (simp add: state_ok_def)
  show "set (new_ids (merge_states A B)) = (set (new_ids A) \<union> set (new_ids B)) - dom (map_of (removed B))"
    using 4 new3 by simp
  have old4: "map_of (old_values (merge_states A B)) i
      = (if i \<in> dom (map_of (removed B)) then None else map_of (old_values P3) i)" for i
    using 4 by blast
  show "map_of (old_values (merge_states A B)) i =
      (if i \<in> dom (map_of (removed B)) then None
       else case map_of (old_values A) i of Some x \<Rightarrow> Some x
       | None \<Rightarrow> if i \<in> set (new_ids A) then None else map_of (old_values B) i)"
    by (simp only: old4 old3)
  have rem4: "map_of (removed (merge_states A B)) i =
        (case map_of (removed B) i of None \<Rightarrow> map_of (removed P3) i
         | Some ob \<Rightarrow> if i \<in> set (new_ids P3) then map_of (removed P3) i
             else case map_of (old_values P3) i of Some was \<Rightarrow> Some was | None \<Rightarrow> Some ob)"
    using 4 by blast
  show "map_of (removed (merge_states A B)) i =
      (case map_of (removed B) i of None \<Rightarrow> map_of (removed A) i
       | Some ob \<Rightarrow> if i \<in> set (new_ids A) then map_of (removed A) i
           else case map_of (old_values A) i of Some was \<Rightarrow> Some was | None \<Rightarrow> Some ob)"
    using disj [of i] unfolding rem4 rem3 old3 new3 by (cases "map_of (removed B) i") (auto split: option.splits)
  show "map_of (old_index_next_ids (merge_states A B)) k =
      (case map_of (old_index_next_ids A) k of Some x \<Rightarrow> Some x | None \<Rightarrow> map_of (old_index_next_ids B) k)"
    using 4 next3 [of k] by simp
qed

lemma tracks_mergeable:
  assumes A: "tracks A v1 n1 v0 n0" and B: "tracks B v2 n2 v1 n1"
  shows "mergeable A B"
proof -
  note a = tracks_parts(2) [OF A] note b = tracks_parts(2) [OF B]
  have disj1: "map_of (old_values A) i = None \<and> map_of (removed B) i = None" if "i \<in> set (new_ids B)" for i
    using a [of i] b [of i] that by (simp add: entry_tracks_def split: if_splits option.splits)
  have disj2: "map_of (old_values A) i = None" if "i \<in> set (new_ids A)" for i
    using a [of i] that by (simp add: entry_tracks_def)
  have disj3: "map_of (removed B) i = None \<and> i \<notin> set (new_ids B)" if "i \<in> dom (map_of (old_values B))" for i
    using b [of i] that by (auto simp: entry_tracks_def split: if_splits)
  show "mergeable A B" unfolding mergeable_def using disj1 disj2 disj3 by blast
qed

text \<open>Composition: the merged state tracks the way back over both.  The combinations the code calls
  N/A cannot occur for states that track changes.\<close>

lemma tracks_merge:
  assumes A: "tracks A v1 n1 v0 n0" and B: "tracks B v2 n2 v1 n1"
    and fresh: "set (new_ids B) \<inter> dom v0 = {}"
  shows "tracks (merge_states A B) v2 n2 v0 n0"
proof -
  note a = tracks_parts(2) [OF A] note b = tracks_parts(2) [OF B]
  have disj: "mergeable A B" using tracks_mergeable [OF A B] .
  note m = merged_state [OF tracks_parts(1) [OF A] tracks_parts(1) [OF B] disj]
  show ?thesis
  proof (rule tracksI)
    show "state_ok (merge_states A B)" by (rule m(1))
    show "entry_tracks (merge_states A B) v2 v0 i" for i
      using a [of i] b [of i] fresh unfolding entry_tracks_def m(2,3,4)
      by (auto split: if_splits option.splits)
    show "next_tracks (merge_states A B) n2 n0 k" for k
      using tracks_parts(3) [OF A, of k] tracks_parts(3) [OF B, of k] unfolding next_tracks_def m(5)
      by (auto split: option.splits)
  qed
qed

subsection \<open>Sessions\<close>

text \<open>What the code does to the database in a session: a sequence of these operations.\<close>

datatype 'v db_op =
    Create index_key "object_id_type \<Rightarrow> 'v object result"
  | Modify object_id_type "'v object \<Rightarrow> 'v object result"
  | Remove object_id_type

definition apply_op :: "'v obj_cond \<Rightarrow> 'v db_op \<Rightarrow> 'v object_database \<Rightarrow> 'v object_database result" where
  "apply_op uq op db =
     (case op of
        Create k ctor \<Rightarrow> bindE (db_create uq k ctor db) (\<lambda>(ob, db'). Inr db')
      | Modify i m \<Rightarrow> db_modify uq i m db
      | Remove i \<Rightarrow> db_remove i db)"

text \<open>The callbacks fill in the object and leave its id alone.\<close>

definition keeps_id :: "'v db_op \<Rightarrow> bool" where
  "keeps_id op =
     (case op of
        Create k ctor \<Rightarrow> (\<forall>i ob. ctor i = Inr ob \<longrightarrow> oid ob = i)
      | Modify i m \<Rightarrow> (\<forall>ob ob'. m ob = Inr ob' \<longrightarrow> oid ob' = oid ob)
      | Remove i \<Rightarrow> True)"

definition ids_below :: "(index_key \<Rightarrow> object_id_type option) \<Rightarrow> object_id_type set \<Rightarrow> bool" where
  "ids_below n F =
     ((\<forall>i \<in> F. \<exists>x. n (index_key i) = Some x \<and> slot_of i < slot_of x) \<and>
      (\<forall>k x. n k = Some x \<longrightarrow> index_key x = k))"

definition room :: "nat \<Rightarrow> (index_key \<Rightarrow> object_id_type option) \<Rightarrow> bool" where
  "room m n = (\<forall>k x. n k = Some x \<longrightarrow> slot_of x + m < 2 ^ 48)"

lemma roomD: "room m n \<Longrightarrow> n k = Some x \<Longrightarrow> slot_of x + m < 2 ^ 48"
  unfolding room_def by blast

lemma slot_of_less: "slot_of i < 2 ^ 48"
proof -
  have "MAX_INSTANCE_ID = mask 48" by (simp add: MAX_INSTANCE_ID_def mask_eq_exp_minus_1)
  then have "id_instance i = take_bit 48 i" by (simp add: id_instance_def take_bit_eq_mask)
  then have "slot_of i = unat i mod 2 ^ 48" by (simp only: unsigned_take_bit_eq) (simp only: take_bit_eq_mod)
  then show ?thesis by simp
qed

lemma id_incr_fields:
  assumes "slot_of x + 1 < 2 ^ 48"
  shows "index_key (id_incr x) = index_key x" "slot_of (id_incr x) = slot_of x + 1"
proof -
  let ?h = "push_bit 56 (ucast (id_space x)) OR push_bit 48 (ucast (id_type x)) :: 64 word"
  let ?i = "id_instance x"
  have small: "drop_bit 48 w = 0" if "unat w < 2 ^ 48" for w :: "64 word"
    using that by (simp only: word_unat_eq_iff unat_drop_bit_eq) (simp only: drop_bit_eq_div unat_0 div_less)
  have "unat (?i + 1) = unat ?i + 1" using assms by (subst unat_add_lem [THEN iffD1]) simp_all
  then have lo: "drop_bit 48 ?i = 0" "drop_bit 48 (?i + 1) = 0" "unat (?i + 1) = slot_of x + 1"
    using assms small by simp_all
  have disj: "?h OR w = ?h + w" if "drop_bit 48 w = 0" for w
  proof (rule disjunctive_add [symmetric])
    fix k
    show "\<not> bit ?h k \<or> \<not> bit w k"
      using high_bits_zero [OF that, of k] by (auto simp: bit_simps)
  qed
  have "x = ?h OR ?i" using unpacked_repack [of x] by (simp add: mk_object_id_def lo or.assoc)
  then have "id_incr x = ?h OR (?i + 1)" by (simp add: id_incr_def disj lo)
  then have "mk_object_id (id_space x) (id_type x) (?i + 1) = Inr (id_incr x)"
    by (simp add: mk_object_id_def lo or.assoc)
  from packed_fields [OF this] lo(3)
  show "index_key (id_incr x) = index_key x" "slot_of (id_incr x) = slot_of x + 1"
    by (simp_all add: index_key_def)
qed


definition session_inv ::
  "'v object_database \<Rightarrow> (object_id_type \<Rightarrow> 'v object option) \<Rightarrow> (index_key \<Rightarrow> object_id_type option) \<Rightarrow>
   object_id_type set \<Rightarrow> 'v undo_state list \<Rightarrow> nat \<Rightarrow> nat \<Rightarrow> bool" where
  "session_inv db v0 n0 F rest act mx =
     (db_wf db \<and> (\<exists>st. log_of db = (act, False, st # rest, mx)
        \<and> tracks st (db_view db) (db_next db) v0 n0 \<and> set (new_ids st) \<inter> F = {})
      \<and> dom v0 \<subseteq> F \<and> ids_below (db_next db) (F \<union> dom (db_view db)))"

lemma log_of_log_change:
  "log_of db = (act, False, st # rest, mx) \<Longrightarrow> log_of (log_change f db) = (act, False, f st # rest, mx)"
  by (simp add: log_of_def log_change_def)

lemma ids_belowD:
  assumes "ids_below n F" "i \<in> F"
  shows "n (index_key i) \<noteq> None" "n (index_key i) = Some x \<Longrightarrow> slot_of i < slot_of x"
  using assms by (auto simp: ids_below_def)

lemma ids_below_next: "ids_below n F \<Longrightarrow> n k = Some x \<Longrightarrow> index_key x = k"
  unfolding ids_below_def by blast

lemma ids_below_fresh: "ids_below n F \<Longrightarrow> n (index_key x) = Some x \<Longrightarrow> x \<notin> F"
  using ids_belowD(2) [of n F x x] by blast

lemma ids_below_subset: "ids_below n F \<Longrightarrow> G \<subseteq> F \<Longrightarrow> ids_below n G"
  unfolding ids_below_def by blast

lemma ids_below_incr:
  assumes "ids_below n F" "n (index_key x) = Some x" "slot_of x + 1 < 2 ^ 48"
  shows "ids_below (n (index_key x \<mapsto> id_incr x)) (insert x F)"
proof -
  note inc = id_incr_fields [OF assms(3)]
  have "\<exists>y. (n (index_key x \<mapsto> id_incr x)) (index_key i) = Some y \<and> slot_of i < slot_of y"
    if "i \<in> insert x F" for i
  proof (cases "index_key i = index_key x")
    case True
    have "slot_of i \<le> slot_of x"
      using that ids_belowD(2) [OF assms(1), of i x] assms(2) True by auto
    then show ?thesis using True inc(2) by auto
  next
    case False
    then show ?thesis using that assms(1) unfolding ids_below_def by auto
  qed
  moreover have "index_key y = k" if "(n (index_key x \<mapsto> id_incr x)) k = Some y" for k y
    using that inc(1) ids_below_next [OF assms(1)] by (auto split: if_splits)
  ultimately show ?thesis unfolding ids_below_def by blast
qed

lemma db_create_spec:
  assumes "db_wf db" "db_create uq k ctor db = Inr (ob, db')" "\<And>i ob. ctor i = Inr ob \<Longrightarrow> oid ob = i"
    and "ids_below (db_next db) F" "dom (db_view db) \<subseteq> F"
  shows "db_next db k = Some (oid ob) \<and> index_key (oid ob) = k \<and> db_view db (oid ob) = None
    \<and> db_wf db' \<and> db_view db' = (db_view db) (oid ob \<mapsto> ob)
    \<and> db_next db' = (db_next db) (k \<mapsto> id_incr (oid ob)) \<and> log_of db' = log_of (on_create ob db)"
proof -
  from assms(2) obtain ix ix' where ix: "od_index db k = Some ix" "ix_create uq ctor ix = Inr (ob, ix')"
    and db': "db' = on_create ob (put_index k ix' db)"
    by (auto simp: db_create_def result_simps)
  let ?x = "pi_next_id ix"
  obtain item where item: "ctor ?x = Inr item" using ix(2) by (auto simp: ix_create_def result_simps)
  have "oid item = ?x" using assms(3) [OF item] .
  then have ob: "ob = item" "oid ob = ?x"
    using ix(2) item by (auto simp: ix_create_def result_simps Let_def split: container.splits)
  have nx: "db_next db k = Some ?x" using ix(1) by (simp add: db_next_def)
  have key: "index_key ?x = k" using ids_below_next [OF assms(4) nx] .
  have none: "db_view db ?x = None"
    using ids_below_fresh [OF assms(4)] nx key assms(5) by (auto simp: domIff)
  have fixed: "item\<lparr>oid := ?x\<rparr> = item" using \<open>oid item = ?x\<close> by (cases item) simp
  have "ix_create uq ctor ix = bindE (ix_insert uq ob ix) (\<lambda>ix1. Inr (ob, ix1\<lparr>pi_next_id := id_incr ?x\<rparr>))"
  proof (cases "pi_objects ix")
    case (Generic os)
    then show ?thesis by (simp add: ix_create_def ix_insert_def item ob(1) bindE_assoc)
  next
    case (Simple os)
    then show ?thesis
      by (simp only: ix_create_def ix_insert_def item ob(1) bindE_simps container.case Let_def fixed bindE_assoc prod.case
          prim_index.simps)
  qed
  then obtain ix1 where ix1: "ix_insert uq ob ix = Inr ix1" and ix': "ix' = ix1\<lparr>pi_next_id := id_incr ?x\<rparr>"
    using ix(2) by (cases "ix_insert uq ob ix") auto
  have inv: "ix_inv k ix" using db_wfD assms(1) ix(1) .
  have own: "of_index k (oid ob)" using key ob(2) by (simp add: of_index_key)
  have law: "ix_inv k ix1" "ix_find ix1 i = (if i = oid ob then Some ob else ix_find ix i)" if "of_index k i" for i
    using prim.insert_law [OF inv own that ix1] by blast+
  have same: "ix_find ix' = ix_find ix1" "ix_inv k ix' = ix_inv k ix1"
    by (simp_all add: ix' ix_find_def ix_inv_def fun_eq_iff)
  have c: "on_create ob (put_index k ix' db) = put_index k ix' (on_create ob db)"
    by (simp add: on_create_def log_change_put_index)
  have "db_wf (on_create ob db)" using assms(1) by (simp add: db_wf_def)
  then have "db_wf db'" unfolding db' c using db_wf_put_index law(1) [OF own] same by metis
  moreover have "db_view db' = (db_view (on_create ob db)) (oid ob \<mapsto> ob)"
    unfolding db' c
    by (rule db_view_put_index [OF _ _ own, where ix = ix]) (use ix(1) law same in simp_all)
  moreover have "db_view (on_create ob db) = db_view db" by (simp add: db_view_def fun_eq_iff)
  moreover have "db_next db' = (db_next db) (k \<mapsto> id_incr ?x)"
    unfolding db' c by (auto simp: db_next_def put_index_def ix' fun_eq_iff)
  moreover have "log_of db' = log_of (on_create ob db)" unfolding db' c by simp
  ultimately show ?thesis using nx key none ob(2) by simp
qed


lemma db_modify_spec':
  assumes "db_wf db" "db_modify uq i m db = Inr db'"
    and "\<forall>ob ob'. db_view db i = Some ob \<longrightarrow> m ob = Inr ob' \<longrightarrow> oid ob' = i"
  shows "\<exists>ob ob'. db_view db i = Some ob \<and> m ob = Inr ob' \<and> db_wf db' \<and> db_view db' = (db_view db) (i \<mapsto> ob')
    \<and> db_next db' = db_next db \<and> log_of db' = log_of (on_modify ob db)"
  using assms by (intro db_modify_spec) simp_all

text \<open>Every operation keeps the invariant; a creation uses up one id.\<close>

lemma session_op:
  assumes "session_inv db v0 n0 F rest act mx" "apply_op uq op db = Inr db'" "keeps_id op"
    and "room (Suc m) (db_next db)"
  shows "session_inv db' v0 n0 F rest act mx \<and> room m (db_next db') \<and> dom (db_next db') = dom (db_next db)"
proof -
  from assms(1) obtain st where wf: "db_wf db" and lg: "log_of db = (act, False, st # rest, mx)"
    and tr: "tracks st (db_view db) (db_next db) v0 n0" and disj: "set (new_ids st) \<inter> F = {}"
    and F: "dom v0 \<subseteq> F" "ids_below (db_next db) (F \<union> dom (db_view db))"
    unfolding session_inv_def by blast
  have rm: "room m (db_next db)"
    using assms(4) unfolding room_def by (metis Suc_lessD add_Suc_right)
  show ?thesis
  proof (cases op)
    case (Create k ctor)
    then obtain ob where cr: "db_create uq k ctor db = Inr (ob, db')"
      using assms(2) by (auto simp: apply_op_def result_simps)
    have ctor: "oid ob = i" if "ctor i = Inr ob" for i ob using assms(3) that by (simp add: keeps_id_def Create)
    note c = db_create_spec [OF wf cr ctor F(2) Un_upper2]
    have x: "db_next db (index_key (oid ob)) = Some (oid ob)" using c by simp
    have sl: "slot_of (oid ob) + 1 < 2 ^ 48" "slot_of (oid ob) + Suc m < 2 ^ 48"
      using roomD [OF assms(4) x] by simp_all
    have nin: "oid ob \<notin> F" using ids_below_fresh [OF F(2) x] by blast
    then have "v0 (oid ob) = None" using F(1) by (auto simp: domIff)
    then have "tracks (state_on_create ob st) (db_view db') (db_next db') v0 n0"
      using tracks_create [OF tr _ _ x] c by simp
    moreover have "log_of db' = (act, False, state_on_create ob st # rest, mx)"
      using c log_of_log_change [OF lg] by (simp add: on_create_def)
    moreover have "set (new_ids (state_on_create ob st)) \<inter> F = {}"
      using disj nin by (auto simp: state_on_create_def Let_def)
    moreover have "insert (oid ob) (F \<union> dom (db_view db)) = F \<union> dom (db_view db')" using c by auto
    then have "ids_below (db_next db') (F \<union> dom (db_view db'))"
      using ids_below_incr [OF F(2) x sl(1)] c by simp
    moreover have "room m (db_next db')"
      unfolding room_def using roomD [OF rm] sl(2) id_incr_fields(2) [OF sl(1)] c by simp
    moreover have "dom (db_next db') = dom (db_next db)" using c by (auto simp: dom_def)
    ultimately show ?thesis using c F(1) unfolding session_inv_def by blast
  next
    case (Modify i mf)
    have md: "db_modify uq i mf db = Inr db'" using assms(2) by (simp add: apply_op_def Modify)
    have "\<forall>ob ob'. db_view db i = Some ob \<longrightarrow> mf ob = Inr ob' \<longrightarrow> oid ob' = i"
      using assms(3) db_view_oid [OF wf] by (auto simp: keeps_id_def Modify)
    from db_modify_spec' [OF wf md this] obtain ob ob' where c: "db_view db i = Some ob" "db_wf db'"
      "db_view db' = (db_view db) (i \<mapsto> ob')" "db_next db' = db_next db" "log_of db' = log_of (on_modify ob db)"
      by blast
    have i: "oid ob = i" using db_view_oid [OF wf c(1)] .
    have "tracks (state_on_modify ob st) (db_view db') (db_next db') v0 n0"
      using tracks_modify [OF tr, of ob ob'] c(1,3,4) by (simp add: i)
    moreover have "log_of db' = (act, False, state_on_modify ob st # rest, mx)"
      using c(5) log_of_log_change [OF lg] by (simp add: on_modify_def)
    moreover have "set (new_ids (state_on_modify ob st)) \<inter> F = {}" using disj by (simp add: state_on_modify_def)
    moreover have "ids_below (db_next db') (F \<union> dom (db_view db'))"
      using F(2) c(1,3,4) by (simp add: insert_absorb domI)
    ultimately show ?thesis using c(2,4) rm F(1) unfolding session_inv_def by auto
  next
    case (Remove i)
    have rv: "db_remove i db = Inr db'" using assms(2) by (simp add: apply_op_def Remove)
    from db_remove_spec [OF wf rv] obtain ob where c: "db_view db i = Some ob" "db_wf db'"
      "db_view db' = (db_view db) (i := None)" "db_next db' = db_next db" "log_of db' = log_of (on_remove ob db)"
      by blast
    have i: "oid ob = i" using db_view_oid [OF wf c(1)] .
    have "tracks (state_on_remove ob st) (db_view db') (db_next db') v0 n0"
      using tracks_remove [OF tr, of ob] c(1,3,4) by (simp add: i)
    moreover have "log_of db' = (act, False, state_on_remove ob st # rest, mx)"
      using c(5) log_of_log_change [OF lg] by (simp add: on_remove_def)
    moreover have "set (new_ids (state_on_remove ob st)) \<inter> F = {}"
      using disj by (auto simp: state_on_remove_def split: option.splits)
    moreover have "ids_below (db_next db') (F \<union> dom (db_view db'))"
      using ids_below_subset [OF F(2)] c(3,4) by (metis Un_mono dom_fun_upd order_refl Diff_subset)
    ultimately show ?thesis using c(2,4) rm F(1) unfolding session_inv_def by auto
  qed
qed

lemma session_ops:
  assumes "session_inv db v0 n0 F rest act mx" "foldE (apply_op uq) ops db = Inr db'" "list_all keeps_id ops"
    and "room (length ops + m) (db_next db)"
  shows "session_inv db' v0 n0 F rest act mx \<and> room m (db_next db') \<and> dom (db_next db') = dom (db_next db)"
  using assms
proof (induction ops arbitrary: db)
  case Nil
  then show ?case by simp
next
  case (Cons op ops)
  from Cons.prems(2) obtain db1 where 1: "apply_op uq op db = Inr db1" "foldE (apply_op uq) ops db1 = Inr db'"
    by (auto simp: result_simps)
  have "room (Suc (length ops + m)) (db_next db)" using Cons.prems(4) by simp
  from session_op [OF Cons.prems(1) 1(1) _ this] Cons.prems(3)
  show ?case using Cons.IH [OF _ 1(2)] by simp
qed

lemma start_session_inv:
  assumes "db_wf db" "\<not> ud_disabled db" "ids_below (db_next db) (dom (db_view db) \<union> F)"
    and "start_undo_session force db = (s, db')"
  shows "session_inv db' (db_view db) (db_next db) (dom (db_view db) \<union> F) (take (ud_max_size db) (ud_stack db))
      (ud_active_sessions db + 1) (ud_max_size db)"
    and "db_view db' = db_view db" "db_next db' = db_next db" "apply_undo s" "\<not> disable_on_exit s"
proof -
  from assms(2,4) have db': "od_index db' = od_index db"
    "log_of db' = (ud_active_sessions db + 1, False, empty_undo_state # take (ud_max_size db) (ud_stack db), ud_max_size db)"
    and s: "apply_undo s" "\<not> disable_on_exit s"
    by (auto simp: start_undo_session_def Let_def log_of_def split: if_splits)
  show v: "db_view db' = db_view db" "db_next db' = db_next db"
    by (simp_all only: db_view_def [abs_def] db_next_def [abs_def] db'(1))
  show "apply_undo s" "\<not> disable_on_exit s" by (rule s)+
  have "db_wf db'" using assms(1) db'(1) by (simp add: db_wf_def)
  then show "session_inv db' (db_view db) (db_next db) (dom (db_view db) \<union> F)
      (take (ud_max_size db) (ud_stack db)) (ud_active_sessions db + 1) (ud_max_size db)"
    using assms(3) db'(2) tracks_empty [of "db_view db" "db_next db"] v(1,2)
    unfolding session_inv_def by (auto simp: Un_commute Un_left_commute sup.left_idem)
qed

lemma undo_session:
  assumes "session_inv db v0 n0 F rest (Suc act) mx" "no_conflict uq (ran (db_view db) \<union> ran v0)"
  shows "\<exists>db'. undo uq db = Inr db' \<and> db_view db' = v0 \<and> db_next db' = n0 \<and> db_wf db'
    \<and> log_of db' = (act, False, rest, mx)"
proof -
  from assms(1) obtain st where wf: "db_wf db" and lg: "log_of db = (Suc act, False, st # rest, mx)"
    and tr: "tracks st (db_view db) (db_next db) v0 n0"
    and F: "dom v0 \<subseteq> F" "ids_below (db_next db) (F \<union> dom (db_view db))"
    unfolding session_inv_def by blast
  let ?d = "ud_disable db"
  have v: "db_view ?d = db_view db" "db_next ?d = db_next db"
    by (simp_all add: ud_disable_def db_view_def db_next_def fun_eq_iff)
  have d: "db_wf ?d" "ud_disabled ?d" using wf by (simp_all add: ud_disable_def db_wf_def)
  have idx: "db_next ?d (index_key i) \<noteq> None" if "v0 i \<noteq> None" for i
    using ids_belowD(1) [OF F(2), of i] F(1) that by (auto simp: v)
  obtain db1 where 1: "restore uq st ?d = Inr db1" "db_view db1 = v0" "db_next db1 = n0" "db_wf db1"
    "log_of db1 = log_of ?d"
    using restore_tracks [of st ?d v0 n0 uq] tr assms(2) d idx by (auto simp: v)
  let ?db' = "db1\<lparr>ud_stack := tl (ud_stack db1), ud_disabled := False, ud_active_sessions := ud_active_sessions db1 - 1\<rparr>"
  have "undo uq db = Inr ?db'" using lg 1(1) by (simp add: undo_def log_of_def)
  moreover have "db_view ?db' = v0" "db_next ?db' = n0" "db_wf ?db'"
    using 1(2-4) by (auto simp: db_view_def db_next_def db_wf_def fun_eq_iff)
  moreover have "log_of ?db' = (act, False, rest, mx)"
    using lg 1(5) by (simp add: log_of_def ud_disable_def)
  ultimately show ?thesis by blast
qed


lemma merge_states_new_ids:
  assumes A: "tracks A v1 n1 v0 n0" and B: "tracks B v2 n2 v1 n1"
    and fresh: "set (new_ids B) \<inter> dom v0 = {}"
  shows "set (new_ids (merge_states A B)) \<subseteq> set (new_ids A) \<union> set (new_ids B)"
  using merged_state(2) [OF tracks_parts(1) [OF A] tracks_parts(1) [OF B] tracks_mergeable [OF A B]]
  by blast

lemma merge_inner_session:
  assumes "session_inv db v1 n1 F1 (A # rest) (Suc (Suc act)) mx"
    and "tracks A v1 n1 v0 n0" "set (new_ids A) \<inter> F0 = {}" "dom v0 \<subseteq> F0" "F0 \<subseteq> F1"
  shows "\<exists>db'. merge_top db = Inr db' \<and> db_view db' = db_view db \<and> db_next db' = db_next db
    \<and> session_inv db' v0 n0 F0 rest (Suc act) mx"
proof -
  from assms(1) obtain B where wf: "db_wf db" and lg: "log_of db = (Suc (Suc act), False, B # A # rest, mx)"
    and tr: "tracks B (db_view db) (db_next db) v1 n1" and disj: "set (new_ids B) \<inter> F1 = {}"
    and F: "ids_below (db_next db) (F1 \<union> dom (db_view db))"
    unfolding session_inv_def by blast
  let ?db' = "db\<lparr>ud_stack := merge_states A B # rest, ud_active_sessions := ud_active_sessions db - 1\<rparr>"
  have "merge_top db = Inr ?db'" using lg by (simp add: merge_top_def log_of_def)
  moreover have v: "db_view ?db' = db_view db" "db_next ?db' = db_next db"
    by (simp_all add: db_view_def db_next_def fun_eq_iff)
  moreover have "db_wf ?db'" using wf by (simp add: db_wf_def)
  moreover have "log_of ?db' = (Suc act, False, merge_states A B # rest, mx)" using lg by (simp add: log_of_def)
  moreover have "tracks (merge_states A B) (db_view db) (db_next db) v0 n0"
    using tracks_merge [OF assms(2) tr] disj assms(4,5) by blast
  moreover have "set (new_ids (merge_states A B)) \<subseteq> set (new_ids A) \<union> set (new_ids B)"
    by (rule merge_states_new_ids [OF assms(2) tr]) (use disj assms(4,5) in blast)
  moreover have "ids_below (db_next db) (F0 \<union> dom (db_view db))"
    using F assms(5) ids_below_subset by (metis Un_mono order_refl)
  ultimately show ?thesis
    using assms(3,4,5) disj unfolding session_inv_def by (intro exI [of _ ?db']) (simp add: v, blast)
qed

text \<open>
  C10. Undo is exact: open a session on an enabled database whose ids are below the counters, run
  any operations that do not throw, and undo the session.  Every lookup and every id counter is what
  it was, the log is the one before the session (less the states dropped by the size limit), and
  the destructor of an unfinished session has the same effect.  The hypothesis on \<open>uq\<close> is the one
  the code silently relies on: no object present before shares a unique key with a different
  object present after.
\<close>

theorem undo_restores:
  assumes "db_wf db" and "\<not> ud_disabled db" and "ids_below (db_next db) (dom (db_view db))"
    and "room (length ops) (db_next db)" and "list_all keeps_id ops"
    and "start_undo_session force db = (s, db1)" and "foldE (apply_op uq) ops db1 = Inr db2"
    and "no_conflict uq (ran (db_view db2) \<union> ran (db_view db))"
  shows "\<exists>db3. session_undo uq s db2 = Inr (s\<lparr>apply_undo := False\<rparr>, db3)
     \<and> session_destroy uq s db2 = Inr db3
     \<and> db_view db3 = db_view db \<and> db_next db3 = db_next db
     \<and> log_of db3 = (ud_active_sessions db, False, take (ud_max_size db) (ud_stack db), ud_max_size db)"
proof -
  have below: "ids_below (db_next db) (dom (db_view db) \<union> {})" using assms(3) by simp
  note st = start_session_inv [OF assms(1,2) below assms(6)]
  have "room (length ops + 0) (db_next db1)" using assms(4) st(3) by simp
  from session_ops [OF st(1) assms(7,5) this]
  have "session_inv db2 (db_view db) (db_next db) (dom (db_view db) \<union> {}) (take (ud_max_size db) (ud_stack db))
      (Suc (ud_active_sessions db)) (ud_max_size db)" by simp
  from undo_session [OF this assms(8)] st(4,5) show ?thesis
    by (auto simp: session_undo_def session_destroy_def)
qed

text \<open>
  C11. Merging composes: a session nested in another and merged into it is undone together with it.
  After the outer session is undone the database is what it was before both, whatever the
  operations of the two sessions did to the same objects.
\<close>

theorem merge_then_undo_restores:
  assumes "db_wf db" and "\<not> ud_disabled db" and "ids_below (db_next db) (dom (db_view db))"
    and "room (length ops + length ops') (db_next db)" and "list_all keeps_id (ops @ ops')"
    and "0 < ud_max_size db"
    and "start_undo_session force db = (s, db1)" and "foldE (apply_op uq) ops db1 = Inr db2"
    and "start_undo_session force' db2 = (s', db3)" and "foldE (apply_op uq) ops' db3 = Inr db4"
    and "no_conflict uq (ran (db_view db4) \<union> ran (db_view db))"
  shows "\<exists>db5 db6. session_merge s' db4 = Inr (s'\<lparr>apply_undo := False\<rparr>, db5)
     \<and> db_view db5 = db_view db4 \<and> db_next db5 = db_next db4
     \<and> session_undo uq s db5 = Inr (s\<lparr>apply_undo := False\<rparr>, db6)
     \<and> db_view db6 = db_view db \<and> db_next db6 = db_next db
     \<and> ud_active_sessions db6 = ud_active_sessions db"
proof -
  let ?v = "db_view db" and ?n = "db_next db" and ?mx = "ud_max_size db" and ?a = "ud_active_sessions db"
  let ?rest = "take ?mx (ud_stack db)"
  have below: "ids_below ?n (dom ?v \<union> {})" using assms(3) by simp
  note st = start_session_inv [OF assms(1,2) below assms(7)]
  have ok: "list_all keeps_id ops" "list_all keeps_id ops'" using assms(5) by simp_all
  have "room (length ops + length ops') (db_next db1)" using assms(4) st(3) by simp
  note o1 = session_ops [OF st(1) assms(8) ok(1) this]
  then obtain A where A: "log_of db2 = (Suc ?a, False, A # ?rest, ?mx)"
    "tracks A (db_view db2) (db_next db2) ?v ?n" "set (new_ids A) \<inter> dom ?v = {}" "db_wf db2"
    "ids_below (db_next db2) (dom ?v \<union> dom (db_view db2))"
    unfolding session_inv_def by auto
  have below2: "ids_below (db_next db2) (dom (db_view db2) \<union> dom ?v)" using A(5) by (simp add: Un_commute)
  have en: "\<not> ud_disabled db2" using A(1) by (simp add: log_of_def)
  note st' = start_session_inv [OF A(4) en below2 assms(9)]
  have "room (length ops' + 0) (db_next db3)" using o1 st'(3) by simp
  note o2 = session_ops [OF st'(1) assms(10) ok(2) this]
  obtain m where m: "?mx = Suc m" using assms(6) by (cases ?mx) auto
  have tk: "take ?mx (A # ?rest) = A # take m (ud_stack db)" by (simp add: m)
  have "session_inv db4 (db_view db2) (db_next db2) (dom (db_view db2) \<union> dom ?v) (A # take m (ud_stack db))
      (Suc (Suc ?a)) ?mx"
    using o2 A(1) tk by (simp add: log_of_def)
  from merge_inner_session [OF this A(2,3) order_refl Un_upper2]
  obtain db5 where 5: "merge_top db4 = Inr db5" "db_view db5 = db_view db4" "db_next db5 = db_next db4"
    "session_inv db5 ?v ?n (dom ?v) (take m (ud_stack db)) (Suc ?a) ?mx" by blast
  have nc: "no_conflict uq (ran (db_view db5) \<union> ran ?v)" using assms(11) 5(2) by simp
  from undo_session [OF 5(4) nc] 5(1-3) st(4) st'(4) show ?thesis
    by (auto simp: session_merge_def session_undo_def log_of_def)
qed

text \<open>A small database for the witnesses: one index with two objects.\<close>

definition demo_db :: "nat object_database" where
  "demo_db = \<lparr>od_index = (\<lambda>k. if k = (1, 7) then
       Some \<lparr>pi_objects = Generic [\<lparr>oid = 0x0107000000000000, val = 10\<rparr>, \<lparr>oid = 0x0107000000000001, val = 11\<rparr>],
             pi_next_id = 0x0107000000000002\<rparr> else None),
     ud_active_sessions = 0, ud_disabled = False, ud_stack = [], ud_max_size = 256\<rparr>"

definition demo_ops :: "nat db_op list" where
  "demo_ops = [Create (1, 7) (\<lambda>i. Inr \<lparr>oid = i, val = 12\<rparr>),
     Modify 0x0107000000000000 (\<lambda>ob. Inr (ob\<lparr>val := 20\<rparr>)),
     Remove 0x0107000000000001]"

lemma id_instance_take_bit: "id_instance i = take_bit 48 i"
  by (simp add: id_instance_def MAX_INSTANCE_ID_def take_bit_eq_mask mask_eq_exp_minus_1)

lemma demo_keys:
  "index_key 0x0107000000000000 = (1, 7)" "index_key 0x0107000000000001 = (1, 7)"
  "index_key 0x0107000000000002 = (1, 7)" "slot_of 0x0107000000000000 = 0"
  "slot_of 0x0107000000000001 = 1" "slot_of 0x0107000000000002 = 2"
  by (simp_all add: index_key_def id_space_def id_type_def id_instance_take_bit)

lemma demo_view:
  "db_view demo_db i = (if i = 0x0107000000000000 then Some \<lparr>oid = i, val = 10\<rparr>
     else if i = 0x0107000000000001 then Some \<lparr>oid = i, val = 11\<rparr> else None)"
  by (auto simp: db_view_def demo_db_def demo_keys ix_find_def)

lemma demo_next: "db_next demo_db k = (if k = (1, 7) then Some 0x0107000000000002 else None)"
  by (simp add: db_next_def demo_db_def)

lemma demo_ok:
  "db_wf demo_db" "\<not> ud_disabled demo_db" "ids_below (db_next demo_db) (dom (db_view demo_db))"
  "room 3 (db_next demo_db)" "list_all keeps_id demo_ops"
proof -
  show "db_wf demo_db"
    by (auto simp: db_wf_def demo_db_def ix_inv_def gi_inv_def of_index_key demo_keys split: if_splits)
  show "\<not> ud_disabled demo_db" by (simp add: demo_db_def)
  have "dom (db_view demo_db) = {0x0107000000000000, 0x0107000000000001}"
    by (auto simp: demo_view dom_def split: if_splits)
  then show "ids_below (db_next demo_db) (dom (db_view demo_db))"
    by (simp add: ids_below_def demo_next demo_keys)
  show "room 3 (db_next demo_db)" by (simp add: room_def demo_next demo_keys)
  show "list_all keeps_id demo_ops" by (simp add: demo_ops_def keeps_id_def)
qed

lemma no_conflict_trivial: "no_conflict (\<lambda>_ _. False) S"
  by (simp add: no_conflict_def)

text \<open>The operations run.\<close>

lemma demo_runs:
  "\<exists>s db1 db2. start_undo_session False demo_db = (s, db1) \<and> foldE (apply_op (\<lambda>_ _. False)) demo_ops db1 = Inr db2
     \<and> db_view db2 0x0107000000000001 = None \<and> db_next db2 (1, 7) = Some 0x0107000000000003"
  by (simp add: start_undo_session_def demo_db_def demo_ops_def apply_op_def Let_def
      db_create_def db_modify_def db_remove_def get_index_def ix_create_def ix_modify_def ix_remove_def
      gi_insert_def gi_modify_def gi_remove_def gi_clash_def put_index_def ix_find_def demo_keys id_incr_def
      on_create_def on_modify_def on_remove_def log_change_def db_view_def db_next_def)

lemmas run_simps = start_undo_session_def demo_db_def apply_op_def Let_def
  db_create_def db_modify_def db_remove_def get_index_def ix_create_def ix_modify_def ix_remove_def
  gi_insert_def gi_modify_def gi_remove_def gi_clash_def put_index_def ix_find_def id_incr_def
  on_create_def on_modify_def on_remove_def log_change_def

lemma demo_nested_runs:
  "\<exists>s db1 db2 s' db3 db4. start_undo_session False demo_db = (s, db1)
     \<and> foldE (apply_op (\<lambda>_ _. False)) (take 2 demo_ops) db1 = Inr db2
     \<and> start_undo_session False db2 = (s', db3)
     \<and> foldE (apply_op (\<lambda>_ _. False)) (drop 2 demo_ops) db3 = Inr db4
     \<and> db_view db4 0x0107000000000001 = None"
  by (simp add: run_simps demo_ops_def demo_keys db_view_def)

theorem undo_restores_witness:
  "\<exists>s db1 db2 db3. start_undo_session False demo_db = (s, db1)
     \<and> foldE (apply_op (\<lambda>_ _. False)) demo_ops db1 = Inr db2
     \<and> db_view db2 0x0107000000000001 = None
     \<and> session_undo (\<lambda>_ _. False) s db2 = Inr (s\<lparr>apply_undo := False\<rparr>, db3)
     \<and> db_view db3 0x0107000000000001 = Some \<lparr>oid = 0x0107000000000001, val = 11\<rparr>"
proof -
  obtain s db1 db2 where r: "start_undo_session False demo_db = (s, db1)"
    "foldE (apply_op (\<lambda>_ _. False)) demo_ops db1 = Inr db2" "db_view db2 0x0107000000000001 = None"
    using demo_runs by blast
  have "room (length demo_ops) (db_next demo_db)" using demo_ok(4) by (simp add: demo_ops_def eval_nat_numeral)
  from undo_restores [OF demo_ok(1-3) this demo_ok(5) r(1,2) no_conflict_trivial] r
  show ?thesis by (auto simp: demo_view)
qed

theorem merge_then_undo_restores_witness:
  "\<exists>s s' db4 db5 db6. session_merge s' db4 = Inr (s'\<lparr>apply_undo := False\<rparr>, db5)
     \<and> db_view db4 0x0107000000000001 = None
     \<and> session_undo (\<lambda>_ _. False) s db5 = Inr (s\<lparr>apply_undo := False\<rparr>, db6)
     \<and> db_view db6 0x0107000000000001 = Some \<lparr>oid = 0x0107000000000001, val = 11 :: nat\<rparr>"
proof -
  obtain s db1 db2 s' db3 db4 where r: "start_undo_session False demo_db = (s, db1)"
    "foldE (apply_op (\<lambda>_ _. False)) (take 2 demo_ops) db1 = Inr db2"
    "start_undo_session False db2 = (s', db3)"
    "foldE (apply_op (\<lambda>_ _. False)) (drop 2 demo_ops) db3 = Inr db4"
    "db_view db4 0x0107000000000001 = None"
    using demo_nested_runs by blast
  have rm: "room (length (take 2 demo_ops) + length (drop 2 demo_ops)) (db_next demo_db)"
    using demo_ok(4) by (simp add: demo_ops_def eval_nat_numeral)
  have k: "list_all keeps_id (take 2 demo_ops @ drop 2 demo_ops)" using demo_ok(5) by simp
  have "0 < ud_max_size demo_db" by (simp add: demo_db_def)
  from merge_then_undo_restores [OF demo_ok(1-3) rm k this r(1-4) no_conflict_trivial]
  obtain db5 db6 where m: "session_merge s' db4 = Inr (s'\<lparr>apply_undo := False\<rparr>, db5)"
    "session_undo (\<lambda>_ _. False) s db5 = Inr (s\<lparr>apply_undo := False\<rparr>, db6)" "db_view db6 = db_view demo_db"
    by blast
  moreover have "db_view db6 0x0107000000000001 = Some \<lparr>oid = 0x0107000000000001, val = 11\<rparr>"
    by (simp add: m(3) demo_view)
  ultimately show ?thesis using r(5) by blast
qed

definition swap_ops :: "object_id_type \<Rightarrow> object_id_type \<Rightarrow> 'v \<Rightarrow> 'v \<Rightarrow> 'v \<Rightarrow> 'v db_op list" where
  "swap_ops i j x y z =
     [Modify i (\<lambda>ob. Inr (ob\<lparr>val := z\<rparr>)), Modify j (\<lambda>ob. Inr (ob\<lparr>val := x\<rparr>)),
      Modify i (\<lambda>ob. Inr (ob\<lparr>val := y\<rparr>))]"

definition two_objects :: "object_id_type \<Rightarrow> object_id_type \<Rightarrow> 'v \<Rightarrow> 'v \<Rightarrow> 'v object_database" where
  "two_objects i j x y = \<lparr>od_index = (\<lambda>k. if k = index_key i then
       Some \<lparr>pi_objects = Generic [\<lparr>oid = i, val = x\<rparr>, \<lparr>oid = j, val = y\<rparr>],
             pi_next_id = id_incr (max i j)\<rparr> else None),
     ud_active_sessions = 0, ud_disabled = False, ud_stack = [], ud_max_size = 256\<rparr>"

text \<open>
  C12. Without the hypothesis on unique keys undo can fail: two objects of an index whose values must
  differ swap their values within a session (over an intermediate value, so that no step is
  refused), and undoing the session throws, because the old values are put back one object at a
  time and the first one collides with the other object's current value.  It fails for every pair of
  objects and values.
\<close>

theorem key_swap_cannot_be_undone:
  assumes "i \<noteq> j" and "index_key i = index_key j" and "x \<noteq> y" and "z \<noteq> x" and "z \<noteq> y"
  shows "\<exists>s db1 db2. start_undo_session False (two_objects i j x y) = (s, db1)
     \<and> foldE (apply_op (\<lambda>p q. val p = val q)) (swap_ops i j x y z) db1 = Inr db2
     \<and> db_view db2 i = Some \<lparr>oid = i, val = y\<rparr> \<and> db_view db2 j = Some \<lparr>oid = j, val = x\<rparr>
     \<and> session_undo (\<lambda>p q. val p = val q) s db2 = Inl AssertFailed"
  using assms
  by (simp add: two_objects_def swap_ops_def start_undo_session_def apply_op_def Let_def
      db_modify_def get_index_def ix_modify_def gi_modify_def gi_clash_def put_index_def ix_find_def
      on_modify_def log_change_def state_on_modify_def empty_undo_state_def db_view_def
      session_undo_def undo_def restore_def undo_modify_def get_object_def ix_get_def ud_disable_def)

theorem key_swap_cannot_be_undone_witness:
  "\<exists>s db1 db2. start_undo_session False (two_objects 0x0107000000000000 0x0107000000000001 (1::nat) 2) = (s, db1)
     \<and> foldE (apply_op (\<lambda>p q. val p = val q)) (swap_ops 0x0107000000000000 0x0107000000000001 1 2 3) db1 = Inr db2
     \<and> session_undo (\<lambda>p q. val p = val q) s db2 = Inl AssertFailed"
  using key_swap_cannot_be_undone [of "0x0107000000000000" "0x0107000000000001" "1::nat" 2 3]
  by (auto simp: demo_keys)

text \<open>
  A session opened on a disabled log without forcing is a trap: opening it records nothing, yet
  the session still wants to undo, so undoing or destroying it throws; and merging or committing it
  throws as well unless another session happens to be open, in which case that other session is
  the one that is ended.
\<close>

lemma disabled_session_throws:
  assumes "ud_disabled db"
  shows "start_undo_session False db = (\<lparr>apply_undo = True, disable_on_exit = False\<rparr>, db)
     \<and> session_undo uq \<lparr>apply_undo = True, disable_on_exit = False\<rparr> db = Inl AssertFailed
     \<and> session_destroy uq \<lparr>apply_undo = True, disable_on_exit = False\<rparr> db = Inl AssertFailed
     \<and> (ud_active_sessions db = 0 \<longrightarrow>
          session_merge \<lparr>apply_undo = True, disable_on_exit = False\<rparr> db = Inl AssertFailed
          \<and> session_commit \<lparr>apply_undo = True, disable_on_exit = False\<rparr> db = Inl AssertFailed)
     \<and> (0 < ud_active_sessions db \<longrightarrow>
          session_commit \<lparr>apply_undo = True, disable_on_exit = False\<rparr> db
            = Inr (\<lparr>apply_undo = False, disable_on_exit = False\<rparr>,
                   db\<lparr>ud_active_sessions := ud_active_sessions db - 1\<rparr>))"
  using assms
  by (simp add: start_undo_session_def session_undo_def undo_def session_destroy_def session_merge_def
      merge_top_def session_commit_def commit_def)

lemma disabled_session_throws_witness:
  "session_destroy (\<lambda>_ _. False) (fst (start_undo_session False (ud_disable demo_db))) (ud_disable demo_db)
     = Inl AssertFailed"
  using disabled_session_throws [of "ud_disable demo_db" "\<lambda>_ _. False"] by (simp add: ud_disable_def)

end
