(* ===== verification/Uint128.thy ===== *)
theory Uint128
  imports Object_Id
begin

text \<open>
  \<open>fc::uint128\<close> (\<open>fc/include/fc/uint128.hpp\<close>, \<open>fc/src/uint128.cpp\<close>): a pair of 64-bit words with
  hand-written carries, shifts, products and a shift-and-subtract division.  The abstract value of a
  pair is a \<open>128 word\<close>; every operation is shown to be the operation of \<open>128 word\<close>, so the
  components above may use \<open>128 word\<close> for it.
\<close>

record uint128 =
  hi :: "64 word"
  lo :: "64 word"

definition mk128 :: "64 word \<Rightarrow> 64 word \<Rightarrow> uint128" where
  "mk128 h l = \<lparr>hi = h, lo = l\<rparr>"

definition of_u64 :: "64 word \<Rightarrow> uint128" where
  "of_u64 l = mk128 0 l"

text \<open>From \<open>int64_t\<close>: \<open>hi( -(l<0) )\<close>.\<close>

definition of_i64 :: "64 word \<Rightarrow> uint128" where
  "of_i64 l = mk128 (if sint l < 0 then - 1 else 0) l"

definition u_eq :: "uint128 \<Rightarrow> uint128 \<Rightarrow> bool" where
  "u_eq a b = (hi a = hi b \<and> lo a = lo b)"

definition u_less :: "uint128 \<Rightarrow> uint128 \<Rightarrow> bool" where
  "u_less a b = (if hi a = hi b then lo a < lo b else hi a < hi b)"

definition u_ge :: "uint128 \<Rightarrow> uint128 \<Rightarrow> bool" where
  "u_ge l r = (u_eq l r \<or> u_less r l)"

definition u_incr :: "uint128 \<Rightarrow> uint128" where
  "u_incr a = (let l = lo a + 1 in mk128 (hi a + (if l = 0 then 1 else 0)) l)"

definition u_decr :: "uint128 \<Rightarrow> uint128" where
  "u_decr a = mk128 (hi a - (if lo a = 0 then 1 else 0)) (lo a - 1)"

definition u_not :: "uint128 \<Rightarrow> uint128" where
  "u_not a = mk128 (NOT (hi a)) (NOT (lo a))"

definition u_neg :: "uint128 \<Rightarrow> uint128" where
  "u_neg a = u_incr (mk128 (NOT (hi a)) (NOT (lo a)))"

definition u_or :: "uint128 \<Rightarrow> uint128 \<Rightarrow> uint128" where
  "u_or a b = mk128 (hi a OR hi b) (lo a OR lo b)"

definition u_and :: "uint128 \<Rightarrow> uint128 \<Rightarrow> uint128" where
  "u_and a b = mk128 (hi a AND hi b) (lo a AND lo b)"

definition u_xor :: "uint128 \<Rightarrow> uint128 \<Rightarrow> uint128" where
  "u_xor a b = mk128 (hi a XOR hi b) (lo a XOR lo b)"

text \<open>The binary \<open>operator |\<close> as it is written: \<open>uint128(l)=(r)\<close> assigns where the others combine.\<close>

definition u_or_friend :: "uint128 \<Rightarrow> uint128 \<Rightarrow> uint128" where
  "u_or_friend l r = r"

definition u_add :: "uint128 \<Rightarrow> uint128 \<Rightarrow> uint128" where
  "u_add a b = (let l = lo a + lo b in mk128 (hi a + (hi b + (if l < lo a then 1 else 0))) l)"

definition u_sub :: "uint128 \<Rightarrow> uint128 \<Rightarrow> uint128" where
  "u_sub a b = u_add a (u_neg b)"

definition to_integer :: "uint128 \<Rightarrow> 32 word result" where
  "to_integer a = assertE (hi a = 0) (let l = ucast (lo a) :: 32 word in assertE (lo a = ucast l) (Inr l))"

definition to_uint64 :: "uint128 \<Rightarrow> 64 word result" where
  "to_uint64 a = assertE (hi a = 0) (Inr (lo a))"

definition u_shl :: "uint128 \<Rightarrow> nat \<Rightarrow> uint128" where
  "u_shl a s =
     (if 128 \<le> s then mk128 0 0
      else
        (let a1 = (if 64 \<le> s then mk128 (lo a) 0 else a);
             n = (if 64 \<le> s then s - 64 else s)
         in if n \<noteq> 0 then
              (let msk = NOT (drop_bit n (- 1))
               in mk128 (push_bit n (hi a1) OR drop_bit (64 - n) (lo a1 AND msk)) (push_bit n (lo a1)))
            else a1))"

definition u_shr :: "uint128 \<Rightarrow> nat \<Rightarrow> uint128" where
  "u_shr a s =
     (if 128 \<le> s then mk128 0 0
      else
        (let a1 = (if 64 \<le> s then mk128 0 (hi a) else a);
             n = (if 64 \<le> s then s - 64 else s)
         in if n \<noteq> 0 then
              (let msk = NOT (push_bit n (- 1))
               in mk128 (drop_bit n (hi a1)) (drop_bit n (lo a1) OR push_bit (64 - n) (hi a1 AND msk)))
            else a1))"

text \<open>The product of two 32-bit limbs as \<open>uint64_t\<close>, added as a \<open>uint128\<close>.\<close>

definition limbs :: "uint128 \<Rightarrow> 64 word \<times> 64 word \<times> 64 word \<times> 64 word" where
  "limbs a = (take_bit 32 (lo a), drop_bit 32 (lo a), take_bit 32 (hi a), drop_bit 32 (hi a))"

definition u_mul :: "uint128 \<Rightarrow> uint128 \<Rightarrow> uint128" where
  "u_mul a b =
     (case limbs a of (a0, a1, a2, a3) \<Rightarrow> case limbs b of (b0, b1, b2, b3) \<Rightarrow>
      let t = mk128 0 (a3 * b0);
          t = u_add t (of_u64 (a2 * b1));
          t = u_add t (of_u64 (a1 * b2));
          t = u_add t (of_u64 (a0 * b3));
          t = u_shl t 32;
          t = u_add t (of_u64 (a2 * b0));
          t = u_add t (of_u64 (a1 * b1));
          t = u_add t (of_u64 (a0 * b2));
          t = u_shl t 32;
          t = u_add t (of_u64 (a1 * b0));
          t = u_add t (of_u64 (a0 * b1));
          t = u_shl t 32;
          t = u_add t (of_u64 (a0 * b0))
      in t)"

definition full_product :: "uint128 \<Rightarrow> uint128 \<Rightarrow> uint128 \<times> uint128" where
  "full_product a b =
     (let s = u_mul (of_u64 (lo a)) (of_u64 (lo b));
          r = u_mul (of_u64 (hi a)) (of_u64 (lo b));
          q = u_mul (of_u64 (lo a)) (of_u64 (hi b));
          p = u_mul (of_u64 (hi a)) (of_u64 (hi b));
          acc = u_add (u_add (of_u64 (hi s)) (of_u64 (lo q))) (of_u64 (lo r));
          y1 = lo acc;
          acc' = u_add (u_add (u_add (of_u64 (hi acc)) (of_u64 (hi q))) (of_u64 (hi r))) (of_u64 (lo p));
          y2 = lo acc';
          y3 = hi acc' + hi p
      in (mk128 y3 y2, mk128 y1 (lo s)))"

text \<open>The division of the struct goes through \<open>boost::multiprecision\<close>, whose 128-bit integers are
  \<open>128 word\<close>.\<close>

definition abs128 :: "uint128 \<Rightarrow> 128 word" where
  "abs128 a = ucast (hi a) * 2 ^ 64 + ucast (lo a)"

definition rep128 :: "128 word \<Rightarrow> uint128" where
  "rep128 w = mk128 (ucast (drop_bit 64 w)) (ucast w)"

definition u_div :: "uint128 \<Rightarrow> uint128 \<Rightarrow> uint128 result" where
  "u_div a b =
     (let other = abs128 b
      in if other = 0 then Inl DivideByZero else Inr (rep128 (abs128 a div other)))"

subsection \<open>The pair represents its value\<close>

lemma two_digits_less:
  fixes M :: int
  assumes "0 \<le> l" "l < M" "0 \<le> l'" "l' < M"
  shows "h * M + l < h' * M + l' \<longleftrightarrow> (if h = h' then l < l' else h < h')"
proof -
  have step: "a * M + x < b * M + y" if "a < b" "x < M" "0 \<le> y" for a b x y
  proof -
    have "a * M + x < (a + 1) * M" using that(2) by (simp add: algebra_simps)
    also have "\<dots> \<le> b * M" using that(1) assms(1,2) by (intro mult_right_mono) simp_all
    finally show ?thesis using that(3) by simp
  qed
  show ?thesis
    using step [of h h' l l'] step [of h' h l' l] assms by (cases h h' rule: linorder_cases) auto
qed

lemma two_digits_bound:
  fixes M :: int
  assumes "0 \<le> l" "l < M" "h < M"
  shows "h * M + l < M * M"
  using two_digits_less [of l M 0 h M] assms by simp

lemma uint_64: "0 \<le> uint (w :: 64 word)" "uint (w :: 64 word) < 2 ^ 64"
  using uint_lt2p [of w] by simp_all

lemma two_128: "(2 ^ 128 :: int) = 2 ^ 64 * 2 ^ 64"
  by simp

lemma of_int_128: "(of_int x = (of_int y :: 128 word)) \<longleftrightarrow> x mod 2 ^ 128 = y mod 2 ^ 128"
proof -
  have l: "LENGTH(128) = 128" by simp
  show ?thesis unfolding word_of_int_eq_iff take_bit_eq_mod l ..
qed

lemma abs128_int: "abs128 a = of_int (uint (hi a) * 2 ^ 64 + uint (lo a))"
  by (simp only: abs128_def ucast_eq of_int_add of_int_mult of_int_power of_int_numeral)

lemma uint_abs128: "uint (abs128 a) = uint (hi a) * 2 ^ 64 + uint (lo a)"
proof -
  have b: "uint (hi a) * 2 ^ 64 + uint (lo a) < 2 ^ 128"
    using two_digits_bound [OF uint_64(1) [of "lo a"] uint_64(2) uint_64(2) [of "hi a"]] unfolding two_128 .
  have n: "0 \<le> uint (hi a) * 2 ^ 64 + uint (lo a)"
    by (intro add_nonneg_nonneg mult_nonneg_nonneg) simp_all
  have l: "LENGTH(128) = 128" by simp
  show ?thesis unfolding abs128_int uint_word_of_int l
    by (rule mod_pos_pos_trivial [OF n b])
qed

lemma bit_abs128: "bit (abs128 a) n \<longleftrightarrow> (if n < 64 then bit (lo a) n else bit (hi a) (n - 64))"
proof -
  have "abs128 a = push_bit 64 (ucast (hi a)) OR ucast (lo a)"
    unfolding abs128_def push_bit_eq_mult [symmetric]
    by (rule disjunctive_add) (auto simp: bit_simps dest: bit_imp_le_length)
  then show ?thesis by (auto simp: bit_simps not_less dest: bit_imp_le_length)
qed

lemma rep128_abs128 [simp]: "rep128 (abs128 a) = a"
proof -
  have "hi (rep128 (abs128 a)) = hi a" "lo (rep128 (abs128 a)) = lo a"
    by (auto simp: rep128_def mk128_def bit_abs128 bit_simps intro!: bit_word_eqI)
  then show ?thesis by simp
qed

lemma abs128_rep128 [simp]: "abs128 (rep128 w) = w"
  by (rule bit_word_eqI) (auto simp: bit_abs128 rep128_def mk128_def bit_simps)

lemma abs128_inj: "abs128 a = abs128 b \<longleftrightarrow> a = b"
  by (metis rep128_abs128)

lemma fields_mk128 [simp]: "hi (mk128 h l) = h" "lo (mk128 h l) = l"
  by (simp_all add: mk128_def)

lemma u_eq_abs [simp]: "u_eq a b \<longleftrightarrow> abs128 a = abs128 b"
  by (auto simp: u_eq_def abs128_inj)

lemma u_less_abs [simp]: "u_less a b \<longleftrightarrow> abs128 a < abs128 b"
  unfolding u_less_def word_less_def uint_abs128 word_uint_eq_iff
    two_digits_less [OF uint_64 uint_64] ..

lemma u_ge_abs [simp]: "u_ge a b \<longleftrightarrow> abs128 b \<le> abs128 a"
  by (auto simp: u_ge_def)

lemma abs_of_u64 [simp]: "abs128 (of_u64 l) = ucast l"
  by (simp add: abs128_def of_u64_def)

lemma high_word: "(ucast (x :: 64 word) :: 128 word) * 2 ^ 64 = of_int (uint x * 2 ^ 64)"
  by (simp only: ucast_eq of_int_mult of_int_power of_int_numeral)

lemma mod_shift_64: "((x mod 2 ^ 64) * 2 ^ 64) mod (2 ^ 128 :: int) = (x * 2 ^ 64) mod 2 ^ 128"
  unfolding two_128 mod_mult_mult2 mod_mod_trivial ..

lemma uint_add_64: "uint (x + y :: 64 word) = (uint x + uint y) mod 2 ^ 64"
proof -
  have l: "LENGTH(64) = 64" by simp
  show ?thesis unfolding uint_word_ariths l ..
qed

lemma high_add: "(ucast (x + y) :: 128 word) * 2 ^ 64 = ucast x * 2 ^ 64 + ucast (y :: 64 word) * 2 ^ 64"
proof -
  have "(of_int (uint (x + y) * 2 ^ 64) :: 128 word) = of_int ((uint x + uint y) * 2 ^ 64)"
    unfolding of_int_128 uint_add_64 by (rule mod_shift_64)
  then show ?thesis unfolding high_word by (simp only: distrib_right of_int_add)
qed

lemma carry_int:
  fixes M :: int
  assumes "0 \<le> x" "x < M" "0 \<le> y" "y < M"
  shows "(x + y) mod M + (if (x + y) mod M < x then M else 0) = x + y"
proof (cases "x + y < M")
  case True
  have e: "(x + y) mod M = x + y"
    by (rule mod_pos_pos_trivial) (use assms True in linarith)+
  have "\<not> x + y < x" using assms(3) by simp
  then show ?thesis unfolding e by simp
next
  case False
  have "(x + y - M) mod M = x + y - M"
    by (rule mod_pos_pos_trivial) (use assms False in linarith)+
  then have e: "(x + y) mod M = x + y - M" by (simp only: minus_mod_self2)
  have "x + y - M < x" using assms(4) by linarith
  then show ?thesis unfolding e by simp
qed

lemma low_add:
  "(ucast (x + y) :: 128 word) + (if x + y < x then 2 ^ 64 else 0) = ucast x + ucast (y :: 64 word)"
proof -
  have "uint (x + y) + (if uint (x + y) < uint x then 2 ^ 64 else 0) = uint x + uint y"
    unfolding uint_add_64 by (rule carry_int [OF uint_64 uint_64])
  then have "(of_int (uint (x + y)) + of_int (if uint (x + y) < uint x then 2 ^ 64 else 0) :: 128 word)
      = of_int (uint x) + of_int (uint y)"
    by (metis of_int_add)
  then show ?thesis by (simp only: word_less_def ucast_eq if_distrib [of of_int] of_int_0 of_int_power of_int_numeral)
qed

lemma abs_add [simp]: "abs128 (u_add a b) = abs128 a + abs128 b"
proof -
  let ?c = "if lo a + lo b < lo a then 1 else 0 :: 64 word"
  have c: "(ucast ?c :: 128 word) * 2 ^ 64 = (if lo a + lo b < lo a then 2 ^ 64 else 0)"
    by (simp only: if_distrib [of ucast] ucast_1 ucast_0) simp
  have "abs128 (u_add a b) = ucast (hi a) * 2 ^ 64 + (ucast (hi b) * 2 ^ 64 + ucast ?c * 2 ^ 64) + ucast (lo a + lo b)"
    by (simp only: abs128_def u_add_def Let_def fields_mk128 high_add)
  also have "\<dots> = ucast (hi a) * 2 ^ 64 + ucast (hi b) * 2 ^ 64
      + (ucast (lo a + lo b) + (if lo a + lo b < lo a then 2 ^ 64 else 0))"
    unfolding c by (simp only: ac_simps)
  also have "\<dots> = abs128 a + abs128 b"
    unfolding low_add abs128_def by (simp only: ac_simps)
  finally show ?thesis .
qed

lemma abs_not [simp]: "abs128 (u_not a) = NOT (abs128 a)"
  by (rule bit_word_eqI) (auto simp: bit_abs128 u_not_def bit_simps)

lemma abs_bitwise [simp]:
  "abs128 (u_or a b) = abs128 a OR abs128 b"
  "abs128 (u_and a b) = abs128 a AND abs128 b"
  "abs128 (u_xor a b) = abs128 a XOR abs128 b"
  by (rule bit_word_eqI; auto simp: bit_abs128 u_or_def u_and_def u_xor_def bit_simps)+

lemma u_incr_add: "u_incr a = u_add a (of_u64 1)"
proof -
  have "lo a + 1 < lo a \<longleftrightarrow> lo a + 1 = 0"
  proof (cases "lo a + 1 = 0")
    case True
    then have "lo a = - 1" by (simp add: eq_neg_iff_add_eq_0)
    then show ?thesis by (simp add: word_gt_0)
  next
    case False
    then have "unat (1 + lo a) = Suc (unat (lo a))" by (intro unatSuc) (simp add: add.commute)
    then show ?thesis using False by (simp add: word_less_nat_alt add.commute)
  qed
  then show ?thesis by (simp add: u_incr_def u_add_def of_u64_def Let_def)
qed

lemma abs_incr [simp]: "abs128 (u_incr a) = abs128 a + 1"
  by (simp add: u_incr_add)

lemma abs_neg [simp]: "abs128 (u_neg a) = - abs128 a"
proof -
  have "u_neg a = u_incr (u_not a)" by (simp add: u_neg_def u_not_def)
  then show ?thesis by (simp add: not_eq_complement)
qed

lemma abs_sub [simp]: "abs128 (u_sub a b) = abs128 a - abs128 b"
  by (simp add: u_sub_def)

lemma u_decr_incr: "u_incr (u_decr a) = a"
  by (auto simp: u_decr_def u_incr_def Let_def)

lemma abs_decr [simp]: "abs128 (u_decr a) = abs128 a - 1"
proof -
  have "abs128 (u_decr a) + 1 = abs128 a" by (simp only: abs_incr [symmetric] u_decr_incr)
  then show ?thesis by (simp add: eq_diff_eq)
qed

lemma abs_of_i64 [simp]: "abs128 (of_i64 l) = scast l"
proof (rule bit_word_eqI)
  fix n
  assume "n < LENGTH(128)"
  moreover have "sint l < 0 \<longleftrightarrow> bit l 63" using bit_last_iff [of l] by simp
  ultimately show "bit (abs128 (of_i64 l)) n = bit (scast l :: 128 word) n"
    by (auto simp: bit_abs128 of_i64_def bit_simps min_def not_less le_less)
qed

lemma abs_shl [simp]: "abs128 (u_shl a s) = push_bit s (abs128 a)"
proof (rule bit_word_eqI)
  fix n
  assume n: "n < LENGTH(128)"
  consider "128 \<le> s" | "s < 64" "s = 0" | "0 < s" "s < 64" | "s = 64" | "64 < s" "s < 128" by linarith
  then show "bit (abs128 (u_shl a s)) n = bit (push_bit s (abs128 a)) n"
  proof cases
    case 1
    then show ?thesis using n by (simp add: u_shl_def bit_abs128 bit_simps)
  next
    case 2
    then show ?thesis by (simp add: u_shl_def)
  next
    case 3
    then show ?thesis
      using n by (auto simp: u_shl_def Let_def bit_abs128 bit_simps not_less add.commute [of 64 s] dest: bit_imp_le_length)
  next
    case 4
    then show ?thesis using n by (auto simp: u_shl_def Let_def bit_abs128 bit_simps not_less)
  next
    case 5
    then show ?thesis
      using n by (auto simp: u_shl_def Let_def bit_abs128 bit_simps not_less dest: bit_imp_le_length)
  qed
qed

lemma abs_shr [simp]: "abs128 (u_shr a s) = drop_bit s (abs128 a)"
proof (rule bit_word_eqI)
  fix n
  assume n: "n < LENGTH(128)"
  consider "128 \<le> s" | "s = 0" | "0 < s" "s < 64" | "s = 64" | "64 < s" "s < 128" by linarith
  then show "bit (abs128 (u_shr a s)) n = bit (drop_bit s (abs128 a)) n"
  proof cases
    case 1
    then show ?thesis by (auto simp: u_shr_def bit_abs128 bit_simps dest: bit_imp_le_length)
  next
    case 2
    then show ?thesis by (simp add: u_shr_def)
  next
    case 3
    have "n + s - 64 = n - (64 - s)" using 3 by simp
    then show ?thesis
      using 3 n by (auto simp: u_shr_def Let_def bit_abs128 bit_simps not_less add.commute [of s] dest: bit_imp_le_length)
  next
    case 4
    then show ?thesis using n by (auto simp: u_shr_def Let_def bit_abs128 bit_simps not_less dest: bit_imp_le_length)
  next
    case 5
    then have "n + s - 64 = n + (s - 64)" "s - 64 + n = n + (s - 64)" by simp_all
    then show ?thesis
      using n 5 by (auto simp: u_shr_def Let_def bit_abs128 bit_simps not_less add.commute [of s] dest: bit_imp_le_length)
  qed
qed

subsection \<open>Products\<close>

lemma low_limbs:
  "(ucast (w :: 64 word) :: 128 word) = ucast (take_bit 32 w) + ucast (drop_bit 32 w) * 2 ^ 32"
proof -
  have "(ucast w :: 128 word) = ucast (take_bit 32 w) OR push_bit 32 (ucast (drop_bit 32 w))"
    by (rule bit_word_eqI) (auto simp: bit_simps not_less dest: bit_imp_le_length)
  also have "\<dots> = ucast (take_bit 32 w) + push_bit 32 (ucast (drop_bit 32 w))"
    by (rule disjunctive_add [symmetric]) (auto simp: bit_simps)
  finally show ?thesis by (simp only: push_bit_eq_mult)
qed

text \<open>A product of two 32-bit limbs does not wrap in \<open>uint64_t\<close>.\<close>

lemma limb_product:
  assumes "uint x < 2 ^ 32" "uint y < 2 ^ 32"
  shows "(ucast (x * y) :: 128 word) = ucast x * ucast (y :: 64 word)"
proof -
  have n: "0 \<le> uint x * uint y" by simp
  have "uint x * uint y < 2 ^ 32 * 2 ^ 32"
    using assms by (intro mult_strict_mono) simp_all
  then have b: "uint x * uint y < 2 ^ 64" by simp
  have l: "LENGTH(64) = 64" by simp
  have "uint (x * y) = (uint x * uint y) mod 2 ^ 64" unfolding uint_word_ariths l ..
  also have "\<dots> = uint x * uint y" by (rule mod_pos_pos_trivial [OF n b])
  finally show ?thesis by (simp only: ucast_eq of_int_mult)
qed

lemma div_digit_less:
  fixes M :: int
  assumes "x < M * M" "0 < M"
  shows "x div M < M"
proof (rule ccontr)
  assume "\<not> x div M < M"
  then have "M * M \<le> x div M * M" using assms(2) by (intro mult_right_mono) simp_all
  also have "\<dots> \<le> x" using assms(2) by (simp add: minus_mod_eq_div_mult [symmetric])
  finally show False using assms(1) by simp
qed

lemma limb_bounds:
  "uint (take_bit 32 (w :: 64 word)) < 2 ^ 32" "uint (drop_bit 32 (w :: 64 word)) < 2 ^ 32"
proof -
  show "uint (take_bit 32 w) < 2 ^ 32"
    unfolding unsigned_take_bit_eq by (rule take_bit_int_less_exp)
  have t: "take_bit 64 (uint w) = uint w" by (rule take_bit_int_eq_self [OF uint_64])
  have l: "LENGTH(64) = 64" by simp
  have "uint (drop_bit 32 w) = drop_bit 32 (uint w)" unfolding unsigned_drop_bit_eq l t ..
  then have "uint (drop_bit 32 w) = uint w div 2 ^ 32" by (simp only: drop_bit_eq_div)
  also have "\<dots> < 2 ^ 32" by (rule div_digit_less) (use uint_64(2) [of w] in simp_all)
  finally show "uint (drop_bit 32 w) < 2 ^ 32" .
qed

lemma abs_limbs:
  assumes "limbs a = (a0, a1, a2, a3)"
  shows "abs128 a = ucast a0 + ucast a1 * 2 ^ 32 + ucast a2 * 2 ^ 64 + ucast a3 * 2 ^ 96"
    "uint a0 < 2 ^ 32" "uint a1 < 2 ^ 32" "uint a2 < 2 ^ 32" "uint a3 < 2 ^ 32"
proof -
  from assms have d: "a0 = take_bit 32 (lo a)" "a1 = drop_bit 32 (lo a)" "a2 = take_bit 32 (hi a)" "a3 = drop_bit 32 (hi a)"
    by (simp_all add: limbs_def)
  show "abs128 a = ucast a0 + ucast a1 * 2 ^ 32 + ucast a2 * 2 ^ 64 + ucast a3 * 2 ^ 96"
    unfolding abs128_def d low_limbs [of "lo a"] low_limbs [of "hi a"]
    by (simp add: algebra_simps flip: power_add)
  show "uint a0 < 2 ^ 32" "uint a1 < 2 ^ 32" "uint a2 < 2 ^ 32" "uint a3 < 2 ^ 32"
    unfolding d by (rule limb_bounds)+
qed

text \<open>In a ring where \<open>c^4 = 0\<close> the ten products of the code are all of the product.\<close>

lemma limb_ring:
  fixes a0 a1 a2 a3 b0 b1 b2 b3 c :: "'a :: comm_ring_1"
  assumes "c ^ 4 = 0"
  shows "(a0 + a1 * c + a2 * c ^ 2 + a3 * c ^ 3) * (b0 + b1 * c + b2 * c ^ 2 + b3 * c ^ 3)
    = (((a3 * b0 + a2 * b1 + a1 * b2 + a0 * b3) * c + a2 * b0 + a1 * b1 + a0 * b2) * c + a1 * b0 + a0 * b1) * c + a0 * b0"
proof -
  have "(a0 + a1 * c + a2 * c ^ 2 + a3 * c ^ 3) * (b0 + b1 * c + b2 * c ^ 2 + b3 * c ^ 3)
    = (((a3 * b0 + a2 * b1 + a1 * b2 + a0 * b3) * c + a2 * b0 + a1 * b1 + a0 * b2) * c + a1 * b0 + a0 * b1) * c + a0 * b0
      + c ^ 4 * (a3 * b1 + a2 * b2 + a1 * b3 + (a3 * b2 + a2 * b3) * c + a3 * b3 * c ^ 2)"
    by (simp add: algebra_simps power2_eq_square power3_eq_cube power4_eq_xxxx)
  then show ?thesis by (simp add: assms)
qed

lemma abs_mul [simp]: "abs128 (u_mul a b) = abs128 a * abs128 b"
proof -
  obtain a0 a1 a2 a3 where a: "limbs a = (a0, a1, a2, a3)" by (cases "limbs a")
  obtain b0 b1 b2 b3 where b: "limbs b = (b0, b1, b2, b3)" by (cases "limbs b")
  note A = abs_limbs [OF a] note B = abs_limbs [OF b]
  define c :: "128 word" where "c = 2 ^ 32"
  have c4: "c ^ 4 = 0" by (simp add: c_def)
  have c23: "2 ^ 64 = c ^ 2" "2 ^ 96 = c ^ 3" by (simp_all add: c_def)
  have m: "abs128 (mk128 0 (a3 * b0)) = ucast (a3 * b0)" by (simp add: abs128_def)
  have p: "push_bit 32 w = w * c" for w :: "128 word" by (simp only: push_bit_eq_mult c_def)
  have "abs128 (u_mul a b) =
    (((ucast a3 * ucast b0 + ucast a2 * ucast b1 + ucast a1 * ucast b2 + ucast a0 * ucast b3) * c
      + ucast a2 * ucast b0 + ucast a1 * ucast b1 + ucast a0 * ucast b2) * c
      + ucast a1 * ucast b0 + ucast a0 * ucast b1) * c + ucast a0 * ucast b0"
    unfolding u_mul_def a b prod.case Let_def abs_add abs_shl abs_of_u64 m p
    by (simp only: limb_product A B)
  also have "\<dots> = abs128 a * abs128 b"
    unfolding A(1) B(1) c23 c_def [symmetric] by (rule limb_ring [OF c4, symmetric])
  finally show ?thesis .
qed

subsection \<open>The full product\<close>

lemma uint_abs_of_u64: "uint (abs128 (of_u64 w)) = uint w"
  unfolding uint_abs128 by (simp add: of_u64_def)

lemma uint_mult_128:
  assumes "uint v * uint w < 2 ^ 128"
  shows "uint (v * w :: 128 word) = uint v * uint w"
proof -
  have l: "LENGTH(128) = 128" by simp
  have n: "0 \<le> uint v * uint w" by simp
  show ?thesis unfolding uint_word_ariths l by (rule mod_pos_pos_trivial [OF n assms])
qed

lemma uint_plus_128:
  assumes "uint v + uint w < 2 ^ 128"
  shows "uint (v + w :: 128 word) = uint v + uint w"
proof -
  have l: "LENGTH(128) = 128" by simp
  have n: "0 \<le> uint v + uint w" by simp
  show ?thesis unfolding uint_word_ariths l by (rule mod_pos_pos_trivial [OF n assms])
qed

lemma limbs_product_exact:
  "uint (hi (u_mul (of_u64 x) (of_u64 y))) * 2 ^ 64 + uint (lo (u_mul (of_u64 x) (of_u64 y))) = uint x * uint y"
proof -
  have "uint x * uint y < 2 ^ 64 * 2 ^ 64"
    using uint_64 by (intro mult_strict_mono') simp_all
  then have "uint (abs128 (of_u64 x)) * uint (abs128 (of_u64 y)) < 2 ^ 128"
    by (simp only: uint_abs_of_u64 two_128)
  then show ?thesis
    unfolding uint_abs128 [symmetric] abs_mul by (simp only: uint_mult_128 uint_abs_of_u64)
qed

lemma three_words:
  "uint (abs128 (u_add (u_add (of_u64 x) (of_u64 y)) (of_u64 z))) = uint x + uint y + uint z"
proof -
  have b: "uint x < 2 ^ 64" "uint y < 2 ^ 64" "uint z < 2 ^ 64" by (rule uint_64)+
  have 1: "uint (abs128 (of_u64 x)) + uint (abs128 (of_u64 y)) < 2 ^ 128"
    unfolding uint_abs_of_u64 using b by simp
  have 2: "uint (abs128 (of_u64 x) + abs128 (of_u64 y)) + uint (abs128 (of_u64 z)) < 2 ^ 128"
    unfolding uint_plus_128 [OF 1] uint_abs_of_u64 using b by simp
  show ?thesis
    by (simp only: abs_add uint_plus_128 [OF 2] uint_plus_128 [OF 1] uint_abs_of_u64)
qed

lemma four_words:
  "uint (abs128 (u_add (u_add (u_add (of_u64 w) (of_u64 x)) (of_u64 y)) (of_u64 z))) = uint w + uint x + uint y + uint z"
proof -
  have b: "uint w < 2 ^ 64" "uint x < 2 ^ 64" "uint y < 2 ^ 64" "uint z < 2 ^ 64" by (rule uint_64)+
  have "uint (abs128 (u_add (u_add (of_u64 w) (of_u64 x)) (of_u64 y))) + uint (abs128 (of_u64 z)) < 2 ^ 128"
    unfolding three_words uint_abs_of_u64 using b by simp
  from uint_plus_128 [OF this] show ?thesis
    by (simp only: abs_add [of _ "of_u64 z"] three_words uint_abs_of_u64)
qed

lemma top_digit_less:
  fixes M :: int
  assumes "y * M ^ 3 + a * M ^ 2 + b * M + c < M ^ 4" "0 < M" "0 \<le> a" "0 \<le> b" "0 \<le> c"
  shows "y < M"
proof -
  have "0 \<le> a * M ^ 2" "0 \<le> b * M" using assms by simp_all
  then have "y * M ^ 3 < M ^ 4" using assms(1,5) by linarith
  also have "M ^ 4 = M * M ^ 3" by (simp add: eval_nat_numeral)
  finally show ?thesis using assms(2) by (simp only: mult_less_cancel_right) auto
qed

lemma full_product_exact:
  assumes "full_product a b = (rh, rl)"
  shows "uint (abs128 rh) * 2 ^ 128 + uint (abs128 rl) = uint (abs128 a) * uint (abs128 b)"
proof -
  define s r q p where "s = u_mul (of_u64 (lo a)) (of_u64 (lo b))" and "r = u_mul (of_u64 (hi a)) (of_u64 (lo b))"
    and "q = u_mul (of_u64 (lo a)) (of_u64 (hi b))" and "p = u_mul (of_u64 (hi a)) (of_u64 (hi b))"
  define acc where "acc = u_add (u_add (of_u64 (hi s)) (of_u64 (lo q))) (of_u64 (lo r))"
  define acc' where "acc' = u_add (u_add (u_add (of_u64 (hi acc)) (of_u64 (hi q))) (of_u64 (hi r))) (of_u64 (lo p))"
  have rh: "rh = mk128 (hi acc' + hi p) (lo acc')" and rl: "rl = mk128 (lo acc) (lo s)"
    using assms by (simp_all add: full_product_def Let_def s_def r_def q_def p_def acc_def acc'_def)
  let ?M = "2 ^ 64 :: int"
  have S: "uint (hi s) * ?M + uint (lo s) = uint (lo a) * uint (lo b)"
    and R: "uint (hi r) * ?M + uint (lo r) = uint (hi a) * uint (lo b)"
    and Q: "uint (hi q) * ?M + uint (lo q) = uint (lo a) * uint (hi b)"
    and P: "uint (hi p) * ?M + uint (lo p) = uint (hi a) * uint (hi b)"
    unfolding s_def r_def q_def p_def by (rule limbs_product_exact)+
  have A: "uint (hi acc) * ?M + uint (lo acc) = uint (hi s) + uint (lo q) + uint (lo r)"
    unfolding uint_abs128 [symmetric] acc_def by (rule three_words)
  have A': "uint (hi acc') * ?M + uint (lo acc') = uint (hi acc) + uint (hi q) + uint (hi r) + uint (lo p)"
    unfolding uint_abs128 [symmetric] acc'_def by (rule four_words)
  let ?y3 = "uint (hi acc') + uint (hi p)"
  have total: "?y3 * ?M ^ 3 + uint (lo acc') * ?M ^ 2 + uint (lo acc) * ?M + uint (lo s)
      = (uint (hi a) * ?M + uint (lo a)) * (uint (hi b) * ?M + uint (lo b))"
    using S R Q P A A' by algebra
  have "uint (abs128 a) < 2 ^ 128" "uint (abs128 b) < 2 ^ 128"
    using uint_lt2p [of "abs128 a"] uint_lt2p [of "abs128 b"] by simp_all
  then have "uint (abs128 a) * uint (abs128 b) < 2 ^ 128 * 2 ^ 128"
    by (intro mult_strict_mono') simp_all
  then have "?y3 * ?M ^ 3 + uint (lo acc') * ?M ^ 2 + uint (lo acc) * ?M + uint (lo s) < ?M ^ 4"
    unfolding total uint_abs128 by simp
  then have "?y3 < ?M"
    by (rule top_digit_less) simp_all
  moreover have "0 \<le> ?y3" by simp
  ultimately have "uint (hi acc' + hi p) = ?y3"
    unfolding uint_add_64 by (intro mod_pos_pos_trivial)
  then have "uint (abs128 rh) * ?M ^ 2 + uint (abs128 rl)
      = ?y3 * ?M ^ 3 + uint (lo acc') * ?M ^ 2 + uint (lo acc) * ?M + uint (lo s)"
    unfolding uint_abs128 rh rl fields_mk128 by algebra
  then show ?thesis unfolding total uint_abs128 [symmetric] by simp
qed


subsection \<open>Shift-and-subtract division\<close>

text \<open>\<open>divide\<close> of \<open>uint128.cpp\<close> (used by \<open>%=\<close> and by the printer): the divisor is shifted up while it
  is not above the numerator, then down again, one quotient bit a step.  The first loop would not end
  for a zero divisor, which the code rules out before it.\<close>

partial_function (option) divide_up :: "uint128 \<Rightarrow> uint128 \<Rightarrow> uint128 \<Rightarrow> (uint128 \<times> uint128) option" where
  "divide_up n d x =
     (if u_ge n d \<and> u_eq (u_and (u_shr d 127) (of_u64 1)) (of_u64 0)
      then divide_up n (u_shl d 1) (u_shl x 1)
      else Some (d, x))"

function divide_down :: "uint128 \<Rightarrow> uint128 \<Rightarrow> uint128 \<Rightarrow> uint128 \<Rightarrow> uint128 \<times> uint128" where
  "divide_down n d x answer =
     (if u_eq x (of_u64 0) then (answer, n)
      else if u_ge n d then divide_down (u_sub n d) (u_shr d 1) (u_shr x 1) (u_or answer x)
      else divide_down n (u_shr d 1) (u_shr x 1) answer)"
  by pat_completeness auto

lemma uint_drop1: "uint (drop_bit 1 (w :: 128 word)) = uint w div 2"
proof -
  have l: "LENGTH(128) = 128" by simp
  have "uint w < 2 ^ 128" using uint_lt2p [of w] by simp
  then have t: "take_bit 128 (uint w) = uint w" by (intro take_bit_int_eq_self) simp_all
  show ?thesis unfolding unsigned_drop_bit_eq l t by (simp add: drop_bit_Suc)
qed

lemma unat_drop_less: "w \<noteq> 0 \<Longrightarrow> unat (drop_bit 1 (w :: 128 word)) < unat w"
proof -
  assume "w \<noteq> 0"
  then have "uint w \<noteq> 0" unfolding uint_0_iff .
  then have "uint (drop_bit 1 w) < uint w" unfolding uint_drop1 using uint_ge_0 [of w] by linarith
  then have "drop_bit 1 w < w" unfolding word_less_def .
  then show ?thesis by (rule unat_mono)
qed

termination divide_down
  by (relation "measure (\<lambda>(n, d, x, answer). unat (abs128 x))") (simp_all add: unat_drop_less [unfolded One_nat_def])

declare divide_down.simps [simp del]

definition divide :: "uint128 \<Rightarrow> uint128 \<Rightarrow> (uint128 \<times> uint128) result option" where
  "divide n d =
     (if u_eq d (of_u64 0) then Some (Inl DivideByZero)
      else (case divide_up n d (of_u64 1) of
              None \<Rightarrow> None
            | Some (d', x) \<Rightarrow> Some (Inr (divide_down n d' x (of_u64 0)))))"

definition u_mod :: "uint128 \<Rightarrow> uint128 \<Rightarrow> uint128 result option" where
  "u_mod a b = map_option (map_sum (\<lambda>e. e) snd) (divide a b)"

lemma even_quotient:
  fixes M :: int
  assumes "0 \<le> x" "x < 2 * M"
  shows "even (x div M) \<longleftrightarrow> x < M"
proof (cases "x < M")
  case True
  then show ?thesis using assms by (simp add: div_pos_pos_trivial)
next
  case False
  have "(x - M) div M = 0" using assms False by (intro div_pos_pos_trivial) simp_all
  moreover have "(x - M + 1 * M) div M = 1 + (x - M) div M" using assms by (intro div_mult_self1) simp
  ultimately have "x div M = 1" by simp
  then show ?thesis using False by simp
qed

lemma top_bit:
  "drop_bit 127 (w :: 128 word) AND 1 = 0 \<longleftrightarrow> uint w < 2 ^ 127"
proof -
  have b: "0 \<le> uint w" "uint w < 2 * 2 ^ 127" using uint_lt2p [of w] by simp_all
  have "drop_bit 127 w AND 1 = 0 \<longleftrightarrow> \<not> bit w 127"
  proof -
    have "bit w 127 \<longleftrightarrow> bit (drop_bit 127 w) 0" by (simp only: bit_drop_bit_eq comp_def) simp
    then show ?thesis by (simp only: and_one_eq bit_0 even_iff_mod_2_eq_zero not_not)
  qed
  also have "\<dots> \<longleftrightarrow> even (uint w div 2 ^ 127)"
  proof -
    have "bit w 127 \<longleftrightarrow> bit (uint w) 127" by (simp add: bit_uint_iff)
    then show ?thesis by (simp only: bit_iff_odd [of "uint w"] not_not)
  qed
  also have "\<dots> \<longleftrightarrow> uint w < 2 ^ 127"
    by (rule even_quotient [OF b])
  finally show ?thesis .
qed

lemma uint_double:
  assumes "uint w < 2 ^ 127"
  shows "uint (push_bit 1 w :: 128 word) = 2 * uint w"
proof -
  have "uint w * uint (2 :: 128 word) < 2 ^ 128" using assms by simp
  then have "uint (w * 2) = uint w * 2" by (simp only: uint_mult_128) simp
  then show ?thesis by (simp add: push_bit_eq_mult mult.commute)
qed

lemma divide_up_returns:
  assumes "uint (abs128 d) = D * 2 ^ k" "uint (abs128 x) = 2 ^ k" "0 < D"
  shows "\<exists>d' x' j. divide_up n d x = Some (d', x') \<and> uint (abs128 d') = D * 2 ^ j \<and>
    uint (abs128 x') = 2 ^ j \<and> uint (abs128 n) < 2 * (D * 2 ^ j)"
  using assms
proof (induction "128 - k" arbitrary: k d x rule: less_induct)
  case less
  let ?up = "u_ge n d \<and> u_eq (u_and (u_shr d 127) (of_u64 1)) (of_u64 0)"
  have top: "u_eq (u_and (u_shr d 127) (of_u64 1)) (of_u64 0) \<longleftrightarrow> uint (abs128 d) < 2 ^ 127"
    by (simp add: top_bit)
  have N: "uint (abs128 n) < 2 * 2 ^ 127" using uint_lt2p [of "abs128 n"] by simp
  show ?case
  proof (cases ?up)
    case True
    then have small: "D * 2 ^ k < 2 ^ 127" using top less.prems(1) by simp
    have "1 * 2 ^ k \<le> D * 2 ^ k" using less.prems(3) by (intro mult_right_mono) simp_all
    then have "(2::int) ^ k < 2 ^ 127" using small by linarith
    then have k: "k < 127" by (rule power_less_imp_less_exp [rotated]) simp
    have d: "uint (abs128 (u_shl d 1)) = D * 2 ^ Suc k"
      using uint_double [of "abs128 d"] small less.prems(1) by simp
    have x: "uint (abs128 (u_shl x 1)) = 2 ^ Suc k"
      using uint_double [of "abs128 x"] \<open>(2::int) ^ k < 2 ^ 127\<close> less.prems(2) by simp
    have "128 - Suc k < 128 - k" using k by simp
    from less.hyps [OF this d x less.prems(3)] True show ?thesis
      by (subst divide_up.simps) (simp only: if_True conj_absorb)
  next
    case False
    have "uint (abs128 n) < 2 * (D * 2 ^ k)"
    proof (cases "u_ge n d")
      case True
      with False top less.prems(1) have "2 ^ 127 \<le> D * 2 ^ k" by simp
      then show ?thesis using N by linarith
    next
      case n: False
      then have "uint (abs128 n) < D * 2 ^ k" using less.prems(1) by (simp add: word_less_def not_le)
      moreover have "0 \<le> D * 2 ^ k" using less.prems(3) by simp
      ultimately show ?thesis by linarith
    qed
    then show ?thesis
      using less.prems(1,2) False by (subst divide_up.simps) (simp only: if_False, blast)
  qed
qed


lemma uint_or_disjoint:
  assumes "uint v = A * 2 ^ Suc k" "uint (w :: 128 word) = 2 ^ k"
  shows "uint (v OR w) = uint v + uint w"
proof -
  have e: "uint v = push_bit (Suc k) A" "uint w = push_bit k 1"
    using assms by (simp_all add: push_bit_eq_mult)
  have "uint v AND uint w = 0"
    unfolding e by (rule bit_eqI) (auto simp: bit_and_iff bit_push_bit_iff bit_exp_iff bit_0)
  then have "uint v OR uint w = uint v + uint w" using disjunctive_add_eq_or [of "uint v" "uint w"] by simp
  then show ?thesis by (simp add: unsigned_or_eq)
qed

lemma uint_sub_128:
  assumes "w \<le> (v :: 128 word)"
  shows "uint (v - w) = uint v - uint w"
  using assms by (simp add: uint_sub_lem word_le_def)

text \<open>The state of the second loop, before the step for bit \<open>k\<close>.\<close>

definition dividing :: "int \<Rightarrow> int \<Rightarrow> nat \<Rightarrow> uint128 \<Rightarrow> uint128 \<Rightarrow> uint128 \<Rightarrow> uint128 \<Rightarrow> bool" where
  "dividing N D k n d x answer \<longleftrightarrow>
     uint (abs128 d) = D * 2 ^ k \<and> uint (abs128 x) = 2 ^ k \<and> 0 < D \<and>
     uint (abs128 n) < 2 * (D * 2 ^ k) \<and> (\<exists>A. uint (abs128 answer) = A * 2 ^ Suc k) \<and>
     uint (abs128 answer) * D + uint (abs128 n) = N"

definition div_step :: "uint128 \<Rightarrow> uint128 \<Rightarrow> uint128 \<Rightarrow> uint128 \<Rightarrow> uint128 \<times> uint128" where
  "div_step n d x answer = (if u_ge n d then (u_sub n d, u_or answer x) else (n, answer))"

lemma divide_down_step:
  assumes "abs128 x \<noteq> 0" "div_step n d x answer = (n', answer')"
  shows "divide_down n d x answer = divide_down n' (u_shr d 1) (u_shr x 1) answer'"
  using assms by (subst divide_down.simps) (auto simp: div_step_def split: if_splits)

lemma div_step_bit:
  assumes "dividing N D k n d x answer" "div_step n d x answer = (n', answer')"
  shows "uint (abs128 n') < D * 2 ^ k" "\<exists>A. uint (abs128 answer') = A * 2 ^ k"
    "uint (abs128 answer') * D + uint (abs128 n') = N"
proof -
  from assms(1) obtain A where d: "uint (abs128 d) = D * 2 ^ k" and x: "uint (abs128 x) = 2 ^ k"
    and n: "uint (abs128 n) < 2 * (D * 2 ^ k)" and A: "uint (abs128 answer) = A * 2 ^ Suc k"
    and N: "uint (abs128 answer) * D + uint (abs128 n) = N"
    unfolding dividing_def by blast
  have "uint (abs128 n') < D * 2 ^ k \<and> (\<exists>A. uint (abs128 answer') = A * 2 ^ k) \<and>
    uint (abs128 answer') * D + uint (abs128 n') = N"
  proof (cases "abs128 d \<le> abs128 n")
    case True
    then have s: "uint (abs128 n') = uint (abs128 n) - D * 2 ^ k"
      using assms(2) d uint_sub_128 [OF True] by (auto simp: div_step_def)
    have a: "uint (abs128 answer') = A * 2 ^ Suc k + 2 ^ k"
      using assms(2) True uint_or_disjoint [OF A x] A x by (auto simp: div_step_def)
    have "uint (abs128 answer') = (2 * A + 1) * 2 ^ k" unfolding a by (simp add: algebra_simps)
    moreover have "uint (abs128 answer') * D + uint (abs128 n') = N"
      unfolding a s N [symmetric] A by (simp add: algebra_simps)
    ultimately show ?thesis using n unfolding s by auto
  next
    case False
    then have e: "n' = n" "answer' = answer" using assms(2) by (auto simp: div_step_def)
    have "uint (abs128 answer') = (2 * A) * 2 ^ k" unfolding e A by simp
    moreover have "uint (abs128 n') < D * 2 ^ k" using False d unfolding e by (simp add: word_le_def)
    ultimately show ?thesis using N unfolding e by blast
  qed
  then show "uint (abs128 n') < D * 2 ^ k" "\<exists>A. uint (abs128 answer') = A * 2 ^ k"
    "uint (abs128 answer') * D + uint (abs128 n') = N" by blast+
qed

lemma divide_down_correct:
  assumes "dividing N D k n d x answer"
  shows "\<exists>q r. divide_down n d x answer = (q, r) \<and> uint (abs128 q) * D + uint (abs128 r) = N \<and> uint (abs128 r) < D"
  using assms
proof (induction k arbitrary: n d x answer)
  case 0
  obtain n' answer' where st: "div_step n d x answer = (n', answer')" by (cases "div_step n d x answer")
  note b = div_step_bit [OF 0 st]
  have x: "uint (abs128 x) = 1" using 0 by (simp add: dividing_def)
  then have "abs128 x \<noteq> 0" by auto
  moreover have "uint (drop_bit 1 (abs128 x)) = 0" unfolding uint_drop1 x by simp
  then have "drop_bit 1 (abs128 x) = 0" unfolding uint_0_iff .
  moreover have "divide_down n' (u_shr d 1) (u_shr x 1) answer' = (answer', n')" if "drop_bit 1 (abs128 x) = 0"
    using that by (subst divide_down.simps) simp
  ultimately have "divide_down n d x answer = (answer', n')"
    using divide_down_step [OF _ st] by simp
  then show ?case using b by simp
next
  case (Suc k)
  obtain n' answer' where st: "div_step n d x answer = (n', answer')" by (cases "div_step n d x answer")
  note b = div_step_bit [OF Suc.prems st]
  have x: "uint (abs128 x) = 2 ^ Suc k" and d: "uint (abs128 d) = D * 2 ^ Suc k" and D: "0 < D"
    using Suc.prems unfolding dividing_def by blast+
  have "abs128 x \<noteq> 0" using x by auto
  have "uint (abs128 (u_shr x 1)) = 2 ^ k" unfolding abs_shr uint_drop1 x by simp
  moreover have "uint (abs128 (u_shr d 1)) = D * 2 ^ k" unfolding abs_shr uint_drop1 d by simp
  ultimately have "dividing N D k n' (u_shr d 1) (u_shr x 1) answer'"
    using b D by (simp add: dividing_def)
  from Suc.IH [OF this] show ?case unfolding divide_down_step [OF \<open>abs128 x \<noteq> 0\<close> st] .
qed

lemma divide_correct:
  assumes "abs128 b \<noteq> 0"
  shows "\<exists>q r. divide a b = Some (Inr (q, r)) \<and> abs128 q = abs128 a div abs128 b \<and> abs128 r = abs128 a mod abs128 b"
proof -
  let ?N = "uint (abs128 a)" and ?D = "uint (abs128 b)"
  have "?D \<noteq> 0" using assms unfolding uint_0_iff .
  then have D: "0 < ?D" using uint_ge_0 [of "abs128 b"] by linarith
  have "uint (abs128 b) = ?D * 2 ^ 0" "uint (abs128 (of_u64 1)) = 2 ^ 0" by simp_all
  from divide_up_returns [OF this D, of a] obtain d x k where
    up: "divide_up a b (of_u64 1) = Some (d, x)" and st: "uint (abs128 d) = ?D * 2 ^ k"
      "uint (abs128 x) = 2 ^ k" "?N < 2 * (?D * 2 ^ k)"
    by blast
  have "uint (abs128 (of_u64 0)) = 0 * 2 ^ Suc k" by simp
  then have "dividing ?N ?D k a d x (of_u64 0)" unfolding dividing_def using st D by auto
  from divide_down_correct [OF this] obtain q r where
    down: "divide_down a d x (of_u64 0) = (q, r)" and e: "uint (abs128 q) * ?D + uint (abs128 r) = ?N" "uint (abs128 r) < ?D"
    by blast
  have "?N div ?D = uint (abs128 q)" "?N mod ?D = uint (abs128 r)"
    using e D by (simp_all flip: e(1))
  then have "abs128 q = abs128 a div abs128 b" "abs128 r = abs128 a mod abs128 b"
    by (simp_all add: word_uint_eq_iff uint_div uint_mod)
  then show ?thesis using up down assms by (simp add: divide_def)
qed


subsection \<open>Text\<close>

text \<open>\<open>operator std::string\<close>: decimal digits, the last one first, into a buffer of 128 characters with
  room for 127 digits.\<close>

fun print_loop :: "nat \<Rightarrow> uint128 \<Rightarrow> string \<Rightarrow> string result option" where
  "print_loop 0 ii sz = Some (Inr sz)"
| "print_loop (Suc i) ii sz =
     (if u_eq ii (of_u64 0) then Some (Inr sz)
      else (case divide ii (of_u64 10) of
              None \<Rightarrow> None
            | Some (Inl e) \<Rightarrow> Some (Inl e)
            | Some (Inr (quot, remainder)) \<Rightarrow>
                (case to_integer remainder of
                   Inl e \<Rightarrow> Some (Inl e)
                 | Inr d \<Rightarrow>
                     print_loop i quot (''0123456789abcdefghijklmnopqrstuvwxyz'' ! unat d # sz))))"

definition u_to_string :: "uint128 \<Rightarrow> string result option" where
  "u_to_string a = (if u_eq a (of_u64 0) then Some (Inr ''0'') else print_loop 127 a [])"

text \<open>The constructor from a string: a leading \<open>-\<close>, a radix prefix \<open>0\<close> or \<open>0x\<close>, then digits until the
  first character that is none.\<close>

definition char_digit :: "nat \<Rightarrow> char \<Rightarrow> nat option" where
  "char_digit radix ch =
     (let c = of_char ch :: nat;
          digit = (\<lambda>n. if n < radix then Some n else None)
      in if 65 \<le> c \<and> c \<le> 90 then digit (c - 65 + 10)
         else if 97 \<le> c \<and> c \<le> 122 then digit (c - 97 + 10)
         else if 48 \<le> c \<and> c \<le> 57 then digit (c - 48)
         else None)"

fun read_loop :: "nat \<Rightarrow> string \<Rightarrow> uint128 \<Rightarrow> uint128" where
  "read_loop radix [] a = a"
| "read_loop radix (ch # i) a =
     (case char_digit radix ch of
        None \<Rightarrow> a
      | Some n \<Rightarrow> read_loop radix i (u_add (u_mul a (of_u64 (of_nat radix))) (of_u64 (of_nat n))))"

definition u_of_string :: "string \<Rightarrow> uint128" where
  "u_of_string sz =
     (case sz of
        [] \<Rightarrow> of_u64 0
      | c # rest \<Rightarrow>
          (let minus = (c = CHR ''-'');
               i = (if minus then rest else sz);
               a = (case i of
                      [] \<Rightarrow> of_u64 0
                    | d # i1 \<Rightarrow>
                        if d = CHR ''0'' then
                          (case i1 of
                             [] \<Rightarrow> of_u64 0
                           | x # i2 \<Rightarrow> if x = CHR ''x'' then read_loop 16 i2 (of_u64 0) else read_loop 8 i1 (of_u64 0))
                        else read_loop 10 i (of_u64 0))
           in if minus then u_neg a else a))"

lemma digit_table:
  assumes "n < 10"
  shows "''0123456789abcdefghijklmnopqrstuvwxyz'' ! n = (char_of (48 + n) :: char)"
proof -
  have "n \<in> {0, 1, 2, 3, 4, 5, 6, 7, 8, 9}" using assms by auto
  then show ?thesis by (elim insertE; simp add: char_of_def bit_0)
qed

lemma to_integer_small:
  assumes "unat (abs128 r) < 10"
  shows "\<exists>d. to_integer r = Inr d \<and> unat d = unat (abs128 r)"
proof -
  have v: "uint (hi r) * 2 ^ 64 + uint (lo r) < 10"
    unfolding uint_abs128 [symmetric] using assms by (metis unat_eq_nat_uint nat_less_eq_zless of_nat_less_iff uint_nat of_nat_numeral)
  have "uint (hi r) = 0"
  proof (rule ccontr)
    assume "uint (hi r) \<noteq> 0"
    then have "1 \<le> uint (hi r)" using uint_ge_0 [of "hi r"] by linarith
    then have "1 * 2 ^ 64 \<le> uint (hi r) * 2 ^ 64" by (intro mult_right_mono) simp_all
    moreover have "(10::int) \<le> 2 ^ 64" by simp
    ultimately show False using v uint_ge_0 [of "lo r"] by linarith
  qed
  then have h: "hi r = 0" unfolding uint_0_iff .
  then have l: "uint (lo r) = uint (abs128 r)" unfolding uint_abs128 by simp
  then have u: "unat (lo r) = unat (abs128 r)" by (simp only: unat_eq_nat_uint)
  have c: "unat (ucast (lo r) :: 32 word) = unat (lo r)"
    using u assms by (simp add: unsigned_ucast_eq take_bit_nat_eq_self)
  have "unat (ucast (ucast (lo r) :: 32 word) :: 64 word) = unat (lo r)"
    using c u assms by (simp only: unsigned_ucast_eq [of "ucast (lo r) :: 32 word"]) (simp add: take_bit_nat_eq_self)
  then have "ucast (ucast (lo r) :: 32 word) = lo r" by (simp only: word_unat_eq_iff)
  then show ?thesis
    using u h c by (auto simp: to_integer_def Let_def)
qed

lemma divide_unat:
  assumes "abs128 b \<noteq> 0"
  shows "\<exists>q r. divide a b = Some (Inr (q, r)) \<and> unat (abs128 q) = unat (abs128 a) div unat (abs128 b)
    \<and> unat (abs128 r) = unat (abs128 a) mod unat (abs128 b)"
  using divide_correct [OF assms, of a] by (auto simp: unat_div unat_mod)

lemma unat_of_u64_10: "unat (abs128 (of_u64 10)) = 10" "abs128 (of_u64 10) \<noteq> 0"
  by simp_all

lemma decimal_0: "decimal 0 = ''0''"
  by (simp add: decimal.simps char_of_eq_iff)

lemma print_loop_decimal:
  assumes "unat (abs128 a) < 10 ^ i" "abs128 a \<noteq> 0"
  shows "print_loop i a sz = Some (Inr (decimal (unat (abs128 a)) @ sz))"
  using assms
proof (induction i arbitrary: a sz)
  case 0
  then have "unat (abs128 a) = 0" by simp
  then show ?case using 0(2) unfolding unat_0_iff by simp
next
  case (Suc i)
  obtain q r where qr: "divide a (of_u64 10) = Some (Inr (q, r))" "unat (abs128 q) = unat (abs128 a) div 10"
      "unat (abs128 r) = unat (abs128 a) mod 10"
    using divide_unat [OF unat_of_u64_10(2), of a] unfolding unat_of_u64_10 by blast
  have small: "unat (abs128 r) < 10" unfolding qr by simp
  then obtain d where d: "to_integer r = Inr d" "unat d = unat (abs128 r)" using to_integer_small by blast
  let ?c = "char_of (48 + unat (abs128 a) mod 10) :: char"
  have "print_loop (Suc i) a sz = print_loop i q (?c # sz)"
    using Suc.prems(2) qr d digit_table [OF small] by simp
  also have "\<dots> = Some (Inr (decimal (unat (abs128 a)) @ sz))"
  proof (cases "abs128 q = 0")
    case True
    then have "unat (abs128 a) < 10" using qr(2) by simp
    moreover have "print_loop i q (?c # sz) = Some (Inr (?c # sz))" using True by (cases i) simp_all
    ultimately show ?thesis by (simp add: decimal.simps [of "unat (abs128 a)"])
  next
    case False
    then have "\<not> unat (abs128 a) < 10" using qr(2) by (metis div_less unat_0_iff)
    moreover have "unat (abs128 q) < 10 ^ i" using Suc.prems(1) unfolding qr by (simp add: less_mult_imp_div_less)
    ultimately show ?thesis
      using Suc.IH [OF _ False] qr(2) by (simp add: decimal.simps [of "unat (abs128 a)"])
  qed
  finally show ?case .
qed

lemma u_to_string_decimal: "u_to_string a = Some (Inr (decimal (unat (abs128 a))))"
proof (cases "abs128 a = 0")
  case True
  then show ?thesis by (simp add: u_to_string_def decimal_0)
next
  case False
  have "unat (abs128 a) < 2 ^ 128" using unsigned_less [of "abs128 a"] by simp
  also have "(2::nat) ^ 128 \<le> 10 ^ 127" by simp
  finally show ?thesis using print_loop_decimal [OF _ False, of 127 "[]"] False by (simp add: u_to_string_def)
qed

lemma char_digit_10: "is_digit c \<Longrightarrow> char_digit 10 c = Some (of_char c - 48)"
  by (auto simp: char_digit_def is_digit_def Let_def)

lemma read_loop_decimal:
  assumes "list_all is_digit s"
  shows "abs128 (read_loop 10 s a) = of_nat (foldl (\<lambda>v c. v * 10 + (of_char c - 48)) (unat (abs128 a)) s)"
  using assms
proof (induction s arbitrary: a)
  case Nil
  then show ?case by simp
next
  case (Cons c s)
  have step: "(of_nat (foldl (\<lambda>v c. v * 10 + (of_char c - 48)) (unat (of_nat m :: 128 word)) s) :: 128 word)
    = of_nat (foldl (\<lambda>v c. v * 10 + (of_char c - 48)) m s)" for m
  proof (induction s rule: rev_induct)
    case Nil
    then show ?case by simp
  next
    case (snoc x xs)
    then show ?case by simp
  qed
  have d: "of_char c - 48 < (10::nat)" using Cons.prems by (auto simp: is_digit_def)
  then have "abs128 (of_u64 (of_nat (of_char c - 48))) = of_nat (of_char c - 48)"
    by (simp add: unsigned_of_nat take_bit_nat_eq_self)
  then have "abs128 (read_loop 10 (c # s) a)
    = of_nat (foldl (\<lambda>v c. v * 10 + (of_char c - 48)) (unat (abs128 a * 10 + of_nat (of_char c - 48))) s)"
    using Cons.prems Cons.IH by (simp add: char_digit_10)
  also have "abs128 a * 10 + of_nat (of_char c - 48) = of_nat (unat (abs128 a) * 10 + (of_char c - 48))"
    by simp
  finally show ?case unfolding step by simp
qed

lemma decimal_first:
  "n \<noteq> 0 \<Longrightarrow> \<exists>c rest. decimal n = c # rest \<and> c \<noteq> CHR ''0'' \<and> c \<noteq> CHR ''-''"
proof (induction n rule: decimal.induct)
  case (1 n)
  show ?case
  proof (cases "n < 10")
    case True
    then have "n \<in> {1, 2, 3, 4, 5, 6, 7, 8, 9}" using 1 by auto
    then show ?thesis using True by (subst decimal.simps) (elim insertE; simp add: char_of_def)
  next
    case False
    then obtain c rest where "decimal (n div 10) = c # rest \<and> c \<noteq> CHR ''0'' \<and> c \<noteq> CHR ''-''"
      using 1 by (metis div_greater_zero_iff linorder_not_le neq0_conv zero_less_numeral)
    then show ?thesis using False by (subst decimal.simps) simp
  qed
qed

lemma u_of_string_decimal:
  assumes "n < 2 ^ 128"
  shows "abs128 (u_of_string (decimal n)) = of_nat n"
proof (cases "n = 0")
  case True
  then show ?thesis by (simp add: decimal_0 u_of_string_def)
next
  case False
  then obtain c rest where s: "decimal n = c # rest" "c \<noteq> CHR ''0''" "c \<noteq> CHR ''-''" using decimal_first by blast
  then have "u_of_string (decimal n) = read_loop 10 (decimal n) (of_u64 0)"
    by (simp add: u_of_string_def)
  then have "abs128 (u_of_string (decimal n)) = of_nat (decimal_value (decimal n))"
    using read_loop_decimal [OF decimal_digits [of n]] by (simp add: decimal_value_def)
  then show ?thesis by (simp add: decimal_value_decimal)
qed

subsection \<open>The operations against \<open>128 word\<close>\<close>

text \<open>\<open>full_product\<close> loses nothing: its two halves are the 256-bit product of the operands.\<close>

lemma full_product_256:
  "case full_product a b of (high, low) \<Rightarrow>
     uint (abs128 high) * 2 ^ 128 + uint (abs128 low) = uint (abs128 a) * uint (abs128 b)"
  using full_product_exact [of a b] by (cases "full_product a b") simp

lemma divide_eq:
  "divide a b = Some (if abs128 b = 0 then Inl DivideByZero
     else Inr (rep128 (abs128 a div abs128 b), rep128 (abs128 a mod abs128 b)))"
proof (cases "abs128 b = 0")
  case True
  then show ?thesis by (simp add: divide_def)
next
  case False
  from divide_correct [OF this, of a] show ?thesis using False by (auto simp flip: abs128_inj)
qed

text \<open>C14. The pair of words computes like the 128-bit machine integer that it represents: the carry of \<open>+=\<close> and \<open>++\<close>,
  the borrow of \<open>-=\<close> and \<open>--\<close>, two's complement negation, the bitwise operations, the shifts across the word
  boundary (also by 64 and more), the ten limb products of \<open>*=\<close>, \<open>/=\<close> and \<open>%=\<close>, which throw for a zero divisor
  only, the orders, and \<open>full_product\<close>, whose two halves are the whole 256-bit product.  The exception is
  the binary \<open>|\<close>, which gives its right operand; \<open>|=\<close> does combine the bits.\<close>

theorem uint128_arithmetic:
  "abs128 (u_add a b) = abs128 a + abs128 b \<and> abs128 (u_sub a b) = abs128 a - abs128 b \<and>
   abs128 (u_mul a b) = abs128 a * abs128 b \<and> abs128 (u_neg a) = - abs128 a \<and>
   abs128 (u_incr a) = abs128 a + 1 \<and> abs128 (u_decr a) = abs128 a - 1 \<and>
   abs128 (u_not a) = NOT (abs128 a) \<and> abs128 (u_or a b) = abs128 a OR abs128 b \<and>
   abs128 (u_and a b) = abs128 a AND abs128 b \<and> abs128 (u_xor a b) = abs128 a XOR abs128 b \<and>
   abs128 (u_or_friend a b) = abs128 b \<and>
   abs128 (u_shl a s) = push_bit s (abs128 a) \<and> abs128 (u_shr a s) = drop_bit s (abs128 a) \<and>
   (u_less a b \<longleftrightarrow> abs128 a < abs128 b) \<and> (u_eq a b \<longleftrightarrow> a = b) \<and>
   map_sum (\<lambda>e. e) abs128 (u_div a b) = (if abs128 b = 0 then Inl DivideByZero else Inr (abs128 a div abs128 b)) \<and>
   map_option (map_sum (\<lambda>e. e) abs128) (u_mod a b) =
     Some (if abs128 b = 0 then Inl DivideByZero else Inr (abs128 a mod abs128 b)) \<and>
   (case full_product a b of (high, low) \<Rightarrow>
      uint (abs128 high) * 2 ^ 128 + uint (abs128 low) = uint (abs128 a) * uint (abs128 b))"
  using full_product_256 [of a b] by (simp add: abs128_inj u_or_friend_def u_div_def u_mod_def divide_eq)

text \<open>C16. the shift-and-subtract \<open>divide\<close> returns for every pair of operands: it throws for a zero
  divisor, and otherwise gives the quotient and the remainder.\<close>
theorem divide_total:
  "divide a b = Some (if abs128 b = 0 then Inl DivideByZero
     else Inr (rep128 (abs128 a div abs128 b), rep128 (abs128 a mod abs128 b)))"
  by (rule divide_eq)

text \<open>C17. a number written by \<open>operator std::string\<close> is read back by the string constructor, although
  the constructor takes a leading zero for an octal prefix: the printer writes none, and \<open>0\<close> alone reads
  as zero.\<close>
theorem uint128_text_round_trip:
  "map_option (map_sum (\<lambda>e. e) u_of_string) (u_to_string a) = Some (Inr a)"
proof -
  have "abs128 (u_of_string (decimal (unat (abs128 a)))) = abs128 a"
    by (subst u_of_string_decimal) (use unsigned_less [of "abs128 a"] in simp_all)
  then show ?thesis by (simp add: u_to_string_decimal abs128_inj)
qed

text \<open>The binary \<open>operator |\<close> does not combine its operands.\<close>

lemma u_or_friend_drops_left: "u_or_friend (of_u64 2) (of_u64 1) \<noteq> u_or (of_u64 2) (of_u64 1)"
  by (simp add: u_or_friend_def u_or_def of_u64_def mk128_def)

end
