(* ===== verification/Vesting.thy ===== *)
theory Vesting
  imports Uint128 Asset
begin

text \<open>
  Vesting balances (\<open>chain/vesting_balance_object.cpp\<close> and its header): a balance that is released
  by a policy, either linearly over a period with a cliff, or by coin-seconds that accrue up to a cap.
  The coin-seconds are \<open>fc::uint128\<close> values, computed with the operations of \<open>Uint128\<close>.
  Times are seconds (\<open>time_point_sec\<close>), their differences signed.  \<open>assert\<close> is compiled out.
\<close>

record linear_vesting_policy =
  begin_timestamp :: nat
  vesting_cliff_seconds :: nat
  vesting_duration_seconds :: nat
  begin_balance :: share

record cdd_vesting_policy =
  vesting_seconds :: nat
  coin_seconds_earned :: uint128
  start_claim :: nat
  coin_seconds_earned_last_update :: nat

datatype vesting_policy = Linear linear_vesting_policy | Cdd cdd_vesting_policy

record policy_context =
  ctx_balance :: asset
  ctx_now :: nat
  ctx_amount :: asset

record vesting_balance =
  vb_owner :: nat
  vb_balance :: asset
  vb_policy :: vesting_policy

text \<open>Implicit conversions: \<open>int64_t\<close> to \<open>fc::uint128\<close>, and the \<open>uint64_t\<close> of \<open>to_uint64\<close> to a
  \<open>share_type\<close>.\<close>

definition u128_of_int :: "int \<Rightarrow> uint128" where
  "u128_of_int x = of_i64 (of_int x)"

definition share_of_u64 :: "64 word \<Rightarrow> share" where
  "share_of_u64 w = sint w"

definition sum_below_max_shares :: "asset \<Rightarrow> asset \<Rightarrow> bool result" where
  "sum_below_max_shares a b =
     (if amount a \<le> MAX_SHARE_SUPPLY \<and> amount b \<le> MAX_SHARE_SUPPLY
      then bindE (safe_add (amount a) (amount b)) (\<lambda>s. Inr (s \<le> MAX_SHARE_SUPPLY))
      else Inr False)"

subsection \<open>The linear policy\<close>

definition linear_allowed_withdraw :: "linear_vesting_policy \<Rightarrow> policy_context \<Rightarrow> asset result" where
  "linear_allowed_withdraw p ctx =
     (if begin_timestamp p < ctx_now ctx then
        (let elapsed = int (ctx_now ctx) - int (begin_timestamp p)
         in if int (vesting_cliff_seconds p) \<le> elapsed then
              bindE (if elapsed < int (vesting_duration_seconds p)
                     then bindE (u_div (u_mul (u128_of_int (begin_balance p)) (u128_of_int elapsed))
                                  (of_u64 (of_nat (vesting_duration_seconds p))))
                            (\<lambda>q. bindE (to_uint64 q) (\<lambda>v. Inr (share_of_u64 v)))
                     else Inr (begin_balance p))
                (\<lambda>total_vested.
                   bindE (safe_sub (begin_balance p) (amount (ctx_balance ctx)))
                     (\<lambda>withdrawn_already.
                        bindE (safe_sub total_vested withdrawn_already)
                          (\<lambda>allowed. Inr (mk_asset allowed (asset_id (ctx_balance ctx))))))
            else Inr (mk_asset 0 (asset_id (ctx_balance ctx))))
      else Inr (mk_asset 0 (asset_id (ctx_balance ctx))))"

definition linear_on_deposit :: "linear_vesting_policy \<Rightarrow> policy_context \<Rightarrow> linear_vesting_policy" where
  "linear_on_deposit p ctx = p"

definition linear_on_deposit_vested :: "linear_vesting_policy \<Rightarrow> policy_context \<Rightarrow> linear_vesting_policy result" where
  "linear_on_deposit_vested p ctx = Inl OtherThrow"

definition linear_on_withdraw :: "linear_vesting_policy \<Rightarrow> policy_context \<Rightarrow> linear_vesting_policy" where
  "linear_on_withdraw p ctx = p"

definition linear_deposit_allowed :: "linear_vesting_policy \<Rightarrow> policy_context \<Rightarrow> bool result" where
  "linear_deposit_allowed p ctx =
     (if asset_id (ctx_amount ctx) = asset_id (ctx_balance ctx)
      then sum_below_max_shares (ctx_amount ctx) (ctx_balance ctx) else Inr False)"

definition linear_deposit_vested_allowed :: "linear_vesting_policy \<Rightarrow> policy_context \<Rightarrow> bool result" where
  "linear_deposit_vested_allowed p ctx = Inr False"

definition linear_withdraw_allowed :: "linear_vesting_policy \<Rightarrow> policy_context \<Rightarrow> bool result" where
  "linear_withdraw_allowed p ctx =
     (if asset_id (ctx_amount ctx) = asset_id (ctx_balance ctx)
      then bindE (linear_allowed_withdraw p ctx) (asset_le (ctx_amount ctx))
      else Inr False)"

subsection \<open>The coin-seconds policy\<close>

definition cdd_period :: "cdd_vesting_policy \<Rightarrow> nat" where
  "cdd_period p = max (vesting_seconds p) 1"

definition compute_coin_seconds_earned :: "cdd_vesting_policy \<Rightarrow> policy_context \<Rightarrow> uint128" where
  "compute_coin_seconds_earned p ctx =
     (let delta_seconds = int (ctx_now ctx) - int (coin_seconds_earned_last_update p);
          delta_coin_seconds = u_mul (u128_of_int (amount (ctx_balance ctx))) (u128_of_int delta_seconds);
          cap = u_mul (u128_of_int (amount (ctx_balance ctx))) (of_u64 (of_nat (cdd_period p)));
          s = u_add (coin_seconds_earned p) delta_coin_seconds
      in if u_less cap s then cap else s)"

definition update_coin_seconds_earned :: "cdd_vesting_policy \<Rightarrow> policy_context \<Rightarrow> cdd_vesting_policy" where
  "update_coin_seconds_earned p ctx =
     p\<lparr>coin_seconds_earned := compute_coin_seconds_earned p ctx,
       coin_seconds_earned_last_update := ctx_now ctx\<rparr>"

definition cdd_allowed_withdraw :: "cdd_vesting_policy \<Rightarrow> policy_context \<Rightarrow> asset result" where
  "cdd_allowed_withdraw p ctx =
     (if ctx_now ctx \<le> start_claim p then Inr (mk_asset 0 (asset_id (ctx_balance ctx)))
      else bindE (u_div (compute_coin_seconds_earned p ctx) (of_u64 (of_nat (cdd_period p))))
             (\<lambda>q. bindE (to_uint64 q) (\<lambda>v. Inr (mk_asset (share_of_u64 v) (asset_id (ctx_balance ctx))))))"

definition cdd_on_deposit :: "cdd_vesting_policy \<Rightarrow> policy_context \<Rightarrow> cdd_vesting_policy" where
  "cdd_on_deposit p ctx = update_coin_seconds_earned p ctx"

text \<open>The product \<open>ctx.amount.amount.value * std::max(vesting_seconds, 1u)\<close> is taken in \<open>int64_t\<close>: it is
  undefined when it does not fit.\<close>

definition cdd_on_deposit_vested :: "cdd_vesting_policy \<Rightarrow> policy_context \<Rightarrow> cdd_vesting_policy result" where
  "cdd_on_deposit_vested p ctx =
     (let p1 = cdd_on_deposit p ctx; vested = amount (ctx_amount ctx) * int (cdd_period p)
      in if int64_ok vested
         then Inr (p1\<lparr>coin_seconds_earned := u_add (coin_seconds_earned p1) (u128_of_int vested)\<rparr>)
         else Inl UndefinedBehaviour)"

definition cdd_on_withdraw :: "cdd_vesting_policy \<Rightarrow> policy_context \<Rightarrow> cdd_vesting_policy" where
  "cdd_on_withdraw p ctx =
     (let p1 = update_coin_seconds_earned p ctx;
          needed = u_mul (u128_of_int (amount (ctx_amount ctx))) (of_u64 (of_nat (cdd_period p)))
      in p1\<lparr>coin_seconds_earned := u_sub (coin_seconds_earned p1) needed\<rparr>)"

definition cdd_deposit_allowed :: "cdd_vesting_policy \<Rightarrow> policy_context \<Rightarrow> bool result" where
  "cdd_deposit_allowed p ctx =
     (if asset_id (ctx_amount ctx) = asset_id (ctx_balance ctx)
      then sum_below_max_shares (ctx_amount ctx) (ctx_balance ctx) else Inr False)"

definition cdd_deposit_vested_allowed :: "cdd_vesting_policy \<Rightarrow> policy_context \<Rightarrow> bool result" where
  "cdd_deposit_vested_allowed p ctx = cdd_deposit_allowed p ctx"

definition cdd_withdraw_allowed :: "cdd_vesting_policy \<Rightarrow> policy_context \<Rightarrow> bool result" where
  "cdd_withdraw_allowed p ctx = bindE (cdd_allowed_withdraw p ctx) (asset_le (ctx_amount ctx))"

subsection \<open>Vesting balance objects\<close>

definition policy_ctx :: "vesting_balance \<Rightarrow> nat \<Rightarrow> asset \<Rightarrow> policy_context" where
  "policy_ctx vb now amt = \<lparr>ctx_balance = vb_balance vb, ctx_now = now, ctx_amount = amt\<rparr>"

definition is_deposit_allowed :: "vesting_balance \<Rightarrow> nat \<Rightarrow> asset \<Rightarrow> bool result" where
  "is_deposit_allowed vb now amt =
     (case vb_policy vb of Linear p \<Rightarrow> linear_deposit_allowed p (policy_ctx vb now amt)
      | Cdd p \<Rightarrow> cdd_deposit_allowed p (policy_ctx vb now amt))"

definition is_deposit_vested_allowed :: "vesting_balance \<Rightarrow> nat \<Rightarrow> asset \<Rightarrow> bool result" where
  "is_deposit_vested_allowed vb now amt =
     (case vb_policy vb of Linear p \<Rightarrow> linear_deposit_vested_allowed p (policy_ctx vb now amt)
      | Cdd p \<Rightarrow> cdd_deposit_vested_allowed p (policy_ctx vb now amt))"

definition is_withdraw_allowed :: "vesting_balance \<Rightarrow> nat \<Rightarrow> asset \<Rightarrow> bool result" where
  "is_withdraw_allowed vb now amt =
     (case vb_policy vb of Linear p \<Rightarrow> linear_withdraw_allowed p (policy_ctx vb now amt)
      | Cdd p \<Rightarrow> cdd_withdraw_allowed p (policy_ctx vb now amt))"

definition get_allowed_withdraw :: "vesting_balance \<Rightarrow> nat \<Rightarrow> asset result" where
  "get_allowed_withdraw vb now =
     (case vb_policy vb of Linear p \<Rightarrow> linear_allowed_withdraw p (policy_ctx vb now (mk_asset 0 CORE))
      | Cdd p \<Rightarrow> cdd_allowed_withdraw p (policy_ctx vb now (mk_asset 0 CORE)))"

definition vesting_deposit :: "vesting_balance \<Rightarrow> nat \<Rightarrow> asset \<Rightarrow> vesting_balance result" where
  "vesting_deposit vb now amt =
     (let policy = (case vb_policy vb of Linear p \<Rightarrow> Linear (linear_on_deposit p (policy_ctx vb now amt))
                    | Cdd p \<Rightarrow> Cdd (cdd_on_deposit p (policy_ctx vb now amt)))
      in bindE (asset_add (vb_balance vb) amt) (\<lambda>b. Inr (vb\<lparr>vb_policy := policy, vb_balance := b\<rparr>)))"

definition vesting_deposit_vested :: "vesting_balance \<Rightarrow> nat \<Rightarrow> asset \<Rightarrow> vesting_balance result" where
  "vesting_deposit_vested vb now amt =
     bindE (case vb_policy vb of
              Linear p \<Rightarrow> bindE (linear_on_deposit_vested p (policy_ctx vb now amt)) (\<lambda>q. Inr (Linear q))
            | Cdd p \<Rightarrow> bindE (cdd_on_deposit_vested p (policy_ctx vb now amt)) (\<lambda>q. Inr (Cdd q)))
       (\<lambda>policy. bindE (asset_add (vb_balance vb) amt) (\<lambda>b. Inr (vb\<lparr>vb_policy := policy, vb_balance := b\<rparr>)))"

definition vesting_withdraw :: "vesting_balance \<Rightarrow> nat \<Rightarrow> asset \<Rightarrow> vesting_balance result" where
  "vesting_withdraw vb now amt =
     (let policy = (case vb_policy vb of Linear p \<Rightarrow> Linear (linear_on_withdraw p (policy_ctx vb now amt))
                    | Cdd p \<Rightarrow> Cdd (cdd_on_withdraw p (policy_ctx vb now amt)))
      in bindE (asset_sub (vb_balance vb) amt) (\<lambda>b. Inr (vb\<lparr>vb_policy := policy, vb_balance := b\<rparr>)))"

text \<open>\<open>init_policy_visitor\<close> of \<open>vesting_balance_evaluator.cpp\<close>.\<close>

datatype policy_initializer =
    LinearInit (li_begin: nat) (li_cliff: nat) (li_duration: nat)
  | CddInit (ci_start_claim: nat) (ci_seconds: nat)

definition init_policy :: "policy_initializer \<Rightarrow> share \<Rightarrow> nat \<Rightarrow> vesting_policy" where
  "init_policy i initial now =
     (case i of
        LinearInit b c d \<Rightarrow> Linear \<lparr>begin_timestamp = b, vesting_cliff_seconds = c,
                              vesting_duration_seconds = d, begin_balance = initial\<rparr>
      | CddInit sc vs \<Rightarrow> Cdd \<lparr>vesting_seconds = vs, coin_seconds_earned = of_u64 0,
                              start_claim = sc, coin_seconds_earned_last_update = now\<rparr>)"

text \<open>The object that \<open>vesting_balance_create\<close> makes, and the checks and the withdrawal of
  \<open>vesting_balance_withdraw\<close> on the object (the account's side is in the chain state).\<close>

definition create_vesting :: "nat \<Rightarrow> asset \<Rightarrow> policy_initializer \<Rightarrow> nat \<Rightarrow> vesting_balance" where
  "create_vesting owner amt i now =
     \<lparr>vb_owner = owner, vb_balance = amt, vb_policy = init_policy i (amount amt) now\<rparr>"

definition withdraw_vesting :: "nat \<Rightarrow> asset \<Rightarrow> nat \<Rightarrow> vesting_balance \<Rightarrow> vesting_balance result" where
  "withdraw_vesting owner amt now vb =
     assertE (0 < amount amt)
       (assertE (owner = vb_owner vb)
         (bindE (is_withdraw_allowed vb now amt) (\<lambda>ok. assertE ok (vesting_withdraw vb now amt))))"


subsection \<open>Values of the 128-bit terms\<close>

abbreviation uval :: "uint128 \<Rightarrow> int" where
  "uval a \<equiv> uint (abs128 a)"

named_theorems uval \<open>values of 128-bit terms that do not wrap\<close>

lemma uval_add [uval]: "uval a + uval b < 2 ^ 128 \<Longrightarrow> uval (u_add a b) = uval a + uval b"
  by (simp only: abs_add uint_plus_128)

lemma uval_mul [uval]: "uval a * uval b < 2 ^ 128 \<Longrightarrow> uval (u_mul a b) = uval a * uval b"
  by (simp only: abs_mul uint_mult_128)

lemma uval_sub [uval]: "uval b \<le> uval a \<Longrightarrow> uval (u_sub a b) = uval a - uval b"
  by (simp only: abs_sub uint_sub_128 word_le_def)

lemma uval_less: "u_less a b \<longleftrightarrow> uval a < uval b"
  by (simp only: u_less_abs word_less_def)

lemma uval_min: "uval (if u_less c s then c else s) = min (uval s) (uval c)"
  by (simp only: uval_less min_def not_less if_distrib [of uval] linorder_not_less split: if_splits) auto

lemma uval_of_nat [uval]: "n < 2 ^ 32 \<Longrightarrow> uval (of_u64 (of_nat n)) = int n"
proof -
  assume n: "n < 2 ^ 32"
  have l: "LENGTH(64) = 64" by simp
  have "n < 2 ^ 64" using n by simp
  then have "take_bit 64 n = n" by (rule take_bit_nat_eq_self)
  then show ?thesis unfolding uint_abs_of_u64 by (simp only: unsigned_of_nat l)
qed

lemma uval_of_int [uval]: "0 \<le> x \<Longrightarrow> x < 2 ^ 63 \<Longrightarrow> uval (u128_of_int x) = x"
proof -
  assume x: "0 \<le> x" "x < 2 ^ 63"
  have l: "LENGTH(64) = 64" by simp
  have "x < 2 ^ 64" using x(2) by simp
  then have u: "uint (of_int x :: 64 word) = x"
    unfolding uint_word_of_int l by (intro mod_pos_pos_trivial x(1))
  have "sint (of_int x :: 64 word) = x"
    using x by (simp add: signed_of_int signed_take_bit_int_eq_self)
  then have "u128_of_int x = of_u64 (of_int x)"
    using x by (simp add: u128_of_int_def of_i64_def of_u64_def)
  then show ?thesis by (simp only: uint_abs_of_u64 u)
qed

lemma uval_nonneg [simp]: "0 \<le> uval a"
  by simp

lemma uval_div:
  assumes "uval b \<noteq> 0"
  obtains q where "u_div a b = Inr q" "uval q = uval a div uval b"
proof -
  have "abs128 b \<noteq> 0" using assms unfolding uint_0_iff .
  then have "u_div a b = Inr (rep128 (abs128 a div abs128 b))" by (simp add: u_div_def)
  then show thesis by (rule that) (simp add: uint_div)
qed

lemma to_uint64_share:
  assumes "uval a < 2 ^ 63"
  shows "bindE (to_uint64 a) (\<lambda>v. Inr (share_of_u64 v)) = Inr (uval a)"
    "bindE (to_uint64 a) (\<lambda>v. Inr (f (share_of_u64 v))) = Inr (f (uval a))"
proof -
  have v: "uint (hi a) * 2 ^ 64 + uint (lo a) < 2 ^ 63" using assms unfolding uint_abs128 .
  have "uint (hi a) = 0"
  proof (rule ccontr)
    assume "uint (hi a) \<noteq> 0"
    then have "1 \<le> uint (hi a)" using uint_ge_0 [of "hi a"] by linarith
    then have "1 * 2 ^ 64 \<le> uint (hi a) * 2 ^ 64" by (intro mult_right_mono) simp_all
    moreover have "(2::int) ^ 63 \<le> 2 ^ 64" by simp
    ultimately show False using v uint_ge_0 [of "lo a"] by linarith
  qed
  then have h: "hi a = 0" unfolding uint_0_iff .
  then have l: "uint (lo a) = uval a" unfolding uint_abs128 by simp
  have "sint (lo a) = uint (lo a)"
  proof -
    have "- (2 ^ 63) \<le> (0 :: int)" by simp
    from order_trans [OF this uint_ge_0] have n: "- (2 ^ 63) \<le> uint (lo a)" .
    have "LENGTH(64) - Suc 0 = 63" by simp
    then show ?thesis
      using signed_take_bit_int_eq_self [OF n] assms unfolding l [symmetric] sint_uint by (simp only:)
  qed
  then show "bindE (to_uint64 a) (\<lambda>v. Inr (share_of_u64 v)) = Inr (uval a)"
    "bindE (to_uint64 a) (\<lambda>v. Inr (f (share_of_u64 v))) = Inr (f (uval a))"
    using h l by (simp_all add: to_uint64_def share_of_u64_def)
qed

lemma product_below:
  fixes x y :: int
  assumes "0 \<le> x" "x < X" "0 \<le> y" "y < Y"
  shows "x * y < X * Y"
  using assms by (intro mult_strict_mono') simp_all

lemma small_product:
  fixes x y :: int
  assumes "0 \<le> x" "x < 2 ^ 63" "0 \<le> y" "y < 2 ^ 32"
  shows "x * y < 2 ^ 95" "x * y < 2 ^ 128"
proof -
  have "x * y < 2 ^ 63 * 2 ^ 32" by (rule product_below [OF assms])
  also have "(2::int) ^ 63 * 2 ^ 32 = 2 ^ 95" by simp
  finally show "x * y < 2 ^ 95" .
  also have "(2::int) ^ 95 < 2 ^ 128" by simp
  finally show "x * y < 2 ^ 128" .
qed

lemma int_lt_2_32: "n < 2 ^ 32 \<Longrightarrow> int n < 2 ^ 32"
  using of_nat_less_iff [of n "2 ^ 32", where 'a = int] by simp

subsection \<open>The coin-seconds policy\<close>

definition cdd_ok :: "cdd_vesting_policy \<Rightarrow> asset \<Rightarrow> nat \<Rightarrow> bool" where
  "cdd_ok p b now \<longleftrightarrow>
     0 \<le> amount b \<and> amount b < 2 ^ 63 \<and> vesting_seconds p < 2 ^ 32 \<and>
     coin_seconds_earned_last_update p \<le> now \<and>
     uval (coin_seconds_earned p) \<le> amount b * int (cdd_period p)"

definition cdd_earned :: "cdd_vesting_policy \<Rightarrow> share \<Rightarrow> nat \<Rightarrow> int" where
  "cdd_earned p b now =
     min (uval (coin_seconds_earned p) + b * (int now - int (coin_seconds_earned_last_update p)))
         (b * int (cdd_period p))"

lemma cdd_period_bounds: "1 \<le> int (cdd_period p)" "vesting_seconds p < 2 ^ 32 \<Longrightarrow> cdd_period p < 2 ^ 32"
  by (simp_all add: cdd_period_def)

lemma compute_value:
  assumes "cdd_ok p b now" "now < 2 ^ 32" "ctx_balance ctx = b" "ctx_now ctx = now"
  shows "uval (compute_coin_seconds_earned p ctx) = cdd_earned p (amount b) now"
proof -
  let ?d = "int now - int (coin_seconds_earned_last_update p)"
  have b: "0 \<le> amount b" "amount b < 2 ^ 63" and p: "cdd_period p < 2 ^ 32"
    and d: "0 \<le> ?d" "?d < 2 ^ 32"
    and e: "uval (coin_seconds_earned p) \<le> amount b * int (cdd_period p)"
    using assms(1) int_lt_2_32 [OF assms(2)] cdd_period_bounds(2) [of p] unfolding cdd_ok_def by auto
  have d63: "?d < 2 ^ 63" using d(2) by simp
  note vb = uval_of_int [OF b] and vd = uval_of_int [OF d(1) d63] and vp = uval_of_nat [OF p]
  have p0: "0 \<le> int (cdd_period p)" by simp
  note cap = small_product [OF b p0 int_lt_2_32 [OF p]] and delta = small_product [OF b d]
  have m1: "uval (u_mul (u128_of_int (amount b)) (u128_of_int ?d)) = amount b * ?d"
    using delta(2) by (subst uval_mul) (simp_all only: vb vd)
  have m2: "uval (u_mul (u128_of_int (amount b)) (of_u64 (of_nat (cdd_period p)))) = amount b * int (cdd_period p)"
    using cap(2) by (subst uval_mul) (simp_all only: vb vp)
  have "uval (coin_seconds_earned p) + amount b * ?d < 2 ^ 95 + 2 ^ 95"
    using e cap(1) delta(1) by linarith
  also have "(2::int) ^ 95 + 2 ^ 95 < 2 ^ 128" by simp
  finally have "uval (u_add (coin_seconds_earned p) (u_mul (u128_of_int (amount b)) (u128_of_int ?d)))
      = uval (coin_seconds_earned p) + amount b * ?d"
    by (subst uval_add) (simp_all only: m1)
  then show ?thesis
    unfolding compute_coin_seconds_earned_def Let_def assms(3,4) cdd_earned_def uval_min m2
    by (simp only:)
qed

lemma cdd_earned_bounds:
  assumes "cdd_ok p b now"
  shows "0 \<le> cdd_earned p (amount b) now" "cdd_earned p (amount b) now \<le> amount b * int (cdd_period p)"
  using assms unfolding cdd_earned_def cdd_ok_def by simp_all

lemma cdd_allowed_value:
  assumes "cdd_ok p b now" "now < 2 ^ 32" "ctx_balance ctx = b" "ctx_now ctx = now"
  shows "cdd_allowed_withdraw p ctx =
    Inr (mk_asset (if now \<le> start_claim p then 0 else cdd_earned p (amount b) now div int (cdd_period p)) (asset_id b))"
proof (cases "now \<le> start_claim p")
  case True
  then show ?thesis using assms by (simp add: cdd_allowed_withdraw_def)
next
  case False
  let ?e = "compute_coin_seconds_earned p ctx" and ?m = "int (cdd_period p)"
  have p: "cdd_period p < 2 ^ 32" using assms(1) cdd_period_bounds(2) unfolding cdd_ok_def by blast
  have m: "1 \<le> ?m" by (rule cdd_period_bounds)
  have "uval (of_u64 (of_nat (cdd_period p))) \<noteq> 0" unfolding uval_of_nat [OF p] using m by linarith
  then obtain q where q: "u_div ?e (of_u64 (of_nat (cdd_period p))) = Inr q"
      "uval q = uval ?e div uval (of_u64 (of_nat (cdd_period p)))" by (rule uval_div)
  note v = q(2) [unfolded compute_value [OF assms] uval_of_nat [OF p]]
  have "cdd_earned p (amount b) now div ?m \<le> amount b * ?m div ?m"
    using cdd_earned_bounds(2) [OF assms(1)] m by (intro zdiv_mono1) simp_all
  also have "\<dots> = amount b" using m by simp
  also have "\<dots> < 2 ^ 63" using assms(1) by (simp add: cdd_ok_def)
  finally have "uval q < 2 ^ 63" unfolding v .
  from to_uint64_share(2) [OF this] show ?thesis
    using False assms(3,4) v by (simp add: cdd_allowed_withdraw_def q(1))
qed


lemma cdd_on_withdraw_ok:
  assumes "cdd_ok p b now" "now < 2 ^ 32" "ctx_balance ctx = b" "ctx_now ctx = now"
    and "0 \<le> amount (ctx_amount ctx)" "amount (ctx_amount ctx) \<le> cdd_earned p (amount b) now div int (cdd_period p)"
  shows "cdd_ok (cdd_on_withdraw p ctx) (mk_asset (amount b - amount (ctx_amount ctx)) (asset_id b)) now"
    "uval (coin_seconds_earned (cdd_on_withdraw p ctx))
      = cdd_earned p (amount b) now - amount (ctx_amount ctx) * int (cdd_period p)"
    "cdd_period (cdd_on_withdraw p ctx) = cdd_period p"
    "start_claim (cdd_on_withdraw p ctx) = start_claim p"
    "coin_seconds_earned_last_update (cdd_on_withdraw p ctx) = now"
    "amount (ctx_amount ctx) \<le> amount b"
proof -
  let ?m = "int (cdd_period p)" and ?a = "amount (ctx_amount ctx)"
  have p: "cdd_period p < 2 ^ 32" using assms(1) cdd_period_bounds(2) unfolding cdd_ok_def by blast
  have m: "1 \<le> ?m" by (rule cdd_period_bounds)
  have needed: "?a * ?m \<le> cdd_earned p (amount b) now"
    using assms(6) m by (simp add: le_div_iff_mult_le)
  also note cdd_earned_bounds(2) [OF assms(1)]
  finally have ab: "?a \<le> amount b" using m by (simp add: mult_le_cancel_right)
  have a: "?a < 2 ^ 63" using ab assms(1) by (simp add: cdd_ok_def)
  have m0: "0 \<le> ?m" by simp
  have n: "uval (u_mul (u128_of_int ?a) (of_u64 (of_nat (cdd_period p)))) = ?a * ?m"
    using small_product(2) [OF assms(5) a m0 int_lt_2_32 [OF p]]
    by (subst uval_mul) (simp_all only: uval_of_int [OF assms(5) a] uval_of_nat [OF p])
  show v: "uval (coin_seconds_earned (cdd_on_withdraw p ctx)) = cdd_earned p (amount b) now - ?a * ?m"
  proof -
    have "coin_seconds_earned (cdd_on_withdraw p ctx)
        = u_sub (compute_coin_seconds_earned p ctx) (u_mul (u128_of_int ?a) (of_u64 (of_nat (cdd_period p))))"
      by (simp add: cdd_on_withdraw_def Let_def update_coin_seconds_earned_def)
    then show ?thesis using needed by (simp only: uval_sub n compute_value [OF assms(1-4)])
  qed
  show pe: "cdd_period (cdd_on_withdraw p ctx) = cdd_period p"
    "start_claim (cdd_on_withdraw p ctx) = start_claim p"
    "coin_seconds_earned_last_update (cdd_on_withdraw p ctx) = now"
    using assms(4) by (simp_all add: cdd_on_withdraw_def Let_def update_coin_seconds_earned_def cdd_period_def)
  have "vesting_seconds (cdd_on_withdraw p ctx) = vesting_seconds p"
    by (simp add: cdd_on_withdraw_def Let_def update_coin_seconds_earned_def)
  then show "cdd_ok (cdd_on_withdraw p ctx) (mk_asset (amount b - ?a) (asset_id b)) now"
    using assms(1,5) ab cdd_earned_bounds(2) [OF assms(1)]
    unfolding cdd_ok_def pe v by (simp add: algebra_simps)
  show "?a \<le> amount b" by (rule ab)
qed

lemma cdd_on_deposit_fields:
  "vesting_seconds (cdd_on_deposit p ctx) = vesting_seconds p" "start_claim (cdd_on_deposit p ctx) = start_claim p"
  "cdd_period (cdd_on_deposit p ctx) = cdd_period p"
  "coin_seconds_earned_last_update (cdd_on_deposit p ctx) = ctx_now ctx"
  "coin_seconds_earned (cdd_on_deposit p ctx) = compute_coin_seconds_earned p ctx"
  by (simp_all add: cdd_on_deposit_def update_coin_seconds_earned_def cdd_period_def)

subsection \<open>The linear policy\<close>

definition linear_vested :: "linear_vesting_policy \<Rightarrow> nat \<Rightarrow> int" where
  "linear_vested p now =
     (let elapsed = int now - int (begin_timestamp p)
      in if now \<le> begin_timestamp p \<or> elapsed < int (vesting_cliff_seconds p) then 0
         else if elapsed < int (vesting_duration_seconds p)
              then begin_balance p * elapsed div int (vesting_duration_seconds p)
         else begin_balance p)"

definition linear_ok :: "linear_vesting_policy \<Rightarrow> asset \<Rightarrow> nat \<Rightarrow> bool" where
  "linear_ok p b now \<longleftrightarrow>
     0 \<le> amount b \<and> amount b < 2 ^ 63 \<and> 0 \<le> begin_balance p \<and> begin_balance p < 2 ^ 63 \<and>
     vesting_duration_seconds p < 2 ^ 32 \<and>
     begin_balance p - amount b \<le> linear_vested p now"

lemma linear_vested_bounds:
  assumes "0 \<le> begin_balance p"
  shows "0 \<le> linear_vested p now" "linear_vested p now \<le> begin_balance p"
proof -
  let ?e = "int now - int (begin_timestamp p)" and ?d = "int (vesting_duration_seconds p)"
  have "begin_balance p * ?e div ?d \<le> begin_balance p" if "0 < ?e" "?e < ?d"
  proof -
    have "begin_balance p * ?e div ?d \<le> begin_balance p * ?d div ?d"
      using that assms by (intro zdiv_mono1 mult_left_mono) simp_all
    then show ?thesis using that by simp
  qed
  then show "linear_vested p now \<le> begin_balance p" using assms by (auto simp: linear_vested_def Let_def)
  have "0 \<le> begin_balance p * ?e div ?d" if "0 < ?e" "?e < ?d"
    using that assms by (simp add: pos_imp_zdiv_nonneg_iff)
  then show "0 \<le> linear_vested p now" using assms by (auto simp: linear_vested_def Let_def)
qed

lemma linear_vested_mono:
  assumes "0 \<le> begin_balance p" "now \<le> now'"
  shows "linear_vested p now \<le> linear_vested p now'"
proof -
  let ?e = "\<lambda>t. int t - int (begin_timestamp p)" and ?d = "int (vesting_duration_seconds p)"
  have mono: "begin_balance p * ?e now div ?d \<le> begin_balance p * ?e now' div ?d" if "0 < ?e now" "?e now' < ?d"
    using that assms by (intro zdiv_mono1 mult_left_mono) simp_all
  show ?thesis
  proof (cases "now \<le> begin_timestamp p \<or> ?e now < int (vesting_cliff_seconds p)")
    case True
    then have "linear_vested p now = 0" by (simp add: linear_vested_def Let_def)
    then show ?thesis using linear_vested_bounds(1) [OF assms(1), of now'] by simp
  next
    case c: False
    then have c': "\<not> (now' \<le> begin_timestamp p \<or> ?e now' < int (vesting_cliff_seconds p))"
      using assms(2) by auto
    show ?thesis
    proof (cases "?e now' < ?d")
      case True
      then show ?thesis using c c' mono assms(2) by (simp add: linear_vested_def Let_def)
    next
      case False
      then have "linear_vested p now' = begin_balance p" using c' by (simp add: linear_vested_def Let_def)
      then show ?thesis using linear_vested_bounds(2) [OF assms(1), of now] by simp
    qed
  qed
qed

lemma linear_allowed_value:
  assumes "linear_ok p b now" "now < 2 ^ 32" "ctx_balance ctx = b" "ctx_now ctx = now"
  shows "linear_allowed_withdraw p ctx =
    Inr (mk_asset (if begin_timestamp p < now \<and> int (vesting_cliff_seconds p) \<le> int now - int (begin_timestamp p)
                   then linear_vested p now - (begin_balance p - amount b) else 0) (asset_id b))"
proof -
  let ?e = "int now - int (begin_timestamp p)" and ?d = "int (vesting_duration_seconds p)"
  let ?total = "if ?e < ?d
     then bindE (u_div (u_mul (u128_of_int (begin_balance p)) (u128_of_int ?e)) (of_u64 (of_nat (vesting_duration_seconds p))))
            (\<lambda>q. bindE (to_uint64 q) (\<lambda>v. Inr (share_of_u64 v)))
     else Inr (begin_balance p)"
  have b: "0 \<le> begin_balance p" "begin_balance p < 2 ^ 63" "0 \<le> amount b" "amount b < 2 ^ 63"
    and d: "vesting_duration_seconds p < 2 ^ 32"
    using assms(1) unfolding linear_ok_def by blast+
  have e: "?e < 2 ^ 32" using int_lt_2_32 [OF assms(2)] by simp
  have total: "?total = Inr (linear_vested p now)" if c: "begin_timestamp p < now" "int (vesting_cliff_seconds p) \<le> ?e"
  proof (cases "?e < ?d")
    case True
    have e0: "0 \<le> ?e" and e63: "?e < 2 ^ 63" using c(1) e by simp_all
    have m: "uval (u_mul (u128_of_int (begin_balance p)) (u128_of_int ?e)) = begin_balance p * ?e"
      using small_product(2) [OF b(1,2) e0 e]
      by (subst uval_mul) (simp_all only: uval_of_int [OF b(1,2)] uval_of_int [OF e0 e63])
    have "uval (of_u64 (of_nat (vesting_duration_seconds p))) \<noteq> 0"
      unfolding uval_of_nat [OF d] using True e0 by linarith
    then obtain q where q: "u_div (u_mul (u128_of_int (begin_balance p)) (u128_of_int ?e))
          (of_u64 (of_nat (vesting_duration_seconds p))) = Inr q"
        "uval q = begin_balance p * ?e div ?d"
      by (rule uval_div [of "of_u64 (of_nat (vesting_duration_seconds p))"
          "u_mul (u128_of_int (begin_balance p)) (u128_of_int ?e)"]) (simp only: m uval_of_nat [OF d])
    have lv: "linear_vested p now = begin_balance p * ?e div ?d"
      using c True by (simp add: linear_vested_def Let_def)
    have "uval q < 2 ^ 63"
      using linear_vested_bounds(2) [OF b(1), of now] b(2) unfolding q(2) lv by linarith
    then show ?thesis using True to_uint64_share(1) q lv by simp
  next
    case False
    then show ?thesis using c by (simp add: linear_vested_def Let_def)
  qed
  have s1: "safe_sub (begin_balance p) (amount b) = Inr (begin_balance p - amount b)"
    using b by (auto simp: safe_sub_def safe_min_def)
  have s2: "safe_sub (linear_vested p now) (begin_balance p - amount b) = Inr (linear_vested p now - (begin_balance p - amount b))"
    using b linear_vested_bounds [OF b(1), of now] by (auto simp: safe_sub_def safe_min_def safe_max_def)
  show ?thesis
    using total s1 s2 assms(3,4) by (simp add: linear_allowed_withdraw_def Let_def)
qed


subsection \<open>The contract of a policy\<close>

text \<open>What \<open>vesting_balance_object\<close> relies on in its policy: the allowed amount lies between zero and
  the balance, a withdrawal of at most that amount keeps the policy consistent with the smaller
  balance, and time alone breaks nothing.\<close>

locale policy_contract =
  fixes ok :: "'p \<Rightarrow> asset \<Rightarrow> nat \<Rightarrow> bool"
    and allowed :: "'p \<Rightarrow> policy_context \<Rightarrow> asset result"
    and on_withdraw :: "'p \<Rightarrow> policy_context \<Rightarrow> 'p"
  assumes balance_range: "ok p b now \<Longrightarrow> 0 \<le> amount b \<and> amount b < 2 ^ 63"
    and allowed_returns: "ok p (ctx_balance ctx) (ctx_now ctx) \<Longrightarrow> ctx_now ctx < 2 ^ 32 \<Longrightarrow>
      \<exists>a. allowed p ctx = Inr (mk_asset a (asset_id (ctx_balance ctx))) \<and> 0 \<le> a \<and> a \<le> amount (ctx_balance ctx)"
    and withdraw_keeps: "ok p (ctx_balance ctx) (ctx_now ctx) \<Longrightarrow> ctx_now ctx < 2 ^ 32 \<Longrightarrow>
      allowed p ctx = Inr (mk_asset a (asset_id (ctx_balance ctx))) \<Longrightarrow>
      0 \<le> amount (ctx_amount ctx) \<Longrightarrow> amount (ctx_amount ctx) \<le> a \<Longrightarrow>
      ok (on_withdraw p ctx)
         (mk_asset (amount (ctx_balance ctx) - amount (ctx_amount ctx)) (asset_id (ctx_balance ctx))) (ctx_now ctx)"
    and later: "ok p b now \<Longrightarrow> now \<le> now' \<Longrightarrow> ok p b now'"
begin

lemma accepted_withdrawal:
  assumes "ok p (ctx_balance ctx) (ctx_now ctx)" "ctx_now ctx < 2 ^ 32"
    and "allowed p ctx = Inr al" "asset_le (ctx_amount ctx) al = Inr True" "0 \<le> amount (ctx_amount ctx)"
  shows "asset_id (ctx_amount ctx) = asset_id (ctx_balance ctx)"
    "amount (ctx_amount ctx) \<le> amount al" "amount al \<le> amount (ctx_balance ctx)"
    "asset_sub (ctx_balance ctx) (ctx_amount ctx)
      = Inr (mk_asset (amount (ctx_balance ctx) - amount (ctx_amount ctx)) (asset_id (ctx_balance ctx)))"
    "ok (on_withdraw p ctx)
       (mk_asset (amount (ctx_balance ctx) - amount (ctx_amount ctx)) (asset_id (ctx_balance ctx))) (ctx_now ctx)"
proof -
  obtain a where a: "allowed p ctx = Inr (mk_asset a (asset_id (ctx_balance ctx)))" "a \<le> amount (ctx_balance ctx)"
    using allowed_returns [OF assms(1,2)] by blast
  then have al: "al = mk_asset a (asset_id (ctx_balance ctx))" using assms(3) by simp
  show i: "asset_id (ctx_amount ctx) = asset_id (ctx_balance ctx)" and le: "amount (ctx_amount ctx) \<le> amount al"
    using assms(4) unfolding al by (auto simp: result_simps)
  show "amount al \<le> amount (ctx_balance ctx)" using a(2) al by simp
  then have "safe_sub (amount (ctx_balance ctx)) (amount (ctx_amount ctx))
      = Inr (amount (ctx_balance ctx) - amount (ctx_amount ctx))"
    using le assms(5) balance_range [OF assms(1)] by (auto simp: safe_sub_def safe_min_def)
  then show "asset_sub (ctx_balance ctx) (ctx_amount ctx)
      = Inr (mk_asset (amount (ctx_balance ctx) - amount (ctx_amount ctx)) (asset_id (ctx_balance ctx)))"
    using i by (simp add: asset_sub_def)
  show "ok (on_withdraw p ctx)
       (mk_asset (amount (ctx_balance ctx) - amount (ctx_amount ctx)) (asset_id (ctx_balance ctx))) (ctx_now ctx)"
    using withdraw_keeps [OF assms(1,2) a(1) assms(5)] le unfolding al by simp
qed

end

interpretation linear: policy_contract linear_ok linear_allowed_withdraw linear_on_withdraw
proof (unfold_locales, goal_cases)
  case (1 p b now)
  then show ?case by (simp add: linear_ok_def)
next
  case (2 p ctx)
  have "0 \<le> begin_balance p" using 2(1) by (simp add: linear_ok_def)
  then show ?case
    using linear_allowed_value [OF 2 refl refl] linear_vested_bounds [of p "ctx_now ctx"] 2(1)
    by (auto simp: linear_ok_def)
next
  case (3 p ctx a)
  have "0 \<le> begin_balance p" using 3(1) by (simp add: linear_ok_def)
  with 3 show ?case
    using linear_allowed_value [OF 3(1,2) refl refl] linear_vested_bounds(2) [of p "ctx_now ctx"]
    by (auto simp: linear_ok_def linear_on_withdraw_def split: if_splits)
next
  case (4 p b now now')
  then show ?case using linear_vested_mono [of p now now'] by (auto simp: linear_ok_def)
qed

lemma cdd_period_pos: "0 < int (cdd_period p)"
  using cdd_period_bounds(1) [of p] by linarith

interpretation cdd: policy_contract cdd_ok cdd_allowed_withdraw cdd_on_withdraw
proof (unfold_locales, goal_cases)
  case (1 p b now)
  then show ?case by (simp add: cdd_ok_def)
next
  case (2 p ctx)
  have "cdd_earned p (amount (ctx_balance ctx)) (ctx_now ctx) div int (cdd_period p)
      \<le> amount (ctx_balance ctx) * int (cdd_period p) div int (cdd_period p)"
    using cdd_earned_bounds(2) [OF 2(1)] cdd_period_pos by (intro zdiv_mono1)
  also have "\<dots> = amount (ctx_balance ctx)" using cdd_period_pos [of p] by simp
  finally show ?case
    using cdd_allowed_value [OF 2 refl refl] cdd_earned_bounds(1) [OF 2(1)] cdd_period_pos [of p] 2(1)
    by (auto simp: cdd_ok_def pos_imp_zdiv_nonneg_iff)
next
  case (3 p ctx a)
  have "0 \<le> cdd_earned p (amount (ctx_balance ctx)) (ctx_now ctx) div int (cdd_period p)"
    using cdd_earned_bounds(1) [OF 3(1)] cdd_period_pos [of p] by (simp add: pos_imp_zdiv_nonneg_iff)
  then have "a \<le> cdd_earned p (amount (ctx_balance ctx)) (ctx_now ctx) div int (cdd_period p)"
    using 3(3) cdd_allowed_value [OF 3(1,2) refl refl] by (auto split: if_splits)
  then show ?case using 3(5) by (intro cdd_on_withdraw_ok(1) 3 refl) simp
next
  case (4 p b now now')
  then show ?case by (auto simp: cdd_ok_def)
qed

definition vesting_ok :: "vesting_balance \<Rightarrow> nat \<Rightarrow> bool" where
  "vesting_ok vb now =
     (case vb_policy vb of Linear p \<Rightarrow> linear_ok p (vb_balance vb) now | Cdd p \<Rightarrow> cdd_ok p (vb_balance vb) now)"

lemma policy_ctx_simps [simp]:
  "ctx_balance (policy_ctx vb now amt) = vb_balance vb" "ctx_now (policy_ctx vb now amt) = now"
  "ctx_amount (policy_ctx vb now amt) = amt"
  by (simp_all add: policy_ctx_def)

lemma vesting_later: "vesting_ok vb now \<Longrightarrow> now \<le> now' \<Longrightarrow> vesting_ok vb now'"
  by (auto simp: vesting_ok_def intro: linear.later cdd.later split: vesting_policy.splits)

lemma vesting_range: "vesting_ok vb now \<Longrightarrow> 0 \<le> amount (vb_balance vb) \<and> amount (vb_balance vb) < 2 ^ 63"
  by (auto simp: vesting_ok_def dest: linear.balance_range cdd.balance_range split: vesting_policy.splits)

lemma vesting_allowed:
  assumes "vesting_ok vb now" "now < 2 ^ 32"
  shows "\<exists>a. get_allowed_withdraw vb now = Inr (mk_asset a (asset_id (vb_balance vb))) \<and> 0 \<le> a \<and> a \<le> amount (vb_balance vb)"
  using assms linear.allowed_returns [of _ "policy_ctx vb now (mk_asset 0 CORE)"]
    cdd.allowed_returns [of _ "policy_ctx vb now (mk_asset 0 CORE)"]
  by (cases "vb_policy vb") (simp_all add: vesting_ok_def get_allowed_withdraw_def)

text \<open>A withdrawal that \<open>is_withdraw_allowed\<close> accepts does not throw, takes exactly its amount and
  leaves a consistent object.\<close>

lemma linear_withdraw_step:
  assumes "vb_policy vb = Linear p" "vesting_ok vb now" "now < 2 ^ 32" "0 \<le> amount amt"
    and "is_withdraw_allowed vb now amt = Inr True"
  shows "vesting_withdraw vb now amt = Inr (vb\<lparr>vb_policy := Linear p,
      vb_balance := mk_asset (amount (vb_balance vb) - amount amt) (asset_id (vb_balance vb))\<rparr>)"
    "linear_ok p (mk_asset (amount (vb_balance vb) - amount amt) (asset_id (vb_balance vb))) now"
    "asset_id amt = asset_id (vb_balance vb)" "amount amt \<le> amount (vb_balance vb)"
proof -
  have o: "linear_ok p (ctx_balance (policy_ctx vb now amt)) (ctx_now (policy_ctx vb now amt))"
    "ctx_now (policy_ctx vb now amt) < 2 ^ 32" "0 \<le> amount (ctx_amount (policy_ctx vb now amt))"
    using assms by (simp_all add: vesting_ok_def)
  from assms(1,5) obtain al where al: "linear_allowed_withdraw p (policy_ctx vb now amt) = Inr al"
      "asset_le (ctx_amount (policy_ctx vb now amt)) al = Inr True"
    by (auto simp: is_withdraw_allowed_def linear_withdraw_allowed_def bindE_eq_Inr split: if_splits)
  note st = linear.accepted_withdrawal [OF o(1,2) al o(3)]
  then show "vesting_withdraw vb now amt = Inr (vb\<lparr>vb_policy := Linear p,
      vb_balance := mk_asset (amount (vb_balance vb) - amount amt) (asset_id (vb_balance vb))\<rparr>)"
    "linear_ok p (mk_asset (amount (vb_balance vb) - amount amt) (asset_id (vb_balance vb))) now"
    "asset_id amt = asset_id (vb_balance vb)" "amount amt \<le> amount (vb_balance vb)"
    using assms(1) by (simp_all add: vesting_withdraw_def linear_on_withdraw_def)
qed

lemma cdd_withdraw_step:
  assumes "vb_policy vb = Cdd p" "vesting_ok vb now" "now < 2 ^ 32" "0 \<le> amount amt"
    and "is_withdraw_allowed vb now amt = Inr True"
  shows "vesting_withdraw vb now amt = Inr (vb\<lparr>vb_policy := Cdd (cdd_on_withdraw p (policy_ctx vb now amt)),
      vb_balance := mk_asset (amount (vb_balance vb) - amount amt) (asset_id (vb_balance vb))\<rparr>)"
    "cdd_ok (cdd_on_withdraw p (policy_ctx vb now amt))
       (mk_asset (amount (vb_balance vb) - amount amt) (asset_id (vb_balance vb))) now"
    "asset_id amt = asset_id (vb_balance vb)" "amount amt \<le> amount (vb_balance vb)"
    "amount amt \<le> cdd_earned p (amount (vb_balance vb)) now div int (cdd_period p)"
proof -
  have o: "cdd_ok p (ctx_balance (policy_ctx vb now amt)) (ctx_now (policy_ctx vb now amt))"
    "ctx_now (policy_ctx vb now amt) < 2 ^ 32" "0 \<le> amount (ctx_amount (policy_ctx vb now amt))"
    using assms by (simp_all add: vesting_ok_def)
  from assms(1,5) obtain al where al: "cdd_allowed_withdraw p (policy_ctx vb now amt) = Inr al"
      "asset_le (ctx_amount (policy_ctx vb now amt)) al = Inr True"
    by (auto simp: is_withdraw_allowed_def cdd_withdraw_allowed_def bindE_eq_Inr)
  note st = cdd.accepted_withdrawal [OF o(1,2) al o(3)]
  then show "vesting_withdraw vb now amt = Inr (vb\<lparr>vb_policy := Cdd (cdd_on_withdraw p (policy_ctx vb now amt)),
      vb_balance := mk_asset (amount (vb_balance vb) - amount amt) (asset_id (vb_balance vb))\<rparr>)"
    "cdd_ok (cdd_on_withdraw p (policy_ctx vb now amt))
       (mk_asset (amount (vb_balance vb) - amount amt) (asset_id (vb_balance vb))) now"
    "asset_id amt = asset_id (vb_balance vb)" "amount amt \<le> amount (vb_balance vb)"
    using assms(1) by (simp_all add: vesting_withdraw_def)
  have "0 \<le> cdd_earned p (amount (vb_balance vb)) now div int (cdd_period p)"
    using cdd_earned_bounds(1) [OF o(1)] cdd_period_pos [of p] by (simp add: pos_imp_zdiv_nonneg_iff)
  then show "amount amt \<le> cdd_earned p (amount (vb_balance vb)) now div int (cdd_period p)"
    using st(2) al(1) cdd_allowed_value [OF o(1,2) refl refl] by (auto split: if_splits)
qed


subsection \<open>Runs of withdrawals\<close>

definition withdraw_run :: "nat \<Rightarrow> (nat \<times> asset) list \<Rightarrow> vesting_balance \<Rightarrow> vesting_balance result" where
  "withdraw_run owner evs vb = foldE (\<lambda>(now, amt). withdraw_vesting owner amt now) evs vb"

fun times_from :: "nat \<Rightarrow> (nat \<times> asset) list \<Rightarrow> bool" where
  "times_from t [] = (t < 2 ^ 32)"
| "times_from t ((n, amt) # evs) = (t \<le> n \<and> times_from n evs)"

definition end_time :: "nat \<Rightarrow> (nat \<times> asset) list \<Rightarrow> nat" where
  "end_time t evs = (if evs = [] then t else fst (last evs))"

definition total_amount :: "(nat \<times> asset) list \<Rightarrow> int" where
  "total_amount evs = sum_list (map (\<lambda>e. amount (snd e)) evs)"

lemma times_from_bound: "times_from t evs \<Longrightarrow> t < 2 ^ 32"
  by (induction t evs rule: times_from.induct) auto

lemma run_simps:
  "withdraw_run owner [] vb = Inr vb"
  "withdraw_run owner ((n, amt) # evs) vb = bindE (withdraw_vesting owner amt n vb) (withdraw_run owner evs)"
  "end_time t ((n, amt) # evs) = end_time n evs" "end_time t [] = t"
  "total_amount ((n, amt) # evs) = amount amt + total_amount evs" "total_amount [] = 0"
  by (simp_all add: withdraw_run_def end_time_def total_amount_def fun_eq_iff cong: bindE_cong)

lemma withdraw_vesting_Inr:
  "withdraw_vesting owner amt now vb = Inr vb' \<longleftrightarrow>
     0 < amount amt \<and> owner = vb_owner vb \<and> is_withdraw_allowed vb now amt = Inr True \<and> vesting_withdraw vb now amt = Inr vb'"
  by (auto simp: withdraw_vesting_def result_simps)

lemma withdraw_vesting_step:
  assumes "vesting_ok vb now" "now < 2 ^ 32" "withdraw_vesting owner amt now vb = Inr vb'"
  shows "vesting_ok vb' now" "amount (vb_balance vb') + amount amt = amount (vb_balance vb)"
    "asset_id amt = asset_id (vb_balance vb)" "asset_id (vb_balance vb') = asset_id (vb_balance vb)"
proof -
  from assms(3) have w: "0 \<le> amount amt" "is_withdraw_allowed vb now amt = Inr True" "vesting_withdraw vb now amt = Inr vb'"
    by (auto simp: withdraw_vesting_Inr)
  have "vesting_ok vb' now \<and> amount (vb_balance vb') + amount amt = amount (vb_balance vb) \<and>
    asset_id amt = asset_id (vb_balance vb) \<and> asset_id (vb_balance vb') = asset_id (vb_balance vb)"
  proof (cases "vb_policy vb")
    case (Linear p)
    note s = linear_withdraw_step [OF Linear assms(1,2) w(1,2)]
    then have "vb' = vb\<lparr>vb_policy := Linear p,
      vb_balance := mk_asset (amount (vb_balance vb) - amount amt) (asset_id (vb_balance vb))\<rparr>"
      using w(3) by simp
    then show ?thesis using s by (simp add: vesting_ok_def)
  next
    case (Cdd p)
    note s = cdd_withdraw_step [OF Cdd assms(1,2) w(1,2)]
    then have "vb' = vb\<lparr>vb_policy := Cdd (cdd_on_withdraw p (policy_ctx vb now amt)),
      vb_balance := mk_asset (amount (vb_balance vb) - amount amt) (asset_id (vb_balance vb))\<rparr>"
      using w(3) by simp
    then show ?thesis using s by (simp add: vesting_ok_def)
  qed
  then show "vesting_ok vb' now" "amount (vb_balance vb') + amount amt = amount (vb_balance vb)"
    "asset_id amt = asset_id (vb_balance vb)" "asset_id (vb_balance vb') = asset_id (vb_balance vb)" by blast+
qed

lemma withdraw_run_ok:
  assumes "vesting_ok vb t" "times_from t evs" "withdraw_run owner evs vb = Inr vb'"
  shows "vesting_ok vb' (end_time t evs) \<and> amount (vb_balance vb') + total_amount evs = amount (vb_balance vb)"
  using assms
proof (induction t evs arbitrary: vb rule: times_from.induct)
  case (1 t)
  then show ?case by (simp add: run_simps)
next
  case (2 t n amt evs)
  from 2(4) obtain v where v: "withdraw_vesting owner amt n vb = Inr v" "withdraw_run owner evs v = Inr vb'"
    by (auto simp: run_simps bindE_eq_Inr)
  have n: "n < 2 ^ 32" using 2(3) times_from_bound by auto
  have "vesting_ok vb n" using vesting_later 2(2,3) by auto
  note s = withdraw_vesting_step [OF this n v(1)]
  have "vesting_ok vb' (end_time n evs) \<and> amount (vb_balance vb') + total_amount evs = amount (vb_balance v)"
    using 2(3) by (intro 2(1) s(1) v(2)) simp
  then show ?case using s(2) by (simp add: run_simps)
qed

lemma withdraw_run_linear:
  assumes "vb_policy vb = Linear p" "vesting_ok vb t" "times_from t evs" "withdraw_run owner evs vb = Inr vb'"
  shows "vb_policy vb' = Linear p"
  using assms
proof (induction t evs arbitrary: vb rule: times_from.induct)
  case (1 t)
  then show ?case by (simp add: run_simps)
next
  case (2 t n amt evs)
  from 2(5) obtain v where v: "withdraw_vesting owner amt n vb = Inr v" "withdraw_run owner evs v = Inr vb'"
    by (auto simp: run_simps bindE_eq_Inr)
  have n: "n < 2 ^ 32" using 2(4) times_from_bound by auto
  have ok: "vesting_ok vb n" using vesting_later 2(3,4) by auto
  have "vb_policy v = Linear p"
    using linear_withdraw_step(1) [OF 2(2) ok n, of amt] v(1) by (auto simp: withdraw_vesting_Inr)
  moreover have "times_from n evs" using 2(4) by simp
  ultimately show ?case using 2(1) withdraw_vesting_step(1) [OF ok n v(1)] v(2) by blast
qed

text \<open>The coin-seconds spent and those that are left never exceed what the first balance accrued.\<close>

lemma withdraw_run_cdd:
  assumes "vb_policy vb = Cdd p" "vesting_ok vb t" "times_from t evs" "withdraw_run owner evs vb = Inr vb'"
    and "amount (vb_balance vb) \<le> B" "t0 \<le> coin_seconds_earned_last_update p"
    and "uval (coin_seconds_earned p) + spent * int (cdd_period p) \<le> B * (int (coin_seconds_earned_last_update p) - int t0)"
  shows "(spent + total_amount evs) * int (cdd_period p) \<le> B * (int (end_time t evs) - int t0) \<and>
    (evs \<noteq> [] \<longrightarrow> start_claim p < end_time t evs)"
  using assms
proof (induction t evs arbitrary: vb p spent rule: times_from.induct)
  case (1 t)
  have "coin_seconds_earned_last_update p \<le> t" "0 \<le> B"
    using 1(1,2,5) by (auto simp: vesting_ok_def cdd_ok_def)
  then have "B * (int (coin_seconds_earned_last_update p) - int t0) \<le> B * (int t - int t0)"
    by (intro mult_left_mono) simp_all
  with 1(7) uval_nonneg [of "coin_seconds_earned p"]
  have "spent * int (cdd_period p) \<le> B * (int t - int t0)" by linarith
  then show ?case by (simp add: run_simps)
next
  case (2 t n amt evs)
  from 2(5) obtain v where v: "withdraw_vesting owner amt n vb = Inr v" "withdraw_run owner evs v = Inr vb'"
    by (auto simp: run_simps bindE_eq_Inr)
  have n: "n < 2 ^ 32" using 2(4) times_from_bound by auto
  have ok: "vesting_ok vb n" using vesting_later 2(3,4) by auto
  then have cok: "cdd_ok p (vb_balance vb) n" using 2(2) by (simp add: vesting_ok_def)
  have w: "0 \<le> amount amt" "0 < amount amt" "is_withdraw_allowed vb n amt = Inr True" "vesting_withdraw vb n amt = Inr v"
    using v(1) by (auto simp: withdraw_vesting_Inr)
  let ?p = "cdd_on_withdraw p (policy_ctx vb n amt)"
  note st = cdd_withdraw_step [OF 2(2) ok n w(1) w(3)]
  have vb: "vb_policy v = Cdd ?p" "amount (vb_balance v) = amount (vb_balance vb) - amount amt"
    using st(1) w(4) by auto
  note f = cdd_on_withdraw_ok [OF cok n policy_ctx_simps(1,2), of amt, unfolded policy_ctx_simps, OF w(1) st(5)]
  have last: "coin_seconds_earned_last_update p \<le> n" using cok by (simp add: cdd_ok_def)
  have "cdd_earned p (amount (vb_balance vb)) n
      \<le> uval (coin_seconds_earned p) + amount (vb_balance vb) * (int n - int (coin_seconds_earned_last_update p))"
    by (simp add: cdd_earned_def)
  also have "\<dots> \<le> uval (coin_seconds_earned p) + B * (int n - int (coin_seconds_earned_last_update p))"
    using 2(6) last by (intro add_left_mono mult_right_mono) simp_all
  finally have "uval (coin_seconds_earned ?p) + (spent + amount amt) * int (cdd_period ?p) \<le> B * (int n - int t0)"
    using 2(8) unfolding f by (simp add: algebra_simps)
  then have "(spent + amount amt + total_amount evs) * int (cdd_period ?p) \<le> B * (int (end_time n evs) - int t0) \<and>
    (evs \<noteq> [] \<longrightarrow> start_claim ?p < end_time n evs)"
    using 2(4,6,7) w(1) last
    by (intro 2(1) [OF vb(1) withdraw_vesting_step(1) [OF ok n v(1)]] v(2)) (simp_all add: f vb)
  moreover have "start_claim p < n"
  proof (rule ccontr)
    assume "\<not> start_claim p < n"
    then have "cdd_allowed_withdraw p (policy_ctx vb n amt) = Inr (mk_asset 0 (asset_id (vb_balance vb)))"
      by (simp add: cdd_allowed_withdraw_def)
    then show False using w(2,3) 2(2) by (auto simp: is_withdraw_allowed_def cdd_withdraw_allowed_def result_simps)
  qed
  moreover have "n \<le> end_time n evs" using 2(4) by (induction n evs rule: times_from.induct) (auto simp: run_simps)
  ultimately show ?case unfolding f by (auto simp: run_simps algebra_simps)
qed


subsection \<open>Deposits\<close>

lemma cdd_deposit_balance:
  assumes "cdd_ok p (vb_balance vb) now" "vb_policy vb = Cdd p" "is_deposit_allowed vb now amt = Inr True" "0 \<le> amount amt"
  shows "asset_add (vb_balance vb) amt = Inr (mk_asset (amount (vb_balance vb) + amount amt) (asset_id (vb_balance vb)))"
    "amount (vb_balance vb) + amount amt \<le> MAX_SHARE_SUPPLY" "asset_id amt = asset_id (vb_balance vb)"
proof -
  have b: "0 \<le> amount (vb_balance vb)" "amount (vb_balance vb) < 2 ^ 63" using assms(1) by (simp_all add: cdd_ok_def)
  from assms(2,3) have i: "asset_id amt = asset_id (vb_balance vb)"
    and s: "sum_below_max_shares amt (vb_balance vb) = Inr True"
    by (auto simp: is_deposit_allowed_def cdd_deposit_allowed_def split: if_splits)
  from s have le: "amount amt \<le> MAX_SHARE_SUPPLY" "amount (vb_balance vb) \<le> MAX_SHARE_SUPPLY"
    and "bindE (safe_add (amount amt) (amount (vb_balance vb))) (\<lambda>s. Inr (s \<le> MAX_SHARE_SUPPLY)) = Inr True"
    by (auto simp: sum_below_max_shares_def split: if_splits)
  moreover have "safe_add (amount amt) (amount (vb_balance vb)) = Inr (amount amt + amount (vb_balance vb))"
    using le b assms(4) by (auto simp: safe_add_def safe_max_def MAX_SHARE_SUPPLY_def)
  ultimately show m: "amount (vb_balance vb) + amount amt \<le> MAX_SHARE_SUPPLY" by (simp add: add.commute)
  then have "safe_add (amount (vb_balance vb)) (amount amt) = Inr (amount (vb_balance vb) + amount amt)"
    using b assms(4) by (auto simp: safe_add_def safe_max_def MAX_SHARE_SUPPLY_def)
  then show "asset_add (vb_balance vb) amt = Inr (mk_asset (amount (vb_balance vb) + amount amt) (asset_id (vb_balance vb)))"
    using i by (simp add: asset_add_def)
  show "asset_id amt = asset_id (vb_balance vb)" by (rule i)
qed

lemma earned_now:
  assumes "coin_seconds_earned_last_update q = now" "uval (coin_seconds_earned q) \<le> b * int (cdd_period q)"
  shows "cdd_earned q b now = uval (coin_seconds_earned q)"
  using assms by (simp add: cdd_earned_def)

lemma get_allowed_cdd:
  assumes "vb_policy vb = Cdd p" "cdd_ok p (vb_balance vb) now" "now < 2 ^ 32"
  shows "get_allowed_withdraw vb now = Inr (mk_asset (if now \<le> start_claim p then 0
    else cdd_earned p (amount (vb_balance vb)) now div int (cdd_period p)) (asset_id (vb_balance vb)))"
  using cdd_allowed_value [OF assms(2,3), of "policy_ctx vb now (mk_asset 0 CORE)"] assms(1)
  by (simp add: get_allowed_withdraw_def)

lemma cdd_deposit_effect:
  assumes "cdd_ok p (vb_balance vb) now" "now < 2 ^ 32" "vb_policy vb = Cdd p"
    and "is_deposit_allowed vb now amt = Inr True" "0 \<le> amount amt"
  shows "\<exists>vb'. vesting_deposit vb now amt = Inr vb' \<and> vesting_ok vb' now \<and>
    get_allowed_withdraw vb' now = get_allowed_withdraw vb now"
proof -
  let ?ctx = "policy_ctx vb now amt" let ?q = "cdd_on_deposit p ?ctx"
  let ?b = "mk_asset (amount (vb_balance vb) + amount amt) (asset_id (vb_balance vb))"
  note bal = cdd_deposit_balance [OF assms(1,3,4,5)]
  have v: "uval (coin_seconds_earned ?q) = cdd_earned p (amount (vb_balance vb)) now"
    unfolding cdd_on_deposit_fields by (rule compute_value [OF assms(1,2)]) simp_all
  have "cdd_earned p (amount (vb_balance vb)) now \<le> amount ?b * int (cdd_period p)"
    using cdd_earned_bounds(2) [OF assms(1)] assms(5) mult_right_mono [of "amount (vb_balance vb)" "amount ?b" "int (cdd_period p)"]
    by simp
  moreover have "amount ?b < 2 ^ 63" using bal(2) by (simp add: MAX_SHARE_SUPPLY_def)
  ultimately have ok: "cdd_ok ?q ?b now"
    using assms(1,5) unfolding cdd_ok_def v cdd_on_deposit_fields(1,3,4) by simp
  let ?vb = "vb\<lparr>vb_policy := Cdd ?q, vb_balance := ?b\<rparr>"
  have d: "vesting_deposit vb now amt = Inr ?vb" using assms(3) bal(1) by (simp add: vesting_deposit_def)
  have "vesting_ok ?vb now" using ok by (simp add: vesting_ok_def)
  moreover have "cdd_earned ?q (amount ?b) now = cdd_earned p (amount (vb_balance vb)) now"
    using ok earned_now [of ?q now "amount ?b"] v by (simp add: cdd_ok_def cdd_on_deposit_fields)
  then have "get_allowed_withdraw ?vb now = get_allowed_withdraw vb now"
    using get_allowed_cdd [OF assms(3,1,2)] get_allowed_cdd [of ?vb ?q now] ok assms(2)
    by (simp add: cdd_on_deposit_fields)
  ultimately show ?thesis using d by blast
qed

lemma cdd_deposit_vested_effect:
  assumes "cdd_ok p (vb_balance vb) now" "now < 2 ^ 32" "vb_policy vb = Cdd p"
    and "is_deposit_vested_allowed vb now amt = Inr True" "0 \<le> amount amt" "start_claim p < now"
    and "amount amt * int (cdd_period p) < 2 ^ 63"
  shows "\<exists>vb' a. vesting_deposit_vested vb now amt = Inr vb' \<and> vesting_ok vb' now \<and>
    get_allowed_withdraw vb now = Inr (mk_asset a (asset_id (vb_balance vb))) \<and>
    get_allowed_withdraw vb' now = Inr (mk_asset (a + amount amt) (asset_id (vb_balance vb)))"
proof -
  let ?ctx = "policy_ctx vb now amt" and ?m = "int (cdd_period p)"
  let ?v = "amount amt * ?m" and ?e = "cdd_earned p (amount (vb_balance vb)) now"
  let ?q1 = "cdd_on_deposit p ?ctx"
  let ?q = "?q1\<lparr>coin_seconds_earned := u_add (coin_seconds_earned ?q1) (u128_of_int ?v)\<rparr>"
  let ?b = "mk_asset (amount (vb_balance vb) + amount amt) (asset_id (vb_balance vb))"
  have "is_deposit_allowed vb now amt = Inr True"
    using assms(3,4) by (simp add: is_deposit_allowed_def is_deposit_vested_allowed_def cdd_deposit_vested_allowed_def)
  note bal = cdd_deposit_balance [OF assms(1,3) this assms(5)]
  have v1: "uval (coin_seconds_earned ?q1) = ?e"
    unfolding cdd_on_deposit_fields by (rule compute_value [OF assms(1,2)]) simp_all
  have v0: "0 \<le> ?v" using assms(5) by simp
  have p: "cdd_period p < 2 ^ 32" using assms(1) cdd_period_bounds(2) unfolding cdd_ok_def by blast
  have "?e < 2 ^ 95"
    using cdd_earned_bounds(2) [OF assms(1)] small_product(1) [of "amount (vb_balance vb)" ?m]
      int_lt_2_32 [OF p] assms(1) by (simp add: cdd_ok_def)
  then have "?e + ?v < 2 ^ 95 + 2 ^ 63" using assms(7) by (rule add_strict_mono)
  also have "(2::int) ^ 95 + 2 ^ 63 < 2 ^ 128" by simp
  finally have v: "uval (coin_seconds_earned ?q) = ?e + ?v"
  proof -
    have "coin_seconds_earned ?q = u_add (coin_seconds_earned ?q1) (u128_of_int ?v)" by simp
    moreover assume "?e + ?v < 2 ^ 128"
    ultimately show ?thesis by (simp only: uval_add uval_of_int [OF v0 assms(7)] v1)
  qed
  have f: "cdd_period ?q = cdd_period p" "vesting_seconds ?q = vesting_seconds p" "start_claim ?q = start_claim p"
    "coin_seconds_earned_last_update ?q = now"
    by (simp_all add: cdd_on_deposit_fields cdd_period_def)
  have "?e + ?v \<le> amount ?b * ?m" using cdd_earned_bounds(2) [OF assms(1)] by (simp add: distrib_right)
  moreover have "amount ?b < 2 ^ 63" using bal(2) by (simp add: MAX_SHARE_SUPPLY_def)
  ultimately have ok: "cdd_ok ?q ?b now" using assms(1,5) unfolding cdd_ok_def v f by simp
  let ?vb = "vb\<lparr>vb_policy := Cdd ?q, vb_balance := ?b\<rparr>"
  have "int64_ok ?v" using v0 assms(7) by (simp add: int64_ok_def safe_min_def safe_max_def)
  then have d: "vesting_deposit_vested vb now amt = Inr ?vb"
    using assms(3) bal(1) by (simp add: vesting_deposit_vested_def cdd_on_deposit_vested_def Let_def)
  have "cdd_earned ?q (amount ?b) now = ?e + ?v"
    using earned_now [of ?q now "amount ?b"] ok f(4) v by (simp only: cdd_ok_def)
  then have "get_allowed_withdraw ?vb now = Inr (mk_asset ((?e + ?v) div ?m) (asset_id (vb_balance vb)))"
    using get_allowed_cdd [of ?vb ?q now] ok assms(2,6) f by simp
  moreover have "(?e + ?v) div ?m = ?e div ?m + amount amt" using cdd_period_pos [of p] by simp
  moreover have "vesting_ok ?vb now" using ok by (simp add: vesting_ok_def)
  ultimately show ?thesis
    using d get_allowed_cdd [OF assms(3,1,2)] assms(6) by auto
qed


subsection \<open>Properties\<close>

lemma create_linear_ok:
  assumes "0 \<le> amount amt" "amount amt < 2 ^ 63" "d < 2 ^ 32"
  shows "vesting_ok (create_vesting owner amt (LinearInit b c d) now) now"
  using assms linear_vested_bounds(1) by (simp add: vesting_ok_def create_vesting_def init_policy_def linear_ok_def)

lemma create_cdd_ok:
  assumes "0 \<le> amount amt" "amount amt < 2 ^ 63" "vs < 2 ^ 32"
  shows "vesting_ok (create_vesting owner amt (CddInit sc vs) now) now"
  using assms by (simp add: vesting_ok_def create_vesting_def init_policy_def cdd_ok_def)

definition demo_linear :: vesting_balance where
  "demo_linear = create_vesting 7 (mk_asset 1000 0) (LinearInit 100 50 200) 90"

definition demo_cdd :: vesting_balance where
  "demo_cdd = create_vesting 7 (mk_asset 1000 0) (CddInit 0 60) 100"

text \<open>C18. A consistent vesting balance stays consistent under any run of accepted withdrawals at
  non-decreasing times: the withdrawals are taken from the balance exactly, the balance never becomes
  negative, and the amount that may be withdrawn next always exists and lies between zero and the balance.\<close>
theorem vesting_withdrawals_conserve:
  assumes "vesting_ok vb t" "times_from t evs" "withdraw_run owner evs vb = Inr vb'"
  shows "amount (vb_balance vb') = amount (vb_balance vb) - total_amount evs \<and> 0 \<le> amount (vb_balance vb') \<and>
    (\<exists>a. get_allowed_withdraw vb' (end_time t evs) = Inr (mk_asset a (asset_id (vb_balance vb'))) \<and>
      0 \<le> a \<and> a \<le> amount (vb_balance vb'))"
proof -
  note r = withdraw_run_ok [OF assms]
  have "end_time t evs < 2 ^ 32"
    using assms(2) by (induction t evs rule: times_from.induct) (simp_all add: run_simps)
  then show ?thesis
    using r vesting_range [of vb' "end_time t evs"] vesting_allowed [of vb' "end_time t evs"] by auto
qed

theorem vesting_withdrawals_conserve_witness:
  "\<exists>vb'. withdraw_run 7 [(160, mk_asset 300 0), (400, mk_asset 600 0)] demo_linear = Inr vb' \<and>
     amount (vb_balance vb') = 100"
proof -
  obtain vb' where r: "withdraw_run 7 [(160, mk_asset 300 0), (400, mk_asset 600 0)] demo_linear = Inr vb'"
    by (cases "withdraw_run 7 [(160, mk_asset 300 0), (400, mk_asset 600 0)] demo_linear")
      (use that in \<open>simp; code_simp\<close>)+
  have "vesting_ok demo_linear 90" unfolding demo_linear_def by (rule create_linear_ok) simp_all
  from vesting_withdrawals_conserve [OF this _ r] r show ?thesis
    by (auto simp: demo_linear_def create_vesting_def total_amount_def)
qed

text \<open>C19. The linear schedule is respected: whatever sequence of withdrawals a linear vesting balance
  accepts, their total never exceeds what has vested by the time of the last one, which is nothing
  before the start and the cliff, the rounded-down share of the elapsed time, and at the end the whole.\<close>
theorem linear_release:
  assumes "0 < amount amt" "amount amt < 2 ^ 63" "d < 2 ^ 32" "times_from now evs"
    and "withdraw_run owner evs (create_vesting owner amt (LinearInit b c d) now) = Inr vb'"
  shows "total_amount evs \<le>
    (let elapsed = int (end_time now evs) - int b
     in if end_time now evs \<le> b \<or> elapsed < int c then 0
        else if elapsed < int d then amount amt * elapsed div int d
        else amount amt)"
proof -
  let ?p = "\<lparr>begin_timestamp = b, vesting_cliff_seconds = c, vesting_duration_seconds = d, begin_balance = amount amt\<rparr>"
  have ok: "vesting_ok (create_vesting owner amt (LinearInit b c d) now) now"
    using assms by (intro create_linear_ok) simp_all
  have p: "vb_policy (create_vesting owner amt (LinearInit b c d) now) = Linear ?p"
    by (simp add: create_vesting_def init_policy_def)
  note r = withdraw_run_ok [OF ok assms(4,5)] withdraw_run_linear [OF p ok assms(4,5)]
  then have "amount amt - amount (vb_balance vb') \<le> linear_vested ?p (end_time now evs)"
    by (simp add: vesting_ok_def linear_ok_def)
  with r(1) have "total_amount evs \<le> linear_vested ?p (end_time now evs)"
    by (simp add: create_vesting_def)
  then show ?thesis unfolding linear_vested_def linear_vesting_policy.select_convs .
qed

theorem linear_release_witness:
  "is_ok (withdraw_run 7 [(160, mk_asset 300 0)] (create_vesting 7 (mk_asset 1000 0) (LinearInit 100 50 200) 90)) \<and>
   (300::int) \<le> 1000 * 60 div 200"
proof (intro conjI)
  have ok: "is_ok (withdraw_run 7 [(160, mk_asset 300 0)] (create_vesting 7 (mk_asset 1000 0) (LinearInit 100 50 200) 90))"
    by code_simp
  then show "is_ok (withdraw_run 7 [(160, mk_asset 300 0)] (create_vesting 7 (mk_asset 1000 0) (LinearInit 100 50 200) 90))" .
  from ok obtain vb' where "withdraw_run 7 [(160, mk_asset 300 0)] (create_vesting 7 (mk_asset 1000 0) (LinearInit 100 50 200) 90) = Inr vb'"
    unfolding is_ok_iff by blast
  from linear_release [OF _ _ _ _ this] show "(300::int) \<le> 1000 * 60 div 200"
    by (simp add: total_amount_def end_time_def)
qed

text \<open>C20. The coin-seconds policy is a rate limit: whatever sequence of withdrawals a balance with this
  policy accepts, the coin-seconds they cost (amount times the vesting period) never exceed what the
  first balance has accrued since its creation, and nothing is paid before the claim date.\<close>
theorem cdd_release:
  assumes "0 < amount amt" "amount amt < 2 ^ 63" "vs < 2 ^ 32" "times_from now evs"
    and "withdraw_run owner evs (create_vesting owner amt (CddInit sc vs) now) = Inr vb'"
  shows "total_amount evs * max (int vs) 1 \<le> amount amt * (int (end_time now evs) - int now) \<and>
    (evs \<noteq> [] \<longrightarrow> sc < end_time now evs)"
proof -
  let ?p = "\<lparr>vesting_seconds = vs, coin_seconds_earned = of_u64 0, start_claim = sc, coin_seconds_earned_last_update = now\<rparr>"
  have ok: "vesting_ok (create_vesting owner amt (CddInit sc vs) now) now"
    using assms by (intro create_cdd_ok) simp_all
  have p: "vb_policy (create_vesting owner amt (CddInit sc vs) now) = Cdd ?p"
    by (simp add: create_vesting_def init_policy_def)
  have "(0 + total_amount evs) * int (cdd_period ?p) \<le> amount amt * (int (end_time now evs) - int now) \<and>
    (evs \<noteq> [] \<longrightarrow> start_claim ?p < end_time now evs)"
    by (rule withdraw_run_cdd [OF p ok assms(4,5)]) (simp_all add: create_vesting_def)
  then show ?thesis by (simp add: cdd_period_def of_nat_max)
qed

theorem cdd_release_witness:
  "is_ok (withdraw_run 7 [(130, mk_asset 500 0), (160, mk_asset 250 0)] (create_vesting 7 (mk_asset 1000 0) (CddInit 0 60) 100)) \<and>
   (750::int) * 60 \<le> 1000 * (160 - 100)"
proof (intro conjI)
  let ?evs = "[(130, mk_asset 500 0), (160, mk_asset 250 0)]" and ?vb = "create_vesting 7 (mk_asset 1000 0) (CddInit 0 60) 100"
  have ok: "is_ok (withdraw_run 7 ?evs ?vb)" by code_simp
  then show "is_ok (withdraw_run 7 ?evs ?vb)" .
  from ok obtain vb' where "withdraw_run 7 ?evs ?vb = Inr vb'" unfolding is_ok_iff by blast
  from cdd_release [OF _ _ _ _ this] show "(750::int) * 60 \<le> 1000 * (160 - 100)"
    by (simp add: total_amount_def end_time_def)
qed

text \<open>Deposits into a coin-seconds balance: an accepted deposit does not throw, keeps the balance
  consistent, and leaves the withdrawable amount what it was; an accepted vested deposit whose
  coin-seconds fit \<open>int64_t\<close> raises the withdrawable amount by exactly the amount deposited, and one
  whose coin-seconds do not fit is undefined.\<close>
lemma cdd_deposits:
  assumes "vesting_ok vb now" "now < 2 ^ 32" "vb_policy vb = Cdd p" "0 \<le> amount amt"
    and "is_deposit_allowed vb now amt = Inr True" "start_claim p < now"
  shows "(\<exists>vb'. vesting_deposit vb now amt = Inr vb' \<and> vesting_ok vb' now \<and>
       get_allowed_withdraw vb' now = get_allowed_withdraw vb now) \<and>
    (if amount amt * int (cdd_period p) < 2 ^ 63
     then \<exists>vb' a. vesting_deposit_vested vb now amt = Inr vb' \<and> vesting_ok vb' now \<and>
       get_allowed_withdraw vb now = Inr (mk_asset a (asset_id (vb_balance vb))) \<and>
       get_allowed_withdraw vb' now = Inr (mk_asset (a + amount amt) (asset_id (vb_balance vb)))
     else vesting_deposit_vested vb now amt = Inl UndefinedBehaviour)"
proof -
  have ok: "cdd_ok p (vb_balance vb) now" using assms(1,3) by (simp add: vesting_ok_def)
  have va: "is_deposit_vested_allowed vb now amt = Inr True"
    using assms(3,5) by (simp add: is_deposit_allowed_def is_deposit_vested_allowed_def cdd_deposit_vested_allowed_def)
  have "vesting_deposit_vested vb now amt = Inl UndefinedBehaviour" if "\<not> amount amt * int (cdd_period p) < 2 ^ 63"
    using that assms(3)
    by (simp add: vesting_deposit_vested_def cdd_on_deposit_vested_def Let_def int64_ok_def safe_max_def)
  then show ?thesis
    using cdd_deposit_effect [OF ok assms(2,3,5,4)] cdd_deposit_vested_effect [OF ok assms(2,3) va assms(4,6)] by auto
qed

lemma cdd_deposits_witness:
  "\<exists>vb' a. vesting_deposit_vested demo_cdd 130 (mk_asset 20 0) = Inr vb' \<and>
     get_allowed_withdraw demo_cdd 130 = Inr (mk_asset a 0) \<and> get_allowed_withdraw vb' 130 = Inr (mk_asset (a + 20) 0)"
proof -
  have "vesting_ok demo_cdd 130"
    unfolding demo_cdd_def by (rule vesting_later [of _ 100]) (rule create_cdd_ok, simp_all)
  moreover obtain p where "vb_policy demo_cdd = Cdd p" "start_claim p < 130" "cdd_period p = 60"
    by (simp add: demo_cdd_def create_vesting_def init_policy_def cdd_period_def)
  moreover have "is_deposit_allowed demo_cdd 130 (mk_asset 20 0) = Inr True" by code_simp
  ultimately show ?thesis
    using cdd_deposits [of demo_cdd 130 p "mk_asset 20 0"] by (auto simp: demo_cdd_def create_vesting_def)
qed

end
