(* ===== verification/Block.thy ===== *)
theory Block
  imports Prelude "HOL-Library.Word"
begin

unbundle bit_operations_syntax

text \<open>
  Blocks (\<open>chain/protocol/block.cpp\<close> and its header, \<open>fc/bitutil.hpp\<close>): a block id carries the block's
  number in its first word, and the Merkle root of the transactions is computed in place, pairing
  neighbours level by level.  Ids and checksums are the five 32-bit words of \<open>fc::ripemd160\<close>.
  The hash functions (OpenSSL) are parameters.
\<close>

definition endian_reverse_u32 :: "32 word \<Rightarrow> 32 word" where
  "endian_reverse_u32 x =
     (drop_bit 24 x AND 0xFF) OR push_bit 8 (drop_bit 16 x AND 0xFF) OR
     push_bit 16 (drop_bit 8 x AND 0xFF) OR push_bit 24 (x AND 0xFF)"

definition endian_reverse_u64 :: "64 word \<Rightarrow> 64 word" where
  "endian_reverse_u64 x =
     (drop_bit 56 x AND 0xFF) OR push_bit 8 (drop_bit 48 x AND 0xFF) OR
     push_bit 16 (drop_bit 40 x AND 0xFF) OR push_bit 24 (drop_bit 32 x AND 0xFF) OR
     push_bit 32 (drop_bit 24 x AND 0xFF) OR push_bit 40 (drop_bit 16 x AND 0xFF) OR
     push_bit 48 (drop_bit 8 x AND 0xFF) OR push_bit 56 (x AND 0xFF)"

type_synonym block_id_type = "32 word list"

definition null_id :: block_id_type where
  "null_id = replicate 5 0"

record signed_block_header =
  previous :: block_id_type
  timestamp :: nat
  witness :: nat
  transaction_merkle_root :: block_id_type
  witness_signature :: "8 word list"
  block_id :: block_id_type

record 'tx signed_block = signed_block_header +
  transactions :: "'tx list"

definition num_from_id :: "block_id_type \<Rightarrow> 32 word" where
  "num_from_id i = endian_reverse_u32 (i ! 0)"

definition block_num :: "'b signed_block_header_scheme \<Rightarrow> 32 word" where
  "block_num b = num_from_id (previous b) + 1"

text \<open>\<open>sha224\<close> is the hash of the header, seven words, of which five are copied.\<close>

definition header_id :: "(signed_block_header \<Rightarrow> 32 word list) \<Rightarrow> 'tx signed_block \<Rightarrow> block_id_type" where
  "header_id sha224 b =
     (let tmp = sha224 (signed_block_header.truncate b);
          tmp = tmp[0 := endian_reverse_u32 (block_num b)]
      in take 5 tmp)"

subsection \<open>The Merkle root\<close>

text \<open>One level in place: \<open>ids[k++] = hash(ids[i], ids[i+1])\<close> for the pairs, then the odd one.\<close>

definition merkle_pair_step :: "('d \<Rightarrow> 'd \<Rightarrow> 'd) \<Rightarrow> nat \<Rightarrow> 'd list \<times> nat \<Rightarrow> 'd list \<times> nat" where
  "merkle_pair_step hash2 i = (\<lambda>(ids, k). (ids[k := hash2 (ids ! i) (ids ! (i + 1))], k + 1))"

definition merkle_level :: "('d \<Rightarrow> 'd \<Rightarrow> 'd) \<Rightarrow> 'd list \<Rightarrow> nat \<Rightarrow> 'd list \<times> nat" where
  "merkle_level hash2 ids n =
     (let i_max = n - n mod 2;
          (ids1, k) = fold (merkle_pair_step hash2) (map (\<lambda>j. 2 * j) [0..<i_max div 2]) (ids, 0)
      in if n mod 2 = 1 then (ids1[k := ids1 ! i_max], k + 1) else (ids1, k))"

lemma merkle_pairs_count:
  "snd (fold (merkle_pair_step hash2) is (ids, k)) = k + length is"
  "length (fst (fold (merkle_pair_step hash2) is (ids, k))) = length ids"
  by (induction "is" arbitrary: ids k) (simp_all add: merkle_pair_step_def)

lemma merkle_level_count: "snd (merkle_level hash2 ids n) = (n + 1) div 2"
proof -
  have "snd (fold (merkle_pair_step hash2) (map (\<lambda>j. 2 * j) [0..<(n - n mod 2) div 2]) (ids, 0)) = n div 2"
    unfolding merkle_pairs_count by simp presburger
  then show ?thesis
    by (cases "n mod 2 = 1") (auto simp: merkle_level_def Let_def split: prod.splits, presburger+)
qed

function merkle_loop :: "('d \<Rightarrow> 'd \<Rightarrow> 'd) \<Rightarrow> 'd list \<Rightarrow> nat \<Rightarrow> 'd list" where
  "merkle_loop hash2 ids n =
     (if 1 < n then (let (ids', k) = merkle_level hash2 ids n in merkle_loop hash2 ids' k) else ids)"
  by pat_completeness auto
termination
  by (relation "measure (\<lambda>(h, ids, n). n)") (auto simp: merkle_level_count [unfolded snd_def])

declare merkle_loop.simps [simp del]

text \<open>\<open>merkle_digest\<close> of a transaction, the hash of a pair of digests and the checksum are parameters.\<close>

definition calculate_merkle_root ::
  "('tx \<Rightarrow> 'd) \<Rightarrow> ('d \<Rightarrow> 'd \<Rightarrow> 'd) \<Rightarrow> ('d \<Rightarrow> block_id_type) \<Rightarrow> 'tx signed_block \<Rightarrow> block_id_type" where
  "calculate_merkle_root digest hash2 checksum b =
     (if transactions b = [] then null_id
      else (let ids = map digest (transactions b)
            in checksum (merkle_loop hash2 ids (length ids) ! 0)))"

text \<open>The reference: pair the neighbours of a list until one element is left.\<close>

fun pair_up :: "('d \<Rightarrow> 'd \<Rightarrow> 'd) \<Rightarrow> 'd list \<Rightarrow> 'd list" where
  "pair_up h [] = []"
| "pair_up h [x] = [x]"
| "pair_up h (x # y # zs) = h x y # pair_up h zs"

lemma length_pair_up [simp]: "length (pair_up h xs) = (length xs + 1) div 2"
  by (induction h xs rule: pair_up.induct) simp_all

function merkle_tree :: "('d \<Rightarrow> 'd \<Rightarrow> 'd) \<Rightarrow> 'd list \<Rightarrow> 'd option" where
  "merkle_tree h [] = None"
| "merkle_tree h [x] = Some x"
| "merkle_tree h (x # y # zs) = merkle_tree h (pair_up h (x # y # zs))"
  by pat_completeness auto
termination by (relation "measure (\<lambda>(h, xs). length xs)") auto

text \<open>The pairing loop, after \<open>j\<close> pairs: the front holds the first \<open>j\<close> results, the rest is as it was.\<close>

lemma merkle_pairs:
  assumes "2 * j \<le> length ids"
  shows "fold (merkle_pair_step h) (map (\<lambda>j. 2 * j) [0..<j]) (ids, 0)
    = (pair_up h (take (2 * j) ids) @ drop j ids, j)"
  using assms
proof (induction j)
  case 0
  then show ?case by simp
next
  case (Suc j)
  then have le: "2 * j \<le> length ids" and lt: "2 * j + 1 < length ids" by simp_all
  let ?p = "pair_up h (take (2 * j) ids)"
  have len: "length ?p = j" using le by simp
  have pu: "pair_up h (xs @ [a, b]) = pair_up h xs @ [h a b]" if "even (length xs)" for xs a b
    using that by (induction h xs rule: pair_up.induct) simp_all
  have t: "take (2 * Suc j) ids = take (2 * j) ids @ [ids ! (2 * j), ids ! (2 * j + 1)]"
    using lt by (simp add: take_Suc_conv_app_nth)
  have n: "(?p @ drop j ids) ! i = ids ! i" if "j \<le> i" "i < length ids" for i
    using that len by (simp add: nth_append)
  have d: "(?p @ drop j ids)[j := v] = ?p @ [v] @ drop (Suc j) ids" for v
    using len lt by (simp add: list_update_append Cons_nth_drop_Suc [symmetric])
  have e: "even (length (take (2 * j) ids))" using le by simp
  have "fold (merkle_pair_step h) (map (\<lambda>j. 2 * j) [0..<Suc j]) (ids, 0)
      = merkle_pair_step h (2 * j) (?p @ drop j ids, j)"
    using Suc.IH le by simp
  also have "\<dots> = (?p @ [h (ids ! (2 * j)) (ids ! (2 * j + 1))] @ drop (Suc j) ids, Suc j)"
    using n [of "2 * j"] n [of "2 * j + 1"] lt by (simp add: merkle_pair_step_def d)
  also have "?p @ [h (ids ! (2 * j)) (ids ! (2 * j + 1))] @ drop (Suc j) ids
      = pair_up h (take (2 * Suc j) ids) @ drop (Suc j) ids"
    unfolding t using pu [OF e] by simp
  finally show ?case .
qed

lemma merkle_level_reference:
  assumes "n \<le> length ids"
  shows "take ((n + 1) div 2) (fst (merkle_level h ids n)) = pair_up h (take n ids)"
    "(n + 1) div 2 \<le> length (fst (merkle_level h ids n))"
proof -
  define j' where "j' = (n - n mod 2) div 2"
  let ?j = j'
  have j: "2 * ?j = n - n mod 2" unfolding j'_def by presburger
  then have j: "2 * ?j = n - n mod 2" "2 * ?j \<le> length ids" using assms by simp_all
  have jdef: "(n - n mod 2) div 2 = ?j" by (simp add: j'_def)
  have len: "length (pair_up h (take (2 * ?j) ids)) = ?j" using j assms by simp
  have odd: "pair_up h (xs @ [a]) = pair_up h xs @ [a]" if "even (length xs)" for xs a
    using that by (induction h xs rule: pair_up.induct) simp_all
  have "take ((n + 1) div 2) (fst (merkle_level h ids n)) = pair_up h (take n ids) \<and>
    (n + 1) div 2 \<le> length (fst (merkle_level h ids n))"
  proof (cases "n mod 2 = 1")
    case False
    then have "n mod 2 = 0" by simp
    then have jn: "2 * ?j = n" "(n + 1) div 2 = ?j" using j by simp_all
    have "fst (merkle_level h ids n) = pair_up h (take (2 * ?j) ids) @ drop ?j ids"
      using merkle_pairs [OF j(2), of h] False unfolding merkle_level_def Let_def jdef by (simp only: prod.case if_False fst_conv)
    then show ?thesis using len jn assms by simp
  next
    case True
    then have jn: "2 * ?j + 1 = n" "(n + 1) div 2 = Suc ?j" "n - n mod 2 = 2 * ?j" "2 * ?j < length ids"
      using j assms by (presburger, presburger, simp, simp)
    have jj: "2 * ?j div 2 = ?j" by simp
    have nth: "(pair_up h (take (2 * ?j) ids) @ drop ?j ids) ! (2 * ?j) = ids ! (2 * ?j)"
      using len jn(4) by (simp add: nth_append mult_2)
    have "fst (merkle_level h ids n) = (pair_up h (take (2 * ?j) ids) @ drop ?j ids)[?j := ids ! (2 * ?j)]"
      using merkle_pairs [OF j(2), of h] True nth unfolding merkle_level_def Let_def jn(3)
      by (simp only: jj prod.case if_True fst_conv simp_thms)
    also have "\<dots> = pair_up h (take (2 * ?j) ids) @ ids ! (2 * ?j) # drop (Suc ?j) ids"
      using len jn(4) by (simp add: list_update_append Cons_nth_drop_Suc [symmetric])
    finally have l: "fst (merkle_level h ids n) = (pair_up h (take (2 * ?j) ids) @ [ids ! (2 * ?j)]) @ drop (Suc ?j) ids"
      by simp
    have "take n ids = take (2 * ?j) ids @ [ids ! (2 * ?j)]"
      using jn by (metis add.commute plus_1_eq_Suc take_Suc_conv_app_nth)
    then have "pair_up h (take n ids) = pair_up h (take (2 * ?j) ids) @ [ids ! (2 * ?j)]"
      using odd [of "take (2 * ?j) ids"] jn(4) by simp
    then show ?thesis unfolding l using len jn(2) by simp
  qed
  then show "take ((n + 1) div 2) (fst (merkle_level h ids n)) = pair_up h (take n ids)"
    "(n + 1) div 2 \<le> length (fst (merkle_level h ids n))" by blast+
qed

lemma merkle_loop_reference:
  assumes "n \<le> length ids" "0 < n"
  shows "merkle_tree h (take n ids) = Some (merkle_loop h ids n ! 0)"
  using assms
proof (induction h ids n rule: merkle_loop.induct)
  case (1 h ids n)
  show ?case
  proof (cases "1 < n")
    case True
    obtain ids' k where l: "merkle_level h ids n = (ids', k)" by fastforce
    have k: "k = (n + 1) div 2" using merkle_level_count [of h ids n] l by simp
    note ref = merkle_level_reference [OF 1(2), of h, unfolded l fst_conv]
    have "merkle_tree h (take k ids') = Some (merkle_loop h ids' k ! 0)"
      using 1(1) [OF True l [symmetric] refl] ref(2) k True by simp
    moreover have "merkle_tree h (take n ids) = merkle_tree h (pair_up h (take n ids))"
    proof -
      obtain x y zs where "take n ids = x # y # zs"
        using True 1(2) by (metis Suc_le_length_iff length_take min.absorb2 One_nat_def Suc_leI)
      then show ?thesis by simp
    qed
    ultimately show ?thesis using True l ref(1) k by (simp add: merkle_loop.simps [of h ids n])
  next
    case False
    then have "n = 1" using 1(3) by simp
    then have "take n ids = [ids ! 0]" using 1(2) by (cases ids) simp_all
    then show ?thesis using False by (simp add: merkle_loop.simps [of h ids n])
  qed
qed


subsection \<open>Collisions\<close>

text \<open>The pairs that the computation of a root hashes.\<close>

fun neighbours :: "'d list \<Rightarrow> ('d \<times> 'd) set" where
  "neighbours (x # y # zs) = insert (x, y) (neighbours zs)"
| "neighbours xs = {}"

function hashed :: "('d \<Rightarrow> 'd \<Rightarrow> 'd) \<Rightarrow> 'd list \<Rightarrow> ('d \<times> 'd) set" where
  "hashed h xs = (if length xs \<le> 1 then {} else neighbours xs \<union> hashed h (pair_up h xs))"
  by pat_completeness auto
termination
  by (relation "measure (\<lambda>(h, xs). length xs)") auto

declare hashed.simps [simp del]

text \<open>Two different pairs of a set have the same hash.\<close>

definition collision :: "('d \<Rightarrow> 'd \<Rightarrow> 'd) \<Rightarrow> ('d \<times> 'd) set \<Rightarrow> bool" where
  "collision h P \<longleftrightarrow> (\<exists>p \<in> P. \<exists>q \<in> P. p \<noteq> q \<and> h (fst p) (snd p) = h (fst q) (snd q))"

lemma collision_mono: "collision h P \<Longrightarrow> P \<subseteq> Q \<Longrightarrow> collision h Q"
  unfolding collision_def by blast

lemma pair_up_inj:
  assumes "\<not> collision h (neighbours xs \<union> neighbours ys)" "length xs = length ys" "pair_up h xs = pair_up h ys"
  shows "xs = ys"
  using assms
proof (induction h xs arbitrary: ys rule: pair_up.induct)
  case (1 h)
  then show ?case by simp
next
  case (2 h x)
  then show ?case by (cases ys) simp_all
next
  case (3 h x y zs)
  then obtain x' y' zs' where ys: "ys = x' # y' # zs'" by (metis Suc_length_conv length_Cons)
  let ?P = "neighbours (x # y # zs) \<union> neighbours ys"
  have e: "h x y = h x' y'" "pair_up h zs = pair_up h zs'" using 3(4) ys by simp_all
  have "(x, y) \<in> ?P" "(x', y') \<in> ?P" using ys by simp_all
  then have "(x, y) = (x', y')" using 3(2) e(1) unfolding collision_def by (metis fst_conv snd_conv)
  moreover have "neighbours zs \<union> neighbours zs' \<subseteq> ?P" using ys by auto
  then have "\<not> collision h (neighbours zs \<union> neighbours zs')" using 3(2) collision_mono by blast
  then have "zs = zs'" using 3(1) 3(3) e(2) ys by simp
  ultimately show ?case using ys by simp
qed

lemma merkle_tree_pair: "Suc 0 < length xs \<Longrightarrow> merkle_tree h xs = merkle_tree h (pair_up h xs)"
  by (cases "(h, xs)" rule: merkle_tree.cases) simp_all

lemma merkle_tree_inj:
  assumes "\<not> collision h (hashed h xs \<union> hashed h ys)" "length xs = length ys" "merkle_tree h xs = merkle_tree h ys"
  shows "xs = ys"
  using assms
proof (induction "length xs" arbitrary: xs ys rule: less_induct)
  case less
  show ?case
  proof (cases "Suc 0 < length xs")
    case True
    have hs: "hashed h xs = neighbours xs \<union> hashed h (pair_up h xs)" "hashed h ys = neighbours ys \<union> hashed h (pair_up h ys)"
      using True less.prems(2) by (simp_all add: hashed.simps [of h xs] hashed.simps [of h ys])
    have "merkle_tree h (pair_up h xs) = merkle_tree h (pair_up h ys)"
      using True less.prems by (simp add: merkle_tree_pair)
    moreover have "length (pair_up h xs) < length xs" "length (pair_up h xs) = length (pair_up h ys)"
      using True less.prems(2) by simp_all
    moreover have c: "\<not> collision h (hashed h (pair_up h xs) \<union> hashed h (pair_up h ys))"
      by (rule contrapos_nn [OF less.prems(1) collision_mono]) (auto simp: hs)
    ultimately have "pair_up h xs = pair_up h ys" using less.hyps by simp
    moreover have "\<not> collision h (neighbours xs \<union> neighbours ys)"
      by (rule contrapos_nn [OF less.prems(1) collision_mono]) (auto simp: hs)
    ultimately show ?thesis using pair_up_inj less.prems(2) by blast
  next
    case False
    then consider "xs = []" | x where "xs = [x]" by (cases xs) auto
    then show ?thesis
    proof cases
      case 1
      then show ?thesis using less.prems(2) by simp
    next
      case 2
      then obtain y where "ys = [y]" using less.prems(2) by (metis length_0_conv length_Suc_conv)
      then show ?thesis using 2 less.prems(3) by simp
    qed
  qed
qed

lemma merkle_tree_some: "xs \<noteq> [] \<Longrightarrow> \<exists>r. merkle_tree h xs = Some r"
proof (induction h xs rule: merkle_tree.induct)
  case (3 h x y zs)
  then show ?case by (simp del: pair_up.simps) (simp add: 3)
qed simp_all

lemma and_255: "(x :: 'a :: len word) AND 0xFF = take_bit 8 x"
proof -
  have "mask 8 = (0xFF :: 'a word)" by (simp add: mask_eq_exp_minus_1)
  then show ?thesis by (simp add: take_bit_eq_mask)
qed

lemma bit_endian_reverse_u32:
  "bit (endian_reverse_u32 x) n \<longleftrightarrow>
     (if n < 8 then bit x (n + 24) else if n < 16 then bit x (n + 8)
      else if n < 24 then bit x (n - 8) else if n < 32 then bit x (n - 24) else False)"
proof -
  consider "n < 8" | "8 \<le> n" "n < 16" | "16 \<le> n" "n < 24" | "24 \<le> n" "n < 32" | "32 \<le> n" by linarith
  then show ?thesis
  proof cases
    case 1
    then show ?thesis
      by (simp add: endian_reverse_u32_def and_255 bit_or_iff bit_push_bit_iff bit_take_bit_iff bit_drop_bit_eq add.commute)
  next
    case 2
    then have "16 + (n - 8) = n + 8" "n - 8 < 8" by simp_all
    then show ?thesis using 2
      by (simp add: endian_reverse_u32_def and_255 bit_or_iff bit_push_bit_iff bit_take_bit_iff bit_drop_bit_eq add.commute)
  next
    case 3
    then have "8 + (n - 16) = n - 8" "n - 16 < 8" "\<not> n - 8 < 8" by simp_all
    then show ?thesis using 3
      by (simp add: endian_reverse_u32_def and_255 bit_or_iff bit_push_bit_iff bit_take_bit_iff bit_drop_bit_eq add.commute)
  next
    case 4
    then have "n - 24 < 8" "\<not> n - 8 < 8" "\<not> n - 16 < 8" by simp_all
    then show ?thesis using 4
      by (simp add: endian_reverse_u32_def and_255 bit_or_iff bit_push_bit_iff bit_take_bit_iff bit_drop_bit_eq add.commute)
  next
    case 5
    then show ?thesis by (auto dest: bit_imp_le_length)
  qed
qed

lemma endian_reverse_involution [simp]: "endian_reverse_u32 (endian_reverse_u32 x) = x"
  by (rule bit_word_eqI) (auto simp: bit_endian_reverse_u32)

subsection \<open>Properties\<close>

text \<open>The id of a block carries its number, and so a block is numbered one above the block its
  \<open>previous\<close> names (modulo the width of the number), whatever the hash of the header is.\<close>
lemma block_id_carries_number:
  assumes "sha224 (signed_block_header.truncate b) \<noteq> []" "previous c = header_id sha224 b"
  shows "num_from_id (header_id sha224 b) = block_num b \<and> block_num c = block_num b + 1"
proof -
  have "header_id sha224 b ! 0 = endian_reverse_u32 (block_num b)"
    using assms(1) by (simp add: header_id_def Let_def)
  then have "num_from_id (header_id sha224 b) = block_num b" by (simp add: num_from_id_def)
  then show ?thesis using assms(2) by (simp add: block_num_def)
qed

definition demo_block :: "nat signed_block" where
  "demo_block = \<lparr>previous = [0x05000000, 1, 2, 3, 4], timestamp = 9, witness = 0,
     transaction_merkle_root = null_id, witness_signature = [], block_id = null_id, transactions = [3, 1, 2]\<rparr>"

lemma block_id_carries_number_witness:
  "num_from_id (header_id (\<lambda>h. [7, 7, 7, 7, 7, 7, 7]) demo_block) = block_num demo_block"
  using block_id_carries_number [of "\<lambda>h. [7, 7, 7, 7, 7, 7, 7]" demo_block
      "demo_block\<lparr>previous := header_id (\<lambda>h. [7, 7, 7, 7, 7, 7, 7]) demo_block\<rparr>"] by simp

text \<open>C23. The in-place computation of the Merkle root overwrites no digest it still needs: it gives the
  root of the tree that pairs neighbours, level by level, and carries an odd last digest up unchanged.\<close>
theorem merkle_root_reference:
  "calculate_merkle_root digest hash2 checksum b =
     (case merkle_tree hash2 (map digest (transactions b)) of None \<Rightarrow> null_id | Some r \<Rightarrow> checksum r)"
proof (cases "transactions b = []")
  case True
  then show ?thesis by (simp add: calculate_merkle_root_def)
next
  case False
  then have "merkle_tree hash2 (take (length (transactions b)) (map digest (transactions b)))
    = Some (merkle_loop hash2 (map digest (transactions b)) (length (transactions b)) ! 0)"
    by (intro merkle_loop_reference) simp_all
  then show ?thesis using False by (simp add: calculate_merkle_root_def Let_def)
qed

text \<open>The root commits to the transactions: when two blocks with as many transactions have the same root, they have the
  same transaction digests, or among the pairs that the two computations hash there are two with the same
  hash, or the two roots differ and have the same checksum.\<close>

lemma merkle_root_commits:
  assumes "length (transactions b) = length (transactions c)"
    and "calculate_merkle_root digest hash2 checksum b = calculate_merkle_root digest hash2 checksum c"
  shows "map digest (transactions b) = map digest (transactions c) \<or>
    collision hash2 (hashed hash2 (map digest (transactions b)) \<union> hashed hash2 (map digest (transactions c))) \<or>
    (\<exists>r s. merkle_tree hash2 (map digest (transactions b)) = Some r \<and> merkle_tree hash2 (map digest (transactions c)) = Some s \<and>
       r \<noteq> s \<and> checksum r = checksum s)"
proof (cases "transactions b = []")
  case True
  then show ?thesis using assms(1) by simp
next
  case False
  then have c: "transactions c \<noteq> []" using assms(1) by auto
  obtain r s where rs: "merkle_tree hash2 (map digest (transactions b)) = Some r"
      "merkle_tree hash2 (map digest (transactions c)) = Some s"
    using False c merkle_tree_some by (metis map_is_Nil_conv)
  have "checksum r = checksum s" using assms(2) rs unfolding merkle_root_reference by simp
  then show ?thesis using merkle_tree_inj [of hash2] assms(1) rs by (metis length_map)
qed

end
