(* ===== verification/Fork_Database.thy ===== *)
theory Fork_Database
  imports Block
begin

text \<open>
  The fork database (\<open>chain/fork_database.cpp\<close> and its header): the recent blocks of all forks, linked
  to their parents by weak pointers, a head, and a window of block numbers that is kept.

  An item has an address, its identity as a shared object.  An item lives while the index, the
  unlinked index or the head holds it; \<open>weak_ptr::lock\<close> finds it while it lives.  (References held by
  callers of the class are not counted.)  The index is the list of its items in insertion order:
  \<open>by_num\<close> is its stable sort, the hashed id index is unique.  \<open>sha224\<close> is the header hash.
\<close>

record 'tx fork_item =
  addr :: nat
  prev :: "nat option"
  num :: nat
  fid :: block_id_type
  data :: "'tx signed_block"

record 'tx fork_database =
  index :: "'tx fork_item list"
  unlinked_index :: "'tx fork_item list"
  head :: "'tx fork_item option"
  max_size :: nat
  next_addr :: nat

definition empty_fork_database :: "'tx fork_database" where
  "empty_fork_database =
     \<lparr>index = [], unlinked_index = [], head = None, max_size = 1024, next_addr = 0\<rparr>"

definition make_item :: "(signed_block_header \<Rightarrow> 32 word list) \<Rightarrow> nat \<Rightarrow> 'tx signed_block \<Rightarrow> 'tx fork_item" where
  "make_item sha224 a b =
     \<lparr>addr = a, prev = None, num = unat (block_num b), fid = header_id sha224 b, data = b\<rparr>"

definition previous_id :: "'tx fork_item \<Rightarrow> block_id_type" where
  "previous_id i = previous (data i)"

definition live :: "'tx fork_database \<Rightarrow> 'tx fork_item list" where
  "live db = index db @ unlinked_index db @ (case head db of None \<Rightarrow> [] | Some h \<Rightarrow> [h])"

definition lock :: "'tx fork_database \<Rightarrow> nat option \<Rightarrow> 'tx fork_item option" where
  "lock db p = (case p of None \<Rightarrow> None | Some a \<Rightarrow> find (\<lambda>i. addr i = a) (live db))"

definition find_id :: "block_id_type \<Rightarrow> 'tx fork_item list \<Rightarrow> 'tx fork_item option" where
  "find_id i xs = find (\<lambda>x. fid x = i) xs"

definition index_insert :: "'tx fork_item \<Rightarrow> 'tx fork_item list \<Rightarrow> 'tx fork_item list" where
  "index_insert x xs = (if find_id (fid x) xs = None then xs @ [x] else xs)"

text \<open>The loops that erase the first item by number while it is below a bound.\<close>

function erase_below :: "nat \<Rightarrow> 'tx fork_item list \<Rightarrow> 'tx fork_item list" where
  "erase_below m xs =
     (case sort_key num xs of
        [] \<Rightarrow> xs
      | i # rest \<Rightarrow> if num i < m then erase_below m (remove1 i xs) else xs)"
  by pat_completeness auto
termination
proof (relation "measure (\<lambda>(m, xs). length xs)", simp, clarsimp)
  fix m and xs rest :: "'tx fork_item list" and i
  assume "sort_key num xs = i # rest"
  then have "i \<in> set xs" by (metis list.set_intros(1) set_sort)
  then show "length (remove1 i xs) < length xs"
    by (simp add: length_remove1) (metis One_nat_def diff_less length_pos_if_in_set zero_less_one)
qed

declare erase_below.simps [simp del]

definition fork_reset :: "'tx fork_database \<Rightarrow> 'tx fork_database" where
  "fork_reset db = db\<lparr>head := None, index := []\<rparr>"

definition pop_block :: "'tx fork_database \<Rightarrow> 'tx fork_database result" where
  "pop_block db =
     (case head db of
        None \<Rightarrow> Inl AssertFailed
      | Some h \<Rightarrow>
          (case lock db (prev h) of
             None \<Rightarrow> Inl AssertFailed
           | Some p \<Rightarrow> Inr (db\<lparr>head := Some p\<rparr>)))"

definition start_block :: "(signed_block_header \<Rightarrow> 32 word list) \<Rightarrow> 'tx signed_block \<Rightarrow> 'tx fork_database \<Rightarrow> 'tx fork_database" where
  "start_block sha224 b db =
     (let item = make_item sha224 (next_addr db) b
      in db\<lparr>index := index_insert item (index db), head := Some item, next_addr := next_addr db + 1\<rparr>)"

definition link_item :: "'tx fork_item \<Rightarrow> 'tx fork_database \<Rightarrow> 'tx fork_item result" where
  "link_item item db =
     (if head db \<noteq> None \<and> previous_id item \<noteq> null_id
      then (case find_id (previous_id item) (index db) of
              None \<Rightarrow> Inl Unlinkable
            | Some p \<Rightarrow> Inr (item\<lparr>prev := Some (addr p)\<rparr>))
      else Inr item)"

definition insert_item :: "'tx fork_item \<Rightarrow> 'tx fork_database \<Rightarrow> 'tx fork_database" where
  "insert_item item db =
     (let db1 = db\<lparr>index := index_insert item (index db)\<rparr>
      in case head db1 of
           None \<Rightarrow> db1\<lparr>head := Some item\<rparr>
         | Some h \<Rightarrow>
             if num h < num item then
               (let min_num = num item - min (max_size db1) (num item);
                    old = nat ((int (num item) - int (max_size db1)) mod 2 ^ 32)
                in db1\<lparr>head := Some item, index := erase_below min_num (index db1),
                       unlinked_index := filter (\<lambda>i. num i \<noteq> old) (unlinked_index db1)\<rparr>)
             else db1)"

definition push_item :: "'tx fork_item \<Rightarrow> 'tx fork_database \<Rightarrow> 'tx fork_database result" where
  "push_item item db =
     assertE (case head db of None \<Rightarrow> True
              | Some h \<Rightarrow> max 0 (int (num h) - int (max_size db)) < int (num item))
       (bindE (link_item item db) (\<lambda>item. Inr (insert_item item db)))"

text \<open>\<open>push_block\<close> rethrows before it would cache an unlinkable block.\<close>

definition push_block :: "(signed_block_header \<Rightarrow> 32 word list) \<Rightarrow> 'tx signed_block \<Rightarrow> 'tx fork_database \<Rightarrow> 'tx fork_database result" where
  "push_block sha224 b db =
     push_item (make_item sha224 (next_addr db) b) (db\<lparr>next_addr := next_addr db + 1\<rparr>)"

definition fork_set_max_size :: "nat \<Rightarrow> 'tx fork_database \<Rightarrow> 'tx fork_database" where
  "fork_set_max_size s db =
     (let db1 = db\<lparr>max_size := s\<rparr>
      in case head db of
           None \<Rightarrow> db1
         | Some h \<Rightarrow>
             (let m = nat (max 0 (int (num h) - int s))
              in db1\<lparr>index := erase_below m (index db1), unlinked_index := erase_below m (unlinked_index db1)\<rparr>))"

definition is_known_block :: "block_id_type \<Rightarrow> 'tx fork_database \<Rightarrow> bool" where
  "is_known_block i db = (if find_id i (index db) \<noteq> None then True else find_id i (unlinked_index db) \<noteq> None)"

definition fetch_block :: "block_id_type \<Rightarrow> 'tx fork_database \<Rightarrow> 'tx fork_item option" where
  "fetch_block i db = (case find_id i (index db) of Some x \<Rightarrow> Some x | None \<Rightarrow> find_id i (unlinked_index db))"

definition fetch_block_by_number :: "nat \<Rightarrow> 'tx fork_database \<Rightarrow> 'tx fork_item list" where
  "fetch_block_by_number n db =
     takeWhile (\<lambda>i. num i = n) (dropWhile (\<lambda>i. num i \<noteq> n) (sort_key num (index db)))"

partial_function (option) climb ::
  "'tx fork_database \<Rightarrow> 'tx fork_item \<Rightarrow> 'tx fork_item \<Rightarrow> 'tx fork_item list \<Rightarrow>
   ('tx fork_item list \<times> 'tx fork_item) result option" where
  "climb db target it acc =
     (if block_num (data target) < block_num (data it)
      then (case lock db (prev it) of
              None \<Rightarrow> Some (Inl AssertFailed)
            | Some p \<Rightarrow> climb db target p (acc @ [it]))
      else Some (Inr (acc, it)))"

partial_function (option) climb_both ::
  "'tx fork_database \<Rightarrow> 'tx fork_item \<Rightarrow> 'tx fork_item \<Rightarrow> 'tx fork_item list \<Rightarrow> 'tx fork_item list \<Rightarrow>
   ('tx fork_item list \<times> 'tx fork_item list) result option" where
  "climb_both db a b xs ys =
     (if previous (data a) \<noteq> previous (data b)
      then (case lock db (prev a) of
              None \<Rightarrow> Some (Inl AssertFailed)
            | Some p \<Rightarrow>
                (case lock db (prev b) of
                   None \<Rightarrow> Some (Inl AssertFailed)
                 | Some q \<Rightarrow> climb_both db p q (xs @ [a]) (ys @ [b])))
      else Some (Inr (xs @ [a], ys @ [b])))"

definition fetch_branch_from ::
  "block_id_type \<Rightarrow> block_id_type \<Rightarrow> 'tx fork_database \<Rightarrow> ('tx fork_item list \<times> 'tx fork_item list) result option" where
  "fetch_branch_from first second db =
     (case find_id first (index db) of
        None \<Rightarrow> Some (Inl AssertFailed)
      | Some a0 \<Rightarrow>
          (case find_id second (index db) of
             None \<Rightarrow> Some (Inl AssertFailed)
           | Some b0 \<Rightarrow>
               (case climb db b0 a0 [] of
                  None \<Rightarrow> None
                | Some (Inl e) \<Rightarrow> Some (Inl e)
                | Some (Inr (xs, a)) \<Rightarrow>
                    (case climb db a b0 [] of
                       None \<Rightarrow> None
                     | Some (Inl e) \<Rightarrow> Some (Inl e)
                     | Some (Inr (ys, b)) \<Rightarrow> climb_both db a b xs ys))))"

definition set_head :: "'tx fork_item option \<Rightarrow> 'tx fork_database \<Rightarrow> 'tx fork_database" where
  "set_head h db = db\<lparr>head := h\<rparr>"

definition fork_remove :: "block_id_type \<Rightarrow> 'tx fork_database \<Rightarrow> 'tx fork_database" where
  "fork_remove i db =
     (let db1 = db\<lparr>index := filter (\<lambda>x. fid x \<noteq> i) (index db)\<rparr>
      in case head db1 of
           None \<Rightarrow> db1
         | Some h \<Rightarrow>
             if fid h = i then (case pop_block db1 of Inr db2 \<Rightarrow> db2 | Inl e \<Rightarrow> db1\<lparr>head := None\<rparr>)
             else db1)"


subsection \<open>Well-formed fork databases\<close>

lemma set_live: "set (live db) = set (index db) \<union> set (unlinked_index db) \<union> set_option (head db)"
  by (auto simp: live_def split: option.splits)

definition fork_wf :: "'tx fork_database \<Rightarrow> bool" where
  "fork_wf db \<longleftrightarrow>
     unlinked_index db = [] \<and> distinct (map fid (index db)) \<and>
     (\<forall>i \<in> set (live db). addr i < next_addr db \<and> num i = unat (block_num (data i)) \<and> (\<forall>p. prev i = Some p \<longrightarrow> p < addr i)) \<and>
     (\<forall>i \<in> set (live db). \<forall>j \<in> set (live db). addr i = addr j \<longrightarrow> i = j) \<and>
     (\<forall>i \<in> set (live db). \<forall>j \<in> set (live db). prev i = Some (addr j) \<longrightarrow> fid j = previous_id i)"

lemma fork_wf_item:
  assumes "fork_wf db" "i \<in> set (live db)"
  shows "addr i < next_addr db" "num i = unat (block_num (data i))" "prev i = Some p \<Longrightarrow> p < addr i"
  using assms unfolding fork_wf_def by blast+

lemma fork_wf_parent: "fork_wf db \<Longrightarrow> i \<in> set (live db) \<Longrightarrow> j \<in> set (live db) \<Longrightarrow> prev i = Some (addr j) \<Longrightarrow> fid j = previous_id i"
  unfolding fork_wf_def by blast

lemma fork_wf_basic:
  assumes "fork_wf db"
  shows "unlinked_index db = []" "distinct (map fid (index db))"
  using assms unfolding fork_wf_def by blast+

text \<open>Operations that only drop items.\<close>

lemma fork_wf_fewer:
  assumes "fork_wf db" "set (live db') \<subseteq> set (live db)" "next_addr db' = next_addr db"
    and "unlinked_index db' = []" "distinct (map fid (index db'))"
  shows "fork_wf db'"
  using assms unfolding fork_wf_def by (simp add: subset_iff)

text \<open>Operations that add one fresh item.\<close>

lemma fork_wf_add:
  assumes "fork_wf db" "set (live db') \<subseteq> insert x (set (live db))" "next_addr db' = Suc (next_addr db)"
    and "unlinked_index db' = []" "distinct (map fid (index db'))"
    and x: "addr x = next_addr db" "num x = unat (block_num (data x))"
    and p: "prev x = None \<or> (\<exists>j \<in> set (live db). prev x = Some (addr j) \<and> fid j = previous_id x)"
  shows "fork_wf db'"
proof -
  have old: "addr i < next_addr db" "num i = unat (block_num (data i))" "prev i = Some q \<Longrightarrow> q < addr i"
    if "i \<in> set (live db)" for i q
    using fork_wf_item [OF assms(1) that] by blast+
  have mem: "i = x \<or> i \<in> set (live db)" if "i \<in> set (live db')" for i using that assms(2) by blast
  have px: "q < addr x" if "prev x = Some q" for q using p that old(1) x(1) by auto
  have inj: "i = j" if "i \<in> set (live db')" "j \<in> set (live db')" "addr i = addr j" for i j
  proof -
    have "i = x \<or> i \<in> set (live db)" "j = x \<or> j \<in> set (live db)" using mem that(1,2) by blast+
    then consider "i = x" "j = x" | "i \<in> set (live db)" "j \<in> set (live db)" | "i = x" "j \<in> set (live db)" | "j = x" "i \<in> set (live db)"
      by blast
    then show ?thesis
    proof cases
      case 2
      then show ?thesis using that(3) assms(1) unfolding fork_wf_def by blast
    next
      case 3
      then show ?thesis using old(1) [of j] x(1) that(3) by simp
    next
      case 4
      then show ?thesis using old(1) [of i] x(1) that(3) by simp
    qed simp
  qed
  have par: "fid j = previous_id i" if pr: "i \<in> set (live db')" "j \<in> set (live db')" "prev i = Some (addr j)" for i j
  proof (cases "i = x")
    case True
    then obtain j' where j': "j' \<in> set (live db)" "addr j' = addr j" "fid j' = previous_id x"
      using p pr(3) by auto
    have "j \<noteq> x" using px [of "addr j"] pr(3) True by auto
    then have "j \<in> set (live db)" using mem pr(2) by blast
    then have "j = j'" using j' assms(1) unfolding fork_wf_def by metis
    then show ?thesis using j'(3) True by simp
  next
    case False
    then have i: "i \<in> set (live db)" using mem pr(1) by blast
    have "j \<noteq> x" using old(1,3) [OF i] pr(3) x(1) by fastforce
    then have "j \<in> set (live db)" using mem pr(2) by blast
    then show ?thesis using fork_wf_parent [OF assms(1) i] pr(3) by blast
  qed
  have each: "addr i < next_addr db' \<and> num i = unat (block_num (data i)) \<and> (\<forall>q. prev i = Some q \<longrightarrow> q < addr i)"
    if "i \<in> set (live db')" for i
    using mem [OF that] old px x assms(3) by (auto dest: less_SucI)
  show ?thesis
    unfolding fork_wf_def using assms(4,5) each inj par by blast
qed

lemma lock_live: "lock db p = Some x \<Longrightarrow> x \<in> set (live db) \<and> p = Some (addr x)"
  by (auto simp: lock_def find_Some_iff split: option.splits)

lemma lock_parent:
  assumes "fork_wf db" "i \<in> set (live db)" "lock db (prev i) = Some p"
  shows "p \<in> set (live db)" "fid p = previous_id i" "addr p < addr i"
  using lock_live [OF assms(3)] fork_wf_parent [OF assms(1,2), of p] fork_wf_item(3) [OF assms(1,2)] by auto

lemma erase_below_filter: "erase_below m xs = filter (\<lambda>i. m \<le> num i) xs"
proof (induction m xs rule: erase_below.induct)
  case (1 m xs)
  show ?case
  proof (cases "sort_key num xs")
    case Nil
    then have "xs = []" by (metis set_empty set_sort)
    then show ?thesis by (simp add: erase_below.simps [of m "[]"])
  next
    case (Cons i rest)
    then have i: "i \<in> set xs" by (metis list.set_intros(1) set_sort)
    have least: "num i \<le> num x" if "x \<in> set xs" for x
    proof -
      have "sorted (map num (i # rest))" using sorted_sort_key [of num xs] Cons by simp
      moreover have "x \<in> set (i # rest)" using that Cons by (metis set_sort)
      ultimately show ?thesis by auto
    qed
    show ?thesis
    proof (cases "num i < m")
      case True
      then have "erase_below m xs = filter (\<lambda>i. m \<le> num i) (remove1 i xs)"
        using 1 [OF Cons True] Cons by (simp add: erase_below.simps [of m xs])
      also have "\<dots> = filter (\<lambda>i. m \<le> num i) xs" using True by (simp add: filter_remove1 remove1_idem)
      finally show ?thesis .
    next
      case False
      then have "m \<le> num x" if "x \<in> set xs" for x using least [OF that] by simp
      then show ?thesis using False Cons by (simp add: erase_below.simps [of m xs])
    qed
  qed
qed

lemma find_id_Some: "find_id i xs = Some x \<Longrightarrow> x \<in> set xs \<and> fid x = i"
  by (auto simp: find_id_def find_Some_iff)

lemma find_id_None: "find_id i xs = None \<longleftrightarrow> i \<notin> fid ` set xs"
  by (auto simp: find_id_def find_None_iff)

lemma index_insert_set: "set xs \<subseteq> set (index_insert x xs)" "set (index_insert x xs) \<subseteq> insert x (set xs)"
  by (auto simp: index_insert_def)

lemma index_insert_distinct: "distinct (map fid xs) \<Longrightarrow> distinct (map fid (index_insert x xs))"
  by (auto simp: index_insert_def find_id_None)

lemma distinct_filter_map: "distinct (map f xs) \<Longrightarrow> distinct (map f (filter P xs))"
  by (induction xs) auto

lemma pop_block_Inr:
  "pop_block db = Inr db' \<longleftrightarrow> (\<exists>h p. head db = Some h \<and> lock db (prev h) = Some p \<and> db' = db\<lparr>head := Some p\<rparr>)"
  by (auto simp: pop_block_def split: option.splits)

lemma pop_block_wf:
  assumes "fork_wf db" "pop_block db = Inr db'"
  shows "fork_wf db'"
  by (rule fork_wf_fewer [OF assms(1)])
    (use assms in \<open>auto simp: pop_block_Inr set_live fork_wf_basic dest: lock_live\<close>)

lemma fork_reset_wf:
  assumes "fork_wf db"
  shows "fork_wf (fork_reset db)"
  by (rule fork_wf_fewer [OF assms]) (auto simp: fork_reset_def set_live fork_wf_basic [OF assms])

lemma fork_set_max_size_wf:
  assumes "fork_wf db"
  shows "fork_wf (fork_set_max_size s db)"
  by (rule fork_wf_fewer [OF assms])
    (auto simp: fork_set_max_size_def Let_def set_live fork_wf_basic [OF assms] erase_below_filter distinct_filter_map
      split: option.splits)

lemma set_head_wf:
  assumes "fork_wf db" "set_option h \<subseteq> set (live db)"
  shows "fork_wf (set_head h db)"
  by (rule fork_wf_fewer [OF assms(1)]) (use assms in \<open>auto simp: set_head_def set_live fork_wf_basic\<close>)

lemma fork_remove_wf:
  assumes "fork_wf db"
  shows "fork_wf (fork_remove i db)"
proof -
  let ?db1 = "db\<lparr>index := filter (\<lambda>x. fid x \<noteq> i) (index db)\<rparr>"
  have 1: "fork_wf ?db1"
    by (rule fork_wf_fewer [OF assms]) (auto simp: set_live fork_wf_basic [OF assms] distinct_filter_map)
  have "fork_wf (?db1\<lparr>head := None\<rparr>)"
    by (rule fork_wf_fewer [OF 1]) (auto simp: set_live fork_wf_basic [OF assms] distinct_filter_map)
  then show ?thesis
    using 1 pop_block_wf [OF 1] by (auto simp: fork_remove_def Let_def split: option.splits sum.splits)
qed

lemma start_block_wf:
  assumes "fork_wf db"
  shows "fork_wf (start_block sha224 b db)"
  by (rule fork_wf_add [OF assms, where x = "make_item sha224 (next_addr db) b"])
    (use index_insert_set(2) in \<open>auto simp: start_block_def Let_def set_live fork_wf_basic [OF assms] make_item_def
      intro!: index_insert_distinct\<close>)

lemma link_item_Inr:
  assumes "link_item item db = Inr x"
  shows "x = item \<or> (\<exists>p \<in> set (index db). x = item\<lparr>prev := Some (addr p)\<rparr> \<and> fid p = previous_id item)"
    "addr x = addr item" "num x = num item" "data x = data item" "fid x = fid item"
  using assms by (auto simp: link_item_def dest!: find_id_Some split: if_splits option.splits)

lemma insert_item_fields:
  "next_addr (insert_item x db) = next_addr db" "max_size (insert_item x db) = max_size db"
  "set (index (insert_item x db)) \<subseteq> insert x (set (index db))"
  "head (insert_item x db) = (case head db of None \<Rightarrow> Some x | Some h \<Rightarrow> if num h < num x then Some x else Some h)"
  "unlinked_index db = [] \<Longrightarrow> unlinked_index (insert_item x db) = []"
  "distinct (map fid (index db)) \<Longrightarrow> distinct (map fid (index (insert_item x db)))"
  using index_insert_set(2) [of x "index db"]
  by (auto simp: insert_item_def Let_def erase_below_filter index_insert_distinct distinct_filter_map split: option.splits if_splits)

lemma index_insert_item:
  "index (insert_item x db) =
    (case head db of None \<Rightarrow> index_insert x (index db)
     | Some h \<Rightarrow> if num h < num x then filter (\<lambda>i. num x - max_size db \<le> num i) (index_insert x (index db))
                else index_insert x (index db))"
  by (auto simp: insert_item_def Let_def erase_below_filter min_def split: option.splits)

lemma push_item_Inr:
  "push_item item db = Inr db' \<longleftrightarrow>
     (\<forall>h. head db = Some h \<longrightarrow> num h - max_size db < num item) \<and>
     (head db \<noteq> None \<longrightarrow> 0 < num item) \<and>
     (\<exists>x. link_item item db = Inr x \<and> db' = insert_item x db)"
  by (auto simp: push_item_def result_simps split: option.splits)

lemma push_block_wf:
  assumes "fork_wf db" "push_block sha224 b db = Inr db'"
  shows "fork_wf db'"
proof -
  let ?db = "db\<lparr>next_addr := next_addr db + 1\<rparr>" and ?item = "make_item sha224 (next_addr db) b"
  from assms(2) obtain x where x: "link_item ?item ?db = Inr x" "db' = insert_item x ?db"
    by (auto simp: push_block_def push_item_Inr)
  note l = link_item_Inr [OF x(1)]
  show ?thesis
  proof (rule fork_wf_add [OF assms(1), where x = x])
    show "set (live db') \<subseteq> insert x (set (live db))"
      using insert_item_fields(3-5) [where x = x and db = ?db] fork_wf_basic(1) [OF assms(1)] unfolding x(2) set_live
      by (auto split: option.splits if_splits)
    show "prev x = None \<or> (\<exists>j\<in>set (live db). prev x = Some (addr j) \<and> fid j = previous_id x)"
      using l(1) by (auto simp: make_item_def set_live previous_id_def)
  qed (simp_all add: x(2) insert_item_fields fork_wf_basic [OF assms(1)] l(2-5), simp_all add: make_item_def)
qed


subsection \<open>Branches\<close>

fun linked :: "'tx fork_item list \<Rightarrow> bool" where
  "linked (x # y # zs) = (fid y = previous_id x \<and> linked (y # zs))"
| "linked xs = True"

text \<open>\<open>acc\<close> is a linked path that leads to \<open>it\<close>.\<close>

definition leads :: "'tx fork_item list \<Rightarrow> 'tx fork_item \<Rightarrow> bool" where
  "leads acc it \<longleftrightarrow> linked (acc @ [it])"

lemma linked_snoc: "linked (xs @ [a, b]) \<longleftrightarrow> linked (xs @ [a]) \<and> fid b = previous_id a"
  by (induction xs rule: linked.induct) auto

lemma leads_step: "leads acc it \<Longrightarrow> fid p = previous_id it \<Longrightarrow> leads (acc @ [it]) p"
  by (simp add: leads_def linked_snoc)

lemma leads_nil: "leads [] it"
  by (simp add: leads_def)

text \<open>Both loops go from an item to its parent, whose address is smaller: they end.\<close>

lemma climb_returns:
  assumes "fork_wf db" "it \<in> set (live db)"
  shows "\<exists>r. climb db target it acc = Some r"
  using assms(2)
proof (induction "addr it" arbitrary: it acc rule: less_induct)
  case less
  show ?case
  proof (cases "block_num (data target) < block_num (data it)")
    case False
    then show ?thesis by (subst climb.simps) simp
  next
    case True
    show ?thesis
    proof (cases "lock db (prev it)")
      case None
      then show ?thesis using True by (subst climb.simps) simp
    next
      case (Some p)
      note par = lock_parent [OF assms(1) less.prems Some]
      obtain r where "climb db target p (acc @ [it]) = Some r" using less.hyps [OF par(3) par(1)] by blast
      then show ?thesis using True Some by (subst climb.simps) simp
    qed
  qed
qed

lemma climb_result:
  assumes "fork_wf db" "it \<in> set (live db)" "leads acc it" "climb db target it acc = Some (Inr (xs, a))"
  shows "leads xs a \<and> a \<in> set (live db) \<and> block_num (data a) \<le> block_num (data target) \<and>
    hd (xs @ [a]) = hd (acc @ [it]) \<and> (\<forall>x \<in> set xs. x \<in> set acc \<or> block_num (data target) < block_num (data x))"
  using assms(2-4)
proof (induction "addr it" arbitrary: it acc rule: less_induct)
  case less
  show ?case
  proof (cases "block_num (data target) < block_num (data it)")
    case False
    then have "xs = acc" "a = it" using less.prems(3) by (subst (asm) climb.simps, simp)+
    then show ?thesis using less.prems False by auto
  next
    case True
    then obtain p where p: "lock db (prev it) = Some p" "climb db target p (acc @ [it]) = Some (Inr (xs, a))"
      using less.prems(3) by (subst (asm) climb.simps) (auto split: option.splits)
    note par = lock_parent [OF assms(1) less.prems(1) p(1)]
    have "leads (acc @ [it]) p" using leads_step less.prems(2) par(2) by blast
    from less.hyps [OF par(3) par(1) this p(2)] show ?thesis using True by (auto simp: hd_append)
  qed
qed

lemma climb_both_returns:
  assumes "fork_wf db" "a \<in> set (live db)" "b \<in> set (live db)"
  shows "\<exists>r. climb_both db a b xs ys = Some r"
  using assms(2,3)
proof (induction "addr a" arbitrary: a b xs ys rule: less_induct)
  case less
  show ?case
  proof (cases "previous (data a) \<noteq> previous (data b)")
    case False
    then show ?thesis by (subst climb_both.simps) simp
  next
    case True
    show ?thesis
    proof (cases "lock db (prev a)")
      case None
      then show ?thesis using True by (subst climb_both.simps) simp
    next
      case (Some p)
      note pa = lock_parent [OF assms(1) less.prems(1) Some]
      show ?thesis
      proof (cases "lock db (prev b)")
        case None
        then show ?thesis using True Some by (subst climb_both.simps) simp
      next
        case q: (Some q)
        note pb = lock_parent [OF assms(1) less.prems(2) q]
        obtain r where "climb_both db p q (xs @ [a]) (ys @ [b]) = Some r" using less.hyps [OF pa(3) pa(1) pb(1)] by blast
        then show ?thesis using True Some q by (subst climb_both.simps) simp
      qed
    qed
  qed
qed

text \<open>The two climbing paths are extended by equally many items, whose parents differ up to the last.\<close>

lemma climb_both_result:
  assumes "fork_wf db" "a \<in> set (live db)" "b \<in> set (live db)" "leads xs a" "leads ys b"
    and "climb_both db a b xs ys = Some (Inr (us, vs))"
  shows "\<exists>us' vs'. us = xs @ us' \<and> vs = ys @ vs' \<and> length us' = length vs' \<and> us' \<noteq> [] \<and> linked us \<and> linked vs \<and>
    previous_id (last us) = previous_id (last vs) \<and>
    (\<forall>(u, v) \<in> set (butlast (zip us' vs')). previous_id u \<noteq> previous_id v)  \<and> hd us' = a \<and> hd vs' = b"
  using assms(2-6)
proof (induction "addr a" arbitrary: a b xs ys rule: less_induct)
  case less
  show ?case
  proof (cases "previous (data a) \<noteq> previous (data b)")
    case False
    then have "us = xs @ [a]" "vs = ys @ [b]" using less.prems(5) by (subst (asm) climb_both.simps, simp)+
    then show ?thesis using less.prems False
      by (intro exI [of _ "[a]"] exI [of _ "[b]"]) (simp add: leads_def previous_id_def)
  next
    case True
    then obtain p q where p: "lock db (prev a) = Some p" and q: "lock db (prev b) = Some q"
      and r: "climb_both db p q (xs @ [a]) (ys @ [b]) = Some (Inr (us, vs))"
      using less.prems(5) by (subst (asm) climb_both.simps) (auto split: option.splits)
    note pa = lock_parent [OF assms(1) less.prems(1) p] and pb = lock_parent [OF assms(1) less.prems(2) q]
    obtain us' vs' where e: "us = (xs @ [a]) @ us'" "vs = (ys @ [b]) @ vs'" "length us' = length vs'" "us' \<noteq> []"
      "linked us" "linked vs" "previous_id (last us) = previous_id (last vs)"
      "\<forall>(u, v) \<in> set (butlast (zip us' vs')). previous_id u \<noteq> previous_id v"
      using less.hyps [OF pa(3) pa(1) pb(1) leads_step [OF less.prems(3) pa(2)] leads_step [OF less.prems(4) pb(2)] r] by blast
    then show ?thesis using True
      by (intro exI [of _ "a # us'"] exI [of _ "b # vs'"]) (auto simp: previous_id_def)
  qed
qed


subsection \<open>Runs\<close>

datatype 'tx fork_op =
    Push "'tx signed_block"
  | Pop
  | Start "'tx signed_block"
  | Remove block_id_type
  | SetHead block_id_type
  | Resize nat
  | Reset

text \<open>An operation that throws leaves the fork database as it was: every check precedes the first change.  The one caller
  of \<open>set_head\<close> gives it an item of the index.\<close>

fun fork_step :: "(signed_block_header \<Rightarrow> 32 word list) \<Rightarrow> 'tx fork_op \<Rightarrow> 'tx fork_database \<Rightarrow> 'tx fork_database" where
  "fork_step sha224 (Push b) db = (case push_block sha224 b db of Inr db' \<Rightarrow> db' | Inl e \<Rightarrow> db)"
| "fork_step sha224 Pop db = (case pop_block db of Inr db' \<Rightarrow> db' | Inl e \<Rightarrow> db)"
| "fork_step sha224 (Start b) db = start_block sha224 b db"
| "fork_step sha224 (Remove i) db = fork_remove i db"
| "fork_step sha224 (SetHead i) db = (case find_id i (index db) of Some x \<Rightarrow> set_head (Some x) db | None \<Rightarrow> db)"
| "fork_step sha224 (Resize n) db = fork_set_max_size n db"
| "fork_step sha224 Reset db = fork_reset db"

definition fork_run :: "(signed_block_header \<Rightarrow> 32 word list) \<Rightarrow> 'tx fork_op list \<Rightarrow> 'tx fork_database" where
  "fork_run sha224 ops = fold (fork_step sha224) ops empty_fork_database"

lemma fork_run_invariant:
  assumes "P empty_fork_database" "\<And>op db. op \<in> set ops \<Longrightarrow> P db \<Longrightarrow> P (fork_step sha224 op db)"
  shows "P (fork_run sha224 ops)"
proof -
  have "P db \<Longrightarrow> P (fold (fork_step sha224) ops db)" for db
    using assms(2) by (induction ops arbitrary: db) auto
  then show ?thesis using assms(1) by (simp add: fork_run_def)
qed

lemma fork_wf_empty: "fork_wf empty_fork_database"
  by (simp add: fork_wf_def empty_fork_database_def live_def)

lemma set_head_indexed_wf: "fork_wf db \<Longrightarrow> find_id i (index db) = Some x \<Longrightarrow> fork_wf (set_head (Some x) db)"
  by (rule set_head_wf) (auto simp: set_live dest: find_id_Some)

lemma fork_wf_step: "fork_wf db \<Longrightarrow> fork_wf (fork_step sha224 op db)"
  by (cases op) (auto intro: push_block_wf pop_block_wf start_block_wf fork_remove_wf fork_set_max_size_wf fork_reset_wf
      set_head_indexed_wf split: sum.splits option.splits)

lemma fork_wf_run: "fork_wf (fork_run sha224 ops)"
  by (rule fork_run_invariant [where P = fork_wf, OF fork_wf_empty fork_wf_step])

text \<open>Ids are the ids of the blocks.\<close>

definition fork_ids :: "(signed_block_header \<Rightarrow> 32 word list) \<Rightarrow> 'tx fork_database \<Rightarrow> bool" where
  "fork_ids sha224 db \<longleftrightarrow> (\<forall>i \<in> set (live db). fid i = header_id sha224 (data i))"

lemma fork_ids_subset: "fork_ids sha224 db \<Longrightarrow> set (live db') \<subseteq> set (live db) \<Longrightarrow> fork_ids sha224 db'"
  unfolding fork_ids_def by blast

lemma fork_ids_add:
  "fork_ids sha224 db \<Longrightarrow> set (live db') \<subseteq> insert x (set (live db)) \<Longrightarrow> fid x = header_id sha224 (data x) \<Longrightarrow> fork_ids sha224 db'"
  unfolding fork_ids_def by blast

lemma push_block_added:
  assumes "push_block sha224 b db = Inr db'" "unlinked_index db = []"
  obtains x where "link_item (make_item sha224 (next_addr db) b) (db\<lparr>next_addr := next_addr db + 1\<rparr>) = Inr x"
    "db' = insert_item x (db\<lparr>next_addr := next_addr db + 1\<rparr>)"
    "fid x = header_id sha224 b" "num x = unat (block_num b)" "data x = b"
    "set (live db') \<subseteq> insert x (set (live db))"
proof -
  let ?db = "db\<lparr>next_addr := next_addr db + 1\<rparr>" and ?item = "make_item sha224 (next_addr db) b"
  from assms(1) obtain x where x: "link_item ?item ?db = Inr x" "db' = insert_item x ?db"
    by (auto simp: push_block_def push_item_Inr)
  have "set (live db') \<subseteq> insert x (set (live db))"
    using insert_item_fields(3-5) [where x = x and db = ?db] assms(2) unfolding x(2) set_live
    by (auto split: option.splits if_splits)
  then show thesis using that x link_item_Inr [OF x(1)] by (simp add: make_item_def)
qed

lemma live_fewer:
  "pop_block db = Inr db' \<Longrightarrow> set (live db') \<subseteq> set (live db)"
  "set (live (fork_reset db)) \<subseteq> set (live db)"
  "set (live (fork_set_max_size n db)) \<subseteq> set (live db)"
  "set (live (fork_remove i db)) \<subseteq> set (live db)"
proof -
  show pop: "set (live db') \<subseteq> set (live db)" if "pop_block db = Inr db'" for db db' :: "'a fork_database"
    using that by (auto simp: pop_block_Inr set_live dest: lock_live)
  show "set (live (fork_reset db)) \<subseteq> set (live db)" by (auto simp: fork_reset_def set_live)
  show "set (live (fork_set_max_size n db)) \<subseteq> set (live db)"
    by (auto simp: fork_set_max_size_def Let_def set_live erase_below_filter split: option.splits)
  let ?db1 = "db\<lparr>index := filter (\<lambda>x. fid x \<noteq> i) (index db)\<rparr>"
  have "set (live ?db1) \<subseteq> set (live db)" by (auto simp: set_live)
  then show "set (live (fork_remove i db)) \<subseteq> set (live db)"
    using pop [of ?db1] by (auto simp: fork_remove_def Let_def set_live split: option.splits sum.splits if_splits)
qed

lemma fork_ids_step:
  assumes "fork_wf db" "fork_ids sha224 db"
  shows "fork_ids sha224 (fork_step sha224 op db)"
proof (cases op)
  case (Push b)
  show ?thesis
  proof (cases "push_block sha224 b db")
    case (Inr db')
    obtain x where "fid x = header_id sha224 b" "data x = b" "set (live db') \<subseteq> insert x (set (live db))"
      using push_block_added [OF Inr fork_wf_basic(1) [OF assms(1)]] by blast
    then have "fork_ids sha224 db'" using fork_ids_add [OF assms(2)] by blast
    then show ?thesis using Push Inr by simp
  qed (use Push assms in simp)
next
  case (Start b)
  have "set (live (start_block sha224 b db)) \<subseteq> insert (make_item sha224 (next_addr db) b) (set (live db))"
    using index_insert_set(2) by (auto simp: start_block_def Let_def set_live)
  then show ?thesis
    using fork_ids_add [OF assms(2)] Start by (simp add: make_item_def)
next
  case (SetHead i)
  have "set (live (fork_step sha224 op db)) \<subseteq> set (live db)"
    using SetHead by (auto simp: set_live set_head_def split: option.splits dest: find_id_Some)
  then show ?thesis by (rule fork_ids_subset [OF assms(2)])
qed (auto intro: fork_ids_subset [OF assms(2) live_fewer(1)] fork_ids_subset [OF assms(2) live_fewer(2)]
    fork_ids_subset [OF assms(2) live_fewer(3)] fork_ids_subset [OF assms(2) live_fewer(4)] simp: assms(2) split: sum.splits)

lemma fork_ids_run: "fork_ids sha224 (fork_run sha224 ops)"
proof -
  have "fork_wf (fork_run sha224 ops) \<and> fork_ids sha224 (fork_run sha224 ops)"
    by (rule fork_run_invariant [where P = "\<lambda>db. fork_wf db \<and> fork_ids sha224 db"])
      (auto simp: fork_wf_empty fork_wf_step fork_ids_step, simp add: fork_ids_def empty_fork_database_def live_def)
  then show ?thesis by blast
qed

lemma id_number:
  assumes "\<And>h. sha224 h \<noteq> []"
  shows "num_from_id (header_id sha224 b) = block_num b"
  using assms [of "signed_block_header.truncate b"] by (simp add: header_id_def num_from_id_def Let_def)

lemma find_id_index_insert: "find_id (fid x) (index_insert x xs) \<noteq> None"
  by (auto simp: index_insert_def find_id_None)

lemma known_iff: "unlinked_index db = [] \<Longrightarrow> is_known_block i db \<longleftrightarrow> i \<in> fid ` set (index db)"
  by (auto simp: is_known_block_def find_id_None)

lemma pushed_known:
  assumes "\<And>h. sha224 h \<noteq> []" "fork_wf db" "fork_ids sha224 db" "push_block sha224 b db = Inr db'"
  shows "is_known_block (header_id sha224 b) db'"
proof -
  let ?db = "db\<lparr>next_addr := next_addr db + 1\<rparr>"
  obtain x where x: "db' = insert_item x ?db" "fid x = header_id sha224 b" "num x = unat (block_num b)" "data x = b"
      "set (live db') \<subseteq> insert x (set (live db))"
    using push_block_added [OF assms(4) fork_wf_basic(1) [OF assms(2)]] by blast
  obtain y where y: "y \<in> set (index_insert x (index db))" "fid y = fid x"
    using find_id_index_insert [of x "index db"] by (auto simp: find_id_None)
  have "y = x \<or> y \<in> set (live db)" using y(1) index_insert_set(2) by (auto simp: set_live)
  then have "num y = num x"
  proof
    assume l: "y \<in> set (live db)"
    then have "fid y = header_id sha224 (data y)" using assms(3) unfolding fork_ids_def by blast
    then have "block_num (data y) = block_num b" using y(2) x(2) id_number [of sha224, OF assms(1)] by metis
    then show ?thesis using fork_wf_item(2) [OF assms(2) l] x(3) by simp
  qed simp
  then have "y \<in> set (index db')"
    using y(1) unfolding x(1) index_insert_item by (auto split: option.splits)
  moreover have "unlinked_index db' = []" unfolding x(1) by (rule insert_item_fields(5)) (simp add: fork_wf_basic [OF assms(2)])
  ultimately show ?thesis using known_iff [of db'] y(2) x(2) by (metis image_eqI)
qed


text \<open>Without \<open>pop_block\<close>, \<open>start_block\<close> and \<open>remove\<close> the head is the highest block, and the index holds no
  block more than \<open>_max_size\<close> below it.\<close>

fun forward_op :: "'tx fork_op \<Rightarrow> bool" where
  "forward_op (Push b) = True"
| "forward_op (Resize n) = True"
| "forward_op Reset = True"
| "forward_op _ = False"

definition window :: "'tx fork_database \<Rightarrow> bool" where
  "window db \<longleftrightarrow>
     (case head db of
        None \<Rightarrow> index db = []
      | Some h \<Rightarrow> list_all (\<lambda>i. num i \<le> num h \<and> num h - max_size db \<le> num i) (index db))"

lemma insert_item_window:
  assumes "window db" "\<And>h. head db = Some h \<Longrightarrow> num h - max_size db < num x"
  shows "window (insert_item x db)"
proof (cases "head db")
  case None
  then show ?thesis
    using assms(1) by (simp add: window_def insert_item_fields index_insert_item index_insert_def)
next
  case (Some h)
  have "i = x \<or> i \<in> set (index db)" if "i \<in> set (index_insert x (index db))" for i
    using that index_insert_set(2) by blast
  note mem = this
  have old: "num i \<le> num h \<and> num h - max_size db \<le> num i" if "i \<in> set (index db)" for i
    using that assms(1) Some by (auto simp: window_def list_all_iff)
  have "num i \<le> (if num h < num x then num x else num h) \<and> num h - max_size db \<le> num i"
    if "i \<in> set (index_insert x (index db))" for i
    using mem [OF that] old assms(2) [OF Some] by (cases "i = x") force+
  then have "\<forall>i \<in> set (index_insert x (index db)). num i \<le> (if num h < num x then num x else num h) \<and> num h - max_size db \<le> num i"
    by blast
  then show ?thesis
    using Some by (cases "num h < num x") (auto simp: window_def insert_item_fields index_insert_item list_all_iff)
qed

lemma window_step: "fork_wf db \<Longrightarrow> window db \<Longrightarrow> forward_op op \<Longrightarrow> window (fork_step sha224 op db)"
proof (cases op)
  case (Push b)
  assume w: "fork_wf db" "window db"
  let ?db = "db\<lparr>next_addr := next_addr db + 1\<rparr>"
  have "window db'" if "push_block sha224 b db = Inr db'" for db'
  proof -
    from that obtain x where x: "link_item (make_item sha224 (next_addr db) b) ?db = Inr x" "db' = insert_item x ?db"
        "\<And>h. head db = Some h \<Longrightarrow> num h - max_size db < num (make_item sha224 (next_addr db) b)"
      by (auto simp: push_block_def push_item_Inr)
    have "window ?db" using w(2) by (simp add: window_def cong: option.case_cong)
    then show ?thesis unfolding x(2) using link_item_Inr(3) [OF x(1)] x(3) by (intro insert_item_window) simp_all
  qed
  then show ?thesis using Push w(2) by (auto split: sum.splits)
next
  case (Resize n)
  assume w: "window db"
  then show ?thesis
    using Resize by (auto simp: window_def fork_set_max_size_def Let_def erase_below_filter list_all_iff split: option.splits)
next
  case Reset
  then show ?thesis by (simp add: window_def fork_reset_def)
qed simp_all

lemma window_cond: "max 0 (int a - int m) < int k \<longleftrightarrow> 0 < k \<and> a - m < k"
  by linarith

text \<open>Numbers go down by one from a block to its parent, so the first loop stops level with its target.\<close>

lemma parent_number:
  assumes "\<And>h. sha224 h \<noteq> []" "fork_wf db" "fork_ids sha224 db" "i \<in> set (live db)" "lock db (prev i) = Some p"
  shows "block_num (data i) = block_num (data p) + 1"
proof -
  note par = lock_parent [OF assms(2,4,5)]
  have "header_id sha224 (data p) = previous (data i)"
    using assms(3) par(1,2) unfolding fork_ids_def previous_id_def by metis
  then show ?thesis using id_number [of sha224 "data p", OF assms(1)] by (simp add: block_num_def)
qed

lemma succ_above: "t < (w :: 32 word) + 1 \<Longrightarrow> t \<le> w"
proof -
  assume "t < w + 1"
  then show "t \<le> w"
  proof (cases "w + 1 = 0")
    case False
    then have "unat (1 + w) = Suc (unat w)" by (intro unatSuc) (simp add: add.commute)
    then show ?thesis using \<open>t < w + 1\<close> by (simp add: word_less_nat_alt word_le_nat_alt add.commute)
  qed simp
qed

lemma climb_level:
  assumes "\<And>h. sha224 h \<noteq> []" "fork_wf db" "fork_ids sha224 db" "it \<in> set (live db)"
    and "climb db target it acc = Some (Inr (xs, a))" "block_num (data target) \<le> block_num (data it)"
  shows "block_num (data a) = block_num (data target)"
  using assms(4-6)
proof (induction "addr it" arbitrary: it acc rule: less_induct)
  case less
  show ?case
  proof (cases "block_num (data target) < block_num (data it)")
    case False
    then have "a = it" using less.prems(2) by (subst (asm) climb.simps, simp)
    then show ?thesis using False less.prems(3) by simp
  next
    case True
    then obtain p where p: "lock db (prev it) = Some p" "climb db target p (acc @ [it]) = Some (Inr (xs, a))"
      using less.prems(2) by (subst (asm) climb.simps) (auto split: option.splits)
    note par = lock_parent [OF assms(2) less.prems(1) p(1)]
    have "block_num (data it) = block_num (data p) + 1"
      by (rule parent_number [OF assms(1-3) less.prems(1) p(1)])
    then have "block_num (data target) \<le> block_num (data p)" using True succ_above by simp
    then show ?thesis using less.hyps [OF par(3) par(1) p(2)] by blast
  qed
qed

lemma climb_below:
  "block_num (data it) \<le> block_num (data target) \<Longrightarrow> climb db target it acc = Some (Inr (acc, it))"
  by (subst climb.simps) (simp add: linorder_not_less [symmetric])

lemma fetch_branch_Inr:
  assumes "\<And>h. sha224 h \<noteq> []" "fork_wf db" "fork_ids sha224 db"
    and "fetch_branch_from first second db = Some (Inr (us, vs))"
  shows "us \<noteq> [] \<and> vs \<noteq> [] \<and> fid (hd us) = first \<and> fid (hd vs) = second \<and> linked us \<and> linked vs \<and>
       previous_id (last us) = previous_id (last vs) \<and>
       list_all (\<lambda>(u, v). previous_id u \<noteq> previous_id v) (tl (zip (rev us) (rev vs)))"
proof -
  from assms(4) obtain a0 b0 xs ys a b where f: "find_id first (index db) = Some a0" "find_id second (index db) = Some b0"
    and c: "climb db b0 a0 [] = Some (Inr (xs, a))" "climb db a b0 [] = Some (Inr (ys, b))"
      "climb_both db a b xs ys = Some (Inr (us, vs))"
    by (auto simp: fetch_branch_from_def split: option.splits sum.splits prod.splits)
  have live: "a0 \<in> set (live db)" "b0 \<in> set (live db)" "fid a0 = first" "fid b0 = second"
    using find_id_Some [OF f(1)] find_id_Some [OF f(2)] by (auto simp: set_live)
  note ra = climb_result [OF assms(2) live(1) leads_nil c(1)] and rb = climb_result [OF assms(2) live(2) leads_nil c(2)]
  obtain us' vs' where e: "us = xs @ us'" "vs = ys @ vs'" "length us' = length vs'" "us' \<noteq> []" "linked us" "linked vs"
      "previous_id (last us) = previous_id (last vs)" "hd us' = a" "hd vs' = b"
      "\<forall>(u, v) \<in> set (butlast (zip us' vs')). previous_id u \<noteq> previous_id v"
    using climb_both_result [OF assms(2) _ _ _ _ c(3)] ra rb by blast
  have "xs = [] \<or> ys = []"
  proof (cases "block_num (data a0) \<le> block_num (data b0)")
    case True
    then show ?thesis using climb_below [of a0 b0 db "[]"] c(1) by simp
  next
    case False
    then have "block_num (data a) = block_num (data b0)" using climb_level [OF assms(1-3) live(1) c(1)] by simp
    then show ?thesis using climb_below [of b0 a db "[]"] c(2) by simp
  qed
  then have "zip (rev us) (rev vs) = zip (rev us') (rev vs')" using e(1-3) by (auto simp: zip_append1 zip_append2)
  then have z: "tl (zip (rev us) (rev vs)) = rev (butlast (zip us' vs'))"
    using e(3) by (simp add: zip_rev butlast_rev [symmetric]) (metis butlast_rev rev_rev_ident)
  have "hd us = a0" "hd vs = b0" using e(1,2,4,8,9,3) ra rb by (auto simp: hd_append split: if_splits)
  moreover have "vs' \<noteq> []" using e(3,4) by auto
  ultimately show ?thesis using e live(3,4) unfolding z by (auto simp: list_all_iff)
qed

lemma climb_error: "fork_wf db \<Longrightarrow> it \<in> set (live db) \<Longrightarrow> climb db target it acc = Some (Inl e) \<Longrightarrow> e = AssertFailed"
proof (induction "addr it" arbitrary: it acc rule: less_induct)
  case less
  show ?case
  proof (cases "lock db (prev it)")
    case None
    then show ?thesis using less.prems(3) by (subst (asm) climb.simps) (auto split: if_splits)
  next
    case (Some p)
    note par = lock_parent [OF less.prems(1,2) Some]
    show ?thesis
      using less.prems(3) less.hyps [OF par(3) less.prems(1) par(1)] Some
      by (subst (asm) climb.simps) (auto split: if_splits)
  qed
qed

lemma climb_both_error:
  assumes "fork_wf db"
  shows "a \<in> set (live db) \<Longrightarrow> climb_both db a b xs ys = Some (Inl e) \<Longrightarrow> e = AssertFailed"
proof (induction "addr a" arbitrary: a b xs ys rule: less_induct)
  case less
  show ?case
  proof (cases "lock db (prev a)")
    case None
    then show ?thesis using less.prems(2) by (subst (asm) climb_both.simps) (auto split: if_splits)
  next
    case (Some p)
    note par = lock_parent [OF assms less.prems(1) Some]
    show ?thesis
      using less.prems(2) less.hyps [OF par(3) par(1)] Some
      by (subst (asm) climb_both.simps) (auto split: if_splits option.splits)
  qed
qed

lemma fetch_branch_returns:
  assumes "fork_wf db"
  shows "fetch_branch_from first second db \<noteq> None \<and>
    (\<forall>e. fetch_branch_from first second db = Some (Inl e) \<longrightarrow> e = AssertFailed)"
proof (cases "find_id first (index db)")
  case None
  then show ?thesis by (simp add: fetch_branch_from_def)
next
  case a0: (Some a0)
  show ?thesis
  proof (cases "find_id second (index db)")
    case None
    then show ?thesis using a0 by (simp add: fetch_branch_from_def)
  next
    case b0: (Some b0)
    have l: "a0 \<in> set (live db)" "b0 \<in> set (live db)"
      using find_id_Some [OF a0] find_id_Some [OF b0] by (auto simp: set_live)
    obtain r where r: "climb db b0 a0 [] = Some r" using climb_returns [OF assms l(1)] by blast
    show ?thesis
    proof (cases r)
      case (Inl e)
      then show ?thesis using a0 b0 r climb_error [OF assms l(1)] by (auto simp: fetch_branch_from_def)
    next
      case (Inr xa)
      obtain xs a where xa: "xa = (xs, a)" by (cases xa)
      have a: "a \<in> set (live db)" using climb_result [OF assms l(1) leads_nil] r Inr xa by blast
      obtain s where s: "climb db a b0 [] = Some s" using climb_returns [OF assms l(2)] by blast
      show ?thesis
      proof (cases s)
        case e: (Inl e)
        then show ?thesis using a0 b0 r Inr xa s climb_error [OF assms l(2)] by (auto simp: fetch_branch_from_def)
      next
        case yb: (Inr yb)
        obtain ys b where yb': "yb = (ys, b)" by (cases yb)
        have b: "b \<in> set (live db)" using climb_result [OF assms l(2) leads_nil] s yb yb' by blast
        show ?thesis
          using a0 b0 r Inr xa s yb yb' climb_both_returns [OF assms a b, of xs ys] climb_both_error [OF assms a, of b xs ys]
          by (auto simp: fetch_branch_from_def)
      qed
    qed
  qed
qed

text \<open>The items that are still held, from a child to its parent.\<close>

definition parent :: "'tx fork_database \<Rightarrow> 'tx fork_item \<Rightarrow> 'tx fork_item \<Rightarrow> bool" where
  "parent db x y \<longleftrightarrow> lock db (prev x) = Some y"

text \<open>Both blocks are indexed, and ancestors of theirs at the same height, reached through held items, have the same parent.\<close>

definition can_meet :: "block_id_type \<Rightarrow> block_id_type \<Rightarrow> 'tx fork_database \<Rightarrow> bool" where
  "can_meet first second db \<longleftrightarrow> (\<exists>a b i j u v. find_id first (index db) = Some a \<and> find_id second (index db) = Some b \<and>
     (parent db ^^ i) a u \<and> (parent db ^^ j) b v \<and> num a + j = num b + i \<and> previous_id u = previous_id v)"

lemma parent_split: "(parent db ^^ k) x y \<Longrightarrow> (parent db ^^ (k + m)) x z \<Longrightarrow> (parent db ^^ m) y z"
proof (induction k arbitrary: x)
  case (Suc k)
  then obtain p where p: "parent db x p" "(parent db ^^ k) p y" by (meson relpowp_Suc_E2)
  obtain q where q: "parent db x q" "(parent db ^^ (k + m)) q z" using Suc.prems(2) by (metis add_Suc relpowp_Suc_E2)
  have "q = p" using p(1) q(1) by (simp add: parent_def)
  then show ?case using Suc.IH p(2) q(2) by blast
qed simp

lemma parent_below:
  assumes "\<And>h. sha224 h \<noteq> []" "fork_wf db" "fork_ids sha224 db" "i \<in> set (live db)" "parent db i p" "0 < num i"
  shows "p \<in> set (live db)" "num i = Suc (num p)"
proof -
  have l: "lock db (prev i) = Some p" using assms(5) by (simp add: parent_def)
  show p: "p \<in> set (live db)" using lock_parent [OF assms(2,4) l] by blast
  have e: "block_num (data i) = 1 + block_num (data p)"
    using parent_number [OF assms(1-4) l] by (simp add: add.commute)
  have "block_num (data i) \<noteq> 0" using assms(6) fork_wf_item(2) [OF assms(2,4)] by auto
  then have "unat (block_num (data i)) = Suc (unat (block_num (data p)))" unfolding e by (rule unatSuc)
  then show "num i = Suc (num p)" using fork_wf_item(2) [OF assms(2,4)] fork_wf_item(2) [OF assms(2) p] by simp
qed

lemma climb_num: "fork_wf db \<Longrightarrow> it \<in> set (live db) \<Longrightarrow> t \<in> set (live db) \<Longrightarrow>
    block_num (data t) < block_num (data it) \<longleftrightarrow> num t < num it"
  by (simp add: fork_wf_item(2) word_less_nat_alt)

text \<open>The first loops climb to the height of the target when the path is long enough, and only then.\<close>

lemma climb_reaches:
  assumes w: "\<And>h. sha224 h \<noteq> []" "fork_wf db" "fork_ids sha224 db" and t: "target \<in> set (live db)"
    and "it \<in> set (live db)" "(parent db ^^ i) it u" "num it \<le> num target + i"
  shows "\<exists>xs a. climb db target it acc = Some (Inr (xs, a)) \<and> a \<in> set (live db) \<and>
    (parent db ^^ (num it - num target)) it a \<and> num a = min (num it) (num target)"
  using assms(5-7)
proof (induction i arbitrary: it acc)
  case 0
  then show ?case using climb_num [OF w(2) 0(1) t] by (subst climb.simps) simp
next
  case (Suc i)
  show ?case
  proof (cases "num target < num it")
    case False
    then show ?thesis using climb_num [OF w(2) Suc.prems(1) t] Suc.prems(1) by (subst climb.simps) simp
  next
    case True
    obtain p where p: "parent db it p" "(parent db ^^ i) p u" using Suc.prems(2) by (meson relpowp_Suc_E2)
    note b = parent_below [OF w Suc.prems(1) p(1)]
    have n: "num it = Suc (num p)" "p \<in> set (live db)" using b True by simp_all
    obtain xs a where c: "climb db target p (acc @ [it]) = Some (Inr (xs, a))" "a \<in> set (live db)"
      "(parent db ^^ (num p - num target)) p a" "num a = min (num p) (num target)"
      using Suc.IH [OF n(2) p(2), of "acc @ [it]"] Suc.prems(3) n(1) by auto
    have "(parent db ^^ Suc (num p - num target)) it a" using relpowp_Suc_I2 [OF p(1) c(3)] .
    moreover have "Suc (num p - num target) = num it - num target" "min (num it) (num target) = min (num p) (num target)"
      using True n(1) by simp_all
    ultimately have "(parent db ^^ (num it - num target)) it a" "num a = min (num it) (num target)" using c(4) by simp_all
    moreover have "climb db target it acc = climb db target p (acc @ [it])"
      using p(1) True climb_num [OF w(2) Suc.prems(1) t] by (subst climb.simps) (simp add: parent_def)
    ultimately show ?thesis using c(1,2) by auto
  qed
qed

lemma climb_path:
  assumes w: "\<And>h. sha224 h \<noteq> []" "fork_wf db" "fork_ids sha224 db" and t: "target \<in> set (live db)"
    and "it \<in> set (live db)" "climb db target it acc = Some (Inr (xs, a))"
  shows "a \<in> set (live db) \<and> (parent db ^^ (num it - num target)) it a \<and> num a = min (num it) (num target)"
  using assms(5,6)
proof (induction "addr it" arbitrary: it acc rule: less_induct)
  case less
  show ?case
  proof (cases "num target < num it")
    case False
    then have "a = it" using less.prems(2) climb_num [OF w(2) less.prems(1) t] by (subst (asm) climb.simps) simp
    then show ?thesis using False less.prems(1) by simp
  next
    case True
    then obtain p where p: "lock db (prev it) = Some p" "climb db target p (acc @ [it]) = Some (Inr (xs, a))"
      using less.prems(2) climb_num [OF w(2) less.prems(1) t] by (subst (asm) climb.simps) (auto split: option.splits)
    have pr: "parent db it p" using p(1) by (simp add: parent_def)
    have n: "num it = Suc (num p)" using parent_below [OF w less.prems(1) pr] True by simp
    note par = lock_parent [OF w(2) less.prems(1) p(1)]
    have c: "a \<in> set (live db)" "(parent db ^^ (num p - num target)) p a" "num a = min (num p) (num target)"
      using less.hyps [OF par(3,1) p(2)] by blast+
    have "num it - num target = Suc (num p - num target)" "min (num it) (num target) = min (num p) (num target)"
      using True n by simp_all
    then show ?thesis using c relpowp_Suc_I2 [OF pr c(2)] by simp
  qed
qed

lemma climb_both_meets:
  "(parent db ^^ m) a u \<Longrightarrow> (parent db ^^ m) b v \<Longrightarrow> previous_id u = previous_id v \<Longrightarrow>
     \<exists>r. climb_both db a b xs ys = Some (Inr r)"
proof (induction m arbitrary: a b xs ys)
  case 0
  then show ?case by (subst climb_both.simps) (simp add: previous_id_def)
next
  case (Suc m)
  from relpowp_Suc_D2 [OF Suc.prems(1)] obtain p where p: "parent db a p" "(parent db ^^ m) p u" by blast
  from relpowp_Suc_D2 [OF Suc.prems(2)] obtain q where q: "parent db b q" "(parent db ^^ m) q v" by blast
  have r: "\<exists>r. climb_both db p q (xs @ [a]) (ys @ [b]) = Some (Inr r)" by (rule Suc.IH [OF p(2) q(2) Suc.prems(3)])
  have l: "lock db (prev a) = Some p" "lock db (prev b) = Some q" using p(1) q(1) by (simp_all add: parent_def)
  show ?case
  proof (cases "previous (data a) = previous (data b)")
    case True
    then show ?thesis by (subst climb_both.simps) simp
  next
    case False
    then show ?thesis using r l by (subst climb_both.simps) simp
  qed
qed

lemma climb_both_path:
  assumes "fork_wf db" "a \<in> set (live db)" "b \<in> set (live db)" "climb_both db a b xs ys = Some (Inr r)"
  shows "\<exists>m u v. (parent db ^^ m) a u \<and> (parent db ^^ m) b v \<and> previous_id u = previous_id v"
  using assms(2-4)
proof (induction "addr a" arbitrary: a b xs ys rule: less_induct)
  case less
  show ?case
  proof (cases "previous (data a) \<noteq> previous (data b)")
    case False
    then show ?thesis by (intro exI [of _ 0] exI [of _ a] exI [of _ b]) (simp add: previous_id_def)
  next
    case True
    then obtain p q where p: "lock db (prev a) = Some p" and q: "lock db (prev b) = Some q"
      and r: "climb_both db p q (xs @ [a]) (ys @ [b]) = Some (Inr r)"
      using less.prems(3) by (subst (asm) climb_both.simps) (auto split: option.splits)
    note pa = lock_parent [OF assms(1) less.prems(1) p] and pb = lock_parent [OF assms(1) less.prems(2) q]
    obtain m u v where m: "(parent db ^^ m) p u" "(parent db ^^ m) q v" "previous_id u = previous_id v"
      using less.hyps [OF pa(3,1) pb(1) r] by blast
    have "(parent db ^^ Suc m) a u" "(parent db ^^ Suc m) b v"
      using relpowp_Suc_I2 [OF _ m(1), of a] relpowp_Suc_I2 [OF _ m(2), of b] p q by (simp_all add: parent_def)
    then show ?thesis using m(3) by blast
  qed
qed

lemma fetch_branch_meets:
  assumes w: "\<And>h. sha224 h \<noteq> []" "fork_wf db" "fork_ids sha224 db"
  shows "(\<exists>r. fetch_branch_from first second db = Some (Inr r)) \<longleftrightarrow> can_meet first second db"
proof
  assume "\<exists>r. fetch_branch_from first second db = Some (Inr r)"
  then obtain a0 b0 xs ys a b r where f: "find_id first (index db) = Some a0" "find_id second (index db) = Some b0"
    and c: "climb db b0 a0 [] = Some (Inr (xs, a))" "climb db a b0 [] = Some (Inr (ys, b))" "climb_both db a b xs ys = Some (Inr r)"
    by (auto simp: fetch_branch_from_def split: option.splits sum.splits prod.splits)
  have live: "a0 \<in> set (live db)" "b0 \<in> set (live db)"
    using find_id_Some [OF f(1)] find_id_Some [OF f(2)] by (auto simp: set_live)
  note a = climb_path [OF w live(2,1) c(1)]
  note b = climb_path [OF w conjunct1 [OF a] live(2) c(2)]
  obtain m u v where m: "(parent db ^^ m) a u" "(parent db ^^ m) b v" "previous_id u = previous_id v"
    using climb_both_path [OF w(2) conjunct1 [OF a] conjunct1 [OF b] c(3)] by blast
  have "(parent db ^^ (num a0 - num b0 + m)) a0 u" "(parent db ^^ (num b0 - num a + m)) b0 v"
    using relpowp_trans [OF _ m(1)] relpowp_trans [OF _ m(2)] a b by blast+
  moreover have "num a0 + (num b0 - num a + m) = num b0 + (num a0 - num b0 + m)" using a by linarith
  ultimately show "can_meet first second db" unfolding can_meet_def using f m(3) by blast
next
  assume "can_meet first second db"
  then obtain a0 b0 i j u v where f: "find_id first (index db) = Some a0" "find_id second (index db) = Some b0"
    and p: "(parent db ^^ i) a0 u" "(parent db ^^ j) b0 v" and n: "num a0 + j = num b0 + i" and e: "previous_id u = previous_id v"
    unfolding can_meet_def by blast
  have live: "a0 \<in> set (live db)" "b0 \<in> set (live db)"
    using find_id_Some [OF f(1)] find_id_Some [OF f(2)] by (auto simp: set_live)
  have "num a0 \<le> num b0 + i" using n by simp
  then obtain xs a where a: "climb db b0 a0 [] = Some (Inr (xs, a))" "a \<in> set (live db)"
    "(parent db ^^ (num a0 - num b0)) a0 a" "num a = min (num a0) (num b0)"
    using climb_reaches [OF w live(2,1) p(1)] by blast
  have "num b0 \<le> num a + j" using n a(4) by linarith
  then obtain ys b where b: "climb db a b0 [] = Some (Inr (ys, b))" "(parent db ^^ (num b0 - num a)) b0 b"
    using climb_reaches [OF w a(2) live(2) p(2)] by blast
  define m where "m = i - (num a0 - num b0)"
  have m: "i = num a0 - num b0 + m" "j = num b0 - num a + m" using n a(4) by (simp_all add: m_def)
  have "(parent db ^^ m) a u" "(parent db ^^ m) b v"
    using parent_split [OF a(3)] parent_split [OF b(2)] p m by simp_all
  then obtain r where "climb_both db a b xs ys = Some (Inr r)" using climb_both_meets e by blast
  then show "\<exists>r. fetch_branch_from first second db = Some (Inr r)" using f a(1) b(1) by (simp add: fetch_branch_from_def)
qed

subsection \<open>A small run\<close>

definition demo_sha :: "signed_block_header \<Rightarrow> 32 word list" where
  "demo_sha h = [0, of_nat (timestamp h), of_nat (witness h), 0, 0, 0, 0]"

definition demo_blk :: "block_id_type \<Rightarrow> nat \<Rightarrow> nat \<Rightarrow> nat signed_block" where
  "demo_blk p t w = \<lparr>previous = p, timestamp = t, witness = w, transaction_merkle_root = null_id,
     witness_signature = [], block_id = null_id, transactions = []\<rparr>"

definition demo_ops :: "nat fork_op list" where
  "demo_ops = [Push (demo_blk null_id 10 1), Push (demo_blk [0x01000000, 10, 1, 0, 0] 11 1),
     Push (demo_blk [0x02000000, 11, 1, 0, 0] 12 1), Push (demo_blk [0x01000000, 10, 1, 0, 0] 21 2)]"

definition demo_item :: "nat \<Rightarrow> nat option \<Rightarrow> nat \<Rightarrow> block_id_type \<Rightarrow> nat signed_block \<Rightarrow> nat fork_item" where
  "demo_item a p n i b = \<lparr>addr = a, prev = p, num = n, fid = i, data = b\<rparr>"

lemma demo_item_simps:
  "addr (demo_item a p n i b) = a" "prev (demo_item a p n i b) = p" "num (demo_item a p n i b) = n"
  "fid (demo_item a p n i b) = i" "data (demo_item a p n i b) = b"
  "demo_item a p n i b\<lparr>prev := q\<rparr> = demo_item a q n i b"
  by (simp_all add: demo_item_def)

lemma demo_numbers:
  "endian_reverse_u32 0 = 0" "endian_reverse_u32 0x01000000 = 1" "endian_reverse_u32 0x02000000 = 2"
  "endian_reverse_u32 1 = 0x01000000" "endian_reverse_u32 2 = 0x02000000" "endian_reverse_u32 3 = 0x03000000"
  by (simp_all add: endian_reverse_u32_def)

lemma demo_blk_simps:
  "previous (demo_blk p t w) = p" "block_num (demo_blk p t w) = num_from_id p + 1"
  "header_id demo_sha (demo_blk p t w) = [endian_reverse_u32 (num_from_id p + 1), of_nat t, of_nat w, 0, 0]"
  "make_item demo_sha a (demo_blk p t w) =
     demo_item a None (unat (num_from_id p + 1)) [endian_reverse_u32 (num_from_id p + 1), of_nat t, of_nat w, 0, 0] (demo_blk p t w)"
  "num_from_id null_id = 0" "num_from_id (x # xs) = endian_reverse_u32 x"
  by (simp_all add: demo_blk_def block_num_def header_id_def demo_sha_def signed_block_header.truncate_def
      make_item_def demo_item_def num_from_id_def null_id_def demo_numbers)

definition demo_db :: "nat fork_item list \<Rightarrow> nat fork_item option \<Rightarrow> nat \<Rightarrow> nat fork_database" where
  "demo_db xs h n = \<lparr>index = xs, unlinked_index = [], head = h, max_size = 1024, next_addr = n\<rparr>"

lemma push_demo:
  assumes "find_id i xs = None" "unat (num_from_id p + 1) = n" "i = [endian_reverse_u32 (num_from_id p + 1), of_nat t, of_nat w, 0, 0]"
    and "case h of None \<Rightarrow> p = null_id \<and> q = None
      | Some h' \<Rightarrow> p \<noteq> null_id \<and> map_option addr (find_id p xs) = q \<and> q \<noteq> None \<and> num h' - 1024 < n \<and> 0 < n"
    and "filter (\<lambda>x. n - 1024 \<le> num x) (xs @ [demo_item a q n i (demo_blk p t w)]) = xs @ [demo_item a q n i (demo_blk p t w)]"
    and "h' = (case h of None \<Rightarrow> True | Some h' \<Rightarrow> num h' < n)"
  shows "fork_step demo_sha (Push (demo_blk p t w)) (demo_db xs h a)
    = demo_db (xs @ [demo_item a q n i (demo_blk p t w)]) (if h' then Some (demo_item a q n i (demo_blk p t w)) else h) (a + 1)"
proof -
  let ?item = "demo_item a None n i (demo_blk p t w)" and ?x = "demo_item a q n i (demo_blk p t w)"
  let ?db = "demo_db xs h (a + 1)"
  have m: "make_item demo_sha a (demo_blk p t w) = ?item" using assms(2,3) by (simp add: demo_blk_simps)
  have l: "link_item ?item ?db = Inr ?x"
    using assms(4) by (auto simp: link_item_def demo_db_def previous_id_def demo_item_simps demo_blk_simps split: option.splits)
  have ins: "insert_item ?x ?db = demo_db (xs @ [?x]) (if h' then Some ?x else h) (a + 1)"
    using assms(1,5,6)
    by (cases h) (simp_all add: insert_item_def Let_def demo_db_def index_insert_def demo_item_simps erase_below_filter min_def)
  have "push_item ?item ?db = Inr (insert_item ?x ?db)"
    using assms(4) l unfolding push_item_def window_cond by (auto simp: demo_db_def demo_item_simps split: option.splits)
  then show ?thesis
    unfolding ins [symmetric] by (simp add: push_block_def m [unfolded demo_db_def] demo_db_def) 
qed

lemma null_id_list: "null_id = [0, 0, 0, 0, 0]"
  by (simp add: null_id_def numeral_eq_Suc)

lemma demo_fork_run:
  "fork_run demo_sha demo_ops = demo_db
     [demo_item 0 None 1 [0x01000000, 10, 1, 0, 0] (demo_blk null_id 10 1),
      demo_item 1 (Some 0) 2 [0x02000000, 11, 1, 0, 0] (demo_blk [0x01000000, 10, 1, 0, 0] 11 1),
      demo_item 2 (Some 1) 3 [0x03000000, 12, 1, 0, 0] (demo_blk [0x02000000, 11, 1, 0, 0] 12 1),
      demo_item 3 (Some 0) 2 [0x02000000, 21, 2, 0, 0] (demo_blk [0x01000000, 10, 1, 0, 0] 21 2)]
     (Some (demo_item 2 (Some 1) 3 [0x03000000, 12, 1, 0, 0] (demo_blk [0x02000000, 11, 1, 0, 0] 12 1))) 4"
proof -
  let ?b1 = "demo_blk null_id 10 1" and ?b2 = "demo_blk [0x01000000, 10, 1, 0, 0] 11 1"
  let ?b3 = "demo_blk [0x02000000, 11, 1, 0, 0] 12 1" and ?b4 = "demo_blk [0x01000000, 10, 1, 0, 0] 21 2"
  let ?i1 = "demo_item 0 None 1 [0x01000000, 10, 1, 0, 0] ?b1"
  let ?i2 = "demo_item 1 (Some 0) 2 [0x02000000, 11, 1, 0, 0] ?b2"
  let ?i3 = "demo_item 2 (Some 1) 3 [0x03000000, 12, 1, 0, 0] ?b3"
  let ?i4 = "demo_item 3 (Some 0) 2 [0x02000000, 21, 2, 0, 0] ?b4"
  have nonnull: "[0x01000000, 10, 1, 0, 0] \<noteq> null_id" "[0x02000000, 11, 1, 0, 0] \<noteq> null_id"
    by (simp_all add: null_id_list)
  note ev = demo_blk_simps demo_numbers demo_item_simps find_id_def nonnull numeral_2_eq_2 [symmetric]
  have 0: "(empty_fork_database :: nat fork_database) = demo_db [] None 0" by (simp add: empty_fork_database_def demo_db_def)
  have 1: "fork_step demo_sha (Push ?b1) (demo_db [] None 0) = demo_db [?i1] (Some ?i1) 1"
    by (subst push_demo [where i = "[0x01000000, 10, 1, 0, 0]" and n = 1 and q = None and h' = True]) (simp_all add: ev)
  have 2: "fork_step demo_sha (Push ?b2) (demo_db [?i1] (Some ?i1) 1) = demo_db [?i1, ?i2] (Some ?i2) 2"
    by (subst push_demo [where i = "[0x02000000, 11, 1, 0, 0]" and n = 2 and q = "Some 0" and h' = True]) (simp_all add: ev)
  have 3: "fork_step demo_sha (Push ?b3) (demo_db [?i1, ?i2] (Some ?i2) 2) = demo_db [?i1, ?i2, ?i3] (Some ?i3) 3"
    by (subst push_demo [where i = "[0x03000000, 12, 1, 0, 0]" and n = 3 and q = "Some 1" and h' = True]) (simp_all add: ev)
  have 4: "fork_step demo_sha (Push ?b4) (demo_db [?i1, ?i2, ?i3] (Some ?i3) 3) = demo_db [?i1, ?i2, ?i3, ?i4] (Some ?i3) 4"
    by (subst push_demo [where i = "[0x02000000, 21, 2, 0, 0]" and n = 2 and q = "Some 0" and h' = False]) (simp_all add: ev)
  show ?thesis unfolding fork_run_def demo_ops_def 0 by (simp only: fold_simps comp_def id_def 1 2 3 4)
qed

lemma demo_branches:
  "fetch_branch_from [0x03000000, 12, 1, 0, 0] [0x02000000, 21, 2, 0, 0] (fork_run demo_sha demo_ops) = Some (Inr
     ([demo_item 2 (Some 1) 3 [0x03000000, 12, 1, 0, 0] (demo_blk [0x02000000, 11, 1, 0, 0] 12 1),
       demo_item 1 (Some 0) 2 [0x02000000, 11, 1, 0, 0] (demo_blk [0x01000000, 10, 1, 0, 0] 11 1)],
      [demo_item 3 (Some 0) 2 [0x02000000, 21, 2, 0, 0] (demo_blk [0x01000000, 10, 1, 0, 0] 21 2)]))"
  unfolding demo_fork_run fetch_branch_from_def
  by (subst climb.simps, subst climb.simps, subst climb.simps, subst climb_both.simps)
    (simp add: find_id_def demo_db_def demo_item_simps demo_blk_simps demo_numbers lock_def live_def)

subsection \<open>Properties\<close>

text \<open>C25. In every fork database that the operations can reach, \<open>fetch_branch_from\<close> returns.  It gives two branches exactly
  when both blocks are indexed and ancestors of the same height, reached through items that are still held,
  have the same parent, and throws otherwise.  The branches start at the two blocks, every block is followed by
  its parent, and they end in siblings (blocks with the same parent); at equal distance from the end the parents
  differ everywhere else: the branches meet at the most recent common ancestor.  The hypothesis on \<open>sha224\<close> is
  that a hash has at least one word.\<close>

theorem fetch_branch_from_common_ancestor:
  assumes "\<forall>h. sha224 h \<noteq> []"
  shows "case fetch_branch_from first second (fork_run sha224 ops) of
     None \<Rightarrow> False
   | Some (Inl e) \<Rightarrow> e = AssertFailed \<and> \<not> can_meet first second (fork_run sha224 ops)
   | Some (Inr (us, vs)) \<Rightarrow> can_meet first second (fork_run sha224 ops) \<and>
       us \<noteq> [] \<and> vs \<noteq> [] \<and> fid (hd us) = first \<and> fid (hd vs) = second \<and> linked us \<and> linked vs \<and>
       previous_id (last us) = previous_id (last vs) \<and>
       list_all (\<lambda>(u, v). previous_id u \<noteq> previous_id v) (tl (zip (rev us) (rev vs)))"
proof -
  have h: "sha224 x \<noteq> []" for x using assms by blast
  note wf = fork_wf_run [of sha224 ops] and ids = fork_ids_run [of sha224 ops]
  note m = fetch_branch_meets [OF h wf ids, of first second] and ret = fetch_branch_returns [OF wf, of first second]
  show ?thesis
  proof (cases "fetch_branch_from first second (fork_run sha224 ops)")
    case (Some r)
    then show ?thesis
    proof (cases r)
      case (Inr uv)
      then have "fetch_branch_from first second (fork_run sha224 ops) = Some (Inr (fst uv, snd uv))" using Some by simp
      from fetch_branch_Inr [OF h wf ids this] m show ?thesis using Some Inr by (simp add: case_prod_beta)
    qed (use m ret in simp)
  qed (use ret in simp)
qed

theorem fetch_branch_from_common_ancestor_witness:
  "\<exists>us vs. fetch_branch_from [0x03000000, 12, 1, 0, 0] [0x02000000, 21, 2, 0, 0] (fork_run demo_sha demo_ops) = Some (Inr (us, vs)) \<and>
     map num us = [3, 2] \<and> map num vs = [2] \<and> previous_id (last us) = previous_id (last vs)"
proof -
  have "\<forall>h. demo_sha h \<noteq> []" by (simp add: demo_sha_def)
  from fetch_branch_from_common_ancestor [OF this, of "[0x03000000, 12, 1, 0, 0]" "[0x02000000, 21, 2, 0, 0]" demo_ops]
  show ?thesis unfolding demo_branches by (simp add: demo_item_simps)
qed

text \<open>C26. What \<open>push_block\<close> does, in every reachable fork database: it refuses a block that is too old; it throws
  \<open>unlinkable_block_exception\<close> exactly when there is a head, the block names a parent, and the parent is not
  indexed; otherwise the block is known afterwards, and it is the new head if there was none or a lower one, while
  a head that is at least as high stays.\<close>

theorem push_block_cases:
  assumes "\<forall>h. sha224 h \<noteq> []"
  shows "let db = fork_run sha224 ops;
             too_old = (case head db of None \<Rightarrow> False | Some h \<Rightarrow> block_num b = 0 \<or> unat (block_num b) \<le> num h - max_size db);
             unlinkable = (head db \<noteq> None \<and> previous b \<noteq> null_id \<and> \<not> is_known_block (previous b) db)
         in case push_block sha224 b db of
              Inl e \<Rightarrow> (e = AssertFailed \<and> too_old) \<or> (e = Unlinkable \<and> \<not> too_old \<and> unlinkable)
            | Inr db' \<Rightarrow> \<not> too_old \<and> \<not> unlinkable \<and> is_known_block (header_id sha224 b) db' \<and>
                (case head db' of None \<Rightarrow> False | Some h' \<Rightarrow>
                   (case head db of None \<Rightarrow> data h' = b
                    | Some h \<Rightarrow> if num h < unat (block_num b) then data h' = b \<and> num h' = unat (block_num b) else h' = h))"
proof -
  let ?db = "fork_run sha224 ops" and ?item = "make_item sha224 (next_addr (fork_run sha224 ops)) b"
  let ?old = "case head ?db of None \<Rightarrow> False | Some h \<Rightarrow> block_num b = 0 \<or> unat (block_num b) \<le> num h - max_size ?db"
  let ?un = "head ?db \<noteq> None \<and> previous b \<noteq> null_id \<and> find_id (previous b) (index ?db) = None"
  have h: "sha224 x \<noteq> []" for x using assms by blast
  note wf = fork_wf_run [of sha224 ops]
  note kn = known_iff [OF fork_wf_basic(1) [OF wf]]
  have n: "num ?item = unat (block_num b)" "previous_id ?item = previous b" by (simp_all add: make_item_def previous_id_def)
  show ?thesis
  proof (cases "push_block sha224 b ?db")
    case (Inl e)
    then have "(e = AssertFailed \<and> ?old) \<or> (e = Unlinkable \<and> \<not> ?old \<and> ?un)"
      unfolding push_block_def push_item_def window_cond assertE_eq_Inl bindE_eq_Inl
      by (auto simp: link_item_def n unat_gt_0 split: if_splits option.splits)
    then show ?thesis using Inl kn by (simp add: Let_def find_id_None)
  next
    case (Inr db')
    obtain x where x: "link_item ?item (?db\<lparr>next_addr := next_addr ?db + 1\<rparr>) = Inr x"
      "db' = insert_item x (?db\<lparr>next_addr := next_addr ?db + 1\<rparr>)" "num x = unat (block_num b)" "data x = b"
      using push_block_added [OF Inr fork_wf_basic(1) [OF wf]] by metis
    have "\<not> ?old"
      using Inr unfolding push_block_def push_item_Inr by (auto simp: n unat_gt_0 split: option.splits)
    moreover have "\<not> ?un" using x(1) by (auto simp: link_item_def n split: if_splits option.splits)
    moreover have "case head db' of None \<Rightarrow> False | Some h' \<Rightarrow>
                   (case head ?db of None \<Rightarrow> data h' = b
                    | Some h \<Rightarrow> if num h < unat (block_num b) then data h' = b \<and> num h' = unat (block_num b) else h' = h)"
      unfolding x(2) insert_item_fields using x(3,4) by (auto split: option.splits)
    ultimately show ?thesis
      using Inr pushed_known [OF h wf fork_ids_run Inr] kn by (simp add: Let_def find_id_None)
  qed
qed

theorem push_block_cases_witness:
  "case push_block demo_sha (demo_blk [0x02000000, 99, 9, 0, 0] 22 2) (fork_run demo_sha demo_ops) of
     Inl e \<Rightarrow> e = Unlinkable | Inr db' \<Rightarrow> False"
proof -
  have "\<forall>h. demo_sha h \<noteq> []" by (simp add: demo_sha_def)
  note c = push_block_cases [OF this, of demo_ops "demo_blk [0x02000000, 99, 9, 0, 0] 22 2"]
  have "find_id [0x02000000, 99, 9, 0, 0] (index (fork_run demo_sha demo_ops)) = None"
    unfolding demo_fork_run by (simp add: demo_db_def find_id_def demo_item_simps)
  then have "push_block demo_sha (demo_blk [0x02000000, 99, 9, 0, 0] 22 2) (fork_run demo_sha demo_ops) = Inl Unlinkable"
    unfolding demo_fork_run push_block_def push_item_def window_cond
    by (simp add: demo_db_def demo_blk_simps demo_numbers demo_item_simps link_item_def previous_id_def null_id_list)
  then show ?thesis using c by simp
qed

text \<open>C27. While blocks are only pushed (and the window resized), the head is the highest block and the
  index holds only blocks at most \<open>_max_size\<close> below it.\<close>
theorem fork_window:
  assumes "list_all forward_op ops"
  shows "window (fork_run sha224 ops)"
proof -
  have "fork_wf (fork_run sha224 ops) \<and> window (fork_run sha224 ops)"
    by (rule fork_run_invariant [where P = "\<lambda>db. fork_wf db \<and> window db"])
      (use assms in \<open>auto simp: fork_wf_empty fork_wf_step list_all_iff intro: window_step\<close>,
       simp add: window_def empty_fork_database_def)
  then show ?thesis by blast
qed

theorem fork_window_witness:
  "window (fork_run demo_sha (demo_ops @ [Resize 1]))"
  by (rule fork_window) (simp add: demo_ops_def)

end
