(* ===== verification/Table.thy ===== *)
theory Table
  imports Prelude "HOL-Library.AList" "HOL-Library.Code_Target_Nat"
begin

text \<open>
  The tables of the chain state: an index of the object database as the list of its objects, keyed by
  instance, in the order of creation.  A table is well-formed when its keys are distinct and below the
  counter of its next id.  Sums over a table are the measure of the conservation theorems.
\<close>

type_synonym 'v table = "(nat \<times> 'v) list"

text \<open>\<open>object_database::get\<close> throws for an unknown id.\<close>

definition tget :: "'v table \<Rightarrow> nat \<Rightarrow> 'v result" where
  "tget t k = of_option NotFound (map_of t k)"

definition tput :: "nat \<Rightarrow> 'v \<Rightarrow> 'v table \<Rightarrow> 'v table" where
  "tput k v t = AList.update k v t"

definition tdel :: "nat \<Rightarrow> 'v table \<Rightarrow> 'v table" where
  "tdel k t = AList.delete k t"

definition tadd :: "nat \<Rightarrow> 'v \<Rightarrow> 'v table \<Rightarrow> 'v table" where
  "tadd k v t = t @ [(k, v)]"

text \<open>The first object that satisfies a condition, as the lookup by a unique secondary key gives it.\<close>

definition tfind :: "('v \<Rightarrow> bool) \<Rightarrow> 'v table \<Rightarrow> (nat \<times> 'v) option" where
  "tfind P t = List.find (\<lambda>e. P (snd e)) t"

definition table_ok :: "'v table \<Rightarrow> nat \<Rightarrow> bool" where
  "table_ok t n \<longleftrightarrow> distinct (map fst t) \<and> (\<forall>k \<in> fst ` set t. k < n)"

definition tsum :: "('v \<Rightarrow> int) \<Rightarrow> 'v table \<Rightarrow> int" where
  "tsum f t = sum_list (map (\<lambda>e. f (snd e)) t)"

lemma tget_Inr [result_simps]: "tget t k = Inr v \<longleftrightarrow> map_of t k = Some v"
  by (simp add: tget_def result_simps)

lemma tfind_Some:
  assumes "table_ok t n" "tfind P t = Some (k, v)"
  shows "map_of t k = Some v" "P v"
proof -
  from assms(2) have "(k, v) \<in> set t" "P v"
    unfolding tfind_def find_Some_iff by (metis nth_mem snd_conv)+
  with assms(1) show "map_of t k = Some v" "P v"
    by (auto simp: table_ok_def intro: map_of_is_SomeI)
qed

lemma tfind_None: "tfind P t = None \<longleftrightarrow> (\<forall>e \<in> set t. \<not> P (snd e))"
  by (auto simp: tfind_def find_None_iff)

lemma map_of_tput [simp]: "map_of (tput k v t) j = (if j = k then Some v else map_of t j)"
  by (simp add: tput_def update_conv')

lemma map_of_tdel [simp]: "map_of (tdel k t) j = (if j = k then None else map_of t j)"
  by (simp add: tdel_def delete_conv')

lemma map_of_tadd: "table_ok t n \<Longrightarrow> map_of (tadd n v t) j = (if j = n then Some v else map_of t j)"
proof -
  assume "table_ok t n"
  then have "n \<notin> fst ` set t" by (auto simp: table_ok_def)
  then have "map_of t n = None" by (simp add: map_of_eq_None_iff)
  then show ?thesis by (cases "map_of t j") (auto simp: tadd_def map_add_def)
qed

lemma table_ok_tput: "table_ok t n \<Longrightarrow> map_of t k = Some u \<Longrightarrow> table_ok (tput k v t) n"
proof -
  assume t: "table_ok t n" "map_of t k = Some u"
  then have "k \<in> fst ` set t" by (force dest: map_of_SomeD)
  then have "map fst (AList.update k v t) = map fst t" by (simp add: update_keys)
  then have "map fst (tput k v t) = map fst t" "fst ` set (tput k v t) = fst ` set t"
    by (simp_all add: tput_def flip: set_map)
  then show ?thesis using t(1) by (simp add: table_ok_def)
qed

lemma table_ok_tdel: "table_ok t n \<Longrightarrow> table_ok (tdel k t) n"
proof -
  assume t: "table_ok t n"
  have k: "map fst (tdel k t) = removeAll k (map fst t)" unfolding tdel_def by (rule delete_keys)
  then have "fst ` set (tdel k t) = fst ` set t - {k}" by (metis list.set_map set_removeAll)
  then show ?thesis using t k by (simp only: table_ok_def distinct_removeAll) blast
qed

lemma table_ok_tadd: "table_ok t n \<Longrightarrow> table_ok (tadd n v t) (Suc n)"
  by (auto simp: table_ok_def tadd_def)

lemma tsum_simps [simp]: "tsum f [] = 0" "tsum f ((k, v) # t) = f v + tsum f t"
  by (simp_all add: tsum_def)

lemma tsum_tadd [simp]: "tsum f (tadd k v t) = tsum f t + f v"
  by (simp add: tsum_def tadd_def)

lemma tsum_tput: "map_of t k = Some u \<Longrightarrow> tsum f (tput k v t) = tsum f t - f u + f v"
  by (induction t) (auto simp: tput_def tsum_def)

lemma tsum_tdel:
  assumes "table_ok t n" "map_of t k = Some u"
  shows "tsum f (tdel k t) = tsum f t - f u"
proof -
  have "distinct (map fst t)" using assms(1) by (simp add: table_ok_def)
  then show ?thesis using assms(2)
  proof (induction t)
    case (Cons e t)
    show ?case
    proof (cases "fst e = k")
      case True
      then have "k \<notin> fst ` set t" using Cons.prems(1) by auto
      then have "AList.delete k t = t" by (simp add: delete_id)
      then show ?thesis using Cons.prems True by (cases e) (simp add: tdel_def)
    next
      case False
      then show ?thesis using Cons by (cases e) (auto simp: tdel_def)
    qed
  qed simp
qed

lemma tfind_tput:
  assumes "table_ok t n" "map_of t k = Some u" "P v \<longleftrightarrow> P u"
  shows "tfind P (tput k v t) = map_option (\<lambda>e. if fst e = k then (k, v) else e) (tfind P t)"
proof -
  have "distinct (map fst t)" using assms(1) by (simp add: table_ok_def)
  then show ?thesis using assms(2)
  proof (induction t)
    case (Cons e t)
    show ?case
    proof (cases "fst e = k")
      case True
      then have k: "k \<notin> fst ` set t" "snd e = u" using Cons.prems by (cases e; auto)+
      then have "map_option (\<lambda>e. if fst e = k then (k, v) else e) (find (\<lambda>e. P (snd e)) t)
          = find (\<lambda>e. P (snd e)) t"
        by (induction t) auto
      then show ?thesis using True k assms(3) by (cases e) (auto simp: tfind_def tput_def)
    next
      case False
      then show ?thesis using Cons by (cases e) (auto simp: tfind_def tput_def)
    qed
  qed simp
qed

lemma tfind_tadd:
  "tfind P (tadd k v t) = (case tfind P t of None \<Rightarrow> if P v then Some (k, v) else None | Some e \<Rightarrow> Some e)"
  by (induction t) (auto simp: tfind_def tadd_def)

text \<open>A condition on every object of a table.\<close>

definition table_all :: "('v \<Rightarrow> bool) \<Rightarrow> 'v table \<Rightarrow> bool" where
  "table_all ok t \<longleftrightarrow> (\<forall>e \<in> set t. ok (snd e))"

lemma table_allD: "table_all ok t \<Longrightarrow> map_of t k = Some v \<Longrightarrow> ok v"
  unfolding table_all_def by (metis map_of_SomeD snd_conv)

lemma table_all_tdel: "table_all ok t \<Longrightarrow> table_all ok (tdel k t)"
  unfolding table_all_def tdel_def by (metis AList.delete_eq filter_is_subset subset_iff)

lemma table_all_tput: "table_all ok t \<Longrightarrow> ok v \<Longrightarrow> table_all ok (tput k v t)"
  unfolding tput_def by (induction t) (auto simp: table_all_def)

lemma table_all_tadd: "table_all ok t \<Longrightarrow> ok v \<Longrightarrow> table_all ok (tadd k v t)"
  by (auto simp: table_all_def tadd_def)

end
