(* ===== verification/Chain_State.thy ===== *)
theory Chain_State
  imports Table Price_Feed Vesting
begin

text \<open>
  The part of the chain state that the market code reads and writes, and the operations on balances,
  fees and vesting deposits: \<open>chain/db_balance.cpp\<close> and \<open>chain/account_object.cpp\<close>, on the objects of
  \<open>account_object.hpp\<close>, \<open>asset_object.hpp\<close>, \<open>market_object.hpp\<close> and \<open>witness_object.hpp\<close>.
  An object is a record of the members that the modelled code uses, an index a table keyed by
  instance.  A reference that the code keeps to an object is the instance; reading it back after the
  object was removed is undefined, \<open>get\<close> of an unknown id throws.
\<close>

record account_statistics =
  st_owner :: nat
  st_total_core_in_orders :: share
  st_has_cashback_vb :: bool
  st_lifetime_fees_paid :: share
  st_pending_fees :: share
  st_pending_vested_fees :: share

record account_balance =
  bal_owner :: nat
  bal_asset :: asset_id_type
  bal_amount :: share
  bal_maintenance_flag :: bool

record account =
  ac_membership_expiration_date :: nat
  ac_registrar :: nat
  ac_referrer :: nat
  ac_lifetime_referrer :: nat
  ac_network_fee_percentage :: nat
  ac_lifetime_referrer_fee_percentage :: nat
  ac_referrer_rewards_percentage :: nat
  ac_statistics :: nat
  ac_cashback_vb :: "nat option"
  ac_allowed_assets :: "asset_id_type list option"
  ac_active_accounts :: "nat list"

record asset_dynamic_data =
  ad_current_supply :: share
  ad_confidential_supply :: share
  ad_accumulated_fees :: share
  ad_fee_pool :: share

record asset_object =
  ao_precision :: nat
  ao_issuer :: nat
  ao_flags :: "16 word"
  ao_market_fee_percent :: nat
  ao_max_market_fee :: share
  ao_max_supply :: share
  ao_issuer_permissions :: "16 word"
  ao_core_exchange_rate :: "price option"
  ao_whitelist_markets :: "asset_id_type list"
  ao_blacklist_markets :: "asset_id_type list"
  ao_dynamic_data :: nat
  ao_bitasset_data :: "nat option"

record bitasset_data =
  ba_asset :: asset_id_type
  ba_short_backing_asset :: asset_id_type
  ba_feed_lifetime_sec :: nat
  ba_minimum_feeds :: nat
  ba_force_settlement_delay_sec :: nat
  ba_force_settlement_offset_percent :: nat
  ba_maximum_force_settlement_volume :: nat
  ba_feeds :: "(nat \<times> nat \<times> price_feed) list"
  ba_current_feed :: price_feed
  ba_current_feed_publication_time :: nat
  ba_is_prediction_market :: bool
  ba_force_settled_volume :: share
  ba_settlement_price :: price
  ba_settlement_fund :: share
  ba_asset_cer_updated :: bool
  ba_feed_cer_updated :: bool

record limit_order =
  lo_expiration :: nat
  lo_seller :: nat
  lo_for_sale :: share
  lo_sell_price :: price
  lo_deferred_fee :: share
  lo_deferred_paid_fee :: asset

record call_order =
  co_borrower :: nat
  co_collateral :: share
  co_debt :: share
  co_call_price :: price
  co_target_collateral_ratio :: "nat option"

record force_settlement =
  fs_owner :: nat
  fs_balance :: asset
  fs_settlement_date :: nat

record collateral_bid =
  cb_bidder :: nat
  cb_inv_swan_price :: price

record witness_object =
  wi_account :: nat
  wi_pay_vb :: "nat option"

text \<open>The virtual operations that the market code pushes.\<close>

datatype applied_op =
    FillOrder nat nat asset asset asset price bool
  | BidCollateral nat asset asset
  | ExecuteBid nat asset asset
  | AssetSettleCancel nat nat asset
  | LimitOrderCancel nat nat asset

record chain =
  accounts :: "account table"
  stats :: "account_statistics table"
  balances :: "account_balance table"
  next_balance :: nat
  assets :: "asset_object table"
  dyns :: "asset_dynamic_data table"
  bitassets :: "bitasset_data table"
  limits :: "limit_order table"
  next_limit :: nat
  calls :: "call_order table"
  next_call :: nat
  settles :: "force_settlement table"
  next_settle :: nat
  bids :: "collateral_bid table"
  next_bid :: nat
  vestings :: "vesting_balance table"
  next_vesting :: nat
  witnesses :: "witness_object table"
  head_time :: nat
  next_maintenance_time :: nat
  cashback_vesting_threshold :: share
  cashback_vesting_period_seconds :: nat
  witness_pay_vesting_seconds :: nat
  maximum_asset_feed_publishers :: nat
  limit_cancel_base_fee :: nat
  fee_scale :: nat
  issue_453_affected_assets :: "asset_id_type list"
  applied_ops :: "applied_op list"

subsection \<open>Members of the objects\<close>

definition is_basic_account :: "account \<Rightarrow> nat \<Rightarrow> bool" where
  "is_basic_account a now \<longleftrightarrow> ac_membership_expiration_date a < now"

definition is_market_issued :: "asset_object \<Rightarrow> bool" where
  "is_market_issued o1 \<longleftrightarrow> ao_bitasset_data o1 \<noteq> None"

definition charges_market_fees :: "asset_object \<Rightarrow> bool" where
  "charges_market_fees o1 \<longleftrightarrow> bit (ao_flags o1) 0"

definition has_settlement :: "bitasset_data \<Rightarrow> bool" where
  "has_settlement b \<longleftrightarrow> \<not> price_is_null (ba_settlement_price b)"

definition amount_for_sale :: "limit_order \<Rightarrow> asset" where
  "amount_for_sale o1 = mk_asset (lo_for_sale o1) (asset_id (base (lo_sell_price o1)))"

definition amount_to_receive :: "limit_order \<Rightarrow> asset result" where
  "amount_to_receive o1 = asset_mul (amount_for_sale o1) (lo_sell_price o1)"

definition sell_asset_id :: "limit_order \<Rightarrow> asset_id_type" where
  "sell_asset_id o1 = asset_id (base (lo_sell_price o1))"

definition receive_asset_id :: "limit_order \<Rightarrow> asset_id_type" where
  "receive_asset_id o1 = asset_id (quote (lo_sell_price o1))"

definition debt_type :: "call_order \<Rightarrow> asset_id_type" where
  "debt_type c = asset_id (quote (co_call_price c))"

definition collateral_type :: "call_order \<Rightarrow> asset_id_type" where
  "collateral_type c = asset_id (base (co_call_price c))"

definition get_collateral :: "call_order \<Rightarrow> asset" where
  "get_collateral c = mk_asset (co_collateral c) (collateral_type c)"

definition get_debt :: "call_order \<Rightarrow> asset" where
  "get_debt c = mk_asset (co_debt c) (debt_type c)"

definition collateralization :: "call_order \<Rightarrow> price result" where
  "collateralization c = asset_div (get_collateral c) (get_debt c)"

subsection \<open>Access to the objects\<close>

text \<open>\<open>db.modify\<close> of one object by a function that may throw.\<close>

definition modify_stats :: "nat \<Rightarrow> (account_statistics \<Rightarrow> account_statistics result) \<Rightarrow> chain \<Rightarrow> chain result" where
  "modify_stats i f s = bindE (tget (stats s) i) (\<lambda>v. bindE (f v) (\<lambda>v'. Inr (s\<lparr>stats := tput i v' (stats s)\<rparr>)))"

definition modify_dyn :: "nat \<Rightarrow> (asset_dynamic_data \<Rightarrow> asset_dynamic_data result) \<Rightarrow> chain \<Rightarrow> chain result" where
  "modify_dyn i f s = bindE (tget (dyns s) i) (\<lambda>v. bindE (f v) (\<lambda>v'. Inr (s\<lparr>dyns := tput i v' (dyns s)\<rparr>)))"

text \<open>\<open>asset_object::bitasset_data\<close>, \<open>get_account_stats_by_owner\<close>, the statistics of an account by
  its id, and the dynamic data of an asset by its id.\<close>

definition bitasset_of :: "asset_object \<Rightarrow> chain \<Rightarrow> bitasset_data result" where
  "bitasset_of o1 s =
     (case ao_bitasset_data o1 of None \<Rightarrow> Inl AssertFailed | Some i \<Rightarrow> tget (bitassets s) i)"

definition get_account_stats_by_owner :: "nat \<Rightarrow> chain \<Rightarrow> nat result" where
  "get_account_stats_by_owner owner s =
     (case tfind (\<lambda>v. st_owner v = owner) (stats s) of None \<Rightarrow> Inl AssertFailed | Some e \<Rightarrow> Inr (fst e))"

definition stats_of :: "nat \<Rightarrow> chain \<Rightarrow> nat result" where
  "stats_of i s = bindE (tget (accounts s) i) (\<lambda>a. Inr (ac_statistics a))"

definition dyn_of :: "asset_id_type \<Rightarrow> chain \<Rightarrow> nat result" where
  "dyn_of a s = bindE (tget (assets s) a) (\<lambda>o1. Inr (ao_dynamic_data o1))"

definition push_applied_operation :: "applied_op \<Rightarrow> chain \<Rightarrow> chain" where
  "push_applied_operation v s = s\<lparr>applied_ops := applied_ops s @ [v]\<rparr>"

subsection \<open>Balances\<close>

definition get_balance :: "nat \<Rightarrow> asset_id_type \<Rightarrow> chain \<Rightarrow> asset" where
  "get_balance owner a s =
     (case tfind (\<lambda>b. bal_owner b = owner \<and> bal_asset b = a) (balances s) of
        None \<Rightarrow> mk_asset 0 a
      | Some e \<Rightarrow> mk_asset (bal_amount (snd e)) (bal_asset (snd e)))"

text \<open>\<open>account_balance_object::adjust_balance\<close>; its \<open>assert\<close> is compiled out.\<close>

definition balance_adjust :: "account_balance \<Rightarrow> asset \<Rightarrow> account_balance result" where
  "balance_adjust b delta =
     bindE (safe_add (bal_amount b) (amount delta)) (\<lambda>x.
     Inr (b\<lparr>bal_amount := x,
            bal_maintenance_flag := bal_maintenance_flag b \<or> bal_asset b = CORE\<rparr>))"

definition adjust_balance :: "nat \<Rightarrow> asset \<Rightarrow> chain \<Rightarrow> chain result" where
  "adjust_balance acct delta s =
     (if amount delta = 0 then Inr s
      else
        (case tfind (\<lambda>b. bal_owner b = acct \<and> bal_asset b = asset_id delta) (balances s) of
           None \<Rightarrow>
             assertE (0 < amount delta)
               (Inr (s\<lparr>balances := tadd (next_balance s)
                         \<lparr>bal_owner = acct, bal_asset = asset_id delta, bal_amount = amount delta,
                          bal_maintenance_flag = (asset_id delta = CORE)\<rparr> (balances s),
                       next_balance := Suc (next_balance s)\<rparr>))
         | Some e \<Rightarrow>
             bindE (if amount delta < 0
                    then bindE (asset_neg delta) (\<lambda>m. asset_ge (mk_asset (bal_amount (snd e)) (bal_asset (snd e))) m)
                    else Inr True) (\<lambda>enough.
             assertE enough
               (bindE (balance_adjust (snd e) delta) (\<lambda>b.
                Inr (s\<lparr>balances := tput (fst e) b (balances s)\<rparr>))))))"

subsection \<open>Vesting deposits\<close>

text \<open>The product \<open>amount.value * policy.vesting_seconds\<close> is an \<open>int64_t\<close> product.\<close>

definition new_lazy_vesting :: "share \<Rightarrow> nat \<Rightarrow> nat \<Rightarrow> bool \<Rightarrow> nat \<Rightarrow> vesting_balance result" where
  "new_lazy_vesting amt secs owner require_vesting now =
     (let earned = (if require_vesting then 0 else amt * int secs)
      in if int64_ok earned
         then Inr \<lparr>vb_owner = owner, vb_balance = mk_asset amt CORE,
                   vb_policy = Cdd \<lparr>vesting_seconds = secs, coin_seconds_earned = u128_of_int earned,
                                    start_claim = 0, coin_seconds_earned_last_update = now\<rparr>\<rparr>
         else Inl UndefinedBehaviour)"

definition lazy_vesting_matches :: "vesting_balance \<Rightarrow> nat \<Rightarrow> nat \<Rightarrow> bool" where
  "lazy_vesting_matches vbo owner secs \<longleftrightarrow>
     vb_owner vbo = owner \<and> (case vb_policy vbo of Linear _ \<Rightarrow> False | Cdd p \<Rightarrow> vesting_seconds p = secs)"

definition deposit_lazy_vesting ::
  "nat option \<Rightarrow> share \<Rightarrow> nat \<Rightarrow> nat \<Rightarrow> bool \<Rightarrow> chain \<Rightarrow> (nat option \<times> chain) result" where
  "deposit_lazy_vesting ovbid amt secs owner require_vesting s =
     (if amt = 0 then Inr (None, s)
      else
        bindE (case ovbid of None \<Rightarrow> Inr None
               | Some i \<Rightarrow> bindE (tget (vestings s) i) (\<lambda>vbo.
                           Inr (if lazy_vesting_matches vbo owner secs then Some (i, vbo) else None)))
          (\<lambda>target.
             case target of
               Some (i, vbo) \<Rightarrow>
                 bindE (if require_vesting then vesting_deposit vbo (head_time s) (mk_asset amt CORE)
                        else vesting_deposit_vested vbo (head_time s) (mk_asset amt CORE))
                   (\<lambda>vbo'. Inr (None, s\<lparr>vestings := tput i vbo' (vestings s)\<rparr>))
             | None \<Rightarrow>
                 bindE (new_lazy_vesting amt secs owner require_vesting (head_time s)) (\<lambda>vbo.
                   Inr (Some (next_vesting s),
                        s\<lparr>vestings := tadd (next_vesting s) vbo (vestings s),
                          next_vesting := Suc (next_vesting s)\<rparr>))))"

text \<open>The accounts of the chain itself: committee, witness, relaxed committee, null and temp.\<close>

definition is_chain_account :: "nat \<Rightarrow> bool" where
  "is_chain_account i \<longleftrightarrow> i = 0 \<or> i = 1 \<or> i = 2 \<or> i = 3 \<or> i = 4"

definition deposit_cashback :: "nat \<Rightarrow> share \<Rightarrow> bool \<Rightarrow> chain \<Rightarrow> chain result" where
  "deposit_cashback acct amt require_vesting s =
     bindE (tget (accounts s) acct) (\<lambda>a.
     if amt = 0 then Inr s
     else if is_chain_account acct then
       bindE (dyn_of CORE s) (\<lambda>d. modify_dyn d (\<lambda>v.
         bindE (safe_sub (ad_current_supply v) amt) (\<lambda>x. Inr (v\<lparr>ad_current_supply := x\<rparr>))) s)
     else
       bindE (deposit_lazy_vesting (ac_cashback_vb a) amt (cashback_vesting_period_seconds s) acct
                require_vesting s) (\<lambda>(new_vbid, s1).
       case new_vbid of
         None \<Rightarrow> Inr s1
       | Some i \<Rightarrow>
           modify_stats (ac_statistics a) (\<lambda>v. Inr (v\<lparr>st_has_cashback_vb := True\<rparr>))
             (s1\<lparr>accounts := tput acct (a\<lparr>ac_cashback_vb := Some i\<rparr>) (accounts s1)\<rparr>)))"

definition deposit_witness_pay :: "nat \<Rightarrow> share \<Rightarrow> chain \<Rightarrow> chain result" where
  "deposit_witness_pay wit amt s =
     bindE (tget (witnesses s) wit) (\<lambda>w.
     if amt = 0 then Inr s
     else
       bindE (deposit_lazy_vesting (wi_pay_vb w) amt (witness_pay_vesting_seconds s) (wi_account w) True s)
         (\<lambda>(new_vbid, s1).
       case new_vbid of
         None \<Rightarrow> Inr s1
       | Some i \<Rightarrow> Inr (s1\<lparr>witnesses := tput wit (w\<lparr>wi_pay_vb := Some i\<rparr>) (witnesses s1)\<rparr>)))"

subsection \<open>Fees\<close>

definition cut_fee :: "share \<Rightarrow> nat \<Rightarrow> share result" where
  "cut_fee a p =
     (if a = 0 \<or> p = 0 then Inr 0
      else if int p = PERCENT_100 then Inr a
      else bindE (u_div (u_mul (u128_of_int a) (u128_of_int (int p))) (u128_of_int PERCENT_100)) (\<lambda>r.
           bindE (to_uint64 r) (\<lambda>v. Inr (share_of_u64 v))))"

definition stats_pay_fee :: "share \<Rightarrow> share \<Rightarrow> account_statistics \<Rightarrow> account_statistics result" where
  "stats_pay_fee core_fee threshold v =
     (if threshold < core_fee
      then bindE (safe_add (st_pending_fees v) core_fee) (\<lambda>x. Inr (v\<lparr>st_pending_fees := x\<rparr>))
      else bindE (safe_add (st_pending_vested_fees v) core_fee) (\<lambda>x. Inr (v\<lparr>st_pending_vested_fees := x\<rparr>)))"

definition pay_out_fees :: "nat \<Rightarrow> share \<Rightarrow> bool \<Rightarrow> chain \<Rightarrow> chain result" where
  "pay_out_fees acct core_fee_total require_vesting s =
     bindE (tget (accounts s) acct) (\<lambda>a0.
     bindE (tget (accounts s) (ac_referrer a0)) (\<lambda>r.
     let a = (if is_basic_account r (head_time s) then a0\<lparr>ac_referrer := ac_lifetime_referrer a0\<rparr> else a0);
         s1 = s\<lparr>accounts := tput acct a (accounts s)\<rparr>
     in bindE (cut_fee core_fee_total (ac_network_fee_percentage a)) (\<lambda>network_cut.
        bindE (cut_fee core_fee_total (ac_lifetime_referrer_fee_percentage a)) (\<lambda>lifetime_cut.
        bindE (safe_sub core_fee_total network_cut) (\<lambda>x.
        bindE (safe_sub x lifetime_cut) (\<lambda>referral.
        bindE (dyn_of CORE s1) (\<lambda>d.
        bindE (modify_dyn d (\<lambda>v. bindE (safe_add (ad_accumulated_fees v) network_cut) (\<lambda>y.
                 Inr (v\<lparr>ad_accumulated_fees := y\<rparr>))) s1) (\<lambda>s2.
        bindE (cut_fee referral (ac_referrer_rewards_percentage a)) (\<lambda>referrer_cut.
        bindE (safe_sub referral referrer_cut) (\<lambda>registrar_cut.
        bindE (deposit_cashback (ac_lifetime_referrer a) lifetime_cut require_vesting s2) (\<lambda>s3.
        bindE (deposit_cashback (ac_referrer a) referrer_cut require_vesting s3) (\<lambda>s4.
        deposit_cashback (ac_registrar a) registrar_cut require_vesting s4))))))))))))"

text \<open>The statistics object is read by reference: its fees do not change before the last step.\<close>

definition process_fees :: "nat \<Rightarrow> nat \<Rightarrow> chain \<Rightarrow> chain result" where
  "process_fees st acct s =
     bindE (tget (stats s) st) (\<lambda>v.
     if 0 < st_pending_fees v \<or> 0 < st_pending_vested_fees v then
       bindE (pay_out_fees acct (st_pending_fees v) True s) (\<lambda>s1.
       bindE (pay_out_fees acct (st_pending_vested_fees v) False s1) (\<lambda>s2.
       modify_stats st (\<lambda>v.
         bindE (safe_add (st_pending_fees v) (st_pending_vested_fees v)) (\<lambda>x.
         bindE (safe_add (st_lifetime_fees_paid v) x) (\<lambda>y.
         Inr (v\<lparr>st_lifetime_fees_paid := y, st_pending_fees := 0, st_pending_vested_fees := 0\<rparr>)))) s2))
     else Inr s)"

subsection \<open>Where an asset is held\<close>

text \<open>
  \<open>held s a\<close> adds up the shares of asset \<open>a\<close> wherever the state keeps them: balances, open orders with
  their deferred fees, collateral, force settlements, bids, vesting balances, settlement funds, fee pools
  and pending fees (in the core asset), accumulated fees and confidential supply.  \<open>surplus\<close> compares it
  with the current supply.
\<close>

definition share_in :: "asset_id_type \<Rightarrow> asset \<Rightarrow> int" where
  "share_in a x = (if asset_id x = a then amount x else 0)"

definition core_share :: "asset_id_type \<Rightarrow> int \<Rightarrow> int" where
  "core_share a x = (if a = CORE then x else 0)"

definition held_balance :: "asset_id_type \<Rightarrow> account_balance \<Rightarrow> int" where
  "held_balance a b = share_in a (mk_asset (bal_amount b) (bal_asset b))"

definition held_limit :: "asset_id_type \<Rightarrow> limit_order \<Rightarrow> int" where
  "held_limit a o1 = share_in a (amount_for_sale o1) + core_share a (lo_deferred_fee o1) + share_in a (lo_deferred_paid_fee o1)"

definition held_call :: "asset_id_type \<Rightarrow> call_order \<Rightarrow> int" where
  "held_call a c = share_in a (get_collateral c)"

definition held_settle :: "asset_id_type \<Rightarrow> force_settlement \<Rightarrow> int" where
  "held_settle a f = share_in a (fs_balance f)"

definition held_bid :: "asset_id_type \<Rightarrow> collateral_bid \<Rightarrow> int" where
  "held_bid a b = share_in a (base (cb_inv_swan_price b))"

definition held_vesting :: "asset_id_type \<Rightarrow> vesting_balance \<Rightarrow> int" where
  "held_vesting a v = share_in a (vb_balance v)"

definition held_fund :: "asset_id_type \<Rightarrow> bitasset_data \<Rightarrow> int" where
  "held_fund a b = share_in a (mk_asset (ba_settlement_fund b) (ba_short_backing_asset b))"

definition held_fees :: "asset_id_type \<Rightarrow> account_statistics \<Rightarrow> int" where
  "held_fees a v = core_share a (st_pending_fees v + st_pending_vested_fees v)"

definition held_pool :: "asset_id_type \<Rightarrow> asset_dynamic_data \<Rightarrow> int" where
  "held_pool a d = core_share a (ad_fee_pool d)"

definition own_dyn :: "asset_id_type \<Rightarrow> chain \<Rightarrow> asset_dynamic_data option" where
  "own_dyn a s = Option.bind (map_of (assets s) a) (\<lambda>o1. map_of (dyns s) (ao_dynamic_data o1))"

definition dyn_surplus :: "asset_dynamic_data option \<Rightarrow> int" where
  "dyn_surplus d = (case d of None \<Rightarrow> 0
     | Some v \<Rightarrow> ad_accumulated_fees v + ad_confidential_supply v - ad_current_supply v)"

definition surplus :: "chain \<Rightarrow> asset_id_type \<Rightarrow> int" where
  "surplus s a =
     tsum (held_balance a) (balances s) + tsum (held_limit a) (limits s) + tsum (held_call a) (calls s)
     + tsum (held_settle a) (settles s) + tsum (held_bid a) (bids s) + tsum (held_vesting a) (vestings s)
     + tsum (held_fund a) (bitassets s) + tsum (held_fees a) (stats s) + tsum (held_pool a) (dyns s)
     + dyn_surplus (own_dyn a s)"

text \<open>Well-formed states: ids are unique and below the next one, no two assets share their dynamic data,
  a bitasset that is not globally settled has an empty settlement fund, its feed, when there is one, is
  a price of the asset it belongs to in its backing asset.\<close>

definition dyns_ok :: "chain \<Rightarrow> bool" where
  "dyns_ok s \<longleftrightarrow> (\<forall>a b x y. map_of (assets s) a = Some x \<longrightarrow> map_of (assets s) b = Some y \<longrightarrow>
                 ao_dynamic_data x = ao_dynamic_data y \<longrightarrow> a = b)"

definition fund_ok :: "bitasset_data \<Rightarrow> bool" where
  "fund_ok b \<longleftrightarrow> (\<not> has_settlement b \<longrightarrow> ba_settlement_fund b = 0) \<and>
     (\<not> price_is_null (pf_settlement_price (ba_current_feed b)) \<longrightarrow>
        valid_price (pf_settlement_price (ba_current_feed b)) \<and>
        asset_id (base (pf_settlement_price (ba_current_feed b))) = ba_asset b \<and>
        asset_id (quote (pf_settlement_price (ba_current_feed b))) = ba_short_backing_asset b)"

definition funds_ok :: "chain \<Rightarrow> bool" where
  "funds_ok s \<longleftrightarrow> (\<forall>i b. map_of (bitassets s) i = Some b \<longrightarrow> fund_ok b) \<and>
     (\<forall>a x i b. map_of (assets s) a = Some x \<longrightarrow> ao_bitasset_data x = Some i \<longrightarrow> map_of (bitassets s) i = Some b \<longrightarrow>
        ba_asset b = a)"

text \<open>The amounts of the orders are \<open>int64_t\<close> values, a limit order has a price that
  \<open>price::validate\<close> accepts, and deferred fees are not negative.\<close>

definition limit_ok :: "limit_order \<Rightarrow> bool" where
  "limit_ok o1 \<longleftrightarrow> int64_ok (lo_for_sale o1) \<and> valid_price (lo_sell_price o1) \<and>
     0 \<le> lo_deferred_fee o1 \<and> 0 \<le> amount (lo_deferred_paid_fee o1)"

definition call_ok :: "call_order \<Rightarrow> bool" where
  "call_ok c \<longleftrightarrow> int64_ok (co_debt c) \<and> int64_ok (co_collateral c)"

definition settle_ok :: "force_settlement \<Rightarrow> bool" where
  "settle_ok f \<longleftrightarrow> int64_ok (amount (fs_balance f))"

definition tables_ok :: "chain \<Rightarrow> bool" where
  "tables_ok s \<longleftrightarrow> table_ok (balances s) (next_balance s) \<and> table_ok (vestings s) (next_vesting s) \<and>
     (table_ok (limits s) (next_limit s) \<and> table_all limit_ok (limits s)) \<and>
     (table_ok (calls s) (next_call s) \<and> table_all call_ok (calls s)) \<and>
     (table_ok (settles s) (next_settle s) \<and> table_all settle_ok (settles s)) \<and>
     table_ok (bids s) (next_bid s)"

text \<open>The market fee options as \<open>asset_options::validate\<close> admits them.\<close>

definition fees_ok :: "chain \<Rightarrow> bool" where
  "fees_ok s \<longleftrightarrow> (\<forall>a x. map_of (assets s) a = Some x \<longrightarrow>
     int (ao_market_fee_percent x) \<le> PERCENT_100 \<and> 0 \<le> ao_max_market_fee x)"

definition chain_wf :: "chain \<Rightarrow> bool" where
  "chain_wf s \<longleftrightarrow> tables_ok s \<and> dyns_ok s \<and> funds_ok s \<and> fees_ok s"

text \<open>\<open>shifts s s' d\<close>: the step keeps the state well-formed and the assets as they are, and changes the
  surplus of every asset by \<open>d\<close>.\<close>

definition shifts :: "chain \<Rightarrow> chain \<Rightarrow> (asset_id_type \<Rightarrow> int) \<Rightarrow> bool" where
  "shifts s s' d \<longleftrightarrow> (chain_wf s \<longrightarrow>
     chain_wf s' \<and> assets s' = assets s \<and> (\<forall>a. surplus s' a = surplus s a + d a))"

lemma shifts_refl: "shifts s s (\<lambda>_. 0)"
  by (simp add: shifts_def)

lemma shifts_trans: "shifts s t d \<Longrightarrow> shifts t u e \<Longrightarrow> shifts s u (\<lambda>a. d a + e a)"
  by (auto simp: shifts_def)

lemma shifts_eq: "shifts s t d \<Longrightarrow> (\<And>a. d a = e a) \<Longrightarrow> shifts s t e"
  by (simp add: shifts_def)

lemma shifts_step: "shifts s t d \<Longrightarrow> shifts t u e \<Longrightarrow> (\<And>a. d a + e a = f a) \<Longrightarrow> shifts s u f"
  using shifts_eq [OF shifts_trans] by blast

lemma shiftsD:
  assumes "shifts s t d" "chain_wf s"
  shows "chain_wf t" "assets t = assets s" "surplus t a = surplus s a + d a"
  using assms by (simp_all add: shifts_def)

lemma share_in_0 [simp]: "share_in a (mk_asset 0 b) = 0" "core_share a 0 = 0"
  by (simp_all add: share_in_def core_share_def)

lemma share_in_CORE: "share_in a (mk_asset x CORE) = core_share a x"
  by (auto simp: share_in_def core_share_def)


subsection \<open>What the primitive steps move\<close>

lemma shiftsI:
  assumes "chain_wf s \<Longrightarrow> tables_ok s'" "assets s' = assets s" "chain_wf s \<Longrightarrow> funds_ok s'"
    and "\<And>a. chain_wf s \<Longrightarrow> surplus s' a = surplus s a + d a"
  shows "shifts s s' d"
  using assms by (auto simp: shifts_def chain_wf_def dyns_ok_def fees_ok_def)

lemma wf_tables:
  assumes "chain_wf s"
  shows "table_ok (balances s) (next_balance s)" "table_ok (limits s) (next_limit s)"
    "table_ok (calls s) (next_call s)" "table_ok (settles s) (next_settle s)"
    "table_ok (bids s) (next_bid s)" "table_ok (vestings s) (next_vesting s)"
    "table_all limit_ok (limits s)" "table_all call_ok (calls s)" "table_all settle_ok (settles s)"
  using assms by (simp_all add: chain_wf_def tables_ok_def)

lemma wf_parts:
  assumes "chain_wf s"
  shows "tables_ok s" "dyns_ok s" "funds_ok s" "fees_ok s"
  using assms by (simp_all add: chain_wf_def)

lemma balances_shift:
  assumes "chain_wf s \<Longrightarrow> table_ok b n"
    and "\<And>a. chain_wf s \<Longrightarrow> tsum (held_balance a) b = tsum (held_balance a) (balances s) + d a"
  shows "shifts s (s\<lparr>balances := b, next_balance := n\<rparr>) d"
  using assms
  by (intro shiftsI) (simp_all add: wf_tables tables_ok_def, simp_all add: chain_wf_def funds_ok_def surplus_def own_dyn_def)

lemma balance_adjust_Inr: "balance_adjust b x = Inr b' \<Longrightarrow> share_in a (mk_asset (bal_amount b') (bal_asset b')) =
   share_in a (mk_asset (bal_amount b) (bal_asset b)) + (if bal_asset b = a then amount x else 0)"
  by (auto simp: balance_adjust_def share_in_def result_simps)

lemma adjust_balance_cases:
  assumes "adjust_balance acct x s = Inr s'" "amount x \<noteq> 0"
  obtains (new) b where "tfind (\<lambda>b. bal_owner b = acct \<and> bal_asset b = asset_id x) (balances s) = None" "0 < amount x"
      "bal_owner b = acct" "bal_asset b = asset_id x" "bal_amount b = amount x"
      "s' = s\<lparr>balances := tadd (next_balance s) b (balances s), next_balance := Suc (next_balance s)\<rparr>"
  | (old) k b b' where "tfind (\<lambda>b. bal_owner b = acct \<and> bal_asset b = asset_id x) (balances s) = Some (k, b)"
      "amount x < 0 \<longrightarrow> - amount x \<le> bal_amount b" "balance_adjust b x = Inr b'"
      "s' = s\<lparr>balances := tput k b' (balances s)\<rparr>"
proof (cases "tfind (\<lambda>b. bal_owner b = acct \<and> bal_asset b = asset_id x) (balances s)")
  case None
  then show thesis using assms by (intro new) (auto simp: adjust_balance_def result_simps)
next
  case (Some e)
  then have "\<exists>b'. (amount x < 0 \<longrightarrow> - amount x \<le> bal_amount (snd e)) \<and> balance_adjust (snd e) x = Inr b' \<and>
      s' = s\<lparr>balances := tput (fst e) b' (balances s)\<rparr>"
    using assms by (auto simp: adjust_balance_def result_simps split: if_splits)
  then show thesis using old [of "fst e" "snd e"] Some by auto
qed

lemma adjust_balance_shifts:
  assumes r: "adjust_balance acct x s = Inr s'"
  shows "shifts s s' (\<lambda>a. share_in a x)"
proof (cases "amount x = 0")
  case True
  then have s: "s = s'" using r by (simp add: adjust_balance_def)
  show ?thesis unfolding s by (rule shifts_eq [OF shifts_refl]) (simp add: share_in_def True)
next
  case False
  from r False show ?thesis
  proof (cases rule: adjust_balance_cases)
    case (new b)
    then show ?thesis
      by (simp only:) (rule balances_shift,
        auto simp: wf_tables table_ok_tadd held_balance_def share_in_def)
  next
    case (old k b b')
    have "shifts s (s\<lparr>balances := tput k b' (balances s), next_balance := next_balance s\<rparr>) (\<lambda>a. share_in a x)"
    proof (rule balances_shift)
      assume "chain_wf s"
      then have t: "table_ok (balances s) (next_balance s)" by (simp add: chain_wf_def tables_ok_def)
      note m = tfind_Some [OF t old(1)]
      show "table_ok (tput k b' (balances s)) (next_balance s)" using t m(1) by (rule table_ok_tput)
      show "tsum (held_balance a) (tput k b' (balances s)) = tsum (held_balance a) (balances s) + share_in a x" for a
        using tsum_tput [OF m(1)] balance_adjust_Inr [OF old(3), of a] m(2)
        by (auto simp: held_balance_def share_in_def)
    qed
    then show ?thesis using old(4) by simp
  qed
qed

lemma adjust_balance_frame:
  assumes "adjust_balance acct x s = Inr s'"
  obtains b n where "s' = s\<lparr>balances := b, next_balance := n\<rparr>"
proof (cases "amount x = 0")
  case True
  then have "s' = s\<lparr>balances := balances s, next_balance := next_balance s\<rparr>"
    using assms by (simp add: adjust_balance_def)
  then show thesis by (rule that)
next
  case False
  from assms False show thesis
  proof (cases rule: adjust_balance_cases)
    case (old k b b')
    then have "s' = s\<lparr>balances := tput k b' (balances s), next_balance := next_balance s\<rparr>" by simp
    then show thesis by (rule that)
  qed (rule that)
qed

lemma stats_shift:
  assumes "map_of (stats s) i = Some v" "\<And>a. held_fees a v' = held_fees a v + d a"
  shows "shifts s (s\<lparr>stats := tput i v' (stats s)\<rparr>) d"
  using assms
  by (intro shiftsI)
    (simp_all add: wf_tables tables_ok_def, simp_all add: chain_wf_def funds_ok_def surplus_def own_dyn_def tsum_tput)

lemma modify_stats_shifts:
  assumes "modify_stats i f s = Inr s'"
    and "\<And>a v v'. f v = Inr v' \<Longrightarrow> held_fees a v' = held_fees a v + d a"
  shows "shifts s s' d"
  using assms by (auto simp: modify_stats_def result_simps intro!: stats_shift)

lemma modify_stats_frame:
  assumes "modify_stats i f s = Inr s'"
  obtains v v' where "map_of (stats s) i = Some v" "f v = Inr v'" "s' = s\<lparr>stats := tput i v' (stats s)\<rparr>"
  using assms by (auto simp: modify_stats_def result_simps)

text \<open>A change of the dynamic data of the asset \<open>c\<close>, given by its deltas.\<close>

lemma own_dyn_tput:
  assumes "dyns_ok s" "map_of (assets s) c = Some o1" "map_of (dyns s) (ao_dynamic_data o1) = Some v"
  shows "own_dyn a (s\<lparr>dyns := tput (ao_dynamic_data o1) v' (dyns s)\<rparr>) = (if a = c then Some v' else own_dyn a s)"
  using assms by (auto simp: own_dyn_def dyns_ok_def bind_eq_None_conv split: Option.bind_split)

lemma dyn_shift:
  assumes "map_of (assets s) c = Some o1" "map_of (dyns s) (ao_dynamic_data o1) = Some v"
    and "\<And>a. held_pool a v' - held_pool a v
           + (if a = c then dyn_surplus (Some v') - dyn_surplus (Some v) else 0) = d a"
  shows "shifts s (s\<lparr>dyns := tput (ao_dynamic_data o1) v' (dyns s)\<rparr>) d"
proof -
  have "surplus (s\<lparr>dyns := tput (ao_dynamic_data o1) v' (dyns s)\<rparr>) a = surplus s a + d a" if "dyns_ok s" for a
    using own_dyn_tput [OF that assms(1,2), of a v'] assms(3) [of a] assms(1,2)
    by (auto simp: surplus_def tsum_tput own_dyn_def)
  then show ?thesis
    by (intro shiftsI) (simp_all add: wf_tables wf_parts tables_ok_def, simp_all add: chain_wf_def funds_ok_def)
qed

lemma modify_dyn_frame:
  assumes "modify_dyn i f s = Inr s'"
  obtains v v' where "map_of (dyns s) i = Some v" "f v = Inr v'" "s' = s\<lparr>dyns := tput i v' (dyns s)\<rparr>"
  using assms by (auto simp: modify_dyn_def result_simps)

lemma modify_dyn_shifts:
  assumes "modify_dyn i f s = Inr s'" "dyn_of c s = Inr i"
    and "\<And>a v v'. f v = Inr v' \<Longrightarrow> held_pool a v' - held_pool a v
           + (if a = c then dyn_surplus (Some v') - dyn_surplus (Some v) else 0) = d a"
  shows "shifts s s' d"
proof -
  from assms(2) obtain o1 where o1: "map_of (assets s) c = Some o1" "i = ao_dynamic_data o1"
    by (auto simp: dyn_of_def result_simps)
  from assms(1) show ?thesis
  proof (rule modify_dyn_frame)
    fix v v' assume "map_of (dyns s) i = Some v" "f v = Inr v'" "s' = s\<lparr>dyns := tput i v' (dyns s)\<rparr>"
    then show ?thesis using o1 assms(3) [of v v'] by (auto intro!: dyn_shift)
  qed
qed

lemma vestings_shift:
  assumes "chain_wf s \<Longrightarrow> table_ok t n"
    and "\<And>a. tsum (held_vesting a) t = tsum (held_vesting a) (vestings s) + d a"
  shows "shifts s (s\<lparr>vestings := t, next_vesting := n\<rparr>) d"
  using assms
  by (intro shiftsI)
    (simp_all add: wf_tables tables_ok_def, simp_all add: chain_wf_def funds_ok_def surplus_def own_dyn_def)

text \<open>Tables that hold nothing.\<close>

lemma accounts_shift: "shifts s (s\<lparr>accounts := t\<rparr>) (\<lambda>_. 0)"
  by (simp add: shifts_def chain_wf_def tables_ok_def dyns_ok_def funds_ok_def fees_ok_def surplus_def own_dyn_def)

lemma witnesses_shift: "shifts s (s\<lparr>witnesses := t\<rparr>) (\<lambda>_. 0)"
  by (simp add: shifts_def chain_wf_def tables_ok_def dyns_ok_def funds_ok_def fees_ok_def surplus_def own_dyn_def)

lemma push_shift: "shifts s (push_applied_operation v s) (\<lambda>_. 0)"
  by (simp add: push_applied_operation_def shifts_def chain_wf_def tables_ok_def dyns_ok_def funds_ok_def fees_ok_def
      surplus_def own_dyn_def)


subsection \<open>Vesting deposits and fees\<close>

lemma vesting_deposit_balance:
  assumes "vesting_deposit vb now x = Inr vb'"
  shows "held_vesting a vb' = held_vesting a vb + share_in a x" "vb_owner vb' = vb_owner vb"
  using assms by (auto simp: vesting_deposit_def Let_def result_simps held_vesting_def share_in_def)

lemma vesting_deposit_vested_balance:
  assumes "vesting_deposit_vested vb now x = Inr vb'"
  shows "held_vesting a vb' = held_vesting a vb + share_in a x" "vb_owner vb' = vb_owner vb"
  using assms by (auto simp: vesting_deposit_vested_def result_simps held_vesting_def share_in_def)

lemma new_lazy_vesting_balance: "new_lazy_vesting x secs owner rv now = Inr vb \<Longrightarrow>
    held_vesting a vb = core_share a x \<and> vb_owner vb = owner"
  by (auto simp: new_lazy_vesting_def Let_def held_vesting_def share_in_CORE split: if_splits)

lemma deposit_lazy_vesting_frame:
  assumes "deposit_lazy_vesting ov x secs owner rv s = Inr (nv, s')"
  obtains t n where "s' = s\<lparr>vestings := t, next_vesting := n\<rparr>"
    "\<And>a. tsum (held_vesting a) t = tsum (held_vesting a) (vestings s) + core_share a x"
    "chain_wf s \<Longrightarrow> table_ok t n"
proof (cases "x = 0")
  case True
  then have "s' = s\<lparr>vestings := vestings s, next_vesting := next_vesting s\<rparr>"
    using assms by (simp add: deposit_lazy_vesting_def)
  then show thesis by (rule that) (simp_all add: True wf_tables)
next
  case False
  define target where "target = (case ov of None \<Rightarrow> Inr None
               | Some i \<Rightarrow> bindE (tget (vestings s) i) (\<lambda>vbo.
                           Inr (if lazy_vesting_matches vbo owner secs then Some (i, vbo) else None)))"
  have tgt: "target = Inr (Some (i, vbo)) \<Longrightarrow> map_of (vestings s) i = Some vbo" for i vbo
    by (auto simp: target_def result_simps split: option.splits if_splits)
  from assms False consider
      (old) i vbo vbo' where "target = Inr (Some (i, vbo))"
        "(if rv then vesting_deposit vbo (head_time s) (mk_asset x CORE)
          else vesting_deposit_vested vbo (head_time s) (mk_asset x CORE)) = Inr vbo'"
        "s' = s\<lparr>vestings := tput i vbo' (vestings s)\<rparr>"
    | (new) vbo where "new_lazy_vesting x secs owner rv (head_time s) = Inr vbo"
        "s' = s\<lparr>vestings := tadd (next_vesting s) vbo (vestings s), next_vesting := Suc (next_vesting s)\<rparr>"
    by (auto simp: deposit_lazy_vesting_def result_simps target_def [symmetric] split: option.splits prod.splits)
  then show thesis
  proof cases
    case (old i vbo vbo')
    have m: "map_of (vestings s) i = Some vbo" using tgt old(1) .
    have h: "held_vesting a vbo' = held_vesting a vbo + core_share a x" for a
      using old(2) vesting_deposit_balance(1) vesting_deposit_vested_balance(1)
      by (auto simp: share_in_CORE split: if_splits)
    have "s' = s\<lparr>vestings := tput i vbo' (vestings s), next_vesting := next_vesting s\<rparr>" using old(3) by simp
    then show thesis by (rule that) (use m h in \<open>auto simp: tsum_tput wf_tables intro: table_ok_tput\<close>)
  next
    case (new vbo)
    then show thesis
      by (intro that [OF new(2)]) (auto dest!: new_lazy_vesting_balance simp: table_ok_tadd wf_tables)
  qed
qed

lemma deposit_lazy_vesting_shifts:
  assumes "deposit_lazy_vesting ov x secs owner rv s = Inr (nv, s')"
  shows "shifts s s' (\<lambda>a. core_share a x)"
  using assms by (rule deposit_lazy_vesting_frame) (auto intro!: vestings_shift)

lemma deposit_cashback_shifts:
  assumes r: "deposit_cashback acct x rv s = Inr s'"
  shows "shifts s s' (\<lambda>a. core_share a x)"
proof (cases "x = 0")
  case True
  then have s: "s = s'" using r by (auto simp: deposit_cashback_def result_simps)
  show ?thesis unfolding s True by (rule shifts_eq [OF shifts_refl]) simp
next
  case x: False
  show ?thesis
  proof (cases "is_chain_account acct")
    case True
    then obtain d where d: "dyn_of CORE s = Inr d"
      "modify_dyn d (\<lambda>v. bindE (safe_sub (ad_current_supply v) x) (\<lambda>y. Inr (v\<lparr>ad_current_supply := y\<rparr>))) s = Inr s'"
      using r x by (auto simp: deposit_cashback_def result_simps)
    from d(2,1) show ?thesis
      by (rule modify_dyn_shifts) (auto simp: result_simps held_pool_def dyn_surplus_def core_share_def)
  next
    case False
    then obtain a nv s1 where v: "deposit_lazy_vesting (ac_cashback_vb a) x (cashback_vesting_period_seconds s) acct rv s = Inr (nv, s1)"
      and n: "(case nv of None \<Rightarrow> Inr s1
       | Some i \<Rightarrow> modify_stats (ac_statistics a) (\<lambda>v. Inr (v\<lparr>st_has_cashback_vb := True\<rparr>))
             (s1\<lparr>accounts := tput acct (a\<lparr>ac_cashback_vb := Some i\<rparr>) (accounts s1)\<rparr>)) = Inr s'"
      using r x by (auto simp: deposit_cashback_def bindE_eq_Inr)
    note v = deposit_lazy_vesting_shifts [OF v]
    show ?thesis
    proof (cases nv)
      case None
      then show ?thesis using v n by simp
    next
      case (Some i)
      then have "modify_stats (ac_statistics a) (\<lambda>v. Inr (v\<lparr>st_has_cashback_vb := True\<rparr>))
             (s1\<lparr>accounts := tput acct (a\<lparr>ac_cashback_vb := Some i\<rparr>) (accounts s1)\<rparr>) = Inr s'"
        using n by simp
      then have "shifts (s1\<lparr>accounts := tput acct (a\<lparr>ac_cashback_vb := Some i\<rparr>) (accounts s1)\<rparr>) s' (\<lambda>_. 0)"
        by (rule modify_stats_shifts) (auto simp: held_fees_def)
      from shifts_step [OF shifts_trans [OF v accounts_shift] this] show ?thesis by simp
    qed
  qed
qed

lemma deposit_witness_pay_shifts:
  assumes r: "deposit_witness_pay wit x s = Inr s'"
  shows "shifts s s' (\<lambda>a. core_share a x)"
proof (cases "x = 0")
  case True
  then have s: "s = s'" using r by (auto simp: deposit_witness_pay_def result_simps)
  show ?thesis unfolding s True by (rule shifts_eq [OF shifts_refl]) simp
next
  case False
  then obtain w nv s1 where v: "deposit_lazy_vesting (wi_pay_vb w) x (witness_pay_vesting_seconds s) (wi_account w) True s = Inr (nv, s1)"
    and n: "(case nv of None \<Rightarrow> Inr s1
      | Some i \<Rightarrow> Inr (s1\<lparr>witnesses := tput wit (w\<lparr>wi_pay_vb := Some i\<rparr>) (witnesses s1)\<rparr>)) = (Inr s' :: chain result)"
    using r by (simp add: deposit_witness_pay_def bindE_eq_Inr) blast
  from n have "s' = s1 \<or> (\<exists>t. s' = s1\<lparr>witnesses := t\<rparr>)" by (cases nv) auto
  then show ?thesis
    using deposit_lazy_vesting_shifts [OF v] shifts_trans [OF deposit_lazy_vesting_shifts [OF v] witnesses_shift]
    by auto
qed

lemma cut_fee_Inr:
  assumes "0 \<le> x" "x < 2 ^ 63" "int p \<le> PERCENT_100"
  shows "cut_fee x p = Inr (x * int p div PERCENT_100)"
proof -
  have p: "int p < 2 ^ 32" "0 < PERCENT_100" using assms(3) by (simp_all add: PERCENT_100_def)
  have P: "uval (u128_of_int PERCENT_100) = PERCENT_100" by (rule uval_of_int) (simp_all add: PERCENT_100_def)
  have "uval (u128_of_int (int p)) = int p" by (rule uval_of_int) (use p in simp_all)
  moreover have "uval (u128_of_int x) = x" by (rule uval_of_int) (use assms in simp_all)
  ultimately have m: "uval (u_mul (u128_of_int x) (u128_of_int (int p))) = x * int p"
    using uval_mul small_product(2) [OF assms(1,2) _ p(1)] by simp
  obtain q where q: "u_div (u_mul (u128_of_int x) (u128_of_int (int p))) (u128_of_int PERCENT_100) = Inr q"
      "uval q = x * int p div PERCENT_100"
    using uval_div [of "u128_of_int PERCENT_100" "u_mul (u128_of_int x) (u128_of_int (int p))"] P m p(2) by auto
  have "x * int p \<le> x * PERCENT_100" using assms by (simp add: mult_left_mono)
  then have "x * int p div PERCENT_100 \<le> x" using p(2) by (metis nonzero_mult_div_cancel_right zdiv_mono1 less_irrefl)
  then have "uval q < 2 ^ 63" using q(2) assms(2) by linarith
  then have "bindE (to_uint64 q) (\<lambda>v. Inr (share_of_u64 v)) = Inr (x * int p div PERCENT_100)"
    using to_uint64_share(1) q(2) by simp
  then show ?thesis using q(1) p(2) by (auto simp: cut_fee_def)
qed

lemma cut_fee_bounds:
  assumes "0 \<le> x" "int p \<le> PERCENT_100"
  shows "0 \<le> x * int p div PERCENT_100" "x * int p div PERCENT_100 \<le> x"
proof -
  have p: "0 < PERCENT_100" by (simp add: PERCENT_100_def)
  then show "0 \<le> x * int p div PERCENT_100" using assms by (simp add: pos_imp_zdiv_nonneg_iff)
  have "x * int p \<le> x * PERCENT_100" using assms by (simp add: mult_left_mono)
  then show "x * int p div PERCENT_100 \<le> x" using p by (metis nonzero_mult_div_cancel_right zdiv_mono1 less_irrefl)
qed

lemma pay_out_fees_shifts:
  assumes "pay_out_fees acct x rv s = Inr s'"
  shows "shifts s s' (\<lambda>a. core_share a x)"
proof -
  from assms obtain a s1 network_cut lifetime_cut referral d s2 referrer_cut s3 s4 where
    s1: "s1 = s\<lparr>accounts := tput acct a (accounts s)\<rparr>" and
    ref: "referral = x - network_cut - lifetime_cut" and
    d: "dyn_of CORE s1 = Inr d" "modify_dyn d (\<lambda>v. bindE (safe_add (ad_accumulated_fees v) network_cut) (\<lambda>y.
             Inr (v\<lparr>ad_accumulated_fees := y\<rparr>))) s1 = Inr s2" and
    dep: "deposit_cashback (ac_lifetime_referrer a) lifetime_cut rv s2 = Inr s3"
      "deposit_cashback (ac_referrer a) referrer_cut rv s3 = Inr s4"
      "deposit_cashback (ac_registrar a) (referral - referrer_cut) rv s4 = Inr s'"
    unfolding pay_out_fees_def Let_def by (auto simp: result_simps)
  have "shifts s s1 (\<lambda>_. 0)" unfolding s1 by (rule accounts_shift)
  moreover have "shifts s1 s2 (\<lambda>a. core_share a network_cut)"
    using d(2,1) by (rule modify_dyn_shifts)
      (auto simp: result_simps held_pool_def dyn_surplus_def core_share_def)
  ultimately have "shifts s s2 (\<lambda>a. core_share a network_cut)" using shifts_step by fastforce
  from shifts_trans [OF shifts_trans [OF shifts_trans [OF this deposit_cashback_shifts [OF dep(1)]]
      deposit_cashback_shifts [OF dep(2)]] deposit_cashback_shifts [OF dep(3)]]
  show ?thesis by (rule shifts_eq) (simp add: core_share_def ref)
qed


lemma adjust_balance_get:
  assumes wf: "chain_wf s" and r: "adjust_balance acct x s = Inr s'"
  shows "get_balance other c s' = mk_asset (amount (get_balance other c s)
        + (if other = acct \<and> c = asset_id x then amount x else 0)) c"
proof -
  let ?P = "\<lambda>b. bal_owner b = acct \<and> bal_asset b = asset_id x"
  have t: "table_ok (balances s) (next_balance s)" using wf by (rule wf_tables)
  have key: "bal_asset u = c" if "tfind (\<lambda>b. bal_owner b = other \<and> bal_asset b = c) (balances s) = Some (k, u)" for k u other c
    using tfind_Some(2) [OF t that] by simp
  have same: "get_balance other c s = mk_asset (amount (get_balance other c s)) c" for other c
    by (auto simp: get_balance_def dest: key split: option.splits)
  show "get_balance other c s' = mk_asset (amount (get_balance other c s)
        + (if other = acct \<and> c = asset_id x then amount x else 0)) c"
  proof (cases "amount x = 0")
    case True
    then have "s' = s" using r by (simp add: adjust_balance_def)
    then show ?thesis using same True by simp
  next
    case False
    from r False show ?thesis
    proof (cases rule: adjust_balance_cases)
      case (new b')
      then show ?thesis by (auto simp: get_balance_def tfind_tadd dest: key split: option.splits)
    next
      case (old k u v)
      note u = tfind_Some [OF t old(1)]
      have v: "bal_owner v = bal_owner u" "bal_asset v = bal_asset u" "bal_amount v = bal_amount u + amount x"
        using old(3) by (auto simp: balance_adjust_def result_simps)
      have f: "tfind (\<lambda>b. bal_owner b = other \<and> bal_asset b = c) (tput k v (balances s))
          = map_option (\<lambda>e. if fst e = k then (k, v) else e) (tfind (\<lambda>b. bal_owner b = other \<and> bal_asset b = c) (balances s))"
        using t u(1) by (rule tfind_tput) (simp add: v)
      show ?thesis
      proof (cases "tfind (\<lambda>b. bal_owner b = other \<and> bal_asset b = c) (balances s)")
        case None
        then have "\<not> (other = acct \<and> c = asset_id x)" using old(1) by auto
        then show ?thesis using None f old(4) by (simp add: get_balance_def) blast
      next
        case (Some e)
        then obtain j w where w: "e = (j, w)" "tfind (\<lambda>b. bal_owner b = other \<and> bal_asset b = c) (balances s) = Some (j, w)"
          by (cases e) simp
        note m = tfind_Some [OF t w(2)]
        have jk: "j = k \<longleftrightarrow> other = acct \<and> c = asset_id x"
        proof
          assume "j = k"
          then have "w = u" using m(1) u(1) by simp
          then show "other = acct \<and> c = asset_id x" using m(2) u(2) by simp
        next
          assume "other = acct \<and> c = asset_id x"
          then show "j = k" using old(1) w(2) by simp
        qed
        have g: "get_balance other c s = mk_asset (bal_amount w) c"
          using m(2) by (simp add: get_balance_def w(2))
        have "get_balance other c s' = (if j = k then mk_asset (bal_amount v) c else mk_asset (bal_amount w) c)"
          using m u v jk by (simp add: get_balance_def old(4) f w(2))
        moreover have "j = k \<Longrightarrow> w = u" using m(1) u(1) by simp
        ultimately show ?thesis unfolding g using jk v(3) by simp
      qed
    qed
  qed
qed

lemma adjust_balance_effects:
  assumes wf: "chain_wf s" and d: "int64_ok (amount x)"
    and b: "0 \<le> amount (get_balance acct (asset_id x) s)" "amount (get_balance acct (asset_id x) s) \<le> safe_max"
  shows "is_ok (adjust_balance acct x s) \<longleftrightarrow>
      0 \<le> amount (get_balance acct (asset_id x) s) + amount x \<and>
      amount (get_balance acct (asset_id x) s) + amount x \<le> safe_max"
    and "\<And>s'. adjust_balance acct x s = Inr s' \<Longrightarrow>
      get_balance other c s' = mk_asset (amount (get_balance other c s)
        + (if other = acct \<and> c = asset_id x then amount x else 0)) c"
proof -
  let ?P = "\<lambda>b. bal_owner b = acct \<and> bal_asset b = asset_id x"
  have t: "table_ok (balances s) (next_balance s)" using wf by (rule wf_tables)
  have key: "bal_asset u = c" if "tfind (\<lambda>b. bal_owner b = other \<and> bal_asset b = c) (balances s) = Some (k, u)" for k u other c
    using tfind_Some(2) [OF t that] by simp
  show "is_ok (adjust_balance acct x s) \<longleftrightarrow>
      0 \<le> amount (get_balance acct (asset_id x) s) + amount x \<and>
      amount (get_balance acct (asset_id x) s) + amount x \<le> safe_max"
  proof (cases "tfind ?P (balances s)")
    case None
    then show ?thesis using d
      by (auto simp: adjust_balance_def get_balance_def int64_ok_def assertE_def)
  next
    case (Some e)
    then have "bal_asset (snd e) = asset_id x" using key [of acct "asset_id x" "fst e" "snd e"] by simp
    moreover have "safe_max < - safe_min" by (simp add: safe_max_def safe_min_def)
    ultimately show ?thesis using Some b d
      by (auto simp: adjust_balance_def get_balance_def int64_ok_def assertE_def balance_adjust_def
          safe_add_def asset_neg_def safe_neg_def asset_ge_def asset_less_def is_ok_bindE bindE_def)
  qed
  show "\<And>s'. adjust_balance acct x s = Inr s' \<Longrightarrow> get_balance other c s' = mk_asset (amount (get_balance other c s)
        + (if other = acct \<and> c = asset_id x then amount x else 0)) c"
    by (rule adjust_balance_get [OF wf])
qed

text \<open>A concrete state: the core asset 0 and the asset 1 that it backs, three accounts.\<close>

definition demo_chain :: chain where
  "demo_chain = \<lparr>
     accounts = [(5, \<lparr>ac_membership_expiration_date = 0, ac_registrar = 7, ac_referrer = 6, ac_lifetime_referrer = 7,
         ac_network_fee_percentage = 2000, ac_lifetime_referrer_fee_percentage = 3000,
         ac_referrer_rewards_percentage = 5000, ac_statistics = 0, ac_cashback_vb = None,
         ac_allowed_assets = None, ac_active_accounts = []\<rparr>),
       (6, \<lparr>ac_membership_expiration_date = 50, ac_registrar = 7, ac_referrer = 7, ac_lifetime_referrer = 7,
         ac_network_fee_percentage = 2000, ac_lifetime_referrer_fee_percentage = 3000,
         ac_referrer_rewards_percentage = 5000, ac_statistics = 1, ac_cashback_vb = None,
         ac_allowed_assets = None, ac_active_accounts = []\<rparr>),
       (7, \<lparr>ac_membership_expiration_date = 200, ac_registrar = 7, ac_referrer = 7, ac_lifetime_referrer = 7,
         ac_network_fee_percentage = 2000, ac_lifetime_referrer_fee_percentage = 8000,
         ac_referrer_rewards_percentage = 0, ac_statistics = 2, ac_cashback_vb = None,
         ac_allowed_assets = None, ac_active_accounts = []\<rparr>)],
     stats = map (\<lambda>(i, o1, f, c). (i, \<lparr>st_owner = o1, st_total_core_in_orders = c, st_has_cashback_vb = False,
         st_lifetime_fees_paid = 0, st_pending_fees = f, st_pending_vested_fees = 0\<rparr>))
         [(0, 5, 1000, 0), (1, 6, 0, 300), (2, 7, 0, 0)],
     balances = map (\<lambda>(i, o1, a, x). (i, \<lparr>bal_owner = o1, bal_asset = a, bal_amount = x, bal_maintenance_flag = True\<rparr>))
         [(0, 5, 0, 700), (1, 6, 1, 100)],
     next_balance = 2,
     assets = [(0, \<lparr>ao_precision = 5, ao_issuer = 3, ao_flags = 0, ao_market_fee_percent = 0, ao_max_market_fee = 0,
         ao_max_supply = MAX_SHARE_SUPPLY, ao_issuer_permissions = 0, ao_core_exchange_rate = None,
         ao_whitelist_markets = [], ao_blacklist_markets = [],
         ao_dynamic_data = 0, ao_bitasset_data = None\<rparr>),
       (1, \<lparr>ao_precision = 4, ao_issuer = 0, ao_flags = 1, ao_market_fee_percent = 100, ao_max_market_fee = 1000,
         ao_max_supply = MAX_SHARE_SUPPLY, ao_issuer_permissions = 0x20,
         ao_core_exchange_rate = Some \<lparr>base = mk_asset 1 1, quote = mk_asset 2 0\<rparr>,
         ao_whitelist_markets = [], ao_blacklist_markets = [],
         ao_dynamic_data = 1, ao_bitasset_data = Some 0\<rparr>)],
     dyns = [(0, \<lparr>ad_current_supply = 2000, ad_confidential_supply = 0, ad_accumulated_fees = 0, ad_fee_pool = 0\<rparr>),
       (1, \<lparr>ad_current_supply = 100, ad_confidential_supply = 0, ad_accumulated_fees = 0, ad_fee_pool = 0\<rparr>)],
     bitassets = [(0, \<lparr>ba_asset = 1, ba_short_backing_asset = 0, ba_feed_lifetime_sec = 100, ba_minimum_feeds = 1,
         ba_force_settlement_delay_sec = 60,
         ba_force_settlement_offset_percent = 0, ba_maximum_force_settlement_volume = 2000, ba_feeds = [],
         ba_current_feed = default_price_feed\<lparr>pf_settlement_price := \<lparr>base = mk_asset 1 1, quote = mk_asset 1 0\<rparr>\<rparr>,
         ba_current_feed_publication_time = 0, ba_is_prediction_market = False, ba_force_settled_volume = 0,
         ba_settlement_price = null_price, ba_settlement_fund = 0, ba_asset_cer_updated = False, ba_feed_cer_updated = False\<rparr>)],
     limits = [], next_limit = 0,
     calls = [(0, \<lparr>co_borrower = 6, co_collateral = 300, co_debt = 100,
         co_call_price = \<lparr>base = mk_asset 7 0, quote = mk_asset 4 1\<rparr>, co_target_collateral_ratio = None\<rparr>)],
     next_call = 1,
     settles = [], next_settle = 0, bids = [], next_bid = 0, vestings = [], next_vesting = 0, witnesses = [],
     head_time = 100, next_maintenance_time = 2000000000, cashback_vesting_threshold = 10,
     cashback_vesting_period_seconds = 60, witness_pay_vesting_seconds = 60,
     maximum_asset_feed_publishers = 10, limit_cancel_base_fee = 20,
     fee_scale = 10000, issue_453_affected_assets = [], applied_ops = []\<rparr>"

lemma demo_chain_wf: "chain_wf demo_chain"
  by (simp add: demo_chain_def chain_wf_def tables_ok_def table_ok_def dyns_ok_def funds_ok_def fees_ok_def
      fund_ok_def has_settlement_def price_is_null_def null_price_def default_price_feed_def valid_price_def table_all_def call_ok_def int64_ok_def safe_min_def safe_max_def PERCENT_100_def)

text \<open>C28. \<open>adjust_balance\<close> succeeds exactly when the new balance is neither negative nor beyond
  \<open>int64_t\<close>; it then adds the delta to the balance of that account in that asset and leaves every other
  balance as it is.\<close>

theorem adjust_balance_effect:
  assumes "chain_wf s" "int64_ok (amount x)" "amount (get_balance acct (asset_id x) s) = b" "0 \<le> b" "b \<le> safe_max"
  shows "case adjust_balance acct x s of
     Inl _ \<Rightarrow> b + amount x < 0 \<or> safe_max < b + amount x
   | Inr s' \<Rightarrow> 0 \<le> b + amount x \<and> b + amount x \<le> safe_max \<and>
       (\<forall>other c. get_balance other c s' = mk_asset (amount (get_balance other c s)
          + (if other = acct \<and> c = asset_id x then amount x else 0)) c)"
proof -
  have ok: "is_ok (adjust_balance acct x s) \<longleftrightarrow> 0 \<le> b + amount x \<and> b + amount x \<le> safe_max"
    using adjust_balance_effects(1) [OF assms(1,2), of acct] assms(3-5) by simp
  note eff = adjust_balance_effects(2) [OF assms(1,2), of acct]
  show ?thesis
  proof (cases "adjust_balance acct x s")
    case (Inl e)
    then show ?thesis using ok by (simp add: not_le disj_commute)
  next
    case (Inr s')
    have "get_balance other c s' = mk_asset (amount (get_balance other c s)
          + (if other = acct \<and> c = asset_id x then amount x else 0)) c" for other c
      by (rule eff) (use assms(3-5) Inr in simp_all)
    then show ?thesis using ok unfolding Inr sum.case by (simp only: is_ok_simps) blast
  qed
qed

lemma demo_balances: "balances demo_chain =
    [(0, \<lparr>bal_owner = 5, bal_asset = 0, bal_amount = 700, bal_maintenance_flag = True\<rparr>),
     (1, \<lparr>bal_owner = 6, bal_asset = 1, bal_amount = 100, bal_maintenance_flag = True\<rparr>)]"
  unfolding demo_chain_def chain.select_convs by simp

theorem adjust_balance_effect_witness:
  "(\<exists>s'. adjust_balance 5 (mk_asset (- 200) 0) demo_chain = Inr s' \<and> get_balance 5 0 s' = mk_asset 500 0 \<and>
      get_balance 6 1 s' = mk_asset 100 1) \<and>
   adjust_balance 5 (mk_asset (- 701) 0) demo_chain = Inl AssertFailed"
proof
  have b: "get_balance 5 0 demo_chain = mk_asset 700 0" "get_balance 6 1 demo_chain = mk_asset 100 1"
    unfolding get_balance_def demo_balances by (simp_all add: tfind_def)
  have "int64_ok (amount (mk_asset (- 200) 0))" by (simp add: int64_ok_def safe_min_def safe_max_def)
  moreover have "(700::int) \<le> safe_max" by (simp add: safe_max_def)
  ultimately have e: "case adjust_balance 5 (mk_asset (- 200) 0) demo_chain of
     Inl _ \<Rightarrow> 700 + amount (mk_asset (- 200) 0) < 0 \<or> safe_max < 700 + amount (mk_asset (- 200) 0)
   | Inr s' \<Rightarrow> 0 \<le> 700 + amount (mk_asset (- 200) 0) \<and> 700 + amount (mk_asset (- 200) 0) \<le> safe_max \<and>
       (\<forall>other c. get_balance other c s' = mk_asset (amount (get_balance other c demo_chain)
          + (if other = 5 \<and> c = asset_id (mk_asset (- 200) 0) then amount (mk_asset (- 200) 0) else 0)) c)"
    by (intro adjust_balance_effect [OF demo_chain_wf]) (simp_all add: b)
  show "\<exists>s'. adjust_balance 5 (mk_asset (- 200) 0) demo_chain = Inr s' \<and> get_balance 5 0 s' = mk_asset 500 0 \<and>
      get_balance 6 1 s' = mk_asset 100 1"
  proof (cases "adjust_balance 5 (mk_asset (- 200) 0) demo_chain")
    case (Inl x)
    then show ?thesis using e by (simp add: safe_max_def)
  next
    case (Inr s')
    then have "\<forall>other c. get_balance other c s' = mk_asset (amount (get_balance other c demo_chain)
          + (if other = 5 \<and> c = 0 then - 200 else 0)) c" using e by simp
    then have "get_balance 5 0 s' = mk_asset 500 0" "get_balance 6 1 s' = mk_asset 100 1"
      by (simp_all only: b) simp_all
    then show ?thesis using Inr by blast
  qed
  show "adjust_balance 5 (mk_asset (- 701) 0) demo_chain = Inl AssertFailed"
    unfolding adjust_balance_def demo_balances
    by (simp add: tfind_def asset_neg_def safe_neg_def safe_min_def asset_ge_def asset_less_def)
qed

text \<open>The pending fees of the statistics objects.\<close>

definition pending :: "chain \<Rightarrow> nat \<Rightarrow> (share \<times> share) option" where
  "pending s i = map_option (\<lambda>v. (st_pending_fees v, st_pending_vested_fees v)) (map_of (stats s) i)"

lemma deposit_cashback_pending:
  assumes r: "deposit_cashback acct x rv s = Inr s'"
  shows "pending s' i = pending s i"
proof (cases "x = 0 \<or> is_chain_account acct")
  case True
  then show ?thesis using r
    by (auto simp: deposit_cashback_def modify_dyn_def pending_def result_simps split: if_splits)
next
  case False
  then obtain a nv s1 where v: "deposit_lazy_vesting (ac_cashback_vb a) x (cashback_vesting_period_seconds s) acct rv s = Inr (nv, s1)"
    and n: "(case nv of None \<Rightarrow> Inr s1
     | Some i \<Rightarrow> modify_stats (ac_statistics a) (\<lambda>v. Inr (v\<lparr>st_has_cashback_vb := True\<rparr>))
           (s1\<lparr>accounts := tput acct (a\<lparr>ac_cashback_vb := Some i\<rparr>) (accounts s1)\<rparr>)) = Inr s'"
    using r by (auto simp: deposit_cashback_def bindE_eq_Inr)
  have "stats s1 = stats s" using v by (rule deposit_lazy_vesting_frame) simp
  with n show ?thesis
    by (cases nv) (auto simp: modify_stats_def pending_def result_simps)
qed

lemma pay_out_fees_pending:
  assumes "pay_out_fees acct x rv s = Inr s'"
  shows "pending s' i = pending s i"
proof -
  from assms obtain a s1 n d s2 y1 y2 y3 s3 s4 where
    s1: "s1 = s\<lparr>accounts := tput acct a (accounts s)\<rparr>" and
    d: "modify_dyn d (\<lambda>v. bindE (safe_add (ad_accumulated_fees v) n) (\<lambda>y.
             Inr (v\<lparr>ad_accumulated_fees := y\<rparr>))) s1 = Inr s2" and
    dep: "deposit_cashback (ac_lifetime_referrer a) y1 rv s2 = Inr s3"
      "deposit_cashback (ac_referrer a) y2 rv s3 = Inr s4"
      "deposit_cashback (ac_registrar a) y3 rv s4 = Inr s'"
    unfolding pay_out_fees_def Let_def by (auto simp: result_simps)
  have "pending s2 i = pending s i" using d s1 by (auto simp: modify_dyn_def pending_def result_simps)
  then show ?thesis using dep by (simp add: deposit_cashback_pending)
qed

text \<open>C29. \<open>process_fees\<close> hands out all pending fees of an account and creates or destroys nothing: the
  parts for the network, the lifetime referrer, the referrer and the registrar add up to the fees that
  were pending, wherever each part goes (accumulated fees, a vesting balance, or back to the reserve).\<close>

theorem process_fees_conserves:
  assumes wf: "chain_wf s" and r: "process_fees st acct s = Inr s'"
    and p: "pending s st = Some (f, g)" "0 \<le> f" "0 \<le> g"
  shows "chain_wf s' \<and> (\<forall>a. surplus s' a = surplus s a) \<and> pending s' st = Some (0, 0)"
proof -
  have "shifts s s' (\<lambda>_. 0) \<and> pending s' st = Some (0, 0)"
  proof (cases "0 < f \<or> 0 < g")
    case False
    then have s: "s = s'" "f = 0" "g = 0" using r p by (auto simp: process_fees_def pending_def result_simps)
    show ?thesis using p(1) unfolding s by (simp add: shifts_refl)
  next
    case True
    let ?pay = "\<lambda>v. bindE (safe_add (st_pending_fees v) (st_pending_vested_fees v)) (\<lambda>x.
         bindE (safe_add (st_lifetime_fees_paid v) x) (\<lambda>y.
         Inr (v\<lparr>st_lifetime_fees_paid := y, st_pending_fees := 0, st_pending_vested_fees := 0\<rparr>)))"
    obtain s1 s2 where s1: "pay_out_fees acct f True s = Inr s1" and s2: "pay_out_fees acct g False s1 = Inr s2"
      and s': "modify_stats st ?pay s2 = Inr s'"
      using True r p by (auto simp: process_fees_def pending_def result_simps)
    have p2: "pending s2 st = Some (f, g)"
      using p(1) pay_out_fees_pending [OF s1] pay_out_fees_pending [OF s2] by simp
    obtain v v' where v: "map_of (stats s2) st = Some v" "?pay v = Inr v'" "s' = s2\<lparr>stats := tput st v' (stats s2)\<rparr>"
      using modify_stats_frame [OF s'] .
    have "shifts s2 s' (\<lambda>a. core_share a (- f - g))"
      unfolding v(3) using v(1) by (rule stats_shift)
        (use v(1,2) p2 in \<open>auto simp: held_fees_def core_share_def pending_def result_simps\<close>)
    from shifts_step [OF shifts_trans [OF pay_out_fees_shifts [OF s1] pay_out_fees_shifts [OF s2]] this]
    have "shifts s s' (\<lambda>_. 0)" by (simp add: core_share_def)
    moreover have "pending s' st = Some (0, 0)"
      using v by (auto simp: pending_def result_simps)
    ultimately show ?thesis by simp
  qed
  then show ?thesis
    using shiftsD [OF _ wf, of s' "\<lambda>_. 0"] by simp
qed

theorem process_fees_conserves_witness:
  "\<exists>s'. process_fees 0 5 demo_chain = Inr s' \<and> surplus s' 0 = surplus demo_chain 0 \<and> pending s' 0 = Some (0, 0)"
proof -
  have c: "cut_fee 1000 2000 = Inr 200" "cut_fee 1000 3000 = Inr 300" "cut_fee 500 5000 = Inr 250"
    "cut_fee 0 p = Inr 0" for p
    by (simp_all add: cut_fee_Inr PERCENT_100_def) (simp add: cut_fee_def)
  have "is_ok (process_fees 0 5 demo_chain)"
    by (simp add: process_fees_def demo_chain_def pay_out_fees_def tget_def is_basic_account_def tput_def c
        safe_sub_def safe_add_def dyn_of_def modify_dyn_def modify_stats_def deposit_cashback_def is_chain_account_def
        deposit_lazy_vesting_def new_lazy_vesting_def lazy_vesting_matches_def tadd_def CORE_def safe_max_def safe_min_def
        int64_ok_def Let_def vesting_deposit_def asset_add_def)
  then obtain s' where "process_fees 0 5 demo_chain = Inr s'" unfolding is_ok_iff by blast
  with process_fees_conserves [OF demo_chain_wf this, of 1000 0] show ?thesis
    by (simp add: pending_def demo_chain_def)
qed

end
