(* ===== verification/Fees.thy ===== *)
theory Fees
  imports Chain_State
begin

text \<open>
  Fees: the fee of an operation from its base value and the scale of the fee schedule
  (\<open>chain/protocol/fee_schedule.cpp\<close>), converted at a core exchange rate, and the market fee of an asset
  (\<open>chain/db_market.cpp\<close>).
\<close>

subsection \<open>Products and quotients in 128 bits\<close>

lemma product_63: "0 \<le> x \<Longrightarrow> x < 2 ^ 63 \<Longrightarrow> 0 \<le> y \<Longrightarrow> y < 2 ^ 63 \<Longrightarrow> x * y < (2::int) ^ 128"
proof -
  assume "0 \<le> x" "x < 2 ^ 63" "0 \<le> y" "y < 2 ^ 63"
  then have "x * y < 2 ^ 63 * 2 ^ 63" by (rule product_below)
  also have "(2::int) ^ 63 * 2 ^ 63 < 2 ^ 128" by simp
  finally show ?thesis .
qed

lemma uval_mul_div:
  assumes "0 \<le> x" "x < 2 ^ 63" "0 \<le> y" "y < 2 ^ 63" "0 < z" "z < 2 ^ 63"
  obtains q where "u_div (u_mul (u128_of_int x) (u128_of_int y)) (u128_of_int z) = Inr q" "uval q = x * y div z"
proof -
  have v: "uval (u128_of_int x) = x" "uval (u128_of_int y) = y" "uval (u128_of_int z) = z"
    using assms by (intro uval_of_int; simp)+
  then have m: "uval (u_mul (u128_of_int x) (u128_of_int y)) = x * y"
    using uval_mul product_63 [OF assms(1-4)] by simp
  show thesis
    by (rule uval_div [of "u128_of_int z" "u_mul (u128_of_int x) (u128_of_int y)"])
      (use v m assms(5) that in auto)
qed

lemma mul_div_share:
  assumes "0 \<le> x" "x < 2 ^ 63" "0 \<le> y" "y < 2 ^ 63" "0 < z" "z < 2 ^ 63" "x * y div z < 2 ^ 63"
  shows "bindE (u_div (u_mul (u128_of_int x) (u128_of_int y)) (u128_of_int z)) (\<lambda>q.
           bindE (to_uint64 q) (\<lambda>v. f (share_of_u64 v))) = f (x * y div z)"
proof (rule uval_mul_div [OF assms(1-6)])
  fix q
  assume q: "u_div (u_mul (u128_of_int x) (u128_of_int y)) (u128_of_int z) = Inr q" "uval q = x * y div z"
  then have "bindE (to_uint64 q) (\<lambda>v. Inr (share_of_u64 v)) = Inr (x * y div z)"
    using to_uint64_share(1) assms(7) by simp
  then have "bindE (to_uint64 q) (\<lambda>v. f (share_of_u64 v)) = f (x * y div z)"
    by (cases "to_uint64 q") simp_all
  then show ?thesis using q(1) by simp
qed

subsection \<open>The fee of an operation\<close>

definition unit_price :: "asset_id_type \<Rightarrow> price" where
  "unit_price a = \<lparr>base = mk_asset 1 a, quote = mk_asset 1 a\<rparr>"

text \<open>The loop \<open>while( result * core_exchange_rate < asset( scaled ) ) result.amount++\<close>.\<close>

function raise_fee :: "price \<Rightarrow> asset \<Rightarrow> asset \<Rightarrow> asset result" where
  "raise_fee cer target r =
     bindE (asset_mul r cer) (\<lambda>conv.
     bindE (asset_less conv target) (\<lambda>lt.
     if lt then bindE (safe_incr (amount r)) (\<lambda>x. raise_fee cer target (mk_asset x (asset_id r)))
     else Inr r))"
  by pat_completeness auto
termination
  by (relation "measure (\<lambda>(_, _, r). nat (safe_max - amount r))")
    (auto simp: safe_incr_def safe_add_def split: if_splits)

declare raise_fee.simps [simp del]

text \<open>\<open>base_value\<close> is what the visitor computes from the operation and its parameters.\<close>

definition calculate_fee :: "nat \<Rightarrow> nat \<Rightarrow> price \<Rightarrow> asset result" where
  "calculate_fee base_value scale cer =
     bindE (u_div (u_mul (of_u64 (of_nat base_value)) (of_u64 (of_nat scale))) (u128_of_int PERCENT_100)) (\<lambda>scaled.
     assertE (\<not> u_less (u128_of_int MAX_SHARE_SUPPLY) scaled)
       (bindE (to_uint64 scaled) (\<lambda>v.
        let target = mk_asset (share_of_u64 v) CORE
        in bindE (asset_mul target cer) (\<lambda>r.
           bindE (raise_fee cer target r) (\<lambda>r'.
           assertE (amount r' \<le> MAX_SHARE_SUPPLY) (Inr r'))))))"

lemma raise_fee_spec:
  assumes "raise_fee cer target r = Inr r'"
  shows "asset_id r' = asset_id r \<and> amount r \<le> amount r' \<and>
    (\<exists>b. asset_mul r' cer = Inr b \<and> asset_id b = asset_id target \<and> amount target \<le> amount b) \<and>
    (\<forall>x. amount r \<le> x \<and> x < amount r' \<longrightarrow>
       (\<exists>b. asset_mul (mk_asset x (asset_id r)) cer = Inr b \<and> amount b < amount target))"
  using assms
proof (induction cer target r rule: raise_fee.induct)
  case (1 cer target r)
  from "1.prems" obtain conv lt where b: "asset_mul r cer = Inr conv" "asset_less conv target = Inr lt"
    and step: "(if lt then bindE (safe_incr (amount r)) (\<lambda>x. raise_fee cer target (mk_asset x (asset_id r))) else Inr r) = Inr r'"
    by (subst (asm) raise_fee.simps) (auto simp: bindE_eq_Inr)
  show ?case
  proof (cases lt)
    case False
    then show ?thesis using step b by (auto simp: result_simps)
  next
    case True
    then obtain x where x: "safe_incr (amount r) = Inr x" "raise_fee cer target (mk_asset x (asset_id r)) = Inr r'"
      using step by (auto simp: bindE_eq_Inr)
    have xr: "x = amount r + 1" using x(1) by (auto simp: safe_incr_def result_simps)
    note IH = "1.IH" [OF b True x]
    have lt: "asset_mul (mk_asset (amount r) (asset_id r)) cer = Inr conv" "amount conv < amount target"
      using b True by (simp_all add: result_simps)
    have "\<exists>b. asset_mul (mk_asset y (asset_id r)) cer = Inr b \<and> amount b < amount target"
      if "amount r \<le> y" "y < amount r'" for y
    proof (cases "y = amount r")
      case True
      then show ?thesis using lt by blast
    next
      case False
      then have "x \<le> y" using that(1) xr by simp
      then show ?thesis using IH that(2) by simp
    qed
    then show ?thesis using IH xr by auto
  qed
qed

lemma scaled_fee:
  assumes "base_value < 2 ^ 63" "scale < 2 ^ 32"
  obtains q where "u_div (u_mul (of_u64 (of_nat base_value)) (of_u64 (of_nat scale))) (u128_of_int PERCENT_100) = Inr q"
    "uval q = int base_value * int scale div PERCENT_100"
proof -
  have b: "int base_value < 2 ^ 63" "int scale < 2 ^ 63"
    using of_nat_less_iff [of base_value "2 ^ 63", where 'a = int]
      of_nat_less_iff [of scale "2 ^ 32", where 'a = int] assms by simp_all
  have s: "of_u64 (of_nat n) = u128_of_int (int n)" if "int n < 2 ^ 63" for n
  proof -
    have "sint (of_int (int n) :: 64 word) = int n"
      using that by (simp only: signed_of_int) (simp add: signed_take_bit_int_eq_self)
    then show ?thesis by (simp add: u128_of_int_def of_i64_def of_u64_def)
  qed
  show thesis unfolding s [OF b(1)] s [OF b(2)]
    by (rule uval_mul_div [of "int base_value" "int scale" PERCENT_100])
      (use b that in \<open>simp_all add: s PERCENT_100_def\<close>)
qed

lemma unit_conversion:
  assumes "0 \<le> x" "x \<le> MAX_SHARE_SUPPLY"
  shows "asset_mul (mk_asset x CORE) (unit_price CORE) = Inr (mk_asset x CORE)"
    "raise_fee (unit_price CORE) (mk_asset x CORE) (mk_asset x CORE) = Inr (mk_asset x CORE)"
proof -
  have u1: "u128 1 = 1" by (simp add: u128_def)
  have x: "uint (u128 x) = x"
    using assms by (intro uint_u128) (simp_all add: MAX_SHARE_SUPPLY_def)
  moreover have "uint (u128 MAX_SHARE_SUPPLY) = MAX_SHARE_SUPPLY" by (rule uint_u128) (simp_all add: MAX_SHARE_SUPPLY_def)
  ultimately have "u128 x \<le> u128 MAX_SHARE_SUPPLY" using assms by (simp add: word_le_def)
  with x show m: "asset_mul (mk_asset x CORE) (unit_price CORE) = Inr (mk_asset x CORE)"
    using u1 by (simp add: asset_mul_def unit_price_def)
  show "raise_fee (unit_price CORE) (mk_asset x CORE) (mk_asset x CORE) = Inr (mk_asset x CORE)"
    by (subst raise_fee.simps) (simp add: asset_less_def m)
qed

lemma calculate_fee_unit:
  assumes "base_value < 2 ^ 63" "scale < 2 ^ 32" "int base_value * int scale div PERCENT_100 \<le> MAX_SHARE_SUPPLY"
  shows "calculate_fee base_value scale (unit_price CORE) = Inr (mk_asset (int base_value * int scale div PERCENT_100) CORE)"
proof (rule scaled_fee [OF assms(1,2)])
  fix q
  assume q: "u_div (u_mul (of_u64 (of_nat base_value)) (of_u64 (of_nat scale))) (u128_of_int PERCENT_100) = Inr q"
    "uval q = int base_value * int scale div PERCENT_100"
  have M: "uval (u128_of_int MAX_SHARE_SUPPLY) = MAX_SHARE_SUPPLY"
    by (rule uval_of_int) (simp_all add: MAX_SHARE_SUPPLY_def)
  have "MAX_SHARE_SUPPLY < 2 ^ 63" by (simp add: MAX_SHARE_SUPPLY_def)
  then have "uval q < 2 ^ 63" using assms(3) q(2) by simp
  note v = to_uint64_share(1) [OF this]
  obtain w where w: "to_uint64 q = Inr w" "share_of_u64 w = uval q"
    using v by (cases "to_uint64 q") simp_all
  have "\<not> u_less (u128_of_int MAX_SHARE_SUPPLY) q" unfolding uval_less M using assms(3) q(2) by simp
  then have "calculate_fee base_value scale (unit_price CORE) =
      bindE (asset_mul (mk_asset (uval q) CORE) (unit_price CORE)) (\<lambda>r.
        bindE (raise_fee (unit_price CORE) (mk_asset (uval q) CORE) r) (\<lambda>r'.
           assertE (amount r' \<le> MAX_SHARE_SUPPLY) (Inr r')))"
    unfolding calculate_fee_def q(1) by (simp only: bindE_simps assertE_simps not_False_eq_True w Let_def)
  also have "\<dots> = Inr (mk_asset (uval q) CORE)"
  proof -
    have le: "uval q \<le> MAX_SHARE_SUPPLY" using assms(3) q(2) by simp
    show ?thesis
      by (simp only: unit_conversion [OF uval_nonneg le] bindE_simps mk_asset_simps le assertE_simps)
  qed
  finally show ?thesis unfolding q(2) .
qed

text \<open>C30. The fee is at least the scaled base value: converted back at the exchange rate it is no less,
  and it is the least amount from the direct conversion on for which this holds.  With the rate one to
  one it is the scaled base value.\<close>

theorem calculate_fee_covers:
  assumes "base_value < 2 ^ 63" "scale < 2 ^ 32" "calculate_fee base_value scale cer = Inr fee"
  shows "let scaled = int base_value * int scale div PERCENT_100 in
    scaled \<le> MAX_SHARE_SUPPLY \<and> amount fee \<le> MAX_SHARE_SUPPLY \<and>
    (\<exists>conv. asset_mul fee cer = Inr conv \<and> asset_id conv = CORE \<and> scaled \<le> amount conv) \<and>
    (\<exists>r. asset_mul (mk_asset scaled CORE) cer = Inr r \<and> amount r \<le> amount fee \<and> asset_id fee = asset_id r \<and>
      (\<forall>x. amount r \<le> x \<and> x < amount fee \<longrightarrow>
        (\<exists>b. asset_mul (mk_asset x (asset_id r)) cer = Inr b \<and> amount b < scaled))) \<and>
    (cer = unit_price CORE \<longrightarrow> fee = mk_asset scaled CORE)"
proof (rule scaled_fee [OF assms(1,2)])
  fix q
  assume q: "u_div (u_mul (of_u64 (of_nat base_value)) (of_u64 (of_nat scale))) (u128_of_int PERCENT_100) = Inr q"
    "uval q = int base_value * int scale div PERCENT_100"
  define scaled where "scaled = int base_value * int scale div PERCENT_100"
  have M: "uval (u128_of_int MAX_SHARE_SUPPLY) = MAX_SHARE_SUPPLY"
    by (rule uval_of_int) (simp_all add: MAX_SHARE_SUPPLY_def)
  have le: "scaled \<le> MAX_SHARE_SUPPLY"
  proof -
    have "\<not> u_less (u128_of_int MAX_SHARE_SUPPLY) q"
      using assms(3) q(1) unfolding calculate_fee_def by (simp only: bindE_simps assertE_eq_Inr not_False_eq_True)
    then show ?thesis unfolding uval_less M q(2) scaled_def by simp
  qed
  moreover have s0: "0 \<le> scaled" by (simp add: scaled_def PERCENT_100_def pos_imp_zdiv_nonneg_iff)
  moreover have "MAX_SHARE_SUPPLY < 2 ^ 63" by (simp add: MAX_SHARE_SUPPLY_def)
  ultimately have v: "bindE (to_uint64 q) (\<lambda>v. Inr (share_of_u64 v)) = Inr scaled"
    using to_uint64_share(1) q(2) scaled_def by simp
  obtain r where r: "asset_mul (mk_asset scaled CORE) cer = Inr r" "raise_fee cer (mk_asset scaled CORE) r = Inr fee"
    and m: "amount fee \<le> MAX_SHARE_SUPPLY"
    using assms(3) q(1) v by (auto simp: calculate_fee_def result_simps Let_def)
  note sp = raise_fee_spec [OF r(2)]
  have unit: "fee = mk_asset scaled CORE" if "cer = unit_price CORE"
    using r unit_conversion [OF s0 le] unfolding that by simp
  show ?thesis unfolding Let_def scaled_def [symmetric]
    using le m sp r(1) unit by auto
qed

theorem calculate_fee_covers_witness:
  "\<exists>fee. calculate_fee 1000 5000 (unit_price CORE) = Inr fee \<and> fee = mk_asset 500 CORE"
proof -
  have r: "calculate_fee 1000 5000 (unit_price CORE) = Inr (mk_asset (int 1000 * int 5000 div PERCENT_100) CORE)"
    by (rule calculate_fee_unit) (simp_all add: PERCENT_100_def MAX_SHARE_SUPPLY_def)
  note c = calculate_fee_covers [OF _ _ r]
  show ?thesis
    by (rule exI, rule conjI, rule r) (use c in \<open>simp add: Let_def PERCENT_100_def\<close>)
qed

end
