(* ===== verification/Market_Fill.thy ===== *)
theory Market_Fill
  imports Fees
begin

text \<open>
  Filling and cancelling orders (\<open>chain/db_market.cpp\<close>): the payment of one side of a match to a limit
  order, a call order or a force settlement, the market fee, the removal of orders that are too small,
  and the cancellation of orders, settlements and bids.  Orders are passed by id, as the code passes
  references to the stored objects; logging is left out.
\<close>

definition deref :: "'v table \<Rightarrow> nat \<Rightarrow> 'v result" where
  "deref t k = of_option UndefinedBehaviour (map_of t k)"

lemma deref_Inr [result_simps]: "deref t k = Inr v \<longleftrightarrow> map_of t k = Some v"
  by (simp add: deref_def result_simps)

subsection \<open>Market fees and payments\<close>

definition calculate_market_fee :: "asset_id_type \<Rightarrow> asset_object \<Rightarrow> asset \<Rightarrow> asset result" where
  "calculate_market_fee i trade_asset trade_amount =
     (if \<not> charges_market_fees trade_asset then Inr (mk_asset 0 i)
      else if ao_market_fee_percent trade_asset = 0 then Inr (mk_asset 0 i)
      else
        bindE (u_div (u_mul (u128_of_int (amount trade_amount)) (u128_of_int (int (ao_market_fee_percent trade_asset))))
                 (u128_of_int PERCENT_100)) (\<lambda>a.
        bindE (to_uint64 a) (\<lambda>v.
        let percent_fee = share_of_u64 v
        in Inr (mk_asset (if ao_max_market_fee trade_asset < percent_fee
                          then ao_max_market_fee trade_asset else percent_fee) i))))"

definition pay_market_fees :: "asset_id_type \<Rightarrow> asset \<Rightarrow> chain \<Rightarrow> (asset \<times> chain) result" where
  "pay_market_fees i receives s =
     bindE (tget (assets s) i) (\<lambda>recv_asset.
     bindE (calculate_market_fee i recv_asset receives) (\<lambda>issuer_fees.
     if 0 < amount issuer_fees then
       bindE (modify_dyn (ao_dynamic_data recv_asset) (\<lambda>v.
         bindE (safe_add (ad_accumulated_fees v) (amount issuer_fees)) (\<lambda>x.
         Inr (v\<lparr>ad_accumulated_fees := x\<rparr>))) s) (\<lambda>s1. Inr (issuer_fees, s1))
     else Inr (issuer_fees, s)))"

definition pay_order :: "nat \<Rightarrow> asset \<Rightarrow> asset \<Rightarrow> chain \<Rightarrow> chain result" where
  "pay_order receiver receives pays s =
     bindE (stats_of receiver s) (\<lambda>st.
     bindE (modify_stats st (\<lambda>b.
       if asset_id pays = CORE
       then bindE (safe_sub (st_total_core_in_orders b) (amount pays)) (\<lambda>x. Inr (b\<lparr>st_total_core_in_orders := x\<rparr>))
       else Inr b) s) (\<lambda>s1.
     adjust_balance receiver receives s1))"

subsection \<open>Cancelling\<close>

text \<open>The cancellation fee of a virtual cancellation: the rest of the deferred fee and of the fee that was
  originally paid, the fee of the virtual operation, and the state after the fee was paid.\<close>

definition charge_cancel_fee :: "limit_order \<Rightarrow> chain \<Rightarrow> (share \<times> asset \<times> asset \<times> chain) result" where
  "charge_cancel_fee o1 s =
     bindE (calculate_fee (limit_cancel_base_fee s) (fee_scale s) (unit_price CORE)) (\<lambda>fee.
     let core_cancel_fee = (if lo_deferred_fee o1 < amount fee then mk_asset (lo_deferred_fee o1) (asset_id fee) else fee)
     in if 0 < amount core_cancel_fee then
          bindE (stats_of (lo_seller o1) s) (\<lambda>st.
          bindE (modify_stats st (stats_pay_fee (amount core_cancel_fee) (cashback_vesting_threshold s)) s) (\<lambda>s1.
          bindE (safe_sub (lo_deferred_fee o1) (amount core_cancel_fee)) (\<lambda>deferred_fee.
          if amount (lo_deferred_paid_fee o1) = 0 then
            Inr (deferred_fee, lo_deferred_paid_fee o1, core_cancel_fee, s1)
          else
            bindE (u_div (u_sub (u_add (u_mul (u128_of_int (amount (lo_deferred_paid_fee o1)))
                                         (u128_of_int (amount core_cancel_fee)))
                                  (u128_of_int (lo_deferred_fee o1))) (u128_of_int 1))
                     (u128_of_int (lo_deferred_fee o1))) (\<lambda>fee128.
            bindE (to_uint64 fee128) (\<lambda>v.
            let cancel_fee_amount = share_of_u64 v
            in bindE (dyn_of (asset_id (lo_deferred_paid_fee o1)) s1) (\<lambda>d.
               bindE (modify_dyn d (\<lambda>v. bindE (safe_add (ad_accumulated_fees v) cancel_fee_amount) (\<lambda>x.
                 Inr (v\<lparr>ad_accumulated_fees := x\<rparr>))) s1) (\<lambda>s2.
               bindE (safe_sub (amount (lo_deferred_paid_fee o1)) cancel_fee_amount) (\<lambda>paid.
               Inr (deferred_fee, mk_asset paid (asset_id (lo_deferred_paid_fee o1)),
                    mk_asset cancel_fee_amount (asset_id (lo_deferred_paid_fee o1)), s2)))))))))
        else Inr (lo_deferred_fee o1, lo_deferred_paid_fee o1, mk_asset 0 CORE, s))"

definition cancel_limit_order :: "nat \<Rightarrow> bool \<Rightarrow> bool \<Rightarrow> chain \<Rightarrow> chain result" where
  "cancel_limit_order oid create_virtual_op skip_cancel_fee s =
     bindE (deref (limits s) oid) (\<lambda>o1.
     bindE (if create_virtual_op \<and> \<not> skip_cancel_fee \<and> 0 < lo_deferred_fee o1 then charge_cancel_fee o1 s
            else Inr (lo_deferred_fee o1, lo_deferred_paid_fee o1, mk_asset 0 CORE, s))
       (\<lambda>(deferred_fee, deferred_paid_fee, vop_fee, s1).
     let refunded = amount_for_sale o1
     in bindE (if asset_id refunded = CORE then
                 bindE (stats_of (lo_seller o1) s1) (\<lambda>st.
                 modify_stats st (\<lambda>v. bindE (safe_sub (st_total_core_in_orders v) (amount refunded)) (\<lambda>x.
                   Inr (v\<lparr>st_total_core_in_orders := x\<rparr>))) s1)
               else Inr s1) (\<lambda>s2.
        bindE (adjust_balance (lo_seller o1) refunded s2) (\<lambda>s3.
        bindE (if amount (lo_deferred_paid_fee o1) = 0 then
                 adjust_balance (lo_seller o1) (mk_asset deferred_fee CORE) s3
               else
                 bindE (adjust_balance (lo_seller o1) deferred_paid_fee s3) (\<lambda>s4.
                 bindE (dyn_of (asset_id deferred_paid_fee) s4) (\<lambda>d.
                 modify_dyn d (\<lambda>v. bindE (safe_add (ad_fee_pool v) deferred_fee) (\<lambda>x.
                   Inr (v\<lparr>ad_fee_pool := x\<rparr>))) s4))) (\<lambda>s5.
        let s6 = (if create_virtual_op then push_applied_operation (LimitOrderCancel oid (lo_seller o1) vop_fee) s5 else s5)
        in Inr (s6\<lparr>limits := tdel oid (limits s6)\<rparr>))))))"

definition maybe_cull_small_order :: "nat \<Rightarrow> chain \<Rightarrow> (bool \<times> chain) result" where
  "maybe_cull_small_order oid s =
     bindE (deref (limits s) oid) (\<lambda>o1.
     bindE (amount_to_receive o1) (\<lambda>r.
     if amount r = 0 then
       bindE (if 0 < lo_deferred_fee o1 \<and> head_time s \<le> HARDFORK_CORE_604_TIME
              then cancel_limit_order oid True True s
              else cancel_limit_order oid True False s) (\<lambda>s1. Inr (True, s1))
     else Inr (False, s)))"

definition cancel_settle_order :: "nat \<Rightarrow> bool \<Rightarrow> chain \<Rightarrow> chain result" where
  "cancel_settle_order fid create_virtual_op s =
     bindE (deref (settles s) fid) (\<lambda>f.
     bindE (adjust_balance (fs_owner f) (fs_balance f) s) (\<lambda>s1.
     let s2 = (if create_virtual_op then push_applied_operation (AssetSettleCancel fid (fs_owner f) (fs_balance f)) s1 else s1)
     in Inr (s2\<lparr>settles := tdel fid (settles s2)\<rparr>)))"

definition cancel_bid :: "nat \<Rightarrow> bool \<Rightarrow> chain \<Rightarrow> chain result" where
  "cancel_bid bid create_virtual_op s =
     bindE (deref (bids s) bid) (\<lambda>b.
     bindE (adjust_balance (cb_bidder b) (base (cb_inv_swan_price b)) s) (\<lambda>s1.
     let s2 = (if create_virtual_op
               then push_applied_operation (BidCollateral (cb_bidder b) (base (cb_inv_swan_price b))
                      (mk_asset 0 (asset_id (quote (cb_inv_swan_price b))))) s1 else s1)
     in Inr (s2\<lparr>bids := tdel bid (bids s2)\<rparr>)))"

subsection \<open>Filling\<close>

definition fill_limit_order ::
  "nat \<Rightarrow> asset \<Rightarrow> asset \<Rightarrow> bool \<Rightarrow> price \<Rightarrow> bool \<Rightarrow> chain \<Rightarrow> (bool \<times> chain) result" where
  "fill_limit_order oid pays receives cull_if_small fill_price is_maker s =
     bindE (deref (limits s) oid) (\<lambda>o1.
     assertE (asset_id (amount_for_sale o1) = asset_id pays)
     (assertE (asset_id pays \<noteq> asset_id receives)
     (bindE (tget (accounts s) (lo_seller o1)) (\<lambda>seller.
      bindE (pay_market_fees (asset_id receives) receives s) (\<lambda>(issuer_fees, s1).
      bindE (asset_sub receives issuer_fees) (\<lambda>net.
      bindE (pay_order (lo_seller o1) net pays s1) (\<lambda>s2.
      let s3 = push_applied_operation (FillOrder oid (lo_seller o1) pays receives issuer_fees fill_price is_maker) s2
      in bindE (if 0 < lo_deferred_fee o1 then
                  modify_stats (ac_statistics seller) (stats_pay_fee (lo_deferred_fee o1) (cashback_vesting_threshold s3)) s3
                else Inr s3) (\<lambda>s4.
         bindE (if 0 < amount (lo_deferred_paid_fee o1) then
                  bindE (dyn_of (asset_id (lo_deferred_paid_fee o1)) s4) (\<lambda>d.
                  modify_dyn d (\<lambda>v. bindE (safe_add (ad_accumulated_fees v) (amount (lo_deferred_paid_fee o1))) (\<lambda>x.
                    Inr (v\<lparr>ad_accumulated_fees := x\<rparr>))) s4)
                else Inr s4) (\<lambda>s5.
         if pays = amount_for_sale o1 then Inr (True, s5\<lparr>limits := tdel oid (limits s5)\<rparr>)
         else
           bindE (safe_sub (lo_for_sale o1) (amount pays)) (\<lambda>x.
           let s6 = s5\<lparr>limits := tput oid (o1\<lparr>lo_for_sale := x, lo_deferred_fee := 0,
                        lo_deferred_paid_fee := mk_asset 0 (asset_id (lo_deferred_paid_fee o1))\<rparr>) (limits s5)\<rparr>
           in if cull_if_small \<or> head_time s < HARDFORK_555_TIME then maybe_cull_small_order oid s6
              else Inr (False, s6)))))))))))"

text \<open>The change of a call order when it is filled: the order, and the collateral that is freed when its
  debt is paid.\<close>

definition fill_call_change :: "asset_object \<Rightarrow> asset \<Rightarrow> asset \<Rightarrow> chain \<Rightarrow> call_order \<Rightarrow> (call_order \<times> asset option) result" where
  "fill_call_change mia pays receives s c =
     bindE (safe_sub (co_debt c) (amount receives)) (\<lambda>debt.
     bindE (safe_sub (co_collateral c) (amount pays)) (\<lambda>coll.
     let c1 = c\<lparr>co_debt := debt, co_collateral := coll\<rparr>
     in if debt = 0 then Inr (c1\<lparr>co_collateral := 0\<rparr>, Some (get_collateral c1))
        else if HARDFORK_CORE_343_TIME < next_maintenance_time s then
          bindE (bitasset_of mia s) (\<lambda>b.
          bindE (call_price (get_debt c1) (get_collateral c1)
                   (pf_maintenance_collateral_ratio (ba_current_feed b))) (\<lambda>p.
          Inr (c1\<lparr>co_call_price := p\<rparr>, None)))
        else Inr (c1, None)))"

definition fill_call_order :: "nat \<Rightarrow> asset \<Rightarrow> asset \<Rightarrow> price \<Rightarrow> bool \<Rightarrow> chain \<Rightarrow> (bool \<times> chain) result" where
  "fill_call_order cid pays receives fill_price is_maker s =
     bindE (deref (calls s) cid) (\<lambda>c.
     assertE (debt_type c = asset_id receives)
     (assertE (collateral_type c = asset_id pays)
     (assertE (amount pays \<le> co_collateral c)
     (bindE (tget (assets s) (asset_id receives)) (\<lambda>mia.
     assertE (is_market_issued mia)
     (bindE (fill_call_change mia pays receives s c) (\<lambda>(c1, collateral_freed).
      let s1 = s\<lparr>calls := tput cid c1 (calls s)\<rparr>
      in bindE (modify_dyn (ao_dynamic_data mia) (\<lambda>v.
           bindE (safe_sub (ad_current_supply v) (amount receives)) (\<lambda>x. Inr (v\<lparr>ad_current_supply := x\<rparr>))) s1) (\<lambda>s2.
         bindE (case collateral_freed of None \<Rightarrow> Inr s2 | Some x \<Rightarrow> adjust_balance (co_borrower c) x s2) (\<lambda>s3.
         bindE (if asset_id pays = CORE then
                  bindE (get_account_stats_by_owner (co_borrower c) s3) (\<lambda>st.
                  modify_stats st (\<lambda>b.
                    bindE (safe_sub (st_total_core_in_orders b) (amount pays)) (\<lambda>x.
                    bindE (case collateral_freed of None \<Rightarrow> Inr x | Some f \<Rightarrow> safe_sub x (amount f)) (\<lambda>y.
                    Inr (b\<lparr>st_total_core_in_orders := y\<rparr>)))) s3)
                else Inr s3) (\<lambda>s4.
         let s5 = push_applied_operation (FillOrder cid (co_borrower c) pays receives
                    (mk_asset 0 (asset_id pays)) fill_price is_maker) s4
         in Inr (collateral_freed \<noteq> None,
                 if collateral_freed \<noteq> None then s5\<lparr>calls := tdel cid (calls s5)\<rparr> else s5)))))))))))"

definition fill_settle_order :: "nat \<Rightarrow> asset \<Rightarrow> asset \<Rightarrow> price \<Rightarrow> bool \<Rightarrow> chain \<Rightarrow> (bool \<times> chain) result" where
  "fill_settle_order fid pays receives fill_price is_maker s =
     bindE (deref (settles s) fid) (\<lambda>f.
     bindE (pay_market_fees (asset_id receives) receives s) (\<lambda>(issuer_fees, s1).
     bindE (asset_less pays (fs_balance f)) (\<lambda>lt.
     bindE (if lt then bindE (asset_sub (fs_balance f) pays) (\<lambda>b.
              Inr (s1\<lparr>settles := tput fid (f\<lparr>fs_balance := b\<rparr>) (settles s1)\<rparr>))
            else Inr s1) (\<lambda>s2.
     bindE (asset_sub receives issuer_fees) (\<lambda>net.
     bindE (adjust_balance (fs_owner f) net s2) (\<lambda>s3.
     let s4 = push_applied_operation (FillOrder fid (fs_owner f) pays receives issuer_fees fill_price is_maker) s3
     in Inr (\<not> lt, if \<not> lt then s4\<lparr>settles := tdel fid (settles s4)\<rparr> else s4)))))))"


subsection \<open>What a payment leaves alone\<close>

text \<open>Payments change balances, statistics, dynamic data and the operations applied, and nothing else.\<close>

definition pays_only :: "chain \<Rightarrow> chain \<Rightarrow> bool" where
  "pays_only s s' \<longleftrightarrow> (\<exists>st b n d ops. s' = s\<lparr>stats := st, balances := b, next_balance := n, dyns := d, applied_ops := ops\<rparr>)"

lemma pays_only_refl [simp]: "pays_only s s"
proof -
  have "s = s\<lparr>stats := stats s, balances := balances s, next_balance := next_balance s, dyns := dyns s, applied_ops := applied_ops s\<rparr>"
    by simp
  then show ?thesis unfolding pays_only_def by blast
qed

lemma pays_only_trans [trans]: "pays_only s t \<Longrightarrow> pays_only t u \<Longrightarrow> pays_only s u"
  unfolding pays_only_def by (elim exE) (simp, blast)

lemma pays_only_updates:
  "pays_only s (s\<lparr>stats := st\<rparr>)" "pays_only s (s\<lparr>dyns := d\<rparr>)" "pays_only s (s\<lparr>balances := b, next_balance := n\<rparr>)"
  "pays_only s (s\<lparr>applied_ops := ops\<rparr>)"
proof -
  have "s\<lparr>stats := st\<rparr> = s\<lparr>stats := st, balances := balances s, next_balance := next_balance s, dyns := dyns s, applied_ops := applied_ops s\<rparr>"
    "s\<lparr>dyns := d\<rparr> = s\<lparr>stats := stats s, balances := balances s, next_balance := next_balance s, dyns := d, applied_ops := applied_ops s\<rparr>"
    "s\<lparr>balances := b, next_balance := n\<rparr> = s\<lparr>stats := stats s, balances := b, next_balance := n, dyns := dyns s, applied_ops := applied_ops s\<rparr>"
    "s\<lparr>applied_ops := ops\<rparr> = s\<lparr>stats := stats s, balances := balances s, next_balance := next_balance s, dyns := dyns s, applied_ops := ops\<rparr>"
    by simp_all
  then show "pays_only s (s\<lparr>stats := st\<rparr>)" "pays_only s (s\<lparr>dyns := d\<rparr>)" "pays_only s (s\<lparr>balances := b, next_balance := n\<rparr>)"
    "pays_only s (s\<lparr>applied_ops := ops\<rparr>)"
    unfolding pays_only_def by blast+
qed

lemma pays_onlyD:
  assumes "pays_only s s'"
  shows "limits s' = limits s" "next_limit s' = next_limit s" "calls s' = calls s" "next_call s' = next_call s"
    "settles s' = settles s" "next_settle s' = next_settle s" "bids s' = bids s" "next_bid s' = next_bid s"
    "assets s' = assets s" "bitassets s' = bitassets s" "accounts s' = accounts s"
    "head_time s' = head_time s" "next_maintenance_time s' = next_maintenance_time s"
    "cashback_vesting_threshold s' = cashback_vesting_threshold s"
  using assms by (auto simp: pays_only_def)

text \<open>A step that only pays and changes the surplus by a given amount.\<close>

definition transfers :: "chain \<Rightarrow> chain \<Rightarrow> (asset_id_type \<Rightarrow> int) \<Rightarrow> bool" where
  "transfers s s' d \<longleftrightarrow> shifts s s' d \<and> pays_only s s'"

lemma transfers_refl: "transfers s s (\<lambda>_. 0)"
  by (simp add: transfers_def shifts_refl)

lemma transfers_trans: "transfers s t d \<Longrightarrow> transfers t u e \<Longrightarrow> transfers s u (\<lambda>a. d a + e a)"
  by (auto simp: transfers_def intro: shifts_trans pays_only_trans)

lemma transfers_step:
  "transfers s t d \<Longrightarrow> transfers t u e \<Longrightarrow> (\<And>a. d a + e a = f a) \<Longrightarrow> transfers s u f"
  by (auto simp: transfers_def intro: shifts_step pays_only_trans)

lemma transfers_eq: "transfers s t d \<Longrightarrow> (\<And>a. d a = e a) \<Longrightarrow> transfers s t e"
  by (auto simp: transfers_def intro: shifts_eq)

lemma adjust_balance_transfers: "adjust_balance acct x s = Inr s' \<Longrightarrow> transfers s s' (\<lambda>a. share_in a x)"
  unfolding transfers_def
  using adjust_balance_shifts [of acct x s s'] pays_only_updates(3) by (metis adjust_balance_frame)

lemma modify_stats_transfers:
  assumes "modify_stats i f s = Inr s'"
    and "\<And>a v v'. f v = Inr v' \<Longrightarrow> held_fees a v' = held_fees a v + d a"
  shows "transfers s s' d"
  unfolding transfers_def
  using modify_stats_shifts [OF assms] assms(1)
  by (auto intro: pays_only_updates elim: modify_stats_frame)

lemma stats_orders_transfers:
  assumes "modify_stats i f s = Inr s'"
    and "\<And>v v'. f v = Inr v' \<Longrightarrow> st_pending_fees v' = st_pending_fees v \<and> st_pending_vested_fees v' = st_pending_vested_fees v"
  shows "transfers s s' (\<lambda>_. 0)"
  using assms(1) by (rule modify_stats_transfers) (use assms(2) in \<open>auto simp: held_fees_def\<close>)

lemma pay_fee_transfers:
  assumes "modify_stats i (stats_pay_fee x t) s = Inr s'"
  shows "transfers s s' (\<lambda>a. core_share a x)"
  using assms by (rule modify_stats_transfers)
    (auto simp: stats_pay_fee_def held_fees_def core_share_def result_simps split: if_splits)

lemma modify_dyn_transfers:
  assumes "modify_dyn i f s = Inr s'" "dyn_of c s = Inr i"
    and "\<And>a v v'. f v = Inr v' \<Longrightarrow> held_pool a v' - held_pool a v
           + (if a = c then dyn_surplus (Some v') - dyn_surplus (Some v) else 0) = d a"
  shows "transfers s s' d"
  unfolding transfers_def
  using modify_dyn_shifts [OF assms] assms(1)
  by (auto intro: pays_only_updates elim: modify_dyn_frame)

lemma accumulate_transfers:
  assumes "modify_dyn i (\<lambda>v. bindE (safe_add (ad_accumulated_fees v) x) (\<lambda>y. Inr (v\<lparr>ad_accumulated_fees := y\<rparr>))) s = Inr s'"
    and "dyn_of c s = Inr i"
  shows "transfers s s' (\<lambda>a. share_in a (mk_asset x c))"
  using assms by (rule modify_dyn_transfers)
    (auto simp: result_simps held_pool_def dyn_surplus_def share_in_def)

lemma supply_transfers:
  assumes "modify_dyn i (\<lambda>v. bindE (safe_sub (ad_current_supply v) x) (\<lambda>y. Inr (v\<lparr>ad_current_supply := y\<rparr>))) s = Inr s'"
    and "dyn_of c s = Inr i"
  shows "transfers s s' (\<lambda>a. share_in a (mk_asset x c))"
  using assms by (rule modify_dyn_transfers)
    (auto simp: result_simps held_pool_def dyn_surplus_def share_in_def)

lemma fee_pool_transfers:
  assumes "modify_dyn i (\<lambda>v. bindE (safe_add (ad_fee_pool v) x) (\<lambda>y. Inr (v\<lparr>ad_fee_pool := y\<rparr>))) s = Inr s'"
    and "dyn_of c s = Inr i"
  shows "transfers s s' (\<lambda>a. core_share a x)"
  using assms by (rule modify_dyn_transfers)
    (auto simp: result_simps held_pool_def dyn_surplus_def core_share_def)

lemma push_transfers: "transfers s (push_applied_operation v s) (\<lambda>_. 0)"
  unfolding transfers_def
  using push_shift by (auto simp: push_applied_operation_def pays_only_updates)

lemma dyn_of_pays: "pays_only s s' \<Longrightarrow> dyn_of c s' = dyn_of c s"
  by (simp add: dyn_of_def pays_onlyD)

subsection \<open>Changes of the tables of orders\<close>

text \<open>The interface of a table of objects that hold shares: replacing the table changes the surplus by the
  difference of the sums, and the well-formedness of the state is that of the table.\<close>

locale holding_table =
  fixes tab :: "chain \<Rightarrow> 'v table"
    and nxt :: "chain \<Rightarrow> nat"
    and upd :: "'v table \<Rightarrow> chain \<Rightarrow> chain"
    and bump :: "chain \<Rightarrow> chain"
    and held :: "asset_id_type \<Rightarrow> 'v \<Rightarrow> int"
    and ok :: "'v \<Rightarrow> bool"
  assumes tab_ok: "tables_ok s \<Longrightarrow> table_ok (tab s) (nxt s) \<and> table_all ok (tab s)"
    and upd_ok: "tables_ok s \<Longrightarrow> table_ok t (nxt s) \<Longrightarrow> table_all ok t \<Longrightarrow> tables_ok (upd t s)"
    and bump_ok: "tables_ok s \<Longrightarrow> table_ok t (Suc (nxt s)) \<Longrightarrow> table_all ok t \<Longrightarrow> tables_ok (bump (upd t s))"
    and frame: "assets (upd t s) = assets s" "assets (bump s) = assets s"
      "funds_ok (upd t s) = funds_ok s" "funds_ok (bump s) = funds_ok s"
    and upd_surplus: "surplus (upd t s) a = surplus s a - tsum (held a) (tab s) + tsum (held a) t"
    and bump_surplus: "surplus (bump s) a = surplus s a"
begin

lemma del_shift:
  assumes "map_of (tab s) k = Some v"
  shows "shifts s (upd (tdel k (tab s)) s) (\<lambda>a. - held a v)"
proof (rule shiftsI)
  assume wf: "chain_wf s"
  note t = tab_ok [OF wf_parts(1) [OF wf], THEN conjunct1] and all = tab_ok [OF wf_parts(1) [OF wf], THEN conjunct2]
  show "tables_ok (upd (tdel k (tab s)) s)" using wf_parts(1) [OF wf] t all by (simp add: upd_ok table_ok_tdel table_all_tdel)
  show "funds_ok (upd (tdel k (tab s)) s)" using wf_parts(3) [OF wf] by (simp add: frame)
  show "surplus (upd (tdel k (tab s)) s) a = surplus s a + - held a v" for a
    by (simp add: upd_surplus tsum_tdel [OF t assms])
qed (rule frame)

lemma put_shift:
  assumes "map_of (tab s) k = Some v" "chain_wf s \<Longrightarrow> ok v \<Longrightarrow> ok w"
  shows "shifts s (upd (tput k w (tab s)) s) (\<lambda>a. held a w - held a v)"
proof (rule shiftsI)
  assume wf: "chain_wf s"
  note t = tab_ok [OF wf_parts(1) [OF wf], THEN conjunct1] and all = tab_ok [OF wf_parts(1) [OF wf], THEN conjunct2]
  show "tables_ok (upd (tput k w (tab s)) s)"
    by (rule upd_ok [OF wf_parts(1) [OF wf] table_ok_tput [OF t assms(1)]
      table_all_tput [OF all assms(2) [OF wf table_allD [OF all assms(1)]]]])
  show "funds_ok (upd (tput k w (tab s)) s)" using wf_parts(3) [OF wf] by (simp add: frame)
  show "surplus (upd (tput k w (tab s)) s) a = surplus s a + (held a w - held a v)" for a
    by (simp add: upd_surplus tsum_tput [OF assms(1)])
qed (rule frame)

lemma add_shift:
  assumes "chain_wf s \<Longrightarrow> ok v"
  shows "shifts s (bump (upd (tadd (nxt s) v (tab s)) s)) (\<lambda>a. held a v)"
proof (rule shiftsI)
  assume wf: "chain_wf s"
  note t = tab_ok [OF wf_parts(1) [OF wf], THEN conjunct1] and all = tab_ok [OF wf_parts(1) [OF wf], THEN conjunct2]
  show "tables_ok (bump (upd (tadd (nxt s) v (tab s)) s))"
    by (rule bump_ok [OF wf_parts(1) [OF wf] table_ok_tadd [OF t] table_all_tadd [OF all assms [OF wf]]])
  show "funds_ok (bump (upd (tadd (nxt s) v (tab s)) s))" using wf_parts(3) [OF wf] by (simp add: frame)
  show "surplus (bump (upd (tadd (nxt s) v (tab s)) s)) a = surplus s a + held a v" for a
    by (simp add: upd_surplus bump_surplus)
qed (simp add: frame)

end

interpretation limit_table: holding_table limits next_limit "\<lambda>t s. s\<lparr>limits := t\<rparr>" "\<lambda>s. s\<lparr>next_limit := Suc (next_limit s)\<rparr>" held_limit limit_ok
  by unfold_locales (simp_all add: tables_ok_def table_all_def funds_ok_def surplus_def own_dyn_def)

interpretation call_table: holding_table calls next_call "\<lambda>t s. s\<lparr>calls := t\<rparr>" "\<lambda>s. s\<lparr>next_call := Suc (next_call s)\<rparr>" held_call call_ok
  by unfold_locales (simp_all add: tables_ok_def table_all_def funds_ok_def surplus_def own_dyn_def)

interpretation settle_table: holding_table settles next_settle "\<lambda>t s. s\<lparr>settles := t\<rparr>" "\<lambda>s. s\<lparr>next_settle := Suc (next_settle s)\<rparr>" held_settle settle_ok
  by unfold_locales (simp_all add: tables_ok_def table_all_def funds_ok_def surplus_def own_dyn_def)

interpretation bid_table: holding_table bids next_bid "\<lambda>t s. s\<lparr>bids := t\<rparr>" "\<lambda>s. s\<lparr>next_bid := Suc (next_bid s)\<rparr>" held_bid "\<lambda>_. True"
  by unfold_locales (simp_all add: tables_ok_def table_all_def funds_ok_def surplus_def own_dyn_def)

lemmas limits_del_shift = limit_table.del_shift
lemmas limits_put_shift = limit_table.put_shift
lemmas calls_del_shift = call_table.del_shift
lemmas calls_put_shift = call_table.put_shift
lemmas settles_del_shift = settle_table.del_shift
lemmas settles_put_shift = settle_table.put_shift
lemmas bids_del_shift = bid_table.del_shift


subsection \<open>Market fees\<close>

lemma calculate_market_fee_Inr:
  assumes "0 \<le> amount x" "amount x < 2 ^ 63" "int (ao_market_fee_percent o1) \<le> PERCENT_100" "0 \<le> ao_max_market_fee o1"
  shows "calculate_market_fee i o1 x = Inr (mk_asset
     (if charges_market_fees o1
      then min (amount x * int (ao_market_fee_percent o1) div PERCENT_100) (ao_max_market_fee o1) else 0) i)"
    "0 \<le> amount x * int (ao_market_fee_percent o1) div PERCENT_100"
    "amount x * int (ao_market_fee_percent o1) div PERCENT_100 \<le> amount x"
proof -
  have P: "0 < PERCENT_100" "PERCENT_100 < 2 ^ 63" by (simp_all add: PERCENT_100_def)
  note b = cut_fee_bounds [OF assms(1,3)]
  have p: "int (ao_market_fee_percent o1) < 2 ^ 63" using assms(3) P by linarith
  have "amount x * int (ao_market_fee_percent o1) div PERCENT_100 < 2 ^ 63" using b(2) assms(2) by linarith
  note m = mul_div_share [OF assms(1,2) of_nat_0_le_iff p P(1,2) this,
    of "\<lambda>v. Inr (mk_asset (if ao_max_market_fee o1 < v then ao_max_market_fee o1 else v) i)"]
  show "calculate_market_fee i o1 x = Inr (mk_asset
     (if charges_market_fees o1
      then min (amount x * int (ao_market_fee_percent o1) div PERCENT_100) (ao_max_market_fee o1) else 0) i)"
    unfolding calculate_market_fee_def Let_def m using assms(4) by (auto simp: min_def)
qed (use cut_fee_bounds [OF assms(1,3)] in simp_all)

lemma pay_market_fees_transfers:
  assumes r: "pay_market_fees i x s = Inr (f, s')" and x: "int64_ok (amount x)" "0 \<le> amount x" and wf: "chain_wf s"
  shows "transfers s s' (\<lambda>a. share_in a f)" "asset_id f = i" "0 \<le> amount f" "amount f \<le> amount x"
proof -
  obtain o1 where o1: "map_of (assets s) i = Some o1" "calculate_market_fee i o1 x = Inr f"
    and s': "(if 0 < amount f then
       bindE (modify_dyn (ao_dynamic_data o1) (\<lambda>v. bindE (safe_add (ad_accumulated_fees v) (amount f)) (\<lambda>x.
         Inr (v\<lparr>ad_accumulated_fees := x\<rparr>))) s) (\<lambda>s1. Inr (f, s1))
     else Inr (f, s)) = Inr (f, s')"
    using r by (auto simp: pay_market_fees_def bindE_eq_Inr tget_Inr split: if_splits)
  have p: "int (ao_market_fee_percent o1) \<le> PERCENT_100" "0 \<le> ao_max_market_fee o1"
    using wf_parts(4) [OF wf] o1(1) by (auto simp: fees_ok_def)
  have "amount x < 2 ^ 63" using x(1) by (simp add: int64_ok_def safe_max_def)
  note c = calculate_market_fee_Inr [OF x(2) this p]
  have f: "f = mk_asset (if charges_market_fees o1
      then min (amount x * int (ao_market_fee_percent o1) div PERCENT_100) (ao_max_market_fee o1) else 0) i"
    using o1(2) c(1) by simp
  show id: "asset_id f = i" using f by simp
  show "0 \<le> amount f" "amount f \<le> amount x" using f c(2,3) p(2) x(2) by (auto simp: min_def)
  have d: "dyn_of i s = Inr (ao_dynamic_data o1)" using o1(1) by (simp add: dyn_of_def tget_def)
  show "transfers s s' (\<lambda>a. share_in a f)"
  proof (cases "0 < amount f")
    case True
    then have "modify_dyn (ao_dynamic_data o1) (\<lambda>v. bindE (safe_add (ad_accumulated_fees v) (amount f)) (\<lambda>x.
         Inr (v\<lparr>ad_accumulated_fees := x\<rparr>))) s = Inr s'" using s' by (auto simp: bindE_eq_Inr)
    from accumulate_transfers [OF this d] show ?thesis unfolding id [symmetric] by simp
  next
    case False
    then have "s' = s" "amount f = 0" using s' \<open>0 \<le> amount f\<close> by simp_all
    then have "\<And>a. 0 = share_in a f" by (simp add: share_in_def)
    from transfers_eq [OF transfers_refl this] show ?thesis unfolding \<open>s' = s\<close> .
  qed
qed

lemma pay_order_transfers:
  assumes "pay_order receiver x y s = Inr s'"
  shows "transfers s s' (\<lambda>a. share_in a x)"
proof -
  obtain st s1 where s1: "modify_stats st (\<lambda>b. if asset_id y = CORE
       then bindE (safe_sub (st_total_core_in_orders b) (amount y)) (\<lambda>x. Inr (b\<lparr>st_total_core_in_orders := x\<rparr>))
       else Inr b) s = Inr s1" and s': "adjust_balance receiver x s1 = Inr s'"
    using assms by (auto simp: pay_order_def bindE_eq_Inr)
  have "transfers s s1 (\<lambda>_. 0)" using s1 by (rule stats_orders_transfers) (auto simp: result_simps split: if_splits)
  from transfers_step [OF this adjust_balance_transfers [OF s']] show ?thesis by simp
qed

subsection \<open>Cancelling conserves\<close>

lemma charge_cancel_fee_transfers:
  assumes "charge_cancel_fee o1 s = Inr (fee, paid, vop_fee, s')"
  shows "transfers s s' (\<lambda>a. core_share a (lo_deferred_fee o1 - fee) + share_in a (lo_deferred_paid_fee o1) - share_in a paid)"
    and "asset_id paid = asset_id (lo_deferred_paid_fee o1)"
    and "amount (lo_deferred_paid_fee o1) = 0 \<Longrightarrow> paid = lo_deferred_paid_fee o1"
proof -
  obtain x where x: "calculate_fee (limit_cancel_base_fee s) (fee_scale s) (unit_price CORE) = Inr x"
    using assms by (auto simp: charge_cancel_fee_def bindE_eq_Inr)
  define core where "core = (if lo_deferred_fee o1 < amount x then mk_asset (lo_deferred_fee o1) (asset_id x) else x)"
  note r = assms [unfolded charge_cancel_fee_def x Let_def bindE_simps, folded core_def]
  have "transfers s s' (\<lambda>a. core_share a (lo_deferred_fee o1 - fee) + share_in a (lo_deferred_paid_fee o1) - share_in a paid)
    \<and> asset_id paid = asset_id (lo_deferred_paid_fee o1) \<and> (amount (lo_deferred_paid_fee o1) = 0 \<longrightarrow> paid = lo_deferred_paid_fee o1)"
  proof (cases "0 < amount core")
    case False
    with r have "fee = lo_deferred_fee o1" "paid = lo_deferred_paid_fee o1" "s' = s" by simp_all
    then show ?thesis using transfers_eq [OF transfers_refl] by simp
  next
    case True
    with r obtain st s1 where s1: "modify_stats st (stats_pay_fee (amount core) (cashback_vesting_threshold s)) s = Inr s1"
      and fee: "fee = lo_deferred_fee o1 - amount core" and
      rest: "(amount (lo_deferred_paid_fee o1) = 0 \<and> paid = lo_deferred_paid_fee o1 \<and> s' = s1) \<or>
        (\<exists>c d. dyn_of (asset_id (lo_deferred_paid_fee o1)) s1 = Inr d \<and>
           modify_dyn d (\<lambda>v. bindE (safe_add (ad_accumulated_fees v) c) (\<lambda>x. Inr (v\<lparr>ad_accumulated_fees := x\<rparr>))) s1 = Inr s' \<and>
           paid = mk_asset (amount (lo_deferred_paid_fee o1) - c) (asset_id (lo_deferred_paid_fee o1)) \<and>
           amount (lo_deferred_paid_fee o1) \<noteq> 0)"
      by (auto simp: result_simps split: if_splits) blast+
    note t = pay_fee_transfers [OF s1]
    from rest show ?thesis
    proof
      assume a: "amount (lo_deferred_paid_fee o1) = 0 \<and> paid = lo_deferred_paid_fee o1 \<and> s' = s1"
      then show ?thesis using transfers_eq [OF t] by (simp add: fee)
    next
      assume "\<exists>c d. dyn_of (asset_id (lo_deferred_paid_fee o1)) s1 = Inr d \<and>
           modify_dyn d (\<lambda>v. bindE (safe_add (ad_accumulated_fees v) c) (\<lambda>x. Inr (v\<lparr>ad_accumulated_fees := x\<rparr>))) s1 = Inr s' \<and>
           paid = mk_asset (amount (lo_deferred_paid_fee o1) - c) (asset_id (lo_deferred_paid_fee o1)) \<and>
           amount (lo_deferred_paid_fee o1) \<noteq> 0"
      then obtain c d where d: "dyn_of (asset_id (lo_deferred_paid_fee o1)) s1 = Inr d"
         "modify_dyn d (\<lambda>v. bindE (safe_add (ad_accumulated_fees v) c) (\<lambda>x. Inr (v\<lparr>ad_accumulated_fees := x\<rparr>))) s1 = Inr s'"
        and p: "paid = mk_asset (amount (lo_deferred_paid_fee o1) - c) (asset_id (lo_deferred_paid_fee o1))"
          "amount (lo_deferred_paid_fee o1) \<noteq> 0"
        by blast
      from transfers_trans [OF t accumulate_transfers [OF d(2,1)]]
      have "transfers s s' (\<lambda>a. core_share a (lo_deferred_fee o1 - fee) + share_in a (lo_deferred_paid_fee o1) - share_in a paid)"
        by (rule transfers_eq) (simp add: p(1) share_in_def fee)
      then show ?thesis using p by simp
    qed
  qed
  then show "transfers s s' (\<lambda>a. core_share a (lo_deferred_fee o1 - fee) + share_in a (lo_deferred_paid_fee o1) - share_in a paid)"
    and "asset_id paid = asset_id (lo_deferred_paid_fee o1)"
    and "amount (lo_deferred_paid_fee o1) = 0 \<Longrightarrow> paid = lo_deferred_paid_fee o1" by simp_all
qed

lemma cancel_limit_order_shifts:
  assumes r: "cancel_limit_order oid vop skip s = Inr s'"
  shows "shifts s s' (\<lambda>_. 0)"
proof -
  obtain o1 where o1: "map_of (limits s) oid = Some o1"
    using r by (auto simp: cancel_limit_order_def result_simps)
  obtain fee paid vf s1 where c: "(if vop \<and> \<not> skip \<and> 0 < lo_deferred_fee o1 then charge_cancel_fee o1 s
            else Inr (lo_deferred_fee o1, lo_deferred_paid_fee o1, mk_asset 0 CORE, s)) = Inr (fee, paid, vf, s1)"
    using r o1 unfolding cancel_limit_order_def by (auto simp: bindE_eq_Inr deref_Inr)
  obtain s2 s3 s5 where
    s2: "(if asset_id (amount_for_sale o1) = CORE then
                 bindE (stats_of (lo_seller o1) s1) (\<lambda>st.
                 modify_stats st (\<lambda>v. bindE (safe_sub (st_total_core_in_orders v) (amount (amount_for_sale o1))) (\<lambda>x.
                   Inr (v\<lparr>st_total_core_in_orders := x\<rparr>))) s1)
               else Inr s1) = Inr s2" and
    s3: "adjust_balance (lo_seller o1) (amount_for_sale o1) s2 = Inr s3" and
    s5: "(if amount (lo_deferred_paid_fee o1) = 0 then
                 adjust_balance (lo_seller o1) (mk_asset fee CORE) s3
               else
                 bindE (adjust_balance (lo_seller o1) paid s3) (\<lambda>s4.
                 bindE (dyn_of (asset_id paid) s4) (\<lambda>d.
                 modify_dyn d (\<lambda>v. bindE (safe_add (ad_fee_pool v) fee) (\<lambda>x. Inr (v\<lparr>ad_fee_pool := x\<rparr>))) s4))) = Inr s5" and
    s': "s' = (let s6 = (if vop then push_applied_operation (LimitOrderCancel oid (lo_seller o1) vf) s5 else s5)
        in s6\<lparr>limits := tdel oid (limits s6)\<rparr>)"
    using r c o1 unfolding cancel_limit_order_def Let_def deref_def
    by (simp only: of_option_simps bindE_simps prod.case) (auto simp: bindE_eq_Inr)
  have t1: "transfers s s1 (\<lambda>a. core_share a (lo_deferred_fee o1 - fee) + share_in a (lo_deferred_paid_fee o1) - share_in a paid)"
    using c charge_cancel_fee_transfers(1) transfers_eq [OF transfers_refl]
    by (auto split: if_splits)
  have paid0: "share_in a paid = 0" if "amount (lo_deferred_paid_fee o1) = 0" for a
  proof -
    have "paid = lo_deferred_paid_fee o1"
      using c charge_cancel_fee_transfers(3) [OF _ that] by (auto split: if_splits)
    then show ?thesis using that by (simp add: share_in_def)
  qed
  have t2: "transfers s1 s2 (\<lambda>_. 0)"
    using s2 by (auto simp: bindE_eq_Inr transfers_refl result_simps split: if_splits intro!: stats_orders_transfers)
  have t5: "transfers s3 s5 (\<lambda>a. core_share a fee + share_in a paid)"
  proof (cases "amount (lo_deferred_paid_fee o1) = 0")
    case True
    from True s5 have "adjust_balance (lo_seller o1) (mk_asset fee CORE) s3 = Inr s5" by simp
    from adjust_balance_transfers [OF this] show ?thesis
      by (rule transfers_eq) (simp add: paid0 [OF True] share_in_CORE)
  next
    case False
    with s5 obtain s4 d where s4: "adjust_balance (lo_seller o1) paid s3 = Inr s4" "dyn_of (asset_id paid) s4 = Inr d"
        "modify_dyn d (\<lambda>v. bindE (safe_add (ad_fee_pool v) fee) (\<lambda>x. Inr (v\<lparr>ad_fee_pool := x\<rparr>))) s4 = Inr s5"
      by (auto simp: bindE_eq_Inr)
    from transfers_step [OF adjust_balance_transfers [OF s4(1)] fee_pool_transfers [OF s4(3,2)]] show ?thesis by simp
  qed
  define s6 where "s6 = (if vop then push_applied_operation (LimitOrderCancel oid (lo_seller o1) vf) s5 else s5)"
  have t6: "transfers s5 s6 (\<lambda>_. 0)" by (simp add: s6_def push_transfers transfers_refl)
  note t = transfers_trans [OF transfers_trans [OF transfers_trans [OF transfers_trans [OF t1 t2]
      adjust_balance_transfers [OF s3]] t5] t6]
  then have "limits s6 = limits s" by (simp add: transfers_def pays_onlyD)
  then have "shifts s6 s' (\<lambda>a. - held_limit a o1)"
    using limits_del_shift [of s6 oid o1] o1 s' by (simp add: s6_def Let_def)
  from shifts_step [OF _ this] t show ?thesis
    by (force simp: transfers_def held_limit_def core_share_def)
qed


lemma maybe_cull_shifts:
  assumes "maybe_cull_small_order oid s = Inr (b, s')"
  shows "shifts s s' (\<lambda>_. 0)"
  using assms
  by (auto simp: maybe_cull_small_order_def result_simps shifts_refl split: if_splits intro: cancel_limit_order_shifts)

lemma cancel_settle_shifts:
  assumes r: "cancel_settle_order fid vop s = Inr s'"
  shows "shifts s s' (\<lambda>_. 0)"
proof -
  obtain f s1 where f: "map_of (settles s) fid = Some f" and s1: "adjust_balance (fs_owner f) (fs_balance f) s = Inr s1"
    and s': "s' = (let s2 = (if vop then push_applied_operation (AssetSettleCancel fid (fs_owner f) (fs_balance f)) s1 else s1)
      in s2\<lparr>settles := tdel fid (settles s2)\<rparr>)"
    using r by (auto simp: cancel_settle_order_def result_simps Let_def)
  define s2 where "s2 = (if vop then push_applied_operation (AssetSettleCancel fid (fs_owner f) (fs_balance f)) s1 else s1)"
  have "transfers s1 s2 (\<lambda>_. 0)" by (simp add: s2_def push_transfers transfers_refl)
  note t = transfers_trans [OF adjust_balance_transfers [OF s1] this]
  then have "settles s2 = settles s" by (simp add: transfers_def pays_onlyD)
  then have "shifts s2 s' (\<lambda>a. - held_settle a f)"
    using settles_del_shift [of s2 fid f] f s' by (simp add: s2_def Let_def)
  from shifts_step [OF _ this] t show ?thesis by (force simp: transfers_def held_settle_def)
qed

lemma cancel_bid_shifts:
  assumes r: "cancel_bid bid vop s = Inr s'"
  shows "shifts s s' (\<lambda>_. 0)"
proof -
  obtain b s1 where b: "map_of (bids s) bid = Some b" and s1: "adjust_balance (cb_bidder b) (base (cb_inv_swan_price b)) s = Inr s1"
    and s': "s' = (let s2 = (if vop then push_applied_operation (BidCollateral (cb_bidder b) (base (cb_inv_swan_price b))
            (mk_asset 0 (asset_id (quote (cb_inv_swan_price b))))) s1 else s1)
      in s2\<lparr>bids := tdel bid (bids s2)\<rparr>)"
    using r by (auto simp: cancel_bid_def result_simps Let_def)
  define s2 where "s2 = (if vop then push_applied_operation (BidCollateral (cb_bidder b) (base (cb_inv_swan_price b))
            (mk_asset 0 (asset_id (quote (cb_inv_swan_price b))))) s1 else s1)"
  have "transfers s1 s2 (\<lambda>_. 0)" by (simp add: s2_def push_transfers transfers_refl)
  note t = transfers_trans [OF adjust_balance_transfers [OF s1] this]
  then have "bids s2 = bids s" by (simp add: transfers_def pays_onlyD)
  then have "shifts s2 s' (\<lambda>a. - held_bid a b)"
    using bids_del_shift [of s2 bid b] b s' by (simp add: s2_def Let_def)
  from shifts_step [OF _ this] t show ?thesis by (force simp: transfers_def held_bid_def)
qed

subsection \<open>A fill moves what is paid and received\<close>

lemma safe_sub_int64: "int64_ok x \<Longrightarrow> safe_sub x y = Inr z \<Longrightarrow> int64_ok z"
  by (auto simp: safe_sub_def int64_ok_def split: if_splits)

lemma fill_limit_order_shifts:
  assumes r: "fill_limit_order oid pays receives cull p maker s = Inr (b, s')"
    and x: "int64_ok (amount receives)" "0 \<le> amount receives"
  shows "shifts s s' (\<lambda>a. share_in a receives - share_in a pays)"
proof (cases "chain_wf s")
  case wf: True
  obtain o1 seller f s1 net s2 where o1: "map_of (limits s) oid = Some o1"
    and ids: "asset_id (amount_for_sale o1) = asset_id pays" and seller: "map_of (accounts s) (lo_seller o1) = Some seller"
    and s1: "pay_market_fees (asset_id receives) receives s = Inr (f, s1)"
    and net: "asset_sub receives f = Inr net"
    and s2: "pay_order (lo_seller o1) net pays s1 = Inr s2"
    using r by (auto simp: fill_limit_order_def bindE_eq_Inr assertE_eq_Inr deref_Inr tget_Inr)
  define s3 where "s3 = push_applied_operation (FillOrder oid (lo_seller o1) pays receives f p maker) s2"
  obtain s4 s5 where s4: "(if 0 < lo_deferred_fee o1 then
          modify_stats (ac_statistics seller) (stats_pay_fee (lo_deferred_fee o1) (cashback_vesting_threshold s3)) s3
        else Inr s3) = Inr s4"
    and s5: "(if 0 < amount (lo_deferred_paid_fee o1) then
          bindE (dyn_of (asset_id (lo_deferred_paid_fee o1)) s4) (\<lambda>d.
          modify_dyn d (\<lambda>v. bindE (safe_add (ad_accumulated_fees v) (amount (lo_deferred_paid_fee o1))) (\<lambda>x.
            Inr (v\<lparr>ad_accumulated_fees := x\<rparr>))) s4)
        else Inr s4) = Inr s5"
    and fin: "(if pays = amount_for_sale o1 then Inr (True, s5\<lparr>limits := tdel oid (limits s5)\<rparr>)
         else
           bindE (safe_sub (lo_for_sale o1) (amount pays)) (\<lambda>x.
           let s6 = s5\<lparr>limits := tput oid (o1\<lparr>lo_for_sale := x, lo_deferred_fee := 0,
                        lo_deferred_paid_fee := mk_asset 0 (asset_id (lo_deferred_paid_fee o1))\<rparr>) (limits s5)\<rparr>
           in if cull \<or> head_time s < HARDFORK_555_TIME then maybe_cull_small_order oid s6
              else Inr (False, s6))) = Inr (b, s')"
    using r o1 seller s1 net s2 unfolding fill_limit_order_def Let_def deref_def tget_def
    by (simp only: of_option_simps bindE_simps prod.case assertE_eq_Inr bindE_eq_Inr s3_def) blast
  have l: "limit_ok o1" using table_allD [OF wf_tables(7) [OF wf] o1] .
  have t4: "transfers s3 s4 (\<lambda>a. core_share a (lo_deferred_fee o1))"
  proof (cases "0 < lo_deferred_fee o1")
    case True
    then show ?thesis using s4 pay_fee_transfers by simp
  next
    case False
    then have z: "lo_deferred_fee o1 = 0" "s3 = s4" using l s4 by (simp_all add: limit_ok_def)
    show ?thesis unfolding z using transfers_refl by simp
  qed
  have t5: "transfers s4 s5 (\<lambda>a. share_in a (lo_deferred_paid_fee o1))"
  proof (cases "0 < amount (lo_deferred_paid_fee o1)")
    case True
    then obtain d where "dyn_of (asset_id (lo_deferred_paid_fee o1)) s4 = Inr d"
       "modify_dyn d (\<lambda>v. bindE (safe_add (ad_accumulated_fees v) (amount (lo_deferred_paid_fee o1))) (\<lambda>x.
            Inr (v\<lparr>ad_accumulated_fees := x\<rparr>))) s4 = Inr s5" using s5 by (auto simp: bindE_eq_Inr)
    from accumulate_transfers [OF this(2,1)] show ?thesis by simp
  next
    case False
    then have z: "amount (lo_deferred_paid_fee o1) = 0" "s4 = s5" using l s5 by (simp_all add: limit_ok_def)
    show ?thesis unfolding z(2) by (rule transfers_eq [OF transfers_refl]) (simp add: share_in_def z(1))
  qed
  note m = pay_market_fees_transfers [OF s1 x wf]
  have "transfers s s2 (\<lambda>a. share_in a receives)"
    by (rule transfers_step [OF m(1) pay_order_transfers [OF s2]])
      (use net m(2) in \<open>auto simp: share_in_def result_simps\<close>)
  note t = transfers_trans [OF transfers_trans [OF transfers_trans [OF this push_transfers [of s2 "FillOrder oid (lo_seller o1) pays receives f p maker", folded s3_def]] t4] t5]
  have lim: "limits s5 = limits s" using t by (simp add: transfers_def pays_onlyD)
  have pay: "shifts s s5 (\<lambda>a. share_in a receives + core_share a (lo_deferred_fee o1) + share_in a (lo_deferred_paid_fee o1))"
    using t by (auto simp: transfers_def elim: shifts_eq)
  show ?thesis
  proof (cases "pays = amount_for_sale o1")
    case True
    then have s': "s' = s5\<lparr>limits := tdel oid (limits s5)\<rparr>" using fin by simp
    have "shifts s5 s' (\<lambda>a. - held_limit a o1)" unfolding s' by (rule limits_del_shift) (simp add: lim o1)
    from shifts_step [OF pay this] show ?thesis by (simp add: held_limit_def True)
  next
    case False
    then obtain y where y: "safe_sub (lo_for_sale o1) (amount pays) = Inr y"
      using fin by (auto simp: bindE_eq_Inr)
    define o2 where "o2 = o1\<lparr>lo_for_sale := y, lo_deferred_fee := 0,
                        lo_deferred_paid_fee := mk_asset 0 (asset_id (lo_deferred_paid_fee o1))\<rparr>"
    define s6 where "s6 = s5\<lparr>limits := tput oid o2 (limits s5)\<rparr>"
    have o2: "limit_ok o2" using l safe_sub_int64 [OF _ y] by (simp add: o2_def limit_ok_def)
    have "shifts s5 s6 (\<lambda>a. held_limit a o2 - held_limit a o1)"
      unfolding s6_def by (rule limits_put_shift) (simp_all add: lim o1 o2)
    moreover have "held_limit a o2 = held_limit a o1 - share_in a pays - core_share a (lo_deferred_fee o1)
        - share_in a (lo_deferred_paid_fee o1)" for a
      using y ids by (auto simp: held_limit_def o2_def share_in_def amount_for_sale_def result_simps)
    ultimately have "shifts s5 s6 (\<lambda>a. - share_in a pays - core_share a (lo_deferred_fee o1)
        - share_in a (lo_deferred_paid_fee o1))" by (elim shifts_eq) simp
    from shifts_step [OF pay this] have s6: "shifts s s6 (\<lambda>a. share_in a receives - share_in a pays)" by simp
    have "s' = s6 \<or> maybe_cull_small_order oid s6 = Inr (b, s')"
      using fin False y by (auto simp: s6_def o2_def Let_def split: if_splits)
    then show ?thesis using s6 shifts_step [OF s6 maybe_cull_shifts] by auto
  qed
next
  case False
  then show ?thesis by (simp add: shifts_def)
qed


lemma call_price_assets:
  assumes "call_price d c r = Inr p"
  shows "asset_id (base p) = asset_id c" "asset_id (quote p) = asset_id d"
  using assms by (auto simp: call_price_def result_simps Let_def)

lemma fill_call_change_Inr:
  assumes "fill_call_change mia pays receives s c = Inr (c1, freed)"
  shows "held_call a c1 + (case freed of None \<Rightarrow> 0 | Some x \<Rightarrow> share_in a x) =
      held_call a c - share_in a (mk_asset (amount pays) (collateral_type c))"
    and "call_ok c \<Longrightarrow> call_ok c1"
    and "freed \<noteq> None \<Longrightarrow> held_call a c1 = 0" "debt_type c1 = debt_type c" "co_borrower c1 = co_borrower c"
    and "co_debt c1 = co_debt c - amount receives"
proof -
  obtain debt coll where dc: "safe_sub (co_debt c) (amount receives) = Inr debt"
      "safe_sub (co_collateral c) (amount pays) = Inr coll"
    and rest: "(let c1 = c\<lparr>co_debt := debt, co_collateral := coll\<rparr>
     in if debt = 0 then Inr (c1\<lparr>co_collateral := 0\<rparr>, Some (get_collateral c1))
        else if HARDFORK_CORE_343_TIME < next_maintenance_time s then
          bindE (bitasset_of mia s) (\<lambda>b.
          bindE (call_price (get_debt c1) (get_collateral c1)
                   (pf_maintenance_collateral_ratio (ba_current_feed b))) (\<lambda>p.
          Inr (c1\<lparr>co_call_price := p\<rparr>, None)))
        else Inr (c1, None)) = Inr (c1, freed)"
    using assms by (auto simp: fill_call_change_def bindE_eq_Inr)
  define c0 where "c0 = c\<lparr>co_debt := debt, co_collateral := coll\<rparr>"
  have c0: "collateral_type c0 = collateral_type c" "debt_type c0 = debt_type c" "co_borrower c0 = co_borrower c"
    "co_debt c0 = debt" "co_collateral c0 = coll"
    by (simp_all add: c0_def collateral_type_def debt_type_def)
  have coll: "coll = co_collateral c - amount pays" using dc(2) by (simp add: result_simps)
  have h: "held_call a c = share_in a (mk_asset (co_collateral c) (collateral_type c))" for a and c
    by (simp add: held_call_def get_collateral_def)
  have add: "share_in a (mk_asset (x - y) t) = share_in a (mk_asset x t) - share_in a (mk_asset y t)" for a x y t
    by (simp add: share_in_def)
  have "held_call a c1 + (case freed of None \<Rightarrow> 0 | Some x \<Rightarrow> share_in a x) =
      held_call a c - share_in a (mk_asset (amount pays) (collateral_type c)) \<and>
    (freed \<noteq> None \<longrightarrow> held_call a c1 = 0) \<and> debt_type c1 = debt_type c \<and> co_borrower c1 = co_borrower c \<and> co_debt c1 = debt \<and>
    (co_collateral c1 = coll \<or> co_collateral c1 = 0)"
  proof (cases "debt = 0")
    case True
    then have "c1 = c0\<lparr>co_collateral := 0\<rparr>" "freed = Some (get_collateral c0)"
      using rest by (simp_all add: c0_def Let_def)
    then show ?thesis using True c0
      by (simp add: h get_collateral_def collateral_type_def debt_type_def coll add)
  next
    case False
    then have f: "freed = None" and c1: "c1 = c0 \<or> (\<exists>p r. c1 = c0\<lparr>co_call_price := p\<rparr> \<and> call_price (get_debt c0) (get_collateral c0) r = Inr p)"
      using rest by (auto simp: c0_def [symmetric] Let_def bindE_eq_Inr split: if_splits)
    from c1 show ?thesis
    proof
      assume "c1 = c0"
      then show ?thesis using f c0 by (simp add: h coll add)
    next
      assume "\<exists>p r. c1 = c0\<lparr>co_call_price := p\<rparr> \<and> call_price (get_debt c0) (get_collateral c0) r = Inr p"
      then obtain p r where p: "c1 = c0\<lparr>co_call_price := p\<rparr>" "call_price (get_debt c0) (get_collateral c0) r = Inr p" by blast
      have "collateral_type c1 = collateral_type c" "debt_type c1 = debt_type c"
        using call_price_assets [OF p(2)] c0 by (simp_all add: p(1) collateral_type_def debt_type_def get_collateral_def get_debt_def)
      moreover have "co_collateral c1 = coll" "co_debt c1 = debt" "co_borrower c1 = co_borrower c" using p(1) c0 by simp_all
      ultimately show ?thesis using f by (simp add: h coll add)
    qed
  qed
  then show "held_call a c1 + (case freed of None \<Rightarrow> 0 | Some x \<Rightarrow> share_in a x) =
      held_call a c - share_in a (mk_asset (amount pays) (collateral_type c))"
    and "call_ok c \<Longrightarrow> call_ok c1"
    and "freed \<noteq> None \<Longrightarrow> held_call a c1 = 0" "debt_type c1 = debt_type c" "co_borrower c1 = co_borrower c"
    and "co_debt c1 = co_debt c - amount receives"
    using dc safe_sub_int64 [OF _ dc(1)] safe_sub_int64 [OF _ dc(2)] by (auto simp: call_ok_def result_simps)
qed

text \<open>The current supply of an asset.\<close>

definition issued :: "chain \<Rightarrow> asset_id_type \<Rightarrow> share option" where
  "issued s c = map_option ad_current_supply (own_dyn c s)"

lemma issued_adjust_balance: "adjust_balance acct x s = Inr s' \<Longrightarrow> issued s' = issued s"
  by (auto simp: issued_def own_dyn_def fun_eq_iff elim!: adjust_balance_frame)

lemma issued_modify_stats: "modify_stats i f s = Inr s' \<Longrightarrow> issued s' = issued s"
  by (auto simp: issued_def own_dyn_def fun_eq_iff elim!: modify_stats_frame)

lemma issued_modify_dyn:
  assumes "modify_dyn i (\<lambda>v. bindE (safe_sub (ad_current_supply v) x) (\<lambda>y. Inr (v\<lparr>ad_current_supply := y\<rparr>))) s = Inr s'"
    and "dyn_of c s = Inr i" "dyns_ok s"
  shows "issued s' d = map_option (\<lambda>y. y - (if d = c then x else 0)) (issued s d)"
proof -
  obtain o1 where o1: "map_of (assets s) c = Some o1" "i = ao_dynamic_data o1"
    using assms(2) by (auto simp: dyn_of_def result_simps)
  obtain v v' where v: "map_of (dyns s) i = Some v" "s' = s\<lparr>dyns := tput i v' (dyns s)\<rparr>"
    "ad_current_supply v' = ad_current_supply v - x"
    using assms(1) by (auto simp: modify_dyn_def result_simps)
  have "own_dyn d s' = (if d = c then Some v' else own_dyn d s)"
    using own_dyn_tput [OF assms(3) o1(1), of v d v'] v o1(2) by simp
  moreover have "own_dyn c s = Some v" using o1 v by (simp add: own_dyn_def)
  ultimately show ?thesis using v(3) by (auto simp: issued_def option.map_ident)
qed

lemma fill_call_order_effect:
  assumes r: "fill_call_order cid pays receives p maker s = Inr (b, s')"
  obtains c c1 freed s4 where "map_of (calls s) cid = Some c" "asset_id pays = collateral_type c"
    "asset_id receives = debt_type c" "amount pays \<le> co_collateral c"
    "co_debt c1 = co_debt c - amount receives" "debt_type c1 = debt_type c"
    "\<forall>a. held_call a c1 + (case freed of None \<Rightarrow> 0 | Some x \<Rightarrow> share_in a x) = held_call a c - share_in a pays"
    "call_ok c \<longrightarrow> call_ok c1" "freed \<noteq> None \<longrightarrow> (\<forall>a. held_call a c1 = 0)"
    "transfers (s\<lparr>calls := tput cid c1 (calls s)\<rparr>) s4 (\<lambda>a. share_in a receives + (case freed of None \<Rightarrow> 0 | Some x \<Rightarrow> share_in a x))"
    "chain_wf s \<longrightarrow> (\<forall>d. issued s4 d = map_option (\<lambda>y. y - (if d = asset_id receives then amount receives else 0)) (issued s d))"
    "b \<longleftrightarrow> freed \<noteq> None"
    "s' = (if b then s4\<lparr>calls := tdel cid (calls s4)\<rparr> else s4)"
proof -
  obtain c mia c1 freed where c: "map_of (calls s) cid = Some c" and ids: "debt_type c = asset_id receives"
      "collateral_type c = asset_id pays" and le: "amount pays \<le> co_collateral c"
    and mia: "map_of (assets s) (asset_id receives) = Some mia"
    and ch: "fill_call_change mia pays receives s c = Inr (c1, freed)"
    using r by (auto simp: fill_call_order_def bindE_eq_Inr assertE_eq_Inr deref_Inr tget_Inr)
  define s1 where "s1 = s\<lparr>calls := tput cid c1 (calls s)\<rparr>"
  obtain s2 s3 s4 where s2: "modify_dyn (ao_dynamic_data mia) (\<lambda>v.
           bindE (safe_sub (ad_current_supply v) (amount receives)) (\<lambda>x. Inr (v\<lparr>ad_current_supply := x\<rparr>))) s1 = Inr s2"
    and s3: "(case freed of None \<Rightarrow> Inr s2 | Some x \<Rightarrow> adjust_balance (co_borrower c) x s2) = Inr s3"
    and s4: "(if asset_id pays = CORE then
                  bindE (get_account_stats_by_owner (co_borrower c) s3) (\<lambda>st.
                  modify_stats st (\<lambda>b.
                    bindE (safe_sub (st_total_core_in_orders b) (amount pays)) (\<lambda>x.
                    bindE (case freed of None \<Rightarrow> Inr x | Some f \<Rightarrow> safe_sub x (amount f)) (\<lambda>y.
                    Inr (b\<lparr>st_total_core_in_orders := y\<rparr>)))) s3)
                else Inr s3) = Inr s4"
    and fin: "(let s5 = push_applied_operation (FillOrder cid (co_borrower c) pays receives
                    (mk_asset 0 (asset_id pays)) p maker) s4
         in Inr (freed \<noteq> None, if freed \<noteq> None then s5\<lparr>calls := tdel cid (calls s5)\<rparr> else s5)) = (Inr (b, s') :: (bool \<times> chain) result)"
    using r c mia ch ids le unfolding fill_call_order_def Let_def deref_def tget_def s1_def
    by (simp only: of_option_simps bindE_simps prod.case assertE_eq_Inr bindE_eq_Inr) blast
  define s5 where "s5 = push_applied_operation (FillOrder cid (co_borrower c) pays receives (mk_asset 0 (asset_id pays)) p maker) s4"
  note h = fill_call_change_Inr [OF ch]
  have d: "dyn_of (asset_id receives) s1 = Inr (ao_dynamic_data mia)"
    using mia by (simp add: dyn_of_def tget_def s1_def)
  have t2: "transfers s1 s2 (\<lambda>a. share_in a receives)" using supply_transfers [OF s2 d] by simp
  have t3: "transfers s2 s3 (\<lambda>a. case freed of None \<Rightarrow> 0 | Some x \<Rightarrow> share_in a x)"
    using s3 adjust_balance_transfers by (cases freed) (simp_all add: transfers_refl)
  have t4: "transfers s3 s4 (\<lambda>_. 0)"
  proof (cases "asset_id pays = CORE")
    case True
    then obtain st where st: "modify_stats st (\<lambda>b.
                    bindE (safe_sub (st_total_core_in_orders b) (amount pays)) (\<lambda>x.
                    bindE (case freed of None \<Rightarrow> Inr x | Some f \<Rightarrow> safe_sub x (amount f)) (\<lambda>y.
                    Inr (b\<lparr>st_total_core_in_orders := y\<rparr>)))) s3 = Inr s4" using s4 by (auto simp: bindE_eq_Inr)
    then show ?thesis by (rule stats_orders_transfers) (auto simp: bindE_eq_Inr)
  next
    case False
    then show ?thesis using s4 transfers_refl by simp
  qed
  have t: "transfers s1 s5 (\<lambda>a. share_in a receives + (case freed of None \<Rightarrow> 0 | Some x \<Rightarrow> share_in a x))"
    unfolding s5_def by (rule transfers_step [OF transfers_trans [OF transfers_trans [OF t2 t3] t4] push_transfers]) simp
  have "issued s5 d = map_option (\<lambda>y. y - (if d = asset_id receives then amount receives else 0)) (issued s d)"
    if "chain_wf s" for d
  proof -
    have "dyns_ok s1" using wf_parts(2) [OF that] by (simp add: s1_def dyns_ok_def)
    from issued_modify_dyn [OF s2 d this] have "issued s2 d = map_option (\<lambda>y. y - (if d = asset_id receives then amount receives else 0)) (issued s d)"
      by (simp add: s1_def issued_def own_dyn_def)
    moreover have "issued s3 = issued s2" using s3 issued_adjust_balance by (cases freed) auto
    moreover have "issued s4 = issued s3" using s4 issued_modify_stats by (auto simp: bindE_eq_Inr split: if_splits)
    moreover have "issued s5 = issued s4" by (simp add: s5_def push_applied_operation_def issued_def own_dyn_def fun_eq_iff)
    ultimately show ?thesis by simp
  qed
  moreover have "b \<longleftrightarrow> freed \<noteq> None" "s' = (if b then s5\<lparr>calls := tdel cid (calls s5)\<rparr> else s5)"
    using fin by (auto simp: s5_def Let_def)
  ultimately show thesis
    using c ids le h t by (intro that [of c c1 freed s5]) (auto simp: s1_def)
qed

lemma fill_call_order_shifts:
  assumes r: "fill_call_order cid pays receives p maker s = Inr (b, s')"
  shows "shifts s s' (\<lambda>a. share_in a receives - share_in a pays)"
    "assets s' = assets s" "bitassets s' = bitassets s" "next_maintenance_time s' = next_maintenance_time s"
    "limits s' = limits s" "settles s' = settles s" "bids s' = bids s" "head_time s' = head_time s"
    "chain_wf s \<Longrightarrow> issued s' d = map_option (\<lambda>y. y - (if d = asset_id receives then amount receives else 0)) (issued s d)"
proof -
  have "shifts s s' (\<lambda>a. share_in a receives - share_in a pays) \<and> assets s' = assets s \<and> bitassets s' = bitassets s \<and>
    next_maintenance_time s' = next_maintenance_time s \<and> limits s' = limits s \<and> settles s' = settles s \<and> bids s' = bids s \<and> head_time s' = head_time s \<and>
    (chain_wf s \<longrightarrow> issued s' d = map_option (\<lambda>y. y - (if d = asset_id receives then amount receives else 0)) (issued s d))"
  proof (rule fill_call_order_effect [OF r])
    fix c c1 freed s4
    assume c: "map_of (calls s) cid = Some c" "call_ok c \<longrightarrow> call_ok c1"
      and h: "\<forall>a. held_call a c1 + (case freed of None \<Rightarrow> 0 | Some x \<Rightarrow> share_in a x) = held_call a c - share_in a pays"
      "freed \<noteq> None \<longrightarrow> (\<forall>a. held_call a c1 = 0)"
      and t: "transfers (s\<lparr>calls := tput cid c1 (calls s)\<rparr>) s4 (\<lambda>a. share_in a receives + (case freed of None \<Rightarrow> 0 | Some x \<Rightarrow> share_in a x))"
      and i: "chain_wf s \<longrightarrow> (\<forall>d. issued s4 d = map_option (\<lambda>y. y - (if d = asset_id receives then amount receives else 0)) (issued s d))"
      and s': "b \<longleftrightarrow> freed \<noteq> None" "s' = (if b then s4\<lparr>calls := tdel cid (calls s4)\<rparr> else s4)"
    have "shifts s (s\<lparr>calls := tput cid c1 (calls s)\<rparr>) (\<lambda>a. held_call a c1 - held_call a c)"
      using c by (intro calls_put_shift) auto
    from shifts_trans [OF this] t
    have "shifts s s4 (\<lambda>a. held_call a c1 - held_call a c + (share_in a receives + (case freed of None \<Rightarrow> 0 | Some x \<Rightarrow> share_in a x)))"
      by (simp add: transfers_def)
    moreover have "held_call a c1 - held_call a c + (share_in a receives + (case freed of None \<Rightarrow> 0 | Some x \<Rightarrow> share_in a x))
       = share_in a receives - share_in a pays" for a using h(1) [rule_format, of a] by linarith
    ultimately have s4: "shifts s s4 (\<lambda>a. share_in a receives - share_in a pays)" by (rule shifts_eq)
    have k: "pays_only (s\<lparr>calls := tput cid c1 (calls s)\<rparr>) s4" using t by (simp add: transfers_def)
    have "shifts s s' (\<lambda>a. share_in a receives - share_in a pays)"
    proof (cases b)
      case True
      have "map_of (calls s4) cid = Some c1" using pays_onlyD(3) [OF k] by simp
      from calls_del_shift [OF this] have "shifts s4 s' (\<lambda>a. - held_call a c1)" using True s'(2) by simp
      from shifts_step [OF s4 this] show ?thesis using True s'(1) h(2) by simp
    qed (use s4 s' in simp)
    moreover have "issued s' = issued s4" by (simp add: s'(2) issued_def own_dyn_def fun_eq_iff)
    ultimately show ?thesis using i pays_onlyD [OF k] by (simp add: s'(2))
  qed
  then show "shifts s s' (\<lambda>a. share_in a receives - share_in a pays)"
    "assets s' = assets s" "bitassets s' = bitassets s" "next_maintenance_time s' = next_maintenance_time s"
    "limits s' = limits s" "settles s' = settles s" "bids s' = bids s" "head_time s' = head_time s"
    "chain_wf s \<Longrightarrow> issued s' d = map_option (\<lambda>y. y - (if d = asset_id receives then amount receives else 0)) (issued s d)"
    by simp_all
qed

lemma fill_settle_order_shifts:
  assumes r: "fill_settle_order fid pays receives p maker s = Inr (b, s')"
    and x: "int64_ok (amount receives)" "0 \<le> amount receives"
    and le: "\<And>f. map_of (settles s) fid = Some f \<Longrightarrow> amount pays \<le> amount (fs_balance f)"
  shows "shifts s s' (\<lambda>a. share_in a receives - share_in a pays)"
proof (cases "chain_wf s")
  case wf: True
  obtain f fee s1 lt s2 net s3 where f: "map_of (settles s) fid = Some f"
    and s1: "pay_market_fees (asset_id receives) receives s = Inr (fee, s1)"
    and lt: "asset_less pays (fs_balance f) = Inr lt"
    and s2: "(if lt then bindE (asset_sub (fs_balance f) pays) (\<lambda>b.
              Inr (s1\<lparr>settles := tput fid (f\<lparr>fs_balance := b\<rparr>) (settles s1)\<rparr>)) else Inr s1) = Inr s2"
    and net: "asset_sub receives fee = Inr net" and s3: "adjust_balance (fs_owner f) net s2 = Inr s3"
    and fin: "s' = (let s4 = push_applied_operation (FillOrder fid (fs_owner f) pays receives fee p maker) s3
       in if \<not> lt then s4\<lparr>settles := tdel fid (settles s4)\<rparr> else s4)"
    using r by (simp add: fill_settle_order_def bindE_eq_Inr deref_Inr Let_def split: prod.splits) blast
  note m = pay_market_fees_transfers [OF s1 x wf]
  define s4 where "s4 = push_applied_operation (FillOrder fid (fs_owner f) pays receives fee p maker) s3"
  have t: "transfers s2 s4 (\<lambda>a. share_in a net)"
    using transfers_step [OF adjust_balance_transfers [OF s3] push_transfers] by (simp add: s4_def)
  have n: "share_in a fee + share_in a net = share_in a receives" for a
    using net m(2) by (auto simp: share_in_def result_simps)
  have id: "asset_id pays = asset_id (fs_balance f)" using lt by (simp add: result_simps)
  have k1: "settles s1 = settles s" using m(1) by (simp add: transfers_def pays_onlyD)
  show ?thesis
  proof (cases lt)
    case True
    then obtain bal where bal: "asset_sub (fs_balance f) pays = Inr bal"
      "s2 = s1\<lparr>settles := tput fid (f\<lparr>fs_balance := bal\<rparr>) (settles s1)\<rparr>" using s2 by (auto simp: bindE_eq_Inr)
    have so: "settle_ok (f\<lparr>fs_balance := bal\<rparr>)" if "settle_ok f"
      using bal(1) that safe_sub_int64 by (auto simp: settle_ok_def result_simps)
    have "shifts s1 s2 (\<lambda>a. held_settle a (f\<lparr>fs_balance := bal\<rparr>) - held_settle a f)"
      unfolding bal(2) by (rule settles_put_shift) (use k1 f so in simp_all)
    from shifts_trans [OF shifts_trans [OF _ this]] m(1) t
    have "shifts s s4 (\<lambda>a. share_in a fee + (held_settle a (f\<lparr>fs_balance := bal\<rparr>) - held_settle a f) + share_in a net)"
      by (simp add: transfers_def)
    moreover have "held_settle a (f\<lparr>fs_balance := bal\<rparr>) = held_settle a f - share_in a pays" for a
      using bal(1) by (auto simp: held_settle_def share_in_def result_simps)
    moreover have "s' = s4" using fin True by (simp add: s4_def)
    ultimately show ?thesis using n by (auto intro: shifts_eq)
  next
    case False
    have s12: "s2 = s1" using s2 False by simp
    have full: "amount pays = amount (fs_balance f)" using le [OF f] lt False by (simp add: result_simps)
    from transfers_step [OF m(1) t [unfolded s12] n] have t: "transfers s s4 (\<lambda>a. share_in a receives)" .
    then have "settles s4 = settles s" by (simp add: transfers_def pays_onlyD)
    then have "map_of (settles s4) fid = Some f" using f by simp
    from settles_del_shift [OF this] have "shifts s4 s' (\<lambda>a. - held_settle a f)"
      using False fin by (simp add: s4_def [symmetric] Let_def)
    from shifts_step [OF _ this] t full id show ?thesis
      by (force simp: transfers_def held_settle_def share_in_def)
  qed
next
  case False
  then show ?thesis by (simp add: shifts_def)
qed

end
