(* ===== verification/Debt_Cover.thy ===== *)
theory Debt_Cover
  imports Chain_State
begin

text \<open>
  \<open>call_order_object::get_max_debt_to_cover\<close> (\<open>chain/market_object.cpp\<close>): how much debt a margin call has to
  cover so that the target collateral ratio of the position is met again.  A first estimate is computed
  exactly, then a bisection between the estimate and an upper bound, then a search forward in Fibonacci
  steps.  The bisection ends because its interval shrinks; the search forward is given fuel, and
  \<open>get_max_debt_to_cover_not_fuel\<close> shows that it suffices for amounts up to the maximal supply.  What the
  function returns is in \<open>Debt_Cover_Correct\<close>.

  \<open>int256_t\<close> values are integers: the products have at most 205 bits.
\<close>

text \<open>The test \<open>price::call_price( get_debt() - to_cover, get_collateral() - to_pay, tcr ) > feed_price\<close>.\<close>

definition cover_ok :: "call_order \<Rightarrow> int \<Rightarrow> price \<Rightarrow> share \<Rightarrow> share \<Rightarrow> bool result" where
  "cover_ok c tcr fp to_cover to_pay =
     bindE (asset_sub (get_debt c) (mk_asset to_cover (debt_type c))) (\<lambda>d.
     bindE (asset_sub (get_collateral c) (mk_asset to_pay (collateral_type c))) (\<lambda>k.
     bindE (call_price d k tcr) (\<lambda>p. Inr (price_gt p fp))))"

text \<open>One step of the bisection: the mean, stabilised by a conversion there and back.  The interval is
  given by what is paid and what is covered at its ends.\<close>

definition bisect_mean :: "call_order \<Rightarrow> price \<Rightarrow> share \<times> share \<Rightarrow> share \<times> share \<Rightarrow> (share \<times> share) result" where
  "bisect_mean c mp mn mx =
     (if amount (base mp) < amount (quote mp) then
        bindE (safe_add (fst mn) (fst mx)) (\<lambda>x.
        bindE (safe_add x 1) (\<lambda>y.
        bindE (safe_div y 2) (\<lambda>to_pay.
        if to_pay = fst mx then Inr (to_pay, snd mx)
        else
          bindE (asset_mul (mk_asset to_pay (collateral_type c)) mp) (\<lambda>to_cover.
          if snd mx \<le> amount to_cover then Inr mx
          else
            bindE (multiply_and_round_up to_cover mp) (\<lambda>to_pay'.
            assertE (amount to_pay' < fst mx) (Inr (amount to_pay', amount to_cover)))))))
      else
        bindE (safe_add (snd mn) (snd mx)) (\<lambda>x.
        bindE (safe_div x 2) (\<lambda>to_cover.
        if to_cover = snd mx then Inr (fst mx, to_cover)
        else
          bindE (multiply_and_round_up (mk_asset to_cover (debt_type c)) mp) (\<lambda>to_pay.
          if fst mx \<le> amount to_pay then Inr mx
          else
            bindE (asset_mul to_pay mp) (\<lambda>to_cover'.
            if snd mx \<le> amount to_cover' then Inr mx else Inr (amount to_pay, amount to_cover'))))))"

text \<open>\<open>if not moved away from the minimums, use the maximums\<close>.\<close>

definition bisect_point :: "share \<times> share \<Rightarrow> share \<times> share \<Rightarrow> share \<times> share \<Rightarrow> share \<times> share" where
  "bisect_point mn mx m =
     (if fst m \<le> fst mn \<or> snd m \<le> snd mn \<or> fst mx < fst m \<or> snd mx < snd m then mx else m)"

datatype bisect_outcome = Found share | Forward share share

function bisect :: "call_order \<Rightarrow> int \<Rightarrow> price \<Rightarrow> price \<Rightarrow> share \<times> share \<Rightarrow> share \<times> share \<Rightarrow> bool \<Rightarrow> bisect_outcome result" where
  "bisect c tcr mp fp mn mx max_is_ok =
     bindE (bisect_mean c mp mn mx) (\<lambda>m0.
     let m = bisect_point mn mx m0
     in if fst m = fst mx \<and> (max_is_ok \<or> fst m = co_collateral c) then Inr (Found (snd m))
        else
          assertE (fst m < co_collateral c \<and> snd m < co_debt c)
            (bindE (cover_ok c tcr fp (snd m) (fst m)) (\<lambda>good.
             if fst m = fst mx then Inr (if good then Found (snd m) else Forward (fst m) (snd m))
             else if good then bisect c tcr mp fp mn m True
             else bisect c tcr mp fp m mx max_is_ok)))"
  by pat_completeness auto
termination
  by (relation "measure (\<lambda>(_, _, _, _, mn, mx, _). nat (fst mx - fst mn))")
    (auto simp: bisect_point_def split: if_splits)

declare bisect.simps [simp del]

text \<open>The search forward.  The steps are \<open>uint64_t\<close> values, added to a \<open>share_type\<close>.\<close>

fun forward_search :: "nat \<Rightarrow> call_order \<Rightarrow> int \<Rightarrow> price \<Rightarrow> price \<Rightarrow> 64 word \<Rightarrow> 64 word \<Rightarrow> share \<Rightarrow> share \<Rightarrow> share result" where
  "forward_search 0 c tcr mp fp d2 d3 to_pay to_cover = Inl OutOfFuel"
| "forward_search (Suc n) c tcr mp fp d2 d3 to_pay to_cover =
     (let check = (\<lambda>tp tc. assertE (tp < co_collateral c \<and> tc < co_debt c)
                (bindE (cover_ok c tcr fp tc tp) (\<lambda>good.
                 if good then Inr tc else forward_search n c tcr mp fp d3 (d2 + d3) tp tc)))
      in if amount (quote mp) < amount (base mp) then
           bindE (safe_add to_pay (sint d2)) (\<lambda>tp.
           if co_collateral c \<le> tp then Inr (co_debt c)
           else
             bindE (asset_mul (mk_asset tp (collateral_type c)) mp) (\<lambda>tc.
             if co_debt c \<le> amount tc then Inr (co_debt c)
             else
               bindE (multiply_and_round_up tc mp) (\<lambda>tp'.
               if co_collateral c \<le> amount tp' then Inr (co_debt c) else check (amount tp') (amount tc))))
         else
           bindE (safe_add to_cover (sint d2)) (\<lambda>tc.
           if co_debt c \<le> tc then Inr (co_debt c)
           else
             bindE (multiply_and_round_up (mk_asset tc (debt_type c)) mp) (\<lambda>tp.
             if co_collateral c \<le> amount tp then Inr (co_debt c)
             else
               bindE (asset_mul tp mp) (\<lambda>tc'.
               if co_debt c \<le> amount tc' then Inr (co_debt c) else check (amount tp) (amount tc')))))"

text \<open>The search from an estimate \<open>(to_pay, to_cover)\<close> that is too small; \<open>q\<close> is the bound with the fraction.\<close>

definition cover_search :: "call_order \<Rightarrow> int \<Rightarrow> price \<Rightarrow> price \<Rightarrow> int \<Rightarrow> asset \<Rightarrow> asset \<Rightarrow> share result" where
  "cover_search c tcr mp fp q to_pay to_cover =
     (let to_cover_amt = (if co_debt c \<le> q then co_debt c else q)
      in bindE (if to_cover_amt = co_debt c then Inr (get_collateral c)
                else multiply_and_round_up (mk_asset to_cover_amt (debt_type c)) mp) (\<lambda>p0.
         let max_to_pay0 = mk_asset (if co_collateral c < amount p0 then co_collateral c else amount p0) (asset_id p0)
         in bindE (if amount max_to_pay0 = co_collateral c then Inr (get_debt c) else asset_mul max_to_pay0 mp) (\<lambda>c0.
            let max_to_pay = (if co_debt c \<le> amount c0 then mk_asset (co_collateral c) (asset_id p0) else max_to_pay0);
                max_to_cover = (if co_debt c \<le> amount c0 then mk_asset (co_debt c) (asset_id c0) else c0)
            in bindE (asset_le max_to_pay to_pay) (\<lambda>le1.
               bindE (if le1 then Inr True else asset_le max_to_cover to_cover) (\<lambda>le.
               if le then Inr (co_debt c)
               else
                 bindE (bisect c tcr mp fp (amount to_pay, amount to_cover) (amount max_to_pay, amount max_to_cover) False)
                   (\<lambda>r. case r of
                      Found x \<Rightarrow> Inr x
                    | Forward tp tc \<Rightarrow> forward_search 128 c tcr mp fp 1 1 tp tc))))))"

definition get_max_debt_to_cover :: "call_order \<Rightarrow> price \<Rightarrow> price \<Rightarrow> int \<Rightarrow> share result" where
  "get_max_debt_to_cover c match_price feed_price mcr =
     (let cp = co_call_price c;
          fp = (if asset_id (base feed_price) \<noteq> asset_id (base cp) then price_inv feed_price else feed_price)
      in assertE (asset_id (base fp) = asset_id (base cp) \<and> asset_id (quote fp) = asset_id (quote cp))
        (if price_gt cp fp then Inr 0
         else
           (case co_target_collateral_ratio c of
              None \<Rightarrow> Inr (co_debt c)
            | Some t \<Rightarrow>
                let tcr = max (int t) mcr;
                    mp = (if asset_id (base match_price) \<noteq> asset_id (base cp) then price_inv match_price else match_price)
                in assertE (asset_id (base mp) = asset_id (base cp) \<and> asset_id (quote mp) = asset_id (quote cp))
                  (let mp_debt = amount (quote mp); mp_coll = amount (base mp);
                       fp_debt = amount (quote fp); fp_coll = amount (base fp);
                       numerator = fp_coll * mp_debt * co_debt c * tcr
                                     - fp_debt * mp_debt * co_collateral c * COLLATERAL_RATIO_DENOM;
                       denominator = fp_coll * mp_debt * tcr - fp_debt * mp_coll * COLLATERAL_RATIO_DENOM
                   in if numerator < 0 then Inr 0
                      else if denominator \<le> 0 then Inr (co_debt c)
                      else if co_debt c \<le> numerator div denominator then Inr (co_debt c)
                      else
                        bindE (asset_mul (mk_asset (numerator div denominator) (debt_type c)) mp) (\<lambda>p0.
                        bindE (asset_mul p0 mp) (\<lambda>to_cover.
                        bindE (multiply_and_round_up to_cover mp) (\<lambda>to_pay.
                        if co_debt c \<le> amount to_cover \<or> co_collateral c \<le> amount to_pay then Inr (co_debt c)
                        else
                          bindE (cover_ok c tcr fp (amount to_cover) (amount to_pay)) (\<lambda>good.
                          if good then Inr (amount to_cover)
                          else cover_search c tcr mp fp
                                 ((numerator + fp_coll * mp_debt * tcr) div denominator + 1) to_pay to_cover))))))))"

subsection \<open>Bounds\<close>

lemma asset_mul_nonneg: "asset_mul a p = Inr b \<Longrightarrow> 0 \<le> amount b"
  by (auto simp: asset_mul_def Let_def assertE_eq_Inr split: if_splits)

lemma round_up_nonneg: "multiply_and_round_up a p = Inr b \<Longrightarrow> 0 \<le> amount b"
  by (auto simp: multiply_and_round_up_def Let_def assertE_eq_Inr split: if_splits)

text \<open>\<open>r\<close> is the whole debt or an amount that meets the target for some payment.\<close>

definition covers :: "call_order \<Rightarrow> int \<Rightarrow> price \<Rightarrow> share \<Rightarrow> bool" where
  "covers c tcr fp r \<longleftrightarrow> r = co_debt c \<or>
     (0 \<le> r \<and> r < co_debt c \<and> (\<exists>pay. pay < co_collateral c \<and> cover_ok c tcr fp r pay = Inr True))"

lemma bisect_mean_nonneg:
  assumes "bisect_mean c mp mn mx = Inr m" "0 \<le> snd mn" "0 \<le> snd mx" "0 \<le> fst mn" "0 \<le> fst mx"
  shows "0 \<le> fst m \<and> 0 \<le> snd m"
  using assms
  by (auto simp: bisect_mean_def bindE_eq_Inr assertE_eq_Inr safe_div_def
      dest: asset_mul_nonneg round_up_nonneg split: if_splits)

lemma bisect_mean_top: "bisect_mean c mp mn mx = Inr m \<Longrightarrow> fst m = fst mx \<Longrightarrow> m = mx"
  by (auto simp: bisect_mean_def bindE_eq_Inr assertE_eq_Inr split: if_splits)

lemma bisect_covers:
  assumes "bisect c tcr mp fp mn mx ok = Inr r"
    and "0 \<le> fst mn" "0 \<le> snd mn" "fst mn \<le> fst mx" "0 \<le> snd mx"
    and "fst mx \<le> co_collateral c" "snd mx \<le> co_debt c"
    and "fst mx = co_collateral c \<Longrightarrow> snd mx = co_debt c"
    and "ok \<Longrightarrow> fst mx < co_collateral c \<and> snd mx < co_debt c \<and> cover_ok c tcr fp (snd mx) (fst mx) = Inr True"
  shows "case r of Found x \<Rightarrow> covers c tcr fp x
    | Forward tp tc \<Rightarrow> 0 \<le> tp \<and> tp < co_collateral c \<and> 0 \<le> tc \<and> tc < co_debt c"
  using assms
proof (induction c tcr mp fp mn mx ok rule: bisect.induct)
  case (1 c tcr mp fp mn mx ok)
  from "1.prems"(1) obtain m0 where m0: "bisect_mean c mp mn mx = Inr m0"
    by (subst (asm) bisect.simps) (auto simp: bindE_eq_Inr)
  define m where "m = bisect_point mn mx m0"
  have step: "(if fst m = fst mx \<and> (ok \<or> fst m = co_collateral c) then Inr (Found (snd m))
        else
          assertE (fst m < co_collateral c \<and> snd m < co_debt c)
            (bindE (cover_ok c tcr fp (snd m) (fst m)) (\<lambda>good.
             if fst m = fst mx then Inr (if good then Found (snd m) else Forward (fst m) (snd m))
             else if good then bisect c tcr mp fp mn m True
             else bisect c tcr mp fp m mx ok))) = Inr r"
    using "1.prems"(1) m0 unfolding m_def by (subst (asm) bisect.simps) (simp only: Let_def bindE_simps)
  have m: "m = mx \<or> (fst mn < fst m \<and> snd mn < snd m \<and> fst m \<le> fst mx \<and> snd m \<le> snd mx)"
    by (auto simp: m_def bisect_point_def)
  then have b: "0 \<le> fst m" "0 \<le> snd m" "fst mn \<le> fst m" "fst m \<le> fst mx" "snd m \<le> snd mx"
    using "1.prems" by auto
  consider (max) "fst m = fst mx" "ok \<or> fst m = co_collateral c" "r = Found (snd m)"
    | (last) good where "fst m = fst mx" "fst m < co_collateral c" "snd m < co_debt c"
        "cover_ok c tcr fp (snd m) (fst m) = Inr good" "r = (if good then Found (snd m) else Forward (fst m) (snd m))"
    | (good) "fst m \<noteq> fst mx" "fst m < co_collateral c" "snd m < co_debt c"
        "cover_ok c tcr fp (snd m) (fst m) = Inr True" "bisect c tcr mp fp mn m True = Inr r"
    | (bad) "fst m \<noteq> fst mx" "fst m < co_collateral c" "snd m < co_debt c"
        "cover_ok c tcr fp (snd m) (fst m) = Inr False" "bisect c tcr mp fp m mx ok = Inr r"
    using step by (auto simp: assertE_eq_Inr bindE_eq_Inr split: if_splits)
  then show ?case
  proof cases
    case max
    then have "m = mx" using bisect_mean_top [OF m0] by (auto simp: m_def bisect_point_def split: if_splits)
    then show ?thesis using max "1.prems" by (auto simp: covers_def)
  next
    case last
    then show ?thesis using b by (auto simp: covers_def)
  next
    case good
    have "\<not> (fst m = fst mx \<and> (ok \<or> fst m = co_collateral c))" using good by simp
    from "1.IH"(1) [OF m0 m_def this _ good(4) good(1)] good b "1.prems"
    show ?thesis by simp
  next
    case bad
    have "\<not> (fst m = fst mx \<and> (ok \<or> fst m = co_collateral c))" using bad by simp
    from "1.IH"(2) [OF m0 m_def this _ bad(4) bad(1)] bad b "1.prems"
    show ?thesis by simp
  qed
qed


text \<open>The price of the position and the target ratio, as the function reads them.\<close>

definition feed_of :: "call_order \<Rightarrow> price \<Rightarrow> price" where
  "feed_of c feed_price =
     (if asset_id (base feed_price) \<noteq> asset_id (base (co_call_price c)) then price_inv feed_price else feed_price)"

subsection \<open>The fuel suffices\<close>

lemma not_fuel:
  "asset_mul a p \<noteq> Inl OutOfFuel" "multiply_and_round_up a p \<noteq> Inl OutOfFuel" "safe_add x y \<noteq> Inl OutOfFuel"
  "safe_sub x y \<noteq> Inl OutOfFuel" "safe_div x y \<noteq> Inl OutOfFuel" "asset_sub a b \<noteq> Inl OutOfFuel"
  "asset_less a b \<noteq> Inl OutOfFuel" "asset_le a b \<noteq> Inl OutOfFuel" "call_price a b r \<noteq> Inl OutOfFuel"
  by (auto simp: asset_mul_def multiply_and_round_up_def Let_def assertE_def safe_add_def safe_sub_def safe_div_def
      asset_sub_def bindE_eq_Inl asset_less_def asset_le_def call_price_def mk_rational_def asset_div_def split: if_splits)

lemma cover_ok_not_fuel: "cover_ok c tcr fp tc tp \<noteq> Inl OutOfFuel"
  by (simp add: cover_ok_def bindE_eq_Inl not_fuel)

lemma forward_step:
  assumes "forward_search (Suc n) c tcr mp fp d2 d3 tp tc = Inl OutOfFuel" "0 \<le> tp" "0 \<le> tc"
  shows "sint d2 < max (co_collateral c) (co_debt c) \<and>
    (\<exists>tp' tc'. 0 \<le> tp' \<and> 0 \<le> tc' \<and> forward_search n c tcr mp fp d3 (d2 + d3) tp' tc' = Inl OutOfFuel)"
  using assms
  by (auto simp: Let_def bindE_eq_Inl assertE_eq_Inl not_fuel cover_ok_not_fuel safe_add_Inr
      dest: asset_mul_nonneg round_up_nonneg split: if_splits)

lemma sint_add_51:
  fixes x y :: "64 word"
  assumes "0 \<le> sint x" "sint x < 2 ^ 51" "0 \<le> sint y" "sint y < 2 ^ 52"
  shows "sint (x + y) = sint x + sint y"
proof -
  have "sint x + sint y < 2 ^ 53"
  proof -
    have "(2::int) ^ 51 + 2 ^ 52 < 2 ^ 53" by simp
    then show ?thesis using assms by linarith
  qed
  moreover have "(2::int) ^ 53 < 2 ^ 63" by simp
  ultimately have "sint x + sint y < 2 ^ 63" by linarith
  moreover have "- (2 ^ 63) \<le> sint x + sint y" using assms by simp
  ultimately show ?thesis by (simp add: signed_take_bit_int_eq_self sint_word_ariths)
qed

lemma forward_search_fuel:
  assumes "co_collateral c \<le> sint d2 * 2 ^ m" "co_debt c \<le> sint d2 * 2 ^ m"
    and "co_collateral c < 2 ^ 50" "co_debt c < 2 ^ 50"
    and "0 < sint d2" "sint d2 \<le> sint d3" "sint d3 \<le> 2 * sint d2" "sint d3 < 2 ^ 52"
    and "0 \<le> tp" "0 \<le> tc" "2 * m < n"
  shows "forward_search n c tcr mp fp d2 d3 tp tc \<noteq> Inl OutOfFuel"
  using assms
proof (induction m arbitrary: n d2 d3 tp tc)
  case 0
  then obtain k where n: "n = Suc k" by (cases n) auto
  show ?case unfolding n
  proof
    assume "forward_search (Suc k) c tcr mp fp d2 d3 tp tc = Inl OutOfFuel"
    from forward_step [OF this "0.prems"(9,10)] "0.prems" show False by (auto simp: max_def split: if_splits)
  qed
next
  case (Suc m)
  then obtain k where n: "n = Suc (Suc k)" "2 * m < k" by (cases n; cases "n - 1") auto
  show ?case unfolding n
  proof
    assume r: "forward_search (Suc (Suc k)) c tcr mp fp d2 d3 tp tc = Inl OutOfFuel"
    from forward_step [OF r Suc.prems(9,10)] obtain tp1 tc1 where
      1: "sint d2 < 2 ^ 50" "0 \<le> tp1" "0 \<le> tc1" "forward_search (Suc k) c tcr mp fp d3 (d2 + d3) tp1 tc1 = Inl OutOfFuel"
      using Suc.prems(3,4) by (auto simp: max_def split: if_splits)
    from forward_step [OF 1(4,2,3)] obtain tp2 tc2 where
      2: "sint d3 < 2 ^ 50" "0 \<le> tp2" "0 \<le> tc2" "forward_search k c tcr mp fp (d2 + d3) (d3 + (d2 + d3)) tp2 tc2 = Inl OutOfFuel"
      using Suc.prems(3,4) by (auto simp: max_def split: if_splits)
    have p: "(2::int) ^ 50 < 2 ^ 51" "(2::int) ^ 50 + 2 ^ 50 = 2 ^ 51" "(2::int) ^ 51 < 2 ^ 52" "(2::int) ^ 50 + 2 ^ 51 < 2 ^ 52"
      by simp_all
    have s1: "sint (d2 + d3) = sint d2 + sint d3"
      by (rule sint_add_51) (use 1 2 Suc.prems p in linarith)+
    have s2: "sint (d3 + (d2 + d3)) = sint d3 + (sint d2 + sint d3)"
      unfolding s1 [symmetric] by (rule sint_add_51) (use 1 2 Suc.prems p s1 in linarith)+
    have "sint d2 * 2 ^ Suc m \<le> (sint d2 + sint d3) * 2 ^ m" using Suc.prems(6) by (simp add: distrib_right)
    then have c: "co_collateral c \<le> sint (d2 + d3) * 2 ^ m" "co_debt c \<le> sint (d2 + d3) * 2 ^ m"
      unfolding s1 using Suc.prems(1,2) by linarith+
    have "forward_search k c tcr mp fp (d2 + d3) (d3 + (d2 + d3)) tp2 tc2 \<noteq> Inl OutOfFuel"
    proof (rule Suc.IH [OF c])
      show "0 < sint (d2 + d3)" "sint (d2 + d3) \<le> sint (d3 + (d2 + d3))"
        "sint (d3 + (d2 + d3)) \<le> 2 * sint (d2 + d3)" "sint (d3 + (d2 + d3)) < 2 ^ 52"
        unfolding s1 s2 using Suc.prems(5,6) 1(1) 2(1) p(4) by simp_all
    qed (use Suc.prems 2 n(2) in linarith)+
    with 2(4) show False by simp
  qed
qed


lemma bisect_mean_not_fuel: "bisect_mean c mp mn mx \<noteq> Inl OutOfFuel"
  by (auto simp: bisect_mean_def bindE_eq_Inl assertE_eq_Inl not_fuel split: if_splits)

lemma bisect_not_fuel: "bisect c tcr mp fp mn mx ok \<noteq> Inl OutOfFuel"
proof (induction c tcr mp fp mn mx ok rule: bisect.induct)
  case (1 c tcr mp fp mn mx ok)
  show ?case
  proof
    assume "bisect c tcr mp fp mn mx ok = Inl OutOfFuel"
    then obtain m0 where m0: "bisect_mean c mp mn mx = Inr m0" and
      step: "(let m = bisect_point mn mx m0
     in if fst m = fst mx \<and> (ok \<or> fst m = co_collateral c) then Inr (Found (snd m))
        else
          assertE (fst m < co_collateral c \<and> snd m < co_debt c)
            (bindE (cover_ok c tcr fp (snd m) (fst m)) (\<lambda>good.
             if fst m = fst mx then Inr (if good then Found (snd m) else Forward (fst m) (snd m))
             else if good then bisect c tcr mp fp mn m True
             else bisect c tcr mp fp m mx ok))) = Inl OutOfFuel"
      by (subst (asm) bisect.simps) (auto simp: bindE_eq_Inl bisect_mean_not_fuel)
    define m where "m = bisect_point mn mx m0"
    note step = step [unfolded Let_def, folded m_def]
    from step have a: "\<not> (fst m = fst mx \<and> (ok \<or> fst m = co_collateral c))" by (auto split: if_splits)
    with step have b: "fst m < co_collateral c \<and> snd m < co_debt c" by (simp add: assertE_eq_Inl)
    obtain good where g: "cover_ok c tcr fp (snd m) (fst m) = Inr good" "fst m \<noteq> fst mx"
      "(if good then bisect c tcr mp fp mn m True else bisect c tcr mp fp m mx ok) = Inl OutOfFuel"
      using step a b by (auto simp: bindE_eq_Inl cover_ok_not_fuel split: if_splits)
    show False using g(3) "1.IH"(1) [OF m0 m_def a b g(1,2)] "1.IH"(2) [OF m0 m_def a b g(1,2)] by (cases good) auto
  qed
qed

lemma cover_search_not_fuel:
  assumes "0 \<le> amount to_pay" "0 \<le> amount to_cover" "amount to_cover < co_debt c" "amount to_pay < co_collateral c"
    and "co_collateral c \<le> MAX_SHARE_SUPPLY" "co_debt c \<le> MAX_SHARE_SUPPLY"
  shows "cover_search c tcr mp fp q to_pay to_cover \<noteq> Inl OutOfFuel"
proof
  assume r: "cover_search c tcr mp fp q to_pay to_cover = Inl OutOfFuel"
  define amt0 where "amt0 = (if co_debt c \<le> q then co_debt c else q)"
  obtain p0 where p0: "(if amt0 = co_debt c then Inr (get_collateral c)
                else multiply_and_round_up (mk_asset amt0 (debt_type c)) mp) = Inr p0"
    using r unfolding cover_search_def Let_def amt0_def [symmetric]
    by (auto simp: bindE_eq_Inl not_fuel split: if_splits)
  define mtp where "mtp = mk_asset (if co_collateral c < amount p0 then co_collateral c else amount p0) (asset_id p0)"
  obtain c0 where c0: "(if amount mtp = co_collateral c then Inr (get_debt c) else asset_mul mtp mp) = Inr c0"
    using r p0 unfolding cover_search_def Let_def amt0_def [symmetric]
    by (simp only: bindE_simps mtp_def [symmetric]) (auto simp: bindE_eq_Inl not_fuel split: if_splits)
  define mx where "mx = (if co_debt c \<le> amount c0 then (co_collateral c, co_debt c) else (amount mtp, amount c0))"
  obtain out where out: "bisect c tcr mp fp (amount to_pay, amount to_cover) mx False = Inr out" "amount to_pay < fst mx"
      "(case out of Found x \<Rightarrow> Inr x | Forward tp tc \<Rightarrow> forward_search 128 c tcr mp fp 1 1 tp tc) = Inl OutOfFuel"
    using r p0 c0 unfolding cover_search_def Let_def amt0_def [symmetric]
    by (simp only: bindE_simps mtp_def [symmetric])
      (auto simp: bindE_eq_Inl mx_def asset_cmp_Inr not_fuel bisect_not_fuel split: if_splits)
  have "amount mtp \<le> co_collateral c" by (simp add: mtp_def)
  then have "case out of Found x \<Rightarrow> covers c tcr fp x
    | Forward tp tc \<Rightarrow> 0 \<le> tp \<and> tp < co_collateral c \<and> 0 \<le> tc \<and> tc < co_debt c"
    using out(2) assms(1-4) c0
    by (intro bisect_covers [OF out(1)]) (auto simp: mx_def get_debt_def dest: asset_mul_nonneg split: if_splits)
  moreover obtain tp tc where o2: "out = Forward tp tc" "forward_search 128 c tcr mp fp 1 1 tp tc = Inl OutOfFuel"
    using out(3) by (cases out) auto
  ultimately have nn: "0 \<le> tp" "0 \<le> tc" by simp_all
  have M: "MAX_SHARE_SUPPLY < 2 ^ 50" by (simp add: MAX_SHARE_SUPPLY_def)
  have one: "sint (1 :: 64 word) = 1" by simp
  have "forward_search 128 c tcr mp fp 1 1 tp tc \<noteq> Inl OutOfFuel"
    by (rule forward_search_fuel [where m = 50]) (use assms(5,6) M nn in \<open>simp_all only: one\<close>, simp_all)
  then show False using o2(2) by simp
qed

lemma get_max_debt_to_cover_not_fuel:
  assumes "co_collateral c \<le> MAX_SHARE_SUPPLY" "co_debt c \<le> MAX_SHARE_SUPPLY"
  shows "get_max_debt_to_cover c match_price feed_price mcr \<noteq> Inl OutOfFuel"
proof
  assume r: "get_max_debt_to_cover c match_price feed_price mcr = Inl OutOfFuel"
  then obtain t where Some: "co_target_collateral_ratio c = Some t"
    by (auto simp: get_max_debt_to_cover_def Let_def assertE_eq_Inl split: if_splits option.splits)
  define fp where "fp = feed_of c feed_price"
  define mp where "mp = feed_of c match_price"
  from r Some obtain x p0 to_cover to_pay q where p: "asset_mul x mp = Inr p0" "asset_mul p0 mp = Inr to_cover"
      "multiply_and_round_up to_cover mp = Inr to_pay" "amount to_cover < co_debt c" "amount to_pay < co_collateral c"
      "cover_search c (max (int t) mcr) mp fp q to_pay to_cover = Inl OutOfFuel"
    unfolding get_max_debt_to_cover_def Let_def feed_of_def [symmetric] fp_def [symmetric] mp_def [symmetric]
    by (simp add: bindE_eq_Inl assertE_eq_Inl not_le not_fuel cover_ok_not_fuel split: if_splits) blast
  then show False
    using cover_search_not_fuel [OF round_up_nonneg [OF p(3)] asset_mul_nonneg [OF p(2)] p(4,5) assms] by simp
qed

end
