(* ===== verification/Debt_Cover_Correct.thy ===== *)
theory Debt_Cover_Correct
  imports Debt_Cover
begin

text \<open>
  What \<open>get_max_debt_to_cover\<close> finds.  At a price, a payment of collateral buys a whole amount of debt, and
  an amount of debt costs a whole payment; the two roundings form a Galois connection, whose fixed points
  are the \<open>trades\<close> that the code calls stable.  The estimate of the code is a trade, the bisection walks
  through trades, and so does the search forward.  \<open>debt_to_cover\<close> says which of them is returned.
\<close>

subsection \<open>Trades at a price\<close>

text \<open>What a payment of collateral buys (\<open>asset * price\<close>), and what an amount of debt costs
  (\<open>multiply_and_round_up\<close>).\<close>

definition bought :: "price \<Rightarrow> share \<Rightarrow> share" where
  "bought mp pay = pay * amount (quote mp) div amount (base mp)"

definition cost :: "price \<Rightarrow> share \<Rightarrow> share" where
  "cost mp d = ceil_div (d * amount (base mp)) (amount (quote mp))"

definition trade :: "price \<Rightarrow> share \<times> share \<Rightarrow> bool" where
  "trade mp x \<longleftrightarrow> 0 \<le> fst x \<and> 0 \<le> snd x \<and> snd x = bought mp (fst x) \<and> fst x = cost mp (snd x)"

lemma tradeD:
  assumes "trade mp x"
  shows "0 \<le> fst x" "0 \<le> snd x" "bought mp (fst x) = snd x" "cost mp (snd x) = fst x"
  using assms unfolding trade_def by metis+

text \<open>A trade that leaves the position some debt and some collateral, and one after which its collateral
  ratio is above the target.\<close>

definition within :: "call_order \<Rightarrow> share \<times> share \<Rightarrow> bool" where
  "within c x \<longleftrightarrow> fst x < co_collateral c \<and> snd x < co_debt c"

definition meets :: "call_order \<Rightarrow> int \<Rightarrow> price \<Rightarrow> share \<times> share \<Rightarrow> bool" where
  "meets c tcr fp x \<longleftrightarrow> cover_ok c tcr fp (snd x) (fst x) = Inr True"

text \<open>The positions and prices that are considered: the price is in terms of the collateral and the debt of
  the position, and at this price neither the whole debt nor what the whole collateral buys exceeds the
  maximal supply, so that no conversion throws.\<close>

definition coverable :: "call_order \<Rightarrow> price \<Rightarrow> bool" where
  "coverable c mp \<longleftrightarrow> valid_price mp \<and> asset_id (base mp) = collateral_type c \<and> asset_id (quote mp) = debt_type c \<and>
     0 < co_debt c \<and> co_debt c \<le> MAX_SHARE_SUPPLY \<and> 0 < co_collateral c \<and> co_collateral c \<le> MAX_SHARE_SUPPLY \<and>
     bought mp (co_collateral c) \<le> MAX_SHARE_SUPPLY \<and> cost mp (co_debt c) \<le> MAX_SHARE_SUPPLY"

lemma coverableD:
  assumes "coverable c mp"
  shows "valid_price mp" "asset_id (base mp) = collateral_type c" "asset_id (quote mp) = debt_type c"
    "0 < co_debt c" "co_debt c \<le> MAX_SHARE_SUPPLY" "0 < co_collateral c" "co_collateral c \<le> MAX_SHARE_SUPPLY"
    "bought mp (co_collateral c) \<le> MAX_SHARE_SUPPLY" "cost mp (co_debt c) \<le> MAX_SHARE_SUPPLY"
    "0 < amount (base mp)" "0 < amount (quote mp)" "debt_type c \<noteq> collateral_type c"
  using assms by (auto simp: coverable_def valid_price_def)

lemma cost_le_iff:
  assumes "valid_price mp"
  shows "cost mp d \<le> p \<longleftrightarrow> d \<le> bought mp p"
proof -
  have pos: "0 < amount (base mp)" "0 < amount (quote mp)" using assms by (simp_all add: valid_price_def)
  have "cost mp d \<le> p \<longleftrightarrow> d * amount (base mp) \<le> p * amount (quote mp)"
    unfolding cost_def by (rule ceil_div_le_iff [OF pos(2)])
  also have "\<dots> \<longleftrightarrow> d \<le> bought mp p" unfolding bought_def using le_div_iff_mult_le [OF pos(1)] by simp
  finally show ?thesis .
qed

lemma bought_nonneg: "valid_price mp \<Longrightarrow> 0 \<le> p \<Longrightarrow> 0 \<le> bought mp p"
  by (simp add: bought_def valid_price_def pos_imp_zdiv_nonneg_iff)

lemma cost_nonneg: "valid_price mp \<Longrightarrow> 0 \<le> d \<Longrightarrow> 0 \<le> cost mp d"
  by (simp add: cost_def valid_price_def ceil_div_nonneg)

lemma bought_mono: "valid_price mp \<Longrightarrow> p \<le> p' \<Longrightarrow> bought mp p \<le> bought mp p'"
  using cost_le_iff [of mp "bought mp p" p] cost_le_iff [of mp "bought mp p" p'] by simp

lemma cost_mono: "valid_price mp \<Longrightarrow> d \<le> d' \<Longrightarrow> cost mp d \<le> cost mp d'"
  using cost_le_iff [of mp d' "cost mp d'"] cost_le_iff [of mp d "cost mp d'"] by simp

lemma cost_bought: "valid_price mp \<Longrightarrow> cost mp (bought mp p) \<le> p"
  by (simp add: cost_le_iff)

lemma bought_cost: "valid_price mp \<Longrightarrow> d \<le> bought mp (cost mp d)"
  by (simp flip: cost_le_iff)

text \<open>Both roundings applied twice are stable.\<close>

lemma trade_of_pay: "valid_price mp \<Longrightarrow> 0 \<le> p \<Longrightarrow> trade mp (cost mp (bought mp p), bought mp p)"
  unfolding trade_def fst_conv snd_conv
  using bought_mono [OF _ cost_bought, of mp mp p] bought_cost [of mp "bought mp p"]
  by (auto simp: bought_nonneg cost_nonneg intro: order_antisym)

lemma trade_of_debt: "valid_price mp \<Longrightarrow> 0 \<le> d \<Longrightarrow> trade mp (cost mp d, bought mp (cost mp d))"
  unfolding trade_def fst_conv snd_conv
  using cost_mono [OF _ bought_cost, of mp mp d] cost_bought [of mp "cost mp d"]
  by (auto simp: bought_nonneg cost_nonneg intro: order_antisym)

text \<open>Trades are ordered: more debt means more payment.\<close>

lemma trade_less:
  assumes "valid_price mp" "trade mp x" "trade mp y"
  shows "fst x < fst y \<longleftrightarrow> snd x < snd y"
proof -
  have "fst y \<le> fst x \<longleftrightarrow> snd y \<le> snd x"
  proof
    assume "fst y \<le> fst x"
    then show "snd y \<le> snd x" using bought_mono [OF assms(1), of "fst y" "fst x"] by (simp add: tradeD [OF assms(2)] tradeD [OF assms(3)])
  next
    assume "snd y \<le> snd x"
    then show "fst y \<le> fst x" using cost_mono [OF assms(1), of "snd y" "snd x"] by (simp add: tradeD [OF assms(2)] tradeD [OF assms(3)])
  qed
  then show ?thesis by linarith
qed

text \<open>When debt is the coarser side every payment is a trade; when collateral is, every amount of debt.\<close>

lemma every_pay:
  assumes "valid_price mp" "amount (base mp) \<le> amount (quote mp)"
  shows "cost mp (bought mp p) = p"
proof (rule order_antisym [OF cost_bought [OF assms(1)]])
  have b: "0 < amount (base mp)" using assms(1) by (simp add: valid_price_def)
  have "(p - 1) * amount (quote mp) \<le> p * amount (quote mp) - amount (base mp)"
    using assms(2) by (simp add: algebra_simps)
  then have "bought mp (p - 1) \<le> (p * amount (quote mp) + (- 1) * amount (base mp)) div amount (base mp)"
    unfolding bought_def using b by (intro zdiv_mono1) simp_all
  also have "\<dots> = bought mp p - 1" unfolding bought_def using b by (subst div_mult_self1) simp_all
  finally have "\<not> bought mp p \<le> bought mp (p - 1)" by simp
  then show "p \<le> cost mp (bought mp p)" using cost_le_iff [OF assms(1), of "bought mp p" "p - 1"] by simp
qed

lemma every_debt:
  assumes "valid_price mp" "amount (quote mp) \<le> amount (base mp)"
  shows "bought mp (cost mp d) = d"
proof (rule order_antisym [OF _ bought_cost [OF assms(1)]])
  have q: "0 < amount (quote mp)" using assms(1) by (simp add: valid_price_def)
  have "d * amount (base mp) \<le> cost mp d * amount (quote mp)" unfolding cost_def by (rule ceil_div_ge [OF q])
  moreover have "cost mp d * amount (quote mp) < d * amount (base mp) + amount (quote mp)"
    unfolding cost_def ceil_div_def using floor_div_bounds(1) [OF q, of "d * amount (base mp) + amount (quote mp) - 1"]
    by simp
  ultimately have "cost mp d * amount (quote mp) < (d + 1) * amount (base mp)" using assms(2) by (simp add: distrib_right)
  then have "bought mp (cost mp d) < d + 1"
    unfolding bought_def using div_less_iff [of "amount (base mp)" _ "d + 1"] assms(1) by (simp add: valid_price_def)
  then show "bought mp (cost mp d) \<le> d" by simp
qed

subsection \<open>The conversions of the code\<close>

lemma pay_buys_supply:
  assumes "coverable c mp" "0 \<le> p" "p \<le> MAX_SHARE_SUPPLY" "bought mp p \<le> MAX_SHARE_SUPPLY"
  shows "asset_mul (mk_asset p (collateral_type c)) mp = Inr (mk_asset (bought mp p) (debt_type c))"
proof -
  note c = coverableD [OF assms(1)]
  have "p \<le> safe_max" using assms(3) by (simp add: MAX_SHARE_SUPPLY_def safe_max_def)
  then show ?thesis using assms(2,4) c(1-3)
    by (subst asset_mul_base) (simp_all add: share_ok_def bought_def checked_supply_Inr)
qed

lemma pay_buys:
  assumes "coverable c mp" "0 \<le> p" "p \<le> co_collateral c"
  shows "asset_mul (mk_asset p (collateral_type c)) mp = Inr (mk_asset (bought mp p) (debt_type c))"
proof -
  note c = coverableD [OF assms(1)]
  have "bought mp p \<le> MAX_SHARE_SUPPLY" using bought_mono [OF c(1) assms(3)] c(8) by simp
  with assms c(7) show ?thesis by (intro pay_buys_supply) simp_all
qed

lemma debt_costs:
  assumes "coverable c mp" "0 \<le> d" "d \<le> co_debt c"
  shows "multiply_and_round_up (mk_asset d (debt_type c)) mp = Inr (mk_asset (cost mp d) (collateral_type c))"
proof -
  note c = coverableD [OF assms(1)]
  have "d \<le> safe_max" using assms(3) c(5) by (simp add: MAX_SHARE_SUPPLY_def safe_max_def)
  moreover have "cost mp d \<le> MAX_SHARE_SUPPLY" using cost_mono [OF c(1) assms(3)] c(9) by simp
  ultimately show ?thesis using assms(2) c(1-3)
    by (subst round_up_quote) (simp_all add: share_ok_def cost_def checked_supply_Inr)
qed

text \<open>The first conversion of the estimate rounds the payment down.\<close>

lemma debt_pays:
  assumes "coverable c mp" "0 \<le> d" "d \<le> co_debt c"
  shows "asset_mul (mk_asset d (debt_type c)) mp =
    Inr (mk_asset (d * amount (base mp) div amount (quote mp)) (collateral_type c))"
proof -
  note c = coverableD [OF assms(1)]
  have "d \<le> safe_max" using assms(3) c(5) by (simp add: MAX_SHARE_SUPPLY_def safe_max_def)
  moreover have "d * amount (base mp) div amount (quote mp) \<le> MAX_SHARE_SUPPLY"
    using cost_mono [OF c(1) assms(3)] c(9) c(10,11) assms(2) ceil_floor_div(1) [of "amount (quote mp)" "d * amount (base mp)"]
    by (simp add: cost_def)
  ultimately show ?thesis using assms(2) c(1-3)
    by (subst asset_mul_quote) (simp_all add: share_ok_def checked_supply_Inr)
qed

lemma cover_ok_decides:
  assumes "coverable c mp" "within c x" "0 \<le> fst x" "0 \<le> snd x"
  shows "cover_ok c tcr fp (snd x) (fst x) = Inr (meets c tcr fp x)"
proof -
  note c = coverableD [OF assms(1)]
  have "\<not> co_collateral c < safe_min + fst x" "\<not> co_debt c < safe_min + snd x"
    using assms(2) safe_bounds(3) unfolding within_def by linarith+
  then have "is_ok (cover_ok c tcr fp (snd x) (fst x))"
    using assms(2-4) c(4-7,12)
    by (simp add: cover_ok_def is_ok_bindE asset_sub_def get_debt_def get_collateral_def safe_sub_def call_price_def
        mk_rational_def asset_div_def within_def COLLATERAL_RATIO_DENOM_def MAX_SHARE_SUPPLY_def safe_max_def Let_def)
  then show ?thesis by (auto simp: is_ok_iff meets_def)
qed

subsection \<open>The bisection\<close>

text \<open>The middle between a trade and the whole position.\<close>

definition middle :: "call_order \<Rightarrow> price \<Rightarrow> share \<times> share \<Rightarrow> share \<times> share" where
  "middle c mp x =
     (if amount (base mp) < amount (quote mp)
      then ((fst x + co_collateral c + 1) div 2, bought mp ((fst x + co_collateral c + 1) div 2))
      else (cost mp ((snd x + co_debt c) div 2), (snd x + co_debt c) div 2))"

text \<open>No trade lies between two trades.\<close>

definition next_trade :: "price \<Rightarrow> share \<times> share \<Rightarrow> share \<times> share \<Rightarrow> bool" where
  "next_trade mp x y \<longleftrightarrow> trade mp x \<and> trade mp y \<and> snd x < snd y \<and> (\<forall>z. trade mp z \<and> snd x < snd z \<longrightarrow> snd y \<le> snd z)"

lemma next_trade_pay:
  assumes "valid_price mp" "trade mp x" "trade mp y" "fst y = fst x + 1"
  shows "next_trade mp x y"
  unfolding next_trade_def
proof (intro conjI allI impI)
  show "snd x < snd y" using trade_less [OF assms(1-3)] assms(4) by simp
  fix z
  assume z: "trade mp z \<and> snd x < snd z"
  then have "fst x < fst z" using trade_less [OF assms(1,2), of z] by blast
  then have "\<not> fst z < fst y" using assms(4) by linarith
  then show "snd y \<le> snd z" using trade_less [OF assms(1) _ assms(3), of z] z by (simp add: not_less)
qed (use assms in simp_all)

lemma next_trade_debt: "trade mp x \<Longrightarrow> trade mp y \<Longrightarrow> snd y = snd x + 1 \<Longrightarrow> next_trade mp x y"
  by (simp add: next_trade_def)

lemma safe_add_exact: "safe_min \<le> x + y \<Longrightarrow> x + y \<le> safe_max \<Longrightarrow> safe_add x y = Inr (x + y)"
  by (simp add: safe_add_Inr)

lemma safe_div_2: "0 \<le> x \<Longrightarrow> safe_div x 2 = Inr (x div 2)"
  by (simp add: safe_div_def sdiv_pos_pos)

text \<open>An end of the interval: the whole position, or a trade within it.\<close>

definition upper_end :: "call_order \<Rightarrow> price \<Rightarrow> share \<times> share \<Rightarrow> bool" where
  "upper_end c mp x \<longleftrightarrow> x = (co_collateral c, co_debt c) \<or> trade mp x \<and> within c x"

lemma upper_endD:
  assumes "upper_end c mp x"
  shows "within c x \<Longrightarrow> trade mp x" "\<not> within c x \<Longrightarrow> x = (co_collateral c, co_debt c)"
    "fst x \<le> co_collateral c" "snd x \<le> co_debt c"
  using assms by (auto simp: upper_end_def within_def)

lemma bisect_mean_pays:
  assumes c: "coverable c mp" and r: "amount (base mp) < amount (quote mp)"
    and mn: "trade mp mn" and mx: "upper_end c mp mx" and lt: "fst mn < fst mx" "snd mn < snd mx"
  shows "\<exists>m0. bisect_mean c mp mn mx = Inr m0 \<and>
    (m0 = mx \<and> (within c mx \<longrightarrow> next_trade mp mn mx) \<and> (\<not> within c mx \<longrightarrow> \<not> within c (middle c mp mn)) \<or>
     trade mp m0 \<and> fst mn < fst m0 \<and> fst m0 < fst mx \<and> snd mn < snd m0 \<and> snd m0 < snd mx)"
proof -
  note v = coverableD [OF c] and t = tradeD [OF mn]
  define p where "p = (fst mn + fst mx + 1) div 2"
  have up: "fst mx \<le> co_collateral c" "snd mx \<le> co_debt c" using mx by (auto simp: upper_end_def within_def)
  have p: "fst mn < p" "p \<le> fst mx" "0 \<le> p" using lt t(1) by (simp_all add: p_def)
  have mid: "middle c mp mn = (p, bought mp p)" if "\<not> within c mx"
    using mx that r by (auto simp: upper_end_def middle_def p_def)
  have "fst mn + fst mx + 1 \<le> safe_max" using up(1) lt(1) v(7) by (simp add: MAX_SHARE_SUPPLY_def safe_max_def)
  then have m: "bisect_mean c mp mn mx =
      (if p = fst mx then Inr (p, snd mx)
       else
         bindE (asset_mul (mk_asset p (collateral_type c)) mp) (\<lambda>to_cover.
         if snd mx \<le> amount to_cover then Inr mx
         else
           bindE (multiply_and_round_up to_cover mp) (\<lambda>to_pay'.
           assertE (amount to_pay' < fst mx) (Inr (amount to_pay', amount to_cover)))))"
    using r t(1) lt(1) safe_bounds
    by (simp add: bisect_mean_def safe_add_exact safe_div_2 p_def del: safe_bounds)
  show ?thesis
  proof (cases "p = fst mx")
    case True
    then have "fst mx = fst mn + 1" using p_def lt(1) by linarith
    then have "next_trade mp mn mx" if "within c mx"
      using next_trade_pay [OF v(1) mn upper_endD(1) [OF mx that]] by simp
    moreover have "\<not> within c (middle c mp mn)" if "\<not> within c mx"
      using mid [OF that] that mx True by (auto simp: upper_end_def within_def)
    ultimately show ?thesis using m True by (cases mx) simp
  next
    case False
    then have lt': "p < fst mx" using p(2) by simp
    have b: "asset_mul (mk_asset p (collateral_type c)) mp = Inr (mk_asset (bought mp p) (debt_type c))"
      using pay_buys [OF c p(3)] lt' up(1) by simp
    have tr: "trade mp (p, bought mp p)" using trade_of_pay [OF v(1) p(3)] every_pay [OF v(1), of p] r by simp
    have gt: "snd mn < bought mp p" using trade_less [OF v(1) mn tr] p(1) by simp
    show ?thesis
    proof (cases "snd mx \<le> bought mp p")
      case True
      have "\<not> within c mx" using trade_less [OF v(1) tr upper_endD(1) [OF mx]] lt' True by auto
      moreover have "\<not> within c (middle c mp mn)"
        using mid [OF calculation] mx calculation True by (auto simp: upper_end_def within_def)
      ultimately show ?thesis using m False b True by simp
    next
      case False
      have "multiply_and_round_up (mk_asset (bought mp p) (debt_type c)) mp = Inr (mk_asset p (collateral_type c))"
        using debt_costs [OF c, of "bought mp p"] False up(2) every_pay [OF v(1), of p] r bought_nonneg [OF v(1) p(3)] by simp
      then show ?thesis using m \<open>p \<noteq> fst mx\<close> b False lt' tr p(1) gt by simp
    qed
  qed
qed

lemma bisect_mean_debts:
  assumes c: "coverable c mp" and r: "\<not> amount (base mp) < amount (quote mp)"
    and mn: "trade mp mn" and mx: "upper_end c mp mx" and lt: "fst mn < fst mx" "snd mn < snd mx"
  shows "\<exists>m0. bisect_mean c mp mn mx = Inr m0 \<and>
    ((m0 = mx \<or> snd m0 \<le> snd mn) \<and> (within c mx \<longrightarrow> next_trade mp mn mx) \<and>
       (\<not> within c mx \<longrightarrow> \<not> within c (middle c mp mn) \<or> snd (middle c mp mn) \<le> snd mn) \<or>
     trade mp m0 \<and> fst mn < fst m0 \<and> fst m0 < fst mx \<and> snd mn < snd m0 \<and> snd m0 < snd mx)"
proof -
  note v = coverableD [OF c] and t = tradeD [OF mn]
  define d where "d = (snd mn + snd mx) div 2"
  have up: "fst mx \<le> co_collateral c" "snd mx \<le> co_debt c" using mx by (auto simp: upper_end_def within_def)
  have d: "snd mn \<le> d" "d < snd mx" "0 \<le> d" using lt t(2) by (simp_all add: d_def)
  have mid: "middle c mp mn = (cost mp d, d)" if "\<not> within c mx"
    using mx that r by (auto simp: upper_end_def middle_def d_def)
  have "snd mn + snd mx \<le> safe_max" using up(2) lt(2) v(5) by (simp add: MAX_SHARE_SUPPLY_def safe_max_def)
  then have m: "bisect_mean c mp mn mx =
      bindE (multiply_and_round_up (mk_asset d (debt_type c)) mp) (\<lambda>to_pay.
      if fst mx \<le> amount to_pay then Inr mx
      else
        bindE (asset_mul to_pay mp) (\<lambda>to_cover'.
        if snd mx \<le> amount to_cover' then Inr mx else Inr (amount to_pay, amount to_cover')))"
    using r t(2) lt(2) d(2) safe_bounds
    by (simp add: bisect_mean_def safe_add_exact safe_div_2 d_def del: safe_bounds)
  have b: "multiply_and_round_up (mk_asset d (debt_type c)) mp = Inr (mk_asset (cost mp d) (collateral_type c))"
    using debt_costs [OF c d(3)] d(2) up(2) by simp
  have tr: "trade mp (cost mp d, d)" using trade_of_debt [OF v(1) d(3)] every_debt [OF v(1), of d] r by simp
  show ?thesis
  proof (cases "fst mx \<le> cost mp d")
    case True
    have "\<not> within c mx" using trade_less [OF v(1) tr upper_endD(1) [OF mx]] d(2) True by auto
    moreover have "\<not> within c (middle c mp mn)"
      using mid [OF calculation] mx calculation True by (auto simp: upper_end_def within_def)
    ultimately show ?thesis using m b True by simp
  next
    case False
    have "asset_mul (mk_asset (cost mp d) (collateral_type c)) mp = Inr (mk_asset d (debt_type c))"
      using pay_buys [OF c, of "cost mp d"] False up(1) every_debt [OF v(1), of d] r cost_nonneg [OF v(1) d(3)] by simp
    then have e: "bisect_mean c mp mn mx = Inr (cost mp d, d)" using m b False d(2) by simp
    show ?thesis
    proof (cases "d = snd mn")
      case True
      then have "snd mx = snd mn + 1" using d_def lt(2) by linarith
      then have "next_trade mp mn mx" if "within c mx"
        using next_trade_debt [OF mn upper_endD(1) [OF mx that]] by simp
      then show ?thesis using e True mid by simp
    next
      case False
      then have "snd mn < d" using d(1) by simp
      then show ?thesis using e tr trade_less [OF v(1) mn tr] \<open>\<not> fst mx \<le> cost mp d\<close> d(2) by simp
    qed
  qed
qed

text \<open>Both kinds of step: the code is left with the upper end, or moves strictly inside.\<close>

lemma bisect_mean_step:
  assumes c: "coverable c mp" and mn: "trade mp mn" and mx: "upper_end c mp mx" and lt: "fst mn < fst mx" "snd mn < snd mx"
  shows "\<exists>m0. bisect_mean c mp mn mx = Inr m0 \<and>
    (bisect_point mn mx m0 = mx \<and> (within c mx \<longrightarrow> next_trade mp mn mx) \<and>
       (\<not> within c mx \<longrightarrow> \<not> within c (middle c mp mn) \<or> snd (middle c mp mn) \<le> snd mn) \<or>
     bisect_point mn mx m0 = m0 \<and> trade mp m0 \<and>
       fst mn < fst m0 \<and> fst m0 < fst mx \<and> snd mn < snd m0 \<and> snd m0 < snd mx)"
proof -
  let ?stop = "(within c mx \<longrightarrow> next_trade mp mn mx) \<and>
       (\<not> within c mx \<longrightarrow> \<not> within c (middle c mp mn) \<or> snd (middle c mp mn) \<le> snd mn)"
  let ?inside = "\<lambda>m0. trade mp m0 \<and> fst mn < fst m0 \<and> fst m0 < fst mx \<and> snd mn < snd m0 \<and> snd m0 < snd mx"
  obtain m0 where m0: "bisect_mean c mp mn mx = Inr m0" "((m0 = mx \<or> snd m0 \<le> snd mn) \<and> ?stop) \<or> ?inside m0"
    using bisect_mean_pays [OF c _ mn mx lt] bisect_mean_debts [OF c _ mn mx lt] by blast
  from m0(2) have "bisect_point mn mx m0 = mx \<and> ?stop \<or> bisect_point mn mx m0 = m0 \<and> ?inside m0"
  proof
    assume "(m0 = mx \<or> snd m0 \<le> snd mn) \<and> ?stop"
    moreover from this have "bisect_point mn mx m0 = mx" by (auto simp: bisect_point_def)
    ultimately show ?thesis by blast
  next
    assume i: "?inside m0"
    then have "bisect_point mn mx m0 = m0" by (simp add: bisect_point_def)
    with i show ?thesis by blast
  qed
  then show ?thesis using m0(1) by blast
qed

text \<open>What the bisection returns: an amount after which the next smaller trade misses the target, unless the
  interval reaches to the whole position and nothing is left between; or it is left with the upper end,
  which misses the target.\<close>

definition first_good :: "call_order \<Rightarrow> int \<Rightarrow> price \<Rightarrow> price \<Rightarrow> share \<Rightarrow> share \<Rightarrow> bool" where
  "first_good c tcr mp fp low r \<longleftrightarrow> (\<exists>x y. next_trade mp x y \<and> low \<le> snd x \<and> \<not> meets c tcr fp x \<and>
     within c y \<and> meets c tcr fp y \<and> r = snd y)"

definition nothing_between :: "call_order \<Rightarrow> int \<Rightarrow> price \<Rightarrow> price \<Rightarrow> share \<Rightarrow> bool" where
  "nothing_between c tcr mp fp low \<longleftrightarrow> (\<exists>x. trade mp x \<and> within c x \<and> low \<le> snd x \<and> \<not> meets c tcr fp x \<and>
     (\<not> within c (middle c mp x) \<or> snd (middle c mp x) \<le> snd x))"

lemma bisect_returns:
  assumes "coverable c mp" "trade mp mn" "within c mn" "\<not> meets c tcr fp mn" "upper_end c mp mx"
    and "fst mn < fst mx" "snd mn < snd mx" "ok \<Longrightarrow> within c mx \<and> meets c tcr fp mx"
  shows "\<exists>out. bisect c tcr mp fp mn mx ok = Inr out \<and>
    (case out of
       Found r \<Rightarrow> r \<le> snd mx \<and> (first_good c tcr mp fp (snd mn) r \<or>
         (\<not> within c mx \<and> r = co_debt c \<and> nothing_between c tcr mp fp (snd mn)))
     | Forward tp tc \<Rightarrow> \<not> ok \<and> (tp, tc) = mx \<and> within c mx \<and> \<not> meets c tcr fp mx)"
  using assms
proof (induction c tcr mp fp mn mx ok rule: bisect.induct)
  case (1 c tcr mp fp mn mx ok)
  note c = "1.prems"(1) and mn = "1.prems"(2-4) and mx = "1.prems"(5) and lt = "1.prems"(6,7) and ok = "1.prems"(8)
  note up = upper_endD [OF mx]
  obtain m0 where m0: "bisect_mean c mp mn mx = Inr m0"
    and cs: "(bisect_point mn mx m0 = mx \<and> (within c mx \<longrightarrow> next_trade mp mn mx) \<and>
       (\<not> within c mx \<longrightarrow> \<not> within c (middle c mp mn) \<or> snd (middle c mp mn) \<le> snd mn)) \<or>
     (bisect_point mn mx m0 = m0 \<and> trade mp m0 \<and>
       fst mn < fst m0 \<and> fst m0 < fst mx \<and> snd mn < snd m0 \<and> snd m0 < snd mx)"
    using bisect_mean_step [OF c mn(1) mx lt] by blast
  have unfold: "bisect c tcr mp fp mn mx ok = (let m = bisect_point mn mx m0
     in if fst m = fst mx \<and> (ok \<or> fst m = co_collateral c) then Inr (Found (snd m))
        else
          assertE (fst m < co_collateral c \<and> snd m < co_debt c)
            (bindE (cover_ok c tcr fp (snd m) (fst m)) (\<lambda>good.
             if fst m = fst mx then Inr (if good then Found (snd m) else Forward (fst m) (snd m))
             else if good then bisect c tcr mp fp mn m True
             else bisect c tcr mp fp m mx ok)))"
    by (subst bisect.simps) (simp add: m0)
  from cs show ?case
  proof (elim disjE conjE)
    assume top: "bisect_point mn mx m0 = mx" and n: "within c mx \<longrightarrow> next_trade mp mn mx"
      and z: "\<not> within c mx \<longrightarrow> \<not> within c (middle c mp mn) \<or> snd (middle c mp mn) \<le> snd mn"
    show ?thesis
    proof (cases "within c mx")
      case True
      then have nt: "next_trade mp mn mx" using n by blast
      have "cover_ok c tcr fp (snd mx) (fst mx) = Inr (meets c tcr fp mx)"
        using cover_ok_decides [OF c True] tradeD(1,2) [OF up(1) [OF True]] by blast
      then have "bisect c tcr mp fp mn mx ok = Inr (if meets c tcr fp mx then Found (snd mx) else Forward (fst mx) (snd mx))"
        using unfold top True ok by (auto simp: Let_def within_def)
      moreover have "first_good c tcr mp fp (snd mn) (snd mx)" if "meets c tcr fp mx"
        using nt that mn(3) True unfolding first_good_def by blast
      ultimately show ?thesis using True ok by auto
    next
      case False
      then have w: "mx = (co_collateral c, co_debt c)" by (rule up(2))
      have "nothing_between c tcr mp fp (snd mn)" using z False mn unfolding nothing_between_def by blast
      moreover have "bisect c tcr mp fp mn mx ok = Inr (Found (co_debt c))"
        using unfold top w by (simp add: Let_def)
      ultimately show ?thesis using False w by simp
    qed
  next
    assume m: "bisect_point mn mx m0 = m0" "trade mp m0"
      and i: "fst mn < fst m0" "fst m0 < fst mx" "snd mn < snd m0" "snd m0 < snd mx"
    have w: "within c m0" using i(2,4) up(3,4) by (simp add: within_def)
    have g: "cover_ok c tcr fp (snd m0) (fst m0) = Inr (meets c tcr fp m0)"
      using cover_ok_decides [OF c w] tradeD(1,2) [OF m(2)] by blast
    have e: "bisect c tcr mp fp mn mx ok =
        (if meets c tcr fp m0 then bisect c tcr mp fp mn m0 True else bisect c tcr mp fp m0 mx ok)"
      using unfold m(1) w g i(2) by (simp add: Let_def within_def)
    have side: "\<not> (fst m0 = fst mx \<and> (ok \<or> fst m0 = co_collateral c))" "fst m0 < co_collateral c \<and> snd m0 < co_debt c"
      "fst m0 \<noteq> fst mx"
      using i(2) w by (auto simp: within_def)
    show ?thesis
    proof (cases "meets c tcr fp m0")
      case True
      from "1.IH"(1) [OF m0 m(1) [symmetric] side(1,2) g side(3) True c mn _ i(1,3)]
      show ?thesis using e True w m(2) i(4) by (auto simp: upper_end_def split: bisect_outcome.splits)
    next
      case False
      from "1.IH"(2) [OF m0 m(1) [symmetric] side(1,2) g side(3) False c m(2) w False mx i(2,4) ok]
      obtain out where o: "bisect c tcr mp fp m0 mx ok = Inr out" "(case out of
         Found r \<Rightarrow> r \<le> snd mx \<and> (first_good c tcr mp fp (snd m0) r \<or>
           (\<not> within c mx \<and> r = co_debt c \<and> nothing_between c tcr mp fp (snd m0)))
       | Forward tp tc \<Rightarrow> \<not> ok \<and> (tp, tc) = mx \<and> within c mx \<and> \<not> meets c tcr fp mx)"
        by blast
      have "first_good c tcr mp fp (snd m0) r \<Longrightarrow> first_good c tcr mp fp (snd mn) r" for r
        using i(3) unfolding first_good_def by force
      moreover have "nothing_between c tcr mp fp (snd m0) \<Longrightarrow> nothing_between c tcr mp fp (snd mn)"
        using i(3) unfolding nothing_between_def by force
      ultimately show ?thesis using e False o by (cases out) auto
    qed
  qed
qed

subsection \<open>The search forward\<close>

text \<open>The steps 1, 1, 2, 3, 5, ...; the trade that is reached when the finer side grows by a step, with the
  payment before it is reduced to the cost of what it buys; and the trades that the search visits.\<close>

fun fib_step :: "nat \<Rightarrow> int" where
  "fib_step 0 = 1"
| "fib_step (Suc 0) = 1"
| "fib_step (Suc (Suc k)) = fib_step k + fib_step (Suc k)"

definition reach :: "price \<Rightarrow> share \<times> share \<Rightarrow> int \<Rightarrow> share \<times> share" where
  "reach mp x d =
     (let p = (if amount (quote mp) < amount (base mp) then fst x + d else cost mp (snd x + d)) in (p, bought mp p))"

primrec visited :: "price \<Rightarrow> share \<times> share \<Rightarrow> nat \<Rightarrow> share \<times> share" where
  "visited mp x 0 = x"
| "visited mp x (Suc k) =
     (let y = reach mp (visited mp x k) (fib_step k) in (cost mp (snd y), snd y))"

text \<open>The search gives the first visited trade that meets the target, or the whole debt when it leaves the
  position before.\<close>

definition search_finds :: "call_order \<Rightarrow> int \<Rightarrow> price \<Rightarrow> price \<Rightarrow> share \<times> share \<Rightarrow> nat \<Rightarrow> share \<Rightarrow> bool" where
  "search_finds c tcr mp fp x i r \<longleftrightarrow> (\<exists>k \<ge> i.
     (\<forall>j. i \<le> j \<and> j < k \<longrightarrow> within c (reach mp (visited mp x j) (fib_step j)) \<and> \<not> meets c tcr fp (visited mp x (Suc j))) \<and>
     (if within c (reach mp (visited mp x k) (fib_step k))
      then meets c tcr fp (visited mp x (Suc k)) \<and> r = snd (visited mp x (Suc k)) else r = co_debt c))"

lemma fib_step_pos: "0 < fib_step k"
  by (induction k rule: fib_step.induct) auto

lemma fib_step_next: "fib_step k \<le> fib_step (Suc k)" "fib_step (Suc k) \<le> 2 * fib_step k"
proof -
  have "fib_step k \<le> fib_step (Suc k) \<and> fib_step (Suc k) \<le> 2 * fib_step k"
  proof (induction k)
    case (Suc k)
    then show ?case using fib_step_pos [of k] by auto
  qed simp
  then show "fib_step k \<le> fib_step (Suc k)" "fib_step (Suc k) \<le> 2 * fib_step k" by simp_all
qed

lemma reach_trade:
  assumes "valid_price mp" "trade mp x" "0 < d"
  shows "trade mp (cost mp (snd (reach mp x d)), snd (reach mp x d))" "snd x \<le> snd (reach mp x d)"
    "cost mp (snd (reach mp x d)) \<le> fst (reach mp x d)"
proof -
  define p where "p = (if amount (quote mp) < amount (base mp) then fst x + d else cost mp (snd x + d))"
  have r: "reach mp x d = (p, bought mp p)" by (simp add: reach_def p_def Let_def)
  have "fst x \<le> p" "0 \<le> p"
    using assms(3) tradeD [OF assms(2)] cost_mono [OF assms(1), of "snd x" "snd x + d"] by (auto simp: p_def)
  then show "trade mp (cost mp (snd (reach mp x d)), snd (reach mp x d))" "snd x \<le> snd (reach mp x d)"
    "cost mp (snd (reach mp x d)) \<le> fst (reach mp x d)"
    using trade_of_pay [OF assms(1)] bought_mono [OF assms(1), of "fst x" p] cost_bought [OF assms(1)] tradeD(3) [OF assms(2)]
    by (simp_all add: r)
qed

lemma visited_trade: "valid_price mp \<Longrightarrow> trade mp x \<Longrightarrow> trade mp (visited mp x k) \<and> snd x \<le> snd (visited mp x k)"
proof (induction k)
  case (Suc k)
  then show ?case using reach_trade [of mp "visited mp x k" "fib_step k"] fib_step_pos [of k] by (auto simp: Let_def)
qed simp

lemma forward_step_reach:
  fixes d2 d3 :: "64 word"
  assumes c: "coverable c mp" and x: "trade mp x" "within c x" and d: "0 < sint d2" "sint d2 < 2 ^ 52"
  defines "y \<equiv> reach mp x (sint d2)"
  shows "forward_search (Suc n) c tcr mp fp d2 d3 (fst x) (snd x) =
    (if within c y then
       if meets c tcr fp (cost mp (snd y), snd y) then Inr (snd y)
       else forward_search n c tcr mp fp d3 (d2 + d3) (cost mp (snd y)) (snd y)
     else Inr (co_debt c))"
proof -
  note v = coverableD [OF c] and t = tradeD [OF x(1)]
  have big: "MAX_SHARE_SUPPLY + 2 ^ 52 < safe_max" by (simp add: MAX_SHARE_SUPPLY_def safe_max_def)
  have small: "safe_min \<le> 0" by simp
  have add: "safe_add (fst x) (sint d2) = Inr (fst x + sint d2)" "safe_add (snd x) (sint d2) = Inr (snd x + sint d2)"
    using x(2) t(1,2) d v(5,7) big small by (intro safe_add_exact; unfold within_def; linarith)+
  note rt = reach_trade [OF v(1) x(1) d(1), folded y_def]
  have ok: "within c y \<Longrightarrow> cover_ok c tcr fp (snd y) (cost mp (snd y)) = Inr (meets c tcr fp (cost mp (snd y), snd y))"
    using cover_ok_decides [OF c _ tradeD(1,2) [OF rt(1)], of tcr fp] rt(3) by (simp add: within_def)
  show ?thesis
  proof (cases "amount (quote mp) < amount (base mp)")
    case True
    then have y: "y = (fst x + sint d2, bought mp (fst x + sint d2))" by (simp add: y_def reach_def Let_def)
    have b: "asset_mul (mk_asset (fst y) (collateral_type c)) mp = Inr (mk_asset (snd y) (debt_type c))" if "fst y < co_collateral c"
      using pay_buys [OF c, of "fst y"] that t(1) d(1) y by simp
    have u: "multiply_and_round_up (mk_asset (snd y) (debt_type c)) mp = Inr (mk_asset (cost mp (snd y)) (collateral_type c))"
      if "snd y < co_debt c"
      using debt_costs [OF c tradeD(2) [OF rt(1)]] that by simp
    have "fst x + sint d2 = fst y" using y by simp
    then show ?thesis using True add(1) b u ok rt(3)
      by (auto simp: Let_def within_def not_le not_less simp del: forward_search.simps(1))
  next
    case False
    then have y: "y = (cost mp (snd x + sint d2), bought mp (cost mp (snd x + sint d2)))" by (simp add: y_def reach_def Let_def)
    have le: "snd x + sint d2 \<le> snd y" using bought_cost [OF v(1)] y by simp
    have u: "multiply_and_round_up (mk_asset (snd x + sint d2) (debt_type c)) mp = Inr (mk_asset (fst y) (collateral_type c))"
      if "snd x + sint d2 < co_debt c"
      using debt_costs [OF c, of "snd x + sint d2"] that t(2) d(1) y by simp
    have b: "asset_mul (mk_asset (fst y) (collateral_type c)) mp = Inr (mk_asset (snd y) (debt_type c))" if "fst y < co_collateral c"
      using pay_buys [OF c, of "fst y"] that cost_nonneg [OF v(1), of "snd x + sint d2"] t(2) d(1) y by simp
    have e: "cost mp (snd y) = fst y"
      using tradeD(4) [OF trade_of_debt [OF v(1), of "snd x + sint d2"]] t(2) d(1) y by simp
    show ?thesis using False add(2) b u ok e le
      by (auto simp: Let_def within_def not_le not_less simp del: forward_search.simps(1))
  qed
qed

lemma forward_search_finds:
  fixes d2 d3 :: "64 word"
  assumes c: "coverable c mp" and x: "trade mp x" "within c (visited mp x i)"
    and d: "sint d2 = fib_step i" "sint d3 = fib_step (Suc i)" "fib_step (Suc i) < 2 ^ 52"
  shows "forward_search n c tcr mp fp d2 d3 (fst (visited mp x i)) (snd (visited mp x i)) = Inl OutOfFuel \<or>
    (\<exists>r. forward_search n c tcr mp fp d2 d3 (fst (visited mp x i)) (snd (visited mp x i)) = Inr r \<and>
       search_finds c tcr mp fp x i r)"
  using x(2) d
proof (induction n arbitrary: i d2 d3)
  case (Suc n)
  note v = coverableD [OF c]
  let ?y = "reach mp (visited mp x i) (fib_step i)"
  have z: "visited mp x (Suc i) = (cost mp (snd ?y), snd ?y)" by (simp add: Let_def)
  have tr: "trade mp (visited mp x i)" using visited_trade [OF v(1) x(1)] by blast
  have lt: "fib_step i < 2 ^ 52" using fib_step_next(1) [of i] Suc.prems(4) by linarith
  have step: "forward_search (Suc n) c tcr mp fp d2 d3 (fst (visited mp x i)) (snd (visited mp x i)) =
    (if within c ?y then
       if meets c tcr fp (visited mp x (Suc i)) then Inr (snd ?y)
       else forward_search n c tcr mp fp d3 (d2 + d3) (fst (visited mp x (Suc i))) (snd (visited mp x (Suc i)))
     else Inr (co_debt c))"
    using forward_step_reach [OF c tr Suc.prems(1), of d2] Suc.prems(2) fib_step_pos [of i] lt
    by (simp add: z del: visited.simps forward_search.simps)
  show ?case
  proof (cases "within c ?y \<and> \<not> meets c tcr fp (visited mp x (Suc i))")
    case False
    then have "search_finds c tcr mp fp x i (if within c ?y then snd ?y else co_debt c)"
      unfolding search_finds_def by (intro exI [of _ i]) (auto simp: z simp del: visited.simps)
    then show ?thesis using step False by auto
  next
    case True
    note rt = reach_trade [OF v(1) tr fib_step_pos [of i]]
    have w: "within c (visited mp x (Suc i))" using True rt(3) by (simp add: z within_def del: visited.simps)
    have "fib_step i \<le> max (co_collateral c) (co_debt c)"
    proof (cases "amount (quote mp) < amount (base mp)")
      case True
      then have "fst (visited mp x i) + fib_step i < co_collateral c"
        using \<open>within c ?y \<and> _\<close> by (simp add: reach_def within_def Let_def)
      then show ?thesis using tradeD(1) [OF tr] by linarith
    next
      case False
      then have "snd (visited mp x i) + fib_step i < co_debt c"
        using \<open>within c ?y \<and> _\<close> bought_cost [OF v(1), of "snd (visited mp x i) + fib_step i"]
        by (simp add: reach_def within_def Let_def)
      then show ?thesis using tradeD(2) [OF tr] by linarith
    qed
    then have b: "fib_step i < 2 ^ 50" using v(5,7) by (simp add: MAX_SHARE_SUPPLY_def)
    then have "fib_step (Suc i) < 2 ^ 51" using fib_step_next(2) [of i] by simp
    then have n: "fib_step (Suc (Suc i)) < 2 ^ 52" using b by simp
    have "sint (d2 + d3) = fib_step (Suc (Suc i))"
      using sint_add_51 [of d2 d3] Suc.prems(2-4) fib_step_pos [of i] fib_step_pos [of "Suc i"] b by simp
    from Suc.IH [OF w Suc.prems(3) this n]
    have "search_finds c tcr mp fp x (Suc i) r \<Longrightarrow> search_finds c tcr mp fp x i r" for r
      using True unfolding search_finds_def by (metis Suc_leD Suc_leI le_neq_implies_less)
    then show ?thesis using Suc.IH [OF w Suc.prems(3) \<open>sint (d2 + d3) = _\<close> n] step True by auto
  qed
qed simp

subsection \<open>The estimate and the bound\<close>

text \<open>The estimate for an amount of debt, and the upper end for the amount with the fraction.\<close>

definition estimate :: "price \<Rightarrow> share \<Rightarrow> share \<times> share" where
  "estimate mp n = (let d = bought mp (n * amount (base mp) div amount (quote mp)) in (cost mp d, d))"

definition bound :: "call_order \<Rightarrow> price \<Rightarrow> share \<Rightarrow> share \<times> share" where
  "bound c mp q =
     (let p = (if co_debt c \<le> q then co_collateral c else min (co_collateral c) (cost mp q))
      in if p = co_collateral c \<or> co_debt c \<le> bought mp p then (co_collateral c, co_debt c) else (p, bought mp p))"

lemma estimate_trade:
  assumes "valid_price mp" "0 \<le> n"
  shows "trade mp (estimate mp n)" "snd (estimate mp n) \<le> n" "fst (estimate mp n) \<le> n * amount (base mp) div amount (quote mp)"
proof -
  let ?p = "n * amount (base mp) div amount (quote mp)"
  have pos: "0 < amount (base mp)" "0 < amount (quote mp)" using assms(1) by (simp_all add: valid_price_def)
  then have p: "0 \<le> ?p" using assms(2) by (simp add: pos_imp_zdiv_nonneg_iff)
  show "trade mp (estimate mp n)" using trade_of_pay [OF assms(1) p] by (simp add: estimate_def Let_def)
  show "fst (estimate mp n) \<le> ?p" using cost_bought [OF assms(1)] by (simp add: estimate_def Let_def)
  have "?p * amount (quote mp) \<le> n * amount (base mp)" using floor_div_bounds(1) [OF pos(2)] by simp
  then have "bought mp ?p < n + 1"
    unfolding bought_def using div_less_iff [OF pos(1), of _ "n + 1"] pos by (simp add: distrib_right)
  then show "snd (estimate mp n) \<le> n" by (simp add: estimate_def Let_def)
qed

lemma bound_above:
  assumes c: "coverable c mp" and q: "n < q" "0 \<le> n" and e: "within c (estimate mp n)"
  shows "upper_end c mp (bound c mp q)" "fst (estimate mp n) < fst (bound c mp q)" "snd (estimate mp n) < snd (bound c mp q)"
proof -
  note v = coverableD [OF c] and et = estimate_trade [OF v(1) q(2)]
  have "upper_end c mp (bound c mp q) \<and> fst (estimate mp n) < fst (bound c mp q) \<and> snd (estimate mp n) < snd (bound c mp q)"
  proof (cases "bound c mp q = (co_collateral c, co_debt c)")
    case True
    then show ?thesis using e by (simp add: upper_end_def within_def)
  next
    case False
    then have b: "bound c mp q = (cost mp q, bought mp (cost mp q))" "cost mp q < co_collateral c" "bought mp (cost mp q) < co_debt c"
      by (auto simp: bound_def Let_def min_def split: if_splits)
    have t: "trade mp (bound c mp q)" using trade_of_debt [OF v(1), of q] q b(1) by simp
    moreover have "within c (bound c mp q)" using b by (simp add: within_def)
    moreover have "snd (estimate mp n) < snd (bound c mp q)" using et(2) q(1) bought_cost [OF v(1), of q] b(1) by simp
    ultimately show ?thesis using trade_less [OF v(1) et(1) t] by (simp add: upper_end_def)
  qed
  then show "upper_end c mp (bound c mp q)" "fst (estimate mp n) < fst (bound c mp q)" "snd (estimate mp n) < snd (bound c mp q)"
    by simp_all
qed

text \<open>The whole search between an estimate that misses the target and the bound.\<close>

definition search_result :: "call_order \<Rightarrow> int \<Rightarrow> price \<Rightarrow> price \<Rightarrow> share \<times> share \<Rightarrow> share \<times> share \<Rightarrow> share \<Rightarrow> bool" where
  "search_result c tcr mp fp e u r \<longleftrightarrow>
     first_good c tcr mp fp (snd e) r \<and> r \<le> snd u \<or>
     (if within c u then \<not> meets c tcr fp u \<and> search_finds c tcr mp fp u 0 r
      else r = co_debt c \<and> nothing_between c tcr mp fp (snd e))"

lemma cover_search_bound:
  assumes c: "coverable c mp" and q: "0 \<le> q"
    and lt: "tp < fst (bound c mp q)" "tc < snd (bound c mp q)"
  shows "cover_search c tcr mp fp q (mk_asset tp (collateral_type c)) (mk_asset tc (debt_type c)) =
    bindE (bisect c tcr mp fp (tp, tc) (bound c mp q) False) (\<lambda>r. case r of
      Found x \<Rightarrow> Inr x | Forward tp tc \<Rightarrow> forward_search 128 c tcr mp fp 1 1 tp tc)"
proof -
  note v = coverableD [OF c]
  define amt where "amt = (if co_debt c \<le> q then co_debt c else q)"
  define p where "p = (if co_debt c \<le> q then co_collateral c else min (co_collateral c) (cost mp q))"
  have p0: "bindE (if amt = co_debt c then Inr (get_collateral c)
                else multiply_and_round_up (mk_asset amt (debt_type c)) mp) f =
      f (mk_asset (if co_debt c \<le> q then co_collateral c else cost mp q) (collateral_type c))" for f :: "asset \<Rightarrow> 'b result"
    using debt_costs [OF c q] by (auto simp: amt_def get_collateral_def)
  have mtp: "mk_asset (if co_collateral c < amount (mk_asset (if co_debt c \<le> q then co_collateral c else cost mp q) (collateral_type c))
        then co_collateral c else amount (mk_asset (if co_debt c \<le> q then co_collateral c else cost mp q) (collateral_type c)))
      (asset_id (mk_asset (if co_debt c \<le> q then co_collateral c else cost mp q) (collateral_type c))) = mk_asset p (collateral_type c)"
    by (simp add: p_def min_def)
  have pp: "0 \<le> p" "p \<le> co_collateral c" using v(6) cost_nonneg [OF v(1) q] by (auto simp: p_def)
  have c0: "bindE (if p = co_collateral c then Inr (get_debt c) else asset_mul (mk_asset p (collateral_type c)) mp) f =
      f (mk_asset (if p = co_collateral c then co_debt c else bought mp p) (debt_type c))" for f :: "asset \<Rightarrow> 'b result"
    using pay_buys [OF c pp] by (simp add: get_debt_def)
  have b: "bound c mp q = (if p = co_collateral c \<or> co_debt c \<le> bought mp p then (co_collateral c, co_debt c) else (p, bought mp p))"
    by (simp add: bound_def p_def Let_def)
  show ?thesis
    unfolding cover_search_def amt_def [symmetric] Let_def p0 mtp
    using lt by (auto simp: c0 b asset_le_def asset_less_def)
qed

lemma cover_search_result:
  assumes c: "coverable c mp" and q: "n < q" "0 \<le> n"
    and e: "within c (estimate mp n)" "\<not> meets c tcr fp (estimate mp n)"
  shows "\<exists>r. cover_search c tcr mp fp q (mk_asset (fst (estimate mp n)) (collateral_type c))
      (mk_asset (snd (estimate mp n)) (debt_type c)) = Inr r \<and>
    search_result c tcr mp fp (estimate mp n) (bound c mp q) r"
proof -
  let ?e = "estimate mp n" and ?u = "bound c mp q"
  note v = coverableD [OF c] and t = estimate_trade(1) [OF v(1) q(2)]
  note b = bound_above [OF c q e(1)] and up = upper_endD [OF b(1)]
  obtain out where out: "bisect c tcr mp fp ?e ?u False = Inr out"
    and o: "case out of
       Found r \<Rightarrow> r \<le> snd ?u \<and> (first_good c tcr mp fp (snd ?e) r \<or>
         (\<not> within c ?u \<and> r = co_debt c \<and> nothing_between c tcr mp fp (snd ?e)))
     | Forward tp tc \<Rightarrow> \<not> False \<and> (tp, tc) = ?u \<and> within c ?u \<and> \<not> meets c tcr fp ?u"
    using bisect_returns [OF c t e(1,2) b, of False] by blast
  have s: "cover_search c tcr mp fp q (mk_asset (fst ?e) (collateral_type c)) (mk_asset (snd ?e) (debt_type c)) =
      (case out of Found x \<Rightarrow> Inr x | Forward tp tc \<Rightarrow> forward_search 128 c tcr mp fp 1 1 tp tc)"
    using cover_search_bound [OF c _ b(2,3), of tcr fp] q out by simp
  show ?thesis
  proof (cases out)
    case (Found r)
    then show ?thesis using s o by (auto simp: search_result_def)
  next
    case (Forward tp tc)
    then have u: "?u = (tp, tc)" "within c ?u" "\<not> meets c tcr fp ?u" using o by auto
    have "forward_search 128 c tcr mp fp 1 1 tp tc \<noteq> Inl OutOfFuel"
      using v(4-7) tradeD(1,2) [OF up(1) [OF u(2)]] u(1)
      by (intro forward_search_fuel [where m = 50]) (simp_all add: MAX_SHARE_SUPPLY_def)
    then obtain r where "forward_search 128 c tcr mp fp 1 1 tp tc = Inr r" "search_finds c tcr mp fp ?u 0 r"
      using forward_search_finds [OF c up(1) [OF u(2)], of 0 1 1 128 tcr fp] u by auto
    then show ?thesis using s Forward u(2,3) by (auto simp: search_result_def)
  qed
qed

text \<open>Every result of the search is above the estimate, and is the whole debt or a trade that meets the target.\<close>

lemma search_result_good:
  assumes c: "coverable c mp" and e: "trade mp e" "within c e" and u: "upper_end c mp u" "snd e < snd u"
    and r: "search_result c tcr mp fp e u r"
  shows "snd e < r \<and> (r = co_debt c \<or> (\<exists>pay. trade mp (pay, r) \<and> within c (pay, r) \<and> meets c tcr fp (pay, r)))"
proof -
  note v = coverableD [OF c] and up = upper_endD [OF u(1)]
  have e_lt: "snd e < co_debt c" using e(2) by (simp add: within_def)
  from r consider (bisect) "first_good c tcr mp fp (snd e) r" | (whole) "r = co_debt c"
    | (search) "within c u" "\<not> meets c tcr fp u" "search_finds c tcr mp fp u 0 r"
    unfolding search_result_def by presburger
  then show ?thesis
  proof cases
    case bisect
    then obtain x y where "next_trade mp x y" "snd e \<le> snd x" "within c y" "meets c tcr fp y" "r = snd y"
      unfolding first_good_def by blast
    then show ?thesis by (cases y) (auto simp: next_trade_def)
  next
    case whole
    then show ?thesis using e_lt by simp
  next
    case search
    then obtain k where k: "if within c (reach mp (visited mp u k) (fib_step k))
        then meets c tcr fp (visited mp u (Suc k)) \<and> r = snd (visited mp u (Suc k)) else r = co_debt c"
      unfolding search_finds_def by blast
    note vt = visited_trade [OF v(1) up(1) [OF search(1)]]
    show ?thesis
    proof (cases "within c (reach mp (visited mp u k) (fib_step k))")
      case True
      let ?y = "visited mp u (Suc k)"
      have "fst ?y \<le> fst (reach mp (visited mp u k) (fib_step k))" "snd ?y = snd (reach mp (visited mp u k) (fib_step k))"
        using reach_trade(3) [OF v(1) conjunct1 [OF vt] fib_step_pos, of k k] by (simp_all add: Let_def)
      then have "within c ?y" using True by (simp add: within_def del: visited.simps)
      then show ?thesis using k True vt [of "Suc k"] u(2) by (cases ?y) (auto simp del: visited.simps)
    next
      case False
      then show ?thesis using k e_lt by simp
    qed
  qed
qed

text \<open>The numerator and the denominator of the exact amount.\<close>

definition shortfall :: "call_order \<Rightarrow> int \<Rightarrow> price \<Rightarrow> price \<Rightarrow> int" where
  "shortfall c tcr fp mp = amount (base fp) * amount (quote mp) * co_debt c * tcr
     - amount (quote fp) * amount (quote mp) * co_collateral c * COLLATERAL_RATIO_DENOM"

definition relief :: "int \<Rightarrow> price \<Rightarrow> price \<Rightarrow> int" where
  "relief tcr fp mp = amount (base fp) * amount (quote mp) * tcr
     - amount (quote fp) * amount (base mp) * COLLATERAL_RATIO_DENOM"

text \<open>What the amount to cover is, case by case.\<close>

definition amount_to_cover :: "call_order \<Rightarrow> price \<Rightarrow> price \<Rightarrow> int \<Rightarrow> share \<Rightarrow> bool" where
  "amount_to_cover c mp fp mcr r \<longleftrightarrow>
     (if price_gt (co_call_price c) fp then r = 0
      else case co_target_collateral_ratio c of
        None \<Rightarrow> r = co_debt c
      | Some t \<Rightarrow>
          let tcr = max (int t) mcr; n = shortfall c tcr fp mp; d = relief tcr fp mp; e = estimate mp (n div d)
          in if n < 0 then r = 0
             else if d \<le> 0 \<or> co_debt c \<le> n div d \<or> \<not> within c e then r = co_debt c
             else if meets c tcr fp e then r = snd e
             else search_result c tcr mp fp e
                    (bound c mp ((n + amount (base fp) * amount (quote mp) * tcr) div d + 1)) r)"

definition feed_ok :: "call_order \<Rightarrow> price \<Rightarrow> bool" where
  "feed_ok c fp \<longleftrightarrow> asset_id (base fp) = collateral_type c \<and> asset_id (quote fp) = debt_type c \<and>
     0 \<le> amount (base fp) \<and> 0 \<le> amount (quote fp)"

lemma get_max_debt_to_cover_returns:
  assumes c: "coverable c (feed_of c match_price)" and f: "feed_ok c (feed_of c feed_price)"
  shows "\<exists>r. get_max_debt_to_cover c match_price feed_price mcr = Inr r \<and>
    amount_to_cover c (feed_of c match_price) (feed_of c feed_price) mcr r"
proof -
  define mp where "mp = feed_of c match_price"
  define fp where "fp = feed_of c feed_price"
  note c' = c [folded mp_def] and f' = f [folded fp_def, unfolded feed_ok_def]
  note v = coverableD [OF c']
  have ids: "asset_id (base fp) = asset_id (base (co_call_price c))" "asset_id (quote fp) = asset_id (quote (co_call_price c))"
    "asset_id (base mp) = asset_id (base (co_call_price c))" "asset_id (quote mp) = asset_id (quote (co_call_price c))"
    using f' v(2,3) by (simp_all add: collateral_type_def debt_type_def)
  show ?thesis
  proof (cases "price_gt (co_call_price c) fp \<or> co_target_collateral_ratio c = None")
    case True
    then show ?thesis using ids
      unfolding get_max_debt_to_cover_def Let_def feed_of_def [symmetric] fp_def [symmetric] mp_def [symmetric] amount_to_cover_def
      by auto
  next
    case False
    then obtain t where t: "co_target_collateral_ratio c = Some t" "\<not> price_gt (co_call_price c) fp" by blast
    define tcr where "tcr = max (int t) mcr"
    define n where "n = shortfall c tcr fp mp"
    define d where "d = relief tcr fp mp"
    define k where "k = n div d"
    define q where "q = (n + amount (base fp) * amount (quote mp) * tcr) div d + 1"
    define e where "e = estimate mp k"
    have g: "get_max_debt_to_cover c match_price feed_price mcr =
      (if n < 0 then Inr 0
       else if d \<le> 0 then Inr (co_debt c)
       else if co_debt c \<le> k then Inr (co_debt c)
       else
         bindE (asset_mul (mk_asset k (debt_type c)) mp) (\<lambda>p0.
         bindE (asset_mul p0 mp) (\<lambda>to_cover.
         bindE (multiply_and_round_up to_cover mp) (\<lambda>to_pay.
         if co_debt c \<le> amount to_cover \<or> co_collateral c \<le> amount to_pay then Inr (co_debt c)
         else
           bindE (cover_ok c tcr fp (amount to_cover) (amount to_pay)) (\<lambda>good.
           if good then Inr (amount to_cover) else cover_search c tcr mp fp q to_pay to_cover)))))"
      using t ids
      unfolding get_max_debt_to_cover_def Let_def feed_of_def [symmetric] fp_def [symmetric] mp_def [symmetric]
        tcr_def k_def q_def n_def d_def shortfall_def relief_def
      by simp
    have spec: "amount_to_cover c mp fp mcr r \<longleftrightarrow>
      (if n < 0 then r = 0
       else if d \<le> 0 \<or> co_debt c \<le> k \<or> \<not> within c e then r = co_debt c
       else if meets c tcr fp e then r = snd e
       else search_result c tcr mp fp e (bound c mp q) r)" for r
      using t unfolding amount_to_cover_def Let_def tcr_def e_def k_def q_def n_def d_def by simp
    show ?thesis
    proof (cases "n < 0 \<or> d \<le> 0 \<or> co_debt c \<le> k")
      case True
      then show ?thesis unfolding mp_def [symmetric] fp_def [symmetric] g spec by auto
    next
      case False
      then have nd: "0 \<le> n" "0 < d" "k < co_debt c" "0 \<le> k" by (simp_all add: k_def pos_imp_zdiv_nonneg_iff)
      have "0 \<le> amount (base fp) * amount (quote mp) * tcr"
        using f' v(11) by (simp add: tcr_def)
      then have q: "k < q" unfolding k_def q_def using nd(2) zdiv_mono1 [of n _ d] by simp
      note et = estimate_trade [OF v(1) nd(4), folded e_def]
      let ?p = "k * amount (base mp) div amount (quote mp)"
      have p: "0 \<le> ?p" "?p \<le> MAX_SHARE_SUPPLY"
        using nd(3,4) v(9-11) cost_mono [OF v(1), of k "co_debt c"]
          ceil_floor_div(1) [OF v(11), of "k * amount (base mp)"]
        by (simp_all add: cost_def pos_imp_zdiv_nonneg_iff)
      have es: "snd e = bought mp ?p" "fst e = cost mp (snd e)" by (simp_all add: e_def estimate_def Let_def)
      have m: "asset_mul (mk_asset k (debt_type c)) mp = Inr (mk_asset ?p (collateral_type c))"
        "asset_mul (mk_asset ?p (collateral_type c)) mp = Inr (mk_asset (snd e) (debt_type c))"
        "multiply_and_round_up (mk_asset (snd e) (debt_type c)) mp = Inr (mk_asset (fst e) (collateral_type c))"
        using debt_pays [OF c' nd(4)] pay_buys_supply [OF c' p] debt_costs [OF c' tradeD(2) [OF et(1)]] nd(3) et(2) v(5)
        by (simp_all add: es)
      have g': "get_max_debt_to_cover c match_price feed_price mcr =
        (if \<not> within c e then Inr (co_debt c)
         else if meets c tcr fp e then Inr (snd e)
         else cover_search c tcr mp fp q (mk_asset (fst e) (collateral_type c)) (mk_asset (snd e) (debt_type c)))"
        using False cover_ok_decides [OF c' _ tradeD(1,2) [OF et(1)], of tcr fp]
        unfolding g by (auto simp: m within_def not_less)
      show ?thesis
        unfolding mp_def [symmetric] fp_def [symmetric] spec g'
        using False cover_search_result [OF c' q nd(4), of tcr fp] by (auto simp: e_def)
    qed
  qed
qed

lemma amount_to_cover_good:
  assumes c: "coverable c mp" and f: "feed_ok c fp" and r: "amount_to_cover c mp fp mcr r"
  shows "r = 0 \<or> r = co_debt c \<or> (\<exists>t pay. co_target_collateral_ratio c = Some t \<and> trade mp (pay, r) \<and>
    within c (pay, r) \<and> meets c (max (int t) mcr) fp (pay, r))"
proof (cases "r = 0 \<or> r = co_debt c")
  case False
  note v = coverableD [OF c]
  from r False obtain t where t: "co_target_collateral_ratio c = Some t"
    by (auto simp: amount_to_cover_def split: if_splits option.splits)
  define tcr where "tcr = max (int t) mcr"
  define n where "n = shortfall c tcr fp mp"
  define d where "d = relief tcr fp mp"
  define q where "q = (n + amount (base fp) * amount (quote mp) * tcr) div d + 1"
  define e where "e = estimate mp (n div d)"
  have nd: "0 \<le> n" "0 < d" "within c e" and s: "if meets c tcr fp e then r = snd e else search_result c tcr mp fp e (bound c mp q) r"
    using r False t unfolding amount_to_cover_def Let_def tcr_def e_def q_def n_def d_def by (auto split: if_splits)
  have k: "0 \<le> n div d" using nd by (simp add: pos_imp_zdiv_nonneg_iff)
  have "0 \<le> amount (base fp) * amount (quote mp) * tcr" using f v(11) by (simp add: feed_ok_def tcr_def)
  then have q: "n div d < q" unfolding q_def using nd(2) zdiv_mono1 [of n _ d] by simp
  note et = estimate_trade(1) [OF v(1) k, folded e_def] and b = bound_above [OF c q k, folded e_def, OF nd(3)]
  have "\<exists>pay. trade mp (pay, r) \<and> within c (pay, r) \<and> meets c tcr fp (pay, r)"
  proof (cases "meets c tcr fp e")
    case True
    then show ?thesis using s et nd(3) by (intro exI [of _ "fst e"]) simp
  next
    case False
    then show ?thesis using search_result_good [OF c et nd(3) b(1,3), of tcr fp r] s \<open>\<not> (r = 0 \<or> r = co_debt c)\<close> by simp
  qed
  then show ?thesis using t by (simp add: tcr_def)
qed blast

text \<open>C31. The amount of debt that a margin call has to cover.  For positions up to the maximal supply the
  searches of the function end, whatever the prices.  When the prices are in terms of the position and
  neither its debt at the match price nor what its collateral buys exceeds the maximal supply, the function
  returns an amount \<open>r\<close>: nothing when the feed protects the position; the debt when there is no target
  ratio, when the exact amount or its estimate reaches the debt or the collateral; the estimate when it
  meets the target; and otherwise the result of the search between the estimate and the bound.  That is
  the smallest trade of the bisection whose predecessor misses the target, or, when the bound itself misses
  it, the first trade of the search forward that meets it; it is the debt only when the interval or
  the search leaves the position.  The amount is between zero and the debt, and unless it is one of
  these, some payment below the collateral buys it at the match price and brings the position above its
  target.\<close>

theorem debt_to_cover:
  assumes "co_debt c \<le> MAX_SHARE_SUPPLY" "co_collateral c \<le> MAX_SHARE_SUPPLY"
  shows "get_max_debt_to_cover c match_price feed_price mcr \<noteq> Inl OutOfFuel \<and>
    (coverable c (feed_of c match_price) \<and> feed_ok c (feed_of c feed_price) \<longrightarrow>
     (\<exists>r. get_max_debt_to_cover c match_price feed_price mcr = Inr r \<and>
        amount_to_cover c (feed_of c match_price) (feed_of c feed_price) mcr r \<and> 0 \<le> r \<and> r \<le> co_debt c \<and>
        (r = 0 \<or> r = co_debt c \<or>
         (\<exists>t pay. co_target_collateral_ratio c = Some t \<and> pay < co_collateral c \<and>
            trade (feed_of c match_price) (pay, r) \<and>
            cover_ok c (max (int t) mcr) (feed_of c feed_price) r pay = Inr True))))"
proof (intro conjI impI; (elim conjE)?)
  show "get_max_debt_to_cover c match_price feed_price mcr \<noteq> Inl OutOfFuel"
    by (rule get_max_debt_to_cover_not_fuel [OF assms(2,1)])
  assume c: "coverable c (feed_of c match_price)" and f: "feed_ok c (feed_of c feed_price)"
  obtain r where r: "get_max_debt_to_cover c match_price feed_price mcr = Inr r"
      "amount_to_cover c (feed_of c match_price) (feed_of c feed_price) mcr r"
    using get_max_debt_to_cover_returns [OF c f] by blast
  note g = amount_to_cover_good [OF c f r(2)]
  moreover have "0 \<le> r \<and> r \<le> co_debt c"
    using g coverableD(4) [OF c] by (auto simp: within_def dest: tradeD(2))
  ultimately show "\<exists>r. get_max_debt_to_cover c match_price feed_price mcr = Inr r \<and>
        amount_to_cover c (feed_of c match_price) (feed_of c feed_price) mcr r \<and> 0 \<le> r \<and> r \<le> co_debt c \<and>
        (r = 0 \<or> r = co_debt c \<or>
         (\<exists>t pay. co_target_collateral_ratio c = Some t \<and> pay < co_collateral c \<and>
            trade (feed_of c match_price) (pay, r) \<and>
            cover_ok c (max (int t) mcr) (feed_of c feed_price) r pay = Inr True))"
    using r unfolding within_def meets_def fst_conv snd_conv by blast
qed

text \<open>A position of 16 against 10 below its target ratio of 2, at the feed price 1, matched at 11/10.\<close>

definition demo_position :: call_order where
  "demo_position = \<lparr>co_borrower = 6, co_collateral = 16, co_debt = 10,
     co_call_price = \<lparr>base = mk_asset 32 0, quote = mk_asset 35 1\<rparr>, co_target_collateral_ratio = Some 2000\<rparr>"

definition demo_match :: price where
  "demo_match = \<lparr>base = mk_asset 11 0, quote = mk_asset 10 1\<rparr>"

definition demo_feed :: price where
  "demo_feed = \<lparr>base = mk_asset 1 0, quote = mk_asset 1 1\<rparr>"

lemma demo_cover_prices:
  "feed_of demo_position demo_match = demo_match" "feed_of demo_position demo_feed = demo_feed"
  "coverable demo_position demo_match" "feed_ok demo_position demo_feed"
  by (simp_all add: feed_of_def coverable_def feed_ok_def valid_price_def collateral_type_def debt_type_def bought_def cost_def
      ceil_div_def demo_position_def demo_match_def demo_feed_def MAX_SHARE_SUPPLY_def safe_max_def)

lemma demo_cover_search:
  "shortfall demo_position 2000 demo_feed demo_match = 40000" "relief 2000 demo_feed demo_match = 9000"
  "estimate demo_match 4 = (4, 3)" "bound demo_position demo_match 7 = (8, 7)"
  by (simp_all add: shortfall_def relief_def estimate_def bound_def bought_def cost_def ceil_div_def demo_position_def
      demo_match_def demo_feed_def COLLATERAL_RATIO_DENOM_def)

lemma demo_cover_tests:
  "\<not> price_gt (co_call_price demo_position) demo_feed"
  "\<not> meets demo_position 2000 demo_feed (4, 3)" "meets demo_position 2000 demo_feed (8, 7)"
proof -
  have "cover_ok demo_position 2000 demo_feed 3 4 = Inr False" by code_simp
  then show "\<not> meets demo_position 2000 demo_feed (4, 3)" by (simp add: meets_def)
  have "cover_ok demo_position 2000 demo_feed 7 8 = Inr True" by code_simp
  then show "meets demo_position 2000 demo_feed (8, 7)" by (simp add: meets_def)
  show "\<not> price_gt (co_call_price demo_position) demo_feed" by code_simp
qed

theorem debt_to_cover_witness:
  "\<exists>r pay. get_max_debt_to_cover demo_position demo_match demo_feed 1750 = Inr r \<and> 3 < r \<and> r \<le> 7 \<and>
     pay < 16 \<and> trade demo_match (pay, r) \<and> cover_ok demo_position 2000 demo_feed r pay = Inr True"
proof -
  have p: "co_debt demo_position = 10" "co_collateral demo_position = 16" "co_target_collateral_ratio demo_position = Some 2000"
    by (simp_all add: demo_position_def)
  have le: "co_debt demo_position \<le> MAX_SHARE_SUPPLY" "co_collateral demo_position \<le> MAX_SHARE_SUPPLY"
    by (simp_all add: p MAX_SHARE_SUPPLY_def)
  obtain r where r: "get_max_debt_to_cover demo_position demo_match demo_feed 1750 = Inr r"
      "amount_to_cover demo_position demo_match demo_feed 1750 r"
      "r = 0 \<or> r = 10 \<or> (\<exists>pay. pay < 16 \<and> trade demo_match (pay, r) \<and> cover_ok demo_position 2000 demo_feed r pay = Inr True)"
    using debt_to_cover [OF le, of demo_match demo_feed 1750] unfolding demo_cover_prices(1,2) p
    by (auto simp: demo_cover_prices(3,4))
  have "amount (base demo_feed) * amount (quote demo_match) = 10" by (simp add: demo_feed_def demo_match_def)
  then have "search_result demo_position 2000 demo_match demo_feed (4, 3) (8, 7) r"
    using r(2) unfolding amount_to_cover_def Let_def p
    by (simp add: demo_cover_search demo_cover_tests within_def p)
  then have f: "first_good demo_position 2000 demo_match demo_feed 3 r" "r \<le> 7"
    by (simp_all add: search_result_def demo_cover_tests within_def p)
  from f(1) have "3 < r" by (auto simp: first_good_def next_trade_def)
  with f(2) r show ?thesis by auto
qed

end
