(* ===== verification/Matching.thy ===== *)
theory Matching
  imports Market_Fill Debt_Cover
begin

text \<open>
  Matching two orders (\<open>database::match\<close> in \<open>chain/db_market.cpp\<close>): a limit order with a limit order, with
  a call order, and a call order with a force settlement.  Each decides what the sides pay and receive,
  with the rounding rules of the hard forks, and fills them.  The result of the first two says which
  orders were filled: 1 the taker, 2 the maker, 3 both.
\<close>

definition fill_bits :: "bool \<Rightarrow> bool \<Rightarrow> nat" where
  "fill_bits taker maker = (if taker then 1 else 0) + (if maker then 2 else 0)"

text \<open>What a limit order \<open>usd\<close> (the taker) and a limit order \<open>core\<close> receive, and whether the taker is to be
  culled; \<open>None\<close> when the taker would pay something for nothing.\<close>

definition match_amounts :: "asset \<Rightarrow> asset \<Rightarrow> price \<Rightarrow> nat \<Rightarrow> (asset \<times> asset \<times> bool) option result" where
  "match_amounts usd_for_sale core_for_sale match_price maint_time =
     bindE (asset_mul core_for_sale match_price) (\<lambda>x.
     bindE (asset_le usd_for_sale x) (\<lambda>le.
     if le then
       bindE (asset_mul usd_for_sale match_price) (\<lambda>usd_receives.
       if amount usd_receives = 0 \<and> HARDFORK_CORE_184_TIME < maint_time then Inr None
       else if maint_time \<le> HARDFORK_CORE_342_TIME then Inr (Some (usd_receives, usd_for_sale, False))
       else bindE (multiply_and_round_up usd_receives match_price) (\<lambda>core_receives.
            Inr (Some (usd_receives, core_receives, True))))
     else
       bindE (asset_mul core_for_sale match_price) (\<lambda>core_receives.
       if maint_time \<le> HARDFORK_CORE_342_TIME then Inr (Some (core_for_sale, core_receives, False))
       else bindE (multiply_and_round_up core_receives match_price) (\<lambda>usd_receives.
            Inr (Some (usd_receives, core_receives, False))))))"

definition match_limit :: "nat \<Rightarrow> nat \<Rightarrow> price \<Rightarrow> chain \<Rightarrow> (nat \<times> chain) result" where
  "match_limit uid cid match_price s =
     bindE (deref (limits s) uid) (\<lambda>usd.
     bindE (deref (limits s) cid) (\<lambda>core.
     assertE (asset_id (quote (lo_sell_price usd)) = asset_id (base (lo_sell_price core)))
     (assertE (asset_id (base (lo_sell_price usd)) = asset_id (quote (lo_sell_price core)))
     (assertE (0 < lo_for_sale usd \<and> 0 < lo_for_sale core)
     (bindE (match_amounts (amount_for_sale usd) (amount_for_sale core) match_price (next_maintenance_time s)) (\<lambda>m.
      case m of
        None \<Rightarrow> Inr (1, s)
      | Some (usd_receives, core_receives, cull_taker) \<Rightarrow>
          assertE (HARDFORK_CORE_342_TIME < next_maintenance_time s \<or>
                   core_receives = amount_for_sale usd \<or> usd_receives = amount_for_sale core)
          (bindE (fill_limit_order uid core_receives usd_receives cull_taker match_price False s) (\<lambda>(b1, s1).
           bindE (fill_limit_order cid usd_receives core_receives True match_price True s1) (\<lambda>(b2, s2).
           assertE (fill_bits b1 b2 \<noteq> 0) (Inr (fill_bits b1 b2, s2)))))))))))"

text \<open>What the limit order \<open>bid\<close> and the call order receive.\<close>

definition match_call_amounts :: "asset \<Rightarrow> asset \<Rightarrow> price \<Rightarrow> nat \<Rightarrow> (asset \<times> asset \<times> bool) option result" where
  "match_call_amounts usd_for_sale usd_to_buy match_price maint_time =
     bindE (asset_gt usd_to_buy usd_for_sale) (\<lambda>gt.
     if gt then
       bindE (asset_mul usd_for_sale match_price) (\<lambda>order_receives.
       if amount order_receives = 0 \<and> HARDFORK_CORE_184_TIME < maint_time then Inr None
       else if maint_time \<le> HARDFORK_CORE_342_TIME then Inr (Some (order_receives, usd_for_sale, False))
       else bindE (multiply_and_round_up order_receives match_price) (\<lambda>call_receives.
            Inr (Some (order_receives, call_receives, True))))
     else if maint_time \<le> HARDFORK_CORE_342_TIME then
       bindE (asset_mul usd_to_buy match_price) (\<lambda>order_receives.
       if amount order_receives = 0 \<and> HARDFORK_CORE_184_TIME < maint_time then Inr None
       else Inr (Some (order_receives, usd_to_buy, False)))
     else bindE (multiply_and_round_up usd_to_buy match_price) (\<lambda>order_receives.
          Inr (Some (order_receives, usd_to_buy, False))))"

definition match_limit_call :: "nat \<Rightarrow> nat \<Rightarrow> price \<Rightarrow> price \<Rightarrow> int \<Rightarrow> chain \<Rightarrow> (nat \<times> chain) result" where
  "match_limit_call bid ask match_price feed_price mcr s =
     bindE (deref (limits s) bid) (\<lambda>b.
     bindE (deref (calls s) ask) (\<lambda>c.
     assertE (sell_asset_id b = debt_type c)
     (assertE (receive_asset_id b = collateral_type c)
     (assertE (0 < lo_for_sale b \<and> 0 < co_debt c \<and> 0 < co_collateral c)
     (bindE (if next_maintenance_time s \<le> HARDFORK_CORE_834_TIME then Inr (get_debt c)
             else bindE (get_max_debt_to_cover c match_price feed_price mcr) (\<lambda>x. Inr (mk_asset x (debt_type c)))) (\<lambda>usd_to_buy.
      bindE (match_call_amounts (amount_for_sale b) usd_to_buy match_price (next_maintenance_time s)) (\<lambda>m.
      case m of
        None \<Rightarrow> Inr (1, s)
      | Some (order_receives, call_receives, cull_taker) \<Rightarrow>
          bindE (fill_limit_order bid call_receives order_receives cull_taker match_price False s) (\<lambda>(b1, s1).
          bindE (fill_call_order ask order_receives call_receives match_price True s1) (\<lambda>(b2, s2).
          Inr (fill_bits b1 b2, s2))))))))))"

text \<open>What a call order pays and receives in a force settlement, and whether the settlement order is to be
  cancelled afterwards; \<open>None\<close> when neither order can be filled.\<close>

definition match_settle_amounts :: "asset \<Rightarrow> asset \<Rightarrow> asset \<Rightarrow> price \<Rightarrow> nat \<Rightarrow> (asset \<times> asset \<times> bool) option result" where
  "match_settle_amounts call_debt settle_balance max_settlement match_price maint_time =
     bindE (asset_min settle_balance max_settlement) (\<lambda>settle_for_sale.
     bindE (asset_min settle_for_sale call_debt) (\<lambda>call_receives.
     bindE (asset_mul call_receives match_price) (\<lambda>call_pays.
     if amount call_pays = 0 then
       if HARDFORK_CORE_184_TIME < maint_time then
         if call_receives = call_debt then Inr (Some (mk_asset 1 (asset_id call_pays), call_receives, False))
         else Inr None
       else Inr (Some (call_pays, call_receives, False))
     else if maint_time \<le> HARDFORK_CORE_342_TIME then Inr (Some (call_pays, call_receives, False))
     else if call_receives = call_debt then
       bindE (multiply_and_round_up call_receives match_price) (\<lambda>call_pays'.
       Inr (Some (call_pays', call_receives, False)))
     else
       bindE (multiply_and_round_up call_pays match_price) (\<lambda>call_receives'.
       Inr (Some (call_pays, call_receives', call_receives = settle_balance \<and> call_receives' \<noteq> settle_balance))))))"

definition match_call_settle :: "nat \<Rightarrow> nat \<Rightarrow> price \<Rightarrow> asset \<Rightarrow> price \<Rightarrow> chain \<Rightarrow> (asset \<times> chain) result" where
  "match_call_settle call settle match_price max_settlement fill_price s =
     bindE (deref (calls s) call) (\<lambda>c.
     bindE (deref (settles s) settle) (\<lambda>f.
     assertE (asset_id (get_debt c) = asset_id (fs_balance f))
     (assertE (0 < co_debt c \<and> 0 < co_collateral c \<and> 0 < amount (fs_balance f))
     (bindE (match_settle_amounts (get_debt c) (fs_balance f) max_settlement match_price (next_maintenance_time s)) (\<lambda>m.
      case m of
        None \<Rightarrow>
          bindE (asset_min (fs_balance f) max_settlement) (\<lambda>x.
          bindE (asset_min x (get_debt c)) (\<lambda>call_receives.
          bindE (if call_receives = fs_balance f then cancel_settle_order settle True s else Inr s) (\<lambda>s1.
          Inr (mk_asset 0 (asset_id (fs_balance f)), s1))))
      | Some (call_pays, call_receives, cull_settle_order) \<Rightarrow>
          bindE (if next_maintenance_time s \<le> HARDFORK_CORE_342_TIME then asset_less call_pays (get_collateral c)
                 else Inr True) (\<lambda>below.
          if \<not> below then Inl BlackSwan
          else
            bindE (fill_call_order call call_pays call_receives fill_price True s) (\<lambda>(_, s1).
            bindE (fill_settle_order settle call_receives call_pays fill_price False s1) (\<lambda>(_, s2).
            bindE (if cull_settle_order then cancel_settle_order settle True s2 else Inr s2) (\<lambda>s3.
            Inr (call_receives, s3))))))))))"

subsection \<open>Matching conserves\<close>

lemma asset_mul_range: "asset_mul a p = Inr b \<Longrightarrow> 0 \<le> amount b \<and> int64_ok (amount b)"
proof -
  have M: "uint (u128 MAX_SHARE_SUPPLY) = MAX_SHARE_SUPPLY" by (rule uint_u128) (simp_all add: MAX_SHARE_SUPPLY_def)
  have i: "uint w \<le> MAX_SHARE_SUPPLY" if "w \<le> u128 MAX_SHARE_SUPPLY" for w :: "128 word"
    using that unfolding word_le_def M .
  have 64: "int64_ok (uint w)" if "w \<le> u128 MAX_SHARE_SUPPLY" for w :: "128 word"
  proof -
    have "safe_min \<le> uint w" using order_trans [OF safe_bounds(4) uint_ge_0] .
    moreover have "MAX_SHARE_SUPPLY \<le> safe_max" by (simp add: MAX_SHARE_SUPPLY_def safe_max_def)
    ultimately show ?thesis using i [OF that] by (simp add: int64_ok_def)
  qed
  assume "asset_mul a p = Inr b"
  then show ?thesis using 64
    by (auto simp: asset_mul_def Let_def assertE_eq_Inr split: if_splits)
qed

lemma round_up_range: "multiply_and_round_up a p = Inr b \<Longrightarrow> 0 \<le> amount b \<and> int64_ok (amount b)"
proof -
  have M: "uint (u128 MAX_SHARE_SUPPLY) = MAX_SHARE_SUPPLY" by (rule uint_u128) (simp_all add: MAX_SHARE_SUPPLY_def)
  have 64: "int64_ok (uint w)" if "w \<le> u128 MAX_SHARE_SUPPLY" for w :: "128 word"
  proof -
    have "uint w \<le> MAX_SHARE_SUPPLY" using that unfolding word_le_def M .
    moreover have "safe_min \<le> uint w" using order_trans [OF safe_bounds(4) uint_ge_0] .
    moreover have "MAX_SHARE_SUPPLY \<le> safe_max" by (simp add: MAX_SHARE_SUPPLY_def safe_max_def)
    ultimately show ?thesis by (simp add: int64_ok_def)
  qed
  assume "multiply_and_round_up a p = Inr b"
  then show ?thesis using 64
    by (auto simp: multiply_and_round_up_def Let_def assertE_eq_Inr split: if_splits)
qed

lemma match_amounts_range:
  assumes "match_amounts u c p m = Inr (Some (ur, cr, cull))" "0 < amount u" "int64_ok (amount u)" "0 < amount c" "int64_ok (amount c)"
  shows "0 \<le> amount ur \<and> int64_ok (amount ur) \<and> 0 \<le> amount cr \<and> int64_ok (amount cr)"
  using assms
  by (auto simp: match_amounts_def bindE_eq_Inr split: if_splits dest!: asset_mul_range round_up_range)

lemma match_limit_shifts:
  assumes r: "match_limit uid cid p s = Inr (n, s')"
  shows "shifts s s' (\<lambda>_. 0)"
proof (cases "chain_wf s")
  case wf: True
  obtain usd core m where usd: "map_of (limits s) uid = Some usd" and core: "map_of (limits s) cid = Some core"
    and pos: "0 < lo_for_sale usd" "0 < lo_for_sale core"
    and m: "match_amounts (amount_for_sale usd) (amount_for_sale core) p (next_maintenance_time s) = Inr m"
    using r by (auto simp: match_limit_def bindE_eq_Inr assertE_eq_Inr deref_Inr)
  have l: "limit_ok usd" "limit_ok core" using table_allD [OF wf_tables(7) [OF wf]] usd core by blast+
  show ?thesis
  proof (cases m)
    case None
    then have s: "s = s'" using r usd core m by (auto simp: match_limit_def bindE_eq_Inr assertE_eq_Inr deref_Inr)
    show ?thesis unfolding s by (rule shifts_refl)
  next
    case (Some x)
    then obtain ur cr cull where x: "m = Some (ur, cr, cull)" by (cases x) auto
    then obtain b1 s1 b2 where f: "fill_limit_order uid cr ur cull p False s = Inr (b1, s1)"
        "fill_limit_order cid ur cr True p True s1 = Inr (b2, s')"
      using r usd core m by (auto simp: match_limit_def bindE_eq_Inr assertE_eq_Inr deref_Inr)
    have "0 \<le> amount ur \<and> int64_ok (amount ur) \<and> 0 \<le> amount cr \<and> int64_ok (amount cr)"
      using m pos l unfolding x
      by (intro match_amounts_range) (auto simp: amount_for_sale_def limit_ok_def)
    then have "shifts s s1 (\<lambda>a. share_in a ur - share_in a cr)" "shifts s1 s' (\<lambda>a. share_in a cr - share_in a ur)"
      using fill_limit_order_shifts [OF f(1)] fill_limit_order_shifts [OF f(2)] by blast+
    from shifts_step [OF this] show ?thesis by simp
  qed
next
  case False
  then show ?thesis by (simp add: shifts_def)
qed

lemma match_call_amounts_range:
  assumes "match_call_amounts u c p m = Inr (Some (rc, cr, cull))"
  shows "0 \<le> amount rc \<and> int64_ok (amount rc)"
  using assms
  by (auto simp: match_call_amounts_def bindE_eq_Inr split: if_splits dest!: asset_mul_range round_up_range)

lemma match_limit_call_shifts:
  assumes r: "match_limit_call bid ask p fp mcr s = Inr (n, s')"
  shows "shifts s s' (\<lambda>_. 0)"
proof -
  obtain b c x m where bc: "map_of (limits s) bid = Some b" "map_of (calls s) ask = Some c"
    and x: "(if next_maintenance_time s \<le> HARDFORK_CORE_834_TIME then Inr (get_debt c)
             else bindE (get_max_debt_to_cover c p fp mcr) (\<lambda>x. Inr (mk_asset x (debt_type c)))) = Inr x"
    and m: "match_call_amounts (amount_for_sale b) x p (next_maintenance_time s) = Inr m"
    and rest: "(case m of
        None \<Rightarrow> Inr (1, s)
      | Some (order_receives, call_receives, cull_taker) \<Rightarrow>
          bindE (fill_limit_order bid call_receives order_receives cull_taker p False s) (\<lambda>(b1, s1).
          bindE (fill_call_order ask order_receives call_receives p True s1) (\<lambda>(b2, s2).
          Inr (fill_bits b1 b2, s2)))) = (Inr (n, s') :: (nat \<times> chain) result)"
    using r unfolding match_limit_call_def by (simp only: bindE_eq_Inr assertE_eq_Inr deref_Inr) blast
  show ?thesis
  proof (cases m)
    case None
    then have s: "s = s'" using rest by simp
    show ?thesis unfolding s by (rule shifts_refl)
  next
    case (Some y)
    then obtain rc cr cull where y: "m = Some (rc, cr, cull)" by (cases y) auto
    then obtain b1 s1 b2 where f: "fill_limit_order bid cr rc cull p False s = Inr (b1, s1)"
        "fill_call_order ask rc cr p True s1 = Inr (b2, s')"
      using rest by (auto simp: bindE_eq_Inr)
    from match_call_amounts_range m have "0 \<le> amount rc" "int64_ok (amount rc)" unfolding y by blast+
    from shifts_step [OF fill_limit_order_shifts [OF f(1) this(2,1)] fill_call_order_shifts(1) [OF f(2)]]
    show ?thesis by simp
  qed
qed


subsection \<open>Nobody pays more than offered\<close>

lemma round_back_base:
  assumes "share_ok (amount a)" "valid_price p" "asset_id a = asset_id (base p)"
    and "asset_mul a p = Inr r" "multiply_and_round_up r p = Inr c"
  shows "0 \<le> amount c \<and> amount c \<le> amount a \<and> asset_id c = asset_id a"
proof -
  have pos: "0 < amount (base p)" "0 < amount (quote p)" "0 \<le> amount a"
    using assms(1,2) by (simp_all add: valid_price_def share_ok_def)
  have r: "r = mk_asset (amount a * amount (quote p) div amount (base p)) (asset_id (quote p))"
    and rM: "amount r \<le> MAX_SHARE_SUPPLY"
    using assms(4) asset_mul_base [OF assms(1-3)] by (auto simp: result_simps)
  have "0 \<le> amount r" using assms(4) asset_mul_range by blast
  then have rok: "share_ok (amount r)" using rM by (simp add: share_ok_def MAX_SHARE_SUPPLY_def safe_max_def)
  have up: "multiply_and_round_up r p = checked_supply (ceil_div (amount r * amount (base p)) (amount (quote p))) (asset_id (base p))"
    using rok assms(2) r by (subst round_up_quote) simp_all
  have "c = mk_asset (ceil_div (amount r * amount (base p)) (amount (quote p))) (asset_id (base p))"
    using assms(5) unfolding up by (auto simp: result_simps)
  then show ?thesis using floor_ceil_roundtrip [OF pos] r assms(3) by simp
qed

lemma round_back_le:
  assumes "share_ok (amount a)" "valid_price p"
    and "asset_mul a p = Inr r" "multiply_and_round_up r p = Inr c"
  shows "0 \<le> amount c \<and> amount c \<le> amount a \<and> asset_id c = asset_id a"
proof (cases "asset_id a = asset_id (base p)")
  case True
  then show ?thesis using round_back_base [OF assms(1,2) _ assms(3,4)] by simp
next
  case False
  then have "asset_id a = asset_id (base (price_inv p))"
    using assms(3) by (auto simp: asset_mul_def price_inv_def split: if_splits)
  then show ?thesis
    using round_back_base [of a "price_inv p" r c] assms by (simp add: asset_mul_inv round_up_inv)
qed

lemma asset_mul_floor:
  assumes "share_ok (amount a)" "valid_price p" "asset_mul a p = Inr r"
  shows "(asset_id a = asset_id (base p) \<and> r = mk_asset (amount a * amount (quote p) div amount (base p)) (asset_id (quote p))) \<or>
    (asset_id a = asset_id (quote p) \<and> r = mk_asset (amount a * amount (base p) div amount (quote p)) (asset_id (base p)))"
proof (cases "asset_id a = asset_id (base p)")
  case True
  have "r = mk_asset (amount a * amount (quote p) div amount (base p)) (asset_id (quote p))"
    using assms(3) unfolding asset_mul_base [OF assms(1,2) True] by (auto simp: result_simps)
  then show ?thesis using True by blast
next
  case False
  then have q: "asset_id a = asset_id (quote p)" using assms(3) by (auto simp: asset_mul_def split: if_splits)
  have "r = mk_asset (amount a * amount (base p) div amount (quote p)) (asset_id (base p))"
    using assms(3) unfolding asset_mul_quote [OF assms(1,2) q] by (auto simp: result_simps)
  then show ?thesis using q by blast
qed

text \<open>An amount of at most \<open>c\<close> converted converts back to at most \<open>c\<close>.\<close>

lemma convert_below:
  assumes p: "valid_price p" and s: "share_ok (amount u)" "share_ok (amount c)"
    and c: "asset_mul c p = Inr x" and u: "asset_mul u p = Inr y" "asset_id u = asset_id x" "amount u \<le> amount x"
  shows "amount y \<le> amount c \<and> asset_id y = asset_id c"
proof -
  have pos: "0 < amount (base p)" "0 < amount (quote p)" "asset_id (base p) \<noteq> asset_id (quote p)"
    using p by (simp_all add: valid_price_def)
  have key: "y' \<le> c'" if "0 < b" "0 < q" "u' \<le> c' * q div b" "y' = u' * b div q" for u' c' b q y' :: int
  proof -
    have "u' * b \<le> c' * q" using that(1,3) by (simp add: le_div_iff_mult_le)
    then have "y' \<le> c' * q div q" unfolding that(4) using that(2) by (intro zdiv_mono1) simp_all
    then show ?thesis using that(2) by simp
  qed
  from asset_mul_floor [OF s(2) p c] show ?thesis
  proof
    assume a: "asset_id c = asset_id (base p) \<and> x = mk_asset (amount c * amount (quote p) div amount (base p)) (asset_id (quote p))"
    then have "asset_id u \<noteq> asset_id (base p)" using u(2) pos(3) by simp
    with asset_mul_floor [OF s(1) p u(1)]
    have y: "y = mk_asset (amount u * amount (base p) div amount (quote p)) (asset_id (base p))" by blast
    have le: "amount u \<le> amount c * amount (quote p) div amount (base p)" using a u(3) by simp
    show ?thesis using key [OF pos(1,2) le refl] a unfolding y by simp
  next
    assume a: "asset_id c = asset_id (quote p) \<and> x = mk_asset (amount c * amount (base p) div amount (quote p)) (asset_id (base p))"
    then have "asset_id u \<noteq> asset_id (quote p)" using u(2) pos(3) by simp
    with asset_mul_floor [OF s(1) p u(1)]
    have y: "y = mk_asset (amount u * amount (quote p) div amount (base p)) (asset_id (quote p))" by blast
    have le: "amount u \<le> amount c * amount (base p) div amount (quote p)" using a u(3) by simp
    show ?thesis using key [OF pos(2,1) le refl] a unfolding y by simp
  qed
qed

lemma share_ok_pos: "0 < x \<Longrightarrow> int64_ok x \<Longrightarrow> share_ok x"
  by (simp add: share_ok_def int64_ok_def)

lemma ceil_div_zero_iff: "0 < b \<Longrightarrow> 0 \<le> a \<Longrightarrow> ceil_div a b = 0 \<longleftrightarrow> a = 0"
  using ceil_div_pos [of b a] by (cases "a = 0") (auto simp: ceil_div_def)

lemma round_up_zero_iff:
  assumes "share_ok (amount x)" "valid_price p" "multiply_and_round_up x p = Inr y"
  shows "amount y = 0 \<longleftrightarrow> amount x = 0"
proof -
  have pos: "0 < amount (base p)" "0 < amount (quote p)" "0 \<le> amount x"
    using assms(1,2) by (simp_all add: valid_price_def share_ok_def)
  consider "asset_id x = asset_id (base p)" | "asset_id x = asset_id (quote p)"
    using assms(3) by (auto simp: multiply_and_round_up_def split: if_splits)
  then show ?thesis
  proof cases
    case 1
    from assms(3) show ?thesis unfolding round_up_base [OF assms(1,2) 1]
      using pos ceil_div_zero_iff [of "amount (base p)" "amount x * amount (quote p)"] by (auto simp: result_simps)
  next
    case 2
    from assms(3) show ?thesis unfolding round_up_quote [OF assms(1,2) 2]
      using pos ceil_div_zero_iff [of "amount (quote p)" "amount x * amount (base p)"] by (auto simp: result_simps)
  qed
qed

lemma converted_share: "asset_mul a p = Inr b \<Longrightarrow> share_ok (amount b)"
  using asset_mul_range [of a p b] by (simp add: share_ok_def int64_ok_def)

text \<open>C32. When a limit order is matched with another at a valid price, neither side pays more than it has for sale, and
  each is paid in the other's asset.  From hard fork core-342 on the smaller side (the taker if it is to be culled)
  pays the least amount that buys what it receives, and nobody pays for nothing or receives for nothing.
  Before, the smaller side pays all that it has for sale and receives its worth at the price, rounded down: it may
  pay too much, and from core-184 on the taker at least receives something for it.\<close>

theorem match_amounts_fair:
  assumes p: "valid_price p" and u: "0 < amount u" "int64_ok (amount u)" and c: "0 < amount c" "int64_ok (amount c)"
    and r: "match_amounts u c p m = Inr (Some (usd_receives, core_receives, cull))"
  shows "amount core_receives \<le> amount u \<and> amount usd_receives \<le> amount c \<and>
    asset_id core_receives = asset_id u \<and> asset_id usd_receives = asset_id c \<and>
    (HARDFORK_CORE_342_TIME < m \<longrightarrow>
      (if cull then multiply_and_round_up usd_receives p = Inr core_receives
       else multiply_and_round_up core_receives p = Inr usd_receives) \<and>
      (amount usd_receives = 0 \<longleftrightarrow> amount core_receives = 0)) \<and>
    (m \<le> HARDFORK_CORE_342_TIME \<longrightarrow> \<not> cull \<and>
      (core_receives = u \<and> asset_mul u p = Inr usd_receives \<and> (HARDFORK_CORE_184_TIME < m \<longrightarrow> amount usd_receives \<noteq> 0) \<or>
       usd_receives = c \<and> asset_mul c p = Inr core_receives))"
proof -
  note so = share_ok_pos [OF u] share_ok_pos [OF c]
  obtain x where x: "asset_mul c p = Inr x"
    using r unfolding match_amounts_def by (simp only: bindE_eq_Inr) blast
  obtain le where le: "asset_le u x = Inr le"
    using r unfolding match_amounts_def x by (simp only: bindE_simps bindE_eq_Inr) blast
  then have ux: "asset_id u = asset_id x" "le \<longleftrightarrow> amount u \<le> amount x" by (simp_all add: asset_cmp_Inr)
  note r = r [unfolded match_amounts_def x bindE_simps le]
  show ?thesis
  proof (cases le)
    case True
    then obtain y where y: "asset_mul u p = Inr y" using r by (auto simp: bindE_eq_Inr)
    note b = convert_below [OF p so x y ux(1)]
    from r True y have "(m \<le> HARDFORK_CORE_342_TIME \<and> usd_receives = y \<and> core_receives = u \<and> \<not> cull \<and>
          (HARDFORK_CORE_184_TIME < m \<longrightarrow> amount y \<noteq> 0)) \<or>
        (HARDFORK_CORE_342_TIME < m \<and> usd_receives = y \<and> multiply_and_round_up y p = Inr core_receives \<and> cull \<and>
          (HARDFORK_CORE_184_TIME < m \<longrightarrow> amount y \<noteq> 0))"
      by (simp add: bindE_eq_Inr split: if_splits) auto
    then show ?thesis
    proof
      assume "m \<le> HARDFORK_CORE_342_TIME \<and> usd_receives = y \<and> core_receives = u \<and> \<not> cull \<and>
          (HARDFORK_CORE_184_TIME < m \<longrightarrow> amount y \<noteq> 0)"
      then show ?thesis using b True ux(2) y by simp
    next
      assume h: "HARDFORK_CORE_342_TIME < m \<and> usd_receives = y \<and> multiply_and_round_up y p = Inr core_receives \<and> cull \<and>
          (HARDFORK_CORE_184_TIME < m \<longrightarrow> amount y \<noteq> 0)"
      then show ?thesis using b True ux(2) round_back_le [OF so(1) p y, of core_receives] round_up_zero_iff [OF converted_share [OF y] p, of core_receives] by simp
    qed
  next
    case False
    from r False have "(m \<le> HARDFORK_CORE_342_TIME \<and> usd_receives = c \<and> core_receives = x \<and> \<not> cull) \<or>
        (HARDFORK_CORE_342_TIME < m \<and> core_receives = x \<and> multiply_and_round_up x p = Inr usd_receives \<and> \<not> cull)"
      by (simp add: bindE_eq_Inr split: if_splits) auto
    then show ?thesis
    proof
      assume "m \<le> HARDFORK_CORE_342_TIME \<and> usd_receives = c \<and> core_receives = x \<and> \<not> cull"
      then show ?thesis using False ux x by simp
    next
      assume h: "HARDFORK_CORE_342_TIME < m \<and> core_receives = x \<and> multiply_and_round_up x p = Inr usd_receives \<and> \<not> cull"
      then show ?thesis using False ux round_back_le [OF so(2) p x, of usd_receives] round_up_zero_iff [OF converted_share [OF x] p, of usd_receives] by auto
    qed
  qed
qed

theorem match_amounts_fair_witness:
  "\<exists>c. match_amounts (mk_asset 10 1) (mk_asset 100 0) \<lparr>base = mk_asset 3 1, quote = mk_asset 2 0\<rparr> 2000000000
      = Inr (Some (mk_asset 6 0, c, True)) \<and> amount c \<le> 10"
proof -
  let ?p = "\<lparr>base = mk_asset 3 1, quote = mk_asset 2 0\<rparr>"
  have r: "match_amounts (mk_asset 10 1) (mk_asset 100 0) ?p 2000000000 = Inr (Some (mk_asset 6 0, mk_asset 9 1, True))"
    by (simp add: match_amounts_def asset_mul_def multiply_and_round_up_def u128_def MAX_SHARE_SUPPLY_def Let_def
        asset_le_def asset_less_def hardfork_times)
  have "amount (mk_asset 9 1) \<le> amount (mk_asset 10 1)"
    using match_amounts_fair [OF _ _ _ _ _ r]
    by (simp add: valid_price_def int64_ok_def safe_max_def safe_min_def)
  with r show ?thesis by auto
qed

text \<open>The concrete state with two limit orders of the same market and a force settlement.\<close>

definition demo_market :: chain where
  "demo_market = demo_chain
     \<lparr>assets := map (\<lambda>(i, x). (i, x\<lparr>ao_flags := 0\<rparr>)) (assets demo_chain),
      limits := [(0, \<lparr>lo_expiration = 500, lo_seller = 5, lo_for_sale = 100,
          lo_sell_price = \<lparr>base = mk_asset 2 0, quote = mk_asset 1 1\<rparr>, lo_deferred_fee = 5, lo_deferred_paid_fee = mk_asset 0 0\<rparr>),
        (1, \<lparr>lo_expiration = 500, lo_seller = 6, lo_for_sale = 31,
          lo_sell_price = \<lparr>base = mk_asset 1 1, quote = mk_asset 2 0\<rparr>, lo_deferred_fee = 5, lo_deferred_paid_fee = mk_asset 0 0\<rparr>)],
      next_limit := 2,
      settles := [(0, \<lparr>fs_owner = 6, fs_balance = mk_asset 40 1, fs_settlement_date = 90\<rparr>)], next_settle := 1\<rparr>"

lemma demo_market_wf: "chain_wf demo_market"
  by (simp add: demo_market_def demo_chain_def chain_wf_def tables_ok_def table_ok_def dyns_ok_def funds_ok_def fees_ok_def
      fund_ok_def has_settlement_def price_is_null_def null_price_def default_price_feed_def table_all_def call_ok_def limit_ok_def settle_ok_def valid_price_def int64_ok_def safe_min_def safe_max_def PERCENT_100_def)

lemma match_settle_amounts_range:
  assumes r: "match_settle_amounts d b mx p m = Inr (Some (pays, receives, cull))"
    and p: "HARDFORK_CORE_342_TIME < m \<Longrightarrow> valid_price p"
    and "0 < amount d" "int64_ok (amount d)" "0 < amount b" "int64_ok (amount b)" "0 \<le> amount mx"
  shows "0 \<le> amount pays \<and> int64_ok (amount pays) \<and> amount receives \<le> amount b \<and> amount receives \<le> amount d"
proof -
  obtain x where x: "asset_min b mx = Inr x" using r by (auto simp: match_settle_amounts_def bindE_eq_Inr)
  obtain y where y: "asset_min x d = Inr y" using r x by (auto simp: match_settle_amounts_def bindE_eq_Inr)
  obtain z where z: "asset_mul y p = Inr z" using r x y by (auto simp: match_settle_amounts_def bindE_eq_Inr)
  have yb: "amount y \<le> amount b" "amount y \<le> amount d" "share_ok (amount y)"
    using x y assms(3-7) by (auto simp: asset_min_Inr share_ok_def int64_ok_def split: if_splits)
  have one: "int64_ok 1" by simp
  note z' = asset_mul_range [OF z]
  have "(receives = y \<and> (pays = z \<or> amount pays = 1 \<or> multiply_and_round_up y p = Inr pays)) \<or>
      (HARDFORK_CORE_342_TIME < m \<and> pays = z \<and> multiply_and_round_up z p = Inr receives)"
    using r x y z by (auto simp: match_settle_amounts_def bindE_eq_Inr split: if_splits)
  then show ?thesis
    using yb z' round_up_range [of y p] round_back_le [OF yb(3) p z] one by force
qed

lemma match_call_settle_shifts:
  assumes r: "match_call_settle cid fid p mx fp s = Inr (x, s')"
    and p: "HARDFORK_CORE_342_TIME < next_maintenance_time s \<Longrightarrow> valid_price p" "0 \<le> amount mx"
  shows "shifts s s' (\<lambda>_. 0)"
proof (cases "chain_wf s")
  case wf: True
  obtain c f m where cf: "map_of (calls s) cid = Some c" "map_of (settles s) fid = Some f"
    and pos: "0 < co_debt c" "0 < amount (fs_balance f)"
    and m: "match_settle_amounts (get_debt c) (fs_balance f) mx p (next_maintenance_time s) = Inr m"
    using r by (auto simp: match_call_settle_def bindE_eq_Inr assertE_eq_Inr deref_Inr)
  have ok: "call_ok c" "settle_ok f"
    using table_allD [OF wf_tables(8) [OF wf] cf(1)] table_allD [OF wf_tables(9) [OF wf] cf(2)] .
  show ?thesis
  proof (cases m)
    case None
    then have "s' = s \<or> cancel_settle_order fid True s = Inr s'"
      using r cf m by (auto simp: match_call_settle_def bindE_eq_Inr assertE_eq_Inr deref_Inr split: if_splits)
    then show ?thesis using cancel_settle_shifts shifts_refl by auto
  next
    case (Some y)
    then obtain pays receives cull where y: "m = Some (pays, receives, cull)" by (cases y) auto
    then obtain b1 s1 b2 s2 where f: "fill_call_order cid pays receives fp True s = Inr (b1, s1)"
        "fill_settle_order fid receives pays fp False s1 = Inr (b2, s2)"
        "(if cull then cancel_settle_order fid True s2 else Inr s2) = Inr s'"
      using r cf m by (auto simp: match_call_settle_def bindE_eq_Inr assertE_eq_Inr deref_Inr split: if_splits)
    have rng: "0 \<le> amount pays" "int64_ok (amount pays)" "amount receives \<le> amount (fs_balance f)"
      using match_settle_amounts_range [OF m [unfolded y] p(1)] pos p(2) ok
      by (auto simp: get_debt_def call_ok_def settle_ok_def)
    have "shifts s1 s2 (\<lambda>a. share_in a pays - share_in a receives)"
      using f(2) rng(2,1) by (rule fill_settle_order_shifts) (use fill_call_order_shifts(6) [OF f(1)] cf(2) rng(3) in simp)
    from shifts_step [OF fill_call_order_shifts(1) [OF f(1)] this] have "shifts s s2 (\<lambda>_. 0)" by simp
    moreover have "shifts s2 s' (\<lambda>_. 0)" using f(3) cancel_settle_shifts shifts_refl by (auto split: if_splits)
    ultimately show ?thesis using shifts_step by fastforce
  qed
next
  case False
  then show ?thesis by (simp add: shifts_def)
qed

text \<open>A force settlement against a call order at a valid price conserves every asset and keeps the state
  well-formed, also when the settlement order is cancelled instead.\<close>

lemma settlement_conserves:
  assumes "chain_wf s" "valid_price p" "0 \<le> amount mx"
    and "match_call_settle cid fid p mx fp s = Inr (settled, s')"
  shows "chain_wf s' \<and> (\<forall>a. surplus s' a = surplus s a) \<and> assets s' = assets s"
  using match_call_settle_shifts [OF assms(4) assms(2,3)] shiftsD [OF _ assms(1), of s' "\<lambda>_. 0"] by simp

lemma settlement_conserves_witness:
  "\<exists>x s'. match_call_settle 0 0 \<lparr>base = mk_asset 1 1, quote = mk_asset 2 0\<rparr> (mk_asset 25 1)
      \<lparr>base = mk_asset 1 1, quote = mk_asset 2 0\<rparr> demo_market = Inr (x, s') \<and>
    surplus s' 0 = surplus demo_market 0 \<and> surplus s' 1 = surplus demo_market 1 \<and> chain_wf s'"
proof -
  let ?p = "\<lparr>base = mk_asset 1 1, quote = mk_asset 2 0\<rparr>"
  have "is_ok (match_call_settle 0 0 ?p (mk_asset 25 1) ?p demo_market)" by code_simp
  then obtain x s' where r: "match_call_settle 0 0 ?p (mk_asset 25 1) ?p demo_market = Inr (x, s')"
    unfolding is_ok_iff by (metis surj_pair)
  have "valid_price ?p" by (simp add: valid_price_def safe_max_def)
  then show ?thesis using settlement_conserves [OF demo_market_wf _ _ r] r by fastforce
qed

text \<open>C33. Matching two limit orders, a limit order with a call order, or a call order with a force settlement at
  a valid price neither creates nor destroys any asset: the surplus of holdings over the current supply stays the
  same for every asset (the debt that a call order pays is taken from the supply), and the state stays
  well-formed.\<close>

theorem matching_conserves:
  assumes "chain_wf s"
    and "match_limit uid cid p s = Inr (n, s') \<or> match_limit_call uid cid p fp mcr s = Inr (n, s') \<or>
      valid_price p \<and> 0 \<le> amount mx \<and> match_call_settle cid fid p mx fp s = Inr (x, s')"
  shows "chain_wf s' \<and> (\<forall>a. surplus s' a = surplus s a) \<and> assets s' = assets s"
  using assms(2)
proof (elim disjE conjE)
  assume "match_limit uid cid p s = Inr (n, s')"
  then show ?thesis using match_limit_shifts shiftsD [OF _ assms(1), of s' "\<lambda>_. 0"] by fastforce
next
  assume "match_limit_call uid cid p fp mcr s = Inr (n, s')"
  then show ?thesis using match_limit_call_shifts shiftsD [OF _ assms(1), of s' "\<lambda>_. 0"] by fastforce
next
  assume "valid_price p" "0 \<le> amount mx" "match_call_settle cid fid p mx fp s = Inr (x, s')"
  then show ?thesis by (rule settlement_conserves [OF assms(1)])
qed

theorem matching_conserves_witness:
  "\<exists>n s'. match_limit 1 0 \<lparr>base = mk_asset 2 0, quote = mk_asset 1 1\<rparr> demo_market = Inr (n, s') \<and>
    surplus s' 0 = surplus demo_market 0 \<and> surplus s' 1 = surplus demo_market 1 \<and> chain_wf s'"
proof -
  have "is_ok (match_limit 1 0 \<lparr>base = mk_asset 2 0, quote = mk_asset 1 1\<rparr> demo_market)" by code_simp
  then obtain n s' where r: "match_limit 1 0 \<lparr>base = mk_asset 2 0, quote = mk_asset 1 1\<rparr> demo_market = Inr (n, s')"
    unfolding is_ok_iff by (metis surj_pair)
  then show ?thesis using matching_conserves [OF demo_market_wf disjI1 [OF r]] by blast
qed

end
