(* ===== verification/Margin.thy ===== *)
theory Margin
  imports Matching
begin

text \<open>
  The order book and the margin calls (\<open>chain/db_market.cpp\<close>, \<open>chain/db_update.cpp\<close>): the indexes by
  price, global settlement, revival from bids, the black swan check, the application of a new limit
  order and the calling of under-collateralised positions.  The iterators of the code are the lists of
  the ids that lie ahead; an order that is reached after it was removed is a dangling reference.  The
  loops that search an index again after each step take fuel.
\<close>

subsection \<open>The indexes by price\<close>

fun insert_by :: "('a \<Rightarrow> 'a \<Rightarrow> bool) \<Rightarrow> 'a \<Rightarrow> 'a list \<Rightarrow> 'a list" where
  "insert_by prec x [] = [x]"
| "insert_by prec x (y # ys) = (if prec x y then x # y # ys else y # insert_by prec x ys)"

definition index_by :: "('a \<Rightarrow> 'a \<Rightarrow> bool) \<Rightarrow> 'a list \<Rightarrow> 'a list" where
  "index_by prec xs = foldr (insert_by prec) xs []"

definition limit_before :: "nat \<times> limit_order \<Rightarrow> nat \<times> limit_order \<Rightarrow> bool" where
  "limit_before x y \<longleftrightarrow> price_gt (lo_sell_price (snd x)) (lo_sell_price (snd y)) \<or>
     (\<not> price_gt (lo_sell_price (snd y)) (lo_sell_price (snd x)) \<and> fst x < fst y)"

definition call_before :: "nat \<times> call_order \<Rightarrow> nat \<times> call_order \<Rightarrow> bool" where
  "call_before x y \<longleftrightarrow> price_less (co_call_price (snd x)) (co_call_price (snd y)) \<or>
     (\<not> price_less (co_call_price (snd y)) (co_call_price (snd x)) \<and> fst x < fst y)"

definition bid_debt_type :: "collateral_bid \<Rightarrow> asset_id_type" where
  "bid_debt_type b = asset_id (quote (cb_inv_swan_price b))"

definition bid_before :: "nat \<times> collateral_bid \<Rightarrow> nat \<times> collateral_bid \<Rightarrow> bool" where
  "bid_before x y \<longleftrightarrow> bid_debt_type (snd x) < bid_debt_type (snd y) \<or>
     (bid_debt_type (snd x) = bid_debt_type (snd y) \<and>
      (price_gt (cb_inv_swan_price (snd x)) (cb_inv_swan_price (snd y)) \<or>
       (\<not> price_gt (cb_inv_swan_price (snd y)) (cb_inv_swan_price (snd x)) \<and> fst x < fst y)))"

definition limits_by_price :: "chain \<Rightarrow> (nat \<times> limit_order) list" where
  "limits_by_price s = index_by limit_before (limits s)"

definition calls_by_price :: "chain \<Rightarrow> (nat \<times> call_order) list" where
  "calls_by_price s = index_by call_before (calls s)"

definition bids_by_price :: "chain \<Rightarrow> (nat \<times> collateral_bid) list" where
  "bids_by_price s = index_by bid_before (bids s)"

text \<open>The ids from \<open>lower_bound(from)\<close> to \<open>upper_bound(to)\<close>.  Limit orders are sorted from the greatest
  price to the least.\<close>

definition limit_range :: "price \<Rightarrow> price \<Rightarrow> chain \<Rightarrow> nat list" where
  "limit_range from_price to_price s =
     map fst (takeWhile (\<lambda>e. \<not> price_gt to_price (lo_sell_price (snd e)))
       (dropWhile (\<lambda>e. price_gt (lo_sell_price (snd e)) from_price) (limits_by_price s)))"

definition call_range :: "price \<Rightarrow> price \<Rightarrow> chain \<Rightarrow> nat list" where
  "call_range from_price to_price s =
     map fst (takeWhile (\<lambda>e. \<not> price_less to_price (co_call_price (snd e)))
       (dropWhile (\<lambda>e. price_less (co_call_price (snd e)) from_price) (calls_by_price s)))"

definition first_call :: "price \<Rightarrow> chain \<Rightarrow> (nat \<times> call_order) option" where
  "first_call from_price s =
     List.find (\<lambda>e. \<not> price_less (co_call_price (snd e)) from_price) (calls_by_price s)"

definition bid_range :: "asset_id_type \<Rightarrow> price \<Rightarrow> chain \<Rightarrow> nat list" where
  "bid_range debt from_price s =
     map fst (takeWhile (\<lambda>e. bid_debt_type (snd e) = debt)
       (dropWhile (\<lambda>e. bid_debt_type (snd e) < debt \<or>
                       (bid_debt_type (snd e) = debt \<and> price_gt (cb_inv_swan_price (snd e)) from_price))
         (bids_by_price s)))"

subsection \<open>Global settlement\<close>

definition modify_bitasset :: "nat \<Rightarrow> (bitasset_data \<Rightarrow> bitasset_data result) \<Rightarrow> chain \<Rightarrow> chain result" where
  "modify_bitasset i f s =
     bindE (tget (bitassets s) i) (\<lambda>v. bindE (f v) (\<lambda>v'. Inr (s\<lparr>bitassets := tput i v' (bitassets s)\<rparr>)))"

text \<open>The id of the bitasset data of an asset; dereferencing an empty optional is undefined.\<close>

definition bitasset_id :: "asset_object \<Rightarrow> nat result" where
  "bitasset_id o1 = of_option UndefinedBehaviour (ao_bitasset_data o1)"

text \<open>One call order: it pays its whole debt at the settlement price, and no more than its collateral.\<close>

definition settle_call :: "price \<Rightarrow> nat \<Rightarrow> asset \<times> chain \<Rightarrow> (asset \<times> chain) result" where
  "settle_call settlement_price cid = (\<lambda>(collateral_gathered, s).
     bindE (deref (calls s) cid) (\<lambda>c.
     bindE (if next_maintenance_time s \<le> HARDFORK_CORE_342_TIME
            then asset_mul (get_debt c) settlement_price
            else multiply_and_round_up (get_debt c) settlement_price) (\<lambda>x.
     bindE (asset_gt x (get_collateral c)) (\<lambda>gt.
     let pays = (if gt then get_collateral c else x)
     in bindE (asset_add collateral_gathered pays) (\<lambda>g.
        bindE (fill_call_order cid pays (get_debt c) settlement_price True s) (\<lambda>(filled, s').
        assertE filled (Inr (g, s'))))))))"

definition globally_settle_asset :: "asset_id_type \<Rightarrow> price \<Rightarrow> chain \<Rightarrow> chain result" where
  "globally_settle_asset i settlement_price s =
     bindE (tget (assets s) i) (\<lambda>mia.
     bindE (bitasset_of mia s) (\<lambda>b.
     assertE (\<not> has_settlement b)
     (bindE (tget (assets s) (ba_short_backing_asset b)) (\<lambda>_.
      bindE (tget (dyns s) (ao_dynamic_data mia)) (\<lambda>mia_dyn.
      let original_mia_supply = ad_current_supply mia_dyn
      in bindE (price_min (ba_short_backing_asset b) i) (\<lambda>call_min.
         bindE (price_max (ba_short_backing_asset b) i) (\<lambda>call_max.
         bindE (foldE (settle_call settlement_price) (call_range call_min call_max s)
                  (mk_asset 0 (ba_short_backing_asset b), s)) (\<lambda>(collateral_gathered, s1).
         bindE (bitasset_id mia) (\<lambda>k.
         bindE (modify_bitasset k (\<lambda>v.
           bindE (asset_div (mk_asset original_mia_supply i) collateral_gathered) (\<lambda>p.
           Inr (v\<lparr>ba_settlement_price := p, ba_settlement_fund := amount collateral_gathered\<rparr>))) s1) (\<lambda>s2.
         modify_dyn (ao_dynamic_data mia) (\<lambda>v. Inr (v\<lparr>ad_current_supply := original_mia_supply\<rparr>)) s2))))))))))"

subsection \<open>Revival\<close>

text \<open>The creation of objects whose second key must be new: \<open>by_account\<close> of bids and of call orders.\<close>

definition create_bid :: "collateral_bid \<Rightarrow> chain \<Rightarrow> (nat \<times> chain) result" where
  "create_bid b s =
     assertE (tfind (\<lambda>x. bid_debt_type x = bid_debt_type b \<and> cb_bidder x = cb_bidder b) (bids s) = None)
       (Inr (next_bid s, s\<lparr>bids := tadd (next_bid s) b (bids s), next_bid := Suc (next_bid s)\<rparr>))"

definition create_call :: "call_order \<Rightarrow> chain \<Rightarrow> (nat \<times> chain) result" where
  "create_call c s =
     assertE (tfind (\<lambda>x. co_borrower x = co_borrower c \<and> debt_type x = debt_type c) (calls s) = None)
       (Inr (next_call s, s\<lparr>calls := tadd (next_call s) c (calls s), next_call := Suc (next_call s)\<rparr>))"

definition execute_bid :: "nat \<Rightarrow> share \<Rightarrow> share \<Rightarrow> price_feed \<Rightarrow> chain \<Rightarrow> chain result" where
  "execute_bid bid debt_covered collateral_from_fund feed s =
     bindE (deref (bids s) bid) (\<lambda>b.
     let backing = asset_id (base (cb_inv_swan_price b)); debt = asset_id (quote (cb_inv_swan_price b))
     in bindE (safe_add (amount (base (cb_inv_swan_price b))) collateral_from_fund) (\<lambda>coll.
        bindE (call_price (mk_asset debt_covered debt) (mk_asset coll backing)
                 (pf_maintenance_collateral_ratio feed)) (\<lambda>p.
        bindE (create_call \<lparr>co_borrower = cb_bidder b, co_collateral = coll, co_debt = debt_covered,
                 co_call_price = p, co_target_collateral_ratio = None\<rparr> s) (\<lambda>(_, s1).
        bindE (if backing = CORE then
                 bindE (get_account_stats_by_owner (cb_bidder b) s1) (\<lambda>st.
                 modify_stats st (\<lambda>v. bindE (safe_add (st_total_core_in_orders v) coll) (\<lambda>x.
                   Inr (v\<lparr>st_total_core_in_orders := x\<rparr>))) s1)
               else Inr s1) (\<lambda>s2.
        let s3 = push_applied_operation (ExecuteBid (cb_bidder b) (mk_asset coll backing) (mk_asset debt_covered debt)) s2
        in Inr (s3\<lparr>bids := tdel bid (bids s3)\<rparr>))))))"

definition cancel_bids_and_revive_mpa :: "asset_id_type \<Rightarrow> chain \<Rightarrow> chain result" where
  "cancel_bids_and_revive_mpa i s =
     bindE (tget (assets s) i) (\<lambda>o1.
     assertE (is_market_issued o1)
     (bindE (bitasset_of o1 s) (\<lambda>bad.
      assertE (has_settlement bad)
      (assertE (\<not> ba_is_prediction_market bad)
      (bindE (price_max (ba_short_backing_asset bad) i) (\<lambda>top.
       bindE (foldE (\<lambda>bid. cancel_bid bid True) (bid_range i top s) s) (\<lambda>s1.
       bindE (bitasset_id o1) (\<lambda>k.
       modify_bitasset k (\<lambda>v. Inr (v\<lparr>ba_settlement_price := null_price, ba_settlement_fund := 0\<rparr>)) s1))))))))"

definition revive_bitasset :: "asset_id_type \<Rightarrow> chain \<Rightarrow> chain result" where
  "revive_bitasset i s =
     bindE (tget (assets s) i) (\<lambda>o1.
     assertE (is_market_issued o1)
     (bindE (bitasset_of o1 s) (\<lambda>bad.
      assertE (has_settlement bad)
      (bindE (tget (dyns s) (ao_dynamic_data o1)) (\<lambda>bdd.
       assertE (\<not> ba_is_prediction_market bad)
       (assertE (\<not> price_is_null (pf_settlement_price (ba_current_feed bad)))
       (bindE (if 0 < ad_current_supply bdd then
                 bindE (asset_div (mk_asset 0 (ba_short_backing_asset bad)) (mk_asset (ad_current_supply bdd) i)) (\<lambda>p.
                 bindE (create_bid \<lparr>cb_bidder = ao_issuer o1, cb_inv_swan_price = p\<rparr> s) (\<lambda>(pseudo_bid, s1).
                 execute_bid pseudo_bid (ad_current_supply bdd) (ba_settlement_fund bad) (ba_current_feed bad) s1))
               else assertE (ba_settlement_fund bad = 0) (Inr s)) (\<lambda>s2.
        cancel_bids_and_revive_mpa i s2))))))))"

subsection \<open>Margin calls\<close>

text \<open>\<open>std::max\<close> of two prices.\<close>

definition higher_price :: "price \<Rightarrow> price \<Rightarrow> price" where
  "higher_price p q = (if price_less p q then q else p)"

text \<open>The price above which there is no black swan: the squeeze price of the feed (the settlement price
  before hard fork core-338), or the best bid for the collateral.\<close>

definition swan_bound :: "asset_id_type \<Rightarrow> bitasset_data \<Rightarrow> chain \<Rightarrow> price result" where
  "swan_bound i b s =
     bindE (if HARDFORK_CORE_338_TIME < next_maintenance_time s
            then max_short_squeeze_price (ba_current_feed b)
            else Inr (pf_settlement_price (ba_current_feed b))) (\<lambda>highest0.
     bindE (price_max i (ba_short_backing_asset b)) (\<lambda>highest_possible_bid.
     bindE (price_min i (ba_short_backing_asset b)) (\<lambda>lowest_possible_bid.
     case limit_range highest_possible_bid lowest_possible_bid s of
       [] \<Rightarrow> Inr highest0
     | lid # _ \<Rightarrow>
         bindE (deref (limits s) lid) (\<lambda>l.
         assertE (asset_id (base highest0) = asset_id (base (lo_sell_price l)))
           (Inr (higher_price (lo_sell_price l) highest0))))))"

definition check_for_blackswan :: "asset_id_type \<Rightarrow> bool \<Rightarrow> chain \<Rightarrow> (bool \<times> chain) result" where
  "check_for_blackswan i enable_black_swan s =
     bindE (tget (assets s) i) (\<lambda>mia.
     if \<not> is_market_issued mia then Inr (False, s)
     else bindE (bitasset_of mia s) (\<lambda>b.
     if has_settlement b then Inr (True, s)
     else let settle_price = pf_settlement_price (ba_current_feed b)
     in if price_is_null settle_price then Inr (False, s)
     else bindE (price_min (ba_short_backing_asset b) i) (\<lambda>call_min.
          bindE (price_max (ba_short_backing_asset b) i) (\<lambda>call_max.
          if call_range call_min call_max s = [] then Inr (False, s)
          else
            bindE (swan_bound i b s) (\<lambda>highest.
            bindE (deref (calls s) (hd (call_range call_min call_max s))) (\<lambda>c.
            bindE (collateralization c) (\<lambda>least_collateral.
            if price_ge (price_inv least_collateral) highest then
              assertE enable_black_swan
                (bindE (globally_settle_asset i
                          (if HARDFORK_CORE_338_TIME < next_maintenance_time s \<and>
                              price_le (price_inv least_collateral) settle_price
                           then settle_price else price_inv least_collateral) s) (\<lambda>s'.
                 Inr (True, s')))
            else Inr (False, s))))))))"

text \<open>What the limit order and the call order receive in \<open>check_call_orders\<close>, and whether the limit order
  and the call order count as filled.\<close>

definition margin_amounts :: "asset \<Rightarrow> asset \<Rightarrow> price \<Rightarrow> bool \<Rightarrow> nat \<Rightarrow> (asset \<times> asset \<times> bool \<times> bool) result" where
  "margin_amounts usd_to_buy usd_for_sale match_price filled_limit maint_time =
     bindE (asset_gt usd_to_buy usd_for_sale) (\<lambda>gt.
     if gt then
       bindE (asset_mul usd_for_sale match_price) (\<lambda>order_receives.
       bindE (if maint_time \<le> HARDFORK_CORE_342_TIME then Inr usd_for_sale
              else multiply_and_round_up order_receives match_price) (\<lambda>call_receives.
       Inr (order_receives, call_receives, True, False)))
     else
       bindE (if maint_time \<le> HARDFORK_CORE_342_TIME then asset_mul usd_to_buy match_price
              else multiply_and_round_up usd_to_buy match_price) (\<lambda>order_receives.
       Inr (order_receives, usd_to_buy, filled_limit \<or> usd_to_buy = usd_for_sale, True)))"

text \<open>The trade of a call order with a limit order: whether the call order and the limit order count as
  filled, whether the limit order is gone, the state after the call order was filled, and after both.\<close>

definition margin_trade :: "asset_id_type \<Rightarrow> bool \<Rightarrow> nat \<Rightarrow> nat \<Rightarrow> asset \<Rightarrow> limit_order \<Rightarrow> bool \<Rightarrow> chain
    \<Rightarrow> (bool \<times> bool \<times> bool \<times> chain \<times> chain) result" where
  "margin_trade i for_new cid lid usd_to_buy l filled_limit s =
     bindE (margin_amounts usd_to_buy (amount_for_sale l) (lo_sell_price l) filled_limit (next_maintenance_time s))
       (\<lambda>(order_receives, call_receives, filled_limit', filled_call).
     let s0 = (if filled_call \<and> usd_to_buy \<noteq> amount_for_sale l \<and> filled_limit \<and>
                  next_maintenance_time s \<le> HARDFORK_CORE_453_TIME \<and> head_time s < HARDFORK_615_TIME
               then s\<lparr>issue_453_affected_assets := List.insert i (issue_453_affected_assets s)\<rparr> else s)
     in bindE (fill_call_order cid order_receives call_receives (lo_sell_price l) for_new s0) (\<lambda>(_, s1).
        bindE (fill_limit_order lid call_receives order_receives True (lo_sell_price l) (\<not> for_new) s1)
          (\<lambda>(really_filled, s2).
        Inr (filled_call, filled_limit', really_filled, s1, s2))))"

text \<open>One turn of the loop: either the function returns, or it goes on with the iterators, the flag
  \<open>filled_limit\<close> and the state.\<close>

datatype margin_turn = Return bool | Next "nat list" "nat list" bool

definition margin_step :: "asset_id_type \<Rightarrow> bool \<Rightarrow> bool \<Rightarrow> price \<Rightarrow> price \<Rightarrow> nat list \<Rightarrow> nat list \<Rightarrow> bool \<Rightarrow> bool
    \<Rightarrow> chain \<Rightarrow> (margin_turn \<times> chain) result" where
  "margin_step i enable_black_swan for_new call_min call_max call_itr limit_itr filled_limit margin_called s =
     bindE (tget (assets s) i) (\<lambda>mia.
     bindE (bitasset_of mia s) (\<lambda>b.
     bindE (deref (calls s) (hd call_itr)) (\<lambda>c.
     let feed = ba_current_feed b
     in if HARDFORK_436_TIME < head_time s \<and> price_gt (pf_settlement_price feed) (price_inv (co_call_price c))
        then Inr (Return margin_called, s)
     else bindE (deref (limits s) (hd limit_itr)) (\<lambda>l.
     let match_price = lo_sell_price l
     in if next_maintenance_time s \<le> HARDFORK_CORE_606_TIME \<and> price_gt match_price (price_inv (co_call_price c))
        then Inr (Return margin_called, s)
     else bindE (asset_mul (get_debt c) match_price) (\<lambda>x.
     bindE (asset_gt x (get_collateral c)) (\<lambda>swan.
     if swan then
       assertE enable_black_swan
         (bindE (globally_settle_asset i (pf_settlement_price feed) s) (\<lambda>s'. Inr (Return True, s')))
     else
       bindE (if next_maintenance_time s \<le> HARDFORK_CORE_834_TIME then Inr (get_debt c)
              else bindE (get_max_debt_to_cover c match_price (pf_settlement_price feed)
                            (pf_maintenance_collateral_ratio feed)) (\<lambda>y. Inr (mk_asset y (debt_type c)))) (\<lambda>usd_to_buy.
       bindE (margin_trade (ba_asset b) for_new (hd call_itr) (hd limit_itr) usd_to_buy l filled_limit s)
         (\<lambda>(filled_call, filled_limit', really_filled, s1, s2).
       Inr (Next (if HARDFORK_CORE_343_TIME < next_maintenance_time s then call_range call_min call_max s1
                  else if filled_call then tl call_itr else call_itr)
              (if really_filled \<or> (filled_limit' \<and> next_maintenance_time s \<le> HARDFORK_CORE_453_TIME)
               then tl limit_itr else limit_itr) filled_limit', s2)))))))))"

fun margin_loop :: "nat \<Rightarrow> asset_id_type \<Rightarrow> bool \<Rightarrow> bool \<Rightarrow> price \<Rightarrow> price \<Rightarrow> nat list \<Rightarrow> nat list \<Rightarrow> bool \<Rightarrow> bool
    \<Rightarrow> chain \<Rightarrow> (bool \<times> chain) result" where
  "margin_loop 0 i enable for_new call_min call_max call_itr limit_itr filled_limit margin_called s = Inl OutOfFuel"
| "margin_loop (Suc n) i enable for_new call_min call_max call_itr limit_itr filled_limit margin_called s =
     bindE (check_for_blackswan i enable s) (\<lambda>(swan, s1).
     if swan \<or> call_itr = [] \<or> limit_itr = [] then Inr (margin_called, s1)
     else bindE (margin_step i enable for_new call_min call_max call_itr limit_itr filled_limit margin_called s1)
       (\<lambda>(turn, s2).
     case turn of
       Return b \<Rightarrow> Inr (b, s2)
     | Next call_itr' limit_itr' filled_limit' \<Rightarrow>
         margin_loop n i enable for_new call_min call_max call_itr' limit_itr' filled_limit' True s2))"

definition check_call_orders :: "nat \<Rightarrow> asset_id_type \<Rightarrow> bool \<Rightarrow> bool \<Rightarrow> chain \<Rightarrow> (bool \<times> chain) result" where
  "check_call_orders n i enable_black_swan for_new_limit_order s =
     assertE (for_new_limit_order \<longrightarrow> next_maintenance_time s \<le> HARDFORK_CORE_625_TIME)
     (bindE (tget (assets s) i) (\<lambda>mia.
      if \<not> is_market_issued mia then Inr (False, s)
      else bindE (bitasset_of mia s) (\<lambda>b.
      bindE (check_for_blackswan i enable_black_swan s) (\<lambda>(swan, s1).
      if swan \<or> ba_is_prediction_market b \<or> price_is_null (pf_settlement_price (ba_current_feed b)) then Inr (False, s1)
      else
        bindE (price_max i (ba_short_backing_asset b)) (\<lambda>max_price.
        bindE (max_short_squeeze_price (ba_current_feed b)) (\<lambda>min_price.
        if limit_range max_price min_price s1 = [] then Inr (False, s1)
        else
          bindE (price_min (ba_short_backing_asset b) i) (\<lambda>call_min.
          bindE (price_max (ba_short_backing_asset b) i) (\<lambda>call_max.
          margin_loop n i enable_black_swan for_new_limit_order call_min call_max
            (call_range call_min call_max s1) (limit_range max_price min_price s1) False False s1))))))))"

subsection \<open>Applying a new limit order\<close>

text \<open>The loop that matches the new order with the orders ahead while a condition holds: whether it is
  finished, and the orders that are left.\<close>

fun match_book :: "nat \<Rightarrow> (limit_order \<Rightarrow> bool) \<Rightarrow> nat list \<Rightarrow> chain \<Rightarrow> (bool \<times> nat list \<times> chain) result" where
  "match_book oid go [] s = Inr (False, [], s)"
| "match_book oid go (lid # ls) s =
     bindE (deref (limits s) lid) (\<lambda>l.
     if go l then
       bindE (match_limit oid lid (lo_sell_price l) s) (\<lambda>(n, s1).
       if n \<noteq> 2 then Inr (True, ls, s1) else match_book oid go ls s1)
     else Inr (False, lid # ls, s))"

definition apply_order_before_625 :: "nat \<Rightarrow> nat \<Rightarrow> bool \<Rightarrow> chain \<Rightarrow> (bool \<times> chain) result" where
  "apply_order_before_625 n oid allow_black_swan s =
     bindE (deref (limits s) oid) (\<lambda>o1.
     bindE (tget (assets s) (asset_id (amount_for_sale o1))) (\<lambda>_.
     bindE (amount_to_receive o1) (\<lambda>to_receive.
     bindE (tget (assets s) (asset_id to_receive)) (\<lambda>_.
     let sell = asset_id (amount_for_sale o1); receive = asset_id to_receive
     in bindE (check_call_orders n sell allow_black_swan True s) (\<lambda>(c1, s1).
        bindE (check_call_orders n receive allow_black_swan True s1) (\<lambda>(c2, s2).
        if (c1 \<or> c2) \<and> map_of (limits s2) oid = None then Inr (True, s2)
        else
          bindE (deref (limits s2) oid) (\<lambda>o2.
          let max_price = price_inv (lo_sell_price o2)
          in bindE (price_max (asset_id (base max_price)) (asset_id (quote max_price))) (\<lambda>top.
             bindE (match_book oid (\<lambda>_. True) (limit_range top max_price s2) s2) (\<lambda>(_, _, s3).
             bindE (check_call_orders n sell allow_black_swan False s3) (\<lambda>(_, s4).
             bindE (check_call_orders n receive allow_black_swan False s4) (\<lambda>(_, s5).
             if map_of (limits s5) oid = None then Inr (True, s5)
             else if head_time s5 \<le> HARDFORK_555_TIME then Inr (False, s5)
             else maybe_cull_small_order oid s5)))))))))))"

text \<open>The price at which the new order would meet a margin call, when it is good enough for one.\<close>

definition margin_call_price :: "limit_order \<Rightarrow> chain \<Rightarrow> price option result" where
  "margin_call_price o1 s =
     bindE (tget (assets s) (sell_asset_id o1)) (\<lambda>sell_asset.
     if \<not> is_market_issued sell_asset then Inr None
     else bindE (bitasset_of sell_asset s) (\<lambda>b.
     if ba_short_backing_asset b = receive_asset_id o1 \<and> \<not> ba_is_prediction_market b \<and> \<not> has_settlement b \<and>
        \<not> price_is_null (pf_settlement_price (ba_current_feed b))
     then bindE (max_short_squeeze_price (ba_current_feed b)) (\<lambda>p.
          if price_le (price_inv (lo_sell_price o1)) (price_inv p) then Inr (Some (price_inv p)) else Inr None)
     else Inr None))"

text \<open>The loop over the margin calls; the feed is that of the asset sold.\<close>

fun match_calls :: "nat \<Rightarrow> nat \<Rightarrow> asset_id_type \<Rightarrow> price_feed \<Rightarrow> price \<Rightarrow> price \<Rightarrow> chain \<Rightarrow> (bool \<times> chain) result" where
  "match_calls 0 oid sell feed call_min call_match_price s = Inl OutOfFuel"
| "match_calls (Suc n) oid sell feed call_min call_match_price s =
     (case first_call call_min s of
        None \<Rightarrow> Inr (False, s)
      | Some (cid, c) \<Rightarrow>
          if debt_type c \<noteq> sell \<or> price_gt (co_call_price c) (price_inv (pf_settlement_price feed)) then Inr (False, s)
          else
            bindE (match_limit_call oid cid call_match_price (pf_settlement_price feed)
                     (pf_maintenance_collateral_ratio feed) s) (\<lambda>(r, s1).
            if r = 1 \<or> r = 3 then Inr (True, s1)
            else match_calls n oid sell feed call_min call_match_price s1))"

definition apply_order :: "nat \<Rightarrow> nat \<Rightarrow> bool \<Rightarrow> chain \<Rightarrow> (bool \<times> chain) result" where
  "apply_order n oid allow_black_swan s =
     bindE (deref (limits s) oid) (\<lambda>o1.
     let ahead = takeWhile (\<lambda>e. limit_before e (oid, o1)) (limits_by_price s)
     in if ahead \<noteq> [] \<and> sell_asset_id (snd (last ahead)) = sell_asset_id o1 \<and>
           receive_asset_id (snd (last ahead)) = receive_asset_id o1
        then Inr (False, s)
        else
     let max_price = price_inv (lo_sell_price o1)
     in bindE (price_max (asset_id (base max_price)) (asset_id (quote max_price))) (\<lambda>top.
        let book = limit_range top max_price s
        in bindE (margin_call_price o1 s) (\<lambda>mc.
           bindE (case mc of
                    None \<Rightarrow> Inr (False, book, s)
                  | Some call_match_price \<Rightarrow>
                      bindE (match_book oid (\<lambda>l. price_gt (lo_sell_price l) call_match_price) book s)
                        (\<lambda>(finished, rest, s1).
                      if finished then Inr (True, rest, s1)
                      else
                        bindE (price_min (receive_asset_id o1) (sell_asset_id o1)) (\<lambda>call_min.
                        bindE (tget (assets s1) (sell_asset_id o1)) (\<lambda>sell_asset.
                        bindE (bitasset_of sell_asset s1) (\<lambda>b.
                        bindE (match_calls n oid (sell_asset_id o1) (ba_current_feed b) call_min call_match_price s1)
                          (\<lambda>(finished, s2). Inr (finished, rest, s2))))))) (\<lambda>(finished, rest, s3).
           bindE (if finished then Inr (True, rest, s3) else match_book oid (\<lambda>_. True) rest s3) (\<lambda>(_, _, s4).
           if map_of (limits s4) oid = None then Inr (True, s4)
           else maybe_cull_small_order oid s4)))))"

end
