(* ===== verification/No_Fuel.thy ===== *)
theory No_Fuel
  imports Margin
begin

text \<open>
  Computations that do not run out of the model's fuel.  \<open>OutOfFuel\<close> is no exception of the program: it
  is how the model says that a loop was cut short.  The rules below follow the structure of a computation,
  so that a step of the database ends by \<open>(intro ends_intros)\<close> once the steps it calls are known to end;
  what remains for a loop is to show that its own fuel is enough.
\<close>

definition ends :: "'a result \<Rightarrow> bool" where
  "ends m \<longleftrightarrow> m \<noteq> Inl OutOfFuel"

named_theorems ends_intros
  \<open>computations that do not run out of fuel\<close>

lemma ends_return [ends_intros, simp]: "ends (Inr x)"
  by (simp add: ends_def)

lemma ends_throw [simp]: "ends (Inl e) \<longleftrightarrow> e \<noteq> OutOfFuel"
  by (simp add: ends_def)

lemma ends_bindE [ends_intros]: "ends m \<Longrightarrow> (\<And>x. m = Inr x \<Longrightarrow> ends (f x)) \<Longrightarrow> ends (bindE m f)"
  by (auto simp: ends_def bindE_eq_Inl)

lemma ends_assertE [ends_intros]: "(b \<Longrightarrow> ends m) \<Longrightarrow> ends (assertE b m)"
  by (simp add: ends_def assertE_eq_Inl)

lemma ends_of_option [ends_intros]: "e \<noteq> OutOfFuel \<Longrightarrow> ends (of_option e x)"
  by (cases x) simp_all

lemma ends_if [ends_intros]: "(b \<Longrightarrow> ends m) \<Longrightarrow> (\<not> b \<Longrightarrow> ends n) \<Longrightarrow> ends (if b then m else n)"
  by simp

lemma ends_Let [ends_intros]: "ends (f x) \<Longrightarrow> ends (Let x f)"
  by simp

lemma ends_prod [ends_intros]: "(\<And>a b. p = (a, b) \<Longrightarrow> ends (f a b)) \<Longrightarrow> ends (case p of (a, b) \<Rightarrow> f a b)"
  by (cases p) simp

lemma ends_option [ends_intros]:
  "(x = None \<Longrightarrow> ends m) \<Longrightarrow> (\<And>y. x = Some y \<Longrightarrow> ends (f y)) \<Longrightarrow> ends (case x of None \<Rightarrow> m | Some y \<Rightarrow> f y)"
  by (cases x) simp_all

lemma ends_list [ends_intros]:
  "(xs = [] \<Longrightarrow> ends m) \<Longrightarrow> (\<And>y ys. xs = y # ys \<Longrightarrow> ends (f y ys)) \<Longrightarrow> ends (case xs of [] \<Rightarrow> m | y # ys \<Rightarrow> f y ys)"
  by (cases xs) simp_all

lemma ends_foldE [ends_intros]: "(\<And>x s. ends (f x s)) \<Longrightarrow> ends (foldE f xs s)"
proof (induction xs arbitrary: s)
  case (Cons x xs)
  then show ?case by (simp add: ends_bindE)
qed simp

subsection \<open>Arithmetic\<close>

lemma ends_arith [ends_intros]:
  "ends (safe_add x y)" "ends (safe_sub x y)" "ends (to_uint64 u)" "ends (u_div u v)" "ends (mk_rational n d)"
  "ends (safe_neg x)"
  by (auto simp: ends_def safe_add_def safe_sub_def to_uint64_def u_div_def assertE_def mk_rational_def Let_def safe_neg_def)

lemma ends_assets [ends_intros]:
  "ends (asset_mul a p)" "ends (multiply_and_round_up a p)" "ends (asset_sub a b)" "ends (asset_less a b)"
  "ends (asset_le a b)" "ends (call_price a b r)"
  by (simp_all add: ends_def not_fuel)

lemma ends_assets_more [ends_intros]:
  "ends (asset_add a b)" "ends (asset_gt a b)" "ends (asset_div a b)" "ends (price_min i j)" "ends (price_max i j)"
  "ends (max_short_squeeze_price f)" "ends (collateralization c)" "ends (amount_to_receive l)" "ends (safe_incr x)"
  "ends (asset_neg a)" "ends (asset_ge a b)"
  unfolding asset_ge_def asset_neg_def asset_add_def asset_gt_def asset_div_def price_min_def price_max_def max_short_squeeze_price_def
    collateralization_def amount_to_receive_def safe_incr_def
  by (intro ends_intros)+

lemma ends_raise_fee [ends_intros]: "ends (raise_fee cer target r)"
proof (induction cer target r rule: raise_fee.induct)
  case (1 cer target r)
  then show ?case by (subst raise_fee.simps) (intro ends_intros; simp)
qed

lemma ends_fees [ends_intros]:
  "ends (calculate_fee bv sc cer)" "ends (calculate_market_fee i o1 a)" "ends (stats_pay_fee x t v)"
  unfolding calculate_fee_def calculate_market_fee_def stats_pay_fee_def
  by (intro ends_intros)+

subsection \<open>Steps on the database\<close>

lemma ends_access [ends_intros]:
  "ends (tget t i)" "ends (deref t i)" "ends (bitasset_of o1 s)" "ends (bitasset_id o1)"
  "ends (get_account_stats_by_owner n s)" "ends (stats_of n s)" "ends (dyn_of i s)"
  unfolding tget_def deref_def bitasset_of_def bitasset_id_def get_account_stats_by_owner_def stats_of_def dyn_of_def
  by (auto intro!: ends_intros simp: tget_def)

lemma ends_modify [ends_intros]:
  "(\<And>v. ends (f v)) \<Longrightarrow> ends (modify_stats i f s)"
  "(\<And>v. ends (g v)) \<Longrightarrow> ends (modify_dyn i g s)"
  "(\<And>v. ends (h v)) \<Longrightarrow> ends (modify_bitasset i h s)"
  unfolding modify_stats_def modify_dyn_def modify_bitasset_def by (auto intro!: ends_intros)

lemma ends_adjust_balance [ends_intros]: "ends (adjust_balance acct d s)"
  unfolding adjust_balance_def balance_adjust_def get_balance_def by (intro ends_intros)

lemma ends_payments [ends_intros]:
  "ends (pay_market_fees i a s)" "ends (pay_order n a b s)" "ends (charge_cancel_fee o1 s)"
  unfolding pay_market_fees_def pay_order_def charge_cancel_fee_def by (intro ends_intros)+

lemma ends_cancel [ends_intros]: "ends (cancel_limit_order n b1 b2 s)"
  unfolding cancel_limit_order_def by (intro ends_intros)

lemma ends_cull [ends_intros]: "ends (maybe_cull_small_order n s)"
  unfolding maybe_cull_small_order_def by (intro ends_intros)

lemma ends_fill [ends_intros]:
  "ends (fill_limit_order n a b c p m s)" "ends (fill_call_change mia a b s co)"
  unfolding fill_limit_order_def fill_call_change_def by (intro ends_intros)+

lemma ends_fill_call [ends_intros]: "ends (fill_call_order n a b p m s)"
  unfolding fill_call_order_def by (intro ends_intros)

lemma ends_settle_call [ends_intros]: "ends (settle_call p n gs)"
  unfolding settle_call_def by (intro ends_intros)

lemma ends_globally_settle [ends_intros]: "ends (globally_settle_asset i p s)"
  unfolding globally_settle_asset_def by (intro ends_intros)

lemma ends_blackswan [ends_intros]: "ends (check_for_blackswan i en s)"
  unfolding check_for_blackswan_def swan_bound_def by (intro ends_intros)

lemma ends_margin_trade [ends_intros]: "ends (margin_trade i fn cid lid x l fl s)"
  unfolding margin_trade_def margin_amounts_def by (intro ends_intros)

text \<open>A turn of the margin calls ends when the debt to cover is found; it is without a search when the
  position has no target ratio.\<close>

lemma ends_max_debt:
  "co_target_collateral_ratio c = None \<Longrightarrow> ends (get_max_debt_to_cover c mp fp mcr)"
  unfolding get_max_debt_to_cover_def by (intro ends_intros) simp_all

lemma ends_margin_step:
  assumes "\<And>c. HARDFORK_CORE_834_TIME < next_maintenance_time s \<Longrightarrow> map_of (calls s) (hd ci) = Some c \<Longrightarrow>
      co_target_collateral_ratio c = None"
  shows "ends (margin_step i en fn cmin cmax ci li fl mc s)"
  unfolding margin_step_def
  by (intro ends_intros ends_max_debt) (use assms in \<open>auto simp: deref_Inr\<close>)

end
