(* ===== verification/Margin_Correct.thy ===== *)
theory Margin_Correct
  imports No_Fuel
begin

text \<open>
  Proofs about the order book and the margin calls of \<open>Margin\<close>: every operation conserves what the
  state holds, global settlement closes the positions of its asset, revival hands the fund to the new
  position, and the loop over the margin calls ends when no position has a target ratio.
\<close>

subsection \<open>Steps that move nothing away\<close>

definition conserves :: "chain \<Rightarrow> chain \<Rightarrow> bool" where
  "conserves s s' \<longleftrightarrow> shifts s s' (\<lambda>_. 0)"

lemma conserves_refl [simp]: "conserves s s"
  by (simp add: conserves_def shifts_refl)

lemma conserves_trans [trans]: "conserves s t \<Longrightarrow> conserves t u \<Longrightarrow> conserves s u"
  unfolding conserves_def using shifts_step [of s t "\<lambda>_. 0" u "\<lambda>_. 0" "\<lambda>_. 0"] by simp

lemma conservesD:
  assumes "conserves s s'" "chain_wf s"
  shows "chain_wf s'" "assets s' = assets s" "surplus s' a = surplus s a"
  using assms by (simp_all add: conserves_def shifts_def)

lemma conserves_issue_453: "conserves s (s\<lparr>issue_453_affected_assets := x\<rparr>)"
  by (simp add: conserves_def shifts_def chain_wf_def tables_ok_def dyns_ok_def funds_ok_def fees_ok_def surplus_def own_dyn_def)

subsection \<open>Ranges of an index\<close>

lemma insert_by_set [simp]: "set (insert_by prec x xs) = insert x (set xs)"
  by (induction xs) auto

lemma index_by_set [simp]: "set (index_by prec xs) = set xs"
  unfolding index_by_def by (induction xs) auto

lemma insert_by_sorted:
  fixes key :: "'a \<Rightarrow> 'b::linorder"
  assumes "\<And>x y. prec x y \<Longrightarrow> key x \<le> key y" "\<And>x y. \<not> prec x y \<Longrightarrow> key y \<le> key x"
  shows "sorted (map key xs) \<Longrightarrow> sorted (map key (insert_by prec x xs))"
  using assms by (induction xs) (auto, meson order_trans)

lemma index_by_sorted:
  fixes key :: "'a \<Rightarrow> 'b::linorder"
  assumes "\<And>x y. prec x y \<Longrightarrow> key x \<le> key y" "\<And>x y. \<not> prec x y \<Longrightarrow> key y \<le> key x"
  shows "sorted (map key (index_by prec xs))"
  using assms unfolding index_by_def by (induction xs) (simp_all add: insert_by_sorted)

lemma market_between:
  assumes "\<not> price_less p lower" "\<not> price_less upper p"
    and "asset_id (base lower) = b" "asset_id (quote lower) = q" "asset_id (base upper) = b" "asset_id (quote upper) = q"
  shows "asset_id (base p) = b" "asset_id (quote p) = q"
  using assms by (auto simp: price_less_def split: if_splits)

lemma price_bounds_Inr:
  assumes "price_min b q = Inr lower" "price_max b q = Inr upper"
  shows "asset_id (base lower) = b" "asset_id (quote lower) = q" "asset_id (base upper) = b" "asset_id (quote upper) = q" "b \<noteq> q"
  using assms by (auto simp: price_min_def price_max_def asset_div_Inr)

lemma range_memD:
  assumes "cid \<in> set (map fst (takeWhile P (dropWhile Q xs)))"
  obtains v where "(cid, v) \<in> set xs" "P (cid, v)"
  using assms by (force dest: set_takeWhileD set_dropWhileD)

lemma call_range_mem:
  assumes "cid \<in> set (call_range lower upper s)"
  shows "cid \<in> fst ` set (calls s)"
  using assms unfolding call_range_def calls_by_price_def
  by (rule range_memD) (auto intro: rev_image_eqI)

lemma first_call_market:
  assumes wf: "chain_wf s" and p: "price_min b q = Inr lower" "price_max b q = Inr upper"
    and r: "call_range lower upper s = cid # rest" and c: "map_of (calls s) cid = Some c"
  shows "collateral_type c = b" "debt_type c = q"
proof -
  let ?d = "dropWhile (\<lambda>e. price_less (co_call_price (snd e)) lower) (calls_by_price s)"
  obtain c' where d: "hd ?d = (cid, c')" "?d \<noteq> []" "\<not> price_less upper (co_call_price c')"
    using r by (cases ?d) (auto simp: call_range_def split: if_splits)
  then have l: "\<not> price_less (co_call_price c') lower" using hd_dropWhile [of _ "calls_by_price s"] by (metis snd_conv)
  have "(cid, c') \<in> set (calls s)"
    using d hd_in_set set_dropWhileD unfolding calls_by_price_def by (metis index_by_set)
  then have "c' = c" using c wf_tables(3) [OF wf] by (simp add: table_ok_def map_of_is_SomeI)
  then show "collateral_type c = b" "debt_type c = q"
    using market_between [OF l d(3) price_bounds_Inr(1-4) [OF p]] by (simp_all add: collateral_type_def debt_type_def)
qed

subsection \<open>Global settlement\<close>

lemma bitasset_shift:
  assumes "map_of (bitassets s) k = Some v" "\<And>a. held_fund a v' = held_fund a v + d a"
    and "chain_wf s \<Longrightarrow> fund_ok v \<Longrightarrow> fund_ok v'" "ba_asset v' = ba_asset v"
  shows "shifts s (s\<lparr>bitassets := tput k v' (bitassets s)\<rparr>) d"
proof (rule shiftsI)
  assume wf: "chain_wf s"
  show "tables_ok (s\<lparr>bitassets := tput k v' (bitassets s)\<rparr>)"
    using wf_parts(1) [OF wf] by (simp add: tables_ok_def)
  have f: "funds_ok s" using wf by (rule wf_parts)
  then have "fund_ok v" using assms(1) by (simp add: funds_ok_def)
  then show "funds_ok (s\<lparr>bitassets := tput k v' (bitassets s)\<rparr>)"
    using f assms(1,3,4) wf by (auto simp: funds_ok_def)
  show "surplus (s\<lparr>bitassets := tput k v' (bitassets s)\<rparr>) a = surplus s a + d a" for a
    using assms(1,2) by (simp add: surplus_def own_dyn_def tsum_tput)
qed simp

lemma modify_bitasset_shifts:
  assumes "modify_bitasset k f s = Inr s'"
    and "\<And>v v' a. map_of (bitassets s) k = Some v \<Longrightarrow> f v = Inr v' \<Longrightarrow> held_fund a v' = held_fund a v + d a"
    and "\<And>v v'. map_of (bitassets s) k = Some v \<Longrightarrow> f v = Inr v' \<Longrightarrow> chain_wf s \<Longrightarrow> fund_ok v \<Longrightarrow> fund_ok v'"
    and "\<And>v v'. f v = Inr v' \<Longrightarrow> ba_asset v' = ba_asset v"
  shows "shifts s s' d"
  using assms by (auto simp: modify_bitasset_def bindE_eq_Inr tget_Inr intro!: bitasset_shift)

text \<open>What the settlement of some call orders has done so far: the debt \<open>t\<close> of the asset has been paid
  with the collateral that was gathered.\<close>

definition settled :: "chain \<Rightarrow> asset_id_type \<Rightarrow> asset_id_type \<Rightarrow> share \<Rightarrow> asset \<times> chain \<Rightarrow> bool" where
  "settled s0 i backing t = (\<lambda>(g, s). asset_id g = backing \<and>
     shifts s0 s (\<lambda>a. share_in a (mk_asset t i) - share_in a g) \<and>
     assets s = assets s0 \<and> bitassets s = bitassets s0 \<and>
     (chain_wf s0 \<longrightarrow> (\<forall>d. issued s d = map_option (\<lambda>y. y - share_in d (mk_asset t i)) (issued s0 d))))"

lemma settle_call_settled:
  assumes "settle_call p cid (g, s) = Inr (g', s')" "settled s0 i backing t (g, s)"
    and "asset_id (base p) = i" "asset_id (quote p) = backing" "i \<noteq> backing"
  shows "\<exists>t'. settled s0 i backing t' (g', s')"
proof -
  obtain c x gt pays where c: "map_of (calls s) cid = Some c"
    and x: "(if next_maintenance_time s \<le> HARDFORK_CORE_342_TIME
            then asset_mul (get_debt c) p else multiply_and_round_up (get_debt c) p) = Inr x"
    and gt: "asset_gt x (get_collateral c) = Inr gt" "pays = (if gt then get_collateral c else x)"
    and g: "asset_add g pays = Inr g'"
    and f: "fill_call_order cid pays (get_debt c) p True s = Inr (True, s')"
    using assms(1) unfolding settle_call_def by (auto simp: bindE_eq_Inr assertE_eq_Inr deref_Inr Let_def)
  have ids: "asset_id x = asset_id (get_collateral c)" "asset_id pays = asset_id x" "asset_id pays = asset_id g"
    "asset_id g' = asset_id g" "amount g' = amount g + amount pays"
    using gt g by (auto simp: asset_cmp_Inr asset_arith_Inr safe_add_Inr)
  have "asset_id x = backing" using assms(2) ids by (simp add: settled_def)
  then have debt: "asset_id (get_debt c) = i" using x assms(3-5)
    by (auto simp: asset_mul_def multiply_and_round_up_def bindE_eq_Inr assertE_eq_Inr checked_supply_Inr Let_def split: if_splits)
  let ?t = "t + amount (get_debt c)"
  note fs = fill_call_order_shifts [OF f]
  have p: "share_in a g' = share_in a g + share_in a pays"
    "share_in a (mk_asset ?t i) = share_in a (mk_asset t i) + share_in a (get_debt c)" for a
    using ids debt by (auto simp: share_in_def)
  have "shifts s0 s (\<lambda>a. share_in a (mk_asset t i) - share_in a g)" using assms(2) by (simp add: settled_def)
  then have "shifts s0 s' (\<lambda>a. share_in a (mk_asset ?t i) - share_in a g')"
    by (rule shifts_step [OF _ fs(1)]) (simp add: p)
  moreover have "chain_wf s0 \<Longrightarrow> issued s' d = map_option (\<lambda>y. y - share_in d (mk_asset ?t i)) (issued s0 d)" for d
    using assms(2) fs(9) [of d] debt shiftsD(1)
    by (auto simp: settled_def share_in_def option.map_comp comp_def diff_diff_eq)
  ultimately have "settled s0 i backing ?t (g', s')"
    using assms(2) fs(2,3) ids by (simp add: settled_def)
  then show ?thesis ..
qed

lemma settle_calls_settled:
  assumes "foldE (settle_call p) cids (g, s) = Inr (g', s')" "settled s0 i backing t (g, s)"
    and "asset_id (base p) = i" "asset_id (quote p) = backing" "i \<noteq> backing"
  shows "\<exists>t'. settled s0 i backing t' (g', s')"
proof -
  have "case (g', s') of (g', s') \<Rightarrow> \<exists>t'. settled s0 i backing t' (g', s')"
    by (rule foldE_invariant [OF assms(1)]) (use assms(2-5) settle_call_settled in \<open>auto split: prod.splits\<close>)
  then show ?thesis by simp
qed

lemma settled_start: "settled s i backing 0 (mk_asset 0 backing, s)"
  by (auto simp: settled_def option.map_ident intro: shifts_eq [OF shifts_refl])

lemma globally_settle_cases:
  assumes "globally_settle_asset i p s = Inr s'"
  obtains mia b k call_min call_max g s1 s2 v pr where
    "map_of (assets s) i = Some mia" "bitasset_of mia s = Inr b" "\<not> has_settlement b"
    "ao_bitasset_data mia = Some k" "map_of (bitassets s) k = Some b"
    "map_of (dyns s) (ao_dynamic_data mia) = Some v"
    "price_min (ba_short_backing_asset b) i = Inr call_min" "price_max (ba_short_backing_asset b) i = Inr call_max"
    "foldE (settle_call p) (call_range call_min call_max s) (mk_asset 0 (ba_short_backing_asset b), s) = Inr (g, s1)"
    "modify_bitasset k (\<lambda>v'. bindE (asset_div (mk_asset (ad_current_supply v) i) g) (\<lambda>p.
           Inr (v'\<lparr>ba_settlement_price := p, ba_settlement_fund := amount g\<rparr>))) s1 = Inr s2"
    "modify_dyn (ao_dynamic_data mia) (\<lambda>v'. Inr (v'\<lparr>ad_current_supply := ad_current_supply v\<rparr>)) s2 = Inr s'"
  using assms unfolding globally_settle_asset_def Let_def
  by (auto simp: bindE_eq_Inr assertE_eq_Inr tget_Inr bitasset_id_def bitasset_of_def of_option_eq_Inr split: option.splits)

text \<open>Restoring the supply.\<close>

lemma supply_set_shifts:
  assumes "modify_dyn (ao_dynamic_data o1) (\<lambda>v. Inr (v\<lparr>ad_current_supply := y\<rparr>)) s = Inr s'"
    and "map_of (assets s) i = Some o1" "issued s i = Some x"
  shows "shifts s s' (\<lambda>a. share_in a (mk_asset (x - y) i))" "bitassets s' = bitassets s" "calls s' = calls s" "assets s' = assets s"
    "dyns_ok s \<Longrightarrow> issued s' d = (if d = i then Some y else issued s d)"
proof -
  obtain v where v: "map_of (dyns s) (ao_dynamic_data o1) = Some v"
      "s' = s\<lparr>dyns := tput (ao_dynamic_data o1) (v\<lparr>ad_current_supply := y\<rparr>) (dyns s)\<rparr>"
    using assms(1) by (auto elim!: modify_dyn_frame)
  moreover have "ad_current_supply v = x" using v(1) assms(2,3) by (simp add: issued_def own_dyn_def)
  ultimately show "shifts s s' (\<lambda>a. share_in a (mk_asset (x - y) i))" using assms(2)
    by (auto intro!: dyn_shift simp: held_pool_def dyn_surplus_def share_in_def)
  show "bitassets s' = bitassets s" "calls s' = calls s" "assets s' = assets s" using v by simp_all
  assume "dyns_ok s"
  from own_dyn_tput [OF this assms(2) v(1)] show "issued s' d = (if d = i then Some y else issued s d)"
    by (simp add: v(2) issued_def)
qed

lemma globally_settle_frames:
  assumes r: "globally_settle_asset i p s = Inr s'" and wf: "chain_wf s"
    and p: "map_of (assets s) i = Some mia" "bitasset_of mia s = Inr b"
      "asset_id (base p) = i" "asset_id (quote p) = ba_short_backing_asset b"
  shows "shifts s s' (\<lambda>_. 0)" "issued s' = issued s"
    "\<exists>b'. bitasset_of mia s' = Inr b' \<and> has_settlement b' \<and> ba_current_feed b' = ba_current_feed b"
proof -
  obtain k lo1 hi1 g s1 s2 v where k: "\<not> has_settlement b" "ao_bitasset_data mia = Some k" "map_of (bitassets s) k = Some b"
    and v: "map_of (dyns s) (ao_dynamic_data mia) = Some v"
    and ext: "price_min (ba_short_backing_asset b) i = Inr lo1" "price_max (ba_short_backing_asset b) i = Inr hi1"
    and fold: "foldE (settle_call p) (call_range lo1 hi1 s) (mk_asset 0 (ba_short_backing_asset b), s) = Inr (g, s1)"
    and ba: "modify_bitasset k (\<lambda>v'. bindE (asset_div (mk_asset (ad_current_supply v) i) g) (\<lambda>p.
           Inr (v'\<lparr>ba_settlement_price := p, ba_settlement_fund := amount g\<rparr>))) s1 = Inr s2"
    and dy: "modify_dyn (ao_dynamic_data mia) (\<lambda>v'. Inr (v'\<lparr>ad_current_supply := ad_current_supply v\<rparr>)) s2 = Inr s'"
    using r p(1,2) by (auto elim!: globally_settle_cases)
  let ?bk = "ba_short_backing_asset b"
  have ne: "i \<noteq> ?bk" using price_bounds_Inr(5) [OF ext] by simp
  obtain t where t: "settled s i ?bk t (g, s1)"
    using settle_calls_settled [OF fold settled_start p(3,4) ne] by auto
  have g: "asset_id g = ?bk" and sh1: "shifts s s1 (\<lambda>a. share_in a (mk_asset t i) - share_in a g)"
    and fr: "assets s1 = assets s" "bitassets s1 = bitassets s"
    and is1: "issued s1 d = map_option (\<lambda>y. y - share_in d (mk_asset t i)) (issued s d)" for d
    using t wf by (simp_all add: settled_def)
  have f0: "ba_settlement_fund b = 0" using wf_parts(3) [OF wf] k(1,3) by (simp add: funds_ok_def fund_ok_def)
  have sh2: "shifts s1 s2 (\<lambda>a. share_in a g)"
    using ba by (rule modify_bitasset_shifts)
      (use k(3) fr f0 g ne in \<open>auto simp: bindE_eq_Inr held_fund_def share_in_def fund_ok_def has_settlement_def
         price_is_null_def asset_div_Inr\<close>)
  obtain q where q: "asset_div (mk_asset (ad_current_supply v) i) g = Inr q"
      "s2 = s1\<lparr>bitassets := tput k (b\<lparr>ba_settlement_price := q, ba_settlement_fund := amount g\<rparr>) (bitassets s1)\<rparr>"
    using ba k(3) fr by (auto simp: modify_bitasset_def bindE_eq_Inr tget_Inr)
  have is0: "issued s i = Some (ad_current_supply v)" using p(1) v by (simp add: issued_def own_dyn_def)
  have is2: "issued s2 = issued s1" by (simp add: q(2) issued_def own_dyn_def fun_eq_iff)
  have "map_of (assets s2) i = Some mia" "issued s2 i = Some (ad_current_supply v - t)"
    using p(1) fr(1) is0 is2 is1 [of i] by (simp_all add: q(2) share_in_def)
  note sh3 = supply_set_shifts [OF dy this]
  have "shifts s s2 (\<lambda>a. share_in a (mk_asset t i))" by (rule shifts_step [OF sh1 sh2]) simp
  from shifts_step [OF this sh3(1)] show "shifts s s' (\<lambda>_. 0)" by (simp add: share_in_def)
  have "has_settlement (b\<lparr>ba_settlement_price := q, ba_settlement_fund := amount g\<rparr>)"
    using q(1) ne g by (auto simp: has_settlement_def price_is_null_def asset_div_Inr)
  then show "\<exists>b'. bitasset_of mia s' = Inr b' \<and> has_settlement b' \<and> ba_current_feed b' = ba_current_feed b"
    using k(2) sh3(2) by (simp add: q(2) bitasset_of_def tget_def)
  have "dyns_ok s2" using wf_parts(2) [OF wf] fr by (simp add: q(2) dyns_ok_def)
  then show "issued s' = issued s"
    using sh3(5) is0 is1 is2 by (auto simp: fun_eq_iff share_in_def option.map_ident)
qed

lemma market_bitasset:
  assumes "chain_wf s" "map_of (assets s) i = Some mia" "bitasset_of mia s = Inr b"
  shows "\<not> price_is_null (pf_settlement_price (ba_current_feed b)) \<Longrightarrow>
      asset_id (base (pf_settlement_price (ba_current_feed b))) = i \<and>
      asset_id (quote (pf_settlement_price (ba_current_feed b))) = ba_short_backing_asset b \<and>
      valid_price (pf_settlement_price (ba_current_feed b))"
    and "fund_ok b" "ba_asset b = i"
proof -
  obtain k where k: "ao_bitasset_data mia = Some k" "map_of (bitassets s) k = Some b"
    using assms(3) by (auto simp: bitasset_of_def tget_Inr split: option.splits)
  show "fund_ok b" "ba_asset b = i" using wf_parts(3) [OF assms(1)] k assms(2) by (auto simp: funds_ok_def)
  then show "\<not> price_is_null (pf_settlement_price (ba_current_feed b)) \<Longrightarrow>
      asset_id (base (pf_settlement_price (ba_current_feed b))) = i \<and>
      asset_id (quote (pf_settlement_price (ba_current_feed b))) = ba_short_backing_asset b \<and>
      valid_price (pf_settlement_price (ba_current_feed b))" by (simp add: fund_ok_def)
qed

lemma globally_settle_conserves:
  assumes "globally_settle_asset i p s = Inr s'" "chain_wf s" "map_of (assets s) i = Some mia" "bitasset_of mia s = Inr b"
    and "asset_id (base p) = i" "asset_id (quote p) = ba_short_backing_asset b"
  shows "conserves s s'"
  using globally_settle_frames(1) [OF assms] by (simp add: conserves_def)

lemma check_for_blackswan_effect:
  assumes r: "check_for_blackswan i en s = Inr (swan, s')" and wf: "chain_wf s"
  shows "conserves s s' \<and> (s' = s \<or> swan \<and> en)"
proof (rule ccontr)
  assume n: "\<not> (conserves s s' \<and> (s' = s \<or> swan \<and> en))"
  then have ne: "s' \<noteq> s" by auto
  obtain mia b lo1 hi1 c lc p where m: "map_of (assets s) i = Some mia" "bitasset_of mia s = Inr b"
    and nn: "\<not> price_is_null (pf_settlement_price (ba_current_feed b))"
    and ext: "price_min (ba_short_backing_asset b) i = Inr lo1" "price_max (ba_short_backing_asset b) i = Inr hi1"
    and rng: "call_range lo1 hi1 s \<noteq> []" and c: "map_of (calls s) (hd (call_range lo1 hi1 s)) = Some c" "collateralization c = Inr lc"
    and g: "globally_settle_asset i p s = Inr s'" "p = pf_settlement_price (ba_current_feed b) \<or> p = price_inv lc" "swan" "en"
    using r ne unfolding check_for_blackswan_def Let_def
    by (auto simp: bindE_eq_Inr assertE_eq_Inr tget_Inr deref_Inr split: if_split_asm)
  have "asset_id (base p) = i \<and> asset_id (quote p) = ba_short_backing_asset b"
    using g(2) market_bitasset(1) [OF wf m nn] first_call_market [OF wf ext _ c(1), of "tl (call_range lo1 hi1 s)"] rng c(2)
    by (auto simp: collateralization_def asset_div_Inr get_debt_def get_collateral_def price_inv_def)
  then have "conserves s s'" using globally_settle_conserves [OF g(1) wf m] by simp
  then show False using n g by simp
qed

lemma margin_fill:
  assumes "margin_amounts u f mp fl m = Inr (orc, crc, x, y)"
    and "fill_call_order c orc crc p mk s0 = Inr (b1, s1)" "fill_limit_order l crc orc cull p' mk' s1 = Inr (b2, s2)"
  shows "conserves s0 s2"
proof -
  have "0 \<le> amount orc \<and> int64_ok (amount orc)" using assms(1)
    by (auto simp: margin_amounts_def bindE_eq_Inr split: if_splits dest!: asset_mul_range round_up_range)
  then show ?thesis unfolding conserves_def
    using shifts_step [OF fill_call_order_shifts(1) [OF assms(2)] fill_limit_order_shifts [OF assms(3)]] by simp
qed

text \<open>What payments, and the cancelling and filling of limit orders, leave as it is.\<close>

definition keeps :: "chain \<Rightarrow> chain \<Rightarrow> bool" where
  "keeps s s' \<longleftrightarrow> calls s' = calls s \<and> bitassets s' = bitassets s \<and> head_time s' = head_time s \<and>
     next_maintenance_time s' = next_maintenance_time s"

lemma keeps_primitives:
  "modify_stats i f s = Inr s' \<Longrightarrow> keeps s s' \<and> limits s' = limits s"
  "modify_dyn i g s = Inr s' \<Longrightarrow> keeps s s' \<and> limits s' = limits s"
  "adjust_balance acct x s = Inr s' \<Longrightarrow> keeps s s' \<and> limits s' = limits s"
  by (auto simp: keeps_def elim: modify_stats_frame modify_dyn_frame adjust_balance_frame)

lemma pay_market_fees_keeps: "pay_market_fees i x s = Inr (f, s') \<Longrightarrow> keeps s s' \<and> limits s' = limits s"
  unfolding pay_market_fees_def by (elim result_elims) (auto simp: keeps_def dest: keeps_primitives)

lemma pay_order_keeps: "pay_order r x p s = Inr s' \<Longrightarrow> keeps s s' \<and> limits s' = limits s"
  unfolding pay_order_def by (elim result_elims) (auto simp: keeps_def dest!: keeps_primitives)

lemma cancel_limit_order_keeps: "cancel_limit_order oid vop skip s = Inr s' \<Longrightarrow> keeps s s' \<and> limits s' = tdel oid (limits s)"
  unfolding cancel_limit_order_def charge_cancel_fee_def Let_def
  by (elim result_elims) (auto simp: keeps_def push_applied_operation_def dest!: keeps_primitives split: if_split_asm)

lemma maybe_cull_effect:
  assumes "maybe_cull_small_order oid s = Inr (b, s')"
  shows "\<exists>o1 r. map_of (limits s) oid = Some o1 \<and> amount_to_receive o1 = Inr r \<and> (b \<longleftrightarrow> amount r = 0) \<and>
     keeps s s' \<and> limits s' = (if b then tdel oid (limits s) else limits s)"
  using assms unfolding maybe_cull_small_order_def
  by (elim result_elims) (auto simp: deref_Inr keeps_def dest!: cancel_limit_order_keeps)

lemma fill_limit_order_keeps: "fill_limit_order oid x y cull p mk s = Inr (b, s') \<Longrightarrow> keeps s s'"
  unfolding fill_limit_order_def Let_def
  by (elim result_elims)
    (auto simp: keeps_def push_applied_operation_def dest!: keeps_primitives pay_market_fees_keeps pay_order_keeps
      maybe_cull_effect)

lemma margin_trade_bitassets: "margin_trade i fn cid lid x l fl s = Inr (u, v, w, s1, s') \<Longrightarrow> bitassets s' = bitassets s"
  unfolding margin_trade_def Let_def
  by (elim result_elims) (auto simp: keeps_def dest!: fill_limit_order_keeps fill_call_order_shifts(3))

lemma margin_trade_conserves:
  assumes "margin_trade i fn cid lid x l fl s = Inr (u, v, w, s1, s')"
  shows "conserves s s'"
proof -
  have t: "conserves s s'" if "conserves (s\<lparr>issue_453_affected_assets := x\<rparr>) s'" for x
    using conserves_issue_453 that by (rule conserves_trans)
  show ?thesis using assms unfolding margin_trade_def Let_def
    by (auto simp: bindE_eq_Inr split: if_split_asm intro: t margin_fill)
qed

lemma margin_step_conserves:
  assumes r: "margin_step i en fn cmin cmax ci li fl mc s = Inr (turn, s')" and wf: "chain_wf s"
    and b: "map_of (assets s) i = Some mia" "bitasset_of mia s = Inr b" "\<not> price_is_null (pf_settlement_price (ba_current_feed b))"
  shows "conserves s s'" "bitassets s' = bitassets s \<or> (\<exists>x. turn = Return x)"
proof -
  let ?sp = "pf_settlement_price (ba_current_feed b)"
  have st: "s' = s \<and> turn = Return mc \<or> globally_settle_asset i ?sp s = Inr s' \<and> turn = Return True \<or>
      (\<exists>x l u v w s1. margin_trade (ba_asset b) fn (hd ci) (hd li) x l fl s = Inr (u, v, w, s1, s'))"
    using r unfolding margin_step_def Let_def
    by (elim result_elims) (use b(1,2) in \<open>auto simp: tget_Inr\<close>)
  then show "conserves s s'"
    using globally_settle_conserves [OF _ wf b(1,2)] market_bitasset(1) [OF wf b] margin_trade_conserves by auto
  show "bitassets s' = bitassets s \<or> (\<exists>x. turn = Return x)"
    using st margin_trade_bitassets by auto
qed

lemma margin_loop_conserves:
  assumes "margin_loop n i en fn cmin cmax ci li fl mc s = Inr (r, s')" "chain_wf s"
    and "map_of (assets s) i = Some mia" "bitasset_of mia s = Inr b" "\<not> price_is_null (pf_settlement_price (ba_current_feed b))"
  shows "conserves s s'"
  using assms
proof (induction n arbitrary: ci li fl mc s)
  case 0
  then show ?case by simp
next
  case (Suc n)
  obtain swan s1 where c: "check_for_blackswan i en s = Inr (swan, s1)"
    using Suc.prems(1) by (auto simp: bindE_eq_Inr)
  note e = check_for_blackswan_effect [OF c Suc.prems(2)]
  show ?case
  proof (cases "swan \<or> ci = [] \<or> li = []")
    case True
    then have "s' = s1" using Suc.prems(1) c by simp
    then show ?thesis using e by simp
  next
    case False
    then have s1: "s1 = s" using e by simp
    obtain turn s2 where t: "margin_step i en fn cmin cmax ci li fl mc s = Inr (turn, s2)"
      using Suc.prems(1) c False by (auto simp: bindE_eq_Inr s1)
    note cons = margin_step_conserves [OF t Suc.prems(2-5)]
    show ?thesis
    proof (cases turn)
      case (Return x)
      then show ?thesis using Suc.prems(1) c False t cons(1) by (simp add: s1)
    next
      case (Next ci' li' fl')
      then have l: "margin_loop n i en fn cmin cmax ci' li' fl' True s2 = Inr (r, s')"
        using Suc.prems(1) c False t by (simp add: s1)
      have "bitassets s2 = bitassets s" using cons(2) Next by simp
      then have "bitasset_of mia s2 = Inr b" using Suc.prems(4)
        by (cases "ao_bitasset_data mia") (simp_all add: bitasset_of_def)
      moreover note w = conservesD(1,2) [OF cons(1) Suc.prems(2)]
      ultimately have "conserves s2 s'" using Suc.IH [OF l w(1)] Suc.prems(3,5) w(2) by simp
      then show ?thesis using cons(1) conserves_trans by blast
    qed
  qed
qed

lemma check_call_orders_conserves:
  assumes r: "check_call_orders n i en fn s = Inr (called, s')" and wf: "chain_wf s"
  shows "conserves s s'"
proof -
  have "s' = s \<or> (\<exists>swan. check_for_blackswan i en s = Inr (swan, s')) \<or>
    (\<exists>mia b cmin cmax ci li. map_of (assets s) i = Some mia \<and> bitasset_of mia s = Inr b \<and>
       \<not> price_is_null (pf_settlement_price (ba_current_feed b)) \<and>
       (\<exists>s1. check_for_blackswan i en s = Inr (False, s1) \<and>
             margin_loop n i en fn cmin cmax ci li False False s1 = Inr (called, s')))"
    using r unfolding check_call_orders_def by (elim result_elims; clarsimp simp: tget_Inr; blast)
  then show ?thesis
    using check_for_blackswan_effect [OF _ wf] margin_loop_conserves [OF _ wf] by (elim disjE exE conjE) (simp, blast, metis)
qed

lemma market_conserves:
  "match_limit uid cid p s = Inr (k, s') \<Longrightarrow> conserves s s'"
  "match_limit_call uid cid p fp mcr s = Inr (k, s') \<Longrightarrow> conserves s s'"
  "maybe_cull_small_order oid s = Inr (b, s') \<Longrightarrow> conserves s s'"
  "cancel_limit_order oid vop skip s = Inr s' \<Longrightarrow> conserves s s'"
  "cancel_bid bid vop s = Inr s' \<Longrightarrow> conserves s s'"
  unfolding conserves_def
  by (auto intro: match_limit_shifts match_limit_call_shifts maybe_cull_shifts cancel_limit_order_shifts cancel_bid_shifts)

lemma match_book_conserves: "match_book oid go ids s = Inr (fin, rest, s') \<Longrightarrow> conserves s s'"
proof (induction ids arbitrary: s)
  case (Cons lid ls)
  then show ?case
    by (auto simp: bindE_eq_Inr split: if_split_asm intro: conserves_trans [OF market_conserves(1)] market_conserves(1))
qed simp

lemma match_calls_conserves: "match_calls n oid sell feed cmin p s = Inr (fin, s') \<Longrightarrow> conserves s s'"
proof (induction n arbitrary: s)
  case (Suc n)
  then show ?case
    by (auto simp: bindE_eq_Inr split: if_split_asm option.split_asm prod.split_asm
        intro: conserves_trans [OF market_conserves(2)] market_conserves(2))
qed simp

lemma apply_order_conserves:
  assumes "apply_order n oid allow s = Inr (b, s')"
  shows "conserves s s'"
  using assms unfolding apply_order_def Let_def
  by (elim result_elims)
    (auto dest!: match_book_conserves match_calls_conserves market_conserves(3) intro: conserves_trans)

lemma apply_order_before_625_conserves:
  assumes "apply_order_before_625 n oid allow s = Inr (b, s')" and wf: "chain_wf s"
  shows "conserves s s'"
proof -
  obtain s1 s2 c1 c2 x y where c: "check_call_orders n x allow True s = Inr (c1, s1)"
      "check_call_orders n y allow True s1 = Inr (c2, s2)"
    and rest: "s' = s2 \<or> (\<exists>top ids f1 r1 s3 b4 s4 b5 s5. match_book oid (\<lambda>_. True) ids s2 = Inr (f1, r1, s3) \<and>
       check_call_orders n x allow False s3 = Inr (b4, s4) \<and> check_call_orders n y allow False s4 = Inr (b5, s5) \<and>
       (s' = s5 \<or> (\<exists>b6. maybe_cull_small_order oid s5 = Inr (b6, s'))))"
    using assms(1) unfolding apply_order_before_625_def Let_def
    by (elim result_elims; clarsimp; blast)
  have 2: "conserves s s2"
    using check_call_orders_conserves [OF c(1) wf] check_call_orders_conserves [OF c(2)] conservesD(1) wf conserves_trans by blast
  then have "conserves s2 s'"
    using rest check_call_orders_conserves match_book_conserves market_conserves(3) conservesD(1) wf
    by (elim disjE exE conjE) (simp, metis conserves_trans, metis conserves_trans)
  with 2 show ?thesis by (rule conserves_trans)
qed

subsection \<open>Revival\<close>

lemma create_bid_effect:
  assumes "create_bid b s = Inr (k, s')"
  shows "shifts s s' (\<lambda>a. held_bid a b)" "bitassets s' = bitassets s" "chain_wf s \<Longrightarrow> map_of (bids s') k = Some b"
  using assms bid_table.add_shift [of s b]
  by (auto simp: create_bid_def assertE_eq_Inr map_of_tadd [OF wf_tables(5)])

lemma create_call_effect:
  assumes "create_call c s = Inr (k, s')" "call_ok c"
  shows "shifts s s' (\<lambda>a. held_call a c)" "bitassets s' = bitassets s" "bids s' = bids s"
  using assms call_table.add_shift [of s c]
  by (auto simp: create_call_def assertE_eq_Inr)

lemma execute_bid_effect:
  assumes r: "execute_bid k debt fund feed s = Inr s'" and b: "map_of (bids s) k = Some b"
    and ok: "int64_ok debt" "amount (base (cb_inv_swan_price b)) = 0" "int64_ok fund"
  shows "shifts s s' (\<lambda>a. share_in a (mk_asset fund (asset_id (base (cb_inv_swan_price b)))))" "bitassets s' = bitassets s"
proof -
  let ?bk = "asset_id (base (cb_inv_swan_price b))"
  let ?op = "ExecuteBid (cb_bidder b) (mk_asset fund ?bk) (mk_asset debt (asset_id (quote (cb_inv_swan_price b))))"
  have d: "deref (bids s) k = Inr b" "safe_add (amount (base (cb_inv_swan_price b))) fund = Inr fund"
    using b ok by (auto simp: deref_Inr safe_add_Inr int64_ok_def)
  obtain p j s1 s2 where p: "call_price (mk_asset debt (asset_id (quote (cb_inv_swan_price b)))) (mk_asset fund ?bk)
                 (pf_maintenance_collateral_ratio feed) = Inr p"
    and s1: "create_call \<lparr>co_borrower = cb_bidder b, co_collateral = fund, co_debt = debt,
                 co_call_price = p, co_target_collateral_ratio = None\<rparr> s = Inr (j, s1)"
    and s2i: "(if ?bk = CORE then
                 bindE (get_account_stats_by_owner (cb_bidder b) s1) (\<lambda>st.
                 modify_stats st (\<lambda>v. bindE (safe_add (st_total_core_in_orders v) fund) (\<lambda>x.
                   Inr (v\<lparr>st_total_core_in_orders := x\<rparr>))) s1)
               else Inr s1) = Inr s2"
    and s'0: "Inr ((push_applied_operation ?op s2)\<lparr>bids := tdel k (bids (push_applied_operation ?op s2))\<rparr>) = (Inr s' :: chain result)"
    using r [unfolded execute_bid_def Let_def d bindE_simps] by (elim bindE_E prod_result_E) (simp only:)
  have s2: "s2 = s1 \<or> (\<exists>st. modify_stats st (\<lambda>v. bindE (safe_add (st_total_core_in_orders v) fund) (\<lambda>x.
                   Inr (v\<lparr>st_total_core_in_orders := x\<rparr>))) s1 = Inr s2)"
    using s2i by (elim result_elims) auto
  have s': "s' = (push_applied_operation (ExecuteBid (cb_bidder b) (mk_asset fund ?bk)
                     (mk_asset debt (asset_id (quote (cb_inv_swan_price b))))) s2)\<lparr>bids := tdel k (bids s2)\<rparr>"
    using s'0 by (simp add: push_applied_operation_def)
  have coll: "collateral_type \<lparr>co_borrower = cb_bidder b, co_collateral = fund, co_debt = debt,
                 co_call_price = p, co_target_collateral_ratio = None\<rparr> = ?bk"
    using call_price_assets(1) [OF p] by (simp add: collateral_type_def)
  note c = create_call_effect [OF s1]
  have sh1: "shifts s s1 (\<lambda>a. share_in a (mk_asset fund ?bk))"
    using c(1) ok coll by (simp add: call_ok_def held_call_def get_collateral_def)
  have "transfers s1 s2 (\<lambda>_. 0)"
    using s2
  proof (elim disjE exE)
    fix st
    assume "modify_stats st (\<lambda>v. bindE (safe_add (st_total_core_in_orders v) fund) (\<lambda>x.
                   Inr (v\<lparr>st_total_core_in_orders := x\<rparr>))) s1 = Inr s2"
    then show ?thesis by (rule stats_orders_transfers) (auto simp: bindE_eq_Inr)
  qed (simp add: transfers_refl)
  then have sh2: "shifts s1 s2 (\<lambda>_. 0)" and fr: "bids s2 = bids s1" "bitassets s2 = bitassets s1"
    by (simp_all add: transfers_def pays_onlyD)
  let ?s3 = "push_applied_operation (ExecuteBid (cb_bidder b) (mk_asset fund ?bk)
                     (mk_asset debt (asset_id (quote (cb_inv_swan_price b))))) s2"
  have "map_of (bids ?s3) k = Some b" using fr c(3) ok b by (simp add: push_applied_operation_def call_ok_def)
  moreover have "held_bid a b = 0" for a using ok(2) by (simp add: held_bid_def share_in_def)
  ultimately have "shifts ?s3 s' (\<lambda>_. 0)"
    using bids_del_shift [of ?s3 k b] by (simp add: s' push_applied_operation_def)
  from shifts_step [OF shifts_trans [OF sh1 shifts_trans [OF sh2 push_shift]] this]
  show "shifts s s' (\<lambda>a. share_in a (mk_asset fund ?bk))" by simp
  show "bitassets s' = bitassets s" using c(2) ok fr by (simp add: s' push_applied_operation_def call_ok_def)
qed

lemma cancel_bid_bitassets: "cancel_bid k vop s = Inr s' \<Longrightarrow> bitassets s' = bitassets s"
  unfolding cancel_bid_def Let_def
  by (elim result_elims) (auto simp: push_applied_operation_def keeps_def dest!: keeps_primitives)

lemma cancel_bids_conserve:
  assumes "foldE (\<lambda>k. cancel_bid k True) ks s = Inr s'"
  shows "conserves s s' \<and> bitassets s' = bitassets s"
  by (rule foldE_invariant [OF assms, of "\<lambda>t. conserves s t \<and> bitassets t = bitassets s"])
    (auto intro: conserves_trans [OF _ market_conserves(5)] simp: cancel_bid_bitassets)

lemma cancel_bids_and_revive_effect:
  assumes r: "cancel_bids_and_revive_mpa i s = Inr s'"
    and m: "map_of (assets s) i = Some mia" "bitasset_of mia s = Inr b"
  shows "shifts s s' (\<lambda>a. - held_fund a b)"
    "bitasset_of mia s' = Inr (b\<lparr>ba_settlement_price := null_price, ba_settlement_fund := 0\<rparr>)"
proof -
  obtain top s1 k where s1: "foldE (\<lambda>bid. cancel_bid bid True) (bid_range i top s) s = Inr s1"
    and k: "ao_bitasset_data mia = Some k"
    and s': "modify_bitasset k (\<lambda>v. Inr (v\<lparr>ba_settlement_price := null_price, ba_settlement_fund := 0\<rparr>)) s1 = Inr s'"
    using r unfolding cancel_bids_and_revive_mpa_def
    by (elim result_elims) (use m in \<open>auto simp: tget_Inr bitasset_id_def of_option_eq_Inr\<close>)
  note c = cancel_bids_conserve [OF s1]
  have b: "map_of (bitassets s1) k = Some b" using m(2) k c by (simp add: bitasset_of_def tget_Inr)
  have "shifts s1 s' (\<lambda>a. - held_fund a b)" using s'
    by (rule modify_bitasset_shifts)
      (use b in \<open>auto simp: held_fund_def fund_ok_def has_settlement_def price_is_null_def null_price_def\<close>)
  then show "shifts s s' (\<lambda>a. - held_fund a b)" using c shifts_step [of s s1 "\<lambda>_. 0" s'] by (auto simp: conserves_def)
  show "bitasset_of mia s' = Inr (b\<lparr>ba_settlement_price := null_price, ba_settlement_fund := 0\<rparr>)"
    using s' b k by (auto simp: modify_bitasset_def bindE_eq_Inr bitasset_of_def tget_def)
qed

text \<open>A revival opens the position of the issuer, when there is debt, and then cancels the bids.\<close>

definition opens_position :: "asset_id_type \<Rightarrow> share \<Rightarrow> asset_object \<Rightarrow> bitasset_data \<Rightarrow> chain \<Rightarrow> chain \<Rightarrow> bool" where
  "opens_position i x mia b s s2 \<longleftrightarrow> \<not> 0 < x \<and> ba_settlement_fund b = 0 \<and> s2 = s \<or>
     (\<exists>p k s1. 0 < x \<and> asset_div (mk_asset 0 (ba_short_backing_asset b)) (mk_asset x i) = Inr p \<and>
        create_bid \<lparr>cb_bidder = ao_issuer mia, cb_inv_swan_price = p\<rparr> s = Inr (k, s1) \<and>
        execute_bid k x (ba_settlement_fund b) (ba_current_feed b) s1 = Inr s2)"

lemma revive_bitasset_cases:
  assumes r: "revive_bitasset i s = Inr s'" and m: "map_of (assets s) i = Some mia" "bitasset_of mia s = Inr b"
    and ok: "issued s i = Some x"
  obtains s2 where "opens_position i x mia b s s2" "cancel_bids_and_revive_mpa i s2 = Inr s'"
  using r unfolding revive_bitasset_def
  by (elim result_elims) (use m ok that in \<open>auto simp: tget_Inr issued_def own_dyn_def opens_position_def\<close>)

lemma opens_position_shifts:
  assumes cs: "opens_position i x mia b s s2" and wf: "chain_wf s"
    and ok: "int64_ok x" "int64_ok (ba_settlement_fund b)"
  shows "shifts s s2 (\<lambda>a. held_fund a b)" "bitassets s2 = bitassets s"
proof -
  have "shifts s s2 (\<lambda>a. held_fund a b) \<and> bitassets s2 = bitassets s"
    using cs unfolding opens_position_def
  proof (elim disjE exE conjE)
    assume "ba_settlement_fund b = 0" "s2 = s"
    then show ?thesis by (auto intro: shifts_eq [OF shifts_refl] simp: held_fund_def)
  next
    fix p k s1
    assume h: "asset_div (mk_asset 0 (ba_short_backing_asset b)) (mk_asset x i) = Inr p"
      "create_bid \<lparr>cb_bidder = ao_issuer mia, cb_inv_swan_price = p\<rparr> s = Inr (k, s1)"
      "execute_bid k x (ba_settlement_fund b) (ba_current_feed b) s1 = Inr s2"
    note c = create_bid_effect [OF h(2)]
    have p: "base p = mk_asset 0 (ba_short_backing_asset b)" using h(1) by (auto simp: asset_div_Inr)
    note e = execute_bid_effect [OF h(3) c(3) [OF wf] ok(1) _ ok(2)]
    have "shifts s s1 (\<lambda>_. 0)" using c(1) by (simp add: held_bid_def p)
    then show ?thesis using shifts_step [of s s1 "\<lambda>_. 0" s2] e c(2) by (auto simp: p held_fund_def)
  qed
  then show "shifts s s2 (\<lambda>a. held_fund a b)" "bitassets s2 = bitassets s" by simp_all
qed

lemma opens_position_keeps:
  assumes cs: "opens_position i x mia b s s2" and wf: "chain_wf s"
    and m: "map_of (assets s) i = Some mia" "bitasset_of mia s = Inr b"
    and ok: "int64_ok x" "int64_ok (ba_settlement_fund b)"
  shows "chain_wf s2" "map_of (assets s2) i = Some mia" "bitasset_of mia s2 = Inr b"
  using opens_position_shifts [OF cs wf ok] m wf by (simp_all add: shifts_def bitasset_of_def split: option.splits)

lemma revive_bitasset_effect:
  assumes r: "revive_bitasset i s = Inr s'" and wf: "chain_wf s"
    and m: "map_of (assets s) i = Some mia" "bitasset_of mia s = Inr b"
    and ok: "issued s i = Some x" "int64_ok x" "int64_ok (ba_settlement_fund b)"
  shows "conserves s s'" "bitasset_of mia s' = Inr (b\<lparr>ba_settlement_price := null_price, ba_settlement_fund := 0\<rparr>)"
proof -
  obtain s2 where cs: "opens_position i x mia b s s2" and s2: "cancel_bids_and_revive_mpa i s2 = Inr s'"
    using revive_bitasset_cases [OF r m ok(1)] .
  note c = cancel_bids_and_revive_effect [OF s2 opens_position_keeps(2,3) [OF cs wf m ok(2,3)]]
  show "conserves s s'" unfolding conserves_def using shifts_step [OF opens_position_shifts(1) [OF cs wf ok(2,3)] c(1)] by simp
  show "bitasset_of mia s' = Inr (b\<lparr>ba_settlement_price := null_price, ba_settlement_fund := 0\<rparr>)" by (rule c(2))
qed

subsection \<open>What a revival pays back\<close>

text \<open>The bids on an asset, and what a bid that is cancelled gives back to an account.\<close>

definition bids_on :: "asset_id_type \<Rightarrow> chain \<Rightarrow> (nat \<times> collateral_bid) list" where
  "bids_on i s = filter (\<lambda>e. bid_debt_type (snd e) = i) (bids s)"

definition refunded :: "nat \<Rightarrow> asset_id_type \<Rightarrow> collateral_bid \<Rightarrow> int" where
  "refunded acct a b = (if cb_bidder b = acct then share_in a (base (cb_inv_swan_price b)) else 0)"

text \<open>A bid on an asset is made in its backing asset and does not exceed the greatest price.\<close>

definition bid_in_market :: "asset_id_type \<Rightarrow> collateral_bid \<Rightarrow> bool" where
  "bid_in_market backing b \<longleftrightarrow> asset_id (base (cb_inv_swan_price b)) = backing \<and>
     0 \<le> amount (base (cb_inv_swan_price b)) \<and> amount (base (cb_inv_swan_price b)) \<le> MAX_SHARE_SUPPLY \<and>
     1 \<le> amount (quote (cb_inv_swan_price b)) \<and> amount (quote (cb_inv_swan_price b)) \<le> safe_max"

lemma tdel_filter: "tdel k t = filter (\<lambda>e. fst e \<noteq> k) t"
  by (auto simp: tdel_def AList.delete_eq case_prod_unfold intro!: filter_cong)

lemma cancel_bid_effect:
  assumes r: "cancel_bid k vop s = Inr s'" and wf: "chain_wf s"
  shows "bids s' = tdel k (bids s)" "calls s' = calls s"
    "amount (get_balance acct a s') + tsum (refunded acct a) (bids s') =
     amount (get_balance acct a s) + tsum (refunded acct a) (bids s)"
proof -
  obtain b s1 where b: "map_of (bids s) k = Some b"
    and s1: "adjust_balance (cb_bidder b) (base (cb_inv_swan_price b)) s = Inr s1"
    and s': "s' = s1\<lparr>applied_ops := applied_ops s', bids := tdel k (bids s1)\<rparr>"
    using r unfolding cancel_bid_def Let_def
    by (elim result_elims) (auto simp: deref_Inr push_applied_operation_def split: if_splits)
  have fr: "bids s1 = bids s" "calls s1 = calls s" using s1 by (auto elim: adjust_balance_frame)
  show ids: "bids s' = tdel k (bids s)" by (subst s') (simp add: fr)
  show "calls s' = calls s" by (subst s') (simp add: fr)
  have "get_balance acct a s' = get_balance acct a s1" by (subst s') (simp add: get_balance_def)
  then show "amount (get_balance acct a s') + tsum (refunded acct a) (bids s') =
     amount (get_balance acct a s) + tsum (refunded acct a) (bids s)"
    using adjust_balance_get [OF wf s1, of acct a] tsum_tdel [OF wf_tables(5) [OF wf] b, of "refunded acct a"]
    by (auto simp: ids refunded_def share_in_def)
qed

lemma cancel_bids_effect:
  assumes "foldE (\<lambda>k. cancel_bid k True) ks s = Inr s'" "chain_wf s"
  shows "bids s' = filter (\<lambda>e. fst e \<notin> set ks) (bids s) \<and> calls s' = calls s \<and>
    amount (get_balance acct a s') + tsum (refunded acct a) (bids s') =
    amount (get_balance acct a s) + tsum (refunded acct a) (bids s)"
  using assms
proof (induction ks arbitrary: s)
  case (Cons k ks)
  obtain s1 where s1: "cancel_bid k True s = Inr s1" "foldE (\<lambda>k. cancel_bid k True) ks s1 = Inr s'"
    using Cons.prems(1) by (auto simp: bindE_eq_Inr)
  have "chain_wf s1" using conservesD(1) [OF market_conserves(5) [OF s1(1)] Cons.prems(2)] .
  from Cons.IH [OF s1(2) this] cancel_bid_effect [OF s1(1) Cons.prems(2)] show ?case
    by (auto simp: tdel_filter intro!: filter_cong)
qed simp

text \<open>The range of \<open>by_price\<close> that the code goes through holds all the bids on the asset.\<close>

lemma takeWhile_sorted:
  fixes key :: "'a \<Rightarrow> 'b::linorder"
  shows "sorted (map key xs) \<Longrightarrow> (\<And>e. e \<in> set xs \<Longrightarrow> i \<le> key e) \<Longrightarrow>
    set (takeWhile (\<lambda>e. key e = i) xs) = {e \<in> set xs. key e = i}"
proof (induction xs)
  case (Cons x xs)
  show ?case
  proof (cases "key x = i")
    case True
    then show ?thesis using Cons by (simp add: Collect_disj_eq conj_disj_distribR) blast
  next
    case False
    then have "i < key x" using Cons.prems(2) [of x] by simp
    then have "\<And>e. e \<in> set xs \<Longrightarrow> i < key e" using Cons.prems(1) by (auto dest: order_less_le_trans)
    then show ?thesis using False by auto
  qed
qed simp

lemma takeWhile_dropWhile_sorted:
  fixes key :: "'a \<Rightarrow> 'b::linorder"
  shows "sorted (map key xs) \<Longrightarrow>
    set (takeWhile (\<lambda>e. key e = i) (dropWhile (\<lambda>e. key e < i) xs)) = {e \<in> set xs. key e = i}"
proof (induction xs)
  case (Cons x xs)
  show ?case
  proof (cases "key x < i")
    case True
    then show ?thesis using Cons by auto
  next
    case False
    have "\<And>e. e \<in> set (x # xs) \<Longrightarrow> i \<le> key e" using False Cons.prems by (auto dest: order_trans [of i "key x"])
    then show ?thesis using takeWhile_sorted [OF Cons.prems, of i] False by simp
  qed
qed simp

lemma bid_below_max:
  assumes "price_max backing i = Inr upper" "bid_in_market backing b" "bid_debt_type b = i"
  shows "\<not> price_gt (cb_inv_swan_price b) upper"
proof -
  let ?n = "amount (base (cb_inv_swan_price b))" and ?d = "amount (quote (cb_inv_swan_price b))"
  have n: "0 \<le> ?n" "?n \<le> MAX_SHARE_SUPPLY" and d: "1 \<le> ?d" "?d \<le> safe_max"
    using assms(2) by (simp_all add: bid_in_market_def)
  have le: "?n \<le> ?d * MAX_SHARE_SUPPLY"
    using n(2) mult_right_mono [of 1 ?d MAX_SHARE_SUPPLY] d(1) by (simp add: MAX_SHARE_SUPPLY_def)
  have "?d * MAX_SHARE_SUPPLY < 2 ^ 128"
    using d mult_right_mono [of ?d safe_max MAX_SHARE_SUPPLY] by (simp add: MAX_SHARE_SUPPLY_def safe_max_def)
  then have "uint (u128 (?d * MAX_SHARE_SUPPLY)) = ?d * MAX_SHARE_SUPPLY" "uint (u128 ?n) = ?n"
    using n le by (auto intro!: uint_u128)
  then have "\<not> u128 ?d * u128 MAX_SHARE_SUPPLY < u128 1 * u128 ?n"
    using le by (simp add: u128_mult word_less_def)
  then show ?thesis using assms
    by (auto simp: price_max_def asset_div_Inr price_gt_def price_less_def bid_in_market_def bid_debt_type_def)
qed

lemma bid_range_set:
  assumes "price_max backing i = Inr upper" "\<And>e. e \<in> set (bids_on i s) \<Longrightarrow> bid_in_market backing (snd e)"
  shows "set (bid_range i upper s) = fst ` set (bids_on i s)"
proof -
  let ?key = "\<lambda>e. bid_debt_type (snd e)"
  have "\<not> price_gt (cb_inv_swan_price (snd e)) upper" if "e \<in> set (bids_by_price s)" "?key e = i" for e
    using bid_below_max [OF assms(1) assms(2)] that by (simp add: bids_on_def bids_by_price_def)
  then have "dropWhile (\<lambda>e. ?key e < i \<or> (?key e = i \<and> price_gt (cb_inv_swan_price (snd e)) upper)) (bids_by_price s)
      = dropWhile (\<lambda>e. ?key e < i) (bids_by_price s)"
    by (intro dropWhile_cong) auto
  moreover have "sorted (map ?key (bids_by_price s))"
    unfolding bids_by_price_def by (rule index_by_sorted) (auto simp: bid_before_def)
  ultimately show ?thesis
    using takeWhile_dropWhile_sorted [of ?key "bids_by_price s" i]
    by (simp add: bid_range_def bids_on_def bids_by_price_def)
qed

lemma table_filter_keys:
  assumes "table_ok t n" "A \<subseteq> set t"
  shows "filter (\<lambda>e. fst e \<notin> fst ` A) t = filter (\<lambda>e. e \<notin> A) t"
proof (rule filter_cong [OF refl])
  fix e assume e: "e \<in> set t"
  have "inj_on fst (set t)" using assms(1) by (simp add: table_ok_def distinct_map)
  then have "fst e \<in> fst ` A \<longleftrightarrow> e \<in> A" using e assms(2) by (auto dest: inj_onD)
  then show "fst e \<notin> fst ` A \<longleftrightarrow> e \<notin> A" by simp
qed

lemma tsum_split: "tsum f t = tsum f (filter P t) + tsum f (filter (\<lambda>e. \<not> P e) t)"
  by (induction t) (auto simp: tsum_def)

lemma cancel_bids_and_revive_calls:
  assumes r: "cancel_bids_and_revive_mpa i s = Inr s'" and wf: "chain_wf s"
    and m: "map_of (assets s) i = Some mia" "bitasset_of mia s = Inr b"
  shows "calls s' = calls s"
proof -
  obtain ks s1 k where s1: "foldE (\<lambda>bid. cancel_bid bid True) ks s = Inr s1"
    and s': "modify_bitasset k (\<lambda>v. Inr (v\<lparr>ba_settlement_price := null_price, ba_settlement_fund := 0\<rparr>)) s1 = Inr s'"
    using r unfolding cancel_bids_and_revive_mpa_def by (elim result_elims) auto
  then show ?thesis using cancel_bids_effect [OF s1 wf] by (auto simp: modify_bitasset_def bindE_eq_Inr)
qed

lemma cancel_bids_and_revive_pays:
  assumes r: "cancel_bids_and_revive_mpa i s = Inr s'" and wf: "chain_wf s"
    and m: "map_of (assets s) i = Some mia" "bitasset_of mia s = Inr b"
    and ok: "\<And>e. e \<in> set (bids_on i s) \<Longrightarrow> bid_in_market (ba_short_backing_asset b) (snd e)"
  shows "bids s' = filter (\<lambda>e. bid_debt_type (snd e) \<noteq> i) (bids s)"
    "amount (get_balance acct a s') = amount (get_balance acct a s) + tsum (refunded acct a) (bids_on i s)"
proof -
  obtain upper s1 k where upper: "price_max (ba_short_backing_asset b) i = Inr upper"
    and s1: "foldE (\<lambda>bid. cancel_bid bid True) (bid_range i upper s) s = Inr s1"
    and s': "modify_bitasset k (\<lambda>v. Inr (v\<lparr>ba_settlement_price := null_price, ba_settlement_fund := 0\<rparr>)) s1 = Inr s'"
    using r unfolding cancel_bids_and_revive_mpa_def
    by (elim result_elims) (use m in \<open>auto simp: tget_Inr\<close>)
  have fr: "bids s' = bids s1" "get_balance acct a s' = get_balance acct a s1"
    using s' by (auto simp: modify_bitasset_def bindE_eq_Inr get_balance_def)
  note c = cancel_bids_effect [OF s1 wf, of acct a]
  have "bids s1 = filter (\<lambda>e. e \<notin> set (bids_on i s)) (bids s)"
    using c bid_range_set [OF upper ok] table_filter_keys [OF wf_tables(5) [OF wf], of "set (bids_on i s)"]
    by (simp add: bids_on_def subset_iff)
  also have "\<dots> = filter (\<lambda>e. bid_debt_type (snd e) \<noteq> i) (bids s)"
    by (intro filter_cong) (auto simp: bids_on_def)
  finally have b1: "bids s1 = filter (\<lambda>e. bid_debt_type (snd e) \<noteq> i) (bids s)" .
  then show "bids s' = filter (\<lambda>e. bid_debt_type (snd e) \<noteq> i) (bids s)" using fr by simp
  show "amount (get_balance acct a s') = amount (get_balance acct a s) + tsum (refunded acct a) (bids_on i s)"
    using c fr b1 tsum_split [of "refunded acct a" "bids s" "\<lambda>e. bid_debt_type (snd e) = i"]
    by (simp add: bids_on_def)
qed

text \<open>The pseudo bid of the issuer becomes the new position.\<close>

definition revived_call :: "nat \<Rightarrow> share \<Rightarrow> share \<Rightarrow> price \<Rightarrow> call_order" where
  "revived_call borrower coll debt p = \<lparr>co_borrower = borrower, co_collateral = coll, co_debt = debt,
     co_call_price = p, co_target_collateral_ratio = None\<rparr>"

lemma execute_bid_opens:
  assumes r: "execute_bid k debt fund feed s = Inr s'" and b: "map_of (bids s) k = Some b"
    and ok: "amount (base (cb_inv_swan_price b)) = 0" "int64_ok fund"
  shows "\<exists>p. call_price (mk_asset debt (bid_debt_type b)) (mk_asset fund (asset_id (base (cb_inv_swan_price b))))
      (pf_maintenance_collateral_ratio feed) = Inr p \<and>
      calls s' = tadd (next_call s) (revived_call (cb_bidder b) fund debt p) (calls s)"
    "bids s' = tdel k (bids s)" "balances s' = balances s" "assets s' = assets s"
proof -
  have d: "deref (bids s) k = Inr b" "safe_add (amount (base (cb_inv_swan_price b))) fund = Inr fund"
    using b ok by (auto simp: deref_Inr safe_add_Inr int64_ok_def)
  show "\<exists>p. call_price (mk_asset debt (bid_debt_type b)) (mk_asset fund (asset_id (base (cb_inv_swan_price b))))
      (pf_maintenance_collateral_ratio feed) = Inr p \<and>
      calls s' = tadd (next_call s) (revived_call (cb_bidder b) fund debt p) (calls s)"
    "bids s' = tdel k (bids s)" "balances s' = balances s" "assets s' = assets s"
    using r [unfolded execute_bid_def Let_def d bindE_simps]
    by (elim result_elims; force simp: create_call_def assertE_eq_Inr bid_debt_type_def revived_call_def
        push_applied_operation_def elim!: modify_stats_frame)+
qed

lemma opens_position_effect:
  assumes cs: "opens_position i x mia b s s2" and wf: "chain_wf s" and ok: "int64_ok (ba_settlement_fund b)"
  shows "bids s2 = bids s" "get_balance acct a s2 = get_balance acct a s"
    "if 0 < x then \<exists>p. call_price (mk_asset x i) (mk_asset (ba_settlement_fund b) (ba_short_backing_asset b))
        (pf_maintenance_collateral_ratio (ba_current_feed b)) = Inr p \<and>
        calls s2 = tadd (next_call s) (revived_call (ao_issuer mia) (ba_settlement_fund b) x p) (calls s)
     else ba_settlement_fund b = 0 \<and> calls s2 = calls s"
proof -
  have "bids s2 = bids s \<and> get_balance acct a s2 = get_balance acct a s \<and>
    (if 0 < x then \<exists>p. call_price (mk_asset x i) (mk_asset (ba_settlement_fund b) (ba_short_backing_asset b))
        (pf_maintenance_collateral_ratio (ba_current_feed b)) = Inr p \<and>
        calls s2 = tadd (next_call s) (revived_call (ao_issuer mia) (ba_settlement_fund b) x p) (calls s)
     else ba_settlement_fund b = 0 \<and> calls s2 = calls s)"
    using cs unfolding opens_position_def
  proof (elim disjE exE conjE)
    fix p k s1
    assume h: "0 < x" "asset_div (mk_asset 0 (ba_short_backing_asset b)) (mk_asset x i) = Inr p"
      "create_bid \<lparr>cb_bidder = ao_issuer mia, cb_inv_swan_price = p\<rparr> s = Inr (k, s1)"
      "execute_bid k x (ba_settlement_fund b) (ba_current_feed b) s1 = Inr s2"
    have p: "p = \<lparr>base = mk_asset 0 (ba_short_backing_asset b), quote = mk_asset x i\<rparr>"
      using h(2) by (auto simp: asset_div_Inr)
    have s1: "k = next_bid s" "bids s1 = tadd (next_bid s) \<lparr>cb_bidder = ao_issuer mia, cb_inv_swan_price = p\<rparr> (bids s)"
      "calls s1 = calls s" "next_call s1 = next_call s" "balances s1 = balances s"
      using h(3) by (auto simp: create_bid_def assertE_eq_Inr)
    have "map_of (bids s1) k = Some \<lparr>cb_bidder = ao_issuer mia, cb_inv_swan_price = p\<rparr>"
      using create_bid_effect(3) [OF h(3) wf] .
    note e = execute_bid_opens [OF h(4) this _ ok]
    have "tdel k (bids s1) = bids s"
      using wf_tables(5) [OF wf] by (auto simp: s1 tdel_filter tadd_def table_ok_def intro!: filter_True)
    then show ?thesis using e s1 h(1) by (auto simp: p get_balance_def bid_debt_type_def)
  qed simp
  then show "bids s2 = bids s" "get_balance acct a s2 = get_balance acct a s"
    "if 0 < x then \<exists>p. call_price (mk_asset x i) (mk_asset (ba_settlement_fund b) (ba_short_backing_asset b))
        (pf_maintenance_collateral_ratio (ba_current_feed b)) = Inr p \<and>
        calls s2 = tadd (next_call s) (revived_call (ao_issuer mia) (ba_settlement_fund b) x p) (calls s)
     else ba_settlement_fund b = 0 \<and> calls s2 = calls s"
    by simp_all
qed

lemma revive_bitasset_opens:
  assumes r: "revive_bitasset i s = Inr s'" and wf: "chain_wf s"
    and m: "map_of (assets s) i = Some mia" "bitasset_of mia s = Inr b"
    and ok: "issued s i = Some x" "int64_ok x" "int64_ok (ba_settlement_fund b)"
  shows "if 0 < x then \<exists>p. call_price (mk_asset x i) (mk_asset (ba_settlement_fund b) (ba_short_backing_asset b))
        (pf_maintenance_collateral_ratio (ba_current_feed b)) = Inr p \<and>
        calls s' = tadd (next_call s) (revived_call (ao_issuer mia) (ba_settlement_fund b) x p) (calls s)
     else ba_settlement_fund b = 0 \<and> calls s' = calls s"
proof -
  obtain s2 where cs: "opens_position i x mia b s s2" and s2: "cancel_bids_and_revive_mpa i s2 = Inr s'"
    using revive_bitasset_cases [OF r m ok(1)] .
  note k = opens_position_keeps [OF cs wf m ok(2,3)]
  show ?thesis using opens_position_effect(3) [OF cs wf ok(3)] cancel_bids_and_revive_calls [OF s2 k] by simp
qed

lemma revive_bitasset_pays:
  assumes r: "revive_bitasset i s = Inr s'" and wf: "chain_wf s"
    and m: "map_of (assets s) i = Some mia" "bitasset_of mia s = Inr b"
    and ok: "issued s i = Some x" "int64_ok x" "int64_ok (ba_settlement_fund b)"
    and bok: "\<forall>e \<in> set (bids_on i s). bid_in_market (ba_short_backing_asset b) (snd e)"
  shows "bids s' = filter (\<lambda>e. bid_debt_type (snd e) \<noteq> i) (bids s) \<and>
    (\<forall>acct a. amount (get_balance acct a s') =
       amount (get_balance acct a s) + tsum (refunded acct a) (bids_on i s))"
proof -
  obtain s2 where cs: "opens_position i x mia b s s2" and s2: "cancel_bids_and_revive_mpa i s2 = Inr s'"
    using revive_bitasset_cases [OF r m ok(1)] .
  note k = opens_position_keeps [OF cs wf m ok(2,3)]
  note e = opens_position_effect(1,2) [OF cs wf ok(3)]
  then have "bids_on i s2 = bids_on i s" by (simp add: bids_on_def)
  with bok e show ?thesis using cancel_bids_and_revive_pays [OF s2 k] by simp
qed

subsection \<open>Margin calls end\<close>

lemma fill_limit_order_cases:
  assumes r: "fill_limit_order oid pays receives True p mk s = Inr (b, s')"
  obtains o1 where "map_of (limits s) oid = Some o1" "b" "limits s' = tdel oid (limits s)"
      "pays = amount_for_sale o1"
    | o1 o2 r where "map_of (limits s) oid = Some o1" "pays \<noteq> amount_for_sale o1"
      "lo_for_sale o2 = lo_for_sale o1 - amount pays" "lo_sell_price o2 = lo_sell_price o1"
      "amount_to_receive o2 = Inr r" "b \<longleftrightarrow> amount r = 0"
      "limits s' = (if b then tdel oid (tput oid o2 (limits s)) else tput oid o2 (limits s))"
proof -
  obtain o1 s5 where o1: "map_of (limits s) oid = Some o1" and k: "keeps s s5 \<and> limits s5 = limits s"
    and f: "(if pays = amount_for_sale o1 then Inr (True, s5\<lparr>limits := tdel oid (limits s5)\<rparr>)
         else
           bindE (safe_sub (lo_for_sale o1) (amount pays)) (\<lambda>x.
           maybe_cull_small_order oid (s5\<lparr>limits := tput oid (o1\<lparr>lo_for_sale := x, lo_deferred_fee := 0,
                        lo_deferred_paid_fee := mk_asset 0 (asset_id (lo_deferred_paid_fee o1))\<rparr>) (limits s5)\<rparr>))) = Inr (b, s')"
    using r unfolding fill_limit_order_def Let_def
    apply (elim bindE_E assertE_E prod_result_E)
    apply (rule that)
      apply (simp only: deref_Inr)
     prefer 2
     apply (simp only: simp_thms if_True)
    apply (auto simp: push_applied_operation_def keeps_def split: if_split_asm
       dest!: keeps_primitives pay_market_fees_keeps pay_order_keeps elim!: bindE_E)
    done
  show thesis
  proof (cases "pays = amount_for_sale o1")
    case True
    then show thesis using f k o1 by (intro that(1)) auto
  next
    case False
    then obtain x where x: "safe_sub (lo_for_sale o1) (amount pays) = Inr x"
      "maybe_cull_small_order oid (s5\<lparr>limits := tput oid (o1\<lparr>lo_for_sale := x, lo_deferred_fee := 0,
                        lo_deferred_paid_fee := mk_asset 0 (asset_id (lo_deferred_paid_fee o1))\<rparr>) (limits s5)\<rparr>) = Inr (b, s')"
      using f by (auto simp: bindE_eq_Inr)
    let ?o2 = "o1\<lparr>lo_for_sale := x, lo_deferred_fee := 0,
                        lo_deferred_paid_fee := mk_asset 0 (asset_id (lo_deferred_paid_fee o1))\<rparr>"
    obtain r where "amount_to_receive ?o2 = Inr r" "b \<longleftrightarrow> amount r = 0"
        "limits s' = (if b then tdel oid (tput oid ?o2 (limits s)) else tput oid ?o2 (limits s))"
      using maybe_cull_effect [OF x(2)] k by auto
    then show thesis using o1 False x(1) by (intro that(2) [of o1 ?o2 r]) (simp_all add: safe_sub_Inr)
  qed
qed

text \<open>A limit order that gave what its receipts are worth has too little left to receive anything.\<close>

lemma rest_receives_nothing:
  assumes "share_ok f" "valid_price p" "asset_mul (mk_asset f (asset_id (base p))) p = Inr k"
    and "multiply_and_round_up k p = Inr c" "asset_mul (mk_asset (f - amount c) (asset_id (base p))) p = Inr r"
  shows "amount r = 0"
proof -
  have pos: "0 < amount (base p)" "0 < amount (quote p)" using assms(2) by (simp_all add: valid_price_def)
  let ?b = "amount (base p)" and ?q = "amount (quote p)"
  have k: "k = mk_asset (f * ?q div ?b) (asset_id (quote p))" and kM: "amount k \<le> MAX_SHARE_SUPPLY"
    using assms(3) asset_mul_base [of "mk_asset f (asset_id (base p))" p] assms(1,2) by (auto simp: result_simps)
  have "0 \<le> amount k" using assms(3) asset_mul_range by blast
  then have kok: "share_ok (amount k)" using kM by (simp add: share_ok_def MAX_SHARE_SUPPLY_def safe_max_def)
  have "multiply_and_round_up k p = checked_supply (ceil_div (amount k * ?b) ?q) (asset_id (base p))"
    using kok assms(2) k by (subst round_up_quote) simp_all
  then have "checked_supply (ceil_div (amount k * ?b) ?q) (asset_id (base p)) = Inr c" using assms(4) by simp
  then have c: "amount c = ceil_div (amount k * ?b) ?q" by (auto simp: checked_supply_Inr)
  have b: "0 \<le> amount c \<and> amount c \<le> f"
    using round_back_base [of "mk_asset f (asset_id (base p))" p k c] assms by simp
  have "amount k * ?b \<le> amount c * ?q" using pos c ceil_div_ge by simp
  moreover have "f * ?q < (amount k + 1) * ?b" using floor_div_bounds(2) [OF pos(1), of "f * ?q"] k by simp
  ultimately have "(f - amount c) * ?q < ?b" by (simp add: algebra_simps)
  moreover have "0 \<le> (f - amount c) * ?q" using b pos by simp
  moreover have "share_ok (f - amount c)" using b assms(1) by (simp add: share_ok_def)
  ultimately show ?thesis
    using assms(5) asset_mul_base [of "mk_asset (f - amount c) (asset_id (base p))" p] assms(2)
    by (auto simp: result_simps)
qed


text \<open>The calls of a state that the loop meets: no target ratio, unless it is before hard fork core-834.\<close>

definition no_targets :: "chain \<Rightarrow> bool" where
  "no_targets s \<longleftrightarrow> HARDFORK_CORE_834_TIME < next_maintenance_time s \<longrightarrow> HARDFORK_436_TIME < head_time s \<and>
     table_all (\<lambda>c. co_target_collateral_ratio c = None) (calls s)"

definition sales_ok :: "chain \<Rightarrow> bool" where
  "sales_ok s \<longleftrightarrow> table_all (\<lambda>l. 0 \<le> lo_for_sale l) (limits s)"

lemma fill_call_order_calls:
  assumes r: "fill_call_order cid pays receives p mk s = Inr (b, s')"
  obtains c c1 where "map_of (calls s) cid = Some c" "co_target_collateral_ratio c1 = co_target_collateral_ratio c"
    "calls s' = (if b then tdel cid (tput cid c1 (calls s)) else tput cid c1 (calls s))"
    "b \<longleftrightarrow> co_debt c = amount receives"
proof -
  obtain c mia c1 freed where c: "map_of (calls s) cid = Some c" and ch: "fill_call_change mia pays receives s c = Inr (c1, freed)"
    and f: "b \<longleftrightarrow> freed \<noteq> None"
      "calls s' = (if freed \<noteq> None then tdel cid (tput cid c1 (calls s)) else tput cid c1 (calls s))"
    using r unfolding fill_call_order_def Let_def
    apply (elim bindE_E assertE_E prod_result_E)
    apply (rule that)
       apply (simp only: deref_Inr)
      apply (simp only:)
     apply simp
    apply (auto simp: push_applied_operation_def keeps_def split: if_split_asm option.split_asm dest!: keeps_primitives elim!: bindE_E)
    done
  have "co_target_collateral_ratio c1 = co_target_collateral_ratio c \<and> (freed \<noteq> None \<longleftrightarrow> co_debt c = amount receives)"
    using ch unfolding fill_call_change_def Let_def
    by (elim result_elims) (auto simp: safe_sub_Inr)
  then show thesis using c f by (intro that [of c c1]) auto
qed

lemma length_tput_tdel:
  "map_of t k = Some v \<Longrightarrow> length (tput k w t) = length t"
  "map_of t k = Some v \<Longrightarrow> length (tdel k t) < length t"
  "length (tdel k t) \<le> length t"
proof -
  show "map_of t k = Some v \<Longrightarrow> length (tput k w t) = length t"
    unfolding tput_def by (induction t) auto
  show le: "length (tdel k t) \<le> length t" for t
    unfolding tdel_def by (simp add: AList.delete_eq)
  show "map_of t k = Some v \<Longrightarrow> length (tdel k t) < length t"
    unfolding tdel_def AList.delete_eq by (force intro: length_filter_less dest: map_of_SomeD)
qed

lemma margin_trade_progress:
  assumes r: "margin_trade i fn cid lid x l fl s = Inr (fc, fl', really, s1, s2)"
    and wf: "chain_wf s" and so: "sales_ok s" and nt: "no_targets s"
    and l: "map_of (limits s) lid = Some l" and c: "map_of (calls s) cid = Some c" and x: "x = get_debt c"
  shows "keeps s1 s2" "next_maintenance_time s2 = next_maintenance_time s" "sales_ok s2" "no_targets s2"
    "length (calls s2) \<le> length (calls s)" "fc \<Longrightarrow> length (calls s2) < length (calls s)" "\<not> fc \<Longrightarrow> really"
proof -
  define s0 where "s0 = (if fc \<and> x \<noteq> amount_for_sale l \<and> fl \<and> next_maintenance_time s \<le> HARDFORK_CORE_453_TIME \<and> head_time s < HARDFORK_615_TIME
               then s\<lparr>issue_453_affected_assets := List.insert i (issue_453_affected_assets s)\<rparr> else s)"
  obtain orc crc b1 where a: "margin_amounts x (amount_for_sale l) (lo_sell_price l) fl (next_maintenance_time s) = Inr (orc, crc, fl', fc)"
    and fc: "fill_call_order cid orc crc (lo_sell_price l) fn s0 = Inr (b1, s1)"
    and fl: "fill_limit_order lid crc orc True (lo_sell_price l) (\<not> fn) s1 = Inr (really, s2)"
    using r unfolding margin_trade_def Let_def s0_def by (auto simp: bindE_eq_Inr)
  have s0: "calls s0 = calls s" "limits s0 = limits s" "next_maintenance_time s0 = next_maintenance_time s" "head_time s0 = head_time s"
    by (simp_all add: s0_def)
  note fs = fill_call_order_shifts(4,5,8) [OF fc]
  show k: "keeps s1 s2" by (rule fill_limit_order_keeps [OF fl])
  then show m: "next_maintenance_time s2 = next_maintenance_time s" using fs s0 by (simp add: keeps_def)
  have h: "head_time s2 = head_time s" "calls s2 = calls s1" using k fs s0 by (simp_all add: keeps_def)
  have lok: "limit_ok l" "0 \<le> lo_for_sale l"
    using table_allD [OF wf_tables(7) [OF wf] l] table_allD [OF so [unfolded sales_ok_def] l] by simp_all
  then have share: "share_ok (lo_for_sale l)" by (simp add: limit_ok_def share_ok_def int64_ok_def)
  obtain c1 where c1: "co_target_collateral_ratio c1 = co_target_collateral_ratio c"
      "calls s1 = (if b1 then tdel cid (tput cid c1 (calls s)) else tput cid c1 (calls s))" "b1 \<longleftrightarrow> co_debt c = amount crc"
    using fc c by (auto simp: s0 elim!: fill_call_order_calls)
  show le: "length (calls s2) \<le> length (calls s)"
    using length_tput_tdel(1) [OF c, of c1] length_tput_tdel(3) [of cid "tput cid c1 (calls s)"] by (simp add: h c1(2))
  show "no_targets s2"
    using nt m h c1 c unfolding no_targets_def
    by (auto intro!: table_all_tput table_all_tdel dest: table_allD)
  show "length (calls s2) < length (calls s)" if "fc"
  proof -
    have "crc = x" using a that by (auto simp: margin_amounts_def bindE_eq_Inr split: if_split_asm)
    then have "b1" using c1(3) x by (simp add: get_debt_def)
    then have "calls s2 = tdel cid (tput cid c1 (calls s))" by (simp add: h c1(2))
    moreover have "map_of (tput cid c1 (calls s)) cid = Some c1" by simp
    ultimately show ?thesis
      using length_tput_tdel(2) [of "tput cid c1 (calls s)" cid c1] length_tput_tdel(1) [OF c, of c1] by simp
  qed
  let ?p = "lo_sell_price l"
  have vp: "valid_price ?p" using lok by (simp add: limit_ok_def)
  have fs_l: "amount_for_sale l = mk_asset (lo_for_sale l) (asset_id (base ?p))" by (simp add: amount_for_sale_def)
  have cases: "amount crc \<le> lo_for_sale l \<or> crc = amount_for_sale l \<or>
      (\<exists>k. asset_mul (amount_for_sale l) ?p = Inr k \<and> multiply_and_round_up k ?p = Inr crc)"
    "\<not> fc \<Longrightarrow> crc = amount_for_sale l \<or>
      (\<exists>k. asset_mul (amount_for_sale l) ?p = Inr k \<and> multiply_and_round_up k ?p = Inr crc)"
    using a by (auto simp: margin_amounts_def bindE_eq_Inr asset_cmp_Inr fs_l split: if_split_asm)
  have amt: "0 \<le> lo_for_sale l - amount crc"
    using cases(1) round_back_base [of "amount_for_sale l" ?p _ crc] share vp by (auto simp: fs_l)
  have ll: "map_of (limits s1) lid = Some l" "limits s1 = limits s" using fs s0 l by simp_all
  have all: "table_all (\<lambda>l. 0 \<le> lo_for_sale l) (limits s)" using so by (simp add: sales_ok_def)
  show "sales_ok s2"
    using fl
  proof (cases rule: fill_limit_order_cases)
    case (1 o1)
    then show ?thesis using all ll by (simp add: sales_ok_def table_all_tdel)
  next
    case (2 o1 o2 r)
    have "table_all (\<lambda>l. 0 \<le> lo_for_sale l) (tput lid o2 (limits s))"
      using all 2(1,3) ll amt by (intro table_all_tput) simp_all
    then show ?thesis using 2(7) ll(2) by (simp add: sales_ok_def table_all_tdel)
  qed
  show "really" if nfc: "\<not> fc"
    using fl
  proof (cases rule: fill_limit_order_cases)
    case (2 o1 o2 r)
    have o: "o1 = l" using 2(1) ll by simp
    then obtain k where k: "asset_mul (amount_for_sale l) ?p = Inr k" "multiply_and_round_up k ?p = Inr crc"
      using cases(2) [OF nfc] 2(2) by auto
    have "asset_mul (mk_asset (lo_for_sale l - amount crc) (asset_id (base ?p))) ?p = Inr r"
      using 2(3-5) o by (simp add: amount_to_receive_def amount_for_sale_def)
    then show ?thesis using rest_receives_nothing [OF share vp _ k(2)] k(1) 2(6) by (simp add: fs_l)
  qed
qed

text \<open>Without a target ratio the whole debt is covered, or nothing when the feed protects the position.\<close>

lemma max_debt_no_target:
  assumes "get_max_debt_to_cover c mp fp mcr = Inr y" "co_target_collateral_ratio c = None"
    and "asset_id (base fp) = debt_type c" "asset_id (quote fp) = collateral_type c" "debt_type c \<noteq> collateral_type c"
    and "\<not> price_gt fp (price_inv (co_call_price c))"
  shows "y = co_debt c"
proof -
  have "\<not> price_gt (co_call_price c) (price_inv fp)"
    using assms(3-6) by (simp add: price_gt_def price_less_def price_inv_def debt_type_def collateral_type_def mult.commute)
  then show ?thesis using assms(1-5)
    unfolding get_max_debt_to_cover_def Let_def
    by (auto simp: assertE_eq_Inr debt_type_def collateral_type_def split: if_split_asm)
qed

lemma margin_step_next:
  assumes r: "margin_step i en fn cmin cmax ci li fl mc s = Inr (Next ci' li' fl', s2)"
    and b: "map_of (assets s) i = Some mia" "bitasset_of mia s = Inr b"
  obtains c l x fc w s1 where "map_of (calls s) (hd ci) = Some c" "map_of (limits s) (hd li) = Some l"
    "margin_trade (ba_asset b) fn (hd ci) (hd li) x l fl s = Inr (fc, fl', w, s1, s2)"
    "ci' = (if HARDFORK_CORE_343_TIME < next_maintenance_time s then call_range cmin cmax s1 else if fc then tl ci else ci)"
    "li' = (if w \<or> (fl' \<and> next_maintenance_time s \<le> HARDFORK_CORE_453_TIME) then tl li else li)"
    "x = get_debt c \<or> (\<exists>y. HARDFORK_CORE_834_TIME < next_maintenance_time s \<and> x = mk_asset y (debt_type c) \<and>
       get_max_debt_to_cover c (lo_sell_price l) (pf_settlement_price (ba_current_feed b))
                            (pf_maintenance_collateral_ratio (ba_current_feed b)) = Inr y)"
    "\<not> (HARDFORK_436_TIME < head_time s \<and> price_gt (pf_settlement_price (ba_current_feed b)) (price_inv (co_call_price c)))"
  using r unfolding margin_step_def Let_def
  by (elim result_elims) (use b in \<open>auto simp: tget_Inr deref_Inr intro: that\<close>)

text \<open>The state that a turn of the loop expects: the iterator over the calls is that of the state when
  target ratios count, and the feed of the asset is present.\<close>

definition margin_inv :: "asset_id_type \<Rightarrow> asset_object \<Rightarrow> bitasset_data \<Rightarrow> price \<Rightarrow> price \<Rightarrow> nat list \<Rightarrow> chain \<Rightarrow> bool" where
  "margin_inv i mia b cmin cmax ci s \<longleftrightarrow> chain_wf s \<and> sales_ok s \<and> no_targets s \<and>
     map_of (assets s) i = Some mia \<and> bitasset_of mia s = Inr b \<and>
     \<not> price_is_null (pf_settlement_price (ba_current_feed b)) \<and>
     price_min (ba_short_backing_asset b) i = Inr cmin \<and> price_max (ba_short_backing_asset b) i = Inr cmax \<and>
     (HARDFORK_CORE_834_TIME < next_maintenance_time s \<longrightarrow> ci = call_range cmin cmax s)"

lemma margin_step_progress:
  assumes r: "margin_step i en fn cmin cmax ci li fl mc s = Inr (Next ci' li' fl', s2)"
    and inv: "margin_inv i mia b cmin cmax ci s" and ne: "ci \<noteq> []" "li \<noteq> []"
  shows "margin_inv i mia b cmin cmax ci' s2 \<and> length (calls s2) + length li' < length (calls s) + length li"
proof -
  have wf: "chain_wf s" and m: "map_of (assets s) i = Some mia" "bitasset_of mia s = Inr b"
    "\<not> price_is_null (pf_settlement_price (ba_current_feed b))"
    and ext: "price_min (ba_short_backing_asset b) i = Inr cmin" "price_max (ba_short_backing_asset b) i = Inr cmax"
    and so: "sales_ok s" and nt: "no_targets s"
    and ci: "HARDFORK_CORE_834_TIME < next_maintenance_time s \<Longrightarrow> ci = call_range cmin cmax s"
    using inv by (simp_all add: margin_inv_def)
  obtain c l x fc w s1 where c: "map_of (calls s) (hd ci) = Some c" and l: "map_of (limits s) (hd li) = Some l"
    and t: "margin_trade (ba_asset b) fn (hd ci) (hd li) x l fl s = Inr (fc, fl', w, s1, s2)"
    and ci': "ci' = (if HARDFORK_CORE_343_TIME < next_maintenance_time s then call_range cmin cmax s1 else if fc then tl ci else ci)"
    and li': "li' = (if w \<or> (fl' \<and> next_maintenance_time s \<le> HARDFORK_CORE_453_TIME) then tl li else li)"
    and x: "x = get_debt c \<or> (\<exists>y. HARDFORK_CORE_834_TIME < next_maintenance_time s \<and> x = mk_asset y (debt_type c) \<and>
       get_max_debt_to_cover c (lo_sell_price l) (pf_settlement_price (ba_current_feed b))
                            (pf_maintenance_collateral_ratio (ba_current_feed b)) = Inr y)"
    and fp: "\<not> (HARDFORK_436_TIME < head_time s \<and> price_gt (pf_settlement_price (ba_current_feed b)) (price_inv (co_call_price c)))"
    by (rule margin_step_next [OF r m(1,2)])
  have xd: "x = get_debt c"
    using x
  proof (elim disjE exE conjE)
    fix y assume h: "HARDFORK_CORE_834_TIME < next_maintenance_time s" "x = mk_asset y (debt_type c)"
      "get_max_debt_to_cover c (lo_sell_price l) (pf_settlement_price (ba_current_feed b))
                            (pf_maintenance_collateral_ratio (ba_current_feed b)) = Inr y"
    have "call_range cmin cmax s = hd ci # tl ci" using ci [OF h(1)] ne(1) by simp
    note fm = first_call_market [OF wf ext this c]
    have "table_all (\<lambda>c. co_target_collateral_ratio c = None) (calls s)" and hf: "HARDFORK_436_TIME < head_time s"
      using nt h(1) by (simp_all add: no_targets_def)
    from table_allD [OF this(1) c] have "co_target_collateral_ratio c = None" .
    moreover note mb = market_bitasset(1) [OF wf m] and ne = price_bounds_Inr(5) [OF ext]
    ultimately have "y = co_debt c" using fp hf fm by (intro max_debt_no_target [OF h(3)]) simp_all
    then show ?thesis using h(2) by (simp add: get_debt_def)
  qed
  note p = margin_trade_progress [OF t wf so nt l c xd]
  have cons: "conserves s s2" by (rule margin_trade_conserves [OF t])
  have ba: "bitassets s2 = bitassets s" by (rule margin_trade_bitassets [OF t])
  have "HARDFORK_CORE_834_TIME < next_maintenance_time s2 \<Longrightarrow> ci' = call_range cmin cmax s2"
    using ci' p(1,2) by (simp add: keeps_def call_range_def calls_by_price_def hardfork_times)
  then have "margin_inv i mia b cmin cmax ci' s2"
    using conservesD(1,2) [OF cons wf] p(3,4) m ext ba
    by (cases "ao_bitasset_data mia") (simp_all add: margin_inv_def bitasset_of_def)
  moreover have "length (calls s2) + length li' < length (calls s) + length li"
  proof -
    have "length li' \<le> length li" "\<not> fc \<Longrightarrow> length li' < length li"
      using p(7) li' ne(2) by (cases li; simp)+
    then show ?thesis using p(5,6) by (cases fc) (linarith, linarith)
  qed
  ultimately show ?thesis ..
qed

lemma margin_loop_fuel:
  assumes "margin_inv i mia b cmin cmax ci s" "length (calls s) + length li < n" "length (calls s) + length li < m"
  shows "margin_loop n i en fn cmin cmax ci li fl mc s = margin_loop m i en fn cmin cmax ci li fl mc s"
  using assms
proof (induction n arbitrary: m ci li fl mc s)
  case (Suc n)
  obtain m' where m': "m = Suc m'" using Suc.prems(3) by (cases m) auto
  have wf: "chain_wf s" using Suc.prems(1) by (simp add: margin_inv_def)
  show ?case
  proof (cases "check_for_blackswan i en s")
    case (Inr e)
    then obtain swan s1 where c: "check_for_blackswan i en s = Inr (swan, s1)" by (cases e) simp
    show ?thesis
    proof (cases "swan \<or> ci = [] \<or> li = []")
      case False
      then have s1: "s1 = s" using check_for_blackswan_effect [OF c wf] by simp
      show ?thesis
      proof (cases "margin_step i en fn cmin cmax ci li fl mc s")
        case (Inr u)
        then obtain turn s2 where t: "margin_step i en fn cmin cmax ci li fl mc s = Inr (turn, s2)" by (cases u) simp
        show ?thesis
        proof (cases turn)
          case (Next ci' li' fl')
          from margin_step_progress [OF t [unfolded Next] Suc.prems(1)] False
          have p: "margin_inv i mia b cmin cmax ci' s2" "length (calls s2) + length li' < length (calls s) + length li" by simp_all
          have "margin_loop n i en fn cmin cmax ci' li' fl' True s2 = margin_loop m' i en fn cmin cmax ci' li' fl' True s2"
            using p Suc.prems(2,3) m' by (intro Suc.IH) simp_all
          then show ?thesis using c False t by (simp add: m' s1 Next)
        qed (use c False t in \<open>simp add: m' s1\<close>)
      qed (use c False in \<open>simp add: m' s1\<close>)
    qed (use c in \<open>auto simp: m'\<close>)
  qed (simp add: m')
qed simp

lemma margin_loop_ends:
  assumes "margin_inv i mia b cmin cmax ci s" "length (calls s) + length li < n"
  shows "ends (margin_loop n i en fn cmin cmax ci li fl mc s)"
  using assms
proof (induction n arbitrary: ci li fl mc s)
  case (Suc n)
  have wf: "chain_wf s" and nt: "no_targets s"
    and ci: "HARDFORK_CORE_834_TIME < next_maintenance_time s \<Longrightarrow> ci = call_range cmin cmax s"
    using Suc.prems(1) by (simp_all add: margin_inv_def)
  have step: "ends (margin_step i en fn cmin cmax ci li fl mc s)"
  proof (rule ends_margin_step)
    fix c
    assume "HARDFORK_CORE_834_TIME < next_maintenance_time s" "map_of (calls s) (hd ci) = Some c"
    then show "co_target_collateral_ratio c = None"
      using nt table_allD [of "\<lambda>c. co_target_collateral_ratio c = None"] by (auto simp: no_targets_def)
  qed
  show ?case
    unfolding margin_loop.simps
  proof (intro ends_bindE ends_blackswan ends_prod ends_if ends_return)
    fix x swan s1 turn s2 and y :: "margin_turn \<times> chain"
    assume bs: "check_for_blackswan i en s = Inr x" "x = (swan, s1)" "\<not> (swan \<or> ci = [] \<or> li = [])"
    then have s1: "s1 = s" using check_for_blackswan_effect [of i en s swan s1] wf by simp
    then show "ends (margin_step i en fn cmin cmax ci li fl mc s1)" using step by simp
    assume t: "margin_step i en fn cmin cmax ci li fl mc s1 = Inr y" "y = (turn, s2)"
    show "ends (case turn of Return b \<Rightarrow> Inr (b, s2)
       | Next ci' li' fl' \<Rightarrow> margin_loop n i en fn cmin cmax ci' li' fl' True s2)"
    proof (cases turn)
      case (Next ci' li' fl')
      have "margin_inv i mia b cmin cmax ci' s2 \<and> length (calls s2) + length li' < length (calls s) + length li"
        using margin_step_progress [of i en fn cmin cmax ci li fl mc s ci' li' fl' s2] t bs s1 Next Suc.prems(1) by simp
      then show ?thesis using Suc.IH [of ci' s2 li'] Suc.prems(2) Next by simp
    qed simp
  qed
qed simp

lemma insert_by_length: "length (insert_by pr x xs) = Suc (length xs)"
  by (induction xs) auto

lemma index_by_length: "length (index_by pr xs) = length xs"
  unfolding index_by_def by (induction xs) (auto simp: insert_by_length)

lemma limit_range_length: "length (limit_range p q s) \<le> length (limits s)"
  unfolding limit_range_def limits_by_price_def
  by (metis length_map length_takeWhile_le length_dropWhile_le order_trans index_by_length)

text \<open>The invariant holds where \<open>check_call_orders\<close> enters the loop.\<close>

lemma margin_inv_enter:
  assumes "chain_wf s" "no_targets s" "sales_ok s" "check_for_blackswan i en s = Inr (swan, s1)"
    and "map_of (assets s) i = Some mia" "bitasset_of mia s = Inr b"
    and "\<not> (swan \<or> pm \<or> price_is_null (pf_settlement_price (ba_current_feed b)))"
    and "price_min (ba_short_backing_asset b) i = Inr cmin" "price_max (ba_short_backing_asset b) i = Inr cmax"
  shows "s1 = s \<and> margin_inv i mia b cmin cmax (call_range cmin cmax s) s"
  using check_for_blackswan_effect [OF assms(4,1)] assms by (simp add: margin_inv_def)

lemma check_call_orders_fuel:
  assumes wf: "chain_wf s" and nt: "no_targets s" "sales_ok s"
    and n: "length (calls s) + length (limits s) < n" "length (calls s) + length (limits s) < m"
  shows "check_call_orders n i en fn s = check_call_orders m i en fn s"
proof -
  have loop: "margin_loop n i en fn cmin cmax (call_range cmin cmax s) (limit_range p q s) False False s =
      margin_loop m i en fn cmin cmax (call_range cmin cmax s) (limit_range p q s) False False s"
    if "margin_inv i mia b cmin cmax (call_range cmin cmax s) s" for mia b cmin cmax p q
    using that n limit_range_length [of p q s] by (intro margin_loop_fuel [OF that]) simp_all
  show ?thesis
    unfolding check_call_orders_def
    by (intro assertE_cong bindE_cong if_cong prod.case_cong refl)
      (auto simp: tget_Inr dest!: margin_inv_enter [OF wf nt] intro!: loop)
qed

lemma check_call_orders_ends:
  assumes wf: "chain_wf s" and nt: "no_targets s" "sales_ok s"
    and n: "length (calls s) + length (limits s) < n"
  shows "ends (check_call_orders n i en fn s)"
proof -
  have loop: "ends (margin_loop n i en fn cmin cmax (call_range cmin cmax s) (limit_range p q s) False False s)"
    if "margin_inv i mia b cmin cmax (call_range cmin cmax s) s" for mia b cmin cmax p q
    using n limit_range_length [of p q s] by (intro margin_loop_ends [OF that]) simp_all
  show ?thesis
    unfolding check_call_orders_def
    by (intro ends_intros) (auto simp: tget_Inr dest!: margin_inv_enter [OF wf nt] intro!: loop)
qed


subsection \<open>Positions closed by a global settlement\<close>

lemma settle_calls_close:
  assumes "foldE (settle_call p) cids (g, s) = Inr (g', s')"
  shows "map_of (calls s') k = (if k \<in> set cids then None else map_of (calls s) k)"
  using assms
proof (induction cids arbitrary: g s)
  case (Cons cid cids)
  obtain g1 s1 where s1: "settle_call p cid (g, s) = Inr (g1, s1)" "foldE (settle_call p) cids (g1, s1) = Inr (g', s')"
    using Cons.prems by (auto simp: bindE_eq_Inr)
  obtain x c where "fill_call_order cid x (get_debt c) p True s = Inr (True, s1)"
    using s1(1) unfolding settle_call_def by (auto simp: bindE_eq_Inr assertE_eq_Inr Let_def)
  then have "map_of (calls s1) k = (if k = cid then None else map_of (calls s) k)"
    by (rule fill_call_order_calls) auto
  with Cons.IH [OF s1(2)] show ?case by (cases "k = cid") simp_all
qed simp

lemma globally_settle_closes:
  assumes r: "globally_settle_asset i p s = Inr s'"
    and m: "map_of (assets s) i = Some mia" "bitasset_of mia s = Inr b"
    and ext: "price_min (ba_short_backing_asset b) i = Inr cmin" "price_max (ba_short_backing_asset b) i = Inr cmax"
  shows "map_of (calls s') k = (if k \<in> set (call_range cmin cmax s) then None else map_of (calls s) k)"
proof -
  obtain j f g s1 s2 and v :: asset_dynamic_data where f: "foldE (settle_call p) (call_range cmin cmax s) (mk_asset 0 (ba_short_backing_asset b), s) = Inr (g, s1)"
    and s2: "modify_bitasset j f s1 = Inr s2"
    and s': "modify_dyn (ao_dynamic_data mia) (\<lambda>v'. Inr (v'\<lparr>ad_current_supply := ad_current_supply v\<rparr>)) s2 = Inr s'"
    using r
  proof (rule globally_settle_cases)
    fix mia' b' k cmin' cmax' g s1 s2 and v :: asset_dynamic_data
    assume "map_of (assets s) i = Some mia'" "bitasset_of mia' s = Inr b'"
      and e: "price_min (ba_short_backing_asset b') i = Inr cmin'" "price_max (ba_short_backing_asset b') i = Inr cmax'"
      and f: "foldE (settle_call p) (call_range cmin' cmax' s) (mk_asset 0 (ba_short_backing_asset b'), s) = Inr (g, s1)"
        "modify_bitasset k (\<lambda>v'. bindE (asset_div (mk_asset (ad_current_supply v) i) g) (\<lambda>p.
           Inr (v'\<lparr>ba_settlement_price := p, ba_settlement_fund := amount g\<rparr>))) s1 = Inr s2"
        "modify_dyn (ao_dynamic_data mia') (\<lambda>v'. Inr (v'\<lparr>ad_current_supply := ad_current_supply v\<rparr>)) s2 = Inr s'"
    then have "mia' = mia" "b' = b" using m by simp_all
    then show thesis using e ext f by (intro that [of g s1 k _ s2 v]) simp_all
  qed
  have "calls s' = calls s1"
    using s2 s' by (auto simp: modify_bitasset_def bindE_eq_Inr elim!: modify_dyn_frame)
  then show ?thesis using settle_calls_close [OF f, of k] by simp
qed

subsection \<open>The properties\<close>

text \<open>C35. A global settlement neither creates nor destroys any asset: the collateral that the positions pay
  is in the settlement fund, and the supply, which the payments lowered, is what it was.  It closes the
  positions of the asset's market, leaves every other position as it is, and marks the asset as settled.\<close>

theorem global_settlement_conserves:
  assumes "chain_wf s" "map_of (assets s) i = Some mia" "bitasset_of mia s = Inr b"
    and "asset_id (base p) = i" "asset_id (quote p) = ba_short_backing_asset b"
    and "price_min (ba_short_backing_asset b) i = Inr cmin" "price_max (ba_short_backing_asset b) i = Inr cmax"
    and "globally_settle_asset i p s = Inr s'"
  shows "chain_wf s' \<and> (\<forall>a. surplus s' a = surplus s a) \<and> issued s' = issued s \<and>
    (\<forall>k. map_of (calls s') k = (if k \<in> set (call_range cmin cmax s) then None else map_of (calls s) k)) \<and>
    (\<exists>b'. bitasset_of mia s' = Inr b' \<and> has_settlement b')"
  using globally_settle_frames [OF assms(8,1,2,3,4,5)] globally_settle_closes [OF assms(8,2,3,6,7)]
    shiftsD [OF _ assms(1), of s' "\<lambda>_. 0"] by auto

text \<open>The price that settles the position of the concrete market.\<close>

definition demo_price :: price where
  "demo_price = \<lparr>base = mk_asset 1 1, quote = mk_asset 2 0\<rparr>"

lemma demo_market_lookups:
  "map_of (assets demo_market) 1 = Some (snd (assets demo_market ! 1))"
  "bitasset_of (snd (assets demo_market ! 1)) demo_market = Inr (snd (hd (bitassets demo_market)))"
  "ba_short_backing_asset (snd (hd (bitassets demo_market))) = 0"
  "price_min 0 1 = Inr \<lparr>base = mk_asset 1 0, quote = mk_asset MAX_SHARE_SUPPLY 1\<rparr>"
  "price_max 0 1 = Inr \<lparr>base = mk_asset MAX_SHARE_SUPPLY 0, quote = mk_asset 1 1\<rparr>"
  "call_range \<lparr>base = mk_asset 1 0, quote = mk_asset MAX_SHARE_SUPPLY 1\<rparr>
     \<lparr>base = mk_asset MAX_SHARE_SUPPLY 0, quote = mk_asset 1 1\<rparr> demo_market = [0]"
  by code_simp+

theorem global_settlement_conserves_witness:
  "\<exists>s'. globally_settle_asset 1 demo_price demo_market = Inr s' \<and> chain_wf s' \<and> map_of (calls s') 0 = None \<and>
     surplus s' 0 = surplus demo_market 0 \<and> issued s' = issued demo_market"
proof -
  have "is_ok (globally_settle_asset 1 demo_price demo_market)" by code_simp
  then obtain s' where r: "globally_settle_asset 1 demo_price demo_market = Inr s'" unfolding is_ok_iff by blast
  have p: "asset_id (base demo_price) = 1" "asset_id (quote demo_price) = ba_short_backing_asset (snd (hd (bitassets demo_market)))"
    by (simp_all add: demo_price_def demo_market_lookups)
  have e: "price_min (ba_short_backing_asset (snd (hd (bitassets demo_market)))) 1 = Inr \<lparr>base = mk_asset 1 0, quote = mk_asset MAX_SHARE_SUPPLY 1\<rparr>"
    "price_max (ba_short_backing_asset (snd (hd (bitassets demo_market)))) 1 = Inr \<lparr>base = mk_asset MAX_SHARE_SUPPLY 0, quote = mk_asset 1 1\<rparr>"
    by (simp_all only: demo_market_lookups)
  note g = global_settlement_conserves [OF demo_market_wf demo_market_lookups(1,2) p e r, unfolded demo_market_lookups(6)]
  then have "map_of (calls s') 0 = None" by simp
  with g r show ?thesis by blast
qed

text \<open>C36. Reviving a settled bitasset creates and destroys no asset, and the bitasset is no longer settled,
  with an empty fund and everything else unchanged.  When there is debt, exactly one position is added: the
  issuer owes the whole supply against the whole settlement fund; without debt the fund is empty and no
  position changes.  When the bids on the asset are made in its backing asset and do not exceed the greatest
  price, all of them are removed and no other bid is, and every balance grows by what the account bid,
  and by nothing else.\<close>

theorem revival_conserves:
  assumes "chain_wf s" "map_of (assets s) i = Some mia" "bitasset_of mia s = Inr b"
    and "issued s i = Some x" "int64_ok x" "int64_ok (ba_settlement_fund b)"
    and "revive_bitasset i s = Inr s'"
  shows "chain_wf s' \<and> (\<forall>a. surplus s' a = surplus s a) \<and>
    bitasset_of mia s' = Inr (b\<lparr>ba_settlement_price := null_price, ba_settlement_fund := 0\<rparr>) \<and>
    (if 0 < x then \<exists>p. call_price (mk_asset x i) (mk_asset (ba_settlement_fund b) (ba_short_backing_asset b))
        (pf_maintenance_collateral_ratio (ba_current_feed b)) = Inr p \<and>
        calls s' = tadd (next_call s) (revived_call (ao_issuer mia) (ba_settlement_fund b) x p) (calls s)
     else ba_settlement_fund b = 0 \<and> calls s' = calls s) \<and>
    ((\<forall>e \<in> set (bids_on i s). bid_in_market (ba_short_backing_asset b) (snd e)) \<longrightarrow>
       bids s' = filter (\<lambda>e. bid_debt_type (snd e) \<noteq> i) (bids s) \<and>
       (\<forall>acct a. amount (get_balance acct a s') =
          amount (get_balance acct a s) + tsum (refunded acct a) (bids_on i s)))"
  using revive_bitasset_effect [OF assms(7,1-6)] conservesD [OF _ assms(1), of s'] revive_bitasset_opens [OF assms(7,1-6)]
    revive_bitasset_pays [OF assms(7,1-6)] by blast

text \<open>The concrete market after a settlement: the fund holds 200, two bids are open.\<close>

definition demo_settled :: chain where
  "demo_settled = demo_market
     \<lparr>assets := map (\<lambda>(i, x). (i, x\<lparr>ao_issuer := 6\<rparr>)) (assets demo_market),
      calls := [],
      bitassets := map (\<lambda>(i, b). (i, b\<lparr>ba_settlement_price := demo_price, ba_settlement_fund := 200\<rparr>)) (bitassets demo_market),
      bids := [(0, \<lparr>cb_bidder = 5, cb_inv_swan_price = \<lparr>base = mk_asset 10 0, quote = mk_asset 40 1\<rparr>\<rparr>),
               (1, \<lparr>cb_bidder = 7, cb_inv_swan_price = \<lparr>base = mk_asset 30 0, quote = mk_asset 60 1\<rparr>\<rparr>)], next_bid := 2\<rparr>"

lemma demo_settled_wf: "chain_wf demo_settled"
  by (simp add: demo_settled_def demo_price_def demo_market_def demo_chain_def chain_wf_def tables_ok_def table_ok_def
      dyns_ok_def funds_ok_def fees_ok_def fund_ok_def has_settlement_def price_is_null_def null_price_def
      default_price_feed_def valid_price_def table_all_def limit_ok_def settle_ok_def int64_ok_def safe_min_def
      safe_max_def PERCENT_100_def)

lemma demo_settled_lookups:
  "map_of (assets demo_settled) 1 = Some (snd (assets demo_settled ! 1))"
  "bitasset_of (snd (assets demo_settled ! 1)) demo_settled = Inr (snd (hd (bitassets demo_settled)))"
  "ba_settlement_fund (snd (hd (bitassets demo_settled))) = 200"
  "issued demo_settled 1 = Some 100"
  by code_simp+

lemma demo_settled_bids:
  "\<forall>e \<in> set (bids_on 1 demo_settled). bid_in_market (ba_short_backing_asset (snd (hd (bitassets demo_settled)))) (snd e)"
  "tsum (refunded 5 0) (bids_on 1 demo_settled) = 10" "tsum (refunded 7 0) (bids_on 1 demo_settled) = 30"
  "filter (\<lambda>e. bid_debt_type (snd e) \<noteq> 1) (bids demo_settled) = []"
  by code_simp+

theorem revival_conserves_witness:
  "\<exists>s'. revive_bitasset 1 demo_settled = Inr s' \<and> chain_wf s' \<and> surplus s' 0 = surplus demo_settled 0 \<and>
     surplus s' 1 = surplus demo_settled 1 \<and> bids s' = [] \<and> length (calls s') = 1 \<and>
     amount (get_balance 5 0 s') = amount (get_balance 5 0 demo_settled) + 10 \<and>
     amount (get_balance 7 0 s') = amount (get_balance 7 0 demo_settled) + 30"
proof -
  have "is_ok (revive_bitasset 1 demo_settled)" by code_simp
  then obtain s' where r: "revive_bitasset 1 demo_settled = Inr s'" unfolding is_ok_iff by blast
  have "int64_ok 100" "int64_ok (ba_settlement_fund (snd (hd (bitassets demo_settled))))"
    by (simp_all add: demo_settled_lookups int64_ok_def safe_min_def safe_max_def)
  note t = revival_conserves [OF demo_settled_wf demo_settled_lookups(1,2,4) this r]
  have "calls demo_settled = []" by (simp add: demo_settled_def)
  with t have "length (calls s') = 1" by (auto simp: tadd_def)
  moreover have "bids s' = []" using t demo_settled_bids(1,4) by simp
  moreover have "amount (get_balance acct 0 s') = amount (get_balance acct 0 demo_settled) +
      tsum (refunded acct 0) (bids_on 1 demo_settled)" for acct
    using t demo_settled_bids(1) by blast
  ultimately show ?thesis using r t by (simp add: demo_settled_bids(2,3) del: One_nat_def)
qed

text \<open>C37. Applying a new limit order (before and after hard fork core-625) and checking the margin calls of
  an asset create and destroy nothing, whatever trades, fees, cancellations, margin calls and global
  settlements they lead to, and keep the state well-formed.\<close>

theorem trading_conserves:
  assumes "chain_wf s"
    and "apply_order n oid allow s = Inr (x, s') \<or> apply_order_before_625 n oid allow s = Inr (x, s') \<or>
      check_call_orders n i allow for_new s = Inr (x, s')"
  shows "chain_wf s' \<and> (\<forall>a. surplus s' a = surplus s a) \<and> assets s' = assets s"
  using assms apply_order_conserves apply_order_before_625_conserves check_call_orders_conserves
    conservesD [OF _ assms(1), of s'] by blast

theorem trading_conserves_witness:
  "\<exists>x s'. apply_order 5 1 True demo_market = Inr (x, s') \<and> chain_wf s' \<and>
     surplus s' 0 = surplus demo_market 0 \<and> surplus s' 1 = surplus demo_market 1"
proof -
  have "is_ok (apply_order 5 1 True demo_market)" by code_simp
  then obtain x s' where r: "apply_order 5 1 True demo_market = Inr (x, s')" unfolding is_ok_iff by (metis surj_pair)
  then show ?thesis using trading_conserves [OF demo_market_wf disjI1 [OF r]] by blast
qed

text \<open>C38. Checking the margin calls of an asset ends when no position has a target collateral ratio (or the
  option is not active yet): each turn closes a position or removes a limit order from the list, so that
  with any fuel above their number the check comes to a result or an exception, never to the end of the
  fuel, and the result does not depend on the fuel.\<close>

theorem margin_calls_end:
  assumes "chain_wf s" "no_targets s" "sales_ok s"
    and "length (calls s) + length (limits s) < n" "length (calls s) + length (limits s) < m"
  shows "check_call_orders n i enable for_new s \<noteq> Inl OutOfFuel \<and>
    check_call_orders n i enable for_new s = check_call_orders m i enable for_new s"
  using check_call_orders_ends [OF assms(1-4), of i enable for_new] check_call_orders_fuel [OF assms]
  by (simp add: ends_def)

definition demo_later :: chain where
  "demo_later = demo_market\<lparr>head_time := 1600000000\<rparr>"

lemma demo_later_loop: "chain_wf demo_later" "no_targets demo_later" "sales_ok demo_later"
proof -
  show "chain_wf demo_later" using demo_market_wf
    by (simp add: demo_later_def chain_wf_def tables_ok_def dyns_ok_def funds_ok_def fees_ok_def)
qed (simp_all add: demo_later_def no_targets_def sales_ok_def demo_market_def demo_chain_def table_all_def hardfork_times)

theorem margin_calls_end_witness:
  "check_call_orders 4 1 True False demo_later \<noteq> Inl OutOfFuel \<and>
   check_call_orders 4 1 True False demo_later = check_call_orders 1000 1 True False demo_later \<and>
   is_ok (check_call_orders 4 1 True False demo_later)"
proof -
  have n: "length (calls demo_later) + length (limits demo_later) = 3"
    by (simp add: demo_later_def demo_market_def demo_chain_def)
  have "is_ok (check_call_orders 4 1 True False demo_later)" by code_simp
  then show ?thesis using margin_calls_end [OF demo_later_loop, of 4 1000 1 True False] by (auto simp: n is_ok_iff)
qed

end
