(* ===== verification/Margin_Loop.thy ===== *)
theory Margin_Loop
  imports Margin
begin

text \<open>
  A state in which \<open>check_call_orders\<close> does not return.  A call price is rounded down when its terms
  are above the maximal share supply; a position with a large collateral and one unit of debt can so have
  a call price below the feed, which makes it liable to a margin call, while its exact collateral ratio is
  above its target, so that the amount to cover is zero.  The turn then fills nothing, the call price is
  recomputed to the same value, and the loop goes on with the same orders.
\<close>

subsection \<open>Margin calls that do not end\<close>

text \<open>
  A position of one unit of debt with a large collateral and a target ratio: rounding makes its call
  price fall below the feed while its collateral ratio is above the target.
\<close>

definition stuck_call :: call_order where
  "stuck_call = \<lparr>co_borrower = 6, co_collateral = 1000000000001, co_debt = 1,
     co_call_price = \<lparr>base = mk_asset 500000000000501 0, quote = mk_asset 876 1\<rparr>,
     co_target_collateral_ratio = Some 1751\<rparr>"

definition stuck_limit :: limit_order where
  "stuck_limit = \<lparr>lo_expiration = 2000000000, lo_seller = 5, lo_for_sale = 10,
     lo_sell_price = \<lparr>base = mk_asset 10 1, quote = mk_asset 6000000000000 0\<rparr>, lo_deferred_fee = 0,
     lo_deferred_paid_fee = mk_asset 0 0\<rparr>"

definition stuck_feed :: price_feed where
  "stuck_feed = \<lparr>pf_settlement_price = \<lparr>base = mk_asset 1000 1, quote = mk_asset 570900000000000 0\<rparr>,
     pf_core_exchange_rate = null_price, pf_maintenance_collateral_ratio = 1751, pf_maximum_short_squeeze_ratio = 1500\<rparr>"

definition stuck_bitasset :: bitasset_data where
  "stuck_bitasset = (snd (hd (bitassets demo_chain)))\<lparr>ba_current_feed := stuck_feed\<rparr>"

definition stuck_market :: "applied_op list \<Rightarrow> chain" where
  "stuck_market ops = demo_market
     \<lparr>calls := [(0, stuck_call)], limits := [(0, stuck_limit)], next_limit := 1,
      bitassets := [(0, stuck_bitasset)], head_time := 1600000000, applied_ops := ops\<rparr>"

lemmas stuck_defs = stuck_market_def stuck_call_def stuck_limit_def stuck_bitasset_def stuck_feed_def

lemma stuck_market_wf: "chain_wf (stuck_market ops)"
  by (simp add: stuck_defs demo_market_def demo_chain_def chain_wf_def tables_ok_def table_ok_def dyns_ok_def funds_ok_def
      fees_ok_def fund_ok_def has_settlement_def price_is_null_def null_price_def default_price_feed_def valid_price_def
      table_all_def call_ok_def limit_ok_def settle_ok_def int64_ok_def safe_min_def safe_max_def PERCENT_100_def)

lemma stuck_no_swan: "check_for_blackswan 1 True (stuck_market ops) = Inr (False, stuck_market ops)"
  by code_simp

lemma stuck_fills:
  "fill_call_order 0 (mk_asset 0 0) (mk_asset 0 1) (lo_sell_price stuck_limit) False (stuck_market ops)
     = Inr (False, stuck_market (ops @ [FillOrder 0 6 (mk_asset 0 0) (mk_asset 0 1) (mk_asset 0 0) (lo_sell_price stuck_limit) False]))"
  "fill_limit_order 0 (mk_asset 0 1) (mk_asset 0 0) True (lo_sell_price stuck_limit) True (stuck_market ops)
     = Inr (False, stuck_market (ops @ [FillOrder 0 5 (mk_asset 0 1) (mk_asset 0 0) (mk_asset 0 0) (lo_sell_price stuck_limit) True]))"
  by code_simp+

lemma stuck_amounts:
  "margin_amounts (mk_asset 0 1) (amount_for_sale stuck_limit) (lo_sell_price stuck_limit) False (next_maintenance_time (stuck_market ops))
     = Inr (mk_asset 0 0, mk_asset 0 1, False, True)"
  by code_simp

lemma stuck_trade:
  "\<exists>ops1 ops2. margin_trade (ba_asset stuck_bitasset) False 0 0 (mk_asset 0 1) stuck_limit False (stuck_market ops)
     = Inr (True, False, False, stuck_market ops1, stuck_market ops2)"
  unfolding margin_trade_def stuck_amounts bindE_simps prod.case Let_def
  by (simp add: stuck_fills del: One_nat_def) blast

lemma stuck_lookups:
  "tget (assets (stuck_market ops)) 1 = Inr (snd (assets (stuck_market ops) ! 1))"
  "bitasset_of (snd (assets (stuck_market ops) ! 1)) (stuck_market ops) = Inr stuck_bitasset"
  "deref (calls (stuck_market ops)) 0 = Inr stuck_call"
  "deref (limits (stuck_market ops)) 0 = Inr stuck_limit"
  by code_simp+

lemma stuck_conditions:
  "(HARDFORK_436_TIME < head_time (stuck_market ops) \<and>
     price_gt (pf_settlement_price (ba_current_feed stuck_bitasset)) (price_inv (co_call_price stuck_call))) = False"
  "(next_maintenance_time (stuck_market ops) \<le> HARDFORK_CORE_606_TIME \<and>
     price_gt (lo_sell_price stuck_limit) (price_inv (co_call_price stuck_call))) = False"
  "(next_maintenance_time (stuck_market ops) \<le> HARDFORK_CORE_834_TIME) = False"
  "(HARDFORK_CORE_343_TIME < next_maintenance_time (stuck_market ops)) = True"
  by code_simp+

lemma stuck_values:
  "asset_mul (get_debt stuck_call) (lo_sell_price stuck_limit) = Inr (mk_asset 600000000000 0)"
  "asset_gt (mk_asset 600000000000 0) (get_collateral stuck_call) = Inr False"
  "get_max_debt_to_cover stuck_call (lo_sell_price stuck_limit) (pf_settlement_price (ba_current_feed stuck_bitasset))
     (pf_maintenance_collateral_ratio (ba_current_feed stuck_bitasset)) = Inr 0"
  "debt_type stuck_call = 1"
  by code_simp+

lemma stuck_ranges:
  "price_min 0 1 = Inr \<lparr>base = mk_asset 1 0, quote = mk_asset MAX_SHARE_SUPPLY 1\<rparr>"
  "price_max 0 1 = Inr \<lparr>base = mk_asset MAX_SHARE_SUPPLY 0, quote = mk_asset 1 1\<rparr>"
  "call_range \<lparr>base = mk_asset 1 0, quote = mk_asset MAX_SHARE_SUPPLY 1\<rparr>
     \<lparr>base = mk_asset MAX_SHARE_SUPPLY 0, quote = mk_asset 1 1\<rparr> (stuck_market ops) = [0]"
  by code_simp+

lemma stuck_step:
  "\<exists>ops'. margin_step 1 True False \<lparr>base = mk_asset 1 0, quote = mk_asset MAX_SHARE_SUPPLY 1\<rparr>
     \<lparr>base = mk_asset MAX_SHARE_SUPPLY 0, quote = mk_asset 1 1\<rparr> [0] [0] False mc (stuck_market ops)
     = Inr (Next [0] [0] False, stuck_market ops')"
proof -
  obtain ops1 ops2 where t: "margin_trade (ba_asset stuck_bitasset) False 0 0 (mk_asset 0 1) stuck_limit False (stuck_market ops)
     = Inr (True, False, False, stuck_market ops1, stuck_market ops2)" using stuck_trade by blast
  show ?thesis
    unfolding margin_step_def Let_def stuck_lookups bindE_simps list.sel stuck_conditions if_False if_True
      stuck_values t prod.case stuck_ranges
    by auto
qed

lemma stuck_loop:
  "margin_loop n 1 True False \<lparr>base = mk_asset 1 0, quote = mk_asset MAX_SHARE_SUPPLY 1\<rparr>
     \<lparr>base = mk_asset MAX_SHARE_SUPPLY 0, quote = mk_asset 1 1\<rparr> [0] [0] False mc (stuck_market ops) = Inl OutOfFuel"
proof (induction n arbitrary: mc ops)
  case (Suc n)
  obtain ops' where "margin_step 1 True False \<lparr>base = mk_asset 1 0, quote = mk_asset MAX_SHARE_SUPPLY 1\<rparr>
     \<lparr>base = mk_asset MAX_SHARE_SUPPLY 0, quote = mk_asset 1 1\<rparr> [0] [0] False mc (stuck_market ops)
     = Inr (Next [0] [0] False, stuck_market ops')" using stuck_step by blast
  then show ?case by (simp add: stuck_no_swan Suc.IH del: One_nat_def)
qed simp


lemma stuck_book:
  "price_max 1 0 = Inr \<lparr>base = mk_asset MAX_SHARE_SUPPLY 1, quote = mk_asset 1 0\<rparr>"
  "max_short_squeeze_price stuck_feed = Inr \<lparr>base = mk_asset 1 1, quote = mk_asset 856350000000 0\<rparr>"
  "limit_range \<lparr>base = mk_asset MAX_SHARE_SUPPLY 1, quote = mk_asset 1 0\<rparr>
     \<lparr>base = mk_asset 1 1, quote = mk_asset 856350000000 0\<rparr> (stuck_market ops) = [0]"
  "is_market_issued (snd (assets (stuck_market ops) ! 1))"
  "(ba_is_prediction_market stuck_bitasset \<or> price_is_null (pf_settlement_price stuck_feed)) = False"
  "ba_short_backing_asset stuck_bitasset = 0"
  "ba_current_feed stuck_bitasset = stuck_feed"
  by code_simp+

text \<open>C39. In a well-formed state with the feed, the limit order and the position below, the check of the
  margin calls does not end: every fuel is used up.\<close>

theorem margin_calls_may_not_end:
  "chain_wf (stuck_market ops) \<and> (\<forall>n. check_call_orders n 1 True False (stuck_market ops) = Inl OutOfFuel)"
proof (intro conjI allI)
  show "check_call_orders n 1 True False (stuck_market ops) = Inl OutOfFuel" for n
    unfolding check_call_orders_def stuck_lookups bindE_simps stuck_no_swan prod.case stuck_book
    using stuck_book(5) by (simp add: stuck_book stuck_ranges stuck_loop del: One_nat_def)
qed (rule stuck_market_wf)

end
