(* ===== verification/Expiry.thy ===== *)
theory Expiry
  imports Margin_Correct
begin

text \<open>
  The clearing of expired orders at the end of a block (\<open>database::clear_expired_orders\<close> in
  \<open>chain/db_update.cpp\<close>): expired limit orders are cancelled, and the force settlements whose date has
  come are matched with the least collateralised positions, up to the volume of the maintenance
  interval (\<open>chain/asset_object.cpp\<close>).
\<close>

subsection \<open>The volume of force settlements\<close>

text \<open>The sum of the two \<open>int64_t\<close> values is a plain one.\<close>

definition max_force_settlement_volume :: "bitasset_data \<Rightarrow> share \<Rightarrow> share result" where
  "max_force_settlement_volume b current_supply =
     (if ba_maximum_force_settlement_volume b = 0 then Inr 0
      else if int (ba_maximum_force_settlement_volume b) = PERCENT_100
      then safe_add current_supply (ba_force_settled_volume b)
      else
        let volume = current_supply + ba_force_settled_volume b
        in if \<not> int64_ok volume then Inl UndefinedBehaviour
           else bindE (u_div (u_mul (u128_of_int volume) (u128_of_int (int (ba_maximum_force_settlement_volume b))))
                        (u128_of_int PERCENT_100)) (\<lambda>q.
                bindE (to_uint64 q) (\<lambda>v. Inr (share_of_u64 v))))"

subsection \<open>Expired limit orders\<close>

definition expires_before :: "nat \<times> limit_order \<Rightarrow> nat \<times> limit_order \<Rightarrow> bool" where
  "expires_before x y \<longleftrightarrow> lo_expiration (snd x) < lo_expiration (snd y) \<or>
     (lo_expiration (snd x) = lo_expiration (snd y) \<and> fst x < fst y)"

fun expire_limits :: "nat \<Rightarrow> nat \<Rightarrow> chain \<Rightarrow> chain result" where
  "expire_limits n 0 s = Inl OutOfFuel"
| "expire_limits n (Suc k) s =
     (case index_by expires_before (limits s) of
        [] \<Rightarrow> Inr s
      | (oid, o1) # _ \<Rightarrow>
          if head_time s < lo_expiration o1 then Inr s
          else
            bindE (cancel_limit_order oid True False s) (\<lambda>s1.
            bindE (if next_maintenance_time s \<le> HARDFORK_CORE_606_TIME then
                     bindE (check_call_orders n (asset_id (base (lo_sell_price o1))) True False s1) (\<lambda>(_, s2).
                     bindE (check_call_orders n (asset_id (quote (lo_sell_price o1))) True False s2) (\<lambda>(_, s3). Inr s3))
                   else Inr s1) (expire_limits n k)))"

subsection \<open>Force settlements\<close>

definition settles_before :: "nat \<times> force_settlement \<Rightarrow> nat \<times> force_settlement \<Rightarrow> bool" where
  "settles_before x y \<longleftrightarrow>
     asset_id (fs_balance (snd x)) < asset_id (fs_balance (snd y)) \<or>
     (asset_id (fs_balance (snd x)) = asset_id (fs_balance (snd y)) \<and>
      (fs_settlement_date (snd x) < fs_settlement_date (snd y) \<or>
       (fs_settlement_date (snd x) = fs_settlement_date (snd y) \<and> fst x < fst y)))"

definition settles_by_date :: "chain \<Rightarrow> (nat \<times> force_settlement) list" where
  "settles_by_date s = index_by settles_before (settles s)"

text \<open>
  The index of the call orders by collateralization, and its \<open>lower_bound\<close>. The two assets of a
  position differ, which the division of \<open>collateralization\<close> asserts.
\<close>

definition call_ratio :: "call_order \<Rightarrow> price" where
  "call_ratio c = \<lparr>base = get_collateral c, quote = get_debt c\<rparr>"

definition less_collateralized :: "nat \<times> call_order \<Rightarrow> nat \<times> call_order \<Rightarrow> bool" where
  "less_collateralized x y \<longleftrightarrow> price_less (call_ratio (snd x)) (call_ratio (snd y)) \<or>
     (\<not> price_less (call_ratio (snd y)) (call_ratio (snd x)) \<and> fst x < fst y)"

definition least_collateralized :: "price \<Rightarrow> chain \<Rightarrow> nat result" where
  "least_collateralized from_price s =
     (case List.find (\<lambda>e. \<not> price_less (call_ratio (snd e)) from_price) (index_by less_collateralized (calls s)) of
        None \<Rightarrow> Inl UndefinedBehaviour | Some e \<Rightarrow> Inr (fst e))"

text \<open>The loop that matches one settlement: the volume settled, whether the asset is finished.\<close>

fun settle_order :: "nat \<Rightarrow> nat \<Rightarrow> asset_id_type \<Rightarrow> price \<Rightarrow> price \<Rightarrow> asset \<Rightarrow> asset \<Rightarrow> chain
    \<Rightarrow> (asset \<times> bool \<times> chain) result" where
  "settle_order 0 oid backing settlement_price fill_price max_volume so_far s = Inl OutOfFuel"
| "settle_order (Suc n) oid backing settlement_price fill_price max_volume so_far s =
     bindE (asset_less so_far max_volume) (\<lambda>lt.
     if \<not> lt \<or> map_of (settles s) oid = None then Inr (so_far, False, s)
     else
       bindE (price_min backing (asset_id so_far)) (\<lambda>call_min.
       bindE (asset_sub max_volume so_far) (\<lambda>max_settlement.
       bindE (deref (settles s) oid) (\<lambda>f.
       if amount (fs_balance f) = 0 then bindE (cancel_settle_order oid True s) (\<lambda>s1. Inr (so_far, False, s1))
       else
         bindE (least_collateralized call_min s) (\<lambda>cid.
         case match_call_settle cid oid settlement_price max_settlement fill_price s of
           Inl e \<Rightarrow> if e = BlackSwan then bindE (cancel_settle_order oid True s) (\<lambda>s1. Inr (so_far, False, s1))
                    else Inl e
         | Inr (new_settled, s1) \<Rightarrow>
             if HARDFORK_CORE_184_TIME < next_maintenance_time s \<and> amount new_settled = 0
             then Inr (so_far, map_of (settles s1) oid \<noteq> None, s1)
             else bindE (asset_add so_far new_settled) (\<lambda>so_far'.
                  settle_order n oid backing settlement_price fill_price max_volume so_far' s1))))))"

text \<open>The variables of the loop over the settlements.\<close>

record settle_vars =
  sv_asset :: asset_id_type
  sv_max_volume :: asset
  sv_fill_price :: price
  sv_settlement_price :: price
  sv_finished :: bool

definition next_asset :: "settle_vars \<Rightarrow> chain \<Rightarrow> settle_vars option" where
  "next_asset v s =
     (case List.find (\<lambda>e. sv_asset v < asset_id (fs_balance (snd e))) (settles_by_date s) of
        None \<Rightarrow> None
      | Some e \<Rightarrow> Some (v\<lparr>sv_asset := asset_id (fs_balance (snd e)), sv_finished := False\<rparr>))"

definition offset_fill_price :: "bitasset_data \<Rightarrow> price result" where
  "offset_fill_price b =
     bindE (mk_rational (PERCENT_100 - int (ba_force_settlement_offset_percent b)) PERCENT_100) (\<lambda>r.
     price_div_ratio (pf_settlement_price (ba_current_feed b)) r)"

text \<open>The settlement price before hard fork core-342: what the order pays for what it receives, less the
  offset.\<close>

definition old_settlement_price :: "bitasset_data \<Rightarrow> asset \<Rightarrow> price result" where
  "old_settlement_price b pays =
     bindE (asset_mul pays (pf_settlement_price (ba_current_feed b))) (\<lambda>receives.
     bindE (u_div (u_mul (u128_of_int (amount receives))
                    (u128_of_int (PERCENT_100 - int (ba_force_settlement_offset_percent b)))) (u128_of_int PERCENT_100)) (\<lambda>q.
     bindE (to_uint64 q) (\<lambda>v.
     asset_div pays (mk_asset (share_of_u64 v) (asset_id receives)))))"

text \<open>One turn: the settlement \<open>oid\<close> is cancelled or matched, or the loop goes to the next asset; \<open>None\<close>
  when the loop ends.\<close>

definition settle_turn :: "nat \<Rightarrow> nat \<Rightarrow> force_settlement \<Rightarrow> settle_vars \<Rightarrow> chain \<Rightarrow> (settle_vars option \<times> chain) result" where
  "settle_turn n oid f v0 s =
     (let i = asset_id (fs_balance f); v = v0\<lparr>sv_asset := i\<rparr>
      in bindE (tget (assets s) i) (\<lambda>mia_object.
         bindE (bitasset_of mia_object s) (\<lambda>mia.
         if has_settlement mia then bindE (cancel_settle_order oid True s) (\<lambda>s1. Inr (Some v, s1))
         else if head_time s < fs_settlement_date f then Inr (next_asset v s, s)
         else if price_is_null (pf_settlement_price (ba_current_feed mia))
         then bindE (cancel_settle_order oid True s) (\<lambda>s1. Inr (Some v, s1))
         else
           bindE (if asset_id (sv_max_volume v) \<noteq> i then
                    bindE (tget (dyns s) (ao_dynamic_data mia_object)) (\<lambda>d.
                    bindE (max_force_settlement_volume mia (ad_current_supply d)) (\<lambda>x. Inr (mk_asset x i)))
                  else Inr (sv_max_volume v)) (\<lambda>max_volume.
           let v1 = v\<lparr>sv_max_volume := max_volume\<rparr>
           in if amount max_volume \<le> ba_force_settled_volume mia \<or> sv_finished v then Inr (next_asset v1 s, s)
           else
             bindE (if asset_id (base (sv_fill_price v)) \<noteq> i then offset_fill_price mia else Inr (sv_fill_price v)) (\<lambda>fill_price.
             bindE (if next_maintenance_time s \<le> HARDFORK_CORE_342_TIME then old_settlement_price mia (fs_balance f)
                    else if asset_id (base (sv_settlement_price v)) \<noteq> i then Inr fill_price
                    else Inr (sv_settlement_price v)) (\<lambda>settlement_price.
             bindE (settle_order n oid (ba_short_backing_asset mia) settlement_price fill_price max_volume
                      (mk_asset (ba_force_settled_volume mia) i) s) (\<lambda>(so_far, finished, s1).
             bindE (bitasset_id mia_object) (\<lambda>k.
             bindE (if ba_force_settled_volume mia \<noteq> amount so_far
                    then modify_bitasset k (\<lambda>b. Inr (b\<lparr>ba_force_settled_volume := amount so_far\<rparr>)) s1 else Inr s1) (\<lambda>s2.
             Inr (Some (v1\<lparr>sv_fill_price := fill_price, sv_settlement_price := settlement_price,
                          sv_finished := finished\<rparr>), s2))))))))))"

fun settle_loop :: "nat \<Rightarrow> nat \<Rightarrow> settle_vars \<Rightarrow> chain \<Rightarrow> chain result" where
  "settle_loop n 0 v s = Inl OutOfFuel"
| "settle_loop n (Suc k) v s =
     (case List.find (\<lambda>e. sv_asset v \<le> asset_id (fs_balance (snd e))) (settles_by_date s) of
        None \<Rightarrow> Inr s
      | Some (oid, f) \<Rightarrow>
          bindE (settle_turn n oid f v s) (\<lambda>(v', s1).
          case v' of None \<Rightarrow> Inr s1 | Some v1 \<Rightarrow> settle_loop n k v1 s1))"

definition clear_expired_orders :: "nat \<Rightarrow> chain \<Rightarrow> chain result" where
  "clear_expired_orders n s =
     bindE (expire_limits n n s) (\<lambda>s1.
     case settles_by_date s1 of
       [] \<Rightarrow> Inr s1
     | (_, f) # _ \<Rightarrow>
         settle_loop n n \<lparr>sv_asset = asset_id (fs_balance f), sv_max_volume = mk_asset 0 CORE,
           sv_fill_price = null_price, sv_settlement_price = null_price, sv_finished = False\<rparr> s1)"

end
