(* ===== verification/Expiry_Correct.thy ===== *)
theory Expiry_Correct
  imports Expiry
begin

text \<open>
  Clearing the expired orders (\<open>Expiry\<close>): the whole pass conserves every asset, keeps the state
  well-formed and leaves no expired limit order.
\<close>

subsection \<open>Clearing conserves\<close>

lemma conserves_step: "conserves s t \<Longrightarrow> (chain_wf t \<Longrightarrow> conserves t u) \<Longrightarrow> chain_wf s \<Longrightarrow> conserves s u"
  by (blast intro: conserves_trans dest: conservesD(1))

lemma expire_limits_conserves: "expire_limits n k s = Inr s' \<Longrightarrow> chain_wf s \<Longrightarrow> conserves s s'"
proof (induction k arbitrary: s)
  case (Suc k)
  show ?case
  proof (cases "index_by expires_before (limits s)")
    case Nil
    then show ?thesis using Suc.prems(1) by simp
  next
    case (Cons e es)
    obtain oid o1 where e: "e = (oid, o1)" by (cases e)
    show ?thesis
    proof (cases "head_time s < lo_expiration o1")
      case True
      then show ?thesis using Suc.prems(1) Cons e by simp
    next
      case False
      obtain s1 s2 where s1: "cancel_limit_order oid True False s = Inr s1" and l: "expire_limits n k s2 = Inr s'"
        and s2: "s2 = s1 \<or> (\<exists>b2 t b3. check_call_orders n (asset_id (base (lo_sell_price o1))) True False s1 = Inr (b2, t) \<and>
           check_call_orders n (asset_id (quote (lo_sell_price o1))) True False t = Inr (b3, s2))"
        using Suc.prems(1) Cons e False by (auto simp: bindE_eq_Inr split: if_split_asm)
      have "chain_wf s1 \<Longrightarrow> conserves s1 s2"
        using s2 check_call_orders_conserves conserves_step by (elim disjE exE conjE) (simp, blast)
      then have "conserves s s2" using conserves_step [OF market_conserves(4) [OF s1]] Suc.prems(2) by blast
      then show ?thesis using conserves_step Suc.IH [OF l] Suc.prems(2) by blast
    qed
  qed
qed simp

lemma cancel_settle_conserves: "cancel_settle_order fid vop s = Inr s' \<Longrightarrow> conserves s s'"
  unfolding conserves_def by (rule cancel_settle_shifts)

lemma cancel_settle_keeps: "cancel_settle_order fid vop s = Inr s' \<Longrightarrow> keeps s s'"
  unfolding cancel_settle_order_def Let_def
  by (elim result_elims) (auto simp: push_applied_operation_def keeps_def dest!: keeps_primitives)

lemma fill_settle_order_frame: "fill_settle_order fid x y p mk s = Inr (b, s') \<Longrightarrow> bitassets s' = bitassets s \<and>
    next_maintenance_time s' = next_maintenance_time s"
  unfolding fill_settle_order_def Let_def
  by (elim result_elims) (auto simp: push_applied_operation_def keeps_def dest!: keeps_primitives pay_market_fees_keeps)

lemma match_call_settle_frame: "match_call_settle cid fid p mx fp s = Inr (x, s') \<Longrightarrow> bitassets s' = bitassets s \<and>
    next_maintenance_time s' = next_maintenance_time s"
  unfolding match_call_settle_def
  by (elim result_elims)
    (auto simp: keeps_def dest!: cancel_settle_keeps fill_settle_order_frame dest: fill_call_order_shifts(3,4))

lemma sum_result_E:
  "(case m of Inl e \<Rightarrow> f e | Inr x \<Rightarrow> g x) = Inr z \<Longrightarrow> (\<And>e. m = Inl e \<Longrightarrow> f e = Inr z \<Longrightarrow> P) \<Longrightarrow>
     (\<And>x. m = Inr x \<Longrightarrow> g x = Inr z \<Longrightarrow> P) \<Longrightarrow> P"
  by (cases m) simp_all

lemma list_result_E:
  "(case xs of [] \<Rightarrow> m | x # ys \<Rightarrow> f x ys) = Inr z \<Longrightarrow> (xs = [] \<Longrightarrow> m = Inr z \<Longrightarrow> P) \<Longrightarrow>
     (\<And>x ys. xs = x # ys \<Longrightarrow> f x ys = Inr z \<Longrightarrow> P) \<Longrightarrow> P"
  by (cases xs) simp_all

lemma settle_order_conserves:
  assumes "settle_order n oid backing p fp mx st s = Inr (st', fin, s')"
    and "HARDFORK_CORE_342_TIME < next_maintenance_time s \<Longrightarrow> valid_price p"
  shows "conserves s s' \<and> bitassets s' = bitassets s \<and> next_maintenance_time s' = next_maintenance_time s"
  using assms
proof (induction n arbitrary: st s)
  case (Suc n)
  have c: "conserves s t \<and> bitassets t = bitassets s \<and> next_maintenance_time t = next_maintenance_time s"
    if "cancel_settle_order oid True s = Inr t" for t
    using cancel_settle_conserves [OF that] cancel_settle_keeps [OF that] by (simp add: keeps_def)
  have m: "conserves s t \<and> bitassets t = bitassets s \<and> next_maintenance_time t = next_maintenance_time s"
    if "match_call_settle cid oid p mset fp s = Inr (x, t)" "asset_less st mx = Inr True" "asset_sub mx st = Inr mset" for cid x t mset
  proof -
    have "0 \<le> amount mset" using that(2,3) by (auto simp: asset_cmp_Inr asset_arith_Inr safe_sub_Inr)
    then show ?thesis using match_call_settle_shifts [OF that(1) Suc.prems(2)] match_call_settle_frame [OF that(1)]
      by (simp add: conserves_def)
  qed
  have "s' = s \<or> cancel_settle_order oid True s = Inr s' \<or>
    (\<exists>mset cid x t. match_call_settle cid oid p mset fp s = Inr (x, t) \<and> asset_less st mx = Inr True \<and> asset_sub mx st = Inr mset \<and>
       (s' = t \<or> (\<exists>st1. settle_order n oid backing p fp mx st1 t = Inr (st', fin, s'))))"
    using Suc.prems(1) unfolding settle_order.simps
    by (elim result_elims sum_result_E) auto
  then show ?case
  proof (elim disjE exE conjE)
    fix mset cid x t st1
    assume t: "match_call_settle cid oid p mset fp s = Inr (x, t)" "asset_less st mx = Inr True" "asset_sub mx st = Inr mset"
      and r: "settle_order n oid backing p fp mx st1 t = Inr (st', fin, s')"
    note mt = m [OF t]
    then have "conserves t s' \<and> bitassets s' = bitassets t \<and> next_maintenance_time s' = next_maintenance_time t"
      using Suc.IH [OF r] Suc.prems(2) by simp
    with mt show ?thesis by (auto intro: conserves_trans)
  qed (use c m in auto)
qed simp


text \<open>The price that settlements are filled at is a valid price of the asset.\<close>

lemma offset_fill_price_valid:
  assumes "offset_fill_price b = Inr p" "valid_price (pf_settlement_price (ba_current_feed b))"
  shows "valid_price p"
proof -
  obtain r where m: "price_mul_ratio (pf_settlement_price (ba_current_feed b)) r = Inr p"
    using assms(1) by (auto simp: offset_fill_price_def price_div_ratio_def bindE_eq_Inr)
  then have "0 < numer r" "0 < denom r" by (auto simp: price_mul_ratio_def bindE_eq_Inr assertE_eq_Inr)
  then show ?thesis using price_mul_ratio_spec [OF assms(2)] m by fastforce
qed

text \<open>The prices that the loop carries are null or valid, and the core asset is not a bitasset.\<close>

definition vars_ok :: "chain \<Rightarrow> settle_vars \<Rightarrow> bool" where
  "vars_ok s v \<longleftrightarrow> HARDFORK_CORE_342_TIME < next_maintenance_time s \<longrightarrow>
     (asset_id (base (sv_fill_price v)) = CORE \<or> valid_price (sv_fill_price v)) \<and>
     (asset_id (base (sv_settlement_price v)) = CORE \<or> valid_price (sv_settlement_price v))"

definition core_plain :: "chain \<Rightarrow> bool" where
  "core_plain s \<longleftrightarrow> (\<forall>x. map_of (assets s) CORE = Some x \<longrightarrow> ao_bitasset_data x = None)"

lemma next_asset_vars: "next_asset v s = Some v' \<Longrightarrow> vars_ok t v' = vars_ok t v"
  by (auto simp: next_asset_def vars_ok_def split: option.splits)

lemma settle_turn_conserves:
  assumes r: "settle_turn n oid f v s = Inr (v', s')" and wf: "chain_wf s" and cp: "core_plain s" and v: "vars_ok s v"
  shows "conserves s s' \<and> (case v' of None \<Rightarrow> True | Some v1 \<Rightarrow> vars_ok s' v1)"
proof -
  let ?i = "asset_id (fs_balance f)"
  consider (cancel) "cancel_settle_order oid True s = Inr s'" "v' = Some (v\<lparr>sv_asset := ?i\<rparr>)"
    | (move) mx where "s' = s" "v' = next_asset (v\<lparr>sv_asset := ?i, sv_max_volume := mx\<rparr>) s"
    | (match) mia_object mia mx fp sp st fin s1 k where "map_of (assets s) ?i = Some mia_object"
      "bitasset_of mia_object s = Inr mia" "\<not> price_is_null (pf_settlement_price (ba_current_feed mia))"
      "(if asset_id (base (sv_fill_price v)) \<noteq> ?i then offset_fill_price mia else Inr (sv_fill_price v)) = Inr fp"
      "(if next_maintenance_time s \<le> HARDFORK_CORE_342_TIME then old_settlement_price mia (fs_balance f)
                    else if asset_id (base (sv_settlement_price v)) \<noteq> ?i then Inr fp
                    else Inr (sv_settlement_price v)) = Inr sp"
      "settle_order n oid (ba_short_backing_asset mia) sp fp mx (mk_asset (ba_force_settled_volume mia) ?i) s = Inr (st, fin, s1)"
      "ao_bitasset_data mia_object = Some k"
      "s' = s1 \<or> modify_bitasset k (\<lambda>b. Inr (b\<lparr>ba_force_settled_volume := amount st\<rparr>)) s1 = Inr s'"
      "v' = Some (v\<lparr>sv_asset := ?i, sv_max_volume := mx, sv_fill_price := fp, sv_settlement_price := sp, sv_finished := fin\<rparr>)"
    using r unfolding settle_turn_def Let_def
    apply (elim bindE_E prod_result_E if_result_E [where y = "(v', s')"])
        apply (rule cancel; simp)
       apply (rule move [where mx = "sv_max_volume v"]; auto)
      apply (rule cancel; simp)
     apply (rule move; auto)
    subgoal premises q for xa xb mx fp sp x7 st x2 fin s1 k s2
    proof (rule match [of xa xb fp sp mx st fin s1 k])
      show "map_of (assets s) ?i = Some xa" using q(4) by (simp add: tget_Inr)
      show "ao_bitasset_data xa = Some k" using q(16) by (simp add: bitasset_id_def of_option_eq_Inr)
      show "s' = s1 \<or> modify_bitasset k (\<lambda>b. Inr (b\<lparr>ba_force_settled_volume := amount st\<rparr>)) s1 = Inr s'"
        using q(17,18) by (auto split: if_split_asm)
    qed (use q(5,8,11-15,18) in \<open>simp_all cong: if_cong\<close>)
    done
  then show ?thesis
  proof cases
    case cancel
    then show ?thesis using v cancel_settle_conserves cancel_settle_keeps by (auto simp: vars_ok_def keeps_def)
  next
    case move
    then show ?thesis using v next_asset_vars by (auto simp: vars_ok_def split: option.splits)
  next
    case match
    note mb = market_bitasset(1) [OF wf match(1-3)]
    have i: "?i \<noteq> CORE" using cp match(1,7) by (auto simp: core_plain_def)
    have fp: "valid_price fp" if "HARDFORK_CORE_342_TIME < next_maintenance_time s"
      using match(4) v that i offset_fill_price_valid mb by (auto simp: vars_ok_def split: if_split_asm)
    have sp: "valid_price sp" if "HARDFORK_CORE_342_TIME < next_maintenance_time s"
      using match(5) v that i fp by (auto simp: vars_ok_def split: if_split_asm)
    note so = settle_order_conserves [OF match(6) sp]
    have "conserves s1 s' \<and> next_maintenance_time s' = next_maintenance_time s1"
      using match(8)
    proof
      assume m: "modify_bitasset k (\<lambda>b. Inr (b\<lparr>ba_force_settled_volume := amount st\<rparr>)) s1 = Inr s'"
      then have "shifts s1 s' (\<lambda>_. 0)"
        by (rule modify_bitasset_shifts) (auto simp: held_fund_def fund_ok_def has_settlement_def)
      then show ?thesis using m by (auto simp: conserves_def modify_bitasset_def bindE_eq_Inr)
    qed simp
    then show ?thesis using so fp sp match(9) by (auto simp: vars_ok_def intro: conserves_trans)
  qed
qed

lemma settle_loop_conserves:
  assumes "settle_loop n k v s = Inr s'" "chain_wf s" "core_plain s" "vars_ok s v"
  shows "conserves s s'"
  using assms
proof (induction k arbitrary: v s)
  case (Suc k)
  show ?case
  proof (cases "List.find (\<lambda>e. sv_asset v \<le> asset_id (fs_balance (snd e))) (settles_by_date s)")
    case None
    then show ?thesis using Suc.prems(1) by simp
  next
    case (Some e)
    then obtain oid f v' s1 where t: "settle_turn n oid f v s = Inr (v', s1)"
      and r: "(case v' of None \<Rightarrow> Inr s1 | Some v1 \<Rightarrow> settle_loop n k v1 s1) = Inr s'"
      using Suc.prems(1) by (cases e) (auto simp: bindE_eq_Inr)
    note c = settle_turn_conserves [OF t Suc.prems(2-4)]
    show ?thesis
    proof (cases v')
      case None
      then show ?thesis using r c by simp
    next
      case (Some v1)
      note w = conservesD [OF conjunct1 [OF c] Suc.prems(2)]
      have "core_plain s1" using Suc.prems(3) w(2) by (simp add: core_plain_def)
      then have "conserves s1 s'" using Suc.IH [OF _ w(1)] r c Some by simp
      then show ?thesis using c conserves_trans by blast
    qed
  qed
qed simp

lemma clear_expired_orders_conserves:
  assumes r: "clear_expired_orders n s = Inr s'" and wf: "chain_wf s" and cp: "core_plain s"
  shows "conserves s s'"
proof -
  obtain s1 where s1: "expire_limits n n s = Inr s1"
    and l: "s' = s1 \<or> (\<exists>a. settle_loop n n \<lparr>sv_asset = a, sv_max_volume = mk_asset 0 CORE,
           sv_fill_price = null_price, sv_settlement_price = null_price, sv_finished = False\<rparr> s1 = Inr s')"
    using r unfolding clear_expired_orders_def by (elim result_elims list_result_E) auto
  note c = expire_limits_conserves [OF s1 wf]
  note w = conservesD [OF c wf]
  have "core_plain s1" using cp w(2) by (simp add: core_plain_def)
  then have "conserves s1 s'"
    using l settle_loop_conserves [OF _ w(1)] by (auto simp: vars_ok_def null_price_def)
  with c show ?thesis by (rule conserves_trans)
qed

subsection \<open>No expired limit order is left\<close>

definition none_expired :: "chain \<Rightarrow> bool" where
  "none_expired s \<longleftrightarrow> (\<forall>e \<in> set (limits s). head_time s < lo_expiration (snd e))"

lemma expire_limits_none: "expire_limits n k s = Inr s' \<Longrightarrow> none_expired s'"
proof (induction k arbitrary: s)
  case (Suc k)
  have srt: "sorted (map (\<lambda>e. lo_expiration (snd e)) (index_by expires_before (limits s)))"
    by (rule index_by_sorted) (auto simp: expires_before_def)
  show ?case
  proof (cases "index_by expires_before (limits s)")
    case Nil
    then have "limits s = []" by (metis index_by_set set_empty)
    then show ?thesis using Suc.prems Nil by (simp add: none_expired_def)
  next
    case (Cons e es)
    obtain oid o1 where e: "e = (oid, o1)" by (cases e)
    have "set (limits s) = insert e (set es)" using Cons by (metis index_by_set list.simps(15))
    then have "none_expired s" if "head_time s < lo_expiration o1"
      using srt that e Cons by (auto simp: none_expired_def)
    moreover have "s' = s \<and> head_time s < lo_expiration o1 \<or> (\<exists>t. expire_limits n k t = Inr s')"
      using Suc.prems Cons e by (auto simp: bindE_eq_Inr split: if_split_asm)
    ultimately show ?thesis using Suc.IH by blast
  qed
qed simp

definition same_limits :: "chain \<Rightarrow> chain \<Rightarrow> bool" where
  "same_limits s s' \<longleftrightarrow> limits s' = limits s \<and> head_time s' = head_time s"

lemma primitives_limits:
  "modify_stats i f s = Inr s' \<Longrightarrow> same_limits s s'"
  "modify_dyn i g s = Inr s' \<Longrightarrow> same_limits s s'"
  "adjust_balance acct x s = Inr s' \<Longrightarrow> same_limits s s'"
  "pay_market_fees i x s = Inr (g', s') \<Longrightarrow> same_limits s s'"
  "pay_order r x p s = Inr s' \<Longrightarrow> same_limits s s'"
  using keeps_primitives pay_market_fees_keeps pay_order_keeps by (force simp: same_limits_def keeps_def)+

lemma fill_call_order_limits: "fill_call_order cid x y p mk s = Inr (b, s') \<Longrightarrow> same_limits s s'"
  unfolding fill_call_order_def Let_def
  by (elim result_elims) (auto simp: push_applied_operation_def same_limits_def dest!: primitives_limits)

lemma cancel_settle_limits: "cancel_settle_order fid vop s = Inr s' \<Longrightarrow> same_limits s s'"
  unfolding cancel_settle_order_def Let_def
  by (elim result_elims) (auto simp: push_applied_operation_def same_limits_def dest!: primitives_limits)

lemma fill_settle_order_limits: "fill_settle_order fid x y p mk s = Inr (b, s') \<Longrightarrow> same_limits s s'"
  unfolding fill_settle_order_def Let_def
  by (elim result_elims) (auto simp: push_applied_operation_def same_limits_def dest!: primitives_limits)

lemma match_call_settle_limits: "match_call_settle cid fid p mx fp s = Inr (x, s') \<Longrightarrow> same_limits s s'"
  unfolding match_call_settle_def
  by (elim result_elims)
    (auto simp: same_limits_def dest!: cancel_settle_limits fill_settle_order_limits fill_call_order_limits)

lemma settle_order_limits: "settle_order n oid backing p fp mx st s = Inr (st', fin, s') \<Longrightarrow> same_limits s s'"
proof (induction n arbitrary: st s)
  case (Suc n)
  then show ?case unfolding settle_order.simps
    by (elim result_elims sum_result_E)
      (auto simp: same_limits_def dest!: cancel_settle_limits match_call_settle_limits Suc.IH)
qed simp

lemma modify_bitasset_limits: "modify_bitasset k f s = Inr s' \<Longrightarrow> same_limits s s'"
  by (auto simp: modify_bitasset_def bindE_eq_Inr same_limits_def)

lemma settle_turn_limits: "settle_turn n oid f v s = Inr (v', s') \<Longrightarrow> same_limits s s'"
  unfolding settle_turn_def Let_def
  by (elim bindE_E prod_result_E if_result_E [where y = "(v', s')"])
    (auto simp: same_limits_def dest!: cancel_settle_limits settle_order_limits modify_bitasset_limits split: if_split_asm)

lemma settle_loop_limits: "settle_loop n k v s = Inr s' \<Longrightarrow> same_limits s s'"
proof (induction k arbitrary: v s)
  case (Suc k)
  then show ?case
    by (auto simp: bindE_eq_Inr same_limits_def split: option.splits dest!: settle_turn_limits Suc.IH)
qed simp

lemma clear_expired_orders_none: "clear_expired_orders n s = Inr s' \<Longrightarrow> none_expired s'"
  unfolding clear_expired_orders_def
  by (elim result_elims list_result_E)
    (fastforce simp: none_expired_def same_limits_def dest!: expire_limits_none settle_loop_limits)+

text \<open>C40. Clearing the expired orders, with the margin calls that the cancelled limit orders lead to and the
  force settlements at their dates, creates and destroys no asset and keeps the state well-formed, and no
  expired limit order is left.\<close>

theorem clearing_conserves:
  assumes "chain_wf s" "core_plain s" and "clear_expired_orders n s = Inr s'"
  shows "chain_wf s' \<and> (\<forall>a. surplus s' a = surplus s a) \<and> assets s' = assets s \<and>
    (\<forall>e \<in> set (limits s'). head_time s' < lo_expiration (snd e))"
  using clear_expired_orders_conserves [OF assms(3,1,2)] clear_expired_orders_none [OF assms(3)]
    conservesD [OF _ assms(1), of s'] by (auto simp: none_expired_def)

text \<open>A concrete market at a time when both limit orders have expired and the settlement is due.\<close>

definition demo_expired :: chain where
  "demo_expired = demo_market\<lparr>head_time := 600,
     limits := map (\<lambda>(i, x). (i, x\<lparr>lo_deferred_fee := 0\<rparr>)) (limits demo_market),
     bitassets := map (\<lambda>(i, b). (i, b\<lparr>ba_maximum_force_settlement_volume := 10000\<rparr>)) (bitassets demo_market)\<rparr>"

lemma demo_expired_wf: "chain_wf demo_expired" "core_plain demo_expired"
  by (simp_all add: demo_expired_def demo_market_def demo_chain_def chain_wf_def tables_ok_def table_ok_def dyns_ok_def
      funds_ok_def fees_ok_def fund_ok_def has_settlement_def price_is_null_def null_price_def default_price_feed_def
      table_all_def call_ok_def limit_ok_def settle_ok_def valid_price_def int64_ok_def safe_min_def safe_max_def
      PERCENT_100_def core_plain_def CORE_def)

theorem clearing_conserves_witness:
  "\<exists>s'. clear_expired_orders 6 demo_expired = Inr s' \<and> chain_wf s' \<and> surplus s' 0 = surplus demo_expired 0 \<and>
     surplus s' 1 = surplus demo_expired 1"
proof -
  have "is_ok (clear_expired_orders 6 demo_expired)" by code_simp
  then obtain s' where r: "clear_expired_orders 6 demo_expired = Inr s'" unfolding is_ok_iff by blast
  then show ?thesis using clearing_conserves [OF demo_expired_wf r] by blast
qed

end
