(* ===== verification/Authority.thy ===== *)
theory Authority
  imports Prelude "HOL-Library.AList"
begin

text \<open>
  Authorities and the signatures of a transaction (\<open>chain/protocol/authority.hpp\<close>,
  \<open>chain/protocol/transaction.cpp\<close>, \<open>chain/protocol/operations.cpp\<close>).  Public keys and addresses are type
  parameters; a container sorted by its keys is the list of its entries in that order.  The addresses that
  belong to a key (two \<open>pts_address\<close> versions, each compressed or not, and the native one) are hashes of the
  key: they are the parameter \<open>addr\<close>, in the order the code lists them.
\<close>

subsection \<open>Authorities\<close>

type_synonym account_id = nat

definition COMMITTEE_ACCOUNT :: account_id where "COMMITTEE_ACCOUNT = 0"
definition NULL_ACCOUNT :: account_id where "NULL_ACCOUNT = 3"
definition TEMP_ACCOUNT :: account_id where "TEMP_ACCOUNT = 4"
definition MAX_SIG_CHECK_DEPTH :: nat where "MAX_SIG_CHECK_DEPTH = 2"

record ('k, 'a) authority =
  weight_threshold :: "32 word"
  account_auths :: "(account_id \<times> 16 word) list"
  key_auths :: "('k \<times> 16 word) list"
  address_auths :: "('a \<times> 16 word) list"

definition auth_weights :: "('k, 'a) authority \<Rightarrow> 64 word" where
  "auth_weights au =
     fold (\<lambda>i t. t + ucast (snd i)) (address_auths au)
       (fold (\<lambda>i t. t + ucast (snd i)) (key_auths au)
         (fold (\<lambda>i t. t + ucast (snd i)) (account_auths au) 0))"

definition is_impossible :: "('k, 'a) authority \<Rightarrow> bool" where
  "is_impossible au \<longleftrightarrow> auth_weights au < ucast (weight_threshold au)"

definition get_keys :: "('k, 'a) authority \<Rightarrow> 'k list" where
  "get_keys au = map fst (key_auths au)"

definition get_addresses :: "('k, 'a) authority \<Rightarrow> 'a list" where
  "get_addresses au = map fst (address_auths au)"

definition num_auths :: "('k, 'a) authority \<Rightarrow> nat" where
  "num_auths au = length (account_auths au) + length (key_auths au) + length (address_auths au)"

definition clear_auths :: "('k, 'a) authority \<Rightarrow> ('k, 'a) authority" where
  "clear_auths au = au\<lparr>account_auths := [], key_auths := []\<rparr>"

definition null_authority :: "('k, 'a) authority" where
  "null_authority = \<lparr>weight_threshold = 1, account_auths = [(NULL_ACCOUNT, 1)], key_auths = [], address_auths = []\<rparr>"

definition add_authority_accounts :: "account_id list \<Rightarrow> ('k, 'a) authority \<Rightarrow> account_id list" where
  "add_authority_accounts accounts au = fold (\<lambda>i. insort_insert (fst i)) (account_auths au) accounts"

subsection \<open>What the operations require\<close>

text \<open>What the visitor reads of an operation: its fee payer, and what its functions
  \<open>get_required_active_authorities\<close>, \<open>get_required_owner_authorities\<close> and \<open>get_required_authorities\<close> add.\<close>

record ('k, 'a) operation =
  fee_payer :: account_id
  op_active :: "account_id list"
  op_owner :: "account_id list"
  op_other :: "('k, 'a) authority list"

type_synonym ('k, 'a) required = "account_id list \<times> account_id list \<times> ('k, 'a) authority list"

definition operation_get_required_authorities :: "('k, 'a) operation \<Rightarrow> ('k, 'a) required \<Rightarrow> ('k, 'a) required" where
  "operation_get_required_authorities op = (\<lambda>(active, owner, other).
     (fold insort_insert (op_active op) (insort_insert (fee_payer op) active),
      fold insort_insert (op_owner op) owner,
      other @ op_other op))"

definition required_by :: "('k, 'a) operation list \<Rightarrow> ('k, 'a) required" where
  "required_by ops = fold operation_get_required_authorities ops ([], [], [])"

definition get_required_authorities :: "('k, 'a) operation list \<Rightarrow> ('k, 'a) required" where
  "get_required_authorities ops =
     (case required_by ops of (active, owner, other) \<Rightarrow> (filter (\<lambda>x. x \<notin> set owner) active, owner, other))"

subsection \<open>The state of a check\<close>

text \<open>\<open>provided\<close> holds the keys with a flag that tells whether the key was needed; \<open>sigs_by_address\<close> the two maps
  from addresses to keys (of the available and of the provided ones), built at the first use.\<close>

record ('k, 'a) sign_state =
  provided :: "('k \<times> bool) list"
  approved_by :: "account_id list"
  sigs_by_address :: "(('a \<times> 'k) list \<times> ('a \<times> 'k) list) option"

definition new_sign_state :: "'k list \<Rightarrow> ('k, 'a) sign_state" where
  "new_sign_state sigs = \<lparr>provided = map (\<lambda>k. (k, False)) sigs, approved_by = [TEMP_ACCOUNT], sigs_by_address = None\<rparr>"

definition mark :: "'k \<Rightarrow> ('k, 'a) sign_state \<Rightarrow> ('k, 'a) sign_state" where
  "mark k st = st\<lparr>provided := AList.update k True (provided st)\<rparr>"

definition signed_by_key :: "'k list \<Rightarrow> 'k \<Rightarrow> ('k, 'a) sign_state \<Rightarrow> bool \<times> ('k, 'a) sign_state" where
  "signed_by_key available k st =
     (if map_of (provided st) k = None \<and> k \<notin> set available then (False, st) else (True, mark k st))"

definition by_address :: "('k \<Rightarrow> 'a list) \<Rightarrow> 'k list \<Rightarrow> ('a \<times> 'k) list" where
  "by_address addr keys = fold (\<lambda>k m. fold (\<lambda>a. AList.update a k) (addr k) m) keys []"

definition load_addresses :: "('k \<Rightarrow> 'a list) \<Rightarrow> 'k list \<Rightarrow> ('k, 'a) sign_state \<Rightarrow> ('k, 'a) sign_state" where
  "load_addresses addr available st =
     (if sigs_by_address st = None
      then st\<lparr>sigs_by_address := Some (by_address addr available, by_address addr (map fst (provided st)))\<rparr>
      else st)"

text \<open>When neither map has the address, the code goes on to dereference the end iterator of the map of the
  provided ones.\<close>

definition signed_by_address :: "('k \<Rightarrow> 'a list) \<Rightarrow> 'k list \<Rightarrow> 'a \<Rightarrow> ('k, 'a) sign_state
    \<Rightarrow> (bool \<times> ('k, 'a) sign_state) result" where
  "signed_by_address addr available a st0 =
     (let st = load_addresses addr available st0
      in case sigs_by_address st of
        None \<Rightarrow> Inl UndefinedBehaviour
      | Some (av, pr) \<Rightarrow>
          (case map_of pr a of
             Some k \<Rightarrow> Inr (True, mark k st)
           | None \<Rightarrow>
               (case map_of av a of
                  Some k \<Rightarrow> if k \<in> set available then Inr (True, mark k st) else Inr (False, st)
                | None \<Rightarrow> Inl UndefinedBehaviour)))"

subsection \<open>Checking an authority\<close>

text \<open>Each loop returns whether the threshold was reached, and the weight so far.\<close>

fun key_loop :: "'k list \<Rightarrow> 32 word \<Rightarrow> ('k \<times> 16 word) list \<Rightarrow> 32 word \<Rightarrow> ('k, 'a) sign_state
    \<Rightarrow> bool \<times> 32 word \<times> ('k, 'a) sign_state" where
  "key_loop available threshold [] weight st = (False, weight, st)"
| "key_loop available threshold ((k, w) # ks) weight st =
     (case signed_by_key available k st of (b, st1) \<Rightarrow>
        if b then
          let weight' = weight + ucast w
          in if threshold \<le> weight' then (True, weight', st1) else key_loop available threshold ks weight' st1
        else key_loop available threshold ks weight st1)"

fun address_loop :: "('k \<Rightarrow> 'a list) \<Rightarrow> 'k list \<Rightarrow> 32 word \<Rightarrow> ('a \<times> 16 word) list \<Rightarrow> 32 word \<Rightarrow> ('k, 'a) sign_state
    \<Rightarrow> (bool \<times> 32 word \<times> ('k, 'a) sign_state) result" where
  "address_loop addr available threshold [] weight st = Inr (False, weight, st)"
| "address_loop addr available threshold ((a, w) # as) weight st =
     bindE (signed_by_address addr available a st) (\<lambda>(b, st1).
        if b then
          let weight' = weight + ucast w
          in if threshold \<le> weight' then Inr (True, weight', st1) else address_loop addr available threshold as weight' st1
        else address_loop addr available threshold as weight st1)"

text \<open>The check of an account one level deeper is \<open>None\<close> at the maximal depth.\<close>

fun account_loop :: "(account_id \<Rightarrow> ('k, 'a) sign_state \<Rightarrow> (bool \<times> ('k, 'a) sign_state) result) option \<Rightarrow> 32 word
    \<Rightarrow> (account_id \<times> 16 word) list \<Rightarrow> 32 word \<Rightarrow> ('k, 'a) sign_state \<Rightarrow> (bool \<times> 32 word \<times> ('k, 'a) sign_state) result" where
  "account_loop deeper threshold [] weight st = Inr (False, weight, st)"
| "account_loop deeper threshold ((a, w) # as) weight st =
     (if a \<in> set (approved_by st) then
        let weight' = weight + ucast w
        in if threshold \<le> weight' then Inr (True, weight', st) else account_loop deeper threshold as weight' st
      else case deeper of
          None \<Rightarrow> account_loop deeper threshold as weight st
        | Some check \<Rightarrow>
            bindE (check a st) (\<lambda>(b, st1).
              if b then
                let st2 = st1\<lparr>approved_by := a # approved_by st1\<rparr>; weight' = weight + ucast w
                in if threshold \<le> weight' then Inr (True, weight', st2) else account_loop deeper threshold as weight' st2
              else account_loop deeper threshold as weight st1))"

definition authority_body :: "('k \<Rightarrow> 'a list) \<Rightarrow> 'k list
    \<Rightarrow> (account_id \<Rightarrow> ('k, 'a) sign_state \<Rightarrow> (bool \<times> ('k, 'a) sign_state) result) option
    \<Rightarrow> ('k, 'a) authority option \<Rightarrow> ('k, 'a) sign_state \<Rightarrow> (bool \<times> ('k, 'a) sign_state) result" where
  "authority_body addr available deeper au st =
     (case au of
        None \<Rightarrow> Inr (False, st)
      | Some auth \<Rightarrow>
          (case key_loop available (weight_threshold auth) (key_auths auth) 0 st of (b1, t1, st1) \<Rightarrow>
             if b1 then Inr (True, st1)
             else bindE (address_loop addr available (weight_threshold auth) (address_auths auth) t1 st1) (\<lambda>(b2, t2, st2).
               if b2 then Inr (True, st2)
               else bindE (account_loop deeper (weight_threshold auth) (account_auths auth) t2 st2) (\<lambda>(b3, t3, st3).
                 if b3 then Inr (True, st3) else Inr (weight_threshold auth \<le> t3, st3)))))"

text \<open>The first argument is the number of levels that are left, \<open>max_recursion - depth\<close>.\<close>

primrec check_authority :: "('k \<Rightarrow> 'a list) \<Rightarrow> 'k list \<Rightarrow> (account_id \<Rightarrow> ('k, 'a) authority option) \<Rightarrow> nat
    \<Rightarrow> ('k, 'a) authority option \<Rightarrow> ('k, 'a) sign_state \<Rightarrow> (bool \<times> ('k, 'a) sign_state) result" where
  "check_authority addr available get_active 0 = authority_body addr available None"
| "check_authority addr available get_active (Suc n) =
     authority_body addr available (Some (\<lambda>a. check_authority addr available get_active n (get_active a)))"

definition check_account :: "('k \<Rightarrow> 'a list) \<Rightarrow> 'k list \<Rightarrow> (account_id \<Rightarrow> ('k, 'a) authority option) \<Rightarrow> nat
    \<Rightarrow> account_id \<Rightarrow> ('k, 'a) sign_state \<Rightarrow> (bool \<times> ('k, 'a) sign_state) result" where
  "check_account addr available get_active n a st =
     (if a \<in> set (approved_by st) then Inr (True, st)
      else check_authority addr available get_active n (get_active a) st)"

definition remove_unused_signatures :: "('k, 'a) sign_state \<Rightarrow> bool \<times> ('k, 'a) sign_state" where
  "remove_unused_signatures st =
     (let remove_sigs = map fst (filter (\<lambda>e. \<not> snd e) (provided st))
      in (remove_sigs \<noteq> [], st\<lparr>provided := filter (\<lambda>e. fst e \<notin> set remove_sigs) (provided st)\<rparr>))"

subsection \<open>Verifying the signatures\<close>

text \<open>The message of a failed assertion reads \<open>*get_owner(id)\<close> and \<open>*get_active(id)\<close>, through null pointers when an
  account does not exist.\<close>

definition missing_auth :: "err \<Rightarrow> ('k, 'a) authority option list \<Rightarrow> err" where
  "missing_auth e aus = (if None \<in> set aus then UndefinedBehaviour else e)"

definition require_others :: "('k \<Rightarrow> 'a list) \<Rightarrow> 'k list \<Rightarrow> (account_id \<Rightarrow> ('k, 'a) authority option) \<Rightarrow> nat
    \<Rightarrow> ('k, 'a) authority list \<Rightarrow> ('k, 'a) sign_state \<Rightarrow> ('k, 'a) sign_state result" where
  "require_others addr available get_active n = foldE (\<lambda>auth st.
     bindE (check_authority addr available get_active n (Some auth) st) (\<lambda>(b, st1).
     if b then Inr st1 else Inl MissingOtherAuth))"

definition require_owners :: "('k \<Rightarrow> 'a list) \<Rightarrow> 'k list \<Rightarrow> (account_id \<Rightarrow> ('k, 'a) authority option)
    \<Rightarrow> (account_id \<Rightarrow> ('k, 'a) authority option) \<Rightarrow> nat \<Rightarrow> account_id list \<Rightarrow> account_id list
    \<Rightarrow> ('k, 'a) sign_state \<Rightarrow> ('k, 'a) sign_state result" where
  "require_owners addr available get_active get_owner n owner_approvals = foldE (\<lambda>i st.
     if i \<in> set owner_approvals then Inr st
     else bindE (check_authority addr available get_active n (get_owner i) st) (\<lambda>(b, st1).
          if b then Inr st1 else Inl (missing_auth MissingOwnerAuth [get_owner i])))"

definition require_actives :: "('k \<Rightarrow> 'a list) \<Rightarrow> 'k list \<Rightarrow> (account_id \<Rightarrow> ('k, 'a) authority option)
    \<Rightarrow> (account_id \<Rightarrow> ('k, 'a) authority option) \<Rightarrow> nat \<Rightarrow> account_id list
    \<Rightarrow> ('k, 'a) sign_state \<Rightarrow> ('k, 'a) sign_state result" where
  "require_actives addr available get_active get_owner n = foldE (\<lambda>i st.
     bindE (check_account addr available get_active n i st) (\<lambda>(b, st1).
     if b then Inr st1
     else bindE (check_authority addr available get_active n (get_owner i) st1) (\<lambda>(b, st2).
          if b then Inr st2 else Inl (missing_auth MissingActiveAuth [get_active i, get_owner i]))))"

definition verify_authority :: "('k \<Rightarrow> 'a list) \<Rightarrow> ('k, 'a) operation list \<Rightarrow> 'k list
    \<Rightarrow> (account_id \<Rightarrow> ('k, 'a) authority option) \<Rightarrow> (account_id \<Rightarrow> ('k, 'a) authority option) \<Rightarrow> nat \<Rightarrow> bool
    \<Rightarrow> account_id list \<Rightarrow> account_id list \<Rightarrow> unit result" where
  "verify_authority addr ops sigs get_active get_owner n allow_committee active_approvals owner_approvals =
     (case required_by ops of (required_active, required_owner, other) \<Rightarrow>
      if \<not> allow_committee \<and> COMMITTEE_ACCOUNT \<in> set required_active then Inl CommitteeApproval
      else
        let s = new_sign_state sigs;
            s0 = s\<lparr>approved_by := owner_approvals @ active_approvals @ approved_by s\<rparr>
        in
        bindE (require_others addr [] get_active n other s0) (\<lambda>s1.
        bindE (require_owners addr [] get_active get_owner n owner_approvals required_owner s1) (\<lambda>s2.
        bindE (require_actives addr [] get_active get_owner n required_active s2) (\<lambda>s3.
        if fst (remove_unused_signatures s3) then Inl IrrelevantSig else Inr ()))))"

subsection \<open>Signed transactions\<close>

record ('k, 'a, 's) signed_transaction =
  operations :: "('k, 'a) operation list"
  signatures :: "'s list"
  signees :: "'k list"

definition sign :: "'s \<Rightarrow> ('k, 'a, 's) signed_transaction \<Rightarrow> ('k, 'a, 's) signed_transaction" where
  "sign sig tx = tx\<lparr>signatures := signatures tx @ [sig], signees := []\<rparr>"

definition clear_signatures :: "('k, 'a, 's) signed_transaction \<Rightarrow> ('k, 'a, 's) signed_transaction" where
  "clear_signatures tx = tx\<lparr>signatures := [], signees := []\<rparr>"

text \<open>\<open>recover\<close> is the key that made a signature of the transaction's digest.\<close>

definition get_signature_keys :: "('s \<Rightarrow> 'k result) \<Rightarrow> ('k, 'a, 's) signed_transaction
    \<Rightarrow> ('k list \<times> ('k, 'a, 's) signed_transaction) result" where
  "get_signature_keys recover tx =
     (if signees tx = [] \<and> signatures tx \<noteq> [] then
        bindE (foldE (\<lambda>sig keys. bindE (recover sig) (\<lambda>k. if k \<in> set keys then Inl DuplicateSig else Inr (keys @ [k])))
                 (signatures tx) []) (\<lambda>keys.
        Inr (keys, tx\<lparr>signees := keys\<rparr>))
      else Inr (signees tx, tx))"

text \<open>The signatures by keys of \<open>available\<close> that the transaction still needs.\<close>

definition get_required_signatures :: "('k \<Rightarrow> 'a list) \<Rightarrow> ('s \<Rightarrow> 'k result) \<Rightarrow> ('k, 'a, 's) signed_transaction \<Rightarrow> 'k list
    \<Rightarrow> (account_id \<Rightarrow> ('k, 'a) authority option) \<Rightarrow> (account_id \<Rightarrow> ('k, 'a) authority option) \<Rightarrow> nat \<Rightarrow> 'k list result" where
  "get_required_signatures addr recover tx available get_active get_owner n =
     (case get_required_authorities (operations tx) of (required_active, required_owner, other) \<Rightarrow>
      bindE (get_signature_keys recover tx) (\<lambda>(signature_keys, _).
      bindE (foldE (\<lambda>auth st. bindE (check_authority addr available get_active n (Some auth) st) (\<lambda>(_, st1). Inr st1))
               other (new_sign_state signature_keys)) (\<lambda>s1.
      bindE (foldE (\<lambda>i st. bindE (check_authority addr available get_active n (get_owner i) st) (\<lambda>(_, st1). Inr st1))
               required_owner s1) (\<lambda>s2.
      bindE (foldE (\<lambda>i st. bindE (check_account addr available get_active n i st) (\<lambda>(b, st1).
               if b then Inr st1
               else bindE (check_authority addr available get_active n (get_owner i) st1) (\<lambda>(_, st2). Inr st2)))
               required_active s2) (\<lambda>s3.
      Inr (filter (\<lambda>k. k \<in> set available \<and> k \<notin> set signature_keys)
             (map fst (provided (snd (remove_unused_signatures s3))))))))))"

definition minimize_required_signatures :: "('k \<Rightarrow> 'a list) \<Rightarrow> ('s \<Rightarrow> 'k result) \<Rightarrow> ('k, 'a, 's) signed_transaction
    \<Rightarrow> 'k list \<Rightarrow> (account_id \<Rightarrow> ('k, 'a) authority option) \<Rightarrow> (account_id \<Rightarrow> ('k, 'a) authority option) \<Rightarrow> nat
    \<Rightarrow> 'k list result" where
  "minimize_required_signatures addr recover tx available get_active get_owner n =
     bindE (get_required_signatures addr recover tx available get_active get_owner n) (\<lambda>s.
     foldE (\<lambda>k keys.
       let erased = filter (\<lambda>x. x \<noteq> k) keys
       in case verify_authority addr (operations tx) erased get_active get_owner n False [] [] of
            Inr _ \<Rightarrow> Inr erased
          | Inl e \<Rightarrow>
              if e \<in> {MissingOwnerAuth, MissingActiveAuth, MissingOtherAuth} then Inr (erased @ [k]) else Inl e) s s)"

end
