(* ===== verification/Authority_Correct.thy ===== *)
theory Authority_Correct
  imports Authority
begin

text \<open>
  What \<open>verify_authority\<close> guarantees and what suffices for it.  \<open>met_within n\<close> says without any cache when an
  authority is met by keys and preapproved accounts through at most \<open>n\<close> levels of accounts.  A check that
  succeeds met its authority at some level, which may exceed the recursion limit through the cache of approved
  accounts (\<open>check_inv\<close>); an authority that is met within the limit is never missed (\<open>ready\<close>).
\<close>

subsection \<open>When an authority is met\<close>

definition weight_of :: "('x \<Rightarrow> bool) \<Rightarrow> ('x \<times> 16 word) list \<Rightarrow> nat" where
  "weight_of P xs = sum_list (map (\<lambda>e. unat (snd e)) (filter (\<lambda>e. P (fst e)) xs))"

definition met :: "('k \<Rightarrow> 'a list) \<Rightarrow> 'k list \<Rightarrow> (account_id \<Rightarrow> bool) \<Rightarrow> ('k, 'a) authority \<Rightarrow> bool" where
  "met addr keys ok au \<longleftrightarrow> unat (weight_threshold au) \<le>
     weight_of (\<lambda>k. k \<in> set keys) (key_auths au) +
     weight_of (\<lambda>a. \<exists>k \<in> set keys. a \<in> set (addr k)) (address_auths au) + weight_of ok (account_auths au)"

text \<open>An authority is met by keys and preapproved accounts within a number of levels.\<close>

primrec met_within :: "('k \<Rightarrow> 'a list) \<Rightarrow> (account_id \<Rightarrow> ('k, 'a) authority option) \<Rightarrow> 'k list \<Rightarrow> account_id list \<Rightarrow> nat
    \<Rightarrow> ('k, 'a) authority \<Rightarrow> bool" where
  "met_within addr get_active keys pre 0 = met addr keys (\<lambda>a. a \<in> set pre)"
| "met_within addr get_active keys pre (Suc n) =
     met addr keys (\<lambda>a. a \<in> set pre \<or> (case get_active a of None \<Rightarrow> False | Some au \<Rightarrow> met_within addr get_active keys pre n au))"

definition account_ok :: "('k \<Rightarrow> 'a list) \<Rightarrow> (account_id \<Rightarrow> ('k, 'a) authority option) \<Rightarrow> 'k list \<Rightarrow> account_id list \<Rightarrow> account_id \<Rightarrow> bool" where
  "account_ok addr get_active keys pre a \<longleftrightarrow>
     a \<in> set pre \<or> (\<exists>n au. get_active a = Some au \<and> met_within addr get_active keys pre n au)"

text \<open>An authority mentions a key within a number of levels.\<close>

definition has_key :: "('k \<Rightarrow> 'a list) \<Rightarrow> 'k \<Rightarrow> ('k, 'a) authority \<Rightarrow> bool" where
  "has_key addr k au \<longleftrightarrow> k \<in> set (get_keys au) \<or> (\<exists>a \<in> set (addr k). a \<in> set (get_addresses au))"

primrec mentions :: "('k \<Rightarrow> 'a list) \<Rightarrow> (account_id \<Rightarrow> ('k, 'a) authority option) \<Rightarrow> nat \<Rightarrow> 'k \<Rightarrow> ('k, 'a) authority \<Rightarrow> bool" where
  "mentions addr get_active 0 k au = has_key addr k au"
| "mentions addr get_active (Suc n) k au =
     (has_key addr k au \<or> (\<exists>a \<in> set (map fst (account_auths au)). case get_active a of None \<Rightarrow> False
        | Some au' \<Rightarrow> mentions addr get_active n k au'))"

lemma weight_of_mono: "(\<And>x. x \<in> set (map fst xs) \<Longrightarrow> P x \<Longrightarrow> Q x) \<Longrightarrow> weight_of P xs \<le> weight_of Q xs"
  unfolding weight_of_def by (induction xs) auto

lemma weight_of_Cons [simp]: "weight_of P ((x, w) # xs) = (if P x then unat w else 0) + weight_of P xs"
  by (simp add: weight_of_def)

lemma weight_of_Nil [simp]: "weight_of P [] = 0"
  by (simp add: weight_of_def)

lemma met_mono: "(\<And>a. a \<in> set (map fst (account_auths au)) \<Longrightarrow> P a \<Longrightarrow> Q a) \<Longrightarrow> met addr keys P au \<Longrightarrow> met addr keys Q au"
  using weight_of_mono [of "account_auths au" P Q] by (simp add: met_def)

lemma met_within_Suc: "met_within addr g keys pre n au \<Longrightarrow> met_within addr g keys pre (Suc n) au"
proof (induction n arbitrary: au)
  case 0
  then show ?case by (auto intro: met_mono)
next
  case (Suc n)
  have "met addr keys (\<lambda>a. a \<in> set pre \<or> (case g a of None \<Rightarrow> False | Some au' \<Rightarrow> met_within addr g keys pre n au')) au"
    using Suc.prems by (simp only: met_within.simps)
  then have "met addr keys (\<lambda>a. a \<in> set pre \<or> (case g a of None \<Rightarrow> False | Some au' \<Rightarrow> met_within addr g keys pre (Suc n) au')) au"
    by (rule met_mono [rotated]) (auto split: option.splits simp del: met_within.simps intro: Suc.IH)
  then show ?case by (simp only: met_within.simps)
qed

lemma met_within_mono: "n \<le> m \<Longrightarrow> met_within addr g keys pre n au \<Longrightarrow> met_within addr g keys pre m au"
proof (induction rule: dec_induct)
  case (step k)
  then show ?case using met_within_Suc by blast
qed

lemma met_limit: "met addr keys (account_ok addr g keys pre) au \<Longrightarrow> \<exists>n. met_within addr g keys pre n au"
proof -
  assume m: "met addr keys (account_ok addr g keys pre) au"
  let ?A = "set (map fst (account_auths au))"
  have "\<exists>n. \<forall>a \<in> A. account_ok addr g keys pre a \<longrightarrow>
      a \<in> set pre \<or> (\<exists>au'. g a = Some au' \<and> met_within addr g keys pre n au')" if "finite A" for A
    using that
  proof induction
    case (insert a A)
    then obtain n where n: "\<forall>a \<in> A. account_ok addr g keys pre a \<longrightarrow>
      a \<in> set pre \<or> (\<exists>au'. g a = Some au' \<and> met_within addr g keys pre n au')" by blast
    obtain m where m: "account_ok addr g keys pre a \<longrightarrow> a \<in> set pre \<or> (\<exists>au'. g a = Some au' \<and> met_within addr g keys pre m au')"
      unfolding account_ok_def by blast
    show ?case
      using n m met_within_mono [of n "max n m"] met_within_mono [of m "max n m"]
      by (intro exI [of _ "max n m"]) fastforce
  qed simp
  from this [of ?A] obtain n where "\<forall>a \<in> ?A. account_ok addr g keys pre a \<longrightarrow>
      a \<in> set pre \<or> (\<exists>au'. g a = Some au' \<and> met_within addr g keys pre n au')" by auto
  then have "met_within addr g keys pre (Suc n) au"
    using m unfolding met_within.simps by (elim met_mono [rotated]) fastforce
  then show ?thesis by blast
qed

subsection \<open>What a check may rely on\<close>

text \<open>\<open>keys\<close> are all the keys of the check: the signatures and the available ones.\<close>

definition marked :: "('k, 'a) sign_state \<Rightarrow> 'k set" where
  "marked st = {k. map_of (provided st) k = Some True}"

definition known :: "('k, 'a) sign_state \<Rightarrow> 'k set" where
  "known st = dom (map_of (provided st))"

definition addresses_ok :: "('k \<Rightarrow> 'a list) \<Rightarrow> 'k list \<Rightarrow> ('a \<times> 'k) list \<Rightarrow> bool" where
  "addresses_ok addr keys m \<longleftrightarrow> (\<forall>a k. map_of m a = Some k \<longrightarrow> k \<in> set keys \<and> a \<in> set (addr k))"

definition check_inv :: "('k \<Rightarrow> 'a list) \<Rightarrow> (account_id \<Rightarrow> ('k, 'a) authority option) \<Rightarrow> 'k list \<Rightarrow> account_id list
    \<Rightarrow> ('k, 'a) sign_state \<Rightarrow> bool" where
  "check_inv addr g keys pre st \<longleftrightarrow> known st \<subseteq> set keys \<and> (\<forall>a \<in> set (approved_by st). account_ok addr g keys pre a) \<and>
     (\<forall>av pr. sigs_by_address st = Some (av, pr) \<longrightarrow> addresses_ok addr keys av \<and> addresses_ok addr keys pr)"

lemma mark_simps [simp]:
  "known (mark k st) = insert k (known st)"
  "marked (mark k st) = insert k (marked st)"
  "approved_by (mark k st) = approved_by st"
  "sigs_by_address (mark k st) = sigs_by_address st"
  by (auto simp: mark_def known_def marked_def update_conv')

lemma addresses_ok_update: "addresses_ok addr keys m \<Longrightarrow> k \<in> set keys \<Longrightarrow> a \<in> set (addr k) \<Longrightarrow> addresses_ok addr keys (AList.update a k m)"
  by (auto simp: addresses_ok_def update_conv')

lemma by_address_fold_ok:
  "addresses_ok addr keys m \<Longrightarrow> k \<in> set keys \<Longrightarrow> set xs \<subseteq> set (addr k) \<Longrightarrow>
     addresses_ok addr keys (fold (\<lambda>a. AList.update a k) xs m)"
  by (induction xs arbitrary: m) (simp_all add: addresses_ok_update)

lemma by_address_ok:
  assumes "set ks \<subseteq> set keys"
  shows "addresses_ok addr keys (by_address addr ks)"
proof -
  have "addresses_ok addr keys (fold (\<lambda>k. fold (\<lambda>a. AList.update a k) (addr k)) ks m)" if "addresses_ok addr keys m" for m
    using that assms
  proof (induction ks arbitrary: m)
    case (Cons k ks)
    have "addresses_ok addr keys (fold (\<lambda>a. AList.update a k) (addr k) m)"
      using Cons.prems by (intro by_address_fold_ok) simp_all
    then show ?case using Cons.IH Cons.prems(2) by simp
  qed simp
  from this [of "[]"] show ?thesis by (simp add: by_address_def addresses_ok_def)
qed

lemma signed_by_key_inv:
  assumes "signed_by_key available k st = (b, st')" "check_inv addr g keys pre st" "set available \<subseteq> set keys"
  shows "check_inv addr g keys pre st' \<and> marked st' \<subseteq> marked st \<union> {k} \<and> (b \<longrightarrow> k \<in> set keys)"
proof -
  have "b = False \<and> st' = st \<or> (b \<and> st' = mark k st \<and> (k \<in> known st \<or> k \<in> set available))"
    using assms(1) by (auto simp: signed_by_key_def known_def split: if_split_asm)
  then show ?thesis using assms(2,3) by (auto simp: check_inv_def)
qed

lemma signed_by_address_inv:
  assumes "signed_by_address addr available a st = Inr (b, st')" "check_inv addr g keys pre st" "set available \<subseteq> set keys"
  shows "check_inv addr g keys pre st' \<and> marked st' \<subseteq> marked st \<union> {k. a \<in> set (addr k)} \<and> (b \<longrightarrow> (\<exists>k \<in> set keys. a \<in> set (addr k)))"
proof -
  let ?l = "load_addresses addr available st"
  have d: "set (map fst (provided st)) \<subseteq> set keys"
    using assms(2) by (auto simp: check_inv_def known_def dom_map_of_conv_image_fst)
  have l: "check_inv addr g keys pre ?l" "marked ?l = marked st"
    using assms(2) by_address_ok [OF d, of addr] by_address_ok [OF assms(3), of addr]
    by (auto simp: load_addresses_def check_inv_def known_def marked_def)
  obtain av pr where m: "sigs_by_address ?l = Some (av, pr)"
    by (cases "sigs_by_address st") (auto simp: load_addresses_def)
  have "st' = ?l \<and> \<not> b \<or> (\<exists>k \<in> set keys. a \<in> set (addr k) \<and> st' = mark k ?l)"
    using assms(1) m l(1) unfolding signed_by_address_def Let_def
    by (force simp: check_inv_def addresses_ok_def split: option.splits if_split_asm)
  then show ?thesis using l by (auto simp: check_inv_def)
qed

lemma unat_ucast16: "unat (ucast (w :: 16 word) :: 32 word) = unat w"
proof -
  have "unat w < 2 ^ 16" using unsigned_less [of w, where 'a = nat] by simp
  then show ?thesis by (simp add: unsigned_ucast_eq take_bit_nat_eq_self_iff)
qed

lemma weight_add_le: "unat (t + ucast (w :: 16 word) :: 32 word) \<le> unat t + unat w"
  unfolding unat_word_ariths(1) unat_ucast16 by (rule mod_less_eq_dividend)

lemma key_loop_inv:
  assumes "key_loop available thr ks t st = (b, t', st')" "check_inv addr g keys pre st" "set available \<subseteq> set keys"
    and "unat t \<le> W"
  shows "check_inv addr g keys pre st' \<and> marked st' \<subseteq> marked st \<union> set (map fst ks) \<and>
    unat t' \<le> W + weight_of (\<lambda>k. k \<in> set keys) ks \<and> (b \<longrightarrow> thr \<le> t')"
  using assms
proof (induction ks arbitrary: t st W)
  case (Cons e ks)
  obtain k w where e: "e = (k, w)" by (cases e)
  obtain c st1 where s: "signed_by_key available k st = (c, st1)" by (cases "signed_by_key available k st")
  note i = signed_by_key_inv [OF s Cons.prems(2,3)]
  let ?t = "t + ucast w"
  have w: "unat ?t \<le> W + unat w" using weight_add_le [of t w] Cons.prems(4) by linarith
  show ?case
  proof (cases c)
    case True
    then have k: "k \<in> set keys" using i by blast
    show ?thesis
    proof (cases "thr \<le> ?t")
      case t: True
      then have "b \<and> t' = ?t \<and> st' = st1" using Cons.prems(1) e s True by (simp add: Let_def)
      then show ?thesis using i w k t e by auto
    next
      case False
      then have r: "key_loop available thr ks ?t st1 = (b, t', st')" using Cons.prems(1) e s True by (simp add: Let_def)
      show ?thesis using Cons.IH [OF r conjunct1 [OF i] Cons.prems(3) w] i k e by auto
    qed
  next
    case False
    then have r: "key_loop available thr ks t st1 = (b, t', st')" using Cons.prems(1) e s by simp
    show ?thesis using Cons.IH [OF r conjunct1 [OF i] Cons.prems(3,4)] i e by auto
  qed
qed simp

lemma address_loop_inv:
  assumes "address_loop addr available thr as t st = Inr (b, t', st')" "check_inv addr g keys pre st"
    "set available \<subseteq> set keys" and "unat t \<le> W"
  shows "check_inv addr g keys pre st' \<and> marked st' \<subseteq> marked st \<union> {k. \<exists>a \<in> set (addr k). a \<in> set (map fst as)} \<and>
    unat t' \<le> W + weight_of (\<lambda>a. \<exists>k \<in> set keys. a \<in> set (addr k)) as \<and> (b \<longrightarrow> thr \<le> t')"
  using assms
proof (induction "as" arbitrary: t st W)
  case (Cons e "as")
  obtain a w where e: "e = (a, w)" by (cases e)
  obtain c st1 where s: "signed_by_address addr available a st = Inr (c, st1)"
    using Cons.prems(1) e by (auto simp: bindE_eq_Inr)
  note i = signed_by_address_inv [OF s Cons.prems(2,3)]
  let ?t = "t + ucast w"
  have w: "unat ?t \<le> W + unat w" using weight_add_le [of t w] Cons.prems(4) by linarith
  show ?case
  proof (cases c)
    case True
    then have k: "\<exists>k \<in> set keys. a \<in> set (addr k)" using i by blast
    show ?thesis
    proof (cases "thr \<le> ?t")
      case t: True
      then have "b \<and> t' = ?t \<and> st' = st1" using Cons.prems(1) e s True by (simp add: Let_def)
      then show ?thesis using i w k t e by auto
    next
      case False
      then have r: "address_loop addr available thr as ?t st1 = Inr (b, t', st')" using Cons.prems(1) e s True by (simp add: Let_def)
      have "marked st' \<subseteq> marked st1 \<union> {k. \<exists>a \<in> set (addr k). a \<in> set (map fst as)}"
        using Cons.IH [OF r conjunct1 [OF i] Cons.prems(3) w] by blast
      moreover have "marked st1 \<subseteq> marked st \<union> {k. a \<in> set (addr k)}" using i by blast
      ultimately have "marked st' \<subseteq> marked st \<union> {k. \<exists>a \<in> set (addr k). a \<in> set (map fst (e # as))}" using e by simp blast
      then show ?thesis using Cons.IH [OF r conjunct1 [OF i] Cons.prems(3) w] k e by simp
    qed
  next
    case False
    then have r: "address_loop addr available thr as t st1 = Inr (b, t', st')" using Cons.prems(1) e s by simp
    have "marked st' \<subseteq> marked st1 \<union> {k. \<exists>a \<in> set (addr k). a \<in> set (map fst as)}"
      using Cons.IH [OF r conjunct1 [OF i] Cons.prems(3,4)] by blast
    moreover have "marked st1 \<subseteq> marked st \<union> {k. a \<in> set (addr k)}" using i by blast
    ultimately have "marked st' \<subseteq> marked st \<union> {k. \<exists>a \<in> set (addr k). a \<in> set (map fst (e # as))}" using e by simp blast
    then show ?thesis using Cons.IH [OF r conjunct1 [OF i] Cons.prems(3,4)] e by simp
  qed
qed simp

text \<open>The loop over the accounts, for any check of an account one level deeper that keeps the invariant.\<close>

lemma account_loop_inv:
  assumes "account_loop deeper thr as t st = Inr (b, t', st')" "check_inv addr g keys pre st" "unat t \<le> W"
    and deeper: "\<And>check a st c st1. deeper = Some check \<Longrightarrow> check a st = Inr (c, st1) \<Longrightarrow>
      check_inv addr g keys pre st \<Longrightarrow>
      check_inv addr g keys pre st1 \<and> marked st1 \<subseteq> marked st \<union> M a \<and> (c \<longrightarrow> account_ok addr g keys pre a)"
  shows "check_inv addr g keys pre st' \<and> marked st' \<subseteq> marked st \<union> (\<Union>a \<in> set (map fst as). if deeper = None then {} else M a) \<and>
    unat t' \<le> W + weight_of (account_ok addr g keys pre) as \<and> (b \<longrightarrow> thr \<le> t')"
  using assms
proof (induction "as" arbitrary: t st W)
  case (Cons e "as")
  obtain a w where e: "e = (a, w)" by (cases e)
  let ?t = "t + ucast w"
  have w: "unat ?t \<le> W + unat w" using weight_add_le [of t w] Cons.prems(3) by linarith
  have step: ?case if i: "check_inv addr g keys pre st1 \<and> marked st1 \<subseteq> marked st \<union> (if deeper = None then {} else M a)"
      and c: "account_ok addr g keys pre a"
      and r: "(if thr \<le> ?t then Inr (True, ?t, st1) else account_loop deeper thr as ?t st1) = Inr (b, t', st')" for st1
  proof (cases "thr \<le> ?t")
    case True
    then show ?thesis using r i w c e by auto
  next
    case False
    then have r: "account_loop deeper thr as ?t st1 = Inr (b, t', st')" using r by simp
    have "check_inv addr g keys pre st' \<and> marked st' \<subseteq> marked st1 \<union> (\<Union>a \<in> set (map fst as). if deeper = None then {} else M a) \<and>
      unat t' \<le> (W + unat w) + weight_of (account_ok addr g keys pre) as \<and> (b \<longrightarrow> thr \<le> t')"
      by (rule Cons.IH [OF r conjunct1 [OF i] w]) (rule Cons.prems(4))
    then show ?thesis using i c e by (cases "deeper = None") auto
  qed
  have skip: ?case if i: "check_inv addr g keys pre st1 \<and> marked st1 \<subseteq> marked st \<union> (if deeper = None then {} else M a)"
      and r: "account_loop deeper thr as t st1 = Inr (b, t', st')" for st1
  proof -
    have "check_inv addr g keys pre st' \<and> marked st' \<subseteq> marked st1 \<union> (\<Union>a \<in> set (map fst as). if deeper = None then {} else M a) \<and>
      unat t' \<le> W + weight_of (account_ok addr g keys pre) as \<and> (b \<longrightarrow> thr \<le> t')"
      by (rule Cons.IH [OF r conjunct1 [OF i] Cons.prems(3)]) (rule Cons.prems(4))
    then show ?thesis using i e by (cases "deeper = None") auto
  qed
  show ?case
  proof (cases "a \<in> set (approved_by st)")
    case True
    then have "account_ok addr g keys pre a" using Cons.prems(2) by (auto simp: check_inv_def)
    then show ?thesis using step [of st] Cons.prems(1,2) e True by (simp add: Let_def)
  next
    case False
    show ?thesis
    proof (cases deeper)
      case None
      then show ?thesis using skip [of st] Cons.prems(1,2) e False by simp
    next
      case (Some check)
      then obtain c st1 where s: "check a st = Inr (c, st1)"
        and r: "(if c then if thr \<le> ?t then Inr (True, ?t, st1\<lparr>approved_by := a # approved_by st1\<rparr>)
             else account_loop deeper thr as ?t (st1\<lparr>approved_by := a # approved_by st1\<rparr>)
            else account_loop deeper thr as t st1) = Inr (b, t', st')"
        using Cons.prems(1) e False by (auto simp: bindE_eq_Inr Let_def cong: if_cong)
      note i = Cons.prems(4) [OF Some s Cons.prems(2)]
      show ?thesis
      proof (cases c)
        case True
        then have "check_inv addr g keys pre (st1\<lparr>approved_by := a # approved_by st1\<rparr>) \<and>
            marked (st1\<lparr>approved_by := a # approved_by st1\<rparr>) = marked st1"
          using i by (simp add: check_inv_def known_def marked_def)
        then show ?thesis using step [of "st1\<lparr>approved_by := a # approved_by st1\<rparr>"] i r True Some by simp
      next
        case False
        then show ?thesis using skip [of st1] i r Some by simp
      qed
    qed
  qed
qed simp

lemma authority_body_inv:
  assumes r: "authority_body addr available deeper au st = Inr (b, st')" and i: "check_inv addr g keys pre st"
    and av: "set available \<subseteq> set keys"
    and deeper: "\<And>check a st c st1. deeper = Some check \<Longrightarrow> check a st = Inr (c, st1) \<Longrightarrow>
      check_inv addr g keys pre st \<Longrightarrow>
      check_inv addr g keys pre st1 \<and> marked st1 \<subseteq> marked st \<union> M a \<and> (c \<longrightarrow> account_ok addr g keys pre a)"
  shows "check_inv addr g keys pre st' \<and>
    marked st' \<subseteq> marked st \<union> {k. \<exists>auth. au = Some auth \<and> (has_key addr k auth \<or> deeper \<noteq> None \<and> (\<exists>a \<in> set (map fst (account_auths auth)). k \<in> M a))} \<and>
    (b \<longrightarrow> (\<exists>auth n. au = Some auth \<and> met_within addr g keys pre n auth))"
proof (cases au)
  case None
  then show ?thesis using r i by (simp add: authority_body_def)
next
  case (Some auth)
  let ?thr = "weight_threshold auth"
  obtain b1 t1 st1 where k: "key_loop available ?thr (key_auths auth) 0 st = (b1, t1, st1)"
    by (cases "key_loop available ?thr (key_auths auth) 0 st") auto
  have ki: "check_inv addr g keys pre st1 \<and> marked st1 \<subseteq> marked st \<union> set (get_keys auth) \<and>
    unat t1 \<le> weight_of (\<lambda>k. k \<in> set keys) (key_auths auth) \<and> (b1 \<longrightarrow> ?thr \<le> t1)"
    using key_loop_inv [OF k i av, of 0] by (simp add: get_keys_def)
  have fin: "\<exists>n. met_within addr g keys pre n auth"
    if "?thr \<le> t" "unat t \<le> weight_of (\<lambda>k. k \<in> set keys) (key_auths auth) + weight_of (\<lambda>a. \<exists>k \<in> set keys. a \<in> set (addr k)) (address_auths auth) +
      weight_of (account_ok addr g keys pre) (account_auths auth)" for t
    using that by (intro met_limit) (simp add: met_def word_le_nat_alt)
  show ?thesis
  proof (cases b1)
    case True
    then show ?thesis using r Some k ki fin [of t1] by (auto simp: authority_body_def has_key_def)
  next
    case b1: False
    then obtain b2 t2 st2 where a: "address_loop addr available ?thr (address_auths auth) t1 st1 = Inr (b2, t2, st2)"
      and r2: "(if b2 then Inr (True, st2) else bindE (account_loop deeper ?thr (account_auths auth) t2 st2) (\<lambda>(b3, t3, st3).
                 if b3 then Inr (True, st3) else Inr (?thr \<le> t3, st3))) = Inr (b, st')"
      using r Some k by (auto simp: authority_body_def bindE_eq_Inr)
    have ai: "check_inv addr g keys pre st2 \<and> marked st2 \<subseteq> marked st \<union> {k. has_key addr k auth} \<and>
      unat t2 \<le> weight_of (\<lambda>k. k \<in> set keys) (key_auths auth) + weight_of (\<lambda>a. \<exists>k \<in> set keys. a \<in> set (addr k)) (address_auths auth) \<and>
      (b2 \<longrightarrow> ?thr \<le> t2)"
      using address_loop_inv [OF a _ av] ki by (fastforce simp: has_key_def get_addresses_def)
    show ?thesis
    proof (cases b2)
      case True
      then show ?thesis using r2 Some ai fin [of t2] by auto
    next
      case False
      then obtain b3 t3 where c: "account_loop deeper ?thr (account_auths auth) t2 st2 = Inr (b3, t3, st')"
        and b: "b \<longrightarrow> b3 \<or> ?thr \<le> t3"
        using r2 by (auto simp: bindE_eq_Inr split: if_split_asm)
      note d = account_loop_inv [OF c conjunct1 [OF ai], of _ M] 
      have ci: "check_inv addr g keys pre st' \<and>
        marked st' \<subseteq> marked st2 \<union> (\<Union>a \<in> set (map fst (account_auths auth)). if deeper = None then {} else M a) \<and>
        unat t3 \<le> (weight_of (\<lambda>k. k \<in> set keys) (key_auths auth) + weight_of (\<lambda>a. \<exists>k \<in> set keys. a \<in> set (addr k)) (address_auths auth)) +
          weight_of (account_ok addr g keys pre) (account_auths auth) \<and> (b3 \<longrightarrow> ?thr \<le> t3)"
        using ai deeper by (intro d) auto
      have "marked st' \<subseteq> marked st \<union> {k. has_key addr k auth \<or> deeper \<noteq> None \<and> (\<exists>a \<in> set (map fst (account_auths auth)). k \<in> M a)}"
        using ci ai by (fastforce split: if_splits)
      then show ?thesis using ci b fin [of t3] Some by auto
    qed
  qed
qed

lemma check_authority_inv:
  assumes "check_authority addr available g n au st = Inr (b, st')" "check_inv addr g keys pre st" "set available \<subseteq> set keys"
  shows "check_inv addr g keys pre st' \<and>
    marked st' \<subseteq> marked st \<union> {k. \<exists>auth. au = Some auth \<and> mentions addr g n k auth} \<and>
    (b \<longrightarrow> (\<exists>auth m. au = Some auth \<and> met_within addr g keys pre m auth))"
  using assms
proof (induction n arbitrary: au st b st')
  case 0
  then show ?case using authority_body_inv [of addr available None au st b st' g keys pre "\<lambda>_. {}"] by simp
next
  case (Suc n)
  let ?M = "\<lambda>a. {k. \<exists>auth. g a = Some auth \<and> mentions addr g n k auth}"
  have d: "check_inv addr g keys pre t1 \<and> marked t1 \<subseteq> marked t \<union> ?M a \<and> (c \<longrightarrow> account_ok addr g keys pre a)"
    if "Some (\<lambda>a. check_authority addr available g n (g a)) = Some check" "check a t = Inr (c, t1)" "check_inv addr g keys pre t"
    for check a t c t1
  proof -
    have "check_authority addr available g n (g a) t = Inr (c, t1)" using that(1,2) by auto
    from Suc.IH [OF this that(3) Suc.prems(3)] show ?thesis by (auto simp: account_ok_def)
  qed
  have "check_inv addr g keys pre st' \<and>
    marked st' \<subseteq> marked st \<union> {k. \<exists>auth. au = Some auth \<and> (has_key addr k auth \<or>
      Some (\<lambda>a. check_authority addr available g n (g a)) \<noteq> None \<and> (\<exists>a \<in> set (map fst (account_auths auth)). k \<in> ?M a))} \<and>
    (b \<longrightarrow> (\<exists>auth m. au = Some auth \<and> met_within addr g keys pre m auth))"
    by (rule authority_body_inv [OF Suc.prems(1) [unfolded check_authority.simps] Suc.prems(2,3), of ?M]) (rule d)
  then show ?case by (fastforce split: option.splits)
qed

subsection \<open>A check only adds to its state\<close>

definition grows :: "('k, 'a) sign_state \<Rightarrow> ('k, 'a) sign_state \<Rightarrow> bool" where
  "grows st st' \<longleftrightarrow> known st \<subseteq> known st' \<and> marked st \<subseteq> marked st' \<and> set (approved_by st) \<subseteq> set (approved_by st')"

lemma grows_refl [simp]: "grows st st"
  by (simp add: grows_def)

lemma grows_trans [trans]: "grows st st1 \<Longrightarrow> grows st1 st2 \<Longrightarrow> grows st st2"
  by (auto simp: grows_def)

lemma grows_mark [simp]: "grows st (mark k st)"
  by (auto simp: grows_def)

lemma grows_approve [simp]: "grows st (st\<lparr>approved_by := a # approved_by st\<rparr>)"
  by (auto simp: grows_def known_def marked_def)

lemma signed_by_key_grows: "signed_by_key available k st = (b, st') \<Longrightarrow> grows st st'"
  by (auto simp: signed_by_key_def split: if_split_asm)

lemma signed_by_address_grows:
  assumes "signed_by_address addr available a st = Inr (b, st')"
  shows "grows st st'"
proof -
  have l: "grows st (load_addresses addr available st)"
    by (simp add: load_addresses_def grows_def known_def marked_def)
  have "st' = load_addresses addr available st \<or> (\<exists>k. st' = mark k (load_addresses addr available st))"
    using assms unfolding signed_by_address_def Let_def by (elim result_elims) auto
  then show ?thesis using l grows_trans [OF l grows_mark] by auto
qed

lemma key_loop_grows: "key_loop available thr ks t st = (b, t', st') \<Longrightarrow> grows st st'"
proof (induction ks arbitrary: t st)
  case (Cons e ks)
  obtain k w where e: "e = (k, w)" by (cases e)
  obtain c st1 where s: "signed_by_key available k st = (c, st1)" by (cases "signed_by_key available k st")
  have "st' = st1 \<or> (\<exists>u. key_loop available thr ks u st1 = (b, t', st'))"
    using Cons.prems e s by (auto simp: Let_def split: if_split_asm)
  then show ?case using signed_by_key_grows [OF s] Cons.IH grows_trans by blast
qed simp

lemma address_loop_grows: "address_loop addr available thr xs t st = Inr (b, t', st') \<Longrightarrow> grows st st'"
proof (induction xs arbitrary: t st)
  case (Cons e xs)
  obtain a w where e: "e = (a, w)" by (cases e)
  obtain c st1 where s: "signed_by_address addr available a st = Inr (c, st1)"
    using Cons.prems e by (auto simp: bindE_eq_Inr)
  have "st' = st1 \<or> (\<exists>u. address_loop addr available thr xs u st1 = Inr (b, t', st'))"
    using Cons.prems e s by (auto simp: Let_def split: if_split_asm)
  then show ?case using signed_by_address_grows [OF s] Cons.IH grows_trans by blast
qed simp

lemma account_loop_grows:
  assumes "account_loop deeper thr xs t st = Inr (b, t', st')"
    and "\<And>check a st c st1. deeper = Some check \<Longrightarrow> check a st = Inr (c, st1) \<Longrightarrow> grows st st1"
  shows "grows st st'"
  using assms(1)
proof (induction xs arbitrary: t st)
  case (Cons e xs)
  obtain a w where e: "e = (a, w)" by (cases e)
  have "\<exists>st1. grows st st1 \<and> (st' = st1 \<or> (\<exists>u. account_loop deeper thr xs u st1 = Inr (b, t', st')))"
  proof (cases "a \<in> set (approved_by st)")
    case True
    then have "st' = st \<or> (\<exists>u. account_loop deeper thr xs u st = Inr (b, t', st'))"
      using Cons.prems e by (auto simp: Let_def split: if_split_asm)
    then show ?thesis using grows_refl by blast
  next
    case False
    show ?thesis
    proof (cases deeper)
      case None
      then have "account_loop deeper thr xs t st = Inr (b, t', st')" using Cons.prems e False by simp
      then show ?thesis using grows_refl by blast
    next
      case (Some check)
      then obtain c st1 where s: "check a st = Inr (c, st1)"
        and r: "st' = st1\<lparr>approved_by := a # approved_by st1\<rparr> \<or>
          (\<exists>u. account_loop deeper thr xs u (st1\<lparr>approved_by := a # approved_by st1\<rparr>) = Inr (b, t', st')) \<or>
          (\<exists>u. account_loop deeper thr xs u st1 = Inr (b, t', st'))"
        using Cons.prems e False by (auto simp: bindE_eq_Inr Let_def split: if_split_asm)
      show ?thesis using assms(2) [OF Some s] r grows_trans grows_approve by blast
    qed
  qed
  then show ?case using Cons.IH grows_trans by blast
qed simp

lemma authority_body_grows:
  assumes "authority_body addr available deeper au st = Inr (b, st')"
    and "\<And>check a st c st1. deeper = Some check \<Longrightarrow> check a st = Inr (c, st1) \<Longrightarrow> grows st st1"
  shows "grows st st'"
proof (cases au)
  case None
  then show ?thesis using assms(1) by (simp add: authority_body_def)
next
  case (Some auth)
  let ?thr = "weight_threshold auth"
  obtain b1 t1 st1 where k: "key_loop available ?thr (key_auths auth) 0 st = (b1, t1, st1)"
    by (cases "key_loop available ?thr (key_auths auth) 0 st") auto
  note g1 = key_loop_grows [OF k]
  have "st' = st1 \<or> (\<exists>b2 t2 st2. address_loop addr available ?thr (address_auths auth) t1 st1 = Inr (b2, t2, st2) \<and>
      (st' = st2 \<or> (\<exists>b3 t3. account_loop deeper ?thr (account_auths auth) t2 st2 = Inr (b3, t3, st'))))"
    using assms(1) Some k by (auto simp: authority_body_def bindE_eq_Inr split: if_split_asm)
  then show ?thesis
  proof (elim disjE exE conjE)
    fix b2 t2 st2 b3 t3
    assume a: "address_loop addr available ?thr (address_auths auth) t1 st1 = Inr (b2, t2, st2)"
      and c: "account_loop deeper ?thr (account_auths auth) t2 st2 = Inr (b3, t3, st')"
    have "grows st2 st'" using c assms(2) by (rule account_loop_grows)
    then show ?thesis using g1 address_loop_grows [OF a] grows_trans by blast
  next
    fix b2 t2 st2
    assume a: "address_loop addr available ?thr (address_auths auth) t1 st1 = Inr (b2, t2, st2)" and "st' = st2"
    then show ?thesis using g1 address_loop_grows [OF a] grows_trans by blast
  qed (use g1 in simp)
qed

lemma check_authority_grows: "check_authority addr available g n au st = Inr (b, st') \<Longrightarrow> grows st st'"
proof (induction n arbitrary: au st b st')
  case 0
  then show ?case by (auto intro: authority_body_grows)
next
  case (Suc n)
  then show ?case by (auto elim: authority_body_grows)
qed

lemma check_account_grows: "check_account addr available g n a st = Inr (b, st') \<Longrightarrow> grows st st'"
  by (auto simp: check_account_def check_authority_grows split: if_split_asm)

lemma check_account_inv:
  assumes "check_account addr available g n a st = Inr (b, st')" "check_inv addr g keys pre st" "set available \<subseteq> set keys"
  shows "check_inv addr g keys pre st' \<and>
    marked st' \<subseteq> marked st \<union> {k. \<exists>auth. g a = Some auth \<and> mentions addr g n k auth} \<and>
    (b \<longrightarrow> account_ok addr g keys pre a)"
proof (cases "a \<in> set (approved_by st)")
  case True
  then show ?thesis using assms(1,2) by (auto simp: check_account_def check_inv_def)
next
  case False
  then have "check_authority addr available g n (g a) st = Inr (b, st')" using assms(1) by (simp add: check_account_def)
  from check_authority_inv [OF this assms(2,3)] show ?thesis by (auto simp: account_ok_def)
qed

subsection \<open>What a verified transaction guarantees\<close>

definition asked :: "('k, 'a) operation list \<Rightarrow> (account_id \<Rightarrow> ('k, 'a) authority option)
    \<Rightarrow> (account_id \<Rightarrow> ('k, 'a) authority option) \<Rightarrow> ('k, 'a) authority \<Rightarrow> bool" where
  "asked ops get_active get_owner au \<longleftrightarrow> (case required_by ops of (active, owner, other) \<Rightarrow>
     au \<in> set other \<or> (\<exists>i \<in> set owner. get_owner i = Some au) \<or>
     (\<exists>i \<in> set active. get_active i = Some au \<or> get_owner i = Some au))"

lemma sign_state_inv: "check_inv addr g sigs (oa @ aa @ [TEMP_ACCOUNT]) ((new_sign_state sigs)\<lparr>approved_by := oa @ aa @ [TEMP_ACCOUNT]\<rparr>)"
  by (auto simp: check_inv_def new_sign_state_def known_def account_ok_def dom_map_of_conv_image_fst)

lemma verify_authority_guarantees:
  assumes v: "verify_authority addr ops sigs g go n allow aa oa = Inr ()" and ops: "required_by ops = (ra, ro, other)"
  shows "(COMMITTEE_ACCOUNT \<in> set ra \<longrightarrow> allow)"
    and "\<forall>au \<in> set other. \<exists>m. met_within addr g sigs (oa @ aa @ [TEMP_ACCOUNT]) m au"
    and "\<forall>i \<in> set ro. i \<in> set oa \<or> (\<exists>m au. go i = Some au \<and> met_within addr g sigs (oa @ aa @ [TEMP_ACCOUNT]) m au)"
    and "\<forall>i \<in> set ra. account_ok addr g sigs (oa @ aa @ [TEMP_ACCOUNT]) i \<or>
      (\<exists>m au. go i = Some au \<and> met_within addr g sigs (oa @ aa @ [TEMP_ACCOUNT]) m au)"
    and "\<forall>k \<in> set sigs. \<exists>au. asked ops g go au \<and> mentions addr g n k au"
proof -
  let ?pre = "oa @ aa @ [TEMP_ACCOUNT]"
  let ?s0 = "(new_sign_state sigs)\<lparr>approved_by := oa @ aa @ approved_by (new_sign_state sigs :: ('a, 'b) sign_state)\<rparr>"
  let ?R = "{k. \<exists>au. asked ops g go au \<and> mentions addr g n k au}"
  let ?P = "\<lambda>st. check_inv addr g sigs ?pre st \<and> marked st \<subseteq> ?R \<and> set sigs \<subseteq> known st"
  show "COMMITTEE_ACCOUNT \<in> set ra \<longrightarrow> allow"
    using v ops by (auto simp: verify_authority_def split: if_split_asm)
  obtain s1 s2 s3 where
    s1: "foldE (\<lambda>auth st. bindE (check_authority addr [] g n (Some auth) st) (\<lambda>(b, st1).
                 if b then Inr st1 else Inl MissingOtherAuth)) other ?s0 = Inr s1"
    and s2: "foldE (\<lambda>i st. if i \<in> set oa then Inr st
                 else bindE (check_authority addr [] g n (go i) st) (\<lambda>(b, st1).
                   if b then Inr st1 else Inl (missing_auth MissingOwnerAuth [go i]))) ro s1 = Inr s2"
    and s3: "foldE (\<lambda>i st. bindE (check_account addr [] g n i st) (\<lambda>(b, st1).
                 if b then Inr st1
                 else bindE (check_authority addr [] g n (go i) st1) (\<lambda>(b, st2).
                   if b then Inr st2 else Inl (missing_auth MissingActiveAuth [g i, go i])))) ra s2 = Inr s3"
    and u: "\<not> fst (remove_unused_signatures s3)"
    using v ops unfolding verify_authority_def Let_def require_others_def require_owners_def require_actives_def
    by (auto simp only: bindE_eq_Inr prod.case split: if_split_asm)
  have e: "set [] \<subseteq> set sigs" by simp
  have P0: "?P ?s0"
    using sign_state_inv [of addr g sigs oa aa]
    by (auto simp: new_sign_state_def marked_def known_def dom_map_of_conv_image_fst image_iff dest: map_of_SomeD)
  have "?P s1 \<and> (\<forall>au \<in> set other. \<exists>m. met_within addr g sigs ?pre m au)"
    using s1 P0
  proof (rule foldE_each)
    fix auth st st'
    assume a: "auth \<in> set other" "?P st"
      and r: "bindE (check_authority addr [] g n (Some auth) st) (\<lambda>(b, st1). if b then Inr st1 else Inl MissingOtherAuth) = Inr st'"
    from r have c: "check_authority addr [] g n (Some auth) st = Inr (True, st')"
      by (auto simp: bindE_eq_Inr split: if_split_asm)
    have "asked ops g go auth" using a(1) ops by (simp add: asked_def)
    then show "?P st' \<and> (\<exists>m. met_within addr g sigs ?pre m auth)"
      using check_authority_inv [OF c conjunct1 [OF a(2)]] check_authority_grows [OF c] a(2) by (auto simp: grows_def)
  qed
  note P1 = this
  have "?P s2 \<and> (\<forall>i \<in> set ro. i \<in> set oa \<or> (\<exists>m au. go i = Some au \<and> met_within addr g sigs ?pre m au))"
    using s2 conjunct1 [OF P1]
  proof (rule foldE_each)
    fix i st st'
    assume a: "i \<in> set ro" "?P st"
      and r: "(if i \<in> set oa then Inr st else bindE (check_authority addr [] g n (go i) st) (\<lambda>(b, st1).
                   if b then Inr st1 else Inl (missing_auth MissingOwnerAuth [go i]))) = Inr st'"
    show "?P st' \<and> (i \<in> set oa \<or> (\<exists>m au. go i = Some au \<and> met_within addr g sigs ?pre m au))"
    proof (cases "i \<in> set oa")
      case True
      then show ?thesis using r a(2) by simp
    next
      case False
      then have c: "check_authority addr [] g n (go i) st = Inr (True, st')"
        using r by (auto simp: bindE_eq_Inr split: if_split_asm)
      have k: "asked ops g go au" if "go i = Some au" for au using a(1) that ops by (auto simp: asked_def)
      have "marked st' \<subseteq> ?R" using check_authority_inv [OF c conjunct1 [OF a(2)] e] a(2) k by blast
      then show ?thesis
        using check_authority_inv [OF c conjunct1 [OF a(2)]] check_authority_grows [OF c] a(2) by (auto simp: grows_def)
    qed
  qed
  note P2 = this
  have "?P s3 \<and> (\<forall>i \<in> set ra. account_ok addr g sigs ?pre i \<or> (\<exists>m au. go i = Some au \<and> met_within addr g sigs ?pre m au))"
    using s3 conjunct1 [OF P2]
  proof (rule foldE_each)
    fix i st st'
    assume a: "i \<in> set ra" "?P st"
      and r: "bindE (check_account addr [] g n i st) (\<lambda>(b, st1). if b then Inr st1
                 else bindE (check_authority addr [] g n (go i) st1) (\<lambda>(b, st2).
                   if b then Inr st2 else Inl (missing_auth MissingActiveAuth [g i, go i]))) = Inr st'"
    obtain b st1 where c: "check_account addr [] g n i st = Inr (b, st1)"
      and d: "b \<and> st' = st1 \<or> \<not> b \<and> check_authority addr [] g n (go i) st1 = Inr (True, st')"
      using r by (auto simp: bindE_eq_Inr split: if_split_asm)
    have k: "asked ops g go au" if "g i = Some au \<or> go i = Some au" for au using a(1) that ops by (auto simp: asked_def)
    have m: "marked st1 \<subseteq> ?R" using check_account_inv [OF c conjunct1 [OF a(2)] e] a(2) k by blast
    have ci: "?P st1 \<and> (b \<longrightarrow> account_ok addr g sigs ?pre i)"
      using check_account_inv [OF c conjunct1 [OF a(2)] e] check_account_grows [OF c] a(2) m by (simp add: grows_def) blast
    show "?P st' \<and> (account_ok addr g sigs ?pre i \<or> (\<exists>m au. go i = Some au \<and> met_within addr g sigs ?pre m au))"
    proof (cases b)
      case True
      then show ?thesis using d ci by blast
    next
      case False
      then have o: "check_authority addr [] g n (go i) st1 = Inr (True, st')" using d by blast
      note oi = check_authority_inv [OF o conjunct1 [OF conjunct1 [OF ci]] e]
      have "marked st' \<subseteq> ?R" using oi ci k by blast
      then show ?thesis using oi check_authority_grows [OF o] ci by (auto simp: grows_def)
    qed
  qed
  note P3 = this
  have "k \<in> marked s3" if k: "k \<in> set sigs" for k
  proof -
    obtain b where "map_of (provided s3) k = Some b" using P3 k unfolding known_def by blast
    moreover have "snd e" if "e \<in> set (provided s3)" for e
      using u that by (auto simp: remove_unused_signatures_def Let_def filter_empty_conv)
    ultimately show ?thesis using map_of_SomeD by (fastforce simp: marked_def)
  qed
  then show "\<forall>k \<in> set sigs. \<exists>au. asked ops g go au \<and> mentions addr g n k au" using P3 by blast
  show "\<forall>au \<in> set other. \<exists>m. met_within addr g sigs ?pre m au" using P1 by blast
  show "\<forall>i \<in> set ro. i \<in> set oa \<or> (\<exists>m au. go i = Some au \<and> met_within addr g sigs ?pre m au)" using P2 by blast
  show "\<forall>i \<in> set ra. account_ok addr g sigs ?pre i \<or> (\<exists>m au. go i = Some au \<and> met_within addr g sigs ?pre m au)"
    using P3 by blast
qed

subsection \<open>What suffices for a check to succeed\<close>

text \<open>An authority without addresses whose weights do not wrap.\<close>

definition plain :: "('k, 'a) authority \<Rightarrow> bool" where
  "plain au \<longleftrightarrow> address_auths au = [] \<and>
     weight_of (\<lambda>_. True) (key_auths au) + weight_of (\<lambda>_. True) (account_auths au) < 2 ^ 32"

definition plain_accounts :: "(account_id \<Rightarrow> ('k, 'a) authority option) \<Rightarrow> bool" where
  "plain_accounts g \<longleftrightarrow> (\<forall>i au. g i = Some au \<longrightarrow> plain au)"

definition ready :: "'k list \<Rightarrow> 'k set \<Rightarrow> account_id list \<Rightarrow> ('k, 'a) sign_state \<Rightarrow> bool" where
  "ready available K pre st \<longleftrightarrow> set pre \<subseteq> set (approved_by st) \<and> known st \<union> set available = K"

lemma weight_add_eq: "unat t + unat w < 2 ^ 32 \<Longrightarrow> unat (t + ucast (w :: 16 word) :: 32 word) = unat t + unat w"
  by (simp add: unat_word_ariths(1) unat_ucast16)

lemma weight_of_le: "weight_of P xs \<le> weight_of (\<lambda>_. True) xs"
  by (rule weight_of_mono) simp

lemma signed_by_key_cases:
  "signed_by_key available k st = (b, st') \<longleftrightarrow> b = (k \<in> known st \<union> set available) \<and> st' = (if b then mark k st else st)"
  by (auto simp: signed_by_key_def known_def)

lemma key_loop_ready:
  assumes "key_loop available thr ks t st = (b, t', st')" "ready available K pre st"
    and "unat t + weight_of (\<lambda>_. True) ks < 2 ^ 32"
  shows "ready available K pre st' \<and> (\<not> b \<longrightarrow> unat t' = unat t + weight_of (\<lambda>k. k \<in> K) ks)"
  using assms
proof (induction ks arbitrary: t st)
  case (Cons e ks)
  obtain k w where e: "e = (k, w)" by (cases e)
  obtain c st1 where s: "signed_by_key available k st = (c, st1)" by (cases "signed_by_key available k st")
  have c: "(c \<longleftrightarrow> k \<in> K) \<and> ready available K pre st1"
    using s Cons.prems(2) by (auto simp: signed_by_key_cases ready_def)
  have w: "unat (t + ucast w) = unat t + unat w" using Cons.prems(3) e by (intro weight_add_eq) simp
  show ?case
  proof (cases "c \<and> thr \<le> t + ucast w")
    case True
    then have "b \<and> st' = st1" using Cons.prems(1) e s by (simp add: Let_def)
    then show ?thesis using c by simp
  next
    case False
    then have r: "key_loop available thr ks (if c then t + ucast w else t) st1 = (b, t', st')"
      using Cons.prems(1) e s by (auto simp: Let_def)
    have "unat (if c then t + ucast w else t) + weight_of (\<lambda>_. True) ks < 2 ^ 32" using Cons.prems(3) e w by simp
    from Cons.IH [OF r _ this] show ?thesis using c e w by simp
  qed
qed simp

lemma account_loop_ready:
  assumes "ready available K pre st" "unat t + weight_of (\<lambda>_. True) xs < 2 ^ 32"
    and deeper: "\<And>check a st. deeper = Some check \<Longrightarrow> ready available K pre st \<Longrightarrow>
      \<exists>c st1. check a st = Inr (c, st1) \<and> ready available K pre st1 \<and> (P a \<longrightarrow> c)"
  shows "\<exists>b t' st'. account_loop deeper thr xs t st = Inr (b, t', st') \<and> ready available K pre st' \<and>
    (\<not> b \<longrightarrow> unat t + weight_of (\<lambda>a. a \<in> set pre \<or> deeper \<noteq> None \<and> P a) xs \<le> unat t')"
  using assms(1,2)
proof (induction xs arbitrary: t st)
  case (Cons e xs)
  obtain a w where e: "e = (a, w)" by (cases e)
  let ?ok = "\<lambda>a. a \<in> set pre \<or> deeper \<noteq> None \<and> P a"
  have w: "unat (t + ucast w) = unat t + unat w" using Cons.prems(2) e by (intro weight_add_eq) simp
  have take: ?case if "ready available K pre st1"
      and r: "account_loop deeper thr (e # xs) t st =
        (if thr \<le> t + ucast w then Inr (True, t + ucast w, st1) else account_loop deeper thr xs (t + ucast w) st1)" for st1
  proof (cases "thr \<le> t + ucast w")
    case True
    then show ?thesis using that by (intro exI [of _ True] exI [of _ "t + ucast w"] exI [of _ st1]) simp
  next
    case False
    have "unat (t + ucast w) + weight_of (\<lambda>_. True) xs < 2 ^ 32" using Cons.prems(2) e w by simp
    from Cons.IH [OF that(1) this] show ?thesis using r False e w by fastforce
  qed
  have skip: ?case if "ready available K pre st1" "\<not> ?ok a" and r: "account_loop deeper thr (e # xs) t st = account_loop deeper thr xs t st1" for st1
  proof -
    have "unat t + weight_of (\<lambda>_. True) xs < 2 ^ 32" using Cons.prems(2) e by simp
    moreover have "weight_of ?ok (e # xs) = weight_of ?ok xs" using e that(2) by auto
    ultimately show ?thesis using Cons.IH [OF that(1)] unfolding r by simp
  qed
  show ?case
  proof (cases "a \<in> set (approved_by st)")
    case True
    then show ?thesis using take [OF Cons.prems(1)] e by (simp add: Let_def)
  next
    case False
    then have a: "a \<notin> set pre" using Cons.prems(1) by (auto simp: ready_def)
    show ?thesis
    proof (cases deeper)
      case None
      then show ?thesis using skip [OF Cons.prems(1)] a e False by simp
    next
      case (Some check)
      obtain c st1 where s: "check a st = Inr (c, st1)" "ready available K pre st1" "P a \<longrightarrow> c"
        using deeper [OF Some Cons.prems(1)] by blast
      have ap: "ready available K pre (st1\<lparr>approved_by := a # approved_by st1\<rparr>)"
        using s(2) by (auto simp: ready_def known_def)
      show ?thesis
      proof (cases c)
        case c: True
        show ?thesis by (rule take [OF ap]) (simp add: e False Some s(1) c Let_def)
      next
        case c: False
        then show ?thesis using skip [OF s(2)] e False Some s a by simp
      qed
    qed
  qed
qed (rule exI [of _ False], simp)

lemma authority_body_ready:
  assumes i: "ready available K pre st" and p: "\<And>auth. au = Some auth \<Longrightarrow> plain auth" and keys: "set keys = K"
    and deeper: "\<And>check a st. deeper = Some check \<Longrightarrow> ready available K pre st \<Longrightarrow>
      \<exists>c st1. check a st = Inr (c, st1) \<and> ready available K pre st1 \<and> (P a \<longrightarrow> c)"
  shows "\<exists>b st'. authority_body addr available deeper au st = Inr (b, st') \<and> ready available K pre st' \<and>
    (\<forall>auth. au = Some auth \<and> met addr keys (\<lambda>a. a \<in> set pre \<or> deeper \<noteq> None \<and> P a) auth \<longrightarrow> b)"
proof (cases au)
  case None
  then show ?thesis using i by (intro exI [of _ False] exI [of _ st]) (simp add: authority_body_def)
next
  case (Some auth)
  let ?thr = "weight_threshold auth" let ?ok = "\<lambda>a. a \<in> set pre \<or> deeper \<noteq> None \<and> P a"
  have pl: "address_auths auth = []" "weight_of (\<lambda>_. True) (key_auths auth) + weight_of (\<lambda>_. True) (account_auths auth) < 2 ^ 32"
    using p [OF Some] by (auto simp: plain_def)
  obtain b1 t1 st1 where k: "key_loop available ?thr (key_auths auth) 0 st = (b1, t1, st1)"
    by (cases "key_loop available ?thr (key_auths auth) 0 st") auto
  have kr: "ready available K pre st1 \<and> (\<not> b1 \<longrightarrow> unat t1 = weight_of (\<lambda>k. k \<in> K) (key_auths auth))"
    using key_loop_ready [OF k i] pl(2) by simp
  show ?thesis
  proof (cases b1)
    case True
    then show ?thesis using Some k kr by (intro exI [of _ True] exI [of _ st1]) (simp add: authority_body_def)
  next
    case False
    then have t1: "unat t1 = weight_of (\<lambda>k. k \<in> K) (key_auths auth)" using kr by simp
    then have "unat t1 + weight_of (\<lambda>_. True) (account_auths auth) < 2 ^ 32"
      using pl(2) weight_of_le [of "\<lambda>k. k \<in> K" "key_auths auth"] by linarith
    then have "\<exists>b t' st'. account_loop deeper ?thr (account_auths auth) t1 st1 = Inr (b, t', st') \<and> ready available K pre st' \<and>
      (\<not> b \<longrightarrow> unat t1 + weight_of ?ok (account_auths auth) \<le> unat t')"
      by (rule account_loop_ready [OF conjunct1 [OF kr]]) (rule deeper)
    then obtain b3 t3 st3 where c: "account_loop deeper ?thr (account_auths auth) t1 st1 = Inr (b3, t3, st3)"
      and cr: "ready available K pre st3" "\<not> b3 \<longrightarrow> unat t1 + weight_of ?ok (account_auths auth) \<le> unat t3" by blast
    have "?thr \<le> t3" if "\<not> b3" "met addr keys ?ok auth"
      using that cr(2) t1 pl(1) keys by (simp add: met_def word_le_nat_alt)
    then show ?thesis using Some k c cr(1) False pl(1) by (auto simp: authority_body_def)
  qed
qed

lemma check_authority_ready:
  assumes "ready available K pre st" "\<And>auth. au = Some auth \<Longrightarrow> plain auth" "plain_accounts g" "set keys = K"
  shows "\<exists>b st'. check_authority addr available g n au st = Inr (b, st') \<and> ready available K pre st' \<and>
    (\<forall>auth. au = Some auth \<and> met_within addr g keys pre n auth \<longrightarrow> b)"
  using assms(1,2)
proof (induction n arbitrary: au st)
  case 0
  show ?case using authority_body_ready [where deeper = None and P = "\<lambda>_. False" and addr = addr, OF 0 assms(4)] by (simp add: fun_eq_iff)
next
  case (Suc n)
  let ?P = "\<lambda>a. \<exists>au'. g a = Some au' \<and> met_within addr g keys pre n au'"
  have d: "\<exists>c st1. check a st = Inr (c, st1) \<and> ready available K pre st1 \<and> (?P a \<longrightarrow> c)"
    if "Some (\<lambda>a. check_authority addr available g n (g a)) = Some check" "ready available K pre st" for check a st
  proof -
    have "plain auth" if "g a = Some auth" for auth using that assms(3) by (auto simp: plain_accounts_def)
    from Suc.IH [OF that(2) this] show ?thesis using that(1) by auto
  qed
  have e: "met_within addr g keys pre (Suc n) auth \<longleftrightarrow>
      met addr keys (\<lambda>a. a \<in> set pre \<or> Some (\<lambda>a. check_authority addr available g n (g a)) \<noteq> None \<and> ?P a) auth" for auth
  proof -
    have "(case g a of None \<Rightarrow> False | Some au \<Rightarrow> met_within addr g keys pre n au) = ?P a" for a
      by (cases "g a") simp_all
    then show ?thesis by (simp only: met_within.simps) simp
  qed
  show ?case unfolding check_authority.simps e
    by (rule authority_body_ready [OF Suc.prems assms(4)], assumption) (rule d)
qed

subsection \<open>Enough signatures are never missing\<close>

lemma check_account_ready:
  assumes "ready available K pre st" "plain_accounts g" "set keys = K"
  shows "\<exists>b st'. check_account addr available g n a st = Inr (b, st') \<and> ready available K pre st' \<and>
    (a \<in> set pre \<or> (\<exists>au. g a = Some au \<and> met_within addr g keys pre n au) \<longrightarrow> b)"
proof (cases "a \<in> set (approved_by st)")
  case True
  then show ?thesis using assms(1) by (intro exI [of _ True] exI [of _ st]) (simp add: check_account_def)
next
  case False
  then have "a \<notin> set pre" using assms(1) by (auto simp: ready_def)
  moreover have "plain auth" if "g a = Some auth" for auth using that assms(2) by (auto simp: plain_accounts_def)
  from check_authority_ready [where au = "g a" and addr = addr and n = n, OF assms(1) this assms(2,3)]
  obtain b st' where "check_authority addr available g n (g a) st = Inr (b, st')" "ready available K pre st'"
    "\<forall>auth. g a = Some auth \<and> met_within addr g keys pre n auth \<longrightarrow> b" by blast
  ultimately show ?thesis using False by (intro exI [of _ b] exI [of _ st']) (auto simp: check_account_def)
qed

text \<open>Every required authority is met within the levels that are checked.\<close>

definition all_met :: "('k \<Rightarrow> 'a list) \<Rightarrow> ('k, 'a) operation list \<Rightarrow> 'k list \<Rightarrow> (account_id \<Rightarrow> ('k, 'a) authority option)
    \<Rightarrow> (account_id \<Rightarrow> ('k, 'a) authority option) \<Rightarrow> nat \<Rightarrow> account_id list \<Rightarrow> account_id list \<Rightarrow> bool" where
  "all_met addr ops keys g go n aa oa \<longleftrightarrow> (case required_by ops of (ra, ro, other) \<Rightarrow>
     let m = met_within addr g keys (oa @ aa @ [TEMP_ACCOUNT]) n; ok = (\<lambda>x. case x of None \<Rightarrow> False | Some au \<Rightarrow> m au)
     in (\<forall>au \<in> set other. m au) \<and> (\<forall>i \<in> set ro. i \<in> set oa \<or> ok (go i)) \<and>
        (\<forall>i \<in> set ra. i \<in> set (oa @ aa @ [TEMP_ACCOUNT]) \<or> ok (g i) \<or> ok (go i)))"

definition plain_operations :: "('k, 'a) operation list \<Rightarrow> bool" where
  "plain_operations ops \<longleftrightarrow> (\<forall>au \<in> set (snd (snd (required_by ops))). plain au)"

lemma require_ready:
  fixes s0 :: "('k, 'a) sign_state"
  assumes "plain_accounts g" "plain_accounts go" "plain_operations ops" and m: "all_met addr ops keys g go n aa oa"
    and ops: "required_by ops = (ra, ro, other)" and P0: "ready available (set keys) (oa @ aa @ [TEMP_ACCOUNT]) s0"
  shows "\<exists>s1 s2 s3. require_others addr available g n other s0 = Inr s1 \<and> require_owners addr available g go n oa ro s1 = Inr s2 \<and>
    require_actives addr available g go n ra s2 = Inr s3"
proof -
  let ?pre = "oa @ aa @ [TEMP_ACCOUNT]"
  let ?P = "ready available (set keys) ?pre :: ('k, 'a) sign_state \<Rightarrow> bool"
  let ?m = "met_within addr g keys ?pre n"
  have check: "\<exists>b st'. check_authority addr available g n au st = Inr (b, st') \<and> ?P st' \<and> (\<forall>auth. au = Some auth \<and> ?m auth \<longrightarrow> b)"
    if "?P st" "\<And>auth. au = Some auth \<Longrightarrow> plain auth" for au st
    by (rule check_authority_ready [OF that(1) _ assms(1)]) (use that(2) in auto)
  have own: "plain auth" if "go i = Some auth" for i auth using assms(2) that by (auto simp: plain_accounts_def)
  have "\<exists>t. require_others addr available g n other s0 = Inr t \<and> ?P t"
    unfolding require_others_def
  proof (rule foldE_total [where P = ?P and s = s0, OF P0])
    fix au st
    assume a: "au \<in> set other" "?P st"
    then have "plain au" "?m au" using assms(3) m ops unfolding plain_operations_def all_met_def Let_def by auto
    then show "\<exists>s'. bindE (check_authority addr available g n (Some au) st) (\<lambda>(b, st1). if b then Inr st1 else Inl MissingOtherAuth) = Inr s' \<and> ?P s'"
      using check [of st "Some au", OF a(2)] by auto
  qed
  then obtain s1 where s1: "require_others addr available g n other s0 = Inr s1" "?P s1" by blast
  have "\<exists>t. require_owners addr available g go n oa ro s1 = Inr t \<and> ?P t"
    unfolding require_owners_def
  proof (rule foldE_total [where P = ?P and s = s1, OF s1(2)])
    fix i st
    assume a: "i \<in> set ro" "?P st"
    show "\<exists>s'. (if i \<in> set oa then Inr st else bindE (check_authority addr available g n (go i) st) (\<lambda>(b, st1).
                   if b then Inr st1 else Inl (missing_auth MissingOwnerAuth [go i]))) = Inr s' \<and> ?P s'"
    proof (cases "i \<in> set oa")
      case True
      then show ?thesis using a(2) by simp
    next
      case False
      then obtain auth where "go i = Some auth" "?m auth"
        using m ops a(1) unfolding all_met_def Let_def case_option_ex by auto
      then show ?thesis using False check [of st "go i", OF a(2) own [of i]] by auto
    qed
  qed
  then obtain s2 where s2: "require_owners addr available g go n oa ro s1 = Inr s2" "?P s2" by blast
  have "\<exists>t. require_actives addr available g go n ra s2 = Inr t \<and> ?P t"
    unfolding require_actives_def
  proof (rule foldE_total [where P = ?P and s = s2, OF s2(2)])
    fix i st
    assume a: "i \<in> set ra" "?P st"
    obtain b st1 where c: "check_account addr available g n i st = Inr (b, st1)" "?P st1"
      "i \<in> set ?pre \<or> (\<exists>au. g i = Some au \<and> ?m au) \<longrightarrow> b"
      using check_account_ready [OF a(2) assms(1) refl, of addr n i] by blast
    obtain b2 st2 where d: "check_authority addr available g n (go i) st1 = Inr (b2, st2)" "?P st2"
      "\<forall>auth. go i = Some auth \<and> ?m auth \<longrightarrow> b2"
      using check [of st1 "go i", OF c(2) own [of i]] by blast
    have "b \<or> b2" using m ops a(1) c(3) d(3) unfolding all_met_def Let_def case_option_ex by auto
    then show "\<exists>s'. bindE (check_account addr available g n i st) (\<lambda>(b, st1).
                 if b then Inr st1
                 else bindE (check_authority addr available g n (go i) st1) (\<lambda>(b, st2).
                   if b then Inr st2 else Inl (missing_auth MissingActiveAuth [g i, go i]))) = Inr s' \<and> ?P s'"
      using c d by auto
  qed
  then show ?thesis using s1 s2 by blast
qed

lemma verify_authority_enough:
  fixes g :: "account_id \<Rightarrow> ('k, 'a) authority option"
  assumes "plain_accounts g" "plain_accounts go" "plain_operations ops" "all_met addr ops sigs g go n aa oa"
    and c: "allow \<or> COMMITTEE_ACCOUNT \<notin> set (fst (required_by ops))"
  shows "verify_authority addr ops sigs g go n allow aa oa \<in> {Inr (), Inl IrrelevantSig}"
proof -
  obtain ra ro other where ops: "required_by ops = (ra, ro, other)" by (cases "required_by ops") auto
  let ?s0 = "(new_sign_state sigs)\<lparr>approved_by := oa @ aa @ approved_by (new_sign_state sigs :: ('k, 'a) sign_state)\<rparr>"
  have "ready [] (set sigs) (oa @ aa @ [TEMP_ACCOUNT]) ?s0"
    by (auto simp: ready_def new_sign_state_def known_def dom_map_of_conv_image_fst image_iff)
  from require_ready [OF assms(1-4) ops this] obtain s1 s2 s3 where s: "require_others addr [] g n other ?s0 = Inr s1"
    "require_owners addr [] g go n oa ro s1 = Inr s2" "require_actives addr [] g go n ra s2 = Inr s3" by blast
  show ?thesis using c ops unfolding verify_authority_def Let_def by (simp add: s)
qed

text \<open>C6. A transaction that passes \<open>verify_authority\<close> is authorised: every authority that its operations list is met
  by the signatures and the given approvals, so is the owner authority of every account whose owner is
  required (unless its owner approved), and the active or the owner authority of every account that has to be active
  (unless it is preapproved); the committee account is only involved when it is allowed; and every signature is by a
  key that one of these authorities mentions within the recursion limit.\<close>

theorem verify_authority_sound:
  assumes "verify_authority addr ops sigs g go n allow aa oa = Inr ()" and "required_by ops = (ra, ro, other)"
  shows "(COMMITTEE_ACCOUNT \<in> set ra \<longrightarrow> allow) \<and>
    (\<forall>au \<in> set other. \<exists>m. met_within addr g sigs (oa @ aa @ [TEMP_ACCOUNT]) m au) \<and>
    (\<forall>i \<in> set ro. i \<in> set oa \<or> (\<exists>m au. go i = Some au \<and> met_within addr g sigs (oa @ aa @ [TEMP_ACCOUNT]) m au)) \<and>
    (\<forall>i \<in> set ra. account_ok addr g sigs (oa @ aa @ [TEMP_ACCOUNT]) i \<or>
      (\<exists>m au. go i = Some au \<and> met_within addr g sigs (oa @ aa @ [TEMP_ACCOUNT]) m au)) \<and>
    (\<forall>k \<in> set sigs. \<exists>au. asked ops g go au \<and> mentions addr g n k au)"
  using verify_authority_guarantees [OF assms] by (intro conjI)

text \<open>Three accounts: 10 needs a key of its own and account 11, which has two keys.\<close>

definition demo_active :: "account_id \<Rightarrow> (nat, nat) authority option" where
  "demo_active i =
     (if i = 10 then Some \<lparr>weight_threshold = 2, account_auths = [(11, 1)], key_auths = [(100, 1)], address_auths = []\<rparr>
      else if i = 11 then Some \<lparr>weight_threshold = 1, account_auths = [], key_auths = [(110, 1), (111, 1)], address_auths = []\<rparr>
      else None)"

definition demo_owner :: "account_id \<Rightarrow> (nat, nat) authority option" where
  "demo_owner i = (if i = 10 then Some \<lparr>weight_threshold = 1, account_auths = [], key_auths = [(101, 1)], address_auths = []\<rparr> else None)"

definition demo_op :: "account_id \<Rightarrow> account_id list \<Rightarrow> (nat, nat) operation" where
  "demo_op payer owners = \<lparr>fee_payer = payer, op_active = [], op_owner = owners, op_other = []\<rparr>"

definition no_addr :: "nat \<Rightarrow> nat list" where
  "no_addr k = []"

lemma demo_required: "required_by [demo_op 10 []] = ([10], [], [])"
  by code_simp

theorem verify_authority_sound_witness:
  "verify_authority no_addr [demo_op 10 []] [100, 110] demo_active demo_owner 2 False [] [] = Inr () \<and>
   (account_ok no_addr demo_active [100, 110] [TEMP_ACCOUNT] 10 \<or>
    (\<exists>m au. demo_owner 10 = Some au \<and> met_within no_addr demo_active [100, 110] [TEMP_ACCOUNT] m au))"
proof -
  have "verify_authority no_addr [demo_op 10 []] [100, 110] demo_active demo_owner 2 False [] [] = Inr ()" by code_simp
  with verify_authority_sound [OF this demo_required] show ?thesis by simp
qed

text \<open>C13. Signatures that meet every required authority within the recursion limit are never found missing, in
  whatever order the authorities are checked and accounts are cached: the check passes, or it complains about a
  signature too many.  The authorities have no addresses, and their weights do not wrap.\<close>

theorem verify_authority_complete:
  assumes "plain_accounts g" "plain_accounts go" "plain_operations ops" "all_met addr ops sigs g go n aa oa"
    and "allow \<or> COMMITTEE_ACCOUNT \<notin> set (fst (required_by ops))"
  shows "verify_authority addr ops sigs g go n allow aa oa \<in> {Inr (), Inl IrrelevantSig}"
  using assms by (rule verify_authority_enough)

lemma demo_plain: "plain_accounts demo_active" "plain_accounts demo_owner" "plain_operations [demo_op 10 owners]"
  by (auto simp: plain_accounts_def plain_operations_def plain_def demo_active_def demo_owner_def demo_op_def required_by_def
      operation_get_required_authorities_def split: if_split_asm)

theorem verify_authority_complete_witness:
  "verify_authority no_addr [demo_op 10 []] [100, 110, 111] demo_active demo_owner 2 False [] [] \<in> {Inr (), Inl IrrelevantSig}"
proof -
  have m: "all_met no_addr [demo_op 10 []] [100, 110, 111] demo_active demo_owner 2 [] []" by code_simp
  show ?thesis by (rule verify_authority_complete [OF demo_plain m]) (simp add: demo_required COMMITTEE_ACCOUNT_def)
qed

text \<open>An address that no key has leads to the dereference of an end iterator.\<close>

lemma unsigned_address_undefined:
  "map_of (by_address addr (map fst (provided st))) a = None \<Longrightarrow> map_of (by_address addr available) a = None \<Longrightarrow>
     sigs_by_address st = None \<Longrightarrow> signed_by_address addr available a st = Inl UndefinedBehaviour"
  by (simp add: signed_by_address_def load_addresses_def)

end
