(* ===== verification/Required_Signatures.thy ===== *)
theory Required_Signatures
  imports Authority_Correct
begin

text \<open>
  \<open>get_required_signatures\<close> and \<open>minimize_required_signatures\<close>.  A check that may use available keys and the check
  of the signatures by the keys it used run in step (\<open>sim\<close>), so that what is returned is accepted.
\<close>

subsection \<open>Two runs of the same check\<close>

text \<open>A run that may produce signatures with available keys, and a run on given signatures: they agree as long as
  the second has all the keys that the first uses.\<close>

definition sim :: "'k list \<Rightarrow> 'k set \<Rightarrow> 'k set \<Rightarrow> ('k, 'a) sign_state \<Rightarrow> ('k, 'a) sign_state \<Rightarrow> bool" where
  "sim available K S st1 st2 \<longleftrightarrow> approved_by st1 = approved_by st2 \<and> marked st1 = marked st2 \<and>
     known st1 \<union> set available = K \<and> known st2 = S \<and>
     distinct (map fst (provided st1)) \<and> distinct (map fst (provided st2))"

lemma approve_simps [simp]:
  "known (st\<lparr>approved_by := as\<rparr>) = known st"
  "marked (st\<lparr>approved_by := as\<rparr>) = marked st"
  by (simp_all add: known_def marked_def)

lemma distinct_mark [simp]: "distinct (map fst (provided st)) \<Longrightarrow> distinct (map fst (provided (mark k st)))"
  by (simp add: mark_def distinct_update)

lemma key_loop_sim:
  assumes "key_loop available thr ks t st1 = (b, t', st1')" "sim available K S st1 st2" "S \<subseteq> K" "marked st1' \<subseteq> S"
  shows "\<exists>st2'. key_loop [] thr ks t st2 = (b, t', st2') \<and> sim available K S st1' st2'"
  using assms(1,2)
proof (induction ks arbitrary: t st1 st2)
  case (Cons e ks)
  obtain k w where e: "e = (k, w)" by (cases e)
  obtain c u where s: "signed_by_key available k st1 = (c, u)" by (cases "signed_by_key available k st1")
  have g: "c \<longrightarrow> k \<in> S"
  proof
    assume c
    then have "k \<in> marked u" using s by (auto simp: signed_by_key_cases)
    moreover have "u = st1' \<or> (\<exists>t. key_loop available thr ks t u = (b, t', st1'))"
      using Cons.prems(1) e s by (auto simp: Let_def split: if_split_asm)
    then have "grows u st1'" using key_loop_grows grows_refl by blast
    ultimately show "k \<in> S" using assms(4) by (auto simp: grows_def)
  qed
  let ?v = "if c then mark k st2 else st2"
  have "c = (k \<in> known st2 \<union> set [])"
    using g s Cons.prems(2) assms(3) by (auto simp: signed_by_key_cases sim_def)
  then have v: "signed_by_key [] k st2 = (c, ?v)" by (simp add: signed_by_key_cases)
  have su: "sim available K S u ?v" using s g Cons.prems(2) assms(3) by (auto simp: signed_by_key_cases sim_def)
  show ?case
  proof (cases "c \<and> thr \<le> t + ucast w")
    case True
    then show ?thesis using Cons.prems(1) e s v su by (auto simp: Let_def)
  next
    case False
    then have r: "key_loop available thr ks (if c then t + ucast w else t) u = (b, t', st1')"
      using Cons.prems(1) e s by (auto simp: Let_def)
    show ?thesis using Cons.IH [OF r su] False e v by (cases c) (auto simp: Let_def)
  qed
qed simp

lemma account_loop_sim:
  assumes "account_loop (map_option (\<lambda>f. f available) deeper) thr xs t st1 = Inr (b, t', st1')" "sim available K S st1 st2"
    and m: "marked st1' \<subseteq> S"
    and grow: "\<And>f a st c st1. deeper = Some f \<Longrightarrow> f available a st = Inr (c, st1) \<Longrightarrow> grows st st1"
    and step: "\<And>f a st c st1 st2. deeper = Some f \<Longrightarrow> f available a st = Inr (c, st1) \<Longrightarrow> sim available K S st st2 \<Longrightarrow>
      marked st1 \<subseteq> S \<Longrightarrow> \<exists>st2'. f [] a st2 = Inr (c, st2') \<and> sim available K S st1 st2'"
  shows "\<exists>st2'. account_loop (map_option (\<lambda>f. f []) deeper) thr xs t st2 = Inr (b, t', st2') \<and> sim available K S st1' st2'"
  using assms(1,2)
proof (induction xs arbitrary: t st1 st2)
  case (Cons e xs)
  obtain a w where e: "e = (a, w)" by (cases e)
  have ap: "approved_by st1 = approved_by st2" using Cons.prems(2) by (simp add: sim_def)
  have gl: "grows u st1'" if "account_loop (map_option (\<lambda>f. f available) deeper) thr xs t u = Inr (b, t', st1')" for t u
    using that by (rule account_loop_grows) (use grow in auto)
  show ?case
  proof (cases "a \<in> set (approved_by st1)")
    case True
    show ?thesis
    proof (cases "thr \<le> t + ucast w")
      case le: True
      then show ?thesis using Cons.prems e True ap by (auto simp: Let_def)
    next
      case False
      then have r: "account_loop (map_option (\<lambda>f. f available) deeper) thr xs (t + ucast w) st1 = Inr (b, t', st1')"
        using Cons.prems(1) e True by (simp add: Let_def)
      show ?thesis using Cons.IH [OF r Cons.prems(2)] e True False ap by (simp add: Let_def)
    qed
  next
    case na: False
    show ?thesis
    proof (cases deeper)
      case None
      then show ?thesis using Cons.IH [of t st1 st2] Cons.prems e na ap by simp
    next
      case (Some f)
      let ?ap = "\<lambda>u. u\<lparr>approved_by := a # approved_by u\<rparr>"
      obtain c u where s: "f available a st1 = Inr (c, u)" using Cons.prems(1) e na Some by (auto simp: bindE_eq_Inr)
      have r: "if c then if thr \<le> t + ucast w then b \<and> t' = t + ucast w \<and> st1' = ?ap u
               else account_loop (map_option (\<lambda>f. f available) deeper) thr xs (t + ucast w) (?ap u) = Inr (b, t', st1')
             else account_loop (map_option (\<lambda>f. f available) deeper) thr xs t u = Inr (b, t', st1')"
        using Cons.prems(1) e na Some s by (auto simp: Let_def)
      have "grows u st1'"
        using r gl grows_trans [OF grows_approve [of u a]] grows_approve by (auto split: if_split_asm)
      then have "marked u \<subseteq> S" using m by (auto simp: grows_def)
      from step [OF Some s Cons.prems(2) this] obtain v where v: "f [] a st2 = Inr (c, v)" "sim available K S u v" by blast
      have av: "sim available K S (?ap u) (?ap v)" using v(2) by (simp add: sim_def)
      show ?thesis
      proof (cases c)
        case c: True
        show ?thesis
        proof (cases "thr \<le> t + ucast w")
          case True
          then show ?thesis using r c e na ap Some v(1) av by (auto simp: Let_def)
        next
          case False
          then show ?thesis using Cons.IH [OF _ av, of "t + ucast w"] r c e na ap Some v(1) by (simp add: Let_def)
        qed
      next
        case False
        then show ?thesis using Cons.IH [OF _ v(2), of t] r e na ap Some v(1) by simp
      qed
    qed
  qed
qed simp

lemma authority_body_sim:
  assumes r: "authority_body addr available (map_option (\<lambda>f. f available) deeper) au st1 = Inr (b, st1')"
    and s: "sim available K S st1 st2" and SK: "S \<subseteq> K" and m: "marked st1' \<subseteq> S"
    and p: "\<And>auth. au = Some auth \<Longrightarrow> address_auths auth = []"
    and grow: "\<And>f a st c st1. deeper = Some f \<Longrightarrow> f available a st = Inr (c, st1) \<Longrightarrow> grows st st1"
    and step: "\<And>f a st c st1 st2. deeper = Some f \<Longrightarrow> f available a st = Inr (c, st1) \<Longrightarrow> sim available K S st st2 \<Longrightarrow>
      marked st1 \<subseteq> S \<Longrightarrow> \<exists>st2'. f [] a st2 = Inr (c, st2') \<and> sim available K S st1 st2'"
  shows "\<exists>st2'. authority_body addr [] (map_option (\<lambda>f. f []) deeper) au st2 = Inr (b, st2') \<and> sim available K S st1' st2'"
proof (cases au)
  case None
  then show ?thesis using r s by (simp add: authority_body_def)
next
  case (Some auth)
  let ?thr = "weight_threshold auth"
  have pa: "address_auths auth = []" using p [OF Some] .
  obtain b1 t1 u where k: "key_loop available ?thr (key_auths auth) 0 st1 = (b1, t1, u)"
    by (cases "key_loop available ?thr (key_auths auth) 0 st1") auto
  have acc: "grows v st1'" if "account_loop (map_option (\<lambda>f. f available) deeper) ?thr (account_auths auth) t v = Inr (c, t', st1')" for t v c t'
    using that by (rule account_loop_grows) (use grow in auto)
  have r1: "if b1 then b \<and> st1' = u else \<exists>b3 t3. account_loop (map_option (\<lambda>f. f available) deeper) ?thr (account_auths auth) t1 u = Inr (b3, t3, st1')
      \<and> b = (b3 \<or> ?thr \<le> t3)"
    using r Some k pa by (auto simp: authority_body_def bindE_eq_Inr split: if_split_asm)
  then have "grows u st1'" using acc grows_refl by (auto split: if_split_asm)
  then have "marked u \<subseteq> S" using m by (auto simp: grows_def)
  from key_loop_sim [OF k s SK this] obtain v where v: "key_loop [] ?thr (key_auths auth) 0 st2 = (b1, t1, v)" "sim available K S u v"
    by blast
  show ?thesis
  proof (cases b1)
    case True
    then show ?thesis using r1 v Some by (auto simp: authority_body_def)
  next
    case False
    then obtain b3 t3 where c: "account_loop (map_option (\<lambda>f. f available) deeper) ?thr (account_auths auth) t1 u = Inr (b3, t3, st1')"
      and b: "b = (b3 \<or> ?thr \<le> t3)" using r1 by auto
    have "\<exists>w. account_loop (map_option (\<lambda>f. f []) deeper) ?thr (account_auths auth) t1 v = Inr (b3, t3, w) \<and> sim available K S st1' w"
      using c v(2) m by (rule account_loop_sim) (use grow step in blast)+
    then obtain w where "account_loop (map_option (\<lambda>f. f []) deeper) ?thr (account_auths auth) t1 v = Inr (b3, t3, w)"
      "sim available K S st1' w" by blast
    then show ?thesis using v(1) b False Some pa by (auto simp: authority_body_def)
  qed
qed

definition without_addresses :: "(account_id \<Rightarrow> ('k, 'a) authority option) \<Rightarrow> bool" where
  "without_addresses g \<longleftrightarrow> (\<forall>i au. g i = Some au \<longrightarrow> address_auths au = [])"

lemma check_authority_sim:
  assumes "check_authority addr available g n au st1 = Inr (b, st1')" "sim available K S st1 st2" "S \<subseteq> K" "marked st1' \<subseteq> S"
    and "\<And>auth. au = Some auth \<Longrightarrow> address_auths auth = []" "without_addresses g"
  shows "\<exists>st2'. check_authority addr [] g n au st2 = Inr (b, st2') \<and> sim available K S st1' st2'"
  using assms(1,2,4,5)
proof (induction n arbitrary: au st1 st2 b st1')
  case 0
  show ?case
    using authority_body_sim [where deeper = None and au = au, OF _ 0(2) assms(3) 0(3) 0(4), of addr b] 0(1) by simp
next
  case (Suc n)
  let ?f = "\<lambda>available a. check_authority addr available g n (g a)"
  have "\<exists>st2'. authority_body addr [] (map_option (\<lambda>f. f []) (Some ?f)) au st2 = Inr (b, st2') \<and> sim available K S st1' st2'"
  proof (rule authority_body_sim [where deeper = "Some ?f", OF _ Suc.prems(2) assms(3) Suc.prems(3) Suc.prems(4)])
    fix f a st c u v
    assume f: "Some ?f = Some f" and r: "f available a st = Inr (c, u)" and s: "sim available K S st v" "marked u \<subseteq> S"
    have "address_auths auth = []" if "g a = Some auth" for auth using assms(6) that by (auto simp: without_addresses_def)
    moreover have "check_authority addr available g n (g a) st = Inr (c, u)" using f r by auto
    ultimately have "\<exists>st2'. check_authority addr [] g n (g a) v = Inr (c, st2') \<and> sim available K S u st2'"
      using Suc.IH [OF _ s(1) s(2)] by blast
    then show "\<exists>st2'. f [] a v = Inr (c, st2') \<and> sim available K S u st2'" using f by auto
  qed (use Suc.prems(1) check_authority_grows in \<open>auto\<close>)
  then show ?case by simp
qed

lemma check_account_sim:
  assumes "check_account addr available g n i st1 = Inr (b, st1')" "sim available K S st1 st2" "S \<subseteq> K" "marked st1' \<subseteq> S"
    and "without_addresses g"
  shows "\<exists>st2'. check_account addr [] g n i st2 = Inr (b, st2') \<and> sim available K S st1' st2'"
proof (cases "i \<in> set (approved_by st1)")
  case True
  then have "i \<in> set (approved_by st2)" using assms(2) by (simp add: sim_def)
  then show ?thesis using True assms(1,2) by (simp add: check_account_def)
next
  case False
  then have n: "i \<notin> set (approved_by st2)" using assms(2) by (simp add: sim_def)
  have "address_auths auth = []" if "g i = Some auth" for auth using assms(5) that by (auto simp: without_addresses_def)
  then show ?thesis
    using check_authority_sim [OF _ assms(2-4) _ assms(5), of addr n "g i" b] False n assms(1) by (simp add: check_account_def)
qed

lemma require_others_sim:
  assumes "require_others addr available g n other s = Inr s'" "sim available K S s t" "S \<subseteq> K" "marked s' \<subseteq> S"
    and "without_addresses g" "\<And>au. au \<in> set other \<Longrightarrow> address_auths au = []"
  shows "\<exists>t'. require_others addr [] g n other t = Inr t' \<and> sim available K S s' t'"
proof -
  have e: "check_authority addr available g n (Some au) u = Inr (True, u')"
    if "bindE (check_authority addr available g n (Some au) u) (\<lambda>(b, st1). if b then Inr st1 else Inl MissingOtherAuth) = Inr u'" for au u u'
    using that by (auto simp: bindE_eq_Inr split: if_split_asm)
  show ?thesis
    unfolding require_others_def
  proof (rule foldE_sim [where Q = "\<lambda>u. marked u \<subseteq> S" and R = "sim available K S", OF assms(1) [unfolded require_others_def] assms(2,4)])
    show "marked u \<subseteq> S" if "bindE (check_authority addr available g n (Some au) u) (\<lambda>(b, st1). if b then Inr st1 else Inl MissingOtherAuth) = Inr u'"
      "marked u' \<subseteq> S" for au u u'
      using check_authority_grows [OF e [OF that(1)]] that(2) by (auto simp: grows_def)
    show "\<exists>v'. bindE (check_authority addr [] g n (Some au) v) (\<lambda>(b, st1). if b then Inr st1 else Inl MissingOtherAuth) = Inr v' \<and> sim available K S u' v'"
      if "au \<in> set other" "bindE (check_authority addr available g n (Some au) u) (\<lambda>(b, st1). if b then Inr st1 else Inl MissingOtherAuth) = Inr u'"
        "marked u' \<subseteq> S" "sim available K S u v" for au u u' v
      using check_authority_sim [OF e [OF that(2)] that(4) assms(3) that(3) _ assms(5)] assms(6) [OF that(1)] by fastforce
  qed
qed

lemma require_owners_sim:
  assumes "require_owners addr available g go n oa ro s = Inr s'" "sim available K S s t" "S \<subseteq> K" "marked s' \<subseteq> S"
    and "without_addresses g" "without_addresses go"
  shows "\<exists>t'. require_owners addr [] g go n oa ro t = Inr t' \<and> sim available K S s' t'"
proof -
  let ?f = "\<lambda>available i st. if i \<in> set oa then Inr st
     else bindE (check_authority addr available g n (go i) st) (\<lambda>(b, st1).
          if b then Inr st1 else Inl (missing_auth MissingOwnerAuth [go i]))"
  have e: "i \<in> set oa \<and> u' = u \<or> i \<notin> set oa \<and> check_authority addr available g n (go i) u = Inr (True, u')"
    if "?f available i u = Inr u'" for i u u'
    using that by (auto simp: bindE_eq_Inr split: if_split_asm)
  have g: "grows u u'" if "?f available i u = Inr u'" for i u u'
    using e [OF that] check_authority_grows by fastforce
  have pl: "address_auths auth = []" if "go i = Some auth" for i auth using assms(6) that by (auto simp: without_addresses_def)
  show ?thesis
    unfolding require_owners_def
  proof (rule foldE_sim [where Q = "\<lambda>u. marked u \<subseteq> S" and R = "sim available K S", OF assms(1) [unfolded require_owners_def] assms(2,4)])
    show "marked u \<subseteq> S" if "?f available i u = Inr u'" "marked u' \<subseteq> S" for i u u'
      using g [OF that(1)] that(2) by (auto simp: grows_def)
    show "\<exists>v'. ?f [] i v = Inr v' \<and> sim available K S u' v'"
      if "?f available i u = Inr u'" "marked u' \<subseteq> S" "sim available K S u v" for i u u' v
      using e [OF that(1)]
    proof
      assume c: "i \<notin> set oa \<and> check_authority addr available g n (go i) u = Inr (True, u')"
      show ?thesis using check_authority_sim [OF conjunct2 [OF c] that(3) assms(3) that(2) pl [of i] assms(5)] c by fastforce
    qed (use that(3) in auto)
  qed
qed

lemma require_actives_sim:
  assumes "require_actives addr available g go n ra s = Inr s'" "sim available K S s t" "S \<subseteq> K" "marked s' \<subseteq> S"
    and "without_addresses g" "without_addresses go"
  shows "\<exists>t'. require_actives addr [] g go n ra t = Inr t' \<and> sim available K S s' t'"
proof -
  let ?f = "\<lambda>available i st. bindE (check_account addr available g n i st) (\<lambda>(b, st1).
     if b then Inr st1
     else bindE (check_authority addr available g n (go i) st1) (\<lambda>(b, st2).
          if b then Inr st2 else Inl (missing_auth MissingActiveAuth [g i, go i])))"
  have e: "check_account addr available g n i u = Inr (True, u') \<or>
      (\<exists>w. check_account addr available g n i u = Inr (False, w) \<and> check_authority addr available g n (go i) w = Inr (True, u'))"
    if "?f available i u = Inr u'" for i u u'
    using that by (auto simp: bindE_eq_Inr split: if_split_asm)
  have g: "grows u u'" if "?f available i u = Inr u'" for i u u'
    using e [OF that] check_authority_grows check_account_grows grows_trans by blast
  have pl: "address_auths auth = []" if "go i = Some auth" for i auth using assms(6) that by (auto simp: without_addresses_def)
  show ?thesis
    unfolding require_actives_def
  proof (rule foldE_sim [where Q = "\<lambda>u. marked u \<subseteq> S" and R = "sim available K S", OF assms(1) [unfolded require_actives_def] assms(2,4)])
    show "marked u \<subseteq> S" if "?f available i u = Inr u'" "marked u' \<subseteq> S" for i u u'
      using g [OF that(1)] that(2) by (auto simp: grows_def)
    show "\<exists>v'. ?f [] i v = Inr v' \<and> sim available K S u' v'"
      if "?f available i u = Inr u'" "marked u' \<subseteq> S" "sim available K S u v" for i u u' v
      using e [OF that(1)]
    proof (elim disjE exE conjE)
      assume c: "check_account addr available g n i u = Inr (True, u')"
      show ?thesis using check_account_sim [OF c that(3) assms(3) that(2) assms(5)] by fastforce
    next
      fix w
      assume c: "check_account addr available g n i u = Inr (False, w)" and d: "check_authority addr available g n (go i) w = Inr (True, u')"
      have "marked w \<subseteq> S" using check_authority_grows [OF d] that(2) by (auto simp: grows_def)
      from check_account_sim [OF c that(3) assms(3) this assms(5)] obtain x where x: "check_account addr [] g n i v = Inr (False, x)"
        "sim available K S w x" by blast
      show ?thesis using check_authority_sim [OF d x(2) assms(3) that(2) pl [of i] assms(5)] x(1) by fastforce
    qed
  qed
qed

lemma require_owners_grows: "require_owners addr available g go n oa ro s = Inr s' \<Longrightarrow> grows s s'"
  unfolding require_owners_def
  by (rule foldE_back [where Q = "\<lambda>u. grows u s'"])
    (auto simp: bindE_eq_Inr split: if_split_asm dest!: check_authority_grows elim: grows_trans)

lemma require_actives_grows: "require_actives addr available g go n ra s = Inr s' \<Longrightarrow> grows s s'"
  unfolding require_actives_def
  by (rule foldE_back [where Q = "\<lambda>u. grows u s'"])
    (auto simp: bindE_eq_Inr split: if_split_asm dest!: check_account_grows check_authority_grows, (blast intro: grows_trans)+)

lemma require_sim:
  assumes "require_others addr available g n other s = Inr s1" "require_owners addr available g go n oa ro s1 = Inr s2"
    "require_actives addr available g go n ra s2 = Inr s3"
    and "sim available K S s t" "S \<subseteq> K" "marked s3 \<subseteq> S"
    and a: "without_addresses g" "without_addresses go" "\<And>au. au \<in> set other \<Longrightarrow> address_auths au = []"
  shows "\<exists>t1 t2 t3. require_others addr [] g n other t = Inr t1 \<and> require_owners addr [] g go n oa ro t1 = Inr t2 \<and>
    require_actives addr [] g go n ra t2 = Inr t3 \<and> sim available K S s3 t3"
proof -
  have m2: "marked s2 \<subseteq> S" using require_actives_grows [OF assms(3)] assms(6) by (auto simp: grows_def)
  have m1: "marked s1 \<subseteq> S" using require_owners_grows [OF assms(2)] m2 by (auto simp: grows_def)
  obtain t1 where t1: "require_others addr [] g n other t = Inr t1" "sim available K S s1 t1"
    using require_others_sim [OF assms(1,4,5) m1 a(1,3)] by blast
  obtain t2 where t2: "require_owners addr [] g go n oa ro t1 = Inr t2" "sim available K S s2 t2"
    using require_owners_sim [OF assms(2) t1(2) assms(5) m2 a(1,2)] by blast
  show ?thesis using require_actives_sim [OF assms(3) t2(2) assms(5,6) a(1,2)] t1(1) t2(1) by blast
qed

subsection \<open>Required signatures are accepted\<close>

lemma remove_unused_iff: "fst (remove_unused_signatures st) \<longleftrightarrow> (\<exists>e \<in> set (provided st). \<not> snd e)"
  by (auto simp: remove_unused_signatures_def Let_def filter_empty_conv)

lemma all_used:
  assumes "distinct (map fst (provided st))" "known st = marked st"
  shows "\<not> fst (remove_unused_signatures st)"
proof -
  have "snd e" if "e \<in> set (provided st)" for e
  proof -
    have "map_of (provided st) (fst e) = Some (snd e)" using that assms(1) by (simp add: map_of_is_SomeI)
    then have "fst e \<in> known st" by (auto simp: known_def)
    then have "map_of (provided st) (fst e) = Some True" using assms(2) by (simp add: marked_def)
    then show ?thesis using \<open>map_of (provided st) (fst e) = Some (snd e)\<close> by simp
  qed
  then show ?thesis by (auto simp: remove_unused_iff)
qed

lemma used_all:
  assumes "\<not> fst (remove_unused_signatures st)"
  shows "known st = marked st"
proof -
  have "b" if "map_of (provided st) k = Some b" for k b
    using map_of_SomeD [OF that] assms by (auto simp: remove_unused_iff)
  then show ?thesis by (fastforce simp: known_def marked_def)
qed

lemma removed_keys:
  assumes "distinct (map fst (provided st))"
  shows "set (map fst (provided (snd (remove_unused_signatures st)))) = marked st"
    and "distinct (map fst (provided (snd (remove_unused_signatures st))))"
proof -
  have m: "map_of (provided st) k = Some b \<longleftrightarrow> (k, b) \<in> set (provided st)" for k b using assms by simp
  have "k \<in> set (map fst (provided (snd (remove_unused_signatures st)))) \<longleftrightarrow> (k, True) \<in> set (provided st)" for k
  proof -
    have "k \<in> set (map fst (provided (snd (remove_unused_signatures st)))) \<longleftrightarrow>
        (\<exists>b. (k, b) \<in> set (provided st)) \<and> (k, False) \<notin> set (provided st)"
      by (force simp: remove_unused_signatures_def Let_def)
    also have "\<dots> \<longleftrightarrow> (k, True) \<in> set (provided st)" using m by (metis (full_types) option.inject)
    finally show ?thesis .
  qed
  then show "set (map fst (provided (snd (remove_unused_signatures st)))) = marked st"
    unfolding marked_def m by blast
  show "distinct (map fst (provided (snd (remove_unused_signatures st))))"
    using assms by (simp add: remove_unused_signatures_def Let_def distinct_map_filter)
qed

lemma require_inv:
  assumes "require_others addr available g n other s = Inr s1" "require_owners addr available g go n oa ro s1 = Inr s2"
    "require_actives addr available g go n ra s2 = Inr s3"
    and i: "check_inv addr g keys pre s" and av: "set available \<subseteq> set keys"
  shows "check_inv addr g keys pre s3"
proof -
  have "check_inv addr g keys pre s1"
    by (rule foldE_invariant [where P = "check_inv addr g keys pre", OF assms(1) [unfolded require_others_def] i])
      (auto simp: bindE_eq_Inr split: if_split_asm dest: check_authority_inv [OF _ _ av])
  then have "check_inv addr g keys pre s2"
    by (rule foldE_invariant [where P = "check_inv addr g keys pre", OF assms(2) [unfolded require_owners_def]])
      (auto simp: bindE_eq_Inr split: if_split_asm dest: check_authority_inv [OF _ _ av])
  then show ?thesis
    by (rule foldE_invariant [where P = "check_inv addr g keys pre", OF assms(3) [unfolded require_actives_def]])
      (auto simp: bindE_eq_Inr split: if_split_asm dest: check_authority_inv [OF _ _ av] check_account_inv [OF _ _ av])
qed

lemma require_grows:
  assumes "require_others addr available g n other s = Inr s1" "require_owners addr available g go n oa ro s1 = Inr s2"
    "require_actives addr available g go n ra s2 = Inr s3"
  shows "grows s s3"
proof -
  have "grows s s1"
    by (rule foldE_back [where Q = "\<lambda>u. grows u s1", OF assms(1) [unfolded require_others_def] grows_refl])
      (auto simp: bindE_eq_Inr split: if_split_asm dest!: check_authority_grows elim: grows_trans)
  then show ?thesis using require_owners_grows [OF assms(2)] require_actives_grows [OF assms(3)] grows_trans by blast
qed

lemma sign_state_sim:
  assumes "distinct sigs" "distinct sigs'" "set sigs \<union> set available = K"
  shows "sim available K (set sigs') ((new_sign_state sigs)\<lparr>approved_by := as\<rparr>) ((new_sign_state sigs')\<lparr>approved_by := as\<rparr>)"
  using assms by (auto simp: sim_def new_sign_state_def known_def marked_def dom_map_of_conv_image_fst image_iff comp_def dest: map_of_SomeD)

text \<open>The order of the signatures does not matter.\<close>

lemma verify_authority_same_keys:
  fixes g :: "account_id \<Rightarrow> ('k, 'a) authority option"
  assumes v: "verify_authority addr ops sigs g go n allow aa oa = Inr ()"
    and k: "set sigs' = set sigs" "distinct sigs" "distinct sigs'"
    and a: "without_addresses g" "without_addresses go" "\<forall>au \<in> set (snd (snd (required_by ops))). address_auths au = []"
  shows "verify_authority addr ops sigs' g go n allow aa oa = Inr ()"
proof -
  obtain ra ro other where ops: "required_by ops = (ra, ro, other)" by (cases "required_by ops") auto
  let ?s0 = "\<lambda>sigs. (new_sign_state sigs)\<lparr>approved_by := oa @ aa @ [TEMP_ACCOUNT]\<rparr> :: ('k, 'a) sign_state"
  have e: "approved_by (new_sign_state x :: ('k, 'a) sign_state) = [TEMP_ACCOUNT]" for x :: "'k list" by (simp add: new_sign_state_def)
  obtain s1 s2 s3 where s: "require_others addr [] g n other (?s0 sigs) = Inr s1" "require_owners addr [] g go n oa ro s1 = Inr s2"
    "require_actives addr [] g go n ra s2 = Inr s3" and u: "\<not> fst (remove_unused_signatures s3)" and c: "allow \<or> COMMITTEE_ACCOUNT \<notin> set ra"
    using v ops unfolding verify_authority_def Let_def e by (auto simp: bindE_eq_Inr split: if_split_asm)
  have sm: "sim [] (set sigs) (set sigs) (?s0 sigs) (?s0 sigs')"
    using sign_state_sim [OF k(2,3), of "[]" "set sigs"] k(1) by simp
  have e0: "set [] \<subseteq> set sigs" by simp
  have "check_inv addr g sigs (oa @ aa @ [TEMP_ACCOUNT]) (?s0 sigs)" by (rule sign_state_inv)
  from require_inv [OF s this e0] have kn: "known s3 \<subseteq> set sigs" by (simp add: check_inv_def)
  have "marked s3 \<subseteq> set sigs" using kn used_all [OF u] by simp
  from require_sim [OF s sm order_refl this a(1,2)] a(3) ops obtain t1 t2 t3 where
    t: "require_others addr [] g n other (?s0 sigs') = Inr t1" "require_owners addr [] g go n oa ro t1 = Inr t2"
    "require_actives addr [] g go n ra t2 = Inr t3" and st: "sim [] (set sigs) (set sigs) s3 t3" by auto
  have "grows (?s0 sigs) s3" by (rule require_grows [OF s])
  then have "set sigs \<subseteq> known s3" by (auto simp: grows_def new_sign_state_def known_def dom_map_of_conv_image_fst image_iff)
  then have "known t3 = marked t3" using st used_all [OF u] kn by (simp add: sim_def)
  then have "\<not> fst (remove_unused_signatures t3)" using st by (intro all_used) (simp_all add: sim_def)
  then show ?thesis using ops c t unfolding verify_authority_def Let_def e by auto
qed

lemma required_run:
  assumes "require_others addr available g n other s = Inr s1" "require_owners addr available g go n [] ro s1 = Inr s2"
    "require_actives addr available g go n ra s2 = Inr s3"
  shows "foldE (\<lambda>auth st. bindE (check_authority addr available g n (Some auth) st) (\<lambda>(_, st1). Inr st1)) other s = Inr s1"
    and "foldE (\<lambda>i st. bindE (check_authority addr available g n (go i) st) (\<lambda>(_, st1). Inr st1)) ro s1 = Inr s2"
    and "foldE (\<lambda>i st. bindE (check_account addr available g n i st) (\<lambda>(b, st1).
               if b then Inr st1
               else bindE (check_authority addr available g n (go i) st1) (\<lambda>(_, st2). Inr st2))) ra s2 = Inr s3"
proof -
  show "foldE (\<lambda>auth st. bindE (check_authority addr available g n (Some auth) st) (\<lambda>(_, st1). Inr st1)) other s = Inr s1"
    by (rule foldE_same [OF assms(1) [unfolded require_others_def]]) (auto simp: bindE_eq_Inr split: if_split_asm)
  show "foldE (\<lambda>i st. bindE (check_authority addr available g n (go i) st) (\<lambda>(_, st1). Inr st1)) ro s1 = Inr s2"
    by (rule foldE_same [OF assms(2) [unfolded require_owners_def]]) (auto simp: bindE_eq_Inr split: if_split_asm)
  show "foldE (\<lambda>i st. bindE (check_account addr available g n i st) (\<lambda>(b, st1).
               if b then Inr st1
               else bindE (check_authority addr available g n (go i) st1) (\<lambda>(_, st2). Inr st2))) ra s2 = Inr s3"
  proof (rule foldE_same [OF assms(3) [unfolded require_actives_def]])
    fix i st st'
    assume "bindE (check_account addr available g n i st) (\<lambda>(b, st1). if b then Inr st1
       else bindE (check_authority addr available g n (go i) st1) (\<lambda>(b, st2).
          if b then Inr st2 else Inl (missing_auth MissingActiveAuth [g i, go i]))) = Inr st'"
    then show "bindE (check_account addr available g n i st) (\<lambda>(b, st1). if b then Inr st1
       else bindE (check_authority addr available g n (go i) st1) (\<lambda>(_, st2). Inr st2)) = Inr st'"
      by (elim result_elims) auto
  qed
qed

text \<open>An unsigned transaction whose authorities the available keys meet.\<close>

definition signable :: "('k \<Rightarrow> 'a list) \<Rightarrow> ('k, 'a, 's) signed_transaction \<Rightarrow> 'k list
    \<Rightarrow> (account_id \<Rightarrow> ('k, 'a) authority option) \<Rightarrow> (account_id \<Rightarrow> ('k, 'a) authority option) \<Rightarrow> nat \<Rightarrow> bool" where
  "signable addr tx available g go n \<longleftrightarrow> signatures tx = [] \<and> signees tx = [] \<and> all_met addr (operations tx) available g go n [] [] \<and>
     (case required_by (operations tx) of (ra, ro, other) \<Rightarrow> COMMITTEE_ACCOUNT \<notin> set ra \<and> set ra \<inter> set ro = {})"

lemma required_accepted:
  fixes tx :: "('k, 'a, 's) signed_transaction"
  assumes p: "plain_accounts g" "plain_accounts go" "plain_operations (operations tx)" and s: "signable addr tx available g go n"
  shows "\<exists>R. get_required_signatures addr recover tx available g go n = Inr R \<and> distinct R \<and> set R \<subseteq> set available \<and>
    verify_authority addr (operations tx) R g go n False [] [] = Inr ()"
proof -
  obtain ra ro other where ops: "required_by (operations tx) = (ra, ro, other)" by (cases "required_by (operations tx)") auto
  let ?s0 = "new_sign_state [] :: ('k, 'a) sign_state"
  have w: "without_addresses g" "without_addresses go" "\<And>au. au \<in> set other \<Longrightarrow> address_auths au = []"
    using p ops by (auto simp: without_addresses_def plain_accounts_def plain_operations_def plain_def)
  have sg: "signatures tx = []" "signees tx = []" "all_met addr (operations tx) available g go n [] []" "COMMITTEE_ACCOUNT \<notin> set ra"
    and d: "filter (\<lambda>x. x \<notin> set ro) ra = ra"
    using s ops by (auto simp: signable_def filter_id_conv)
  have "ready available (set available) ([] @ [] @ [TEMP_ACCOUNT]) ?s0"
    by (simp add: ready_def new_sign_state_def known_def)
  from require_ready [OF p sg(3) ops this] obtain s1 s2 s3 where r: "require_others addr available g n other ?s0 = Inr s1"
    "require_owners addr available g go n [] ro s1 = Inr s2" "require_actives addr available g go n ra s2 = Inr s3" by blast
  let ?R = "filter (\<lambda>k. k \<in> set available \<and> k \<notin> set []) (map fst (provided (snd (remove_unused_signatures s3))))"
  have q: "get_required_signatures addr recover tx available g go n = Inr ?R"
    using ops d sg(1,2) required_run [OF r]
    by (simp add: get_required_signatures_def get_required_authorities_def get_signature_keys_def)
  have i: "check_inv addr g available [TEMP_ACCOUNT] ?s0"
    by (simp add: check_inv_def new_sign_state_def known_def account_ok_def)
  have kn: "known s3 \<subseteq> set available" using require_inv [OF r i order_refl] by (simp add: check_inv_def)
  have mk: "marked s3 \<subseteq> known s3" by (auto simp: marked_def known_def)
  have "finite (known s3)" by (simp add: known_def finite_dom_map_of)
  then obtain L where L: "set L = marked s3" "distinct L" using finite_distinct_list finite_subset [OF mk] by blast
  have run: "\<exists>t1 t2 t3. require_others addr [] g n other (new_sign_state keys) = Inr t1 \<and> require_owners addr [] g go n [] ro t1 = Inr t2 \<and>
    require_actives addr [] g go n ra t2 = Inr t3 \<and> sim available (set available) (set keys) s3 t3"
    if "set keys = marked s3" "distinct keys" for keys
  proof -
    have "sim available (set available) (set keys) ?s0 (new_sign_state keys)"
      using sign_state_sim [of "[]" keys available "set available" "[TEMP_ACCOUNT]"] that by (simp add: new_sign_state_def)
    from require_sim [OF r this _ _ w(1,2)] w(3) show ?thesis using that kn mk by auto
  qed
  have ds: "distinct (map fst (provided s3))" using run [OF L] by (auto simp: sim_def)
  have R: "set ?R = marked s3" "distinct ?R"
    using removed_keys [OF ds] kn mk by auto
  obtain t1 t2 t3 where t: "require_others addr [] g n other (new_sign_state ?R) = Inr t1" "require_owners addr [] g go n [] ro t1 = Inr t2"
    "require_actives addr [] g go n ra t2 = Inr t3" and st: "sim available (set available) (set ?R) s3 t3"
    using run [OF R] by blast
  have "\<not> fst (remove_unused_signatures t3)" using st R(1) by (intro all_used) (auto simp: sim_def)
  moreover have "(new_sign_state ?R)\<lparr>approved_by := [] @ [] @ approved_by (new_sign_state ?R :: ('k, 'a) sign_state)\<rparr> = new_sign_state ?R"
    by (simp add: new_sign_state_def)
  ultimately have "verify_authority addr (operations tx) ?R g go n False [] [] = Inr ()"
    using ops t sg(4) unfolding verify_authority_def Let_def by simp
  then show ?thesis using q R kn mk by blast
qed

text \<open>Minimizing keeps the signatures accepted.\<close>

lemma minimize_accepted:
  assumes m: "minimize_required_signatures addr recover tx available g go n = Inr M"
    and r: "get_required_signatures addr recover tx available g go n = Inr R" "distinct R"
    and v: "verify_authority addr (operations tx) R g go n False [] [] = Inr ()"
    and a: "without_addresses g" "without_addresses go" "\<forall>au \<in> set (snd (snd (required_by (operations tx)))). address_auths au = []"
  shows "set M \<subseteq> set R \<and> distinct M \<and> verify_authority addr (operations tx) M g go n False [] [] = Inr ()"
proof -
  let ?ok = "\<lambda>keys. verify_authority addr (operations tx) keys g go n False [] [] = Inr ()"
  let ?P = "\<lambda>keys. set keys \<subseteq> set R \<and> distinct keys \<and> ?ok keys"
  have step: "?P keys'" if "k \<in> set R" "?P keys" and s: "(let erased = filter (\<lambda>x. x \<noteq> k) keys
       in case verify_authority addr (operations tx) erased g go n False [] [] of
            Inr _ \<Rightarrow> Inr erased
          | Inl e \<Rightarrow>
              if e \<in> {MissingOwnerAuth, MissingActiveAuth, MissingOtherAuth} then Inr (erased @ [k]) else Inl e) = Inr keys'" for k keys keys'
  proof (cases "keys' = filter (\<lambda>x. x \<noteq> k) keys \<and> ?ok keys'")
    case True
    then show ?thesis using that by auto
  next
    case False
    then have e: "keys' = filter (\<lambda>x. x \<noteq> k) keys @ [k]"
      using s by (auto simp: Let_def split: sum.splits if_split_asm)
    show ?thesis
    proof (cases "k \<in> set keys")
      case True
      then have "set keys' = set keys" "distinct keys'" using e that(2) by auto
      then show ?thesis using that(2) verify_authority_same_keys [OF _ _ _ _ a] by blast
    next
      case False
      then have "filter (\<lambda>x. x \<noteq> k) keys = keys" by (simp add: filter_id_conv) (metis)
      then show ?thesis using s that(2) by (simp add: Let_def)
    qed
  qed
  have "foldE (\<lambda>k keys. let erased = filter (\<lambda>x. x \<noteq> k) keys
       in case verify_authority addr (operations tx) erased g go n False [] [] of
            Inr _ \<Rightarrow> Inr erased
          | Inl e \<Rightarrow>
              if e \<in> {MissingOwnerAuth, MissingActiveAuth, MissingOtherAuth} then Inr (erased @ [k]) else Inl e) R R = Inr M"
    using m r(1) by (simp add: minimize_required_signatures_def)
  then show ?thesis
    by (rule foldE_invariant [where P = ?P]) (use r(2) v in simp, rule step)
qed

text \<open>C34. For an unsigned transaction whose authorities the available keys meet within the recursion limit,
  \<open>get_required_signatures\<close> returns a set of available keys whose signatures \<open>verify_authority\<close> accepts, with none
  too many; and whatever \<open>minimize_required_signatures\<close> returns is a subset of it that is accepted as well.  No account
  is required both as owner and as active.\<close>

theorem required_signatures_accepted:
  assumes "plain_accounts g" "plain_accounts go" "plain_operations (operations tx)" "signable addr tx available g go n"
  shows "\<exists>R. get_required_signatures addr recover tx available g go n = Inr R \<and> set R \<subseteq> set available \<and>
    verify_authority addr (operations tx) R g go n False [] [] = Inr () \<and>
    (\<forall>M. minimize_required_signatures addr recover tx available g go n = Inr M \<longrightarrow>
       set M \<subseteq> set R \<and> verify_authority addr (operations tx) M g go n False [] [] = Inr ())"
proof -
  obtain R where R: "get_required_signatures addr recover tx available g go n = Inr R" "distinct R" "set R \<subseteq> set available"
    "verify_authority addr (operations tx) R g go n False [] [] = Inr ()"
    using required_accepted [OF assms] by blast
  have w: "without_addresses g" "without_addresses go" "\<forall>au \<in> set (snd (snd (required_by (operations tx)))). address_auths au = []"
    using assms(1-3) by (auto simp: without_addresses_def plain_accounts_def plain_operations_def plain_def)
  show ?thesis using R minimize_accepted [OF _ R(1,2,4) w] by blast
qed

definition demo_tx :: "(nat, nat, nat) signed_transaction" where
  "demo_tx = \<lparr>operations = [demo_op 10 []], signatures = [], signees = []\<rparr>"

theorem required_signatures_accepted_witness:
  "\<exists>R. get_required_signatures no_addr Inr demo_tx [100, 110, 111] demo_active demo_owner 2 = Inr R \<and>
    verify_authority no_addr (operations demo_tx) R demo_active demo_owner 2 False [] [] = Inr ()"
proof -
  have s: "signable no_addr demo_tx [100, 110, 111] demo_active demo_owner 2" by code_simp
  have p: "plain_operations (operations demo_tx)" using demo_plain(3) by (simp add: demo_tx_def)
  show ?thesis using required_signatures_accepted [OF demo_plain(1,2) p s, of Inr] by blast
qed

text \<open>
  When an account is required both as owner and as active, \<open>get_required_signatures\<close> drops it from the active
  ones, and \<open>verify_authority\<close> checks it there first: an account that this check caches can be beyond the
  recursion limit elsewhere, and make another signature superfluous.
\<close>

definition deep_active :: "account_id \<Rightarrow> (nat, nat) authority option" where
  "deep_active i =
     (if i = 10 then Some \<lparr>weight_threshold = 2, account_auths = [(11, 1)], key_auths = [(100, 1)], address_auths = []\<rparr>
      else if i = 11 \<or> i = 16 then Some \<lparr>weight_threshold = 1, account_auths = [], key_auths = [(110, 1)], address_auths = []\<rparr>
      else if i = 12 then Some \<lparr>weight_threshold = 1, account_auths = [(13, 1)], key_auths = [], address_auths = []\<rparr>
      else if i = 13 then Some \<lparr>weight_threshold = 1, account_auths = [(14, 1), (15, 1)], key_auths = [], address_auths = []\<rparr>
      else if i = 14 then Some \<lparr>weight_threshold = 1, account_auths = [(11, 1)], key_auths = [], address_auths = []\<rparr>
      else if i = 15 then Some \<lparr>weight_threshold = 1, account_auths = [], key_auths = [(150, 1)], address_auths = []\<rparr>
      else None)"

definition deep_tx :: "(nat, nat, nat) signed_transaction" where
  "deep_tx = \<lparr>operations = [demo_op 10 [10], demo_op 12 [], demo_op 16 []], signatures = [], signees = []\<rparr>"

lemma required_signatures_may_be_rejected:
  "get_required_signatures no_addr Inr deep_tx [101, 110, 150] deep_active demo_owner MAX_SIG_CHECK_DEPTH = Inr [101, 150, 110] \<and>
   verify_authority no_addr (operations deep_tx) [101, 150, 110] deep_active demo_owner MAX_SIG_CHECK_DEPTH False [] [] = Inl IrrelevantSig"
  by code_simp

end
