(* ===== verification/Witness_Schedule.thy ===== *)
theory Witness_Schedule
  imports Chain_State Block Uint128 "HOL-Library.Multiset"
begin

unbundle bit_operations_syntax

text \<open>
  The slots of the block production and the bookkeeping of a block (\<open>chain/db_witness_schedule.cpp\<close> and the
  updates of \<open>chain/db_update.cpp\<close> that concern the head block, its witness and the irreversible block).  Times are
  seconds since the epoch, kept at their 32 bits.
\<close>

subsection \<open>The state\<close>

record witness_record =
  last_aslot :: "64 word"
  total_missed :: int
  last_confirmed_block_num :: "32 word"

text \<open>The members of the global and dynamic global properties and of the witness schedule that this code uses;
  \<open>last_checkpoint\<close> is the greatest block number of a checkpoint, \<open>skip_undo_check\<close> the node's flag.\<close>

record schedule =
  head_block_number :: "32 word"
  head_block_id :: block_id_type
  time :: "32 word"
  current_witness :: nat
  witness_budget :: share
  recently_missed_count :: "32 word"
  current_aslot :: "64 word"
  recent_slots_filled :: uint128
  dynamic_flags :: "32 word"
  last_irreversible_block_num :: "32 word"
  block_interval :: "8 word"
  maintenance_skip_slots :: "8 word"
  witness_pay_per_block :: share
  active_witnesses :: "nat list"
  current_shuffled_witnesses :: "nat list"
  witness_records :: "witness_record table"
  last_checkpoint :: "32 word option"
  skip_undo_check :: bool

definition MAX_UNDO_HISTORY :: "32 word" where "MAX_UNDO_HISTORY = 10000"
definition IRREVERSIBLE_THRESHOLD :: nat where "IRREVERSIBLE_THRESHOLD = 70 * nat PERCENT_1"
definition RECENTLY_MISSED_COUNT_INCREMENT :: "32 word" where "RECENTLY_MISSED_COUNT_INCREMENT = 4"
definition RECENTLY_MISSED_COUNT_DECREMENT :: "32 word" where "RECENTLY_MISSED_COUNT_DECREMENT = 3"
definition maintenance_flag :: "32 word" where "maintenance_flag = 1"

subsection \<open>Slots\<close>

text \<open>The remainder by the size of an empty schedule traps.\<close>

definition get_scheduled_witness :: "32 word \<Rightarrow> schedule \<Rightarrow> nat result" where
  "get_scheduled_witness slot_num s =
     (let n = length (current_shuffled_witnesses s)
      in if n = 0 then Inl UndefinedBehaviour
         else Inr (current_shuffled_witnesses s ! (unat (current_aslot s + ucast slot_num) mod n)))"

definition get_slot_time :: "32 word \<Rightarrow> schedule \<Rightarrow> 32 word result" where
  "get_slot_time slot_num s =
     (if slot_num = 0 then Inr 0
      else
        let interval = ucast (block_interval s)
        in if head_block_number s = 0 then Inr (time s + slot_num * interval)
           else if interval = 0 then Inl UndefinedBehaviour
           else
             let head_block_abs_slot = time s div interval;
                 head_slot_time = head_block_abs_slot * interval;
                 slot_num = (if dynamic_flags s AND maintenance_flag \<noteq> 0
                             then slot_num + ucast (maintenance_skip_slots s) else slot_num)
             in Inr (head_slot_time + slot_num * interval))"

definition get_slot_at_time :: "32 word \<Rightarrow> schedule \<Rightarrow> 32 word result" where
  "get_slot_at_time when s =
     bindE (get_slot_time 1 s) (\<lambda>first_slot_time.
     if when < first_slot_time then Inr 0
     else if block_interval s = 0 then Inl UndefinedBehaviour
     else Inr ((when - first_slot_time) div ucast (block_interval s) + 1))"

definition count_missed :: "32 word \<Rightarrow> schedule \<Rightarrow> schedule result" where
  "count_missed slot_num s =
     bindE (get_scheduled_witness slot_num s) (\<lambda>w.
     bindE (tget (witness_records s) w) (\<lambda>r.
     Inr (s\<lparr>witness_records := tput w (r\<lparr>total_missed := total_missed r + 1\<rparr>) (witness_records s)\<rparr>)))"

definition update_witness_missed_blocks :: "'tx signed_block \<Rightarrow> schedule \<Rightarrow> (32 word \<times> schedule) result" where
  "update_witness_missed_blocks b s =
     bindE (get_slot_at_time (of_nat (timestamp b)) s) (\<lambda>slot.
     assertE (slot \<noteq> 0)
       (let missed_blocks = slot - 1
        in if unat missed_blocks < length (current_shuffled_witnesses s)
           then bindE (foldE (\<lambda>i. count_missed (of_nat i + 1)) [0..<unat missed_blocks] s) (\<lambda>s1. Inr (missed_blocks, s1))
           else Inr (missed_blocks, s)))"

subsection \<open>Participation\<close>

definition popcount_masks :: "64 word list" where
  "popcount_masks = [0x5555555555555555, 0x3333333333333333, 0x0F0F0F0F0F0F0F0F, 0x00FF00FF00FF00FF,
     0x0000FFFF0000FFFF, 0x00000000FFFFFFFF]"

definition popcount_64 :: "64 word \<Rightarrow> 8 word" where
  "popcount_64 x = ucast (fold (\<lambda>i x. (x AND popcount_masks ! i) + (drop_bit (2 ^ i) x AND popcount_masks ! i)) [0..<6] x)"

definition popcount :: "uint128 \<Rightarrow> 8 word" where
  "popcount x = popcount_64 (lo x) + popcount_64 (hi x)"

definition witness_participation_rate :: "schedule \<Rightarrow> 32 word" where
  "witness_participation_rate s = ucast (of_nat (nat PERCENT_100) * ucast (popcount (recent_slots_filled s)) div (128 :: 64 word))"

subsection \<open>The shuffled schedule\<close>

definition xorshift :: "64 word \<Rightarrow> nat \<Rightarrow> 64 word" where
  "xorshift now_hi i =
     (let k = now_hi + of_nat i * 2685821657736338717;
          k = k XOR drop_bit 12 k;
          k = k XOR push_bit 25 k;
          k = k XOR drop_bit 27 k
      in k * 2685821657736338717)"

definition swap_at :: "nat \<Rightarrow> nat \<Rightarrow> 'a list \<Rightarrow> 'a list" where
  "swap_at i j xs = xs[i := xs ! j, j := xs ! i]"

definition shuffle_step :: "64 word \<Rightarrow> nat \<Rightarrow> 'a list \<Rightarrow> 'a list" where
  "shuffle_step now_hi i ws =
     (let jmax = length ws - i; j = i + unat (xorshift now_hi i) mod jmax in swap_at i j ws)"

definition shuffle_witnesses :: "64 word \<Rightarrow> 'a list \<Rightarrow> 'a list" where
  "shuffle_witnesses now_hi ws = fold (shuffle_step now_hi) [0..<length ws] ws"

definition update_witness_schedule :: "schedule \<Rightarrow> schedule result" where
  "update_witness_schedule s =
     (let n = length (active_witnesses s)
      in if n = 0 then Inl UndefinedBehaviour
         else if unat (head_block_number s) mod n = 0
         then Inr (s\<lparr>current_shuffled_witnesses := shuffle_witnesses (push_bit 32 (ucast (time s))) (active_witnesses s)\<rparr>)
         else Inr s)"

subsection \<open>The bookkeeping of a block\<close>

definition next_missed_count :: "32 word \<Rightarrow> 32 word \<Rightarrow> schedule \<Rightarrow> 32 word" where
  "next_missed_count n missed_blocks s =
     (let c = recently_missed_count s
      in if n = 1 then 0
         else if (case last_checkpoint s of None \<Rightarrow> False | Some c \<Rightarrow> n \<le> c) then 0
         else if missed_blocks \<noteq> 0 then c + RECENTLY_MISSED_COUNT_INCREMENT * missed_blocks
         else if RECENTLY_MISSED_COUNT_INCREMENT < c then c - RECENTLY_MISSED_COUNT_DECREMENT
         else if 0 < c then c - 1 else c)"

text \<open>The number that the undo database and the fork database get as their maximal size is returned.\<close>

definition update_global_dynamic_data :: "(signed_block_header \<Rightarrow> 32 word list) \<Rightarrow> 'tx signed_block \<Rightarrow> 32 word \<Rightarrow> schedule
    \<Rightarrow> (32 word \<times> schedule) result" where
  "update_global_dynamic_data sha224 b missed_blocks s =
     (let s1 = s\<lparr>recently_missed_count := next_missed_count (block_num b) missed_blocks s,
                 head_block_number := block_num b,
                 head_block_id := header_id sha224 b,
                 time := of_nat (timestamp b),
                 current_witness := witness b,
                 recent_slots_filled := u_shl (u_add (u_shl (recent_slots_filled s) 1) (u128_of_int 1)) (unat missed_blocks),
                 current_aslot := current_aslot s + ucast (missed_blocks + 1)\<rparr>;
          undoable = head_block_number s1 - last_irreversible_block_num s1
      in if \<not> skip_undo_check s1 \<and> MAX_UNDO_HISTORY \<le> undoable then Inl OtherThrow
         else Inr (undoable + 1, s1))"

definition update_signing_witness :: "nat \<Rightarrow> 'tx signed_block \<Rightarrow> schedule \<Rightarrow> chain \<Rightarrow> (schedule \<times> chain) result" where
  "update_signing_witness wit b s c =
     bindE (get_slot_at_time (of_nat (timestamp b)) s) (\<lambda>slot.
     let new_block_aslot = current_aslot s + ucast slot;
         pay = min (witness_pay_per_block s) (witness_budget s)
     in bindE (safe_sub (witness_budget s) pay) (\<lambda>budget.
        bindE (deposit_witness_pay wit pay c) (\<lambda>c1.
        bindE (tget (witness_records s) wit) (\<lambda>r.
        Inr (s\<lparr>witness_budget := budget,
               witness_records := tput wit (r\<lparr>last_aslot := new_block_aslot, last_confirmed_block_num := block_num b\<rparr>)
                 (witness_records s)\<rparr>, c1)))))"

text \<open>\<open>std::nth_element\<close> puts at the position the element that sorting would put there.\<close>

definition irreversible_offset :: "nat \<Rightarrow> nat" where
  "irreversible_offset n = (nat PERCENT_100 - IRREVERSIBLE_THRESHOLD) * n div nat PERCENT_100"

definition confirmed_numbers :: "schedule \<Rightarrow> 32 word list result" where
  "confirmed_numbers s = foldE (\<lambda>w ns. bindE (tget (witness_records s) w) (\<lambda>r. Inr (ns @ [last_confirmed_block_num r])))
     (active_witnesses s) []"

definition update_last_irreversible_block :: "schedule \<Rightarrow> schedule result" where
  "update_last_irreversible_block s =
     bindE (confirmed_numbers s) (\<lambda>ns.
     if ns = [] then Inl UndefinedBehaviour
     else
       let new_last = sort ns ! irreversible_offset (length ns)
       in if last_irreversible_block_num s < new_last
          then Inr (s\<lparr>last_irreversible_block_num := new_last\<rparr>) else Inr s)"

end
