(* ===== verification/Witness_Correct.thy ===== *)
theory Witness_Correct
  imports Witness_Schedule
begin

text \<open>
  Slots, schedule and irreversibility (\<open>Witness_Schedule\<close>): slot numbers and times correspond, the shuffle is a
  permutation so that every round is fair, and the irreversible block has the confirmations that it needs.
\<close>

subsection \<open>Slot times\<close>

lemma unat_ucast8 [simp]: "unat (ucast (w :: 8 word) :: 32 word) = unat w"
proof -
  have "unat w < 2 ^ 8" using unsigned_less [of w, where 'a = nat] by simp
  then show ?thesis by (simp add: unsigned_ucast_eq take_bit_nat_eq_self_iff)
qed

text \<open>The time of slot 0, the point from which the slots are counted, and the slots that maintenance skips.\<close>

definition slot_origin :: "schedule \<Rightarrow> nat" where
  "slot_origin s = (if head_block_number s = 0 then unat (time s)
     else unat (time s) div unat (block_interval s) * unat (block_interval s) +
          (if dynamic_flags s AND maintenance_flag \<noteq> 0 then unat (maintenance_skip_slots s) * unat (block_interval s) else 0))"

lemma add_lessD2: "i + j < k \<Longrightarrow> j < (k :: nat)"
  by simp

definition early :: "schedule \<Rightarrow> bool" where
  "early s \<longleftrightarrow> unat (time s) < 2 ^ 32 - 2 ^ 17"

lemma unat_lt8: "unat (w :: 8 word) \<le> 255"
  using unsigned_less [of w, where 'a = nat] by simp

lemma slot_origin_bound: "slot_origin s \<le> unat (time s) + 65025"
proof -
  have "unat (time s) div unat (block_interval s) * unat (block_interval s) \<le> unat (time s)" by (rule div_times_less_eq_dividend)
  moreover have "unat (maintenance_skip_slots s) * unat (block_interval s) \<le> 255 * 255"
    by (intro mult_le_mono unat_lt8)
  ultimately show ?thesis unfolding slot_origin_def by (auto intro: add_mono trans_le_add1)
qed

lemma get_slot_time_nat:
  assumes "0 < block_interval s" "slot \<noteq> 0" "slot_origin s + unat slot * unat (block_interval s) < 2 ^ 32"
  shows "\<exists>t. get_slot_time slot s = Inr t \<and> unat t = slot_origin s + unat slot * unat (block_interval s)"
proof -
  let ?iv = "ucast (block_interval s) :: 32 word"
  have iv: "unat ?iv = unat (block_interval s)" "0 < unat (block_interval s)" "?iv \<noteq> 0"
    using assms(1) by (simp_all add: word_less_nat_alt) (metis unat_0 unat_ucast8 less_not_refl)
  show ?thesis
  proof (cases "head_block_number s = 0")
    case True
    have "unat (time s + slot * ?iv) = unat (time s) + unat slot * unat (block_interval s)"
      using assms(3) True iv(1) by (simp add: slot_origin_def unat_word_ariths)
    then show ?thesis using assms(2) True by (simp add: get_slot_time_def Let_def slot_origin_def)
  next
    case False
    let ?sk = "if dynamic_flags s AND maintenance_flag \<noteq> 0 then unat (maintenance_skip_slots s) else 0"
    let ?sl = "if dynamic_flags s AND maintenance_flag \<noteq> 0 then slot + ucast (maintenance_skip_slots s) else slot"
    have o: "slot_origin s = unat (time s) div unat (block_interval s) * unat (block_interval s) + ?sk * unat (block_interval s)"
      using False by (simp add: slot_origin_def)
    have d: "unat (time s div ?iv * ?iv) = unat (time s) div unat (block_interval s) * unat (block_interval s)"
    proof -
      have lt: "unat (time s) < 2 ^ 32" using unsigned_less [of "time s", where 'a = nat] by simp
      have "unat (time s) div unat (block_interval s) * unat (block_interval s) < 2 ^ 32"
        "unat (time s) div unat (block_interval s) < 2 ^ 32"
        using div_times_less_eq_dividend [of "unat (time s)" "unat (block_interval s)"]
          div_le_dividend [of "unat (time s)" "unat (block_interval s)"] lt by linarith+
      then show ?thesis by (simp add: unat_word_ariths unat_div iv(1))
    qed
    let ?B = "unat (block_interval s)"
    have tot: "unat (time s) div ?B * ?B + (unat slot + ?sk) * ?B < 2 ^ 32"
      using assms(3) unfolding o by (simp only: add_mult_distrib add.commute [of "unat slot * ?B"] add.assoc)
    have sk: "unat slot + ?sk < 2 ^ 32"
    proof -
      have "unat slot + ?sk \<le> (unat slot + ?sk) * ?B" using mult_le_mono2 [of 1 ?B "unat slot + ?sk"] iv(2) by simp
      also have "\<dots> < 2 ^ 32" using tot by (rule add_lessD2)
      finally show ?thesis .
    qed
    have sl: "unat ?sl = unat slot + ?sk"
      using sk by (cases "dynamic_flags s AND maintenance_flag = 0") (simp_all add: unat_word_ariths)
    have p: "unat (?sl * ?iv) = (unat slot + ?sk) * ?B"
    proof -
      have "(unat slot + ?sk) * ?B < 2 ^ 32" using tot by (rule add_lessD2)
      then show ?thesis unfolding unat_word_ariths(2) sl iv(1) by simp
    qed
    have "unat (time s div ?iv * ?iv + ?sl * ?iv) = unat (time s) div ?B * ?B + (unat slot + ?sk) * ?B"
      unfolding unat_word_ariths(1) d p using tot by simp
    also have "\<dots> = slot_origin s + unat slot * ?B"
      unfolding o by (simp only: add_mult_distrib add.commute [of "unat slot * ?B"] add.assoc)
    finally have "unat (time s div ?iv * ?iv + ?sl * ?iv) = slot_origin s + unat slot * ?B" .
    then show ?thesis using assms(2) False iv(3) by (simp add: get_slot_time_def Let_def)
  qed
qed

lemma first_slot:
  assumes "0 < block_interval s" "early s"
  shows "\<exists>t. get_slot_time 1 s = Inr t \<and> unat t = slot_origin s + unat (block_interval s)"
proof -
  have "slot_origin s + unat (1 :: 32 word) * unat (block_interval s) < 2 ^ 32"
    using slot_origin_bound [of s] assms(2) unat_lt8 [of "block_interval s"] by (simp add: early_def)
  from get_slot_time_nat [OF assms(1) _ this] show ?thesis by simp
qed

lemma get_slot_at_time_nat:
  assumes "0 < block_interval s" "early s"
  shows "get_slot_at_time when s = Inr (of_nat (if unat when < slot_origin s + unat (block_interval s) then 0
     else (unat when - slot_origin s) div unat (block_interval s)))"
proof -
  obtain t where t: "get_slot_time 1 s = Inr t" "unat t = slot_origin s + unat (block_interval s)"
    using first_slot [OF assms] by blast
  have iv: "0 < unat (block_interval s)" "block_interval s \<noteq> 0" using assms(1) by (auto simp: word_less_nat_alt)
  show ?thesis
  proof (cases "when < t")
    case True
    then show ?thesis using t by (simp add: get_slot_at_time_def word_less_nat_alt)
  next
    case False
    then have le: "t \<le> when" by simp
    then have le2: "slot_origin s + unat (block_interval s) \<le> unat when" using t(2) by (simp add: word_le_nat_alt)
    have "unat (when - t) = unat when - unat t" using le by (rule unat_sub)
    then have "(when - t) div ucast (block_interval s) = of_nat ((unat when - unat t) div unat (block_interval s))"
      by (simp add: word_arith_nat_div)
    moreover have "(unat when - unat t) div unat (block_interval s) + 1 = (unat when - slot_origin s) div unat (block_interval s)"
      using le2 iv(1) t(2) by (simp add: le_div_geq)
    ultimately have "(when - t) div ucast (block_interval s) + 1 = of_nat ((unat when - slot_origin s) div unat (block_interval s))"
      by (metis of_nat_1 of_nat_add)
    then show ?thesis using False t le2 iv(2) by (simp add: get_slot_at_time_def)
  qed
qed

lemma block_interval_pos: "0 < block_interval s \<Longrightarrow> 0 < unat (block_interval s)"
  by (simp add: word_less_nat_alt)

lemma slot_at_time:
  assumes "0 < block_interval s" "early s"
  shows "\<exists>k first. get_slot_at_time now s = Inr k \<and> get_slot_time 1 s = Inr first \<and> (k = 0 \<longleftrightarrow> now < first) \<and>
      (k \<noteq> 0 \<longrightarrow> (\<exists>t. get_slot_time k s = Inr t \<and> t \<le> now \<and> now - t < ucast (block_interval s)))"
proof -
  let ?B = "unat (block_interval s)" and ?o = "slot_origin s"
  have B: "0 < ?B" using assms(1) by (rule block_interval_pos)
  obtain f where f: "get_slot_time 1 s = Inr f" "unat f = ?o + ?B" using first_slot [OF assms] by blast
  have w: "unat now < 2 ^ 32" using unsigned_less [of now, where 'a = nat] by simp
  show ?thesis
  proof (cases "now < f")
    case True
    then have "unat now < ?o + ?B" using f(2) by (simp add: word_less_nat_alt)
    then show ?thesis using get_slot_at_time_nat [OF assms, of now] f(1) True by auto
  next
    case False
    then have le: "?o + ?B \<le> unat now" using f(2) by (simp add: word_less_nat_alt)
    let ?n = "(unat now - ?o) div ?B"
    have n1: "1 \<le> ?n" using le B by (simp add: div_greater_zero_iff Suc_le_eq)
    have "?n \<le> unat now" using div_le_dividend le_trans diff_le_self by blast
    then have un: "unat (of_nat ?n :: 32 word) = ?n" using w by (simp add: unat_of_nat)
    have tm: "?n * ?B + (unat now - ?o) mod ?B = unat now - ?o" by simp
    then have s: "?o + unat (of_nat ?n :: 32 word) * ?B \<le> unat now" "unat now < ?o + unat (of_nat ?n :: 32 word) * ?B + ?B"
      using le B mod_less_divisor [OF B, of "unat now - ?o"] unfolding un by linarith+
    have nz: "(of_nat ?n :: 32 word) \<noteq> 0" using n1 un by (metis not_one_le_zero unat_0)
    have "?o + unat (of_nat ?n :: 32 word) * ?B < 2 ^ 32" using s(1) w by (rule le_less_trans)
    then obtain t where t: "get_slot_time (of_nat ?n) s = Inr t" "unat t = ?o + unat (of_nat ?n :: 32 word) * ?B"
      using get_slot_time_nat [OF assms(1) nz] by blast
    have tw: "t \<le> now" using s(1) t(2) by (simp add: word_le_nat_alt)
    then have "unat (now - t) < ?B" using unat_sub [OF tw] s t(2) by linarith
    then have "now - t < ucast (block_interval s)" by (simp add: word_less_nat_alt)
    then show ?thesis
      using get_slot_at_time_nat [OF assms, of now] f(1) False nz t(1) tw le by auto
  qed
qed

lemma time_of_slot:
  assumes "0 < block_interval s" "early s" "slot \<noteq> 0" "slot_origin s + unat slot * unat (block_interval s) < 2 ^ 32"
    and "get_slot_time slot s = Inr t"
  shows "get_slot_at_time t s = Inr slot"
proof -
  let ?B = "unat (block_interval s)"
  have B: "0 < ?B" using assms(1) by (rule block_interval_pos)
  have t: "unat t = slot_origin s + unat slot * ?B" using get_slot_time_nat [OF assms(1,3,4)] assms(5) by simp
  have "1 \<le> unat slot" using assms(3) by (simp add: Suc_le_eq unat_gt_0)
  then have "?B \<le> unat slot * ?B" by simp
  then show ?thesis using get_slot_at_time_nat [OF assms(1,2), of t] t B by simp
qed

text \<open>C8. Slots partition time: every time from the first slot on lies in the slot that \<open>get_slot_at_time\<close>
  returns, less than an interval after its \<open>get_slot_time\<close>; earlier times get slot 0; and \<open>get_slot_at_time\<close> takes the
  time of a slot back to its number.  This holds across a maintenance gap, as long as the times do not reach the end
  of the 32-bit range.\<close>

theorem slots_partition_time:
  assumes "0 < block_interval s" "early s"
  shows "(\<exists>k first. get_slot_at_time now s = Inr k \<and> get_slot_time 1 s = Inr first \<and> (k = 0 \<longleftrightarrow> now < first) \<and>
      (k \<noteq> 0 \<longrightarrow> (\<exists>t. get_slot_time k s = Inr t \<and> t \<le> now \<and> now - t < ucast (block_interval s)))) \<and>
    (slot \<noteq> 0 \<longrightarrow> slot_origin s + unat slot * unat (block_interval s) < 2 ^ 32 \<longrightarrow>
      (\<exists>t. get_slot_time slot s = Inr t \<and> get_slot_at_time t s = Inr slot))"
proof (rule conjI [OF slot_at_time [OF assms]], intro impI)
  assume s: "slot \<noteq> 0" "slot_origin s + unat slot * unat (block_interval s) < 2 ^ 32"
  then obtain t where "get_slot_time slot s = Inr t" using get_slot_time_nat [OF assms(1)] by blast
  then show "\<exists>t. get_slot_time slot s = Inr t \<and> get_slot_at_time t s = Inr slot" using time_of_slot [OF assms s] by blast
qed

subsection \<open>The shuffle\<close>

lemma swap_at_props: "i < length xs \<Longrightarrow> j < length xs \<Longrightarrow> length (swap_at i j xs) = length xs \<and> mset (swap_at i j xs) = mset xs"
  using mset_swap [of j xs i] by (simp add: swap_at_def)

lemma shuffle_step_props:
  "i < length ws \<Longrightarrow> length (shuffle_step h i ws) = length ws \<and> mset (shuffle_step h i ws) = mset ws"
proof -
  assume i: "i < length ws"
  then have "unat (xorshift h i) mod (length ws - i) < length ws - i" by simp
  then have "i + unat (xorshift h i) mod (length ws - i) < length ws" by linarith
  then show ?thesis using swap_at_props [OF i] by (simp add: shuffle_step_def Let_def)
qed

lemma shuffle_permutes: "length (shuffle_witnesses h ws) = length ws \<and> mset (shuffle_witnesses h ws) = mset ws"
proof -
  have "length (fold (shuffle_step h) is ws) = length ws \<and> mset (fold (shuffle_step h) is ws) = mset ws"
    if "set is \<subseteq> {..<length ws}" for "is"
    using that
  proof (induction "is" rule: rev_induct)
    case (snoc i js)
    then show ?case using shuffle_step_props [of i "fold (shuffle_step h) js ws" h] by simp
  qed simp
  from this [of "[0..<length ws]"] show ?thesis by (simp add: shuffle_witnesses_def subset_iff)
qed

lemma mset_rotate: "mset (rotate n xs) = mset xs"
proof -
  have "mset (rotate n xs) = mset (drop (n mod length xs) xs) + mset (take (n mod length xs) xs)"
    by (simp add: rotate_drop_take)
  also have "\<dots> = mset (take (n mod length xs) xs @ drop (n mod length xs) xs)"
    by (simp only: mset_append add.commute)
  finally show ?thesis by simp
qed

lemma scheduled_nat:
  assumes "current_shuffled_witnesses s \<noteq> []" "unat (current_aslot s) + n < 2 ^ 64" "n < 2 ^ 32"
  shows "get_scheduled_witness (of_nat n) s =
    Inr (current_shuffled_witnesses s ! ((unat (current_aslot s) + n) mod length (current_shuffled_witnesses s)))"
proof -
  have n: "unat (of_nat n :: 32 word) = n" using assms(3) by (simp add: unat_of_nat)
  have "unat (ucast (of_nat n :: 32 word) :: 64 word) = n"
    using assms(3) n by (simp add: unsigned_ucast_eq take_bit_nat_eq_self_iff)
  then have "unat (current_aslot s + ucast (of_nat n :: 32 word)) = unat (current_aslot s) + n"
    using assms(2) by (simp add: unat_word_ariths)
  then show ?thesis using assms(1) by (simp add: get_scheduled_witness_def)
qed

text \<open>C15. When the schedule is renewed, every round of as many consecutive slots as there are active witnesses
  schedules each of them once: the shuffle loses and repeats nobody, wherever the round starts.\<close>

theorem schedule_is_fair:
  assumes "update_witness_schedule s = Inr s'" "unat (head_block_number s) mod length (active_witnesses s) = 0"
    and "m + length (active_witnesses s) \<le> 2 ^ 32" "unat (current_aslot s) + m + length (active_witnesses s) \<le> 2 ^ 64"
  shows "\<exists>ws. mset ws = mset (active_witnesses s) \<and>
    (\<forall>k < length (active_witnesses s). get_scheduled_witness (of_nat (m + k)) s' = Inr (ws ! k))"
proof -
  let ?sh = "shuffle_witnesses (push_bit 32 (ucast (time s))) (active_witnesses s)" and ?N = "length (active_witnesses s)"
  have s': "s' = s\<lparr>current_shuffled_witnesses := ?sh\<rparr>" "?N \<noteq> 0"
    using assms(1,2) by (auto simp: update_witness_schedule_def Let_def split: if_split_asm)
  note sh = shuffle_permutes [of "push_bit 32 (ucast (time s))" "active_witnesses s"]
  have ne: "?sh \<noteq> []" using sh s'(2) by (metis length_0_conv)
  have "get_scheduled_witness (of_nat (m + k)) s' = Inr (rotate (unat (current_aslot s) + m) ?sh ! k)" if "k < ?N" for k
    using scheduled_nat [of s' "m + k"] that assms(3,4) s'(1) ne sh by (simp add: nth_rotate add.assoc)
  then show ?thesis using sh by (intro exI [of _ "rotate (unat (current_aslot s) + m) ?sh"]) (simp add: mset_rotate)
qed

text \<open>A block moves the schedule on by the slots it takes.\<close>

lemma schedule_moves:
  assumes "update_global_dynamic_data sha224 b missed s = Inr (mx, s')" "current_shuffled_witnesses s \<noteq> []"
    and "unat missed + 1 + n < 2 ^ 32" "unat (current_aslot s) + unat missed + 1 + n < 2 ^ 64"
  shows "get_scheduled_witness (of_nat n) s' = get_scheduled_witness (of_nat (unat missed + 1 + n)) s"
proof -
  have s': "current_aslot s' = current_aslot s + ucast (missed + 1)" "current_shuffled_witnesses s' = current_shuffled_witnesses s"
    using assms(1) by (auto simp: update_global_dynamic_data_def Let_def split: if_split_asm)
  have u: "unat (missed + 1) = unat missed + 1" using assms(3) by (simp add: unat_word_ariths)
  have "unat (ucast (missed + 1) :: 64 word) = unat missed + 1"
    using assms(3) u by (simp add: unsigned_ucast_eq take_bit_nat_eq_self_iff)
  then have a: "unat (current_aslot s') = unat (current_aslot s) + unat missed + 1"
    using assms(4) s'(1) by (simp add: unat_word_ariths)
  show ?thesis
    using scheduled_nat [of s' n] scheduled_nat [of s "unat missed + 1 + n"] assms(2-4) a s'(2) by (simp add: add.assoc)
qed

text \<open>The pay of the signing witness moves from the budget into a vesting balance.\<close>

lemma signing_pay:
  assumes "update_signing_witness wit b s c = Inr (s', c')"
  shows "shifts c c' (\<lambda>a. core_share a (witness_budget s - witness_budget s'))"
proof -
  let ?pay = "min (witness_pay_per_block s) (witness_budget s)"
  obtain slot budget c1 r where p: "safe_sub (witness_budget s) ?pay = Inr budget" "deposit_witness_pay wit ?pay c = Inr c1"
    and e: "s' = s\<lparr>witness_budget := budget, witness_records := tput wit (r\<lparr>last_aslot := current_aslot s + ucast (slot :: 32 word),
      last_confirmed_block_num := block_num b\<rparr>) (witness_records s)\<rparr>" "c' = c1"
    using assms unfolding update_signing_witness_def Let_def bindE_eq_Inr sum.inject prod.inject by blast
  have "budget = witness_budget s - ?pay" using p(1) by (simp only: safe_sub_Inr)
  then have "witness_budget s - witness_budget s' = ?pay" using e(1) by simp
  then show ?thesis using deposit_witness_pay_shifts [OF p(2)] e(2) by (simp only:)
qed

subsection \<open>The irreversible block\<close>

lemma sorted_count_ge:
  fixes ss :: "'a::linorder list"
  assumes "sorted ss" "n < length ss"
  shows "length ss - n \<le> length (filter (\<lambda>c. ss ! n \<le> c) ss)"
proof -
  have "ss ! n \<le> c" if "c \<in> set (drop n ss)" for c
  proof -
    obtain i where "i < length (drop n ss)" "c = drop n ss ! i" using \<open>c \<in> _\<close> by (metis in_set_conv_nth)
    then show ?thesis using assms sorted_nth_mono [of ss n "n + i"] by simp
  qed
  then have "filter (\<lambda>c. ss ! n \<le> c) (drop n ss) = drop n ss" by (simp add: filter_id_conv)
  then have "length (drop n ss) \<le> length (filter (\<lambda>c. ss ! n \<le> c) (take n ss @ drop n ss))" by (simp only: filter_append length_append)
  then show ?thesis by simp
qed

lemma sorted_count_gt:
  fixes ss :: "'a::linorder list"
  assumes "sorted ss" "n < length ss" "ss ! n < v"
  shows "length (filter (\<lambda>c. v \<le> c) ss) < length ss - n"
proof -
  have "c < v" if "c \<in> set (take (Suc n) ss)" for c
  proof -
    obtain i where "i < length (take (Suc n) ss)" "c = take (Suc n) ss ! i" using \<open>c \<in> _\<close> by (metis in_set_conv_nth)
    then have "i \<le> n" "c = ss ! i" by simp_all
    then show ?thesis using assms sorted_nth_mono [of ss i n] by simp
  qed
  then have e: "filter (\<lambda>c. v \<le> c) (take (Suc n) ss) = []" by (auto simp: filter_empty_conv not_le)
  have "filter (\<lambda>c. v \<le> c) ss = filter (\<lambda>c. v \<le> c) (take (Suc n) ss @ drop (Suc n) ss)" by simp
  also have "\<dots> = filter (\<lambda>c. v \<le> c) (drop (Suc n) ss)" by (simp only: filter_append e append_Nil)
  also have "length \<dots> \<le> length (drop (Suc n) ss)" by (rule length_filter_le)
  finally show ?thesis using assms(2) by simp
qed

text \<open>How many witnesses have confirmed a block number.\<close>

definition confirmations :: "32 word list \<Rightarrow> 32 word \<Rightarrow> nat" where
  "confirmations ns v = length (filter (\<lambda>c. v \<le> c) ns)"

lemma confirmations_sort: "confirmations (sort ns) v = confirmations ns v"
  by (simp add: confirmations_def filter_sort)

lemma offset_bounds: "0 < n \<Longrightarrow> irreversible_offset n < n \<and> 7 * n \<le> 10 * (n - irreversible_offset n)"
proof -
  assume n: "0 < n"
  have e: "irreversible_offset n = 3000 * n div 10000"
    by (simp add: irreversible_offset_def IRREVERSIBLE_THRESHOLD_def PERCENT_100_def PERCENT_1_def)
  have "3000 * n div 10000 * 10000 \<le> 3000 * n" by (rule div_times_less_eq_dividend)
  then show ?thesis unfolding e using n by linarith
qed

lemma confirmed_numbers_length: "confirmed_numbers s = Inr ns \<Longrightarrow> length ns = length (active_witnesses s)"
proof -
  have "length ns' = length as + length ws" if "foldE (\<lambda>w ns. bindE (tget (witness_records s) w) (\<lambda>r. Inr (ns @ [last_confirmed_block_num r])))
     ws as = Inr ns'" for ws as ns'
    using that by (induction ws arbitrary: as) (auto simp: bindE_eq_Inr)
  from this [of "active_witnesses s" "[]"] show "confirmed_numbers s = Inr ns \<Longrightarrow> length ns = length (active_witnesses s)"
    by (simp add: confirmed_numbers_def)
qed

text \<open>C22. The last irreversible block never goes back; it is moved to a number that at least 70 percent of the active
  witnesses have confirmed; and no greater number is confirmed by more witnesses than the 70 percent, rounded up,
  less one.\<close>

theorem irreversible_block:
  assumes "update_last_irreversible_block s = Inr s'" "confirmed_numbers s = Inr ns"
  shows "last_irreversible_block_num s \<le> last_irreversible_block_num s' \<and>
    s' = s\<lparr>last_irreversible_block_num := last_irreversible_block_num s'\<rparr> \<and>
    (last_irreversible_block_num s < last_irreversible_block_num s' \<longrightarrow>
      7 * length (active_witnesses s) \<le> 10 * confirmations ns (last_irreversible_block_num s')) \<and>
    (\<forall>v > last_irreversible_block_num s'.
      confirmations ns v < length (active_witnesses s) - irreversible_offset (length (active_witnesses s)))"
proof -
  let ?n = "length ns" and ?new = "sort ns ! irreversible_offset (length ns)"
  have ne: "ns \<noteq> []" and s': "s' = (if last_irreversible_block_num s < ?new then s\<lparr>last_irreversible_block_num := ?new\<rparr> else s)"
    using assms by (auto simp: update_last_irreversible_block_def Let_def split: if_split_asm)
  have o: "irreversible_offset ?n < ?n" "7 * ?n \<le> 10 * (?n - irreversible_offset ?n)"
    using offset_bounds [of ?n] ne by auto
  have len: "length (active_witnesses s) = ?n" using confirmed_numbers_length [OF assms(2)] by simp
  have ge: "?n - irreversible_offset ?n \<le> confirmations ns ?new"
    using sorted_count_ge [of "sort ns" "irreversible_offset ?n"] o(1) confirmations_sort [of ns] by (simp add: confirmations_def)
  have gt: "confirmations ns v < ?n - irreversible_offset ?n" if "?new < v" for v
    using sorted_count_gt [of "sort ns" "irreversible_offset ?n" v] o(1) confirmations_sort [of ns] that by (simp add: confirmations_def)
  show ?thesis
  proof (cases "last_irreversible_block_num s < ?new")
    case True
    then show ?thesis using s' ge gt o len by auto
  next
    case False
    then show ?thesis using s' gt len by auto
  qed
qed

subsection \<open>A concrete schedule\<close>

definition demo_schedule :: schedule where
  "demo_schedule = \<lparr>head_block_number = 6, head_block_id = null_id, time = 1003, current_witness = 0, witness_budget = 100,
     recently_missed_count = 0, current_aslot = 20, recent_slots_filled = u128_of_int 0, dynamic_flags = 1,
     last_irreversible_block_num = 2, block_interval = 5, maintenance_skip_slots = 3, witness_pay_per_block = 10,
     active_witnesses = [1, 2, 5], current_shuffled_witnesses = [1, 2, 5],
     witness_records = [(1, \<lparr>last_aslot = 18, total_missed = 0, last_confirmed_block_num = 4\<rparr>),
       (2, \<lparr>last_aslot = 19, total_missed = 0, last_confirmed_block_num = 5\<rparr>),
       (5, \<lparr>last_aslot = 20, total_missed = 1, last_confirmed_block_num = 6\<rparr>)],
     last_checkpoint = None, skip_undo_check = False\<rparr>"

theorem slots_partition_time_witness:
  "(\<exists>k first. get_slot_at_time 1031 demo_schedule = Inr k \<and> get_slot_time 1 demo_schedule = Inr first \<and> (k = 0 \<longleftrightarrow> 1031 < first)) \<and>
   (\<exists>t. get_slot_time 7 demo_schedule = Inr t \<and> get_slot_at_time t demo_schedule = Inr 7)"
proof -
  have p: "0 < block_interval demo_schedule" "early demo_schedule" by (simp_all add: demo_schedule_def early_def)
  have "slot_origin demo_schedule + unat (7 :: 32 word) * unat (block_interval demo_schedule) < 2 ^ 32"
    by (simp add: demo_schedule_def slot_origin_def maintenance_flag_def)
  with slots_partition_time [OF p, of "1031" "7"] show ?thesis by auto
qed

theorem schedule_is_fair_witness:
  "\<exists>s' ws. update_witness_schedule demo_schedule = Inr s' \<and> mset ws = mset [1, 2, 5] \<and>
     (\<forall>k < 3. get_scheduled_witness (of_nat (1 + k)) s' = Inr (ws ! k))"
proof -
  have l: "length (active_witnesses demo_schedule) = 3" "unat (head_block_number demo_schedule) = 6"
    "active_witnesses demo_schedule = [1, 2, 5]" "unat (current_aslot demo_schedule) = 20"
    by (simp_all add: demo_schedule_def)
  obtain s' where r: "update_witness_schedule demo_schedule = Inr s'" by (simp add: update_witness_schedule_def l)
  have "\<exists>ws. mset ws = mset (active_witnesses demo_schedule) \<and> (\<forall>k < 3. get_scheduled_witness (of_nat (1 + k)) s' = Inr (ws ! k))"
    using schedule_is_fair [OF r, of 1] by (simp add: l(1,2,4))
  with r show ?thesis unfolding l(3) by blast
qed

theorem irreversible_block_witness:
  "\<exists>s'. update_last_irreversible_block demo_schedule = Inr s' \<and> last_irreversible_block_num s' = 4 \<and>
     7 * 3 \<le> 10 * confirmations [4, 5, 6] 4"
proof -
  have r: "update_last_irreversible_block demo_schedule = Inr (demo_schedule\<lparr>last_irreversible_block_num := 4\<rparr>)" by code_simp
  have n: "confirmed_numbers demo_schedule = Inr [4, 5, 6]" by code_simp
  have "last_irreversible_block_num demo_schedule < 4" "length (active_witnesses demo_schedule) = 3" by (simp_all add: demo_schedule_def)
  with irreversible_block [OF r n] r show ?thesis by simp
qed

end
