(* ===== verification/Feeds.thy ===== *)
theory Feeds
  imports Margin "HOL-Library.Multiset"
begin

text \<open>
  The current feed of a bitasset: \<open>asset_bitasset_data_object::update_median_feeds\<close> of
  \<open>chain/asset_object.cpp\<close>, the expiration of feeds in \<open>asset_object.hpp\<close>, and the proof that the new feed
  is a median of the live ones, field by field.  \<open>std::nth_element\<close> rearranges its range; which of several
  equivalent elements it puts at the position asked for is not specified, so it is a parameter.
\<close>

type_synonym nth_element = "(price_feed \<Rightarrow> price_feed \<Rightarrow> bool) \<Rightarrow> nat \<Rightarrow> price_feed list \<Rightarrow> price_feed list"

text \<open>The orders that the four selections use.\<close>

definition by_settlement_price :: "price_feed \<Rightarrow> price_feed \<Rightarrow> bool" where
  "by_settlement_price a b = price_less (pf_settlement_price a) (pf_settlement_price b)"

definition by_maintenance_ratio :: "price_feed \<Rightarrow> price_feed \<Rightarrow> bool" where
  "by_maintenance_ratio a b \<longleftrightarrow> pf_maintenance_collateral_ratio a < pf_maintenance_collateral_ratio b"

definition by_squeeze_ratio :: "price_feed \<Rightarrow> price_feed \<Rightarrow> bool" where
  "by_squeeze_ratio a b \<longleftrightarrow> pf_maximum_short_squeeze_ratio a < pf_maximum_short_squeeze_ratio b"

definition by_exchange_rate :: "price_feed \<Rightarrow> price_feed \<Rightarrow> bool" where
  "by_exchange_rate a b = price_less (pf_core_exchange_rate a) (pf_core_exchange_rate b)"

text \<open>The feeds that are alive: published within the lifetime, and published at all.  The difference of two
  times is signed.\<close>

definition feed_alive :: "nat \<Rightarrow> nat \<Rightarrow> nat \<times> nat \<times> price_feed \<Rightarrow> bool" where
  "feed_alive lifetime now e \<longleftrightarrow> int now - int (fst (snd e)) < int lifetime \<and> fst (snd e) \<noteq> 0"

definition live_feeds :: "nat \<Rightarrow> bitasset_data \<Rightarrow> (nat \<times> nat \<times> price_feed) list" where
  "live_feeds now b = filter (feed_alive (ba_feed_lifetime_sec b) now) (ba_feeds b)"

definition median_feed :: "nth_element \<Rightarrow> price_feed list \<Rightarrow> price_feed" where
  "median_feed select fs =
     (let k = length fs div 2;
          fs1 = select by_settlement_price k fs;
          fs2 = select by_maintenance_ratio k fs1;
          fs3 = select by_squeeze_ratio k fs2;
          fs4 = select by_exchange_rate k fs3
      in \<lparr>pf_settlement_price = pf_settlement_price (fs1 ! k),
          pf_core_exchange_rate = pf_core_exchange_rate (fs4 ! k),
          pf_maintenance_collateral_ratio = pf_maintenance_collateral_ratio (fs2 ! k),
          pf_maximum_short_squeeze_ratio = pf_maximum_short_squeeze_ratio (fs3 ! k)\<rparr>)"

definition set_current_feed :: "price_feed \<Rightarrow> bitasset_data \<Rightarrow> bitasset_data" where
  "set_current_feed f b =
     b\<lparr>ba_feed_cer_updated := ba_feed_cer_updated b \<or>
          \<not> price_eq (pf_core_exchange_rate (ba_current_feed b)) (pf_core_exchange_rate f),
       ba_current_feed := f\<rparr>"

definition update_median_feeds :: "nth_element \<Rightarrow> nat \<Rightarrow> bitasset_data \<Rightarrow> bitasset_data result" where
  "update_median_feeds select now b =
     (let live = live_feeds now b;
          fs = map (\<lambda>e. snd (snd e)) live;
          b1 = b\<lparr>ba_current_feed_publication_time := foldl (\<lambda>t e. min t (fst (snd e))) now live\<rparr>
      in if length fs < ba_minimum_feeds b
         then Inr (b1\<lparr>ba_feed_cer_updated := False, ba_current_feed_publication_time := now,
                      ba_current_feed := default_price_feed\<rparr>)
         else if length fs = 1 then Inr (set_current_feed (hd fs) b1)
         else if fs = [] then Inl UndefinedBehaviour
         else Inr (set_current_feed (median_feed select fs) b1))"

text \<open>The expiration of the current feed; times are 32-bit seconds.\<close>

definition feed_expiration_time :: "bitasset_data \<Rightarrow> nat" where
  "feed_expiration_time b =
     (if 4294967295 - ba_current_feed_publication_time b \<le> ba_feed_lifetime_sec b then 4294967295
      else ba_current_feed_publication_time b + ba_feed_lifetime_sec b)"

definition feed_is_expired :: "nat \<Rightarrow> bitasset_data \<Rightarrow> bool" where
  "feed_is_expired now b \<longleftrightarrow> feed_expiration_time b \<le> now"

definition feed_is_expired_before_615 :: "nat \<Rightarrow> bitasset_data \<Rightarrow> bool" where
  "feed_is_expired_before_615 now b \<longleftrightarrow> now \<le> feed_expiration_time b"

subsection \<open>What the standard library promises\<close>

text \<open>\<open>std::nth_element\<close> permutes its range; when the order is a strict weak order on it, nothing before the
  position is greater than the element there and nothing after it is less.\<close>

definition nth_element_spec :: "nth_element \<Rightarrow> bool" where
  "nth_element_spec select \<longleftrightarrow> (\<forall>lt k xs. mset (select lt k xs) = mset xs \<and>
     (k < length xs \<and> strict_weak_order (\<lambda>f. f \<in> set xs) lt \<longrightarrow>
        (\<forall>i < k. \<not> lt (select lt k xs ! k) (select lt k xs ! i)) \<and>
        (\<forall>i < length xs. k < i \<longrightarrow> \<not> lt (select lt k xs ! i) (select lt k xs ! k))))"

lemma nth_element_set: "nth_element_spec select \<Longrightarrow> set (select lt k xs) = set xs"
  unfolding nth_element_spec_def by (metis set_mset_mset)

lemma nth_element_length: "nth_element_spec select \<Longrightarrow> length (select lt k xs) = length xs"
  unfolding nth_element_spec_def by (metis size_mset)

text \<open>A median of a list: at most half of it is less, and fewer than half greater.\<close>

definition is_median :: "('a \<Rightarrow> 'a \<Rightarrow> bool) \<Rightarrow> 'a list \<Rightarrow> 'a \<Rightarrow> bool" where
  "is_median lt xs m \<longleftrightarrow> 2 * length (filter (\<lambda>x. lt x m) xs) \<le> length xs \<and>
     2 * length (filter (\<lambda>x. lt m x) xs) < length xs"

lemma count_below:
  assumes "\<And>i. i < length xs \<Longrightarrow> P (xs ! i) \<Longrightarrow> i \<in> A" "finite A"
  shows "length (filter P xs) \<le> card A"
  unfolding length_filter_conv_card using assms by (intro card_mono) auto

lemma nth_element_median:
  assumes "nth_element_spec select" "strict_weak_order (\<lambda>f. f \<in> set xs) lt" "xs \<noteq> []"
  shows "is_median lt xs (select lt (length xs div 2) xs ! (length xs div 2))"
proof -
  let ?k = "length xs div 2" let ?ys = "select lt ?k xs" let ?m = "?ys ! ?k"
  have k: "?k < length xs" using assms(3) by (simp add: div_less_dividend)
  have len: "length ?ys = length xs" using assms(1) by (rule nth_element_length)
  have sp: "\<And>i. i < ?k \<Longrightarrow> \<not> lt ?m (?ys ! i)" "\<And>i. i < length xs \<Longrightarrow> ?k < i \<Longrightarrow> \<not> lt (?ys ! i) ?m"
    using assms(1,2) k unfolding nth_element_spec_def by blast+
  have m: "?m \<in> set xs" using k len nth_element_set [OF assms(1), of lt ?k xs] by (metis nth_mem)
  have irr: "\<not> lt ?m ?m" using assms(2) m by (rule strict_weak_order.irrefl)
  have perm: "length (filter P xs) = length (filter P ?ys)" for P
    using assms(1) unfolding nth_element_spec_def by (metis mset_filter size_mset)
  have lt: "length (filter (\<lambda>x. lt x ?m) ?ys) \<le> card {..<?k}"
    by (rule count_below) (use sp(2) irr len in \<open>auto simp: lessThan_iff not_le intro: ccontr\<close>, metis linorder_neqE_nat)
  have "length (filter (\<lambda>x. lt ?m x) ?ys) \<le> card {?k <..< length xs}"
    by (rule count_below) (use sp(1) irr len in \<open>auto\<close>, metis linorder_neqE_nat)
  then have gt: "length (filter (\<lambda>x. lt ?m x) ?ys) \<le> length xs - Suc ?k" by simp
  show ?thesis unfolding is_median_def perm using lt [unfolded card_lessThan] gt k by (intro conjI; linarith)
qed

text \<open>Prices that are valid or null are ordered: a null price has a market of its own.\<close>

definition nullable_price :: "price \<Rightarrow> bool" where
  "nullable_price p \<longleftrightarrow> valid_price p \<or> p = null_price"

lemma null_price_less:
  "valid_price p \<Longrightarrow> price_less null_price p" "valid_price p \<Longrightarrow> \<not> price_less p null_price"
  "\<not> price_less null_price null_price"
  by (auto simp: price_less_def null_price_def valid_price_def CORE_def)

interpretation nullable_order: strict_weak_order nullable_price price_less
proof unfold_locales
  show "\<not> price_less p p" if "nullable_price p" for p
    using that null_price_less(3) price_order.irrefl unfolding nullable_price_def by blast
  show "price_less p r" if "nullable_price p" "nullable_price q" "nullable_price r" "price_less p q" "price_less q r" for p q r
    using that null_price_less(1,2) [of p] null_price_less(1,2) [of q] null_price_less(1,2) [of r] null_price_less(3) price_order.trans [of p q r]
    unfolding nullable_price_def by blast
  show "price_less p q \<or> price_less q r" if "nullable_price p" "nullable_price q" "nullable_price r" "price_less p r" for p q r
    using that null_price_less(1,2) [of p] null_price_less(1,2) [of q] null_price_less(1,2) [of r] null_price_less(3) price_order.neg_trans [of p q r]
    unfolding nullable_price_def by blast
qed

lemma is_median_map: "is_median (\<lambda>a b. lt (g a) (g b)) xs m \<longleftrightarrow> is_median lt (map g xs) (g m)"
  by (simp add: is_median_def filter_map o_def)

lemma is_median_perm: "mset xs = mset ys \<Longrightarrow> is_median lt xs m \<longleftrightarrow> is_median lt ys m"
  unfolding is_median_def by (metis mset_filter size_mset)

lemma median_of_field:
  assumes "nth_element_spec select" "mset ys = mset fs" "fs \<noteq> []"
    and "strict_weak_order (\<lambda>x. x \<in> g ` set fs) lt"
  shows "is_median lt (map g fs) (g (select (\<lambda>a b. lt (g a) (g b)) (length fs div 2) ys ! (length fs div 2)))"
proof -
  have l: "length ys = length fs" "set ys = set fs" using assms(2) by (metis size_mset, metis set_mset_mset)
  have "strict_weak_order (\<lambda>x. x \<in> set ys) (\<lambda>a b. lt (g a) (g b))"
    using assms(4) unfolding strict_weak_order_def l(2) by blast
  moreover have "ys \<noteq> []" using l(1) assms(3) by auto
  ultimately have "is_median (\<lambda>a b. lt (g a) (g b)) ys (select (\<lambda>a b. lt (g a) (g b)) (length ys div 2) ys ! (length ys div 2))"
    by (rule nth_element_median [OF assms(1)])
  then show ?thesis
    unfolding l(1) is_median_map using is_median_perm [of "map g ys" "map g fs" lt] assms(2) by simp
qed

lemma median_feed_medians:
  assumes "nth_element_spec select" "fs \<noteq> []"
    and "\<And>f. f \<in> set fs \<Longrightarrow> nullable_price (pf_settlement_price f) \<and> nullable_price (pf_core_exchange_rate f)"
  shows "is_median price_less (map pf_settlement_price fs) (pf_settlement_price (median_feed select fs))"
    and "is_median price_less (map pf_core_exchange_rate fs) (pf_core_exchange_rate (median_feed select fs))"
    and "is_median (<) (map pf_maintenance_collateral_ratio fs) (pf_maintenance_collateral_ratio (median_feed select fs))"
    and "is_median (<) (map pf_maximum_short_squeeze_ratio fs) (pf_maximum_short_squeeze_ratio (median_feed select fs))"
proof -
  have perm: "mset (select lt k ys) = mset ys" for lt k ys using assms(1) unfolding nth_element_spec_def by blast
  have price: "strict_weak_order (\<lambda>p. p \<in> g ` set fs) price_less" if "\<And>f. f \<in> set fs \<Longrightarrow> nullable_price (g f)" for g
    using that nullable_order.irrefl nullable_order.trans nullable_order.neg_trans
    unfolding strict_weak_order_def by blast
  have ratio: "strict_weak_order (\<lambda>x. x \<in> g ` set fs) (<)" for g :: "price_feed \<Rightarrow> int"
    by unfold_locales auto
  note med = median_of_field [OF assms(1) _ assms(2)]
  note defs = median_feed_def Let_def price_feed.select_convs
  show "is_median price_less (map pf_settlement_price fs) (pf_settlement_price (median_feed select fs))"
    unfolding defs by (rule med [where g = pf_settlement_price, OF _ price, folded by_settlement_price_def [abs_def]]) (use assms(3) in simp_all)
  show "is_median price_less (map pf_core_exchange_rate fs) (pf_core_exchange_rate (median_feed select fs))"
    unfolding defs by (rule med [where g = pf_core_exchange_rate, OF _ price, folded by_exchange_rate_def [abs_def]]) (use assms(3) perm in simp_all)
  show "is_median (<) (map pf_maintenance_collateral_ratio fs) (pf_maintenance_collateral_ratio (median_feed select fs))"
    unfolding defs by (rule med [where g = pf_maintenance_collateral_ratio, OF _ ratio, folded by_maintenance_ratio_def [abs_def]]) (use perm in simp_all)
  show "is_median (<) (map pf_maximum_short_squeeze_ratio fs) (pf_maximum_short_squeeze_ratio (median_feed select fs))"
    unfolding defs by (rule med [where g = pf_maximum_short_squeeze_ratio, OF _ ratio, folded by_squeeze_ratio_def [abs_def]]) (use perm in simp_all)
qed

lemma oldest_time: "foldl (\<lambda>t e. min t (fst (snd e))) (n::nat) xs = Min (insert n ((\<lambda>e. fst (snd e)) ` set xs))"
proof (induction xs arbitrary: n)
  case (Cons e xs)
  let ?T = "(\<lambda>e. fst (snd e)) ` set xs"
  have "Min (insert (min n (fst (snd e))) ?T) = Min (insert n (insert (fst (snd e)) ?T))"
    by (cases "?T = {}") (simp_all add: min.assoc)
  then show ?case using Cons by simp
qed simp

lemma oldest_time_alive:
  assumes "\<And>e. e \<in> set xs \<Longrightarrow> feed_alive lifetime now e" "xs \<noteq> []"
  shows "int now - int (foldl (\<lambda>t e. min t (fst (snd e))) now xs) < int lifetime \<or> lifetime = 0"
proof -
  let ?T = "insert now ((\<lambda>e. fst (snd e)) ` set xs)"
  have "Min ?T \<in> ?T" by (rule Min_in) simp_all
  then show ?thesis unfolding oldest_time using assms(1) by (auto simp: feed_alive_def)
qed

text \<open>An implementation of \<open>std::nth_element\<close>: sorting.\<close>

definition sorting_select :: nth_element where
  "sorting_select lt k xs = index_by lt xs"

lemma insert_by_mset: "mset (insert_by lt x xs) = add_mset x (mset xs)"
  by (induction xs) auto

lemma index_by_mset: "mset (index_by lt xs) = mset xs"
  unfolding index_by_def by (induction xs) (auto simp: insert_by_mset)

lemma insert_by_ordered:
  assumes "strict_weak_order V lt" "V x" "\<And>y. y \<in> set xs \<Longrightarrow> V y" "sorted_wrt (\<lambda>a b. \<not> lt b a) xs"
  shows "sorted_wrt (\<lambda>a b. \<not> lt b a) (insert_by lt x xs)"
  using assms(3,4)
proof (induction xs)
  case (Cons y ys)
  have set: "set (insert_by lt x ys) = insert x (set ys)"
    using insert_by_mset [of lt x ys] by (metis set_mset_add_mset_insert set_mset_mset)
  show ?case
  proof (cases "lt x y")
    case True
    have "\<not> lt z x" if "z \<in> set (y # ys)" for z
    proof
      assume "lt z x"
      then have "lt z y" by (rule strict_weak_order.trans [OF assms(1), of z x y, rotated 3])
        (use that True Cons.prems assms(2) in auto)
      then show False using that Cons.prems strict_weak_order.irrefl [OF assms(1), of y] by auto
    qed
    then show ?thesis using True Cons.prems by auto
  next
    case False
    then show ?thesis using Cons set by auto
  qed
qed simp

lemma index_by_ordered:
  assumes "strict_weak_order V lt" "\<And>y. y \<in> set xs \<Longrightarrow> V y"
  shows "sorted_wrt (\<lambda>a b. \<not> lt b a) (index_by lt xs)"
  unfolding index_by_def using assms(2)
proof (induction xs)
  case (Cons x xs)
  have "set (foldr (insert_by lt) xs []) = set xs"
    using index_by_mset [of lt xs] unfolding index_by_def by (metis set_mset_mset)
  then show ?case
    unfolding foldr.simps o_apply using Cons by (intro insert_by_ordered [OF assms(1)]) auto
qed simp

lemma sorting_select_spec: "nth_element_spec sorting_select"
  unfolding nth_element_spec_def sorting_select_def
proof (intro allI conjI impI)
  fix lt :: "price_feed \<Rightarrow> price_feed \<Rightarrow> bool" and k :: nat and xs
  show "mset (index_by lt xs) = mset xs" by (rule index_by_mset)
  then have len: "length (index_by lt xs) = length xs" by (metis size_mset)
  assume "k < length xs \<and> strict_weak_order (\<lambda>f. f \<in> set xs) lt"
  then have s: "sorted_wrt (\<lambda>a b. \<not> lt b a) (index_by lt xs)" "k < length xs"
    using index_by_ordered by blast+
  show "\<not> lt (index_by lt xs ! k) (index_by lt xs ! i)" if "i < k" for i
    using s that len by (auto simp: sorted_wrt_iff_nth_less)
  show "\<not> lt (index_by lt xs ! i) (index_by lt xs ! k)" if "i < length xs" "k < i" for i
    using s that len by (auto simp: sorted_wrt_iff_nth_less)
qed

text \<open>C21. The current feed: with fewer live feeds than the minimum it is the empty feed; otherwise each of
  its four fields is a median of that field over the live feeds, whichever equivalent feeds
  \<open>std::nth_element\<close> picks, it is as old as the oldest of them, and it is not expired.\<close>

theorem current_feed_is_median:
  assumes "nth_element_spec select" "update_median_feeds select now b = Inr b'" "fs = map (\<lambda>e. snd (snd e)) (live_feeds now b)"
    and "\<forall>f \<in> set fs. nullable_price (pf_settlement_price f) \<and> nullable_price (pf_core_exchange_rate f)"
    and "now < 4294967295" "0 < ba_feed_lifetime_sec b"
  shows "if length fs < ba_minimum_feeds b
    then ba_current_feed b' = default_price_feed \<and> ba_current_feed_publication_time b' = now
    else (let f = ba_current_feed b' in
        is_median price_less (map pf_settlement_price fs) (pf_settlement_price f) \<and>
        is_median price_less (map pf_core_exchange_rate fs) (pf_core_exchange_rate f) \<and>
        is_median (<) (map pf_maintenance_collateral_ratio fs) (pf_maintenance_collateral_ratio f) \<and>
        is_median (<) (map pf_maximum_short_squeeze_ratio fs) (pf_maximum_short_squeeze_ratio f)) \<and>
      ba_current_feed_publication_time b' = Min (insert now ((\<lambda>e. fst (snd e)) ` set (live_feeds now b))) \<and>
      \<not> feed_is_expired now b'"
proof (cases "length fs < ba_minimum_feeds b")
  case True
  then show ?thesis using assms(2,3) by (auto simp: update_median_feeds_def Let_def)
next
  case False
  let ?t = "foldl (\<lambda>t e. min t (fst (snd e))) now (live_feeds now b)"
  obtain f where ne: "fs \<noteq> []" and f: "f = (if length fs = 1 then hd fs else median_feed select fs)"
    and b': "b' = set_current_feed f (b\<lparr>ba_current_feed_publication_time := ?t\<rparr>)"
  proof (rule that)
    show "fs \<noteq> []" using assms(2) False unfolding update_median_feeds_def Let_def assms(3) [symmetric]
      by (cases fs) (simp_all split: if_splits)
    then show "b' = set_current_feed (if length fs = 1 then hd fs else median_feed select fs) (b\<lparr>ba_current_feed_publication_time := ?t\<rparr>)"
      using assms(2) False unfolding update_median_feeds_def Let_def assms(3) [symmetric] by (simp split: if_splits)
  qed (rule refl)
  have med: "is_median price_less (map pf_settlement_price fs) (pf_settlement_price f) \<and>
        is_median price_less (map pf_core_exchange_rate fs) (pf_core_exchange_rate f) \<and>
        is_median (<) (map pf_maintenance_collateral_ratio fs) (pf_maintenance_collateral_ratio f) \<and>
        is_median (<) (map pf_maximum_short_squeeze_ratio fs) (pf_maximum_short_squeeze_ratio f)"
  proof (cases "length fs = 1")
    case True
    then obtain x where "fs = [x]" by (metis One_nat_def length_0_conv length_Suc_conv)
    then show ?thesis using assms(4) f nullable_order.irrefl by (simp add: is_median_def)
  next
    case False
    then show ?thesis using median_feed_medians [OF assms(1) ne] assms(4) f by simp
  qed
  have "live_feeds now b \<noteq> []" using ne assms(3) by auto
  then have "int now - int ?t < int (ba_feed_lifetime_sec b)"
    using oldest_time_alive [of "live_feeds now b" "ba_feed_lifetime_sec b" now] assms(6) by (auto simp: live_feeds_def)
  then have "\<not> feed_is_expired now b'"
    using assms(5) by (auto simp: feed_is_expired_def feed_expiration_time_def b' set_current_feed_def)
  then show ?thesis using False med by (simp add: b' set_current_feed_def oldest_time)
qed

text \<open>Three publishers, one of whose feeds is stale, and a minimum of one feed.\<close>

definition demo_feeds :: bitasset_data where
  "demo_feeds = (snd (hd (bitassets demo_chain)))\<lparr>ba_feeds := map (\<lambda>(a, t, x). (a, t, default_price_feed
       \<lparr>pf_settlement_price := \<lparr>base = mk_asset 1 1, quote = mk_asset x 0\<rparr>,
        pf_core_exchange_rate := \<lparr>base = mk_asset 1 1, quote = mk_asset x 0\<rparr>\<rparr>))
     [(5, 90, 2), (6, 80, 3), (7, 95, 4), (8, 0, 9)]\<rparr>"

theorem current_feed_is_median_witness:
  "\<exists>b'. update_median_feeds sorting_select 100 demo_feeds = Inr b' \<and> \<not> feed_is_expired 100 b' \<and>
     is_median price_less (map (\<lambda>x. \<lparr>base = mk_asset 1 1, quote = mk_asset x 0\<rparr>) [2, 3, 4])
       (pf_settlement_price (ba_current_feed b'))"
proof -
  let ?fs = "map (\<lambda>e. snd (snd e)) (live_feeds 100 demo_feeds)"
  have "is_ok (update_median_feeds sorting_select 100 demo_feeds)" by code_simp
  then obtain b' where r: "update_median_feeds sorting_select 100 demo_feeds = Inr b'" unfolding is_ok_iff by blast
  have m: "ba_minimum_feeds demo_feeds = 1" "ba_feed_lifetime_sec demo_feeds = 100" "length ?fs = 3"
    "map pf_settlement_price ?fs = map (\<lambda>x. \<lparr>base = mk_asset 1 1, quote = mk_asset x 0\<rparr>) [2, 3, 4]"
    by code_simp+
  have "\<forall>f \<in> set ?fs. nullable_price (pf_settlement_price f) \<and> nullable_price (pf_core_exchange_rate f)"
    by (simp add: demo_feeds_def demo_chain_def live_feeds_def feed_alive_def nullable_price_def valid_price_def safe_max_def)
  from current_feed_is_median [OF sorting_select_spec r refl this] show ?thesis
    unfolding m using r by (simp add: Let_def)
qed

end
