(* ===== verification/Operation.thy ===== *)
theory Operation
  imports Chain_State
begin

text \<open>
  The operations whose evaluators are modelled, with their \<open>validate\<close> methods: transfers
  (\<open>chain/protocol/transfer.cpp\<close>), orders and positions (\<open>chain/protocol/market.cpp\<close>) and the operations on
  assets (\<open>chain/protocol/asset_ops.cpp\<close>).  A struct is a record of its members; memos and extensions that
  no evaluator reads are left out, the extension of \<open>call_order_update_operation\<close> is its one member.
\<close>

subsection \<open>Transfers\<close>

record transfer_operation =
  tr_fee :: asset
  tr_from :: nat
  tr_to :: nat
  tr_amount :: asset

definition transfer_validate :: "transfer_operation \<Rightarrow> unit result" where
  "transfer_validate p =
     assertE (0 \<le> amount (tr_fee p))
       (assertE (tr_from p \<noteq> tr_to p) (assertE (0 < amount (tr_amount p)) (Inr ())))"

record override_transfer_operation =
  ot_fee :: asset
  ot_issuer :: nat
  ot_from :: nat
  ot_to :: nat
  ot_amount :: asset

definition override_transfer_validate :: "override_transfer_operation \<Rightarrow> unit result" where
  "override_transfer_validate p =
     assertE (0 \<le> amount (ot_fee p))
       (assertE (ot_from p \<noteq> ot_to p)
         (assertE (0 < amount (ot_amount p)) (assertE (ot_issuer p \<noteq> ot_from p) (Inr ()))))"

subsection \<open>Orders and positions\<close>

record limit_order_create_operation =
  lc_fee :: asset
  lc_seller :: nat
  lc_amount_to_sell :: asset
  lc_min_to_receive :: asset
  lc_expiration :: nat
  lc_fill_or_kill :: bool

definition limit_order_create_validate :: "limit_order_create_operation \<Rightarrow> unit result" where
  "limit_order_create_validate p =
     assertE (asset_id (lc_amount_to_sell p) \<noteq> asset_id (lc_min_to_receive p))
       (assertE (0 \<le> amount (lc_fee p))
         (assertE (0 < amount (lc_amount_to_sell p)) (assertE (0 < amount (lc_min_to_receive p)) (Inr ()))))"

definition get_price :: "limit_order_create_operation \<Rightarrow> price result" where
  "get_price p = asset_div (lc_amount_to_sell p) (lc_min_to_receive p)"

record limit_order_cancel_operation =
  lx_fee :: asset
  lx_order :: nat
  lx_fee_paying_account :: nat

definition limit_order_cancel_validate :: "limit_order_cancel_operation \<Rightarrow> unit result" where
  "limit_order_cancel_validate p = assertE (0 \<le> amount (lx_fee p)) (Inr ())"

record call_order_update_operation =
  cu_fee :: asset
  cu_funding_account :: nat
  cu_delta_collateral :: asset
  cu_delta_debt :: asset
  cu_target_collateral_ratio :: "nat option"

definition call_order_update_validate :: "call_order_update_operation \<Rightarrow> unit result" where
  "call_order_update_validate p =
     assertE (0 \<le> amount (cu_fee p))
       (assertE (asset_id (cu_delta_collateral p) \<noteq> asset_id (cu_delta_debt p))
         (assertE (amount (cu_delta_collateral p) \<noteq> 0 \<or> amount (cu_delta_debt p) \<noteq> 0) (Inr ())))"

record bid_collateral_operation =
  bc_fee :: asset
  bc_bidder :: nat
  bc_additional_collateral :: asset
  bc_debt_covered :: asset

definition bid_collateral_validate :: "bid_collateral_operation \<Rightarrow> unit result" where
  "bid_collateral_validate p =
     assertE (0 \<le> amount (bc_fee p))
       (assertE (amount (bc_debt_covered p) = 0 \<or>
                 (0 < amount (bc_debt_covered p) \<and> 0 < amount (bc_additional_collateral p))) (Inr ()))"

subsection \<open>Operations on assets\<close>

record asset_issue_operation =
  ai_fee :: asset
  ai_issuer :: nat
  ai_asset_to_issue :: asset
  ai_issue_to_account :: nat

definition asset_issue_validate :: "asset_issue_operation \<Rightarrow> unit result" where
  "asset_issue_validate p =
     assertE (0 \<le> amount (ai_fee p))
       (assertE (amount (ai_asset_to_issue p) \<le> MAX_SHARE_SUPPLY)
         (assertE (0 < amount (ai_asset_to_issue p)) (assertE (asset_id (ai_asset_to_issue p) \<noteq> CORE) (Inr ()))))"

record asset_reserve_operation =
  rs_fee :: asset
  rs_payer :: nat
  rs_amount_to_reserve :: asset

definition asset_reserve_validate :: "asset_reserve_operation \<Rightarrow> unit result" where
  "asset_reserve_validate p =
     assertE (0 \<le> amount (rs_fee p))
       (assertE (amount (rs_amount_to_reserve p) \<le> MAX_SHARE_SUPPLY)
         (assertE (0 < amount (rs_amount_to_reserve p)) (Inr ())))"

record asset_fund_fee_pool_operation =
  fp_fee :: asset
  fp_from_account :: nat
  fp_asset_id :: asset_id_type
  fp_amount :: share

definition asset_fund_fee_pool_validate :: "asset_fund_fee_pool_operation \<Rightarrow> unit result" where
  "asset_fund_fee_pool_validate p =
     assertE (0 \<le> amount (fp_fee p))
       (assertE (asset_id (fp_fee p) = CORE) (assertE (0 < fp_amount p) (Inr ())))"

record asset_update_issuer_operation =
  ui_fee :: asset
  ui_issuer :: nat
  ui_asset_to_update :: asset_id_type
  ui_new_issuer :: nat

definition asset_update_issuer_validate :: "asset_update_issuer_operation \<Rightarrow> unit result" where
  "asset_update_issuer_validate p =
     assertE (0 \<le> amount (ui_fee p)) (assertE (ui_issuer p \<noteq> ui_new_issuer p) (Inr ()))"

record asset_global_settle_operation =
  gs_fee :: asset
  gs_issuer :: nat
  gs_asset_to_settle :: asset_id_type
  gs_settle_price :: price

definition asset_global_settle_validate :: "asset_global_settle_operation \<Rightarrow> unit result" where
  "asset_global_settle_validate p =
     assertE (0 \<le> amount (gs_fee p))
       (assertE (gs_asset_to_settle p = asset_id (base (gs_settle_price p))) (Inr ()))"

record asset_settle_operation =
  as_fee :: asset
  as_account :: nat
  as_amount :: asset

definition asset_settle_validate :: "asset_settle_operation \<Rightarrow> unit result" where
  "asset_settle_validate p = assertE (0 \<le> amount (as_fee p)) (assertE (0 \<le> amount (as_amount p)) (Inr ()))"

record asset_publish_feed_operation =
  pf_fee :: asset
  pf_publisher :: nat
  pf_asset_id :: asset_id_type
  pf_feed :: price_feed

definition asset_publish_feed_validate :: "asset_publish_feed_operation \<Rightarrow> unit result" where
  "asset_publish_feed_validate p =
     (let f = pf_feed p; sp = pf_settlement_price f; cer = pf_core_exchange_rate f
      in assertE (0 \<le> amount (pf_fee p))
           (bindE (price_feed_validate f) (\<lambda>_.
            bindE (if \<not> price_is_null cer then price_validate cer else Inr ()) (\<lambda>_.
            assertE (\<not> price_is_null sp \<and> \<not> price_is_null cer \<longrightarrow> asset_id (base sp) = asset_id (base cer))
              (assertE (\<not> price_is_null sp)
                (assertE (\<not> price_is_null cer)
                  (assertE (price_feed_is_for f (pf_asset_id p)) (Inr ()))))))))"

record asset_update_feed_producers_operation =
  fd_fee :: asset
  fd_issuer :: nat
  fd_asset_to_update :: asset_id_type
  fd_new_feed_producers :: "nat list"

definition asset_update_feed_producers_validate :: "asset_update_feed_producers_operation \<Rightarrow> unit result" where
  "asset_update_feed_producers_validate p = assertE (0 \<le> amount (fd_fee p)) (Inr ())"

record asset_claim_fees_operation =
  cf_fee :: asset
  cf_issuer :: nat
  cf_amount_to_claim :: asset

definition asset_claim_fees_validate :: "asset_claim_fees_operation \<Rightarrow> unit result" where
  "asset_claim_fees_validate p =
     assertE (0 \<le> amount (cf_fee p)) (assertE (0 < amount (cf_amount_to_claim p)) (Inr ()))"

record asset_claim_pool_operation =
  cp_fee :: asset
  cp_issuer :: nat
  cp_asset_id :: asset_id_type
  cp_amount_to_claim :: asset

definition asset_claim_pool_validate :: "asset_claim_pool_operation \<Rightarrow> unit result" where
  "asset_claim_pool_validate p =
     assertE (0 \<le> amount (cp_fee p))
       (assertE (asset_id (cp_fee p) \<noteq> cp_asset_id p)
         (assertE (0 < amount (cp_amount_to_claim p)) (assertE (asset_id (cp_amount_to_claim p) = CORE) (Inr ()))))"

subsection \<open>The variant\<close>

datatype protocol_operation =
    Transfer transfer_operation
  | OverrideTransfer override_transfer_operation
  | LimitOrderCreate limit_order_create_operation
  | LimitOrderCancelOp limit_order_cancel_operation
  | CallOrderUpdate call_order_update_operation
  | BidCollateralOp bid_collateral_operation
  | AssetIssue asset_issue_operation
  | AssetReserve asset_reserve_operation
  | AssetFundFeePool asset_fund_fee_pool_operation
  | AssetUpdateIssuer asset_update_issuer_operation
  | AssetGlobalSettle asset_global_settle_operation
  | AssetSettle asset_settle_operation
  | AssetPublishFeed asset_publish_feed_operation
  | AssetUpdateFeedProducers asset_update_feed_producers_operation
  | AssetClaimFees asset_claim_fees_operation
  | AssetClaimPool asset_claim_pool_operation

fun operation_validate :: "protocol_operation \<Rightarrow> unit result" where
  "operation_validate (Transfer p) = transfer_validate p"
| "operation_validate (OverrideTransfer p) = override_transfer_validate p"
| "operation_validate (LimitOrderCreate p) = limit_order_create_validate p"
| "operation_validate (LimitOrderCancelOp p) = limit_order_cancel_validate p"
| "operation_validate (CallOrderUpdate p) = call_order_update_validate p"
| "operation_validate (BidCollateralOp p) = bid_collateral_validate p"
| "operation_validate (AssetIssue p) = asset_issue_validate p"
| "operation_validate (AssetReserve p) = asset_reserve_validate p"
| "operation_validate (AssetFundFeePool p) = asset_fund_fee_pool_validate p"
| "operation_validate (AssetUpdateIssuer p) = asset_update_issuer_validate p"
| "operation_validate (AssetGlobalSettle p) = asset_global_settle_validate p"
| "operation_validate (AssetSettle p) = asset_settle_validate p"
| "operation_validate (AssetPublishFeed p) = asset_publish_feed_validate p"
| "operation_validate (AssetUpdateFeedProducers p) = asset_update_feed_producers_validate p"
| "operation_validate (AssetClaimFees p) = asset_claim_fees_validate p"
| "operation_validate (AssetClaimPool p) = asset_claim_pool_validate p"

text \<open>The member \<open>fee\<close> and the method \<open>op_fee_payer\<close>.\<close>

fun op_fee :: "protocol_operation \<Rightarrow> asset" where
  "op_fee (Transfer p) = tr_fee p"
| "op_fee (OverrideTransfer p) = ot_fee p"
| "op_fee (LimitOrderCreate p) = lc_fee p"
| "op_fee (LimitOrderCancelOp p) = lx_fee p"
| "op_fee (CallOrderUpdate p) = cu_fee p"
| "op_fee (BidCollateralOp p) = bc_fee p"
| "op_fee (AssetIssue p) = ai_fee p"
| "op_fee (AssetReserve p) = rs_fee p"
| "op_fee (AssetFundFeePool p) = fp_fee p"
| "op_fee (AssetUpdateIssuer p) = ui_fee p"
| "op_fee (AssetGlobalSettle p) = gs_fee p"
| "op_fee (AssetSettle p) = as_fee p"
| "op_fee (AssetPublishFeed p) = pf_fee p"
| "op_fee (AssetUpdateFeedProducers p) = fd_fee p"
| "op_fee (AssetClaimFees p) = cf_fee p"
| "op_fee (AssetClaimPool p) = cp_fee p"

fun op_fee_payer :: "protocol_operation \<Rightarrow> nat" where
  "op_fee_payer (Transfer p) = tr_from p"
| "op_fee_payer (OverrideTransfer p) = ot_issuer p"
| "op_fee_payer (LimitOrderCreate p) = lc_seller p"
| "op_fee_payer (LimitOrderCancelOp p) = lx_fee_paying_account p"
| "op_fee_payer (CallOrderUpdate p) = cu_funding_account p"
| "op_fee_payer (BidCollateralOp p) = bc_bidder p"
| "op_fee_payer (AssetIssue p) = ai_issuer p"
| "op_fee_payer (AssetReserve p) = rs_payer p"
| "op_fee_payer (AssetFundFeePool p) = fp_from_account p"
| "op_fee_payer (AssetUpdateIssuer p) = ui_issuer p"
| "op_fee_payer (AssetGlobalSettle p) = gs_issuer p"
| "op_fee_payer (AssetSettle p) = as_account p"
| "op_fee_payer (AssetPublishFeed p) = pf_publisher p"
| "op_fee_payer (AssetUpdateFeedProducers p) = fd_issuer p"
| "op_fee_payer (AssetClaimFees p) = cf_issuer p"
| "op_fee_payer (AssetClaimPool p) = cp_issuer p"

end
