(* ===== verification/Evaluator.thy ===== *)
theory Evaluator
  imports Operation Fees
begin

text \<open>
  The part of an evaluator that all operations share: \<open>chain/evaluator.cpp\<close> and the template of
  \<open>evaluator.hpp\<close>, with \<open>is_authorized_asset\<close>.  What \<open>prepare_fee\<close> stores in the members of the evaluator is
  the record \<open>evaluator_state\<close>; a stored reference is the id.  The flags of
  \<open>transaction_evaluation_state\<close> are the record \<open>trx_state\<close>.
\<close>

record trx_state =
  skip_fee :: bool
  skip_fee_schedule_check :: bool

record evaluator_state =
  fee_from_account :: asset
  core_fee_paid :: share
  fee_paying_account_statistics :: nat
  fee_asset :: asset_id_type
  fee_asset_dyn_data :: nat
  deferred_fee :: share
  deferred_paid_fee :: asset

text \<open>The flags and permissions of an asset that the evaluators read.\<close>

definition white_list :: "asset_object \<Rightarrow> bool" where
  "white_list o1 \<longleftrightarrow> bit (ao_flags o1) 1"

definition can_override :: "asset_object \<Rightarrow> bool" where
  "can_override o1 \<longleftrightarrow> bit (ao_flags o1) 2"

definition is_transfer_restricted :: "asset_object \<Rightarrow> bool" where
  "is_transfer_restricted o1 \<longleftrightarrow> bit (ao_flags o1) 3"

definition can_force_settle :: "asset_object \<Rightarrow> bool" where
  "can_force_settle o1 \<longleftrightarrow> \<not> bit (ao_flags o1) 4"

definition can_global_settle :: "asset_object \<Rightarrow> bool" where
  "can_global_settle o1 \<longleftrightarrow> bit (ao_issuer_permissions o1) 5"

definition witness_fed_asset :: "asset_object \<Rightarrow> bool" where
  "witness_fed_asset o1 \<longleftrightarrow> bit (ao_flags o1) 7"

definition committee_fed_asset :: "asset_object \<Rightarrow> bool" where
  "committee_fed_asset o1 \<longleftrightarrow> bit (ao_flags o1) 8"

subsection \<open>Who may use an asset\<close>

text \<open>The checks of the white and black lists that followed are commented out in the source.\<close>

definition slow_is_authorized_asset :: "account \<Rightarrow> asset_id_type \<Rightarrow> bool" where
  "slow_is_authorized_asset acct i =
     (case ac_allowed_assets acct of
        Some allowed \<Rightarrow> if i \<notin> set allowed then False else False
      | None \<Rightarrow> False)"

definition is_authorized_asset :: "account \<Rightarrow> asset_id_type \<Rightarrow> asset_object \<Rightarrow> bool" where
  "is_authorized_asset acct i o1 =
     (if \<not> white_list o1 \<and> ac_allowed_assets acct = None then True else slow_is_authorized_asset acct i)"

lemma is_authorized_asset_iff:
  "is_authorized_asset acct i o1 \<longleftrightarrow> \<not> white_list o1 \<and> ac_allowed_assets acct = None"
  by (simp add: is_authorized_asset_def slow_is_authorized_asset_def split: option.split)

subsection \<open>The fee\<close>

text \<open>Dereferencing an empty \<open>core_exchange_rate\<close> is undefined.\<close>

definition fee_in_core :: "asset_object \<Rightarrow> asset_dynamic_data \<Rightarrow> asset \<Rightarrow> share result" where
  "fee_in_core o1 dyn fee =
     (if asset_id fee = CORE then Inr (amount fee)
      else
        bindE (of_option UndefinedBehaviour (ao_core_exchange_rate o1)) (\<lambda>rate.
        bindE (asset_mul fee rate) (\<lambda>from_pool.
        assertE (asset_id from_pool = CORE)
          (assertE (amount from_pool \<le> ad_fee_pool dyn) (Inr (amount from_pool))))))"

definition prepare_fee :: "nat \<Rightarrow> asset \<Rightarrow> chain \<Rightarrow> evaluator_state result" where
  "prepare_fee acct fee s =
     assertE (0 \<le> amount fee)
       (bindE (tget (accounts s) acct) (\<lambda>a.
        bindE (tget (stats s) (ac_statistics a)) (\<lambda>_.
        bindE (tget (assets s) (asset_id fee)) (\<lambda>o1.
        bindE (tget (dyns s) (ao_dynamic_data o1)) (\<lambda>dyn.
        assertE (HARDFORK_419_TIME < head_time s \<longrightarrow> is_authorized_asset a (asset_id fee) o1)
          (bindE (fee_in_core o1 dyn fee) (\<lambda>core.
           Inr \<lparr>fee_from_account = fee, core_fee_paid = core, fee_paying_account_statistics = ac_statistics a,
                fee_asset = asset_id fee, fee_asset_dyn_data = ao_dynamic_data o1,
                deferred_fee = 0, deferred_paid_fee = mk_asset 0 CORE\<rparr>)))))))"

definition convert_fee :: "bool \<Rightarrow> evaluator_state \<Rightarrow> chain \<Rightarrow> chain result" where
  "convert_fee skip e s =
     (if \<not> skip \<and> fee_asset e \<noteq> CORE then
        modify_dyn (fee_asset_dyn_data e) (\<lambda>d.
          bindE (safe_add (ad_accumulated_fees d) (amount (fee_from_account e))) (\<lambda>x.
          bindE (safe_sub (ad_fee_pool d) (core_fee_paid e)) (\<lambda>y.
          Inr (d\<lparr>ad_accumulated_fees := x, ad_fee_pool := y\<rparr>)))) s
      else Inr s)"

definition pay_fee :: "bool \<Rightarrow> evaluator_state \<Rightarrow> chain \<Rightarrow> chain result" where
  "pay_fee skip e s =
     (if \<not> skip then
        modify_stats (fee_paying_account_statistics e)
          (stats_pay_fee (core_fee_paid e) (cashback_vesting_threshold s)) s
      else Inr s)"

text \<open>The overrides of \<open>limit_order_create_evaluator\<close>: the fee is deferred into the order.\<close>

definition limit_convert_fee :: "bool \<Rightarrow> evaluator_state \<Rightarrow> chain \<Rightarrow> chain result" where
  "limit_convert_fee skip e s =
     (if head_time s \<le> HARDFORK_CORE_604_TIME then convert_fee skip e s
      else if \<not> skip \<and> fee_asset e \<noteq> CORE then
        modify_dyn (fee_asset_dyn_data e) (\<lambda>d.
          bindE (safe_sub (ad_fee_pool d) (core_fee_paid e)) (\<lambda>y. Inr (d\<lparr>ad_fee_pool := y\<rparr>))) s
      else Inr s)"

definition limit_pay_fee :: "bool \<Rightarrow> evaluator_state \<Rightarrow> chain \<Rightarrow> (evaluator_state \<times> chain) result" where
  "limit_pay_fee skip e s =
     (if head_time s \<le> HARDFORK_445_TIME then bindE (pay_fee skip e s) (\<lambda>s'. Inr (e, s'))
      else Inr (e\<lparr>deferred_fee := core_fee_paid e,
                  deferred_paid_fee :=
                    (if HARDFORK_CORE_604_TIME < head_time s \<and> fee_asset e \<noteq> CORE then fee_from_account e
                     else deferred_paid_fee e)\<rparr>, s))"

subsection \<open>What an operation returns\<close>

datatype operation_result = VoidResult | ObjectResult nat | AssetResult asset

end
