(* ===== verification/Market_Evaluator.thy ===== *)
theory Market_Evaluator
  imports Evaluator Margin
begin

text \<open>
  The evaluators of \<open>chain/market_evaluator.cpp\<close>: limit orders, positions and bids.  A reference that
  \<open>do_evaluate\<close> keeps for \<open>do_apply\<close> is looked up again: the fee steps in between change the pending fees of
  an account and the fee pool of an asset only.
\<close>

subsection \<open>Creating a limit order\<close>

definition limit_order_create_evaluate :: "limit_order_create_operation \<Rightarrow> chain \<Rightarrow> unit result" where
  "limit_order_create_evaluate p s =
     (let sell = asset_id (lc_amount_to_sell p); receive = asset_id (lc_min_to_receive p)
      in assertE (head_time s \<le> lc_expiration p)
           (bindE (tget (accounts s) (lc_seller p)) (\<lambda>seller.
            bindE (tget (assets s) sell) (\<lambda>sell_asset.
            bindE (tget (assets s) receive) (\<lambda>receive_asset.
            assertE (ao_whitelist_markets sell_asset \<noteq> [] \<longrightarrow> receive \<in> set (ao_whitelist_markets sell_asset))
              (assertE (ao_blacklist_markets sell_asset \<noteq> [] \<longrightarrow> receive \<notin> set (ao_blacklist_markets sell_asset))
                (assertE (is_authorized_asset seller sell sell_asset)
                  (assertE (is_authorized_asset seller receive receive_asset)
                    (bindE (asset_ge (get_balance (lc_seller p) sell s) (lc_amount_to_sell p)) (\<lambda>enough.
                     assertE enough (Inr ())))))))))))"

definition create_limit :: "limit_order \<Rightarrow> chain \<Rightarrow> nat \<times> chain" where
  "create_limit o1 s = (next_limit s, s\<lparr>limits := tadd (next_limit s) o1 (limits s), next_limit := Suc (next_limit s)\<rparr>)"

definition core_in_orders :: "nat \<Rightarrow> asset \<Rightarrow> chain \<Rightarrow> chain result" where
  "core_in_orders acct x s =
     bindE (stats_of acct s) (\<lambda>st.
     modify_stats st (\<lambda>v.
       if asset_id x = CORE
       then bindE (safe_add (st_total_core_in_orders v) (amount x)) (\<lambda>y. Inr (v\<lparr>st_total_core_in_orders := y\<rparr>))
       else Inr v) s)"

definition limit_order_create_apply ::
  "nat \<Rightarrow> limit_order_create_operation \<Rightarrow> evaluator_state \<Rightarrow> chain \<Rightarrow> (operation_result \<times> chain) result" where
  "limit_order_create_apply n p e s =
     bindE (core_in_orders (lc_seller p) (lc_amount_to_sell p) s) (\<lambda>s1.
     bindE (asset_neg (lc_amount_to_sell p)) (\<lambda>m.
     bindE (adjust_balance (lc_seller p) m s1) (\<lambda>s2.
     bindE (get_price p) (\<lambda>price.
     let (oid, s3) = create_limit \<lparr>lo_expiration = lc_expiration p, lo_seller = lc_seller p,
           lo_for_sale = amount (lc_amount_to_sell p), lo_sell_price = price,
           lo_deferred_fee = deferred_fee e, lo_deferred_paid_fee = deferred_paid_fee e\<rparr> s2
     in bindE (if next_maintenance_time s3 \<le> HARDFORK_CORE_625_TIME then apply_order_before_625 n oid True s3
               else apply_order n oid True s3) (\<lambda>(filled, s4).
        assertE (\<not> lc_fill_or_kill p \<or> filled) (Inr (ObjectResult oid, s4)))))))"

subsection \<open>Cancelling a limit order\<close>

definition limit_order_cancel_evaluate :: "limit_order_cancel_operation \<Rightarrow> chain \<Rightarrow> unit result" where
  "limit_order_cancel_evaluate p s =
     bindE (tget (limits s) (lx_order p)) (\<lambda>o1. assertE (lo_seller o1 = lx_fee_paying_account p) (Inr ()))"

definition limit_order_cancel_apply ::
  "nat \<Rightarrow> limit_order_cancel_operation \<Rightarrow> chain \<Rightarrow> (operation_result \<times> chain) result" where
  "limit_order_cancel_apply n p s =
     bindE (deref (limits s) (lx_order p)) (\<lambda>o1.
     bindE (cancel_limit_order (lx_order p) False False s) (\<lambda>s1.
     bindE (if next_maintenance_time s1 \<le> HARDFORK_CORE_606_TIME then
              bindE (tget (assets s1) (sell_asset_id o1)) (\<lambda>_.
              bindE (check_call_orders n (sell_asset_id o1) True False s1) (\<lambda>(_, s2).
              bindE (tget (assets s2) (receive_asset_id o1)) (\<lambda>_.
              bindE (check_call_orders n (receive_asset_id o1) True False s2) (\<lambda>(_, s3). Inr s3))))
            else Inr s1) (\<lambda>s4.
     Inr (AssetResult (amount_for_sale o1), s4))))"

subsection \<open>Updating a position\<close>

definition call_order_update_evaluate :: "call_order_update_operation \<Rightarrow> chain \<Rightarrow> unit result" where
  "call_order_update_evaluate p s =
     assertE (next_maintenance_time s \<le> HARDFORK_CORE_834_TIME \<longrightarrow> cu_target_collateral_ratio p = None)
       (bindE (tget (accounts s) (cu_funding_account p)) (\<lambda>_.
        bindE (tget (assets s) (asset_id (cu_delta_debt p))) (\<lambda>debt_asset.
        assertE (is_market_issued debt_asset)
          (bindE (bitasset_of debt_asset s) (\<lambda>b.
           assertE (\<not> has_settlement b)
             (assertE (asset_id (cu_delta_collateral p) = ba_short_backing_asset b)
               (if ba_is_prediction_market b then
                  assertE (amount (cu_delta_collateral p) = amount (cu_delta_debt p)) (Inr ())
                else if price_is_null (pf_settlement_price (ba_current_feed b)) then Inl InsufficientFeeds
                else Inr ())))))))"

text \<open>The debt goes to the account and the supply, the collateral comes from the account.\<close>

definition move_debt :: "call_order_update_operation \<Rightarrow> chain \<Rightarrow> chain result" where
  "move_debt p s =
     (if amount (cu_delta_debt p) \<noteq> 0 then
        bindE (adjust_balance (cu_funding_account p) (cu_delta_debt p) s) (\<lambda>s1.
        bindE (dyn_of (asset_id (cu_delta_debt p)) s1) (\<lambda>d.
        modify_dyn d (\<lambda>v.
          bindE (safe_add (ad_current_supply v) (amount (cu_delta_debt p))) (\<lambda>x.
          assertE (0 \<le> x) (Inr (v\<lparr>ad_current_supply := x\<rparr>)))) s1))
      else Inr s)"

definition move_collateral :: "call_order_update_operation \<Rightarrow> chain \<Rightarrow> chain result" where
  "move_collateral p s =
     (if amount (cu_delta_collateral p) \<noteq> 0 then
        bindE (asset_neg (cu_delta_collateral p)) (\<lambda>m.
        bindE (adjust_balance (cu_funding_account p) m s) (\<lambda>s1.
        if asset_id (cu_delta_collateral p) = CORE
        then core_in_orders (cu_funding_account p) (cu_delta_collateral p) s1 else Inr s1))
      else Inr s)"

text \<open>The position is created, closed or changed: its id, and what the old collateralization and debt were;
  \<open>None\<close> when it was closed.\<close>

definition find_position :: "call_order_update_operation \<Rightarrow> chain \<Rightarrow> (nat \<times> call_order) option" where
  "find_position p s =
     tfind (\<lambda>c. co_borrower c = cu_funding_account p \<and> debt_type c = asset_id (cu_delta_debt p)) (calls s)"

definition open_position ::
  "call_order_update_operation \<Rightarrow> bitasset_data \<Rightarrow> chain \<Rightarrow> (nat \<times> chain) result" where
  "open_position p b s =
     assertE (0 < amount (cu_delta_collateral p))
       (assertE (0 < amount (cu_delta_debt p))
         (bindE (call_price (cu_delta_debt p) (cu_delta_collateral p)
                   (pf_maintenance_collateral_ratio (ba_current_feed b))) (\<lambda>cp.
          create_call \<lparr>co_borrower = cu_funding_account p, co_collateral = amount (cu_delta_collateral p),
            co_debt = amount (cu_delta_debt p), co_call_price = cp,
            co_target_collateral_ratio = cu_target_collateral_ratio p\<rparr> s)))"

definition change_position ::
  "call_order_update_operation \<Rightarrow> bitasset_data \<Rightarrow> nat \<Rightarrow> call_order \<Rightarrow> chain \<Rightarrow> ((price \<times> share) option \<times> chain) result" where
  "change_position p b cid c s =
     bindE (safe_add (co_collateral c) (amount (cu_delta_collateral p))) (\<lambda>new_collateral.
     bindE (safe_add (co_debt c) (amount (cu_delta_debt p))) (\<lambda>new_debt.
     if new_debt = 0 then
       assertE (new_collateral = 0) (Inr (None, s\<lparr>calls := tdel cid (calls s)\<rparr>))
     else
       assertE (0 < new_collateral \<and> 0 < new_debt)
         (bindE (collateralization c) (\<lambda>old_collateralization.
          let c1 = c\<lparr>co_collateral := new_collateral, co_debt := new_debt\<rparr>
          in bindE (call_price (get_debt c1) (get_collateral c1)
                      (pf_maintenance_collateral_ratio (ba_current_feed b))) (\<lambda>cp.
             Inr (Some (old_collateralization, co_debt c),
                  s\<lparr>calls := tput cid (c1\<lparr>co_call_price := cp,
                     co_target_collateral_ratio := cu_target_collateral_ratio p\<rparr>) (calls s)\<rparr>))))))"

text \<open>The checks after the margin calls.\<close>

definition increased_ratio :: "(price \<times> share) option \<Rightarrow> call_order \<Rightarrow> bool result" where
  "increased_ratio old c =
     (case old of
        None \<Rightarrow> Inr False
      | Some (old_ratio, old_debt) \<Rightarrow>
          if co_debt c \<le> old_debt
          then bindE (collateralization c) (\<lambda>r. Inr (price_gt r old_ratio)) else Inr False)"

definition check_position ::
  "nat \<Rightarrow> call_order_update_operation \<Rightarrow> nat \<Rightarrow> (price \<times> share) option \<Rightarrow> nat \<Rightarrow> chain \<Rightarrow> chain result" where
  "check_position n p k old cid s =
     bindE (tget (bitassets s) k) (\<lambda>b.
     if ba_is_prediction_market b then Inr s
     else
       bindE (check_call_orders n (asset_id (cu_delta_debt p)) False False s) (\<lambda>(called, s1).
       if called then
         (if map_of (calls s1) cid = None then Inr s1 else Inl UnfilledMarginCall)
       else
         bindE (of_option AssertFailed (map_of (calls s1) cid)) (\<lambda>c.
         bindE (tget (bitassets s1) k) (\<lambda>b1.
         let safe = price_less (price_inv (co_call_price c)) (pf_settlement_price (ba_current_feed b1))
         in if head_time s1 \<le> HARDFORK_CORE_583_TIME
            then (if safe then Inr s1 else Inl UnfilledMarginCall)
            else bindE (increased_ratio old c) (\<lambda>inc. assertE (inc \<or> safe) (Inr s1))))))"

definition call_order_update_apply ::
  "nat \<Rightarrow> call_order_update_operation \<Rightarrow> chain \<Rightarrow> (operation_result \<times> chain) result" where
  "call_order_update_apply n p s =
     bindE (move_debt p s) (\<lambda>s1.
     bindE (move_collateral p s1) (\<lambda>s2.
     bindE (tget (assets s2) (asset_id (cu_delta_debt p))) (\<lambda>debt_asset.
     bindE (bitasset_id debt_asset) (\<lambda>k.
     bindE (tget (bitassets s2) k) (\<lambda>b.
     case find_position p s2 of
       None \<Rightarrow>
         bindE (open_position p b s2) (\<lambda>(cid, s3).
         bindE (check_position n p k None cid s3) (\<lambda>s4. Inr (ObjectResult cid, s4)))
     | Some (cid, c) \<Rightarrow>
         bindE (change_position p b cid c s2) (\<lambda>(old, s3).
         if old = None then Inr (ObjectResult cid, s3)
         else bindE (check_position n p k old cid s3) (\<lambda>s4. Inr (ObjectResult cid, s4))))))))"

subsection \<open>Bidding for collateral\<close>

definition find_bid :: "bid_collateral_operation \<Rightarrow> chain \<Rightarrow> (nat \<times> collateral_bid) option" where
  "find_bid p s =
     tfind (\<lambda>x. bid_debt_type x = asset_id (bc_debt_covered p) \<and> cb_bidder x = bc_bidder p) (bids s)"

definition bid_collateral_evaluate :: "bid_collateral_operation \<Rightarrow> chain \<Rightarrow> unit result" where
  "bid_collateral_evaluate p s =
     assertE (HARDFORK_CORE_216_TIME < head_time s)
       (bindE (tget (accounts s) (bc_bidder p)) (\<lambda>_.
        bindE (tget (assets s) (asset_id (bc_debt_covered p))) (\<lambda>debt_asset.
        assertE (is_market_issued debt_asset)
          (bindE (bitasset_of debt_asset s) (\<lambda>b.
           assertE (has_settlement b)
             (assertE (asset_id (bc_additional_collateral p) = ba_short_backing_asset b)
               (assertE (\<not> ba_is_prediction_market b)
                 (bindE (if 0 < amount (bc_additional_collateral p) then
                           bindE (tget (assets s) (ba_short_backing_asset b)) (\<lambda>_.
                           asset_ge (get_balance (bc_bidder p) (ba_short_backing_asset b) s) (bc_additional_collateral p))
                         else Inr True) (\<lambda>enough.
                  assertE enough
                    (assertE (find_bid p s \<noteq> None \<or> 0 < amount (bc_debt_covered p)) (Inr ())))))))))))"

definition bid_collateral_apply :: "bid_collateral_operation \<Rightarrow> chain \<Rightarrow> (operation_result \<times> chain) result" where
  "bid_collateral_apply p s =
     bindE (case find_bid p s of None \<Rightarrow> Inr s | Some (k, _) \<Rightarrow> cancel_bid k False s) (\<lambda>s1.
     if amount (bc_debt_covered p) = 0 then Inr (VoidResult, s1)
     else
       bindE (asset_neg (bc_additional_collateral p)) (\<lambda>m.
       bindE (adjust_balance (bc_bidder p) m s1) (\<lambda>s2.
       bindE (asset_div (bc_additional_collateral p) (bc_debt_covered p)) (\<lambda>q.
       bindE (create_bid \<lparr>cb_bidder = bc_bidder p, cb_inv_swan_price = q\<rparr> s2) (\<lambda>(_, s3).
       Inr (VoidResult, s3))))))"

end
