(* ===== verification/Asset_Evaluator.thy ===== *)
theory Asset_Evaluator
  imports Evaluator Feeds Expiry
begin

text \<open>
  The evaluators of \<open>chain/transfer_evaluator.cpp\<close> and of \<open>chain/asset_evaluator.cpp\<close>: transfers, the supply and
  the fees of an asset, its issuer, its settlement and its feeds.  Creating an asset and changing its
  options are left out.
\<close>

subsection \<open>Transfers\<close>

definition transfer_evaluate :: "transfer_operation \<Rightarrow> chain \<Rightarrow> unit result" where
  "transfer_evaluate p s =
     bindE (tget (accounts s) (tr_from p)) (\<lambda>from_account.
     bindE (tget (accounts s) (tr_to p)) (\<lambda>to_account.
     bindE (tget (assets s) (asset_id (tr_amount p))) (\<lambda>asset_type.
     if \<not> is_authorized_asset from_account (asset_id (tr_amount p)) asset_type then Inl FromNotWhitelisted
     else if \<not> is_authorized_asset to_account (asset_id (tr_amount p)) asset_type then Inl ToNotWhitelisted
     else if is_transfer_restricted asset_type \<and> tr_from p \<noteq> ao_issuer asset_type \<and> tr_to p \<noteq> ao_issuer asset_type
     then Inl RestrictedTransfer
     else assertE (amount (tr_amount p) \<le> amount (get_balance (tr_from p) (asset_id (tr_amount p)) s)) (Inr ()))))"

definition transfer_apply :: "transfer_operation \<Rightarrow> chain \<Rightarrow> (operation_result \<times> chain) result" where
  "transfer_apply p s =
     bindE (asset_neg (tr_amount p)) (\<lambda>m.
     bindE (adjust_balance (tr_from p) m s) (\<lambda>s1.
     bindE (adjust_balance (tr_to p) (tr_amount p) s1) (\<lambda>s2. Inr (VoidResult, s2))))"

definition override_transfer_evaluate :: "override_transfer_operation \<Rightarrow> chain \<Rightarrow> unit result" where
  "override_transfer_evaluate p s =
     bindE (tget (assets s) (asset_id (ot_amount p))) (\<lambda>asset_type.
     if \<not> can_override asset_type then Inl OverrideNotPermitted
     else
       assertE (ao_issuer asset_type = ot_issuer p)
         (bindE (tget (accounts s) (ot_from p)) (\<lambda>from_account.
          bindE (tget (accounts s) (ot_to p)) (\<lambda>to_account.
          assertE (is_authorized_asset to_account (asset_id (ot_amount p)) asset_type)
            (assertE (is_authorized_asset from_account (asset_id (ot_amount p)) asset_type)
              (assertE (amount (ot_amount p) \<le> amount (get_balance (ot_from p) (asset_id (ot_amount p)) s))
                (Inr ())))))))"

definition override_transfer_apply :: "override_transfer_operation \<Rightarrow> chain \<Rightarrow> (operation_result \<times> chain) result" where
  "override_transfer_apply p s =
     bindE (asset_neg (ot_amount p)) (\<lambda>m.
     bindE (adjust_balance (ot_from p) m s) (\<lambda>s1.
     bindE (adjust_balance (ot_to p) (ot_amount p) s1) (\<lambda>s2. Inr (VoidResult, s2))))"

subsection \<open>Supply and fee pool\<close>

definition asset_issue_evaluate :: "asset_issue_operation \<Rightarrow> chain \<Rightarrow> unit result" where
  "asset_issue_evaluate p s =
     bindE (tget (assets s) (asset_id (ai_asset_to_issue p))) (\<lambda>a.
     assertE (ai_issuer p = ao_issuer a)
       (assertE (\<not> is_market_issued a)
         (bindE (tget (accounts s) (ai_issue_to_account p)) (\<lambda>to_account.
          assertE (is_authorized_asset to_account (asset_id (ai_asset_to_issue p)) a)
            (bindE (tget (dyns s) (ao_dynamic_data a)) (\<lambda>d.
             bindE (safe_add (ad_current_supply d) (amount (ai_asset_to_issue p))) (\<lambda>x.
             assertE (x \<le> ao_max_supply a) (Inr ()))))))))"

text \<open>A change of the supply of an asset.\<close>

definition add_supply :: "asset_id_type \<Rightarrow> share \<Rightarrow> chain \<Rightarrow> chain result" where
  "add_supply i x s =
     bindE (dyn_of i s) (\<lambda>d. modify_dyn d (\<lambda>v.
       bindE (safe_add (ad_current_supply v) x) (\<lambda>y. Inr (v\<lparr>ad_current_supply := y\<rparr>))) s)"

definition sub_supply :: "asset_id_type \<Rightarrow> share \<Rightarrow> chain \<Rightarrow> chain result" where
  "sub_supply i x s =
     bindE (dyn_of i s) (\<lambda>d. modify_dyn d (\<lambda>v.
       bindE (safe_sub (ad_current_supply v) x) (\<lambda>y. Inr (v\<lparr>ad_current_supply := y\<rparr>))) s)"

definition asset_issue_apply :: "asset_issue_operation \<Rightarrow> chain \<Rightarrow> (operation_result \<times> chain) result" where
  "asset_issue_apply p s =
     bindE (adjust_balance (ai_issue_to_account p) (ai_asset_to_issue p) s) (\<lambda>s1.
     bindE (add_supply (asset_id (ai_asset_to_issue p)) (amount (ai_asset_to_issue p)) s1) (\<lambda>s2.
     Inr (VoidResult, s2)))"

definition asset_reserve_evaluate :: "asset_reserve_operation \<Rightarrow> chain \<Rightarrow> unit result" where
  "asset_reserve_evaluate p s =
     bindE (tget (assets s) (asset_id (rs_amount_to_reserve p))) (\<lambda>a.
     if is_market_issued a then Inl ReserveInvalid
     else
       bindE (tget (accounts s) (rs_payer p)) (\<lambda>from_account.
       assertE (is_authorized_asset from_account (asset_id (rs_amount_to_reserve p)) a)
         (bindE (tget (dyns s) (ao_dynamic_data a)) (\<lambda>d.
          bindE (safe_sub (ad_current_supply d) (amount (rs_amount_to_reserve p))) (\<lambda>x.
          assertE (0 \<le> x) (Inr ()))))))"

definition asset_reserve_apply :: "asset_reserve_operation \<Rightarrow> chain \<Rightarrow> (operation_result \<times> chain) result" where
  "asset_reserve_apply p s =
     bindE (asset_neg (rs_amount_to_reserve p)) (\<lambda>m.
     bindE (adjust_balance (rs_payer p) m s) (\<lambda>s1.
     bindE (sub_supply (asset_id (rs_amount_to_reserve p)) (amount (rs_amount_to_reserve p)) s1) (\<lambda>s2.
     Inr (VoidResult, s2))))"

definition asset_fund_fee_pool_evaluate :: "asset_fund_fee_pool_operation \<Rightarrow> chain \<Rightarrow> unit result" where
  "asset_fund_fee_pool_evaluate p s =
     bindE (tget (assets s) (fp_asset_id p)) (\<lambda>a.
     bindE (tget (dyns s) (ao_dynamic_data a)) (\<lambda>_. Inr ()))"

text \<open>The share \<open>-o.amount\<close> becomes an asset of the core asset.\<close>

definition asset_fund_fee_pool_apply :: "asset_fund_fee_pool_operation \<Rightarrow> chain \<Rightarrow> (operation_result \<times> chain) result" where
  "asset_fund_fee_pool_apply p s =
     bindE (safe_neg (fp_amount p)) (\<lambda>m.
     bindE (adjust_balance (fp_from_account p) (mk_asset m CORE) s) (\<lambda>s1.
     bindE (dyn_of (fp_asset_id p) s1) (\<lambda>d.
     bindE (modify_dyn d (\<lambda>v.
       bindE (safe_add (ad_fee_pool v) (fp_amount p)) (\<lambda>y. Inr (v\<lparr>ad_fee_pool := y\<rparr>))) s1) (\<lambda>s2.
     Inr (VoidResult, s2)))))"

definition asset_claim_fees_evaluate :: "asset_claim_fees_operation \<Rightarrow> chain \<Rightarrow> unit result" where
  "asset_claim_fees_evaluate p s =
     assertE (HARDFORK_413_TIME < head_time s)
       (bindE (tget (assets s) (asset_id (cf_amount_to_claim p))) (\<lambda>a.
        assertE (ao_issuer a = cf_issuer p) (Inr ())))"

definition asset_claim_fees_apply :: "asset_claim_fees_operation \<Rightarrow> chain \<Rightarrow> (operation_result \<times> chain) result" where
  "asset_claim_fees_apply p s =
     bindE (dyn_of (asset_id (cf_amount_to_claim p)) s) (\<lambda>d.
     bindE (tget (dyns s) d) (\<lambda>addo.
     assertE (amount (cf_amount_to_claim p) \<le> ad_accumulated_fees addo)
       (bindE (modify_dyn d (\<lambda>v.
          bindE (safe_sub (ad_accumulated_fees v) (amount (cf_amount_to_claim p))) (\<lambda>y.
          Inr (v\<lparr>ad_accumulated_fees := y\<rparr>))) s) (\<lambda>s1.
        bindE (adjust_balance (cf_issuer p) (cf_amount_to_claim p) s1) (\<lambda>s2. Inr (VoidResult, s2))))))"

definition asset_claim_pool_evaluate :: "asset_claim_pool_operation \<Rightarrow> chain \<Rightarrow> unit result" where
  "asset_claim_pool_evaluate p s =
     assertE (HARDFORK_CORE_188_TIME \<le> head_time s)
       (bindE (tget (assets s) (cp_asset_id p)) (\<lambda>a. assertE (ao_issuer a = cp_issuer p) (Inr ())))"

definition asset_claim_pool_apply :: "asset_claim_pool_operation \<Rightarrow> chain \<Rightarrow> (operation_result \<times> chain) result" where
  "asset_claim_pool_apply p s =
     bindE (dyn_of (cp_asset_id p) s) (\<lambda>d.
     bindE (tget (dyns s) d) (\<lambda>addo.
     assertE (amount (cp_amount_to_claim p) \<le> ad_fee_pool addo)
       (bindE (modify_dyn d (\<lambda>v.
          bindE (safe_sub (ad_fee_pool v) (amount (cp_amount_to_claim p))) (\<lambda>y. Inr (v\<lparr>ad_fee_pool := y\<rparr>))) s) (\<lambda>s1.
        bindE (adjust_balance (cp_issuer p) (cp_amount_to_claim p) s1) (\<lambda>s2. Inr (VoidResult, s2))))))"

subsection \<open>The issuer\<close>

text \<open>The accounts of the committee and of the witnesses.\<close>

definition GRAPHENE_COMMITTEE_ACCOUNT :: nat where "GRAPHENE_COMMITTEE_ACCOUNT = 0"
definition GRAPHENE_WITNESS_ACCOUNT :: nat where "GRAPHENE_WITNESS_ACCOUNT = 1"

definition validate_new_issuer :: "asset_object \<Rightarrow> nat \<Rightarrow> chain \<Rightarrow> unit result" where
  "validate_new_issuer a new_issuer s =
     assertE (map_of (accounts s) new_issuer \<noteq> None)
       (if is_market_issued a \<and> new_issuer = GRAPHENE_COMMITTEE_ACCOUNT then
          bindE (bitasset_of a s) (\<lambda>b.
          bindE (tget (assets s) (ba_short_backing_asset b)) (\<lambda>backing.
          if is_market_issued backing then
            bindE (bitasset_of backing s) (\<lambda>bb.
            bindE (tget (assets s) (ba_short_backing_asset bb)) (\<lambda>_.
            assertE (ba_short_backing_asset bb = CORE) (Inr ())))
          else assertE (ba_short_backing_asset b = CORE) (Inr ())))
        else Inr ())"

definition asset_update_issuer_evaluate :: "asset_update_issuer_operation \<Rightarrow> chain \<Rightarrow> unit result" where
  "asset_update_issuer_evaluate p s =
     bindE (tget (assets s) (ui_asset_to_update p)) (\<lambda>a.
     bindE (validate_new_issuer a (ui_new_issuer p) s) (\<lambda>_.
     assertE (ui_issuer p = ao_issuer a)
       (assertE (HARDFORK_CORE_199_TIME \<le> head_time s) (Inr ()))))"

definition asset_update_issuer_apply :: "asset_update_issuer_operation \<Rightarrow> chain \<Rightarrow> (operation_result \<times> chain) result" where
  "asset_update_issuer_apply p s =
     bindE (tget (assets s) (ui_asset_to_update p)) (\<lambda>a.
     Inr (VoidResult, s\<lparr>assets := tput (ui_asset_to_update p) (a\<lparr>ao_issuer := ui_new_issuer p\<rparr>) (assets s)\<rparr>))"

subsection \<open>Settlement\<close>

definition asset_global_settle_evaluate :: "asset_global_settle_operation \<Rightarrow> chain \<Rightarrow> unit result" where
  "asset_global_settle_evaluate p s =
     (let i = gs_asset_to_settle p
      in bindE (tget (assets s) i) (\<lambda>a.
         assertE (is_market_issued a)
           (assertE (can_global_settle a)
             (assertE (ao_issuer a = gs_issuer p)
               (bindE (tget (dyns s) (ao_dynamic_data a)) (\<lambda>d.
                assertE (0 < ad_current_supply d)
                  (bindE (bitasset_of a s) (\<lambda>b.
                   assertE (\<not> has_settlement b)
                     (assertE (calls s \<noteq> [])
                       (bindE (price_min (ba_short_backing_asset b) i) (\<lambda>lowest.
                        case least_collateralized lowest s of
                          Inl _ \<Rightarrow> Inl AssertFailed
                        | Inr cid \<Rightarrow>
                            bindE (deref (calls s) cid) (\<lambda>c.
                            assertE (debt_type c = i)
                              (bindE (asset_mul (get_debt c) (gs_settle_price p)) (\<lambda>x.
                               bindE (asset_le x (get_collateral c)) (\<lambda>ok. assertE ok (Inr ()))))))))))))))))"

definition asset_global_settle_apply :: "asset_global_settle_operation \<Rightarrow> chain \<Rightarrow> (operation_result \<times> chain) result" where
  "asset_global_settle_apply p s =
     bindE (globally_settle_asset (gs_asset_to_settle p) (gs_settle_price p) s) (\<lambda>s1. Inr (VoidResult, s1))"

definition asset_settle_evaluate :: "asset_settle_operation \<Rightarrow> chain \<Rightarrow> unit result" where
  "asset_settle_evaluate p s =
     bindE (tget (assets s) (asset_id (as_amount p))) (\<lambda>a.
     assertE (is_market_issued a)
       (bindE (bitasset_of a s) (\<lambda>b.
        assertE (can_force_settle a \<or> has_settlement b)
          (bindE (if ba_is_prediction_market b then assertE (has_settlement b) (Inr ())
                  else if price_is_null (pf_settlement_price (ba_current_feed b)) \<and>
                     (head_time s \<le> HARDFORK_CORE_216_TIME \<or> \<not> has_settlement b) then Inl InsufficientFeeds
                  else Inr ()) (\<lambda>_.
           bindE (tget (accounts s) (as_account p)) (\<lambda>_.
           bindE (asset_ge (get_balance (as_account p) (asset_id (as_amount p)) s) (as_amount p)) (\<lambda>enough.
           assertE enough (Inr ()))))))))"

text \<open>After a global settlement the fund pays; what is paid back and what it costs.\<close>

definition swan_amounts :: "asset \<Rightarrow> share \<Rightarrow> bitasset_data \<Rightarrow> nat \<Rightarrow> (asset \<times> asset) result" where
  "swan_amounts x supply b maint =
     bindE (asset_mul x (ba_settlement_price b)) (\<lambda>settled0.
     bindE (if amount x = supply then Inr (mk_asset (ba_settlement_fund b) (asset_id settled0))
            else assertE (amount settled0 \<le> ba_settlement_fund b) (Inr settled0)) (\<lambda>settled.
     if amount settled = 0 \<and> \<not> ba_is_prediction_market b \<and> HARDFORK_CORE_184_TIME < maint then Inl OtherThrow
     else
       bindE (if amount x \<noteq> supply \<and> amount settled \<noteq> 0 \<and> HARDFORK_CORE_342_TIME < maint
              then multiply_and_round_up settled (ba_settlement_price b) else Inr x) (\<lambda>pays.
       Inr (settled, pays))))"

definition settle_from_fund :: "nat \<Rightarrow> asset \<Rightarrow> nat \<Rightarrow> bitasset_data \<Rightarrow> chain \<Rightarrow> (operation_result \<times> chain) result" where
  "settle_from_fund acct x k b s =
     bindE (dyn_of (asset_id x) s) (\<lambda>di.
     bindE (tget (dyns s) di) (\<lambda>d.
     bindE (swan_amounts x (ad_current_supply d) b (next_maintenance_time s)) (\<lambda>(settled, pays).
     bindE (asset_neg pays) (\<lambda>m.
     bindE (adjust_balance acct m s) (\<lambda>s1.
     bindE (if 0 < amount settled then
              bindE (modify_bitasset k (\<lambda>v.
                bindE (safe_sub (ba_settlement_fund v) (amount settled)) (\<lambda>y.
                Inr (v\<lparr>ba_settlement_fund := y\<rparr>))) s1) (\<lambda>s2.
              adjust_balance acct settled s2)
            else Inr s1) (\<lambda>s3.
     bindE (sub_supply (asset_id x) (amount pays) s3) (\<lambda>s4. Inr (AssetResult settled, s4))))))))"

definition create_settle :: "force_settlement \<Rightarrow> chain \<Rightarrow> nat \<times> chain" where
  "create_settle f s = (next_settle s, s\<lparr>settles := tadd (next_settle s) f (settles s), next_settle := Suc (next_settle s)\<rparr>)"

definition asset_settle_apply :: "asset_settle_operation \<Rightarrow> chain \<Rightarrow> (operation_result \<times> chain) result" where
  "asset_settle_apply p s =
     bindE (tget (assets s) (asset_id (as_amount p))) (\<lambda>a.
     bindE (bitasset_of a s) (\<lambda>b.
     if has_settlement b then
       bindE (bitasset_id a) (\<lambda>k. settle_from_fund (as_account p) (as_amount p) k b s)
     else
       bindE (asset_neg (as_amount p)) (\<lambda>m.
       bindE (adjust_balance (as_account p) m s) (\<lambda>s1.
       let (sid, s2) = create_settle \<lparr>fs_owner = as_account p, fs_balance = as_amount p,
             fs_settlement_date = (head_time s1 + ba_force_settlement_delay_sec b) mod 2 ^ 32\<rparr> s1
       in Inr (ObjectResult sid, s2)))))"

subsection \<open>Feeds\<close>

text \<open>The map from publishers to feeds, ordered by publisher.\<close>

fun feed_put :: "nat \<Rightarrow> nat \<times> price_feed \<Rightarrow> (nat \<times> nat \<times> price_feed) list \<Rightarrow> (nat \<times> nat \<times> price_feed) list" where
  "feed_put k v [] = [(k, v)]"
| "feed_put k v ((j, w) # xs) =
     (if k < j then (k, v) # (j, w) # xs else if k = j then (k, v) # xs else (j, w) # feed_put k v xs)"

definition asset_publish_feed_evaluate :: "asset_publish_feed_operation \<Rightarrow> chain \<Rightarrow> unit result" where
  "asset_publish_feed_evaluate p s =
     (let sp = pf_settlement_price (pf_feed p); cer = pf_core_exchange_rate (pf_feed p)
      in bindE (tget (assets s) (pf_asset_id p)) (\<lambda>base_asset.
         assertE (is_market_issued base_asset)
           (bindE (bitasset_of base_asset s) (\<lambda>b.
            assertE (ba_is_prediction_market b \<or> head_time s \<le> HARDFORK_CORE_216_TIME \<longrightarrow> \<not> has_settlement b)
              (assertE (asset_id (quote sp) = ba_short_backing_asset b)
                (assertE (if HARDFORK_480_TIME < head_time s
                          then \<not> price_is_null cer \<longrightarrow> asset_id (quote cer) = CORE
                          else \<not> price_is_null sp \<and> \<not> price_is_null cer \<longrightarrow> asset_id (quote sp) = asset_id (quote cer))
                  (if witness_fed_asset base_asset then
                     bindE (tget (accounts s) GRAPHENE_WITNESS_ACCOUNT) (\<lambda>w.
                     assertE (pf_publisher p \<in> set (ac_active_accounts w)) (Inr ()))
                   else if committee_fed_asset base_asset then
                     bindE (tget (accounts s) GRAPHENE_COMMITTEE_ACCOUNT) (\<lambda>c.
                     assertE (pf_publisher p \<in> set (ac_active_accounts c)) (Inr ()))
                   else assertE (map_of (ba_feeds b) (pf_publisher p) \<noteq> None) (Inr ()))))))))"

text \<open>Whether a settled asset revives: it has a feed, and no debt or a fund that would not be called.\<close>

definition can_revive :: "asset_id_type \<Rightarrow> share \<Rightarrow> bitasset_data \<Rightarrow> bool result" where
  "can_revive i supply b =
     (let f = ba_current_feed b
      in if price_is_null (pf_settlement_price f) then Inr False
         else if supply = 0 then Inr True
         else bindE (call_price (mk_asset supply i) (mk_asset (ba_settlement_fund b) (ba_short_backing_asset b))
                       (pf_maintenance_collateral_ratio f)) (\<lambda>cp.
              Inr (price_less (price_inv cp) (pf_settlement_price f))))"

definition asset_publish_feed_apply ::
  "nth_element \<Rightarrow> nat \<Rightarrow> asset_publish_feed_operation \<Rightarrow> chain \<Rightarrow> (operation_result \<times> chain) result" where
  "asset_publish_feed_apply select n p s =
     (let i = pf_asset_id p
      in bindE (tget (assets s) i) (\<lambda>base_asset.
         bindE (bitasset_id base_asset) (\<lambda>k.
         bindE (tget (bitassets s) k) (\<lambda>old.
         bindE (modify_bitasset k (\<lambda>b. update_median_feeds select (head_time s)
                  (b\<lparr>ba_feeds := feed_put (pf_publisher p) (head_time s, pf_feed p) (ba_feeds b)\<rparr>)) s) (\<lambda>s1.
         bindE (tget (bitassets s1) k) (\<lambda>b.
         if price_feed_eq (ba_current_feed old) (ba_current_feed b) then Inr (VoidResult, s1)
         else
           bindE (if has_settlement b then
                    bindE (tget (dyns s1) (ao_dynamic_data base_asset)) (\<lambda>d.
                    bindE (can_revive i (ad_current_supply d) b) (\<lambda>rev.
                    if rev then revive_bitasset i s1 else Inr s1))
                  else Inr s1) (\<lambda>s2.
           bindE (check_call_orders n i True False s2) (\<lambda>(_, s3). Inr (VoidResult, s3)))))))))"

definition asset_update_feed_producers_evaluate :: "asset_update_feed_producers_operation \<Rightarrow> chain \<Rightarrow> unit result" where
  "asset_update_feed_producers_evaluate p s =
     assertE (length (fd_new_feed_producers p) \<le> maximum_asset_feed_publishers s)
       (bindE (tget (assets s) (fd_asset_to_update p)) (\<lambda>a.
        assertE (is_market_issued a)
          (assertE (\<not> committee_fed_asset a)
            (assertE (\<not> witness_fed_asset a)
              (assertE (ao_issuer a = fd_issuer p)
                (foldE (\<lambda>id _. bindE (tget (accounts s) id) (\<lambda>_. Inr ())) (fd_new_feed_producers p) ()))))))"

text \<open>Producers that are no longer in the set are erased, new ones get an empty feed that was never published.\<close>

definition new_producers :: "nat list \<Rightarrow> (nat \<times> nat \<times> price_feed) list \<Rightarrow> (nat \<times> nat \<times> price_feed) list" where
  "new_producers ps feeds =
     foldl (\<lambda>fs acc. if map_of fs acc = None then feed_put acc (0, default_price_feed) fs else fs)
       (filter (\<lambda>e. fst e \<in> set ps) feeds) ps"

definition asset_update_feed_producers_apply ::
  "nth_element \<Rightarrow> nat \<Rightarrow> asset_update_feed_producers_operation \<Rightarrow> chain \<Rightarrow> (operation_result \<times> chain) result" where
  "asset_update_feed_producers_apply select n p s =
     bindE (tget (assets s) (fd_asset_to_update p)) (\<lambda>a.
     bindE (bitasset_id a) (\<lambda>k.
     bindE (modify_bitasset k (\<lambda>b. update_median_feeds select (head_time s)
              (b\<lparr>ba_feeds := new_producers (fd_new_feed_producers p) (ba_feeds b)\<rparr>)) s) (\<lambda>s1.
     bindE (check_call_orders n (fd_asset_to_update p) True False s1) (\<lambda>(_, s2). Inr (VoidResult, s2)))))"

end
