(* ===== verification/Op_Dispatch.thy ===== *)
theory Op_Dispatch
  imports Market_Evaluator Asset_Evaluator
begin

text \<open>
  The execution of one operation, as the template \<open>evaluator\<close> of \<open>chain/evaluator.hpp\<close> and
  \<open>generic_evaluator::start_evaluate\<close> put it together: the fee is prepared and checked, the operation is
  evaluated, then the fee is converted and paid, the operation applied, and the fee taken from the payer.
  The visitor over the operation is the \<open>case\<close> on its kind.  \<open>base_fee\<close> is what the fee schedule asks for
  the operation, \<open>n\<close> the fuel of the margin calls.
\<close>

fun do_evaluate :: "protocol_operation \<Rightarrow> chain \<Rightarrow> unit result" where
  "do_evaluate (Transfer p) s = transfer_evaluate p s"
| "do_evaluate (OverrideTransfer p) s = override_transfer_evaluate p s"
| "do_evaluate (LimitOrderCreate p) s = limit_order_create_evaluate p s"
| "do_evaluate (LimitOrderCancelOp p) s = limit_order_cancel_evaluate p s"
| "do_evaluate (CallOrderUpdate p) s = call_order_update_evaluate p s"
| "do_evaluate (BidCollateralOp p) s = bid_collateral_evaluate p s"
| "do_evaluate (AssetIssue p) s = asset_issue_evaluate p s"
| "do_evaluate (AssetReserve p) s = asset_reserve_evaluate p s"
| "do_evaluate (AssetFundFeePool p) s = asset_fund_fee_pool_evaluate p s"
| "do_evaluate (AssetUpdateIssuer p) s = asset_update_issuer_evaluate p s"
| "do_evaluate (AssetGlobalSettle p) s = asset_global_settle_evaluate p s"
| "do_evaluate (AssetSettle p) s = asset_settle_evaluate p s"
| "do_evaluate (AssetPublishFeed p) s = asset_publish_feed_evaluate p s"
| "do_evaluate (AssetUpdateFeedProducers p) s = asset_update_feed_producers_evaluate p s"
| "do_evaluate (AssetClaimFees p) s = asset_claim_fees_evaluate p s"
| "do_evaluate (AssetClaimPool p) s = asset_claim_pool_evaluate p s"

fun do_apply :: "nth_element \<Rightarrow> nat \<Rightarrow> protocol_operation \<Rightarrow> evaluator_state \<Rightarrow> chain \<Rightarrow> (operation_result \<times> chain) result" where
  "do_apply select n (Transfer p) e s = transfer_apply p s"
| "do_apply select n (OverrideTransfer p) e s = override_transfer_apply p s"
| "do_apply select n (LimitOrderCreate p) e s = limit_order_create_apply n p e s"
| "do_apply select n (LimitOrderCancelOp p) e s = limit_order_cancel_apply n p s"
| "do_apply select n (CallOrderUpdate p) e s = call_order_update_apply n p s"
| "do_apply select n (BidCollateralOp p) e s = bid_collateral_apply p s"
| "do_apply select n (AssetIssue p) e s = asset_issue_apply p s"
| "do_apply select n (AssetReserve p) e s = asset_reserve_apply p s"
| "do_apply select n (AssetFundFeePool p) e s = asset_fund_fee_pool_apply p s"
| "do_apply select n (AssetUpdateIssuer p) e s = asset_update_issuer_apply p s"
| "do_apply select n (AssetGlobalSettle p) e s = asset_global_settle_apply p s"
| "do_apply select n (AssetSettle p) e s = asset_settle_apply p s"
| "do_apply select n (AssetPublishFeed p) e s = asset_publish_feed_apply select n p s"
| "do_apply select n (AssetUpdateFeedProducers p) e s = asset_update_feed_producers_apply select n p s"
| "do_apply select n (AssetClaimFees p) e s = asset_claim_fees_apply p s"
| "do_apply select n (AssetClaimPool p) e s = asset_claim_pool_apply p s"

text \<open>The virtual methods \<open>convert_fee\<close> and \<open>pay_fee\<close>.\<close>

definition virtual_convert_fee :: "bool \<Rightarrow> protocol_operation \<Rightarrow> evaluator_state \<Rightarrow> chain \<Rightarrow> chain result" where
  "virtual_convert_fee skip op e s =
     (case op of LimitOrderCreate _ \<Rightarrow> limit_convert_fee skip e s | _ \<Rightarrow> convert_fee skip e s)"

definition virtual_pay_fee :: "bool \<Rightarrow> protocol_operation \<Rightarrow> evaluator_state \<Rightarrow> chain \<Rightarrow> (evaluator_state \<times> chain) result" where
  "virtual_pay_fee skip op e s =
     (case op of LimitOrderCreate _ \<Rightarrow> limit_pay_fee skip e s
      | _ \<Rightarrow> bindE (pay_fee skip e s) (\<lambda>s'. Inr (e, s')))"

text \<open>The fee that is asked for; the code equation computes it without the 128-bit division.\<close>

definition check_required_fee :: "nat \<Rightarrow> nat \<Rightarrow> share \<Rightarrow> unit result" where
  "check_required_fee base_fee scale paid =
     bindE (calculate_fee base_fee scale (unit_price CORE)) (\<lambda>required.
     if amount required \<le> paid then Inr () else Inl InsufficientFee)"

lemma check_required_fee_code [code]:
  "check_required_fee base_fee scale paid =
     (let required = int base_fee * int scale div PERCENT_100
      in if base_fee < 2 ^ 63 \<and> scale < 2 ^ 32 \<and> required \<le> MAX_SHARE_SUPPLY
         then (if required \<le> paid then Inr () else Inl InsufficientFee)
         else bindE (calculate_fee base_fee scale (unit_price CORE)) (\<lambda>r.
              if amount r \<le> paid then Inr () else Inl InsufficientFee))"
  using calculate_fee_unit [of base_fee scale] by (simp add: check_required_fee_def Let_def del: power_numeral)

definition evaluate :: "trx_state \<Rightarrow> nat \<Rightarrow> protocol_operation \<Rightarrow> chain \<Rightarrow> evaluator_state result" where
  "evaluate trx base_fee op s =
     bindE (prepare_fee (op_fee_payer op) (op_fee op) s) (\<lambda>e.
     bindE (if skip_fee_schedule_check trx then Inr ()
            else check_required_fee base_fee (fee_scale s) (core_fee_paid e)) (\<lambda>_.
     bindE (do_evaluate op s) (\<lambda>_. Inr e)))"

definition apply_op ::
  "nth_element \<Rightarrow> nat \<Rightarrow> trx_state \<Rightarrow> protocol_operation \<Rightarrow> evaluator_state \<Rightarrow> chain \<Rightarrow> (operation_result \<times> chain) result" where
  "apply_op select n trx op e s =
     bindE (virtual_convert_fee (skip_fee trx) op e s) (\<lambda>s1.
     bindE (virtual_pay_fee (skip_fee trx) op e s1) (\<lambda>(e1, s2).
     bindE (do_apply select n op e1 s2) (\<lambda>(r, s3).
     bindE (asset_neg (fee_from_account e1)) (\<lambda>m.
     bindE (adjust_balance (op_fee_payer op) m s3) (\<lambda>s4. Inr (r, s4))))))"

definition start_evaluate ::
  "nth_element \<Rightarrow> nat \<Rightarrow> trx_state \<Rightarrow> nat \<Rightarrow> protocol_operation \<Rightarrow> chain \<Rightarrow> (operation_result \<times> chain) result" where
  "start_evaluate select n trx base_fee op s =
     bindE (evaluate trx base_fee op s) (\<lambda>e. apply_op select n trx op e s)"

text \<open>\<open>database::apply_operation\<close>, and the loop over the operations of a transaction, in which no fee is skipped.
  The list of applied operations, which only observers read, keeps the virtual operations.\<close>

definition apply_operation ::
  "nth_element \<Rightarrow> nat \<Rightarrow> (protocol_operation \<Rightarrow> nat) \<Rightarrow> protocol_operation \<Rightarrow> chain \<Rightarrow> (operation_result \<times> chain) result" where
  "apply_operation select n base_fee op s =
     start_evaluate select n \<lparr>skip_fee = False, skip_fee_schedule_check = False\<rparr> (base_fee op) op s"

fun apply_operations ::
  "nth_element \<Rightarrow> nat \<Rightarrow> (protocol_operation \<Rightarrow> nat) \<Rightarrow> protocol_operation list \<Rightarrow> chain
     \<Rightarrow> (operation_result list \<times> chain) result" where
  "apply_operations select n base_fee [] s = Inr ([], s)"
| "apply_operations select n base_fee (op # ops) s =
     bindE (apply_operation select n base_fee op s) (\<lambda>(r, s1).
     bindE (apply_operations select n base_fee ops s1) (\<lambda>(rs, s2). Inr (r # rs, s2)))"

end
