(* ===== verification/Sound_State.thy ===== *)
theory Sound_State
  imports Feeds Margin_Correct
begin

text \<open>
  An invariant beside \<open>chain_wf\<close> that the evaluators need: the positions in an asset are backed by the
  backing asset of its bitasset, published feeds are prices of the asset in its backing asset, so is the
  price of a global settlement, and the supply and the settlement fund are \<open>int64_t\<close> values.  Every
  operation of the market keeps it.
\<close>

definition backed :: "chain \<Rightarrow> bool" where
  "backed s \<longleftrightarrow> (\<forall>k c o1 b. map_of (calls s) k = Some c \<longrightarrow> map_of (assets s) (debt_type c) = Some o1 \<longrightarrow>
     bitasset_of o1 s = Inr b \<longrightarrow> collateral_type c = ba_short_backing_asset b)"

definition own_price :: "bitasset_data \<Rightarrow> price \<Rightarrow> bool" where
  "own_price b p \<longleftrightarrow> asset_id (base p) = ba_asset b \<and> asset_id (quote p) = ba_short_backing_asset b"

definition published_ok :: "bitasset_data \<Rightarrow> price \<Rightarrow> bool" where
  "published_ok b p \<longleftrightarrow> price_is_null p \<or> (valid_price p \<and> own_price b p)"

definition bitasset_ok :: "bitasset_data \<Rightarrow> bool" where
  "bitasset_ok b \<longleftrightarrow> (\<forall>e \<in> set (ba_feeds b). published_ok b (pf_settlement_price (snd (snd e)))) \<and>
     int64_ok (ba_settlement_fund b) \<and> (has_settlement b \<longrightarrow> own_price b (ba_settlement_price b))"

definition extras :: "nat \<Rightarrow> chain \<Rightarrow> bool" where
  "extras tm s \<longleftrightarrow> head_time s = tm \<and> backed s \<and> (\<forall>k b. map_of (bitassets s) k = Some b \<longrightarrow> bitasset_ok b) \<and>
     (\<forall>k d. map_of (dyns s) k = Some d \<longrightarrow> int64_ok (ad_current_supply d))"

lemma bitasset_of_updates [simp]:
  "bitasset_of o1 (s\<lparr>limits := x1\<rparr>) = bitasset_of o1 s" "bitasset_of o1 (s\<lparr>next_limit := x2\<rparr>) = bitasset_of o1 s"
  "bitasset_of o1 (s\<lparr>balances := x3\<rparr>) = bitasset_of o1 s" "bitasset_of o1 (s\<lparr>next_balance := x4\<rparr>) = bitasset_of o1 s"
  "bitasset_of o1 (s\<lparr>stats := x5\<rparr>) = bitasset_of o1 s" "bitasset_of o1 (s\<lparr>settles := x6\<rparr>) = bitasset_of o1 s"
  "bitasset_of o1 (s\<lparr>next_settle := x7\<rparr>) = bitasset_of o1 s" "bitasset_of o1 (s\<lparr>bids := x8\<rparr>) = bitasset_of o1 s"
  "bitasset_of o1 (s\<lparr>next_bid := x9\<rparr>) = bitasset_of o1 s" "bitasset_of o1 (s\<lparr>applied_ops := x10\<rparr>) = bitasset_of o1 s"
  "bitasset_of o1 (s\<lparr>issue_453_affected_assets := x11\<rparr>) = bitasset_of o1 s" "bitasset_of o1 (s\<lparr>next_call := x12\<rparr>) = bitasset_of o1 s"
  "bitasset_of o1 (s\<lparr>dyns := x13\<rparr>) = bitasset_of o1 s" "bitasset_of o1 (s\<lparr>calls := x14\<rparr>) = bitasset_of o1 s"
  "bitasset_of o1 (s\<lparr>assets := x15\<rparr>) = bitasset_of o1 s"
  by (simp_all add: bitasset_of_def split: option.split)

lemma extras_time: "extras tm s \<Longrightarrow> head_time s = tm"
  by (simp add: extras_def)

lemma extras_updates [simp]:
  "extras tm (s\<lparr>limits := x1\<rparr>) = extras tm s" "extras tm (s\<lparr>next_limit := x2\<rparr>) = extras tm s"
  "extras tm (s\<lparr>balances := x3\<rparr>) = extras tm s" "extras tm (s\<lparr>next_balance := x4\<rparr>) = extras tm s"
  "extras tm (s\<lparr>stats := x5\<rparr>) = extras tm s" "extras tm (s\<lparr>settles := x6\<rparr>) = extras tm s"
  "extras tm (s\<lparr>next_settle := x7\<rparr>) = extras tm s" "extras tm (s\<lparr>bids := x8\<rparr>) = extras tm s"
  "extras tm (s\<lparr>next_bid := x9\<rparr>) = extras tm s" "extras tm (s\<lparr>applied_ops := x10\<rparr>) = extras tm s"
  "extras tm (s\<lparr>issue_453_affected_assets := x11\<rparr>) = extras tm s" "extras tm (s\<lparr>next_call := x12\<rparr>) = extras tm s"
  by (simp_all add: extras_def backed_def)

lemma extras_push [simp]: "extras tm (push_applied_operation v s) = extras tm s"
  by (simp add: push_applied_operation_def)

lemma extras_call_put: "extras tm s \<Longrightarrow> map_of (calls s) k = Some c \<Longrightarrow> debt_type c1 = debt_type c \<Longrightarrow>
    collateral_type c1 = collateral_type c \<Longrightarrow> extras tm (s\<lparr>calls := tput k c1 (calls s)\<rparr>)"
  unfolding extras_def backed_def by (auto split: if_splits)

lemma extras_call_del: "extras tm s \<Longrightarrow> extras tm (s\<lparr>calls := tdel k (calls s)\<rparr>)"
  unfolding extras_def backed_def by (auto split: if_splits)

lemma extras_dyn_put: "extras tm s \<Longrightarrow> int64_ok (ad_current_supply v) \<Longrightarrow> extras tm (s\<lparr>dyns := tput k v (dyns s)\<rparr>)"
  unfolding extras_def backed_def by (auto split: if_splits)

lemma extras_dynD: "extras tm s \<Longrightarrow> map_of (dyns s) k = Some v \<Longrightarrow> int64_ok (ad_current_supply v)"
  unfolding extras_def by blast

lemma extras_bitassetD: "extras tm s \<Longrightarrow> map_of (bitassets s) k = Some b \<Longrightarrow> bitasset_ok b"
  unfolding extras_def by blast

lemma extras_bitasset_put:
  assumes "extras tm s" "map_of (bitassets s) k = Some b" "bitasset_ok b1" "ba_short_backing_asset b1 = ba_short_backing_asset b"
  shows "extras tm (s\<lparr>bitassets := tput k b1 (bitassets s)\<rparr>)"
proof -
  have "\<exists>b0. bitasset_of o1 s = Inr b0 \<and> ba_short_backing_asset b0 = ba_short_backing_asset b2"
    if "bitasset_of o1 (s\<lparr>bitassets := tput k b1 (bitassets s)\<rparr>) = Inr b2" for o1 b2
    using that assms(2,4) by (auto simp: bitasset_of_def tget_Inr split: option.splits if_splits)
  then have "backed (s\<lparr>bitassets := tput k b1 (bitassets s)\<rparr>)"
    using assms(1) unfolding extras_def backed_def by (simp, metis)
  then show ?thesis using assms(1,3) by (simp add: extras_def)
qed

subsection \<open>The primitive steps\<close>

lemma primitives_extras:
  "modify_stats i f s = Inr s' \<Longrightarrow> extras tm s \<Longrightarrow> extras tm s'"
  "adjust_balance acct x s = Inr s' \<Longrightarrow> extras tm s \<Longrightarrow> extras tm s'"
  by (auto elim!: modify_stats_frame adjust_balance_frame)

lemma modify_dyn_extras:
  assumes "modify_dyn i f s = Inr s'" "extras tm s"
    and "\<And>v v'. f v = Inr v' \<Longrightarrow> int64_ok (ad_current_supply v) \<Longrightarrow> int64_ok (ad_current_supply v')"
  shows "extras tm s'"
  using assms(1) by (rule modify_dyn_frame) (use assms(2,3) in \<open>auto intro: extras_dyn_put dest: extras_dynD\<close>)

text \<open>The changes of dynamic data that the market makes.\<close>

lemma dyn_changes_extras:
  "modify_dyn i (\<lambda>v. bindE (safe_add (ad_accumulated_fees v) x) (\<lambda>y. Inr (v\<lparr>ad_accumulated_fees := y\<rparr>))) s = Inr s' \<Longrightarrow> extras tm s \<Longrightarrow> extras tm s'"
  "modify_dyn i (\<lambda>v. bindE (safe_add (ad_fee_pool v) x) (\<lambda>y. Inr (v\<lparr>ad_fee_pool := y\<rparr>))) s = Inr s' \<Longrightarrow> extras tm s \<Longrightarrow> extras tm s'"
  "modify_dyn i (\<lambda>v. bindE (safe_sub (ad_current_supply v) x) (\<lambda>y. Inr (v\<lparr>ad_current_supply := y\<rparr>))) s = Inr s' \<Longrightarrow> extras tm s \<Longrightarrow> extras tm s'"
  by (erule modify_dyn_extras; fastforce simp: bindE_eq_Inr safe_sub_int64)+

lemmas step_extras = primitives_extras dyn_changes_extras

lemma pay_market_fees_extras: "pay_market_fees i x s = Inr (f, s') \<Longrightarrow> extras tm s \<Longrightarrow> extras tm s'"
  unfolding pay_market_fees_def by (elim result_elims) (auto dest: step_extras)

lemma pay_order_extras: "pay_order r x p s = Inr s' \<Longrightarrow> extras tm s \<Longrightarrow> extras tm s'"
  unfolding pay_order_def by (elim result_elims) (auto dest: step_extras)

lemma charge_cancel_fee_extras: "charge_cancel_fee o1 s = Inr (x, y, z, s') \<Longrightarrow> extras tm s \<Longrightarrow> extras tm s'"
  unfolding charge_cancel_fee_def Let_def by (elim result_elims) (auto dest: step_extras)

lemma cancel_limit_order_extras: "cancel_limit_order oid vop skip s = Inr s' \<Longrightarrow> extras tm s \<Longrightarrow> extras tm s'"
  unfolding cancel_limit_order_def Let_def
  by (elim result_elims; simp only: Inr_inject prod.inject; clarsimp split: if_splits; fastforce intro: step_extras charge_cancel_fee_extras)

lemma maybe_cull_extras: "maybe_cull_small_order oid s = Inr (b, s') \<Longrightarrow> extras tm s \<Longrightarrow> extras tm s'"
  unfolding maybe_cull_small_order_def by (elim result_elims) (auto dest: cancel_limit_order_extras)

lemma cancel_settle_extras: "cancel_settle_order fid vop s = Inr s' \<Longrightarrow> extras tm s \<Longrightarrow> extras tm s'"
  unfolding cancel_settle_order_def Let_def by (elim result_elims) (auto dest: step_extras)

lemma cancel_bid_extras: "cancel_bid k vop s = Inr s' \<Longrightarrow> extras tm s \<Longrightarrow> extras tm s'"
  unfolding cancel_bid_def Let_def by (elim result_elims) (auto dest: step_extras)

lemma fill_limit_order_extras: "fill_limit_order oid x y cull p mk s = Inr (b, s') \<Longrightarrow> extras tm s \<Longrightarrow> extras tm s'"
  unfolding fill_limit_order_def Let_def
  by (elim result_elims; simp only: Inr_inject prod.inject; clarsimp split: if_splits;
      (drule maybe_cull_extras)?; fastforce intro: step_extras pay_market_fees_extras pay_order_extras)

lemma call_price_types: "call_price d c r = Inr p \<Longrightarrow> asset_id (base p) = asset_id c \<and> asset_id (quote p) = asset_id d"
  using call_price_assets by blast

lemma fill_call_change_types:
  assumes "fill_call_change mia pays receives s c = Inr (c1, freed)"
  shows "collateral_type c1 = collateral_type c \<and> debt_type c1 = debt_type c"
  using assms unfolding fill_call_change_def Let_def
  by (auto simp: bindE_eq_Inr collateral_type_def debt_type_def get_collateral_def get_debt_def
      dest!: call_price_types split: if_split_asm)

lemma extras_call_change: "extras tm s \<Longrightarrow> map_of (calls s) cid = Some c \<Longrightarrow> fill_call_change mia pays receives s c = Inr (c1, freed) \<Longrightarrow>
    extras tm (s\<lparr>calls := tput cid c1 (calls s)\<rparr>)"
  using fill_call_change_types by (blast intro: extras_call_put)

lemma fill_call_order_extras: "fill_call_order cid x y p mk s = Inr (b, s') \<Longrightarrow> extras tm s \<Longrightarrow> extras tm s'"
  unfolding fill_call_order_def Let_def
  by (elim result_elims; simp only: Inr_inject prod.inject deref_Inr; clarsimp split: if_splits;
      fastforce intro: extras_call_del extras_call_change step_extras)

lemma fill_settle_order_extras: "fill_settle_order fid x y p mk s = Inr (b, s') \<Longrightarrow> extras tm s \<Longrightarrow> extras tm s'"
  unfolding fill_settle_order_def Let_def
  by (elim result_elims) (auto dest!: step_extras pay_market_fees_extras split: if_split_asm)

subsection \<open>Trading\<close>

lemmas fill_extras = fill_limit_order_extras fill_call_order_extras fill_settle_order_extras

lemma match_limit_extras: "match_limit uid bid p s = Inr (k, s') \<Longrightarrow> extras tm s \<Longrightarrow> extras tm s'"
  unfolding match_limit_def Let_def by (elim result_elims) (auto intro: fill_extras cancel_limit_order_extras)

lemma match_limit_call_extras: "match_limit_call uid cid p fp mcr s = Inr (k, s') \<Longrightarrow> extras tm s \<Longrightarrow> extras tm s'"
  unfolding match_limit_call_def Let_def by (elim result_elims) (auto intro: fill_extras cancel_limit_order_extras)

lemma match_book_extras: "match_book oid go ids s = Inr (fin, rest, s') \<Longrightarrow> extras tm s \<Longrightarrow> extras tm s'"
proof (induction ids arbitrary: s)
  case (Cons lid ls)
  then show ?case by (auto simp: bindE_eq_Inr split: if_split_asm dest: match_limit_extras)
qed simp

lemma match_calls_extras: "match_calls n oid sell feed cmin p s = Inr (fin, s') \<Longrightarrow> extras tm s \<Longrightarrow> extras tm s'"
proof (induction n arbitrary: s)
  case (Suc n)
  then show ?case by (auto simp: bindE_eq_Inr split: if_split_asm option.split_asm prod.split_asm dest: match_limit_call_extras)
qed simp

lemma apply_order_extras: "apply_order n oid allow s = Inr (b, s') \<Longrightarrow> extras tm s \<Longrightarrow> extras tm s'"
  unfolding apply_order_def Let_def
  by (elim result_elims) (auto dest!: match_book_extras match_calls_extras maybe_cull_extras)

text \<open>Global settlement: the gathered collateral is an \<open>int64_t\<close> value in the backing asset.\<close>

lemma settle_call_extras:
  assumes "settle_call p cid (g, s) = Inr (g', s')" "extras tm s" "int64_ok (amount g)"
  shows "extras tm s' \<and> int64_ok (amount g') \<and> asset_id g' = asset_id g"
  using assms unfolding settle_call_def
  by (auto simp: bindE_eq_Inr assertE_eq_Inr Let_def asset_arith_Inr safe_add_Inr int64_ok_def dest: fill_call_order_extras)

lemma settle_calls_extras:
  assumes "foldE (settle_call p) cids (g, s) = Inr (g', s')" "extras tm s" "int64_ok (amount g)"
  shows "extras tm s' \<and> int64_ok (amount g') \<and> asset_id g' = asset_id g"
  using assms
proof (induction cids arbitrary: g s)
  case (Cons c cs)
  then obtain g1 s1 where "settle_call p c (g, s) = Inr (g1, s1)" "foldE (settle_call p) cs (g1, s1) = Inr (g', s')"
    by (auto simp: bindE_eq_Inr)
  with Cons settle_call_extras show ?case by metis
qed simp

lemma settle_calls_bitassets:
  assumes "foldE (settle_call p) cids (g, s) = Inr (g', s')"
  shows "bitassets s' = bitassets s"
  using assms
proof (induction cids arbitrary: g s)
  case (Cons c cs)
  then obtain g1 s1 where s1: "settle_call p c (g, s) = Inr (g1, s1)" "foldE (settle_call p) cs (g1, s1) = Inr (g', s')"
    by (auto simp: bindE_eq_Inr)
  have "bitassets s1 = bitassets s" using s1(1)
    by (auto simp: settle_call_def bindE_eq_Inr assertE_eq_Inr Let_def dest: fill_call_order_shifts(3))
  with Cons.IH [OF s1(2)] show ?case by simp
qed simp

lemma globally_settle_extras:
  assumes r: "globally_settle_asset i p s = Inr s'" and e: "extras tm s" and wf: "chain_wf s"
  shows "extras tm s'"
  using r
proof (rule globally_settle_cases)
  fix mia b k lo1 hi1 g s1 s2 v
  assume m: "map_of (assets s) i = Some mia" "bitasset_of mia s = Inr b" and k: "map_of (bitassets s) k = Some b"
    and v: "map_of (dyns s) (ao_dynamic_data mia) = Some v"
    and f: "foldE (settle_call p) (call_range lo1 hi1 s) (mk_asset 0 (ba_short_backing_asset b), s) = Inr (g, s1)"
    and ba: "modify_bitasset k (\<lambda>v'. bindE (asset_div (mk_asset (ad_current_supply v) i) g) (\<lambda>p.
           Inr (v'\<lparr>ba_settlement_price := p, ba_settlement_fund := amount g\<rparr>))) s1 = Inr s2"
    and dy: "modify_dyn (ao_dynamic_data mia) (\<lambda>v'. Inr (v'\<lparr>ad_current_supply := ad_current_supply v\<rparr>)) s2 = Inr s'"
  have g: "extras tm s1" "int64_ok (amount g)" "asset_id g = ba_short_backing_asset b"
    using settle_calls_extras [OF f e] by (simp_all add: int64_ok_def safe_min_def safe_max_def)
  have k1: "map_of (bitassets s1) k = Some b" using settle_calls_bitassets [OF f] k by simp
  obtain q where q: "asset_div (mk_asset (ad_current_supply v) i) g = Inr q"
      "s2 = s1\<lparr>bitassets := tput k (b\<lparr>ba_settlement_price := q, ba_settlement_fund := amount g\<rparr>) (bitassets s1)\<rparr>"
    using ba k1 by (auto simp: modify_bitasset_def bindE_eq_Inr tget_Inr)
  have "ba_asset b = i" using market_bitasset(3) [OF wf m] .
  then have "bitasset_ok (b\<lparr>ba_settlement_price := q, ba_settlement_fund := amount g\<rparr>)"
    using extras_bitassetD [OF e k] g q(1) by (auto simp: bitasset_ok_def published_ok_def own_price_def asset_div_Inr)
  from extras_bitasset_put [OF g(1) k1 this] have "extras tm s2" by (simp add: q(2))
  from dy this show "extras tm s'" by (rule modify_dyn_extras) (use extras_dynD [OF e v] in auto)
qed

lemma check_for_blackswan_extras:
  "check_for_blackswan i en s = Inr (swan, s') \<Longrightarrow> extras tm s \<Longrightarrow> chain_wf s \<Longrightarrow> extras tm s'"
  unfolding check_for_blackswan_def Let_def
  by (elim result_elims) (auto intro: globally_settle_extras)

lemma margin_trade_extras: "margin_trade i fn cid lid x l fl s = Inr (u, v, w, s1, s') \<Longrightarrow> extras tm s \<Longrightarrow> extras tm s'"
  unfolding margin_trade_def Let_def
  by (elim result_elims) (auto dest!: fill_limit_order_extras intro: fill_call_order_extras split: if_split_asm)

lemma margin_step_extras:
  "margin_step i en fn cmin cmax ci li fl mc s = Inr (turn, s') \<Longrightarrow> extras tm s \<Longrightarrow> chain_wf s \<Longrightarrow> extras tm s'"
  unfolding margin_step_def Let_def
  by (elim result_elims) (auto intro: globally_settle_extras margin_trade_extras)

lemma margin_loop_extras:
  assumes "margin_loop n i en fn cmin cmax ci li fl mc s = Inr (r, s')" "extras tm s" "chain_wf s"
    and "map_of (assets s) i = Some mia" "bitasset_of mia s = Inr b" "\<not> price_is_null (pf_settlement_price (ba_current_feed b))"
  shows "extras tm s'"
  using assms
proof (induction n arbitrary: ci li fl mc s)
  case (Suc n)
  obtain swan s1 where c: "check_for_blackswan i en s = Inr (swan, s1)"
    using Suc.prems(1) by (auto simp: bindE_eq_Inr)
  note e = check_for_blackswan_effect [OF c Suc.prems(3)] and x = check_for_blackswan_extras [OF c Suc.prems(2,3)]
  show ?case
  proof (cases "swan \<or> ci = [] \<or> li = []")
    case True
    then have "s' = s1" using Suc.prems(1) c by simp
    then show ?thesis using x by simp
  next
    case False
    then have s1: "s1 = s" using e by simp
    obtain turn s2 where t: "margin_step i en fn cmin cmax ci li fl mc s = Inr (turn, s2)"
      using Suc.prems(1) c False by (auto simp: bindE_eq_Inr s1)
    note cons = margin_step_conserves [OF t Suc.prems(3-6)] and x2 = margin_step_extras [OF t Suc.prems(2,3)]
    show ?thesis
    proof (cases turn)
      case (Return y)
      then show ?thesis using Suc.prems(1) c False t x2 by (simp add: s1)
    next
      case (Next ci' li' fl')
      then have l: "margin_loop n i en fn cmin cmax ci' li' fl' True s2 = Inr (r, s')"
        using Suc.prems(1) c False t by (simp add: s1)
      have "bitassets s2 = bitassets s" using cons(2) Next by simp
      then have "bitasset_of mia s2 = Inr b" using Suc.prems(5)
        by (cases "ao_bitasset_data mia") (simp_all add: bitasset_of_def)
      moreover note w = conservesD(1,2) [OF cons(1) Suc.prems(3)]
      ultimately show ?thesis using Suc.IH [OF l x2 w(1)] Suc.prems(4,6) w(2) by simp
    qed
  qed
qed simp

lemma check_call_orders_extras:
  assumes r: "check_call_orders n i en fn s = Inr (called, s')" and e: "extras tm s" and wf: "chain_wf s"
  shows "extras tm s'"
proof -
  have "s' = s \<or> (\<exists>swan. check_for_blackswan i en s = Inr (swan, s')) \<or>
    (\<exists>mia b cmin cmax ci li. map_of (assets s) i = Some mia \<and> bitasset_of mia s = Inr b \<and>
       \<not> price_is_null (pf_settlement_price (ba_current_feed b)) \<and>
       (\<exists>s1. check_for_blackswan i en s = Inr (False, s1) \<and>
             margin_loop n i en fn cmin cmax ci li False False s1 = Inr (called, s')))"
    using r unfolding check_call_orders_def by (elim result_elims; clarsimp simp: tget_Inr; blast)
  then show ?thesis
    using check_for_blackswan_effect [OF _ wf] check_for_blackswan_extras [OF _ e wf] margin_loop_extras [OF _ e wf] e
    by (elim disjE exE conjE) (simp, blast, metis)
qed

text \<open>A state that satisfies both invariants, and a step that keeps them.\<close>

definition sound :: "chain \<Rightarrow> bool" where
  "sound s \<longleftrightarrow> chain_wf s \<and> extras (head_time s) s"

text \<open>\<open>moves s s' d\<close>: from a sound state the step leads to a sound state and changes the surplus of every
  asset by \<open>d\<close>.\<close>

definition moves :: "chain \<Rightarrow> chain \<Rightarrow> (asset_id_type \<Rightarrow> int) \<Rightarrow> bool" where
  "moves s s' d \<longleftrightarrow>
     (sound s \<longrightarrow> sound s' \<and> head_time s' = head_time s \<and> (\<forall>a. surplus s' a = surplus s a + d a))"

lemma moves_trans: "moves s t d \<Longrightarrow> moves t u e \<Longrightarrow> moves s u (\<lambda>a. d a + e a)"
  by (auto simp: moves_def)

lemma moves_step: "moves s t d \<Longrightarrow> moves t u e \<Longrightarrow> (\<And>a. d a + e a = f a) \<Longrightarrow> moves s u f"
  by (auto simp: moves_def)

lemma moves_refl: "moves s s (\<lambda>_. 0)"
  by (simp add: moves_def)

lemma movesI: "(sound s \<Longrightarrow> shifts s s' d) \<Longrightarrow> (sound s \<Longrightarrow> extras (head_time s) s') \<Longrightarrow> moves s s' d"
  using extras_time by (fastforce simp: moves_def sound_def shifts_def)

lemma adjust_balance_moves: "adjust_balance acct x s = Inr s' \<Longrightarrow> moves s s' (\<lambda>a. share_in a x)"
  by (rule movesI) (auto intro: adjust_balance_shifts primitives_extras simp: sound_def)

lemma trading_moves:
  "check_call_orders n i en fn s = Inr (c, s') \<Longrightarrow> moves s s' (\<lambda>_. 0)"
  "apply_order n oid allow s = Inr (c, s') \<Longrightarrow> moves s s' (\<lambda>_. 0)"
  "cancel_limit_order oid vop skip s = Inr s' \<Longrightarrow> moves s s' (\<lambda>_. 0)"
  "cancel_bid k vop s = Inr s' \<Longrightarrow> moves s s' (\<lambda>_. 0)"
  by (rule movesI; use check_call_orders_conserves apply_order_conserves market_conserves(4,5) check_call_orders_extras
      apply_order_extras cancel_limit_order_extras cancel_bid_extras in \<open>force simp: sound_def conserves_def\<close>)+

lemma match_book_moves: "match_book oid go ids s = Inr (fin, rest, s') \<Longrightarrow> moves s s' (\<lambda>_. 0)"
  by (rule movesI) (use match_book_conserves match_book_extras in \<open>force simp: sound_def conserves_def\<close>)+

lemma maybe_cull_moves: "maybe_cull_small_order oid s = Inr (b, s') \<Longrightarrow> moves s s' (\<lambda>_. 0)"
  by (rule movesI) (use market_conserves(3) maybe_cull_extras in \<open>force simp: sound_def conserves_def\<close>)+

lemma moves_trans0: "moves s t (\<lambda>_. 0) \<Longrightarrow> moves t u d \<Longrightarrow> moves s u d"
  by (auto simp: moves_def)

lemma apply_order_before_625_moves:
  assumes "apply_order_before_625 n oid allow s = Inr (b, s')"
  shows "moves s s' (\<lambda>_. 0)"
proof -
  obtain s1 s2 c1 c2 x y where c: "check_call_orders n x allow True s = Inr (c1, s1)"
      "check_call_orders n y allow True s1 = Inr (c2, s2)"
    and rest: "s' = s2 \<or> (\<exists>top ids f1 r1 s3 b4 s4 b5 s5. match_book oid (\<lambda>_. True) ids s2 = Inr (f1, r1, s3) \<and>
       check_call_orders n x allow False s3 = Inr (b4, s4) \<and> check_call_orders n y allow False s4 = Inr (b5, s5) \<and>
       (s' = s5 \<or> (\<exists>b6. maybe_cull_small_order oid s5 = Inr (b6, s'))))"
    using assms(1) unfolding apply_order_before_625_def Let_def
    by (elim result_elims; clarsimp; blast)
  note 2 = moves_trans0 [OF trading_moves(1) [OF c(1)] trading_moves(1) [OF c(2)]]
  have "moves s2 s' (\<lambda>_. 0)"
    using rest by (elim disjE exE conjE)
      (simp add: moves_refl, metis match_book_moves trading_moves(1) moves_trans0,
       metis match_book_moves trading_moves(1) maybe_cull_moves moves_trans0)
  with 2 show ?thesis by (rule moves_trans0)
qed

end
