(* ===== verification/Evaluator_Moves.thy ===== *)
theory Evaluator_Moves
  imports Op_Dispatch Sound_State
begin

text \<open>
  The execution of operations conserves what the state holds and keeps both invariants: the fee steps first,
  then each operation, then \<open>start_evaluate\<close>.
\<close>

subsection \<open>The fee steps\<close>

text \<open>What a deferred fee will hold in the new limit order.\<close>

definition deferred_hold :: "evaluator_state \<Rightarrow> asset_id_type \<Rightarrow> int" where
  "deferred_hold e a = core_share a (deferred_fee e) + share_in a (deferred_paid_fee e)"

text \<open>The members as \<open>prepare_fee\<close> leaves them.\<close>

definition fee_ready :: "evaluator_state \<Rightarrow> asset \<Rightarrow> chain \<Rightarrow> bool" where
  "fee_ready e fee s \<longleftrightarrow> fee_from_account e = fee \<and> 0 \<le> amount fee \<and> 0 \<le> core_fee_paid e \<and>
     fee_asset e = asset_id fee \<and> dyn_of (fee_asset e) s = Inr (fee_asset_dyn_data e) \<and>
     (fee_asset e = CORE \<longrightarrow> core_fee_paid e = amount fee) \<and> deferred_fee e = 0 \<and> deferred_paid_fee e = mk_asset 0 CORE"

lemma prepare_fee_ready:
  assumes "prepare_fee acct fee s = Inr e"
  shows "fee_ready e fee s"
  using assms unfolding prepare_fee_def fee_in_core_def fee_ready_def dyn_of_def
  by (elim result_elims) (auto simp: asset_mul_range tget_Inr tget_def dest: asset_mul_range)

definition pays_extras :: "chain \<Rightarrow> chain \<Rightarrow> (asset_id_type \<Rightarrow> int) \<Rightarrow> bool" where
  "pays_extras s s' d \<longleftrightarrow> transfers s s' d \<and> (\<forall>tm. extras tm s \<longrightarrow> extras tm s')"

lemma pays_extrasD: "pays_extras s s' d \<Longrightarrow> moves s s' d" "pays_extras s s' d \<Longrightarrow> pays_only s s'"
  by (auto simp: pays_extras_def transfers_def sound_def intro: movesI)

lemma pays_extras_step: "pays_extras s t d \<Longrightarrow> pays_extras t u e \<Longrightarrow> (\<And>a. d a + e a = f a) \<Longrightarrow> pays_extras s u f"
  unfolding pays_extras_def by (blast intro: transfers_step)

lemma pays_extras_refl: "pays_extras s s (\<lambda>_. 0)"
  by (simp add: pays_extras_def transfers_refl)

lemma convert_fee_pays:
  assumes "convert_fee False e s = Inr s'" "fee_ready e fee s"
  shows "pays_extras s s' (\<lambda>a. share_in a fee - core_share a (core_fee_paid e))"
proof (cases "fee_asset e = CORE")
  case True
  then have "s' = s" "asset_id fee = CORE" "amount fee = core_fee_paid e"
    using assms by (simp_all add: convert_fee_def fee_ready_def)
  then show ?thesis using transfers_eq [OF transfers_refl]
    by (simp add: pays_extras_def share_in_def core_share_def)
next
  case False
  then have m: "modify_dyn (fee_asset_dyn_data e) (\<lambda>d.
          bindE (safe_add (ad_accumulated_fees d) (amount (fee_from_account e))) (\<lambda>x.
          bindE (safe_sub (ad_fee_pool d) (core_fee_paid e)) (\<lambda>y.
          Inr (d\<lparr>ad_accumulated_fees := x, ad_fee_pool := y\<rparr>)))) s = Inr s'"
    using assms(1) by (simp add: convert_fee_def)
  have r: "dyn_of (asset_id fee) s = Inr (fee_asset_dyn_data e)" "fee_from_account e = fee"
    using assms(2) by (auto simp: fee_ready_def)
  have "transfers s s' (\<lambda>a. share_in a fee - core_share a (core_fee_paid e))"
    using m r(1) by (rule modify_dyn_transfers)
      (auto simp: bindE_eq_Inr safe_add_Inr safe_sub_Inr held_pool_def dyn_surplus_def share_in_def core_share_def r(2))
  then show ?thesis unfolding pays_extras_def using modify_dyn_extras [OF m] by (fastforce simp: bindE_eq_Inr)
qed

lemma pay_fee_pays:
  assumes "pay_fee False e s = Inr s'"
  shows "pays_extras s s' (\<lambda>a. core_share a (core_fee_paid e))"
  using assms pay_fee_transfers primitives_extras(1) by (auto simp: pay_fee_def pays_extras_def)

lemma generic_fee_pays:
  assumes "convert_fee False e s = Inr s1" "pay_fee False e s1 = Inr s2" "fee_ready e fee s"
  shows "pays_extras s s2 (\<lambda>a. share_in a fee - deferred_hold e a)"
  using assms(3) by (intro pays_extras_step [OF convert_fee_pays [OF assms(1,3)] pay_fee_pays [OF assms(2)]])
    (simp add: fee_ready_def deferred_hold_def)

lemma limit_fee_pays:
  assumes c: "limit_convert_fee False e s = Inr s1" and p: "limit_pay_fee False e s1 = Inr (e', s2)" and r: "fee_ready e fee s"
  shows "pays_extras s s2 (\<lambda>a. share_in a fee - deferred_hold e' a) \<and> fee_from_account e' = fee \<and>
    0 \<le> deferred_fee e' \<and> 0 \<le> amount (deferred_paid_fee e')"
proof -
  have "HARDFORK_445_TIME \<le> HARDFORK_CORE_604_TIME" by (simp add: hardfork_times)
  consider (old) "head_time s \<le> HARDFORK_445_TIME" "convert_fee False e s = Inr s1"
    | (middle) "HARDFORK_445_TIME < head_time s" "head_time s \<le> HARDFORK_CORE_604_TIME" "convert_fee False e s = Inr s1"
    | (new) "HARDFORK_CORE_604_TIME < head_time s" "HARDFORK_445_TIME < head_time s"
    using c \<open>HARDFORK_445_TIME \<le> HARDFORK_CORE_604_TIME\<close> by (fastforce simp: limit_convert_fee_def split: if_splits)
  then show ?thesis
  proof cases
    case old
    have "head_time s1 = head_time s" using pays_onlyD(12) [OF pays_extrasD(2) [OF convert_fee_pays [OF old(2) r]]] .
    then have "pay_fee False e s1 = Inr s2" "e' = e" using p old(1) by (auto simp: limit_pay_fee_def bindE_eq_Inr)
    then show ?thesis using generic_fee_pays [OF old(2) _ r] r by (simp add: fee_ready_def)
  next
    case middle
    note cv = convert_fee_pays [OF middle(3) r]
    have "head_time s1 = head_time s" using pays_onlyD(12) [OF pays_extrasD(2) [OF cv]] .
    then have "s2 = s1" "e' = e\<lparr>deferred_fee := core_fee_paid e\<rparr>" using p middle(1,2) by (auto simp: limit_pay_fee_def)
    then show ?thesis using cv r by (simp add: fee_ready_def deferred_hold_def)
  next
    case new
    show ?thesis
    proof (cases "fee_asset e = CORE")
      case True
      then have "s1 = s" using c new by (simp add: limit_convert_fee_def)
      then have "s2 = s" "e' = e\<lparr>deferred_fee := core_fee_paid e\<rparr>" using p new True by (auto simp: limit_pay_fee_def)
      then show ?thesis using r True transfers_eq [OF transfers_refl]
        by (simp add: fee_ready_def deferred_hold_def pays_extras_def core_share_def share_in_def)
    next
      case False
      then have m: "modify_dyn (fee_asset_dyn_data e) (\<lambda>d.
          bindE (safe_sub (ad_fee_pool d) (core_fee_paid e)) (\<lambda>y. Inr (d\<lparr>ad_fee_pool := y\<rparr>))) s = Inr s1"
        using c new by (simp add: limit_convert_fee_def)
      have d: "dyn_of (fee_asset e) s = Inr (fee_asset_dyn_data e)" using r by (auto simp: fee_ready_def)
      have t: "transfers s s1 (\<lambda>a. - core_share a (core_fee_paid e))"
        using m d by (rule modify_dyn_transfers)
          (auto simp: bindE_eq_Inr safe_sub_Inr held_pool_def dyn_surplus_def core_share_def)
      have x: "\<forall>tm. extras tm s \<longrightarrow> extras tm s1" using modify_dyn_extras [OF m] by (fastforce simp: bindE_eq_Inr)
      have "head_time s1 = head_time s" using t pays_onlyD(12) by (auto simp: transfers_def)
      then have "s2 = s1" "e' = e\<lparr>deferred_fee := core_fee_paid e, deferred_paid_fee := fee_from_account e\<rparr>"
        using p new False by (auto simp: limit_pay_fee_def)
      then show ?thesis using t x r by (simp add: fee_ready_def deferred_hold_def pays_extras_def)
    qed
  qed
qed

lemma virtual_fee_pays:
  assumes "virtual_convert_fee False op e s = Inr s1" "virtual_pay_fee False op e s1 = Inr (e', s2)" "fee_ready e (op_fee op) s"
  shows "pays_extras s s2 (\<lambda>a. share_in a (op_fee op) - deferred_hold e' a)" "fee_from_account e' = op_fee op"
    "0 \<le> deferred_fee e'" "0 \<le> amount (deferred_paid_fee e')"
    "(\<forall>p. op \<noteq> LimitOrderCreate p) \<Longrightarrow> deferred_hold e' a = 0"
proof -
  have "pays_extras s s2 (\<lambda>a. share_in a (op_fee op) - deferred_hold e' a) \<and> fee_from_account e' = op_fee op \<and>
    0 \<le> deferred_fee e' \<and> 0 \<le> amount (deferred_paid_fee e') \<and> ((\<forall>p. op \<noteq> LimitOrderCreate p) \<longrightarrow> (\<forall>a. deferred_hold e' a = 0))"
  proof (cases "\<exists>p. op = LimitOrderCreate p")
    case True
    then show ?thesis using assms limit_fee_pays [of e s s1 e' s2 "op_fee op"]
      by (auto simp: virtual_convert_fee_def virtual_pay_fee_def)
  next
    case False
    then have "convert_fee False e s = Inr s1" "pay_fee False e s1 = Inr s2" "e' = e"
      using assms(1,2) by (auto simp: virtual_convert_fee_def virtual_pay_fee_def bindE_eq_Inr split: protocol_operation.splits)
    then show ?thesis using generic_fee_pays [OF _ _ assms(3), of s1 s2] assms(3)
      by (simp add: fee_ready_def deferred_hold_def)
  qed
  then show "pays_extras s s2 (\<lambda>a. share_in a (op_fee op) - deferred_hold e' a)" "fee_from_account e' = op_fee op"
    "0 \<le> deferred_fee e'" "0 \<le> amount (deferred_paid_fee e')"
    "(\<forall>p. op \<noteq> LimitOrderCreate p) \<Longrightarrow> deferred_hold e' a = 0" by blast+
qed

subsection \<open>Ranges of the members\<close>

text \<open>The amounts of an operation are \<open>int64_t\<close> values.\<close>

definition price_amounts :: "price \<Rightarrow> share list" where
  "price_amounts p = [amount (base p), amount (quote p)]"

fun op_amounts :: "protocol_operation \<Rightarrow> share list" where
  "op_amounts (Transfer p) = [amount (tr_amount p)]"
| "op_amounts (OverrideTransfer p) = [amount (ot_amount p)]"
| "op_amounts (LimitOrderCreate p) = [amount (lc_amount_to_sell p), amount (lc_min_to_receive p)]"
| "op_amounts (LimitOrderCancelOp p) = []"
| "op_amounts (CallOrderUpdate p) = [amount (cu_delta_collateral p), amount (cu_delta_debt p)]"
| "op_amounts (BidCollateralOp p) = [amount (bc_additional_collateral p), amount (bc_debt_covered p)]"
| "op_amounts (AssetIssue p) = [amount (ai_asset_to_issue p)]"
| "op_amounts (AssetReserve p) = [amount (rs_amount_to_reserve p)]"
| "op_amounts (AssetFundFeePool p) = [fp_amount p]"
| "op_amounts (AssetUpdateIssuer p) = []"
| "op_amounts (AssetGlobalSettle p) = price_amounts (gs_settle_price p)"
| "op_amounts (AssetSettle p) = [amount (as_amount p)]"
| "op_amounts (AssetPublishFeed p) = price_amounts (pf_settlement_price (pf_feed p)) @ price_amounts (pf_core_exchange_rate (pf_feed p))"
| "op_amounts (AssetUpdateFeedProducers p) = []"
| "op_amounts (AssetClaimFees p) = [amount (cf_amount_to_claim p)]"
| "op_amounts (AssetClaimPool p) = [amount (cp_amount_to_claim p)]"

definition op_in_range :: "protocol_operation \<Rightarrow> bool" where
  "op_in_range op \<longleftrightarrow> list_all int64_ok (amount (op_fee op) # op_amounts op)"

subsection \<open>Transfers, supply and pools\<close>

lemma neg_share: "asset_neg x = Inr m \<Longrightarrow> share_in a m = - share_in a x"
  by (auto simp: asset_neg_def bindE_eq_Inr safe_neg_Inr share_in_def)

lemma pay_moves: "asset_neg x = Inr m \<Longrightarrow> adjust_balance acct m s = Inr s' \<Longrightarrow> moves s s' (\<lambda>a. - share_in a x)"
  using adjust_balance_moves [of acct m s s'] neg_share [of x m] by (simp add: moves_def)

lemma modify_dyn_moves:
  assumes "modify_dyn i f s = Inr s'" "dyn_of c s = Inr i"
    and "\<And>a v v'. f v = Inr v' \<Longrightarrow> held_pool a v' - held_pool a v
           + (if a = c then dyn_surplus (Some v') - dyn_surplus (Some v) else 0) = d a"
    and "\<And>v v'. f v = Inr v' \<Longrightarrow> int64_ok (ad_current_supply v) \<Longrightarrow> int64_ok (ad_current_supply v')"
  shows "moves s s' d"
  by (rule movesI) (use modify_dyn_shifts [OF assms(1-3)] modify_dyn_extras [OF assms(1) _ assms(4)] in \<open>auto simp: sound_def\<close>)

lemma safe_add_int64: "int64_ok x \<Longrightarrow> safe_add x y = Inr z \<Longrightarrow> int64_ok z"
  by (auto simp: safe_add_Inr int64_ok_def)

lemma supply_moves:
  "add_supply i x s = Inr s' \<Longrightarrow> moves s s' (\<lambda>a. - share_in a (mk_asset x i))"
  "sub_supply i x s = Inr s' \<Longrightarrow> moves s s' (\<lambda>a. share_in a (mk_asset x i))"
proof -
  assume "add_supply i x s = Inr s'"
  then obtain d where d: "dyn_of i s = Inr d" and m: "modify_dyn d (\<lambda>v.
       bindE (safe_add (ad_current_supply v) x) (\<lambda>y. Inr (v\<lparr>ad_current_supply := y\<rparr>))) s = Inr s'"
    by (auto simp: add_supply_def bindE_eq_Inr)
  from m d show "moves s s' (\<lambda>a. - share_in a (mk_asset x i))"
    by (rule modify_dyn_moves)
      (auto simp: bindE_eq_Inr safe_add_Inr held_pool_def dyn_surplus_def share_in_def elim: safe_add_int64)
next
  assume "sub_supply i x s = Inr s'"
  then obtain d where d: "dyn_of i s = Inr d" and m: "modify_dyn d (\<lambda>v.
       bindE (safe_sub (ad_current_supply v) x) (\<lambda>y. Inr (v\<lparr>ad_current_supply := y\<rparr>))) s = Inr s'"
    by (auto simp: sub_supply_def bindE_eq_Inr)
  from m d show "moves s s' (\<lambda>a. share_in a (mk_asset x i))"
    by (rule modify_dyn_moves)
      (auto simp: bindE_eq_Inr safe_sub_Inr held_pool_def dyn_surplus_def share_in_def int64_ok_def)
qed

lemma transfer_moves: "transfer_apply p s = Inr (r, s') \<Longrightarrow> moves s s' (\<lambda>_. 0)"
  unfolding transfer_apply_def
  by (elim result_elims) (auto intro: moves_step [OF pay_moves adjust_balance_moves])

lemma override_transfer_moves: "override_transfer_apply p s = Inr (r, s') \<Longrightarrow> moves s s' (\<lambda>_. 0)"
  unfolding override_transfer_apply_def
  by (elim result_elims) (auto intro: moves_step [OF pay_moves adjust_balance_moves])

lemma asset_issue_moves: "asset_issue_apply p s = Inr (r, s') \<Longrightarrow> moves s s' (\<lambda>_. 0)"
  unfolding asset_issue_apply_def
  by (elim result_elims) (auto intro: moves_step [OF adjust_balance_moves supply_moves(1)])

lemma asset_reserve_moves: "asset_reserve_apply p s = Inr (r, s') \<Longrightarrow> moves s s' (\<lambda>_. 0)"
  unfolding asset_reserve_apply_def
  by (elim result_elims) (auto intro: moves_step [OF pay_moves supply_moves(2)])

lemma asset_fund_fee_pool_moves: "asset_fund_fee_pool_apply p s = Inr (r, s') \<Longrightarrow> moves s s' (\<lambda>_. 0)"
  unfolding asset_fund_fee_pool_apply_def
proof (elim result_elims)
  fix m s1 d s2
  assume m: "safe_neg (fp_amount p) = Inr m" and a: "adjust_balance (fp_from_account p) (mk_asset m CORE) s = Inr s1"
    and d: "dyn_of (fp_asset_id p) s1 = Inr d"
    and p: "modify_dyn d (\<lambda>v. bindE (safe_add (ad_fee_pool v) (fp_amount p)) (\<lambda>y. Inr (v\<lparr>ad_fee_pool := y\<rparr>))) s1 = Inr s2"
    and r: "Inr (VoidResult, s2) = (Inr (r, s') :: (operation_result \<times> chain) result)"
  have "moves s1 s2 (\<lambda>a. core_share a (fp_amount p))"
    using p d by (rule modify_dyn_moves)
      (auto simp: bindE_eq_Inr safe_add_Inr held_pool_def dyn_surplus_def core_share_def)
  from moves_step [OF adjust_balance_moves [OF a] this]
  show ?thesis using m r by (simp add: safe_neg_Inr share_in_CORE core_share_def)
qed

lemma asset_claim_fees_moves: "asset_claim_fees_apply p s = Inr (r, s') \<Longrightarrow> moves s s' (\<lambda>_. 0)"
  unfolding asset_claim_fees_apply_def
proof (elim result_elims)
  fix d addo s1 s2
  assume d: "dyn_of (asset_id (cf_amount_to_claim p)) s = Inr d"
    and m: "modify_dyn d (\<lambda>v. bindE (safe_sub (ad_accumulated_fees v) (amount (cf_amount_to_claim p))) (\<lambda>y.
          Inr (v\<lparr>ad_accumulated_fees := y\<rparr>))) s = Inr s1"
    and a: "adjust_balance (cf_issuer p) (cf_amount_to_claim p) s1 = Inr s2"
    and r: "Inr (VoidResult, s2) = (Inr (r, s') :: (operation_result \<times> chain) result)"
  have "moves s s1 (\<lambda>a. - share_in a (cf_amount_to_claim p))"
    using m d by (rule modify_dyn_moves)
      (auto simp: bindE_eq_Inr safe_sub_Inr held_pool_def dyn_surplus_def share_in_def)
  from moves_step [OF this adjust_balance_moves [OF a]] show ?thesis using r by simp
qed

lemma asset_claim_pool_moves:
  "asset_claim_pool_apply p s = Inr (r, s') \<Longrightarrow> asset_id (cp_amount_to_claim p) = CORE \<Longrightarrow> moves s s' (\<lambda>_. 0)"
  unfolding asset_claim_pool_apply_def
proof (elim result_elims)
  fix d addo s1 s2
  assume c: "asset_id (cp_amount_to_claim p) = CORE" and d: "dyn_of (cp_asset_id p) s = Inr d"
    and m: "modify_dyn d (\<lambda>v. bindE (safe_sub (ad_fee_pool v) (amount (cp_amount_to_claim p))) (\<lambda>y. Inr (v\<lparr>ad_fee_pool := y\<rparr>))) s = Inr s1"
    and a: "adjust_balance (cp_issuer p) (cp_amount_to_claim p) s1 = Inr s2"
    and r: "Inr (VoidResult, s2) = (Inr (r, s') :: (operation_result \<times> chain) result)"
  have "moves s s1 (\<lambda>a. - core_share a (amount (cp_amount_to_claim p)))"
    using m d by (rule modify_dyn_moves)
      (auto simp: bindE_eq_Inr safe_sub_Inr held_pool_def dyn_surplus_def core_share_def)
  from moves_step [OF this adjust_balance_moves [OF a]] show ?thesis using r c by (simp add: share_in_def core_share_def)
qed

text \<open>A change of an asset that leaves its data objects and its market fees as they are.\<close>

definition same_links :: "asset_object \<Rightarrow> asset_object \<Rightarrow> bool" where
  "same_links x y \<longleftrightarrow> ao_dynamic_data x = ao_dynamic_data y \<and> ao_bitasset_data x = ao_bitasset_data y \<and>
     ao_market_fee_percent x = ao_market_fee_percent y \<and> ao_max_market_fee x = ao_max_market_fee y"

lemma asset_put_old:
  assumes "map_of (assets s) i = Some x" "same_links x' x" "map_of (tput i x' (assets s)) j = Some y"
  shows "\<exists>z. map_of (assets s) j = Some z \<and> same_links y z"
  using assms by (cases "j = i") (auto simp: same_links_def)

lemma asset_put_wf:
  assumes x: "map_of (assets s) i = Some x" "same_links x' x" and wf: "chain_wf s"
  shows "chain_wf (s\<lparr>assets := tput i x' (assets s)\<rparr>)"
proof -
  let ?s = "s\<lparr>assets := tput i x' (assets s)\<rparr>"
  note w = wf_parts [OF wf] and old = asset_put_old [OF x]
  have "dyns_ok ?s" unfolding dyns_ok_def
  proof (intro allI impI)
    fix j k y z
    assume y: "map_of (assets ?s) j = Some y" and z: "map_of (assets ?s) k = Some z" and e: "ao_dynamic_data y = ao_dynamic_data z"
    obtain y1 z1 where "map_of (assets s) j = Some y1" "same_links y y1" "map_of (assets s) k = Some z1" "same_links z z1"
      using old [of j y] old [of k z] y z by auto
    then show "j = k" using w(2) e unfolding dyns_ok_def same_links_def by metis
  qed
  moreover have "funds_ok ?s" unfolding funds_ok_def
  proof (intro conjI allI impI)
    fix k b assume "map_of (bitassets ?s) k = Some b"
    then show "fund_ok b" using w(3) unfolding funds_ok_def by simp
  next
    fix j y k b
    assume y: "map_of (assets ?s) j = Some y" and k: "ao_bitasset_data y = Some k" "map_of (bitassets ?s) k = Some b"
    obtain z where "map_of (assets s) j = Some z" "ao_bitasset_data z = Some k" using old [of j y] y k(1) by (auto simp: same_links_def)
    then show "ba_asset b = j" using w(3) k(2) unfolding funds_ok_def by auto
  qed
  moreover have "fees_ok ?s" unfolding fees_ok_def
  proof (intro allI impI)
    fix j y assume y: "map_of (assets ?s) j = Some y"
    obtain z where "map_of (assets s) j = Some z" "same_links y z" using old [of j y] y by auto
    then show "int (ao_market_fee_percent y) \<le> PERCENT_100 \<and> 0 \<le> ao_max_market_fee y"
      using w(4) unfolding fees_ok_def same_links_def by simp
  qed
  ultimately show ?thesis using w(1) by (simp add: chain_wf_def tables_ok_def)
qed

lemma asset_put_extras:
  assumes x: "map_of (assets s) i = Some x" "same_links x' x" and e: "extras tm s"
  shows "extras tm (s\<lparr>assets := tput i x' (assets s)\<rparr>)"
proof -
  let ?s = "s\<lparr>assets := tput i x' (assets s)\<rparr>"
  have "backed ?s" unfolding backed_def
  proof (intro allI impI)
    fix k c y b
    assume c: "map_of (calls ?s) k = Some c" and y: "map_of (assets ?s) (debt_type c) = Some y" and b: "bitasset_of y ?s = Inr b"
    obtain z where z: "map_of (assets s) (debt_type c) = Some z" "same_links y z"
      using asset_put_old [OF x, of "debt_type c" y] y by auto
    have "bitasset_of z s = Inr b" using b z(2) by (simp add: bitasset_of_def same_links_def split: option.splits)
    then show "collateral_type c = ba_short_backing_asset b" using e c z(1) unfolding extras_def backed_def by simp
  qed
  then show ?thesis using e by (simp add: extras_def)
qed

lemma asset_update_issuer_moves:
  assumes "asset_update_issuer_apply p s = Inr (r, s')"
  shows "moves s s' (\<lambda>_. 0)"
proof -
  obtain x where x: "map_of (assets s) (ui_asset_to_update p) = Some x"
    and s': "s' = s\<lparr>assets := tput (ui_asset_to_update p) (x\<lparr>ao_issuer := ui_new_issuer p\<rparr>) (assets s)\<rparr>"
    using assms by (auto simp: asset_update_issuer_apply_def bindE_eq_Inr tget_Inr)
  have l: "same_links (x\<lparr>ao_issuer := ui_new_issuer p\<rparr>) x" by (simp add: same_links_def)
  have "own_dyn i s' = own_dyn i s" for i using x by (simp add: s' own_dyn_def)
  then have "surplus s' i = surplus s i" for i by (simp add: surplus_def) (simp add: s')
  then show ?thesis using asset_put_wf [OF x l] asset_put_extras [OF x l] by (simp add: moves_def sound_def s')
qed

end
