(* ===== verification/Evaluator_Correct.thy ===== *)
theory Evaluator_Correct
  imports Evaluator_Moves
begin

text \<open>
  The operations on orders, positions, bids, settlements and feeds conserve what the state holds and keep both
  invariants, and so does \<open>start_evaluate\<close>.
\<close>

subsection \<open>Orders and bids\<close>

lemma core_in_orders_transfers: "core_in_orders acct x s = Inr s' \<Longrightarrow> transfers s s' (\<lambda>_. 0)"
  unfolding core_in_orders_def
  by (elim result_elims, erule stats_orders_transfers) (auto simp: bindE_eq_Inr split: if_splits)

lemma core_in_orders_moves: "core_in_orders acct x s = Inr s' \<Longrightarrow> moves s s' (\<lambda>_. 0)"
  by (rule movesI) (use core_in_orders_transfers [of acct x s s'] primitives_extras(1) in
    \<open>auto simp: transfers_def sound_def core_in_orders_def bindE_eq_Inr\<close>)

lemma create_limit_moves:
  assumes "create_limit o1 s = (oid, s')" "limit_ok o1"
  shows "moves s s' (\<lambda>a. held_limit a o1)"
proof (rule movesI)
  show "shifts s s' (\<lambda>a. held_limit a o1)"
    using limit_table.add_shift [of s o1] assms by (auto simp: create_limit_def)
qed (use assms(1) in \<open>auto simp: create_limit_def sound_def\<close>)

text \<open>What \<open>validate\<close> and the width of the members give for the new order.\<close>

lemma new_order_ok:
  assumes "limit_order_create_validate p = Inr u" "op_in_range (LimitOrderCreate p)" "get_price p = Inr q"
    and "0 \<le> deferred_fee e" "0 \<le> amount (deferred_paid_fee e)"
    and o1_def: "o1 = \<lparr>lo_expiration = t, lo_seller = acct, lo_for_sale = amount (lc_amount_to_sell p), lo_sell_price = q,
       lo_deferred_fee = deferred_fee e, lo_deferred_paid_fee = deferred_paid_fee e\<rparr>"
  shows "limit_ok o1" "held_limit a o1 = share_in a (lc_amount_to_sell p) + deferred_hold e a"
proof -
  have q: "q = \<lparr>base = lc_amount_to_sell p, quote = lc_min_to_receive p\<rparr>"
    using assms(3) by (simp add: get_price_def asset_div_Inr)
  show "limit_ok o1" using assms(1,2,4,5)
    by (auto simp: o1_def q limit_ok_def valid_price_def limit_order_create_validate_def assertE_eq_Inr op_in_range_def int64_ok_def)
  show "held_limit a o1 = share_in a (lc_amount_to_sell p) + deferred_hold e a"
    by (simp add: o1_def q held_limit_def amount_for_sale_def deferred_hold_def share_in_def)
qed

lemma limit_order_create_moves:
  assumes r: "limit_order_create_apply n p e s = Inr (r, s')"
    and ok: "limit_order_create_validate p = Inr u" "op_in_range (LimitOrderCreate p)"
      "0 \<le> deferred_fee e" "0 \<le> amount (deferred_paid_fee e)"
  shows "moves s s' (deferred_hold e)"
  using r unfolding limit_order_create_apply_def
proof (elim result_elims)
  fix s1 m s2 q
  assume s1: "core_in_orders (lc_seller p) (lc_amount_to_sell p) s = Inr s1" and m: "asset_neg (lc_amount_to_sell p) = Inr m"
    and s2: "adjust_balance (lc_seller p) m s1 = Inr s2" and q: "get_price p = Inr q"
    and rest: "(let (oid, s3) = create_limit \<lparr>lo_expiration = lc_expiration p, lo_seller = lc_seller p,
           lo_for_sale = amount (lc_amount_to_sell p), lo_sell_price = q,
           lo_deferred_fee = deferred_fee e, lo_deferred_paid_fee = deferred_paid_fee e\<rparr> s2
     in bindE (if next_maintenance_time s3 \<le> HARDFORK_CORE_625_TIME then apply_order_before_625 n oid True s3
               else apply_order n oid True s3) (\<lambda>(filled, s4).
        assertE (\<not> lc_fill_or_kill p \<or> filled) (Inr (ObjectResult oid, s4)))) = Inr (r, s')"
  obtain oid s3 where c: "create_limit \<lparr>lo_expiration = lc_expiration p, lo_seller = lc_seller p,
           lo_for_sale = amount (lc_amount_to_sell p), lo_sell_price = q,
           lo_deferred_fee = deferred_fee e, lo_deferred_paid_fee = deferred_paid_fee e\<rparr> s2 = (oid, s3)" by fastforce
  note o1 = new_order_ok [OF ok(1,2) q ok(3,4) refl]
  obtain filled where "apply_order_before_625 n oid True s3 = Inr (filled, s') \<or> apply_order n oid True s3 = Inr (filled, s')"
    using rest by (auto simp: c bindE_eq_Inr assertE_eq_Inr split: if_splits)
  then have t: "moves s3 s' (\<lambda>_. 0)" using apply_order_before_625_moves trading_moves(2) by blast
  have "moves s s2 (\<lambda>a. - share_in a (lc_amount_to_sell p))"
    using moves_trans0 [OF core_in_orders_moves [OF s1] pay_moves [OF m s2]] .
  from moves_step [OF this create_limit_moves [OF c o1(1)]] have "moves s s3 (deferred_hold e)" by (simp add: o1(2))
  from moves_step [OF this t] show ?thesis by simp
qed

lemma check_both_moves:
  "moves s s1 (\<lambda>_. 0) \<Longrightarrow> check_call_orders n i en fn s1 = Inr (c, s2) \<Longrightarrow> moves s s2 (\<lambda>_. 0)"
  using moves_trans0 trading_moves(1) by blast

lemma limit_order_cancel_moves: "limit_order_cancel_apply n p s = Inr (r, s') \<Longrightarrow> moves s s' (\<lambda>_. 0)"
  unfolding limit_order_cancel_apply_def
  by (elim result_elims)
    (auto intro: trading_moves(3) check_both_moves [OF check_both_moves [OF trading_moves(3)]])

lemma create_bid_moves: "create_bid b s = Inr (k, s') \<Longrightarrow> moves s s' (\<lambda>a. held_bid a b)"
  by (rule movesI) (auto simp: create_bid_def assertE_eq_Inr sound_def intro: create_bid_effect(1))

lemma bid_collateral_moves: "bid_collateral_apply p s = Inr (r, s') \<Longrightarrow> moves s s' (\<lambda>_. 0)"
  unfolding bid_collateral_apply_def
proof (elim bindE_E)
  fix s1
  assume s1: "(case find_bid p s of None \<Rightarrow> Inr s | Some (k, _) \<Rightarrow> cancel_bid k False s) = Inr s1"
    and rest: "(if amount (bc_debt_covered p) = 0 then Inr (VoidResult, s1)
     else
       bindE (asset_neg (bc_additional_collateral p)) (\<lambda>m.
       bindE (adjust_balance (bc_bidder p) m s1) (\<lambda>s2.
       bindE (asset_div (bc_additional_collateral p) (bc_debt_covered p)) (\<lambda>q.
       bindE (create_bid \<lparr>cb_bidder = bc_bidder p, cb_inv_swan_price = q\<rparr> s2) (\<lambda>(_, s3).
       Inr (VoidResult, s3)))))) = Inr (r, s')"
  have a: "moves s s1 (\<lambda>_. 0)"
    using s1 by (auto intro: trading_moves(4) moves_refl split: option.splits)
  from rest have "moves s1 s' (\<lambda>_. 0)"
  proof (rule if_result_E)
    assume "bindE (asset_neg (bc_additional_collateral p)) (\<lambda>m.
       bindE (adjust_balance (bc_bidder p) m s1) (\<lambda>s2.
       bindE (asset_div (bc_additional_collateral p) (bc_debt_covered p)) (\<lambda>q.
       bindE (create_bid \<lparr>cb_bidder = bc_bidder p, cb_inv_swan_price = q\<rparr> s2) (\<lambda>(_, s3).
       Inr (VoidResult, s3))))) = Inr (r, s')"
    then obtain m s2 q k where m: "asset_neg (bc_additional_collateral p) = Inr m" "adjust_balance (bc_bidder p) m s1 = Inr s2"
      and q: "asset_div (bc_additional_collateral p) (bc_debt_covered p) = Inr q"
      and b: "create_bid \<lparr>cb_bidder = bc_bidder p, cb_inv_swan_price = q\<rparr> s2 = Inr (k, s')"
      by (auto simp: bindE_eq_Inr)
    from moves_step [OF pay_moves [OF m] create_bid_moves [OF b]] q show ?thesis
      by (auto simp: held_bid_def asset_div_Inr)
  qed (simp add: moves_refl)
  with a show ?thesis by (rule moves_trans0)
qed

subsection \<open>Positions\<close>

lemma moves_if: "(sound s \<Longrightarrow> moves s s' d) \<Longrightarrow> moves s s' d"
  by (auto simp: moves_def)

lemma adjust_balance_pays: "adjust_balance acct x s = Inr s' \<Longrightarrow> pays_extras s s' (\<lambda>a. share_in a x)"
  using adjust_balance_transfers primitives_extras(2) by (auto simp: pays_extras_def)

lemma core_in_orders_pays: "core_in_orders acct x s = Inr s' \<Longrightarrow> pays_extras s s' (\<lambda>_. 0)"
  using core_in_orders_transfers [of acct x s s'] primitives_extras(1)
  by (auto simp: pays_extras_def core_in_orders_def bindE_eq_Inr)

lemma move_debt_pays:
  assumes "move_debt p s = Inr s'"
  shows "pays_extras s s' (\<lambda>_. 0)"
proof (cases "amount (cu_delta_debt p) = 0")
  case True
  then show ?thesis using assms by (simp add: move_debt_def pays_extras_refl)
next
  case False
  then obtain s1 d where s1: "adjust_balance (cu_funding_account p) (cu_delta_debt p) s = Inr s1"
    and d: "dyn_of (asset_id (cu_delta_debt p)) s1 = Inr d"
    and m: "modify_dyn d (\<lambda>v. bindE (safe_add (ad_current_supply v) (amount (cu_delta_debt p))) (\<lambda>x.
          assertE (0 \<le> x) (Inr (v\<lparr>ad_current_supply := x\<rparr>)))) s1 = Inr s'"
    using assms by (auto simp: move_debt_def bindE_eq_Inr)
  have "transfers s1 s' (\<lambda>a. - share_in a (cu_delta_debt p))"
    using m d by (rule modify_dyn_transfers)
      (auto simp: bindE_eq_Inr assertE_eq_Inr safe_add_Inr held_pool_def dyn_surplus_def share_in_def)
  moreover have "\<forall>tm. extras tm s1 \<longrightarrow> extras tm s'"
    using modify_dyn_extras [OF m] by (fastforce simp: bindE_eq_Inr assertE_eq_Inr intro: safe_add_int64)
  ultimately have "pays_extras s1 s' (\<lambda>a. - share_in a (cu_delta_debt p))" by (simp add: pays_extras_def)
  then show ?thesis by (rule pays_extras_step [OF adjust_balance_pays [OF s1]]) simp
qed

lemma move_collateral_pays:
  assumes "move_collateral p s = Inr s'"
  shows "pays_extras s s' (\<lambda>a. - share_in a (cu_delta_collateral p))"
proof (cases "amount (cu_delta_collateral p) = 0")
  case True
  then show ?thesis using assms by (simp add: move_collateral_def pays_extras_refl share_in_def cong: if_cong)
next
  case False
  then obtain m s1 where m: "asset_neg (cu_delta_collateral p) = Inr m" and s1: "adjust_balance (cu_funding_account p) m s = Inr s1"
    and s2: "s' = s1 \<or> core_in_orders (cu_funding_account p) (cu_delta_collateral p) s1 = Inr s'"
    using assms by (auto simp: move_collateral_def bindE_eq_Inr split: if_splits)
  have "pays_extras s s1 (\<lambda>a. - share_in a (cu_delta_collateral p))"
    using adjust_balance_pays [OF s1] neg_share [OF m] by simp
  moreover have "pays_extras s1 s' (\<lambda>_. 0)" using s2 pays_extras_refl core_in_orders_pays by blast
  ultimately show ?thesis by (rule pays_extras_step) simp
qed

text \<open>The asset of the debt has a bitasset, and the collateral is its backing asset.\<close>

definition debt_asset_ok :: "call_order_update_operation \<Rightarrow> bitasset_data \<Rightarrow> chain \<Rightarrow> bool" where
  "debt_asset_ok p b s \<longleftrightarrow> (\<exists>o1. map_of (assets s) (asset_id (cu_delta_debt p)) = Some o1 \<and> bitasset_of o1 s = Inr b \<and>
     asset_id (cu_delta_collateral p) = ba_short_backing_asset b)"

lemma extras_call_add:
  assumes "extras tm s" "table_ok (calls s) (next_call s)"
    and "\<And>o1 b. map_of (assets s) (debt_type c) = Some o1 \<Longrightarrow> bitasset_of o1 s = Inr b \<Longrightarrow> collateral_type c = ba_short_backing_asset b"
  shows "extras tm (s\<lparr>calls := tadd (next_call s) c (calls s), next_call := Suc (next_call s)\<rparr>)"
  using assms unfolding extras_def backed_def by (auto simp: map_of_tadd split: if_splits)

lemma open_position_moves:
  assumes r: "open_position p b s = Inr (cid, s')" and d: "debt_asset_ok p b s" and ok: "op_in_range (CallOrderUpdate p)"
  shows "moves s s' (\<lambda>a. share_in a (cu_delta_collateral p))"
proof -
  obtain cp where cp: "call_price (cu_delta_debt p) (cu_delta_collateral p)
        (pf_maintenance_collateral_ratio (ba_current_feed b)) = Inr cp"
    and c: "create_call \<lparr>co_borrower = cu_funding_account p, co_collateral = amount (cu_delta_collateral p),
            co_debt = amount (cu_delta_debt p), co_call_price = cp,
            co_target_collateral_ratio = cu_target_collateral_ratio p\<rparr> s = Inr (cid, s')"
    using r by (auto simp: open_position_def assertE_eq_Inr bindE_eq_Inr)
  note t = call_price_assets [OF cp]
  show ?thesis
  proof (rule movesI)
    show "shifts s s' (\<lambda>a. share_in a (cu_delta_collateral p))"
      using create_call_effect(1) [OF c] ok t
      by (simp add: call_ok_def op_in_range_def held_call_def get_collateral_def collateral_type_def share_in_def)
    assume "sound s"
    then show "extras (head_time s) s'" using c t d
      by (auto simp: create_call_def assertE_eq_Inr sound_def wf_tables debt_asset_ok_def collateral_type_def debt_type_def
          intro!: extras_call_add)
  qed
qed

lemma change_position_moves:
  assumes r: "change_position p b cid c s = Inr (old, s')" and d: "debt_asset_ok p b s"
    and c: "map_of (calls s) cid = Some c" "debt_type c = asset_id (cu_delta_debt p)"
  shows "moves s s' (\<lambda>a. share_in a (cu_delta_collateral p))"
proof (rule moves_if)
  assume s: "sound s"
  have bk: "collateral_type c = asset_id (cu_delta_collateral p)"
    using s d c unfolding sound_def extras_def backed_def debt_asset_ok_def by metis
  have ok: "call_ok c" using s wf_tables(8) c(1) by (auto simp: sound_def dest: table_allD)
  obtain x y where x: "safe_add (co_collateral c) (amount (cu_delta_collateral p)) = Inr x"
    and y: "safe_add (co_debt c) (amount (cu_delta_debt p)) = Inr y"
    and cs: "x = 0 \<and> s' = s\<lparr>calls := tdel cid (calls s)\<rparr> \<or>
       (\<exists>cp. call_price (mk_asset y (debt_type c)) (mk_asset x (collateral_type c)) (pf_maintenance_collateral_ratio (ba_current_feed b)) = Inr cp \<and>
          s' = s\<lparr>calls := tput cid (c\<lparr>co_collateral := x, co_debt := y, co_call_price := cp,
                     co_target_collateral_ratio := cu_target_collateral_ratio p\<rparr>) (calls s)\<rparr>)"
    using r by (auto simp: change_position_def bindE_eq_Inr assertE_eq_Inr Let_def get_debt_def get_collateral_def
        debt_type_def collateral_type_def split: if_splits)
  have x0: "x = co_collateral c + amount (cu_delta_collateral p)" using x by (auto simp: safe_add_Inr)
  from cs show ?thesis
  proof (elim disjE exE conjE)
    assume "x = 0" and s': "s' = s\<lparr>calls := tdel cid (calls s)\<rparr>"
    have "shifts s s' (\<lambda>a. share_in a (cu_delta_collateral p))" unfolding s'
      by (rule shifts_eq [OF calls_del_shift [OF c(1)]])
        (use \<open>x = 0\<close> x0 bk in \<open>auto simp: held_call_def get_collateral_def share_in_def\<close>)
    then show ?thesis by (rule movesI) (use s extras_call_del in \<open>simp add: s' sound_def\<close>)
  next
    fix cp
    let ?c = "c\<lparr>co_collateral := x, co_debt := y, co_call_price := cp, co_target_collateral_ratio := cu_target_collateral_ratio p\<rparr>"
    assume cp: "call_price (mk_asset y (debt_type c)) (mk_asset x (collateral_type c)) (pf_maintenance_collateral_ratio (ba_current_feed b)) = Inr cp"
      and s': "s' = s\<lparr>calls := tput cid ?c (calls s)\<rparr>"
    have t: "collateral_type ?c = collateral_type c" "debt_type ?c = debt_type c"
      using call_price_assets [OF cp] by (simp_all add: collateral_type_def debt_type_def)
    have "shifts s s' (\<lambda>a. held_call a ?c - held_call a c)" unfolding s'
      by (rule calls_put_shift [OF c(1)]) (use safe_add_int64 [OF _ x] safe_add_int64 [OF _ y] in \<open>simp add: call_ok_def\<close>)
    moreover have "held_call a ?c - held_call a c = share_in a (cu_delta_collateral p)" for a
      using t bk x0 by (simp add: held_call_def get_collateral_def share_in_def)
    ultimately have "shifts s s' (\<lambda>a. share_in a (cu_delta_collateral p))" by simp
    then show ?thesis by (rule movesI) (use s extras_call_put [OF _ c(1) t(2,1)] in \<open>simp add: s' sound_def\<close>)
  qed
qed

lemma check_position_moves: "check_position n p k old cid s = Inr s' \<Longrightarrow> moves s s' (\<lambda>_. 0)"
  unfolding check_position_def Let_def
  by (elim result_elims) (auto intro: moves_refl trading_moves(1) split: if_splits)

lemma call_order_update_moves:
  assumes r: "call_order_update_apply n p s = Inr (r, s')" and d: "debt_asset_ok p b s" and ok: "op_in_range (CallOrderUpdate p)"
  shows "moves s s' (\<lambda>_. 0)"
proof (rule moves_if)
  assume sound: "sound s"
  obtain s1 s2 a k b1 where s1: "move_debt p s = Inr s1" and s2: "move_collateral p s1 = Inr s2"
    and a: "map_of (assets s2) (asset_id (cu_delta_debt p)) = Some a" "bitasset_id a = Inr k" "map_of (bitassets s2) k = Some b1"
    and rest: "(case find_position p s2 of
       None \<Rightarrow>
         bindE (open_position p b1 s2) (\<lambda>(cid, s3).
         bindE (check_position n p k None cid s3) (\<lambda>s4. Inr (ObjectResult cid, s4)))
     | Some (cid, c) \<Rightarrow>
         bindE (change_position p b1 cid c s2) (\<lambda>(old, s3).
         if old = None then Inr (ObjectResult cid, s3)
         else bindE (check_position n p k old cid s3) (\<lambda>s4. Inr (ObjectResult cid, s4)))) = Inr (r, s')"
    using r unfolding call_order_update_apply_def by (auto simp: bindE_eq_Inr tget_Inr)
  have p2: "pays_extras s s2 (\<lambda>a. - share_in a (cu_delta_collateral p))"
    by (rule pays_extras_step [OF move_debt_pays [OF s1] move_collateral_pays [OF s2]]) simp
  note f = pays_onlyD [OF pays_extrasD(2) [OF p2]] and m2 = pays_extrasD(1) [OF p2]
  have d2: "debt_asset_ok p b1 s2"
    using d a f by (auto simp: debt_asset_ok_def bitasset_of_def bitasset_id_def tget_Inr of_option_eq_Inr split: option.splits)
  have "sound s2" using m2 sound by (simp add: moves_def)
  have "moves s2 s' (\<lambda>a. share_in a (cu_delta_collateral p))"
  proof (cases "find_position p s2")
    case None
    then obtain cid s3 where "open_position p b1 s2 = Inr (cid, s3)" "check_position n p k None cid s3 = Inr s'"
      using rest by (auto simp: bindE_eq_Inr)
    then show ?thesis using moves_step [OF open_position_moves [OF _ d2 ok] check_position_moves] by fastforce
  next
    case (Some e)
    obtain cid c where e: "e = (cid, c)" by (cases e)
    have c: "map_of (calls s2) cid = Some c" "debt_type c = asset_id (cu_delta_debt p)"
      using tfind_Some [OF wf_tables(3) Some [unfolded find_position_def e]] \<open>sound s2\<close> by (simp_all add: sound_def)
    obtain old s3 where o3: "change_position p b1 cid c s2 = Inr (old, s3)"
      and "s' = s3 \<or> check_position n p k old cid s3 = Inr s'"
      using rest Some e by (auto simp: bindE_eq_Inr split: if_splits)
    then have "moves s3 s' (\<lambda>_. 0)" using moves_refl check_position_moves by blast
    from moves_step [OF change_position_moves [OF o3 d2 c] this] show ?thesis by simp
  qed
  from moves_step [OF m2 this] show ?thesis by simp
qed

subsection \<open>Settlement\<close>

lemma asset_mul_id: "asset_mul x p = Inr y \<Longrightarrow> asset_id x = asset_id (base p) \<Longrightarrow> asset_id y = asset_id (quote p)"
  by (auto simp: asset_mul_def assertE_eq_Inr Let_def)

lemma round_up_id: "multiply_and_round_up x p = Inr y \<Longrightarrow> asset_id x = asset_id (quote p) \<Longrightarrow> asset_id y = asset_id (base p)"
  by (auto simp: multiply_and_round_up_def assertE_eq_Inr Let_def split: if_splits)

lemma market_bitasset_ok:
  assumes "sound s" "map_of (assets s) i = Some mia" "bitasset_of mia s = Inr b"
  shows "bitasset_ok b" "ba_asset b = i" "fund_ok b"
  using assms market_bitasset(2,3) [of s i mia b] extras_bitassetD [of "head_time s" s _ b]
  by (auto simp: sound_def bitasset_of_def tget_Inr split: option.splits)

lemma case_error_Inr: "(case x of Inl _ \<Rightarrow> Inl e | Inr y \<Rightarrow> f y) = Inr z \<longleftrightarrow> (\<exists>y. x = Inr y \<and> f y = Inr z)"
  by (cases x) simp_all

text \<open>The checks before a global settlement give a price of the asset in its backing asset.\<close>

lemma global_settle_price:
  assumes e: "asset_global_settle_evaluate p s = Inr u" and v: "asset_global_settle_validate p = Inr u'" and "sound s"
  obtains mia b where "map_of (assets s) (gs_asset_to_settle p) = Some mia" "bitasset_of mia s = Inr b"
    "asset_id (base (gs_settle_price p)) = gs_asset_to_settle p" "asset_id (quote (gs_settle_price p)) = ba_short_backing_asset b"
proof -
  let ?i = "gs_asset_to_settle p"
  obtain mia b cid c x ok where m: "map_of (assets s) ?i = Some mia" "bitasset_of mia s = Inr b"
    and c: "map_of (calls s) cid = Some c" "debt_type c = ?i"
    and x: "asset_mul (get_debt c) (gs_settle_price p) = Inr x" "asset_le x (get_collateral c) = Inr ok"
    using e by (auto simp: asset_global_settle_evaluate_def Let_def bindE_eq_Inr assertE_eq_Inr tget_Inr deref_Inr case_error_Inr)
  have b: "asset_id (base (gs_settle_price p)) = ?i"
    using v by (simp add: asset_global_settle_validate_def assertE_eq_Inr)
  have "asset_id x = collateral_type c" using x(2) by (simp add: asset_cmp_Inr get_collateral_def)
  moreover have "asset_id x = asset_id (quote (gs_settle_price p))"
    by (rule asset_mul_id [OF x(1)]) (simp add: b c(2) get_debt_def)
  moreover have "collateral_type c = ba_short_backing_asset b"
    using \<open>sound s\<close> c m unfolding sound_def extras_def backed_def by metis
  ultimately show thesis by (intro that [OF m b]) simp
qed

lemma global_settle_moves:
  assumes r: "asset_global_settle_apply p s = Inr (r, s')"
    and "map_of (assets s) (gs_asset_to_settle p) = Some mia" "bitasset_of mia s = Inr b"
      "asset_id (base (gs_settle_price p)) = gs_asset_to_settle p" "asset_id (quote (gs_settle_price p)) = ba_short_backing_asset b"
  shows "moves s s' (\<lambda>_. 0)"
proof -
  have g: "globally_settle_asset (gs_asset_to_settle p) (gs_settle_price p) s = Inr s'"
    using r by (auto simp: asset_global_settle_apply_def bindE_eq_Inr)
  show ?thesis
    by (rule movesI) (use globally_settle_conserves [OF g _ assms(2-5)] globally_settle_extras [OF g] in
      \<open>auto simp: sound_def conserves_def\<close>)
qed

lemma create_settle_moves:
  assumes "s' = snd (create_settle f s)" "int64_ok (amount (fs_balance f))"
  shows "moves s s' (\<lambda>a. share_in a (fs_balance f))"
proof (rule movesI)
  show "shifts s s' (\<lambda>a. share_in a (fs_balance f))"
    using settle_table.add_shift [of s f] assms by (auto simp: create_settle_def settle_ok_def held_settle_def)
qed (use assms(1) in \<open>auto simp: create_settle_def sound_def\<close>)

lemma swan_amounts_ids:
  assumes "swan_amounts x sy b t = Inr (paid, pays)" "own_price b (ba_settlement_price b)" "ba_asset b = asset_id x"
  shows "asset_id paid = ba_short_backing_asset b" "asset_id pays = asset_id x"
proof -
  obtain y where y: "asset_mul x (ba_settlement_price b) = Inr y" "asset_id paid = asset_id y"
    and p: "pays = x \<or> multiply_and_round_up paid (ba_settlement_price b) = Inr pays"
    using assms(1) by (auto simp: swan_amounts_def bindE_eq_Inr assertE_eq_Inr split: if_splits)
  have "asset_id y = asset_id (quote (ba_settlement_price b))"
    by (rule asset_mul_id [OF y(1)]) (use assms(2,3) in \<open>simp add: own_price_def\<close>)
  then show s: "asset_id paid = ba_short_backing_asset b" using y(2) assms(2) by (simp add: own_price_def)
  then show "asset_id pays = asset_id x" using p round_up_id [of paid "ba_settlement_price b" pays] assms(2,3)
    by (auto simp: own_price_def)
qed

lemma fund_pays_moves:
  assumes m: "modify_bitasset k (\<lambda>v. bindE (safe_sub (ba_settlement_fund v) x) (\<lambda>y. Inr (v\<lparr>ba_settlement_fund := y\<rparr>))) s = Inr s'"
    and b: "map_of (bitassets s) k = Some b" "has_settlement b"
  shows "moves s s' (\<lambda>a. - share_in a (mk_asset x (ba_short_backing_asset b)))"
proof (rule movesI)
  show "shifts s s' (\<lambda>a. - share_in a (mk_asset x (ba_short_backing_asset b)))"
    using m by (rule modify_bitasset_shifts)
      (use b in \<open>auto simp: bindE_eq_Inr safe_sub_Inr held_fund_def share_in_def fund_ok_def has_settlement_def\<close>)
  assume s: "sound s"
  obtain y where y: "safe_sub (ba_settlement_fund b) x = Inr y" "s' = s\<lparr>bitassets := tput k (b\<lparr>ba_settlement_fund := y\<rparr>) (bitassets s)\<rparr>"
    using m b by (auto simp: modify_bitasset_def bindE_eq_Inr tget_Inr)
  have "bitasset_ok b" using s b(1) extras_bitassetD by (auto simp: sound_def)
  then have "bitasset_ok (b\<lparr>ba_settlement_fund := y\<rparr>)"
    using safe_sub_int64 [OF _ y(1)] by (simp add: bitasset_ok_def published_ok_def own_price_def has_settlement_def)
  then show "extras (head_time s) s'" unfolding y(2) using s extras_bitasset_put [OF _ b(1)] by (simp add: sound_def)
qed

lemma settle_from_fund_moves:
  assumes r: "settle_from_fund acct x k b s = Inr (r, s')"
    and b: "map_of (bitassets s) k = Some b" "has_settlement b" "own_price b (ba_settlement_price b)" "ba_asset b = asset_id x"
  shows "moves s s' (\<lambda>_. 0)"
proof -
  obtain sy paid pays m s1 s3 where sw: "swan_amounts x sy b (next_maintenance_time s) = Inr (paid, pays)"
    and m: "asset_neg pays = Inr m" "adjust_balance acct m s = Inr s1"
    and f: "(if 0 < amount paid then
              bindE (modify_bitasset k (\<lambda>v.
                bindE (safe_sub (ba_settlement_fund v) (amount paid)) (\<lambda>y.
                Inr (v\<lparr>ba_settlement_fund := y\<rparr>))) s1) (\<lambda>s2.
              adjust_balance acct paid s2)
            else Inr s1) = Inr s3"
    and s4: "sub_supply (asset_id x) (amount pays) s3 = Inr s'"
    using r unfolding settle_from_fund_def
    by (elim bindE_E prod_result_E) (simp only: Inr_inject prod.inject, blast)
  note ids = swan_amounts_ids [OF sw b(3,4)]
  have b1: "map_of (bitassets s1) k = Some b" using b(1) pays_onlyD(10) [OF pays_extrasD(2) [OF adjust_balance_pays [OF m(2)]]] by simp
  have "moves s1 s3 (\<lambda>_. 0)"
  proof (cases "0 < amount paid")
    case True
    then obtain s2 where s2: "modify_bitasset k (\<lambda>v. bindE (safe_sub (ba_settlement_fund v) (amount paid)) (\<lambda>y.
                Inr (v\<lparr>ba_settlement_fund := y\<rparr>))) s1 = Inr s2" "adjust_balance acct paid s2 = Inr s3"
      using f by (auto simp: bindE_eq_Inr)
    show ?thesis by (rule moves_step [OF fund_pays_moves [OF s2(1) b1 b(2)] adjust_balance_moves [OF s2(2)]])
      (simp add: share_in_def ids)
  qed (use f moves_refl in simp)
  from moves_step [OF pay_moves [OF m] this] have "moves s s3 (\<lambda>a. - share_in a pays)" by simp
  from moves_step [OF this supply_moves(2) [OF s4]] show ?thesis by (simp add: share_in_def ids)
qed

lemma asset_settle_moves:
  assumes r: "asset_settle_apply p s = Inr (r, s')" and ok: "op_in_range (AssetSettle p)"
  shows "moves s s' (\<lambda>_. 0)"
proof (rule moves_if)
  assume s: "sound s"
  obtain a b where m: "map_of (assets s) (asset_id (as_amount p)) = Some a" "bitasset_of a s = Inr b"
    and rest: "(if has_settlement b then
       bindE (bitasset_id a) (\<lambda>k. settle_from_fund (as_account p) (as_amount p) k b s)
     else
       bindE (asset_neg (as_amount p)) (\<lambda>m.
       bindE (adjust_balance (as_account p) m s) (\<lambda>s1.
       let (sid, s2) = create_settle \<lparr>fs_owner = as_account p, fs_balance = as_amount p,
             fs_settlement_date = (head_time s1 + ba_force_settlement_delay_sec b) mod 2 ^ 32\<rparr> s1
       in Inr (ObjectResult sid, s2)))) = Inr (r, s')"
    using r unfolding asset_settle_apply_def by (auto simp: bindE_eq_Inr tget_Inr simp del: if_split)
  note mk = market_bitasset_ok [OF s m]
  show ?thesis
  proof (cases "has_settlement b")
    case True
    then obtain k where k: "bitasset_id a = Inr k" "settle_from_fund (as_account p) (as_amount p) k b s = Inr (r, s')"
      using rest by (auto simp: bindE_eq_Inr)
    have "map_of (bitassets s) k = Some b" using m(2) k(1)
      by (auto simp: bitasset_of_def bitasset_id_def tget_Inr of_option_eq_Inr)
    then show ?thesis using settle_from_fund_moves [OF k(2)] True mk by (simp add: bitasset_ok_def)
  next
    case False
    then obtain m s1 where n: "asset_neg (as_amount p) = Inr m" "adjust_balance (as_account p) m s = Inr s1"
      and c: "s' = snd (create_settle \<lparr>fs_owner = as_account p, fs_balance = as_amount p,
             fs_settlement_date = (head_time s1 + ba_force_settlement_delay_sec b) mod 2 ^ 32\<rparr> s1)"
      using rest by (auto simp: bindE_eq_Inr split_beta Let_def)
    show ?thesis by (rule moves_step [OF pay_moves [OF n] create_settle_moves [OF c]])
      (use ok in \<open>simp_all add: op_in_range_def\<close>)
  qed
qed

subsection \<open>Feeds\<close>

text \<open>A new current feed is null or one of the published ones.\<close>

lemma median_feed_price:
  assumes "nth_element_spec select" "fs \<noteq> []"
  shows "pf_settlement_price (median_feed select fs) \<in> pf_settlement_price ` set fs"
proof -
  let ?k = "length fs div 2"
  have "?k < length (select by_settlement_price ?k fs)"
    using assms by (simp add: nth_element_length div_less_dividend)
  then have "select by_settlement_price ?k fs ! ?k \<in> set fs"
    using nth_mem nth_element_set [OF assms(1)] by metis
  then show ?thesis by (simp add: median_feed_def Let_def)
qed

definition feeds_ok :: "bitasset_data \<Rightarrow> bool" where
  "feeds_ok b \<longleftrightarrow> (\<forall>e \<in> set (ba_feeds b). published_ok b (pf_settlement_price (snd (snd e))))"

lemma default_feed_null [simp]: "price_is_null (pf_settlement_price default_price_feed)"
  by (simp add: default_price_feed_def null_price_def price_is_null_def)

lemma update_median_feeds_ok:
  assumes u: "update_median_feeds select now b = Inr b'" and sel: "nth_element_spec select" and f: "feeds_ok b"
  shows "published_ok b (pf_settlement_price (ba_current_feed b'))" "ba_asset b' = ba_asset b"
    "ba_short_backing_asset b' = ba_short_backing_asset b" "ba_settlement_fund b' = ba_settlement_fund b"
    "ba_settlement_price b' = ba_settlement_price b" "ba_feeds b' = ba_feeds b"
proof -
  let ?fs = "map (\<lambda>e. snd (snd e)) (live_feeds now b)"
  have fs: "published_ok b (pf_settlement_price x)" if "x \<in> set ?fs" for x
    using that f by (auto simp: feeds_ok_def live_feeds_def)
  have "published_ok b (pf_settlement_price (median_feed select ?fs))" if "?fs \<noteq> []"
    using median_feed_price [OF sel that] fs by fastforce
  moreover have "published_ok b (pf_settlement_price (hd ?fs))" if "?fs \<noteq> []"
    using fs [OF hd_in_set [OF that]] .
  moreover have "published_ok b (pf_settlement_price default_price_feed)" by (simp add: published_ok_def)
  ultimately show "published_ok b (pf_settlement_price (ba_current_feed b'))"
    using u unfolding update_median_feeds_def Let_def
    by (fastforce simp: set_current_feed_def split: if_splits)
  show "ba_asset b' = ba_asset b"
    "ba_short_backing_asset b' = ba_short_backing_asset b" "ba_settlement_fund b' = ba_settlement_fund b"
    "ba_settlement_price b' = ba_settlement_price b" "ba_feeds b' = ba_feeds b"
    using u by (auto simp: update_median_feeds_def Let_def set_current_feed_def split: if_splits)
qed

text \<open>New feeds and the median of them.\<close>

lemma new_feeds_moves:
  assumes m: "modify_bitasset k (\<lambda>b. update_median_feeds select (head_time s) (b\<lparr>ba_feeds := g (ba_feeds b)\<rparr>)) s = Inr s'"
    and sel: "nth_element_spec select"
    and g: "\<And>b. map_of (bitassets s) k = Some b \<Longrightarrow> bitasset_ok b \<Longrightarrow> feeds_ok (b\<lparr>ba_feeds := g (ba_feeds b)\<rparr>)"
  shows "moves s s' (\<lambda>_. 0)"
proof (rule moves_if)
  assume s: "sound s"
  obtain b b' where b: "map_of (bitassets s) k = Some b"
    and u: "update_median_feeds select (head_time s) (b\<lparr>ba_feeds := g (ba_feeds b)\<rparr>) = Inr b'"
    and s': "s' = s\<lparr>bitassets := tput k b' (bitassets s)\<rparr>"
    using m by (auto simp: modify_bitasset_def bindE_eq_Inr tget_Inr)
  have ok: "bitasset_ok b" using s b extras_bitassetD by (auto simp: sound_def)
  note f = g [OF b ok] and e = update_median_feeds_ok [OF u sel g [OF b ok]]
  have bok: "bitasset_ok b'" using ok f e unfolding bitasset_ok_def feeds_ok_def
    by (simp add: published_ok_def own_price_def has_settlement_def)
  have fok: "fund_ok b'" if "fund_ok b" using that e
    by (auto simp: fund_ok_def published_ok_def own_price_def has_settlement_def)
  have "shifts s s' (\<lambda>_. 0)" unfolding s'
    by (rule bitasset_shift [OF b]) (use e fok in \<open>simp_all add: held_fund_def\<close>)
  moreover have "extras (head_time s) s'" unfolding s'
    by (rule extras_bitasset_put [OF _ b bok]) (use s e in \<open>simp_all add: sound_def\<close>)
  ultimately show ?thesis by (intro movesI) simp_all
qed

lemma feed_put_set: "set (feed_put k v fs) \<subseteq> insert (k, v) (set fs)"
  by (induction fs) (auto split: if_splits)

lemma new_producers_set:
  assumes "e \<in> set (new_producers ps fs)"
  shows "e \<in> set fs \<or> snd (snd e) = default_price_feed"
proof -
  let ?step = "\<lambda>fs acc. if map_of fs acc = None then feed_put acc (0, default_price_feed) fs else fs"
  have "snd (snd e) = default_price_feed" if "e \<in> set (foldl ?step gs ps)" "e \<notin> set gs" for gs
    using that
  proof (induction ps arbitrary: gs)
    case (Cons q qs)
    show ?case
    proof (cases "e \<in> set (?step gs q)")
      case True
      then have "e \<in> insert (q, 0, default_price_feed) (set gs)"
        using feed_put_set [of q "(0, default_price_feed)" gs] by (simp split: if_splits, blast)
      then show ?thesis using Cons.prems(2) by auto
    next
      case False
      then show ?thesis using Cons.IH [of "?step gs q"] Cons.prems(1) by simp
    qed
  qed simp
  then show ?thesis using assms unfolding new_producers_def by (meson filter_is_subset subsetD)
qed

lemma feed_producers_moves:
  assumes r: "asset_update_feed_producers_apply select n p s = Inr (r, s')" and sel: "nth_element_spec select"
  shows "moves s s' (\<lambda>_. 0)"
proof -
  obtain k s1 c where m: "modify_bitasset k (\<lambda>b. update_median_feeds select (head_time s)
              (b\<lparr>ba_feeds := new_producers (fd_new_feed_producers p) (ba_feeds b)\<rparr>)) s = Inr s1"
    and c: "check_call_orders n (fd_asset_to_update p) True False s1 = Inr (c, s')"
    using r unfolding asset_update_feed_producers_apply_def by (auto simp: bindE_eq_Inr)
  have "moves s s1 (\<lambda>_. 0)"
    by (rule new_feeds_moves [OF m sel])
      (auto simp: feeds_ok_def bitasset_ok_def published_ok_def own_price_def dest!: new_producers_set)
  then show ?thesis using trading_moves(1) [OF c] by (rule moves_trans0)
qed

text \<open>Revival keeps the invariant.\<close>

lemma execute_bid_extras:
  assumes r: "execute_bid k debt fund feed s = Inr s'" and b: "map_of (bids s) k = Some b" and s: "extras tm s" "chain_wf s"
    and bk: "\<And>o1 ba. map_of (assets s) (asset_id (quote (cb_inv_swan_price b))) = Some o1 \<Longrightarrow> bitasset_of o1 s = Inr ba \<Longrightarrow>
       asset_id (base (cb_inv_swan_price b)) = ba_short_backing_asset ba"
  shows "extras tm s'"
  using r unfolding execute_bid_def Let_def deref_Inr
proof (elim bindE_E prod_result_E)
  fix b' coll cp x k1 s1 s2
  assume b': "deref (bids s) k = Inr b'"
    and cp: "call_price (mk_asset debt (asset_id (quote (cb_inv_swan_price b')))) (mk_asset coll (asset_id (base (cb_inv_swan_price b'))))
                 (pf_maintenance_collateral_ratio feed) = Inr cp"
    and c: "create_call \<lparr>co_borrower = cb_bidder b', co_collateral = coll, co_debt = debt,
                 co_call_price = cp, co_target_collateral_ratio = None\<rparr> s = Inr x" and x: "x = (k1, s1)"
    and st: "(if asset_id (base (cb_inv_swan_price b')) = CORE then
                 bindE (get_account_stats_by_owner (cb_bidder b') s1) (\<lambda>st.
                 modify_stats st (\<lambda>v. bindE (safe_add (st_total_core_in_orders v) coll) (\<lambda>x.
                   Inr (v\<lparr>st_total_core_in_orders := x\<rparr>))) s1)
               else Inr s1) = Inr s2"
    and s': "Inr ((push_applied_operation (ExecuteBid (cb_bidder b') (mk_asset coll (asset_id (base (cb_inv_swan_price b'))))
                  (mk_asset debt (asset_id (quote (cb_inv_swan_price b'))))) s2)
                \<lparr>bids := tdel k (bids (push_applied_operation (ExecuteBid (cb_bidder b') (mk_asset coll (asset_id (base (cb_inv_swan_price b'))))
                  (mk_asset debt (asset_id (quote (cb_inv_swan_price b'))))) s2))\<rparr>) = (Inr s' :: chain result)"
  have eq: "b' = b" using b b' by (simp add: deref_Inr)
  have "extras tm s1" using c x call_price_assets [OF cp] bk s
    by (auto simp: create_call_def assertE_eq_Inr wf_tables debt_type_def collateral_type_def eq intro!: extras_call_add)
  then have "extras tm s2" using st primitives_extras(1) by (auto simp: bindE_eq_Inr split: if_splits)
  then show "extras tm s'" using s' by auto
qed

lemma cancel_bids_and_revive_extras:
  assumes r: "cancel_bids_and_revive_mpa i s = Inr s'" and e: "extras tm s"
  shows "extras tm s'"
proof -
  obtain top s1 k where s1: "foldE (\<lambda>bid. cancel_bid bid True) (bid_range i top s) s = Inr s1"
    and s': "modify_bitasset k (\<lambda>v. Inr (v\<lparr>ba_settlement_price := null_price, ba_settlement_fund := 0\<rparr>)) s1 = Inr s'"
    using r unfolding cancel_bids_and_revive_mpa_def by (auto simp: bindE_eq_Inr assertE_eq_Inr)
  have e1: "extras tm s1" by (rule foldE_invariant [OF s1, of "extras tm"]) (use e cancel_bid_extras in auto)
  obtain v where v: "map_of (bitassets s1) k = Some v"
    "s' = s1\<lparr>bitassets := tput k (v\<lparr>ba_settlement_price := null_price, ba_settlement_fund := 0\<rparr>) (bitassets s1)\<rparr>"
    using s' by (auto simp: modify_bitasset_def bindE_eq_Inr tget_Inr)
  have "bitasset_ok (v\<lparr>ba_settlement_price := null_price, ba_settlement_fund := 0\<rparr>)"
    using extras_bitassetD [OF e1 v(1)]
    by (auto simp: bitasset_ok_def published_ok_def own_price_def has_settlement_def price_is_null_def null_price_def
        int64_ok_def safe_min_def safe_max_def)
  then show ?thesis unfolding v(2) by (rule extras_bitasset_put [OF e1 v(1)]) simp
qed

lemma revive_bitasset_moves:
  assumes r: "revive_bitasset i s = Inr s'"
  shows "moves s s' (\<lambda>_. 0)"
proof (rule moves_if)
  assume "sound s"
  then have e: "extras (head_time s) s" and wf: "chain_wf s" by (simp_all add: sound_def)
  obtain o1 b d s2 where m: "map_of (assets s) i = Some o1" "bitasset_of o1 s = Inr b" "map_of (dyns s) (ao_dynamic_data o1) = Some d"
    and c: "(if 0 < ad_current_supply d then
                 bindE (asset_div (mk_asset 0 (ba_short_backing_asset b)) (mk_asset (ad_current_supply d) i)) (\<lambda>p.
                 bindE (create_bid \<lparr>cb_bidder = ao_issuer o1, cb_inv_swan_price = p\<rparr> s) (\<lambda>(pseudo_bid, s1).
                 execute_bid pseudo_bid (ad_current_supply d) (ba_settlement_fund b) (ba_current_feed b) s1))
               else assertE (ba_settlement_fund b = 0) (Inr s)) = Inr s2"
    and s2: "cancel_bids_and_revive_mpa i s2 = Inr s'"
    using r unfolding revive_bitasset_def by (auto simp: bindE_eq_Inr assertE_eq_Inr tget_Inr simp del: if_split)
  have ok: "issued s i = Some (ad_current_supply d)" "int64_ok (ad_current_supply d)" "int64_ok (ba_settlement_fund b)"
    using m extras_dynD [OF e m(3)] market_bitasset_ok(1) [OF \<open>sound s\<close> m(1,2)]
    by (simp_all add: issued_def own_dyn_def bitasset_ok_def)
  have "extras (head_time s) s2"
  proof (cases "0 < ad_current_supply d")
    case True
    then obtain p k s1 where q: "asset_div (mk_asset 0 (ba_short_backing_asset b)) (mk_asset (ad_current_supply d) i) = Inr p"
      and s1: "create_bid \<lparr>cb_bidder = ao_issuer o1, cb_inv_swan_price = p\<rparr> s = Inr (k, s1)"
      and x: "execute_bid k (ad_current_supply d) (ba_settlement_fund b) (ba_current_feed b) s1 = Inr s2"
      using c by (auto simp: bindE_eq_Inr)
    have p: "base p = mk_asset 0 (ba_short_backing_asset b)" "asset_id (quote p) = i"
      using q by (auto simp: asset_div_Inr)
    note f = create_bid_effect [OF s1]
    have "extras (head_time s) s1" "assets s1 = assets s" "bitasset_of o1 s1 = Inr b"
      using s1 e m(2) by (auto simp: create_bid_def assertE_eq_Inr)
    then show ?thesis
      by (intro execute_bid_extras [OF x f(3) [OF wf]]) (use shiftsD(1) [OF f(1) wf] m(1) p in auto)
  qed (use c e in \<open>simp add: assertE_eq_Inr\<close>)
  from cancel_bids_and_revive_extras [OF s2 this] have "extras (head_time s) s'" .
  then show ?thesis
    by (intro movesI) (use revive_bitasset_effect(1) [OF r wf m(1,2) ok] in \<open>simp_all add: conserves_def\<close>)
qed

text \<open>What \<open>validate\<close> and \<open>do_evaluate\<close> give for a published feed.\<close>

definition feed_fits :: "asset_publish_feed_operation \<Rightarrow> bitasset_data \<Rightarrow> chain \<Rightarrow> bool" where
  "feed_fits p b s \<longleftrightarrow> (let sp = pf_settlement_price (pf_feed p) in \<exists>o1. map_of (assets s) (pf_asset_id p) = Some o1 \<and>
     bitasset_of o1 s = Inr b \<and> valid_price sp \<and> asset_id (base sp) = pf_asset_id p \<and> asset_id (quote sp) = ba_short_backing_asset b)"

lemma publish_feed_fits:
  assumes v: "asset_publish_feed_validate p = Inr u" and e: "asset_publish_feed_evaluate p s = Inr u'"
    and ok: "op_in_range (AssetPublishFeed p)"
  obtains b where "feed_fits p b s"
proof -
  let ?sp = "pf_settlement_price (pf_feed p)"
  obtain o1 b where m: "map_of (assets s) (pf_asset_id p) = Some o1" "bitasset_of o1 s = Inr b"
      "asset_id (quote ?sp) = ba_short_backing_asset b"
    using e by (auto simp: asset_publish_feed_evaluate_def Let_def bindE_eq_Inr assertE_eq_Inr tget_Inr)
  have nn: "\<not> price_is_null ?sp" and f: "price_feed_validate (pf_feed p) = Inr ()" and i: "price_feed_is_for (pf_feed p) (pf_asset_id p)"
    using v by (auto simp: asset_publish_feed_validate_def Let_def bindE_eq_Inr assertE_eq_Inr)
  have "price_validate ?sp = Inr ()" using f nn by (auto simp: price_feed_validate_def bindE_eq_Inr)
  then have "valid_price ?sp" using ok
    by (auto simp: price_validate_Inr valid_price_def op_in_range_def price_amounts_def int64_ok_def)
  moreover have "asset_id (base ?sp) = pf_asset_id p" using i nn by (simp add: price_feed_is_for_def)
  ultimately show thesis using m by (intro that [of b]) (simp add: feed_fits_def Let_def)
qed

lemma publish_feed_moves:
  assumes r: "asset_publish_feed_apply select n p s = Inr (r, s')" and sel: "nth_element_spec select"
    and f: "feed_fits p b s"
  shows "moves s s' (\<lambda>_. 0)"
proof (rule moves_if)
  assume s: "sound s"
  let ?i = "pf_asset_id p"
  obtain o1 k s1 where o1: "map_of (assets s) ?i = Some o1" "bitasset_id o1 = Inr k"
    and m: "modify_bitasset k (\<lambda>b. update_median_feeds select (head_time s)
                  (b\<lparr>ba_feeds := feed_put (pf_publisher p) (head_time s, pf_feed p) (ba_feeds b)\<rparr>)) s = Inr s1"
    and rest: "s' = s1 \<or> (\<exists>s2 c. (s2 = s1 \<or> revive_bitasset ?i s1 = Inr s2) \<and> check_call_orders n ?i True False s2 = Inr (c, s'))"
    using r unfolding asset_publish_feed_apply_def Let_def
    by (elim result_elims; clarsimp simp: tget_Inr bindE_eq_Inr split: if_splits; blast)
  have b: "map_of (bitassets s) k = Some b" "bitasset_of o1 s = Inr b"
    using f o1 by (auto simp: feed_fits_def Let_def bitasset_of_def bitasset_id_def of_option_eq_Inr tget_Inr)
  have "published_ok b (pf_settlement_price (pf_feed p))"
    using f market_bitasset_ok(2) [OF s o1(1) b(2)] by (auto simp: feed_fits_def Let_def published_ok_def own_price_def)
  then have "moves s s1 (\<lambda>_. 0)"
    by (intro new_feeds_moves [OF m sel])
      (use b(1) feed_put_set in \<open>fastforce simp: feeds_ok_def bitasset_ok_def published_ok_def own_price_def\<close>)
  moreover have "moves s1 s' (\<lambda>_. 0)"
    using rest moves_refl trading_moves(1) revive_bitasset_moves moves_trans0 by metis
  ultimately show ?thesis by (rule moves_trans0)
qed

end
