(* ===== verification/Dispatch_Correct.thy ===== *)
theory Dispatch_Correct
  imports Evaluator_Correct
begin

text \<open>
  The contract of an evaluator: \<open>validate\<close> and \<open>do_evaluate\<close> accept the operation, then \<open>do_apply\<close>, run after
  the fee steps, keeps a sound state sound and moves nothing but the deferred fee into the state.  Every
  evaluator keeps the contract, so does the dispatch over the operations, and \<open>start_evaluate\<close> conserves what
  the state holds.
\<close>

locale evaluator_contract =
  fixes vld :: "'p \<Rightarrow> unit result"
    and evl :: "'p \<Rightarrow> chain \<Rightarrow> unit result"
    and app :: "'p \<Rightarrow> evaluator_state \<Rightarrow> chain \<Rightarrow> (operation_result \<times> chain) result"
    and hold :: "'p \<Rightarrow> evaluator_state \<Rightarrow> asset_id_type \<Rightarrow> int"
    and pre :: "'p \<Rightarrow> bool"
  assumes keeps_sound: "vld p = Inr () \<Longrightarrow> pre p \<Longrightarrow> sound s \<Longrightarrow> evl p s = Inr () \<Longrightarrow> pays_only s t \<Longrightarrow>
      0 \<le> deferred_fee e \<Longrightarrow> 0 \<le> amount (deferred_paid_fee e) \<Longrightarrow> app p e t = Inr (r, u) \<Longrightarrow> moves t u (hold p e)"
begin

text \<open>With the fee: what \<open>convert_fee\<close> and \<open>pay_fee\<close> put into the state is taken from the payer at the end.\<close>

lemma run_conserves:
  assumes "vld p = Inr ()" "pre p" "sound s" "evl p s = Inr ()"
    and fee: "pays_extras s t (\<lambda>a. share_in a fee - hold p e a)" "0 \<le> deferred_fee e" "0 \<le> amount (deferred_paid_fee e)"
    and app: "app p e t = Inr (r, u)" and pay: "asset_neg fee = Inr m" "adjust_balance payer m u = Inr v"
  shows "moves s v (\<lambda>_. 0)"
proof -
  have "moves t u (hold p e)" by (rule keeps_sound [OF assms(1-4) pays_extrasD(2) [OF fee(1)] fee(2,3) app])
  from moves_step [OF pays_extrasD(1) [OF fee(1)] this] have "moves s u (\<lambda>a. share_in a fee)" by simp
  from moves_step [OF this pay_moves [OF pay]] show ?thesis by simp
qed

end

abbreviation holds_nothing :: "'p \<Rightarrow> evaluator_state \<Rightarrow> asset_id_type \<Rightarrow> int" where
  "holds_nothing \<equiv> \<lambda>_ _ _. 0"

subsection \<open>The evaluators keep the contract\<close>

interpretation transfer_ev: evaluator_contract transfer_validate transfer_evaluate "\<lambda>p _. transfer_apply p" holds_nothing "\<lambda>_. True"
  by unfold_locales (rule transfer_moves)

interpretation override_transfer_ev: evaluator_contract override_transfer_validate override_transfer_evaluate
    "\<lambda>p _. override_transfer_apply p" holds_nothing "\<lambda>_. True"
  by unfold_locales (rule override_transfer_moves)

interpretation limit_order_create_ev: evaluator_contract limit_order_create_validate limit_order_create_evaluate
    "limit_order_create_apply n" "\<lambda>_. deferred_hold" "\<lambda>p. op_in_range (LimitOrderCreate p)"
  by unfold_locales (rule limit_order_create_moves)

interpretation limit_order_cancel_ev: evaluator_contract limit_order_cancel_validate limit_order_cancel_evaluate
    "\<lambda>p _. limit_order_cancel_apply n p" holds_nothing "\<lambda>_. True"
  by unfold_locales (rule limit_order_cancel_moves)

lemma bitasset_of_pays: "pays_only s t \<Longrightarrow> bitasset_of o1 t = bitasset_of o1 s"
  by (simp add: bitasset_of_def pays_onlyD split: option.split)

lemma call_update_debt_asset: "call_order_update_evaluate p s = Inr u \<Longrightarrow> \<exists>b. debt_asset_ok p b s"
  by (auto simp: call_order_update_evaluate_def debt_asset_ok_def assertE_eq_Inr bindE_eq_Inr tget_Inr)

interpretation call_order_update_ev: evaluator_contract call_order_update_validate call_order_update_evaluate
    "\<lambda>p _. call_order_update_apply n p" holds_nothing "\<lambda>p. op_in_range (CallOrderUpdate p)"
proof
  fix p s t e r u
  assume "call_order_update_evaluate p s = Inr ()" "pays_only s t" "op_in_range (CallOrderUpdate p)"
    "call_order_update_apply n p t = Inr (r, u)"
  then show "moves t u (\<lambda>_. 0)" using call_update_debt_asset [of p s "()"] call_order_update_moves [of n p t r u]
    by (auto simp: debt_asset_ok_def pays_onlyD bitasset_of_pays)
qed

interpretation bid_collateral_ev: evaluator_contract bid_collateral_validate bid_collateral_evaluate
    "\<lambda>p _. bid_collateral_apply p" holds_nothing "\<lambda>_. True"
  by unfold_locales (rule bid_collateral_moves)

interpretation asset_issue_ev: evaluator_contract asset_issue_validate asset_issue_evaluate
    "\<lambda>p _. asset_issue_apply p" holds_nothing "\<lambda>_. True"
  by unfold_locales (rule asset_issue_moves)

interpretation asset_reserve_ev: evaluator_contract asset_reserve_validate asset_reserve_evaluate
    "\<lambda>p _. asset_reserve_apply p" holds_nothing "\<lambda>_. True"
  by unfold_locales (rule asset_reserve_moves)

interpretation fund_fee_pool_ev: evaluator_contract asset_fund_fee_pool_validate asset_fund_fee_pool_evaluate
    "\<lambda>p _. asset_fund_fee_pool_apply p" holds_nothing "\<lambda>_. True"
  by unfold_locales (rule asset_fund_fee_pool_moves)

interpretation update_issuer_ev: evaluator_contract asset_update_issuer_validate asset_update_issuer_evaluate
    "\<lambda>p _. asset_update_issuer_apply p" holds_nothing "\<lambda>_. True"
  by unfold_locales (rule asset_update_issuer_moves)

interpretation global_settle_ev: evaluator_contract asset_global_settle_validate asset_global_settle_evaluate
    "\<lambda>p _. asset_global_settle_apply p" holds_nothing "\<lambda>_. True"
proof
  fix p s t r u
  assume v: "asset_global_settle_validate p = Inr ()" and e: "asset_global_settle_evaluate p s = Inr ()" and s: "sound s"
    and t: "pays_only s t" and r: "asset_global_settle_apply p t = Inr (r, u)"
  from e v s show "moves t u (\<lambda>_. 0)"
  proof (rule global_settle_price)
    fix mia b
    assume "map_of (assets s) (gs_asset_to_settle p) = Some mia" "bitasset_of mia s = Inr b"
      "asset_id (base (gs_settle_price p)) = gs_asset_to_settle p" "asset_id (quote (gs_settle_price p)) = ba_short_backing_asset b"
    then show ?thesis by (intro global_settle_moves [OF r, of mia b]) (simp_all add: pays_onlyD [OF t] bitasset_of_pays [OF t])
  qed
qed

interpretation asset_settle_ev: evaluator_contract asset_settle_validate asset_settle_evaluate
    "\<lambda>p _. asset_settle_apply p" holds_nothing "\<lambda>p. op_in_range (AssetSettle p)"
  by unfold_locales (rule asset_settle_moves)

interpretation publish_feed_ev: evaluator_contract asset_publish_feed_validate asset_publish_feed_evaluate
    "\<lambda>p _. asset_publish_feed_apply select n p" holds_nothing "\<lambda>p. op_in_range (AssetPublishFeed p) \<and> nth_element_spec select"
proof
  fix p s t r u
  assume v: "asset_publish_feed_validate p = Inr ()" and e: "asset_publish_feed_evaluate p s = Inr ()"
    and ok: "op_in_range (AssetPublishFeed p) \<and> nth_element_spec select"
    and t: "pays_only s t" and r: "asset_publish_feed_apply select n p t = Inr (r, u)"
  obtain b where "feed_fits p b s" using publish_feed_fits [OF v e] ok by blast
  then have "feed_fits p b t" by (simp add: feed_fits_def pays_onlyD [OF t] bitasset_of_pays [OF t])
  then show "moves t u (\<lambda>_. 0)" using publish_feed_moves [OF r] ok by blast
qed

interpretation feed_producers_ev: evaluator_contract asset_update_feed_producers_validate asset_update_feed_producers_evaluate
    "\<lambda>p _. asset_update_feed_producers_apply select n p" holds_nothing "\<lambda>_. nth_element_spec select"
  by unfold_locales (rule feed_producers_moves)

interpretation claim_fees_ev: evaluator_contract asset_claim_fees_validate asset_claim_fees_evaluate
    "\<lambda>p _. asset_claim_fees_apply p" holds_nothing "\<lambda>_. True"
  by unfold_locales (rule asset_claim_fees_moves)

interpretation claim_pool_ev: evaluator_contract asset_claim_pool_validate asset_claim_pool_evaluate
    "\<lambda>p _. asset_claim_pool_apply p" holds_nothing "\<lambda>_. True"
  by unfold_locales (auto intro!: asset_claim_pool_moves simp: asset_claim_pool_validate_def assertE_eq_Inr)

subsection \<open>The dispatch\<close>

definition op_hold :: "protocol_operation \<Rightarrow> evaluator_state \<Rightarrow> asset_id_type \<Rightarrow> int" where
  "op_hold op e = (case op of LimitOrderCreate _ \<Rightarrow> deferred_hold e | _ \<Rightarrow> (\<lambda>_. 0))"

lemmas evaluators_sound =
  transfer_ev.keeps_sound override_transfer_ev.keeps_sound limit_order_create_ev.keeps_sound limit_order_cancel_ev.keeps_sound
  call_order_update_ev.keeps_sound bid_collateral_ev.keeps_sound asset_issue_ev.keeps_sound asset_reserve_ev.keeps_sound
  fund_fee_pool_ev.keeps_sound update_issuer_ev.keeps_sound global_settle_ev.keeps_sound asset_settle_ev.keeps_sound
  publish_feed_ev.keeps_sound feed_producers_ev.keeps_sound claim_fees_ev.keeps_sound claim_pool_ev.keeps_sound

interpretation operation_ev: evaluator_contract operation_validate do_evaluate "do_apply select n" op_hold
    "\<lambda>op. op_in_range op \<and> nth_element_spec select"
proof
  fix p s t e r u
  assume h: "operation_validate p = Inr ()" "op_in_range p \<and> nth_element_spec select" "sound s" "do_evaluate p s = Inr ()"
    "pays_only s t" "0 \<le> deferred_fee e" "0 \<le> amount (deferred_paid_fee e)" "do_apply select n p e t = Inr (r, u)"
  show "moves t u (op_hold p e)"
    by (cases p) (use h in \<open>simp_all add: op_hold_def\<close>, (blast intro: evaluators_sound)+)
qed

subsection \<open>One operation with its fee\<close>

lemma evaluate_Inr:
  assumes "evaluate trx base_fee op s = Inr e"
  shows "fee_ready e (op_fee op) s" "do_evaluate op s = Inr ()"
  using assms prepare_fee_ready by (auto simp: evaluate_def bindE_eq_Inr)

lemma start_evaluate_moves:
  assumes r: "start_evaluate select n trx base_fee op s = Inr (r, s')" and trx: "\<not> skip_fee trx"
    and ok: "operation_validate op = Inr ()" "op_in_range op" "nth_element_spec select"
  shows "moves s s' (\<lambda>_. 0)"
proof (rule moves_if)
  assume s: "sound s"
  obtain e where e: "evaluate trx base_fee op s = Inr e" and a: "apply_op select n trx op e s = Inr (r, s')"
    using r by (auto simp: start_evaluate_def bindE_eq_Inr)
  note ev = evaluate_Inr [OF e]
  obtain s1 e1 s2 s3 m where c: "virtual_convert_fee False op e s = Inr s1" "virtual_pay_fee False op e s1 = Inr (e1, s2)"
    and d: "do_apply select n op e1 s2 = Inr (r, s3)" and m: "asset_neg (fee_from_account e1) = Inr m"
    and s': "adjust_balance (op_fee_payer op) m s3 = Inr s'"
    using a trx by (auto simp: apply_op_def bindE_eq_Inr)
  note f = virtual_fee_pays [OF c ev(1)]
  have "deferred_hold e1 a = op_hold op e1 a" for a
    using f(5) by (cases op) (simp_all add: op_hold_def)
  then have "pays_extras s s2 (\<lambda>a. share_in a (op_fee op) - op_hold op e1 a)" using f(1) by simp
  from operation_ev.run_conserves [OF ok(1) conjI [OF ok(2,3)] s ev(2) this f(3,4) d _ s'] m f(2)
  show ?thesis by simp
qed

lemma apply_operations_moves:
  assumes "apply_operations select n base_fee ops s = Inr (rs, s')" "nth_element_spec select"
    and "\<forall>op \<in> set ops. operation_validate op = Inr () \<and> op_in_range op"
  shows "moves s s' (\<lambda>_. 0) \<and> length rs = length ops"
  using assms
proof (induction ops arbitrary: s rs)
  case Nil
  then show ?case by (simp add: moves_refl)
next
  case (Cons op ops)
  obtain r s1 rs1 where r: "apply_operation select n base_fee op s = Inr (r, s1)"
    and rs: "apply_operations select n base_fee ops s1 = Inr (rs1, s')" "rs = r # rs1"
    using Cons.prems(1) by (auto simp: bindE_eq_Inr)
  have "moves s s1 (\<lambda>_. 0)"
    using start_evaluate_moves [OF r [unfolded apply_operation_def]] Cons.prems(2,3) by simp
  then show ?case using Cons.IH [OF rs(1) Cons.prems(2)] Cons.prems(3) rs(2) moves_trans0 by auto
qed

text \<open>C9. Whatever valid operations are executed, each with its fee, from a sound state: the state stays sound, and
  no share of any asset is created or destroyed, counting balances, orders, positions, settlements, bids, vesting
  balances, funds, pending and accumulated fees and fee pools against the supply.  \<open>std::nth_element\<close> is assumed
  to do what the standard says.\<close>

theorem operations_conserve:
  assumes "apply_operations select n base_fee ops s = Inr (rs, s')" "sound s" "nth_element_spec select"
    and "\<forall>op \<in> set ops. operation_validate op = Inr () \<and> op_in_range op"
  shows "sound s' \<and> (\<forall>a. surplus s' a = surplus s a) \<and> length rs = length ops"
  using apply_operations_moves [OF assms(1,3,4)] assms(2) by (simp add: moves_def)

text \<open>A transfer, a payment into a fee pool, a settlement whose fee that pool converts, and the refund of an order.\<close>

definition demo_ops :: "protocol_operation list" where
  "demo_ops =
     [Transfer \<lparr>tr_fee = mk_asset 10 0, tr_from = 5, tr_to = 7, tr_amount = mk_asset 100 0\<rparr>,
      AssetFundFeePool \<lparr>fp_fee = mk_asset 10 0, fp_from_account = 5, fp_asset_id = 1, fp_amount = 50\<rparr>,
      AssetSettle \<lparr>as_fee = mk_asset 10 1, as_account = 6, as_amount = mk_asset 20 1\<rparr>,
      LimitOrderCancelOp \<lparr>lx_fee = mk_asset 10 0, lx_order = 0, lx_fee_paying_account = 5\<rparr>]"

lemma demo_market_sound: "sound demo_market"
  unfolding sound_def extras_def backed_def
  by (auto simp: demo_market_wf) (auto simp: demo_market_def demo_chain_def bitasset_ok_def own_price_def has_settlement_def
    price_is_null_def null_price_def bitasset_of_def tget_def debt_type_def collateral_type_def int64_ok_def safe_min_def safe_max_def
    split: if_splits)

theorem operations_conserve_witness:
  "\<exists>rs s'. apply_operations sorting_select 20 (\<lambda>_. 5) demo_ops demo_market = Inr (rs, s') \<and> sound s' \<and>
     surplus s' 0 = surplus demo_market 0 \<and> surplus s' 1 = surplus demo_market 1 \<and> length rs = 4"
proof -
  have "is_ok (apply_operations sorting_select 20 (\<lambda>_. 5) demo_ops demo_market)" by code_simp
  then obtain rs s' where r: "apply_operations sorting_select 20 (\<lambda>_. 5) demo_ops demo_market = Inr (rs, s')"
    unfolding is_ok_iff by auto
  have v: "list_all (\<lambda>op. operation_validate op = Inr () \<and> op_in_range op) demo_ops" by code_simp
  have "\<forall>op \<in> set demo_ops. operation_validate op = Inr () \<and> op_in_range op" using v by (simp add: list_all_iff)
  from operations_conserve [OF r demo_market_sound sorting_select_spec this] r show ?thesis by (auto simp: demo_ops_def)
qed

end
