(* ===== verification/Transaction.thy ===== *)
theory Transaction
  imports Op_Dispatch Authority Witness_Schedule
begin

text \<open>
  Transactions and the blocks that hold them: \<open>transaction::validate\<close> and \<open>set_reference_block\<close> of
  \<open>chain/protocol/transaction.cpp\<close>, \<open>database::_apply_transaction\<close>, \<open>validate_block_header\<close>, \<open>create_block_summary\<close>
  and the loop over a block's transactions of \<open>chain/db_block.cpp\<close>, \<open>clear_expired_transactions\<close> of
  \<open>chain/db_update.cpp\<close>.  The record \<open>db_state\<close> puts the chain state and the schedule beside the index of the known
  transactions, the summaries of the blocks and two parameters of the chain.  The authorities of the accounts
  and the keys of the witnesses, which no modelled operation changes, the recovery of signing keys, the
  digests and the base fees are the record \<open>node\<close> of parameters.
\<close>

subsection \<open>Transactions\<close>

record ('k, 's) protocol_transaction =
  tx_ref_block_num :: "16 word"
  tx_ref_block_prefix :: "32 word"
  tx_expiration :: nat
  tx_operations :: "protocol_operation list"
  tx_signatures :: "'s list"
  tx_signees :: "'k list"

definition transaction_validate :: "('k, 's) protocol_transaction \<Rightarrow> unit result" where
  "transaction_validate tx =
     assertE (tx_operations tx \<noteq> []) (foldE (\<lambda>op _. operation_validate op) (tx_operations tx) ())"

text \<open>The number of a block is the first word of its id, reversed; its lower half is kept.\<close>

definition set_reference_block :: "block_id_type \<Rightarrow> ('k, 's) protocol_transaction \<Rightarrow> ('k, 's) protocol_transaction" where
  "set_reference_block i tx = tx\<lparr>tx_ref_block_num := ucast (endian_reverse_u32 (i ! 0)), tx_ref_block_prefix := i ! 1\<rparr>"

text \<open>What the visitor of \<open>operations.cpp\<close> reads of an operation.  Only \<open>asset_update_issuer_operation\<close> has a
  function of its own beside \<open>fee_payer\<close>.\<close>

definition required_owners :: "protocol_operation \<Rightarrow> account_id list" where
  "required_owners op = (case op of AssetUpdateIssuer p \<Rightarrow> [ui_issuer p] | _ \<Rightarrow> [])"

definition required_of :: "protocol_operation \<Rightarrow> ('k, 'a) operation" where
  "required_of op = \<lparr>fee_payer = op_fee_payer op, op_active = [], op_owner = required_owners op, op_other = []\<rparr>"

definition signed_view :: "('k, 's) protocol_transaction \<Rightarrow> ('k, 'a, 's) signed_transaction" where
  "signed_view tx = \<lparr>operations = map required_of (tx_operations tx), signatures = tx_signatures tx, signees = tx_signees tx\<rparr>"

record ('k, 'a, 's, 'i) node =
  nd_select :: nth_element
  nd_fuel :: nat
  nd_base_fee :: "protocol_operation \<Rightarrow> nat"
  nd_addresses :: "'k \<Rightarrow> 'a list"
  nd_recover :: "('k, 's) protocol_transaction \<Rightarrow> 's \<Rightarrow> 'k result"
  nd_trx_id :: "('k, 's) protocol_transaction \<Rightarrow> 'i"
  nd_active :: "account_id \<Rightarrow> ('k, 'a) authority option"
  nd_owner :: "account_id \<Rightarrow> ('k, 'a) authority option"
  nd_signing_key :: "nat \<Rightarrow> 'k option"
  nd_signee :: "signed_block_header \<Rightarrow> 'k result"
  nd_sha224 :: "signed_block_header \<Rightarrow> 32 word list"

text \<open>A known transaction; the index is kept in the order of \<open>by_expiration\<close>.\<close>

record 'i transaction_object =
  to_trx_id :: 'i
  to_expiration :: nat

record 'i db_state =
  db_chain :: chain
  db_schedule :: schedule
  db_transactions :: "'i transaction_object list"
  db_block_summaries :: "16 word \<Rightarrow> block_id_type option"
  db_max_expiration :: nat
  db_max_authority_depth :: nat

text \<open>The validation steps that these functions may skip.\<close>

record skip_flags =
  skip_transaction_signatures :: bool
  skip_transaction_dupe_check :: bool
  skip_tapos_check :: bool
  skip_authority_check :: bool
  skip_witness_signature :: bool
  skip_witness_schedule_check :: bool

subsection \<open>The index of the known transactions\<close>

text \<open>An ordered index puts a new element behind those with an equal key.\<close>

definition index_transaction :: "'i transaction_object \<Rightarrow> 'i transaction_object list \<Rightarrow> 'i transaction_object list" where
  "index_transaction e es =
     takeWhile (\<lambda>x. to_expiration x \<le> to_expiration e) es @ e # dropWhile (\<lambda>x. to_expiration x \<le> to_expiration e) es"

fun remove_expired :: "nat \<Rightarrow> 'i transaction_object list \<Rightarrow> 'i transaction_object list" where
  "remove_expired now [] = []"
| "remove_expired now (e # es) = (if to_expiration e < now then remove_expired now es else e # es)"

definition clear_expired_transactions :: "'i db_state \<Rightarrow> 'i db_state" where
  "clear_expired_transactions d = d\<lparr>db_transactions := remove_expired (head_time (db_chain d)) (db_transactions d)\<rparr>"

definition known_ids :: "'i db_state \<Rightarrow> 'i set" where
  "known_ids d = to_trx_id ` set (db_transactions d)"

subsection \<open>Applying a transaction\<close>

definition verify_transaction :: "('k, 'a, 's, 'i) node \<Rightarrow> nat \<Rightarrow> ('k, 's) protocol_transaction \<Rightarrow> unit result" where
  "verify_transaction nd depth tx =
     bindE (get_signature_keys (nd_recover nd tx) (signed_view tx :: ('k, 'a, 's) signed_transaction)) (\<lambda>(keys, _).
     verify_authority (nd_addresses nd) (map required_of (tx_operations tx)) keys (nd_active nd) (nd_owner nd)
       depth False [] [])"

text \<open>The block that the transaction refers to, and its expiration; times are 32-bit seconds.\<close>

definition check_tapos :: "skip_flags \<Rightarrow> ('k, 's) protocol_transaction \<Rightarrow> 'i db_state \<Rightarrow> unit result" where
  "check_tapos skip tx d =
     (if 0 < head_block_number (db_schedule d) then
        let now = head_time (db_chain d)
        in bindE (if skip_tapos_check skip then Inr ()
                  else bindE (of_option NotFound (db_block_summaries d (tx_ref_block_num tx))) (\<lambda>i.
                       assertE (tx_ref_block_prefix tx = i ! 1) (Inr ()))) (\<lambda>_.
           assertE (tx_expiration tx \<le> (now + db_max_expiration d) mod 2 ^ 32)
             (assertE (now \<le> tx_expiration tx) (Inr ())))
      else Inr ())"

definition temp_account_empty :: "chain \<Rightarrow> bool" where
  "temp_account_empty s \<longleftrightarrow> list_all (\<lambda>e. bal_owner (snd e) = TEMP_ACCOUNT \<longrightarrow> bal_amount (snd e) = 0) (balances s)"

definition apply_transaction ::
  "('k, 'a, 's, 'i) node \<Rightarrow> skip_flags \<Rightarrow> ('k, 's) protocol_transaction \<Rightarrow> 'i db_state
     \<Rightarrow> (operation_result list \<times> 'i db_state) result" where
  "apply_transaction nd skip tx d =
     bindE (transaction_validate tx) (\<lambda>_.
     assertE (skip_transaction_dupe_check skip \<or> nd_trx_id nd tx \<notin> known_ids d)
       (bindE (if skip_transaction_signatures skip \<or> skip_authority_check skip then Inr ()
               else verify_transaction nd (db_max_authority_depth d) tx) (\<lambda>_.
        bindE (check_tapos skip tx d) (\<lambda>_.
        let d1 = (if skip_transaction_dupe_check skip then d
                  else d\<lparr>db_transactions := index_transaction \<lparr>to_trx_id = nd_trx_id nd tx, to_expiration = tx_expiration tx\<rparr> (db_transactions d)\<rparr>)
        in bindE (apply_operations (nd_select nd) (nd_fuel nd) (nd_base_fee nd) (tx_operations tx) (db_chain d1)) (\<lambda>(rs, s).
           assertE (head_time s < HARDFORK_CORE_1040_TIME \<longrightarrow> temp_account_empty s)
             (Inr (rs, d1\<lparr>db_chain := s\<rparr>)))))))"

subsection \<open>Blocks\<close>

text \<open>The transactions of a block, one after the other.\<close>

fun apply_transactions ::
  "('k, 'a, 's, 'i) node \<Rightarrow> skip_flags \<Rightarrow> ('k, 's) protocol_transaction list \<Rightarrow> 'i db_state
     \<Rightarrow> (operation_result list list \<times> 'i db_state) result" where
  "apply_transactions nd skip [] d = Inr ([], d)"
| "apply_transactions nd skip (tx # txs) d =
     bindE (apply_transaction nd skip tx d) (\<lambda>(rs, d1).
     bindE (apply_transactions nd skip txs d1) (\<lambda>(rss, d2). Inr (rs # rss, d2)))"

text \<open>The witness that signed the block is returned.\<close>

definition validate_block_header ::
  "('k, 'a, 's, 'i) node \<Rightarrow> skip_flags \<Rightarrow> 'tx signed_block \<Rightarrow> 'i db_state \<Rightarrow> nat result" where
  "validate_block_header nd skip b d =
     assertE (head_block_id (db_schedule d) = previous b)
       (assertE (head_time (db_chain d) < timestamp b)
         (bindE (of_option NotFound (nd_signing_key nd (witness b))) (\<lambda>key.
          bindE (if skip_witness_signature skip then Inr ()
                 else bindE (nd_signee nd (signed_block_header.truncate b)) (\<lambda>k. assertE (k = key) (Inr ()))) (\<lambda>_.
          bindE (if skip_witness_schedule_check skip then Inr ()
                 else bindE (get_slot_at_time (of_nat (timestamp b)) (db_schedule d)) (\<lambda>slot_num.
                      assertE (0 < slot_num)
                        (bindE (get_scheduled_witness slot_num (db_schedule d)) (\<lambda>scheduled.
                         assertE (witness b = scheduled) (Inr ()))))) (\<lambda>_.
          Inr (witness b))))))"

definition create_block_summary :: "('k, 'a, 's, 'i) node \<Rightarrow> 'tx signed_block \<Rightarrow> 'i db_state \<Rightarrow> 'i db_state" where
  "create_block_summary nd b d =
     d\<lparr>db_block_summaries := (db_block_summaries d)(ucast (block_num b AND 0xFFFF) \<mapsto> header_id (nd_sha224 nd) b)\<rparr>"

text \<open>The head moves to the block; the time of the chain state is the one of the schedule.\<close>

definition move_head :: "('k, 'a, 's, 'i) node \<Rightarrow> 'tx signed_block \<Rightarrow> 32 word \<Rightarrow> 'i db_state \<Rightarrow> 'i db_state result" where
  "move_head nd b missed d =
     bindE (update_global_dynamic_data (nd_sha224 nd) b missed (db_schedule d)) (\<lambda>(_, sc).
     Inr (d\<lparr>db_schedule := sc, db_chain := (db_chain d)\<lparr>head_time := timestamp b\<rparr>\<rparr>))"

end
