(* ===== verification/Transaction_Correct.thy ===== *)
theory Transaction_Correct
  imports Transaction Dispatch_Correct Authority_Correct Witness_Correct
begin

text \<open>
  What it means that a transaction is accepted (\<open>transaction_accepted\<close>), and that none is accepted twice
  (\<open>no_replay\<close>): the index of the known transactions forgets one only when its expiration has passed, and from
  then on the expiration check refuses it.
\<close>

subsection \<open>The index of the known transactions\<close>

lemma set_index_transaction [simp]: "set (index_transaction e es) = insert e (set es)"
  unfolding index_transaction_def using set_append takeWhile_dropWhile_id
  by (metis (no_types, lifting) insert_is_Un list.simps(15) set_append sup_left_commute takeWhile_dropWhile_id)

abbreviation by_expiration :: "'i transaction_object list \<Rightarrow> bool" where
  "by_expiration es \<equiv> sorted (map to_expiration es)"

lemma index_transaction_sorted: "by_expiration es \<Longrightarrow> by_expiration (index_transaction e es)"
proof (induction es)
  case Nil
  then show ?case by (simp add: index_transaction_def)
next
  case (Cons x es)
  then have "by_expiration (index_transaction e es)" by simp
  then show ?case using Cons.prems by (auto simp: index_transaction_def dest: set_takeWhileD set_dropWhileD)
qed

lemma remove_expired_eq: "remove_expired now es = dropWhile (\<lambda>e. to_expiration e < now) es"
  by (induction es) simp_all

lemma remove_expired_keeps: "e \<in> set es \<Longrightarrow> now \<le> to_expiration e \<Longrightarrow> e \<in> set (remove_expired now es)"
  by (induction es) auto

lemma remove_expired_all: "by_expiration es \<Longrightarrow> set (remove_expired now es) = {e \<in> set es. now \<le> to_expiration e}"
  by (induction es) auto

subsection \<open>An accepted transaction\<close>

lemma foldE_unit: "foldE (\<lambda>x _. f x) xs () = Inr () \<longleftrightarrow> (\<forall>x \<in> set xs. f x = Inr ())"
  by (induction xs) (auto simp: bindE_eq_Inr)

lemma transaction_validate_Inr:
  "transaction_validate tx = Inr () \<longleftrightarrow> tx_operations tx \<noteq> [] \<and> (\<forall>op \<in> set (tx_operations tx). operation_validate op = Inr ())"
  by (simp add: transaction_validate_def assertE_eq_Inr foldE_unit)

text \<open>The entry of the index, and the keys that signed.\<close>

definition entry_of :: "('k, 'a, 's, 'i) node \<Rightarrow> ('k, 's) protocol_transaction \<Rightarrow> 'i transaction_object" where
  "entry_of nd tx = \<lparr>to_trx_id = nd_trx_id nd tx, to_expiration = tx_expiration tx\<rparr>"

lemma apply_transactionE:
  assumes "apply_transaction nd skip tx d = Inr (rs, d')"
  obtains s where "transaction_validate tx = Inr ()"
    "skip_transaction_dupe_check skip \<or> nd_trx_id nd tx \<notin> known_ids d"
    "skip_transaction_signatures skip \<or> skip_authority_check skip \<or>
       verify_transaction nd (db_max_authority_depth d) tx = Inr ()"
    "check_tapos skip tx d = Inr ()"
    "apply_operations (nd_select nd) (nd_fuel nd) (nd_base_fee nd) (tx_operations tx) (db_chain d) = Inr (rs, s)"
    "d' = d\<lparr>db_chain := s, db_transactions := if skip_transaction_dupe_check skip then db_transactions d
                                              else index_transaction (entry_of nd tx) (db_transactions d)\<rparr>"
  using assms unfolding apply_transaction_def entry_of_def Let_def
  by (fastforce simp: bindE_eq_Inr assertE_eq_Inr split: if_split_asm)

lemma check_tapos_Inr:
  "check_tapos skip tx d = Inr () \<longleftrightarrow> 0 < head_block_number (db_schedule d) \<longrightarrow>
     head_time (db_chain d) \<le> tx_expiration tx \<and>
     tx_expiration tx \<le> (head_time (db_chain d) + db_max_expiration d) mod 2 ^ 32 \<and>
     (skip_tapos_check skip \<or> (\<exists>i. db_block_summaries d (tx_ref_block_num tx) = Some i \<and> i ! 1 = tx_ref_block_prefix tx))"
  by (auto simp: check_tapos_def Let_def bindE_eq_Inr assertE_eq_Inr of_option_def split: option.splits)

text \<open>A block's summary serves the transactions that refer to the block.\<close>

lemma reference_block_found:
  assumes "num_from_id (header_id (nd_sha224 nd) b) = block_num b" "i = header_id (nd_sha224 nd) b"
  shows "db_block_summaries (create_block_summary nd b d) (tx_ref_block_num (set_reference_block i tx)) = Some i \<and>
    tx_ref_block_prefix (set_reference_block i tx) = i ! 1"
proof -
  have m: "(0xFFFF :: 32 word) = mask 16" by (simp add: mask_eq_exp_minus_1)
  have "(ucast (w AND 0xFFFF) :: 16 word) = ucast w" for w :: "32 word"
    unfolding m by (rule bit_word_eqI) (simp add: bit_simps)
  then show ?thesis using assms by (simp add: create_block_summary_def set_reference_block_def num_from_id_def)
qed

subsection \<open>Who has to sign\<close>

text \<open>The keys meet the owner authority of an account; they authorise it as they meet its active or its owner authority.
  The temporary account needs no signature.\<close>

definition owner_signed :: "('k, 'a, 's, 'i) node \<Rightarrow> 'k list \<Rightarrow> account_id \<Rightarrow> bool" where
  "owner_signed nd keys i \<longleftrightarrow>
     (\<exists>m au. nd_owner nd i = Some au \<and> met_within (nd_addresses nd) (nd_active nd) keys [TEMP_ACCOUNT] m au)"

definition authorised :: "('k, 'a, 's, 'i) node \<Rightarrow> 'k list \<Rightarrow> account_id \<Rightarrow> bool" where
  "authorised nd keys i \<longleftrightarrow> account_ok (nd_addresses nd) (nd_active nd) keys [TEMP_ACCOUNT] i \<or> owner_signed nd keys i"

text \<open>What an operation asks of the signatures.\<close>

definition op_signed :: "('k, 'a, 's, 'i) node \<Rightarrow> 'k list \<Rightarrow> protocol_operation \<Rightarrow> bool" where
  "op_signed nd keys op \<longleftrightarrow> authorised nd keys (op_fee_payer op) \<and>
     (\<forall>i \<in> set (required_owners op). owner_signed nd keys i)"

lemma required_fold:
  assumes "fold operation_get_required_authorities (map required_of ops) (a, w, r) = (a', w', r')"
  shows "set a' = set a \<union> op_fee_payer ` set ops \<and> set w' = set w \<union> (\<Union>op \<in> set ops. set (required_owners op))"
  using assms
proof (induction ops arbitrary: a w r)
  case (Cons op ops)
  have ins: "set (fold insort_insert xs (ys :: nat list)) = set xs \<union> set ys" for xs ys
    by (induction xs arbitrary: ys) (auto simp: set_insort_insert)
  show ?case using Cons by (auto simp: operation_get_required_authorities_def required_of_def set_insort_insert ins)
qed simp

lemma verify_transaction_signed:
  assumes v: "verify_transaction nd depth tx = Inr ()"
  shows "\<exists>keys tx'. get_signature_keys (nd_recover nd tx) (signed_view tx :: ('k, 'a, 's) signed_transaction) = Inr (keys, tx') \<and>
    (\<forall>op \<in> set (tx_operations tx). op_signed (nd :: ('k, 'a, 's, 'i) node) keys op)"
proof -
  obtain keys and tx' :: "('k, 'a, 's) signed_transaction" where k: "get_signature_keys (nd_recover nd tx) (signed_view tx) = Inr (keys, tx')"
    and a: "verify_authority (nd_addresses nd) (map required_of (tx_operations tx)) keys (nd_active nd) (nd_owner nd) depth False [] [] = Inr ()"
    using v by (auto simp: verify_transaction_def bindE_eq_Inr)
  obtain ra ro and other :: "('k, 'a) authority list" where r: "required_by (map required_of (tx_operations tx)) = (ra, ro, other)"
    by (cases "required_by (map required_of (tx_operations tx)) :: ('k, 'a) required") auto
  have s: "set ra = op_fee_payer ` set (tx_operations tx)"
      "set ro = (\<Union>op \<in> set (tx_operations tx). set (required_owners op))"
    using required_fold [OF r [unfolded required_by_def]] by auto
  note g = verify_authority_guarantees(3,4) [OF a r]
  have "op_signed nd keys op" if "op \<in> set (tx_operations tx)" for op
    using g s that
    by (fastforce simp: op_signed_def authorised_def owner_signed_def)
  then show ?thesis using k by blast
qed

lemma apply_transaction_moves:
  assumes "apply_transaction nd skip tx d = Inr (rs, d')" "nth_element_spec (nd_select nd)" "\<forall>op \<in> set (tx_operations tx). op_in_range op"
  shows "moves (db_chain d) (db_chain d') (\<lambda>_. 0) \<and> length rs = length (tx_operations tx) \<and> db_schedule d' = db_schedule d"
  using assms(1)
proof (rule apply_transactionE)
  fix s
  assume "transaction_validate tx = Inr ()"
    and ops: "apply_operations (nd_select nd) (nd_fuel nd) (nd_base_fee nd) (tx_operations tx) (db_chain d) = Inr (rs, s)"
    and d': "d' = d\<lparr>db_chain := s, db_transactions := if skip_transaction_dupe_check skip then db_transactions d
                                                    else index_transaction (entry_of nd tx) (db_transactions d)\<rparr>"
  then show ?thesis using apply_operations_moves [OF ops assms(2)] assms(3) by (simp add: transaction_validate_Inr)
qed

text \<open>An accepted transaction was not known, and is known from now on; it refers to a block of the chain and has
  not expired; the keys that signed it authorise the fee payer of each of its operations (and the owner whose
  authority the operation asks for), unless the node skips these checks; the state stays sound, its time stands
  still, and no share of any asset is created or destroyed.\<close>

lemma transaction_accepted:
  assumes r: "apply_transaction nd skip tx d = Inr (rs, d')" and sel: "nth_element_spec (nd_select nd)"
    and rng: "\<forall>op \<in> set (tx_operations tx). op_in_range op" and s: "sound (db_chain d)"
  shows "(skip_transaction_dupe_check skip \<or> nd_trx_id nd tx \<notin> known_ids d \<and> known_ids d' = insert (nd_trx_id nd tx) (known_ids d)) \<and>
    (head_block_number (db_schedule d) = 0 \<or> head_time (db_chain d) \<le> tx_expiration tx \<and>
      (skip_tapos_check skip \<or> (\<exists>i. db_block_summaries d (tx_ref_block_num tx) = Some i \<and> i ! 1 = tx_ref_block_prefix tx))) \<and>
    (skip_transaction_signatures skip \<or> skip_authority_check skip \<or>
      (\<exists>keys tx'. get_signature_keys (nd_recover nd tx) (signed_view tx :: ('k, 'a, 's) signed_transaction) = Inr (keys, tx') \<and>
        (\<forall>op \<in> set (tx_operations tx). op_signed (nd :: ('k, 'a, 's, 'i) node) keys op))) \<and>
    sound (db_chain d') \<and> head_time (db_chain d') = head_time (db_chain d) \<and>
    (\<forall>a. surplus (db_chain d') a = surplus (db_chain d) a) \<and> length rs = length (tx_operations tx)"
  using r
proof (rule apply_transactionE)
  fix c
  assume dup: "skip_transaction_dupe_check skip \<or> nd_trx_id nd tx \<notin> known_ids d"
    and sig: "skip_transaction_signatures skip \<or> skip_authority_check skip \<or>
       verify_transaction nd (db_max_authority_depth d) tx = Inr ()"
    and tapos: "check_tapos skip tx d = Inr ()"
    and d': "d' = d\<lparr>db_chain := c, db_transactions := if skip_transaction_dupe_check skip then db_transactions d
                                                    else index_transaction (entry_of nd tx) (db_transactions d)\<rparr>"
  have m: "moves (db_chain d) (db_chain d') (\<lambda>_. 0)" "length rs = length (tx_operations tx)"
    using apply_transaction_moves [OF r sel rng] by blast+
  show ?thesis
  proof (intro conjI)
    show "skip_transaction_dupe_check skip \<or> nd_trx_id nd tx \<notin> known_ids d \<and> known_ids d' = insert (nd_trx_id nd tx) (known_ids d)"
      using dup by (auto simp: known_ids_def d' entry_of_def)
    show "head_block_number (db_schedule d) = 0 \<or> head_time (db_chain d) \<le> tx_expiration tx \<and>
      (skip_tapos_check skip \<or> (\<exists>i. db_block_summaries d (tx_ref_block_num tx) = Some i \<and> i ! 1 = tx_ref_block_prefix tx))"
      using tapos word_neq_0_conv by (auto simp: check_tapos_Inr)
    show "skip_transaction_signatures skip \<or> skip_authority_check skip \<or>
      (\<exists>keys tx'. get_signature_keys (nd_recover nd tx) (signed_view tx :: ('k, 'a, 's) signed_transaction) = Inr (keys, tx') \<and>
        (\<forall>op \<in> set (tx_operations tx). op_signed nd keys op))"
      using sig verify_transaction_signed by blast
  qed (use m s in \<open>simp_all add: moves_def\<close>)
qed

subsection \<open>No transaction is accepted twice\<close>

text \<open>A transaction that the state refuses, by its id and expiration: it is in the index, or it has expired.\<close>

definition remembered :: "'i db_state \<Rightarrow> 'i transaction_object \<Rightarrow> bool" where
  "remembered d e \<longleftrightarrow> e \<in> set (db_transactions d) \<or>
     (0 < head_block_number (db_schedule d) \<and> to_expiration e < head_time (db_chain d))"

lemma remembered_refused:
  assumes "remembered d (entry_of nd tx)" "\<not> skip_transaction_dupe_check skip"
  shows "apply_transaction nd skip tx d \<noteq> Inr r"
proof
  assume "apply_transaction nd skip tx d = Inr r"
  then obtain rs d' where "apply_transaction nd skip tx d = Inr (rs, d')" by (cases r) auto
  then show False
    by (rule apply_transactionE)
      (use assms in \<open>force simp: remembered_def known_ids_def entry_of_def check_tapos_Inr\<close>)
qed

lemma apply_transaction_remembers:
  assumes r: "apply_transaction nd skip tx d = Inr (rs, d')" and skip: "\<not> skip_transaction_dupe_check skip"
    and ok: "nth_element_spec (nd_select nd)" "\<forall>op \<in> set (tx_operations tx). op_in_range op" "sound (db_chain d)"
  shows "remembered d' (entry_of nd tx)" "remembered d e \<Longrightarrow> remembered d' e" "sound (db_chain d')"
    "db_schedule d' = db_schedule d" "head_time (db_chain d') = head_time (db_chain d)"
proof -
  have m: "moves (db_chain d) (db_chain d') (\<lambda>_. 0)" "db_schedule d' = db_schedule d"
    using apply_transaction_moves [OF r ok(1,2)] by blast+
  then show g: "sound (db_chain d')" "db_schedule d' = db_schedule d" "head_time (db_chain d') = head_time (db_chain d)"
    using ok(3) by (simp_all add: moves_def)
  have "set (db_transactions d') = insert (entry_of nd tx) (set (db_transactions d))"
    using r by (rule apply_transactionE) (use skip in simp)
  then show "remembered d' (entry_of nd tx)" "remembered d e \<Longrightarrow> remembered d' e" using g by (auto simp: remembered_def)
qed

definition in_range :: "('k, 's) protocol_transaction list \<Rightarrow> bool" where
  "in_range txs \<longleftrightarrow> (\<forall>tx \<in> set txs. \<forall>op \<in> set (tx_operations tx). op_in_range op)"

lemma apply_transactions_remember:
  assumes "apply_transactions nd skip txs d = Inr (rss, d')" "\<not> skip_transaction_dupe_check skip"
    "nth_element_spec (nd_select nd)" "in_range txs" "sound (db_chain d)"
    and "distinct es" "\<forall>e \<in> set es. remembered d e"
  shows "distinct (rev (map (entry_of nd) txs) @ es) \<and> (\<forall>e \<in> set (rev (map (entry_of nd) txs) @ es). remembered d' e) \<and>
    sound (db_chain d') \<and> db_schedule d' = db_schedule d \<and> head_time (db_chain d') = head_time (db_chain d)"
  using assms
proof (induction txs arbitrary: d rss es)
  case (Cons tx txs)
  obtain rs d1 rss1 where t: "apply_transaction nd skip tx d = Inr (rs, d1)" and ts: "apply_transactions nd skip txs d1 = Inr (rss1, d')"
    using Cons.prems(1) by (auto simp: bindE_eq_Inr)
  have rng: "\<forall>op \<in> set (tx_operations tx). op_in_range op" "in_range txs" using Cons.prems(4) by (simp_all add: in_range_def)
  note r = apply_transaction_remembers [OF t Cons.prems(2,3) rng(1) Cons.prems(5)]
  have "entry_of nd tx \<notin> set es" using remembered_refused [OF _ Cons.prems(2)] t Cons.prems(7) by blast
  then show ?case
    using Cons.IH [OF ts Cons.prems(2,3) rng(2) r(3), of "entry_of nd tx # es"] r Cons.prems(6,7) by simp
qed simp

text \<open>What the steps of a block that are not listed below may do: they change neither the index nor the summaries, leave
  the head where it is, and keep the chain state sound.\<close>

definition other_steps :: "'i db_state \<Rightarrow> 'i db_state \<Rightarrow> bool" where
  "other_steps d d' \<longleftrightarrow> db_transactions d' = db_transactions d \<and> db_block_summaries d' = db_block_summaries d \<and>
     head_block_number (db_schedule d') = head_block_number (db_schedule d) \<and>
     head_time (db_chain d') = head_time (db_chain d) \<and> (sound (db_chain d) \<longrightarrow> sound (db_chain d'))"

text \<open>The states that blocks lead to, with the transactions of these blocks, the last one first; \<open>other_steps\<close> stands
  for the maintenance and the witness's pay, and after the clearing for proposals, orders, feeds and the schedule.\<close>

inductive chain_history ::
  "('k, 'a, 's, 'i) node \<Rightarrow> 'i db_state \<Rightarrow> ('k, 's) protocol_transaction list \<Rightarrow> 'i db_state \<Rightarrow> bool" for nd d0 where
  start: "chain_history nd d0 [] d0"
| block: "chain_history nd d0 txs d \<Longrightarrow> validate_block_header nd skip b d = Inr wit \<Longrightarrow> in_range (transactions b) \<Longrightarrow>
    block_num b \<noteq> 0 \<Longrightarrow> \<not> skip_transaction_dupe_check skip \<Longrightarrow>
    apply_transactions nd skip (transactions b) d = Inr (rss, d1) \<Longrightarrow>
    update_witness_missed_blocks b (db_schedule d1) = Inr (missed, sc) \<Longrightarrow>
    move_head nd b missed (d1\<lparr>db_schedule := sc\<rparr>) = Inr d2 \<Longrightarrow> other_steps d2 d3 \<Longrightarrow>
    other_steps (clear_expired_transactions (create_block_summary nd b d3)) d4 \<Longrightarrow>
    chain_history nd d0 (rev (transactions b) @ txs) d4"

lemma header_time: "validate_block_header nd skip b d = Inr wit \<Longrightarrow> head_time (db_chain d) < timestamp b"
  by (auto simp: validate_block_header_def assertE_eq_Inr)

lemma sound_head_time [simp]: "sound (s\<lparr>head_time := t\<rparr>) = sound s"
proof -
  have "bitasset_of o1 (s\<lparr>head_time := t\<rparr>) = bitasset_of o1 s" for o1
    by (simp add: bitasset_of_def split: option.split)
  then show ?thesis
    by (simp add: sound_def extras_def backed_def chain_wf_def tables_ok_def dyns_ok_def funds_ok_def fees_ok_def)
qed

lemma move_head_effect:
  assumes "move_head nd b missed d = Inr d'"
  shows "db_transactions d' = db_transactions d \<and> head_block_number (db_schedule d') = block_num b \<and>
    head_time (db_chain d') = timestamp b \<and> sound (db_chain d') = sound (db_chain d)"
  using assms by (auto simp: move_head_def bindE_eq_Inr update_global_dynamic_data_def Let_def split: if_split_asm)

lemma history_remembers:
  assumes "chain_history nd d0 txs d" "nth_element_spec (nd_select nd)" "sound (db_chain d0)"
  shows "distinct (map (entry_of nd) txs) \<and> (\<forall>e \<in> set (map (entry_of nd) txs). remembered d e) \<and> sound (db_chain d)"
  using assms
proof induction
  case (block txs d skip b wit rss d1 missed sc d2 d3 d4)
  let ?es = "map (entry_of nd) txs" and ?es' = "map (entry_of nd) (rev (transactions b) @ txs)"
  have h: "distinct ?es" "\<forall>e \<in> set ?es. remembered d e" "sound (db_chain d)" using block.IH block.prems by blast+
  have eq: "?es' = rev (map (entry_of nd) (transactions b)) @ ?es" by (simp add: rev_map)
  have a: "distinct ?es'" "\<forall>e \<in> set ?es'. remembered d1 e" "sound (db_chain d1)" "head_time (db_chain d1) = head_time (db_chain d)"
    using apply_transactions_remember [OF block.hyps(6,5) block.prems(1) block.hyps(3) h(3,1,2)] unfolding eq by blast+
  note mv = move_head_effect [OF block.hyps(8)] and o1 = block.hyps(9) [unfolded other_steps_def]
    and o2 = block.hyps(10) [unfolded other_steps_def]
  have t: "head_time (db_chain d1) < head_time (db_chain d4)" "head_time (db_chain d4) = head_time (db_chain d3)"
    "0 < head_block_number (db_schedule d4)" "sound (db_chain d4)"
    using mv o1 o2 a(3,4) header_time [OF block.hyps(2)] block.hyps(4)
    by (simp_all add: clear_expired_transactions_def create_block_summary_def word_neq_0_conv)
  have e: "db_transactions d4 = remove_expired (head_time (db_chain d4)) (db_transactions d1)"
    using mv o1 o2 t(2) by (simp add: clear_expired_transactions_def create_block_summary_def)
  have "remembered d4 x" if "remembered d1 x" for x
    using that t remove_expired_keeps [of x "db_transactions d1" "head_time (db_chain d4)"]
    unfolding remembered_def e by fastforce
  then show ?case using a(1,2) t(4) by blast
qed simp

text \<open>C24. No transaction is accepted twice: those that the blocks of a history hold differ in their ids or expirations, and
  the state after them refuses every transaction that has the id and the expiration of one of them, whatever its
  signatures, as long as the check for duplicates is not skipped.  The id is a digest of the transaction with its
  expiration.  The state at the start is sound, no step of a block that is not modelled makes it unsound, and
  \<open>std::nth_element\<close> does what the standard says.\<close>

theorem no_replay:
  assumes "chain_history nd d0 txs d" "nth_element_spec (nd_select nd)" "sound (db_chain d0)"
    and "nd_trx_id nd tx = nd_trx_id nd old" "tx_expiration tx = tx_expiration old"
    and "old \<in> set txs" "\<not> skip_transaction_dupe_check skip"
  shows "distinct (map (\<lambda>t. (nd_trx_id nd t, tx_expiration t)) txs) \<and> \<not> is_ok (apply_transaction nd skip tx d)"
proof
  have "map (entry_of nd) txs = map (\<lambda>(i, x). \<lparr>to_trx_id = i, to_expiration = x\<rparr>) (map (\<lambda>t. (nd_trx_id nd t, tx_expiration t)) txs)"
    by (simp add: entry_of_def)
  with history_remembers [OF assms(1-3)] show "distinct (map (\<lambda>t. (nd_trx_id nd t, tx_expiration t)) txs)"
    by (simp only: distinct_map)
  have "entry_of nd tx = entry_of nd old" using assms(4,5) by (simp add: entry_of_def)
  then have "remembered d (entry_of nd tx)" using history_remembers [OF assms(1-3)] assms(6) by simp
  from remembered_refused [OF this assms(7)] show "\<not> is_ok (apply_transaction nd skip tx d)" by (auto simp: is_ok_iff)
qed

subsection \<open>A concrete block\<close>

definition demo_node :: "(nat, nat, nat, nat) node" where
  "demo_node = \<lparr>nd_select = sorting_select, nd_fuel = 20, nd_base_fee = \<lambda>_. 5, nd_addresses = \<lambda>_. [],
     nd_recover = \<lambda>_ sig. Inr sig, nd_trx_id = \<lambda>tx. tx_expiration tx + unat (tx_ref_block_prefix tx),
     nd_active = \<lambda>i. Some \<lparr>weight_threshold = 1, account_auths = [], key_auths = [(i, 1)], address_auths = []\<rparr>,
     nd_owner = \<lambda>_. None, nd_signing_key = \<lambda>w. Some w, nd_signee = \<lambda>h. Inr (witness h),
     nd_sha224 = \<lambda>_. [7, 7, 7, 7, 7, 7, 7]\<rparr>"

definition demo_transaction :: "(nat, nat) protocol_transaction" where
  "demo_transaction = \<lparr>tx_ref_block_num = 6, tx_ref_block_prefix = 1, tx_expiration = 103, tx_operations = demo_ops,
     tx_signatures = [5, 6], tx_signees = []\<rparr>"

definition demo_db :: "nat db_state" where
  "demo_db = \<lparr>db_chain = demo_market,
     db_schedule = demo_schedule\<lparr>head_block_id := [0x06000000, 1, 2, 3, 4], time := 100, dynamic_flags := 0\<rparr>,
     db_transactions = [\<lparr>to_trx_id = 17, to_expiration = 101\<rparr>],
     db_block_summaries = \<lambda>n. if n = 6 then Some [0x06000000, 1, 2, 3, 4] else None,
     db_max_expiration = 86400, db_max_authority_depth = 2\<rparr>"

definition check_all :: skip_flags where
  "check_all = \<lparr>skip_transaction_signatures = False, skip_transaction_dupe_check = False, skip_tapos_check = False,
     skip_authority_check = False, skip_witness_signature = False, skip_witness_schedule_check = False\<rparr>"

lemma demo_accepted: "is_ok (apply_transaction demo_node check_all demo_transaction demo_db)"
  by code_simp

lemma demo_range: "\<forall>op \<in> set (tx_operations demo_transaction). op_in_range op"
proof -
  have "list_all op_in_range demo_ops" by code_simp
  then show ?thesis by (simp add: list_all_iff demo_transaction_def)
qed

lemma demo_parameters: "nth_element_spec (nd_select demo_node)" "sound (db_chain demo_db)"
  by (simp_all add: demo_node_def demo_db_def sorting_select_spec demo_market_sound)

lemma transaction_accepted_witness:
  "\<exists>rs d'. apply_transaction demo_node check_all demo_transaction demo_db = Inr (rs, d') \<and> sound (db_chain d') \<and>
     known_ids d' = insert 104 (known_ids demo_db) \<and> length rs = 4"
proof -
  obtain rs d' where r: "apply_transaction demo_node check_all demo_transaction demo_db = Inr (rs, d')"
    using demo_accepted by (auto simp: is_ok_iff)
  have c: "nd_trx_id demo_node demo_transaction = 104" "\<not> skip_transaction_dupe_check check_all" "length (tx_operations demo_transaction) = 4"
    by (simp_all add: demo_node_def demo_transaction_def check_all_def demo_ops_def)
  from transaction_accepted [OF r demo_parameters(1) demo_range demo_parameters(2)] r c show ?thesis by auto
qed

definition demo_transaction_block :: "(nat, nat) protocol_transaction signed_block" where
  "demo_transaction_block = \<lparr>previous = [0x06000000, 1, 2, 3, 4], timestamp = 105, witness = 1, transaction_merkle_root = null_id,
     witness_signature = [], block_id = null_id, transactions = [demo_transaction]\<rparr>"

lemma other_steps_refl: "other_steps d d"
  by (simp add: other_steps_def)

lemma demo_history: "\<exists>d. chain_history demo_node demo_db [demo_transaction] d"
proof -
  have v: "validate_block_header demo_node check_all demo_transaction_block demo_db = Inr 1" by code_simp
  obtain rs d1 where t: "apply_transaction demo_node check_all demo_transaction demo_db = Inr (rs, d1)"
    using demo_accepted by (auto simp: is_ok_iff)
  have ts: "apply_transactions demo_node check_all (transactions demo_transaction_block) demo_db = Inr ([rs], d1)"
    using t by (simp add: demo_transaction_block_def)
  have rng: "in_range (transactions demo_transaction_block)" using demo_range by (simp add: in_range_def demo_transaction_block_def)
  have s: "db_schedule d1 = db_schedule demo_db"
    using apply_transaction_moves [OF t demo_parameters(1) demo_range] by blast
  have "is_ok (bindE (update_witness_missed_blocks demo_transaction_block (db_schedule demo_db)) (\<lambda>(m, sc).
      update_global_dynamic_data (nd_sha224 demo_node) demo_transaction_block m sc))" by code_simp
  then obtain m sc q where u: "update_witness_missed_blocks demo_transaction_block (db_schedule d1) = Inr (m, sc)"
    and g: "update_global_dynamic_data (nd_sha224 demo_node) demo_transaction_block m sc = Inr q"
    unfolding s is_ok_iff by (elim exE bindE_E prod_result_E) (hypsubst, blast)
  obtain d2 where h: "move_head demo_node demo_transaction_block m (d1\<lparr>db_schedule := sc\<rparr>) = Inr d2"
    using g by (cases q) (simp add: move_head_def)
  have n: "block_num demo_transaction_block \<noteq> 0" "\<not> skip_transaction_dupe_check check_all" "[demo_transaction] = rev (transactions demo_transaction_block) @ []"
    by code_simp (simp_all add: check_all_def demo_transaction_block_def)
  show ?thesis
    unfolding n(3) using chain_history.block [OF chain_history.start v rng n(1,2) ts u h other_steps_refl other_steps_refl] ..
qed

text \<open>The same transaction with other signatures is refused as well.\<close>

theorem no_replay_witness:
  "\<exists>d. chain_history demo_node demo_db [demo_transaction] d \<and>
     \<not> is_ok (apply_transaction demo_node check_all (demo_transaction\<lparr>tx_signatures := [6, 5, 7]\<rparr>) d)"
proof -
  obtain d where h: "chain_history demo_node demo_db [demo_transaction] d" using demo_history by blast
  with no_replay [OF h demo_parameters, of "demo_transaction\<lparr>tx_signatures := [6, 5, 7]\<rparr>" demo_transaction check_all]
  show ?thesis by (auto simp: check_all_def demo_node_def)
qed

end
