(* ===== verification/Spec2Isabelle.thy ===== *)
theory Spec2Isabelle
  imports Prelude Config Safe_Int Rational Asset Price_Feed Object_Id Object_Index Undo_Database Undo_Correct Uint128 Vesting Block Fork_Database Table Chain_State Fees Market_Fill Debt_Cover Debt_Cover_Correct Matching Margin No_Fuel Margin_Correct Margin_Loop Expiry Expiry_Correct Authority Authority_Correct Required_Signatures Witness_Schedule Witness_Correct Feeds Operation Evaluator Market_Evaluator Asset_Evaluator Op_Dispatch Sound_State Evaluator_Moves Evaluator_Correct Dispatch_Correct Transaction Transaction_Correct
begin

text \<open>
  Verification development for bcxLibrary-Cpp, the C++ library of the Cocos-BCX chain.

  \<^bold>\<open>The program.\<close>  The library contains an SDK client (\<open>bcx/\<close>, \<open>network/\<close>), the chain itself (\<open>chain/\<close>: a
  Graphene chain with its protocol types, its object database, fork handling, market engine, fees and
  vesting), the object database under it (\<open>db/\<close>), and the utility library \<open>fc/\<close>.  The development models the
  chain's own logic and what it stands on, bottom up.  All paths are below \<open>src/bcx/libbcx/\<close>.

  \<^bold>\<open>Conventions\<close> (\<open>Prelude\<close>).  A C++ exception is a value: every operation that may throw returns
  \<open>err + 'a\<close>, with one constructor of \<open>err\<close> per exception the modelled code tells apart; \<open>FC_ASSERT\<close> is
  \<open>assertE\<close>, sequencing is \<open>bindE\<close>.  An exception carries no state: callers
  discard the state by undoing the session, and the \<open>catch\<close> of \<open>clear_expired_orders\<close> gets one thrown before any
  change.  \<open>assert\<close> and logging are no operations.  What C++ leaves undefined
  (signed overflow, dereferencing \<open>end()\<close>) is the error \<open>UndefinedBehaviour\<close>.  A loop that need not end takes
  fuel and returns \<open>OutOfFuel\<close> when it runs out, and the theorems say how much fuel is enough.

  \<^bold>\<open>Arithmetic.\<close>
  \<^item> \<open>Config\<close>: constants of \<open>chain/config.hpp\<close> and the hard fork times of \<open>chain/hardfork.d\<close>.
  \<^item> \<open>Safe_Int\<close>: the checked integers of \<open>fc/safe.hpp\<close>; exactness or exception (C1).
  \<^item> \<open>Rational\<close>: \<open>boost::rational\<close>, as far as the prices use it.
  \<^item> \<open>Asset\<close>, \<open>Price_Feed\<close>: \<open>chain/protocol/asset.cpp\<close> and its header: comparison of prices as a rational order
    (a locale, interpreted on the model's prices), conversions and their rounding, call prices, squeeze
    prices, scaling of prices, feeds (C2 to C5, C7).  The loops that shrink a ratio halve it at each turn and are
    total functions.
  \<^item> \<open>Uint128\<close>: the pair of words \<open>fc::uint128\<close> refines \<open>128 word\<close>; full product, division, decimal text (C14,
    C16, C17).

  \<^bold>\<open>Object database\<close> (\<open>db/\<close>).
  \<^item> \<open>Object_Id\<close>: packing and printing of ids; printed ids parse back.
  \<^item> \<open>Object_Index\<close>: the laws of an index as a locale, interpreted on the primary index with its unique secondary
    keys.
  \<^item> \<open>Undo_Database\<close>, \<open>Undo_Correct\<close>: sessions, the undo log and its merge rules: undo restores, merge composes,
    and the places where it does not (C10 to C12).

  \<^bold>\<open>Blocks and forks.\<close>
  \<^item> \<open>Block\<close>: block ids and the Merkle root of \<open>chain/protocol/block.cpp\<close> (C23).  The hash is a parameter; equal
    roots mean equal digests, or a collision among the pairs that were hashed (\<open>merkle_root_commits\<close>).
  \<^item> \<open>Fork_Database\<close>: \<open>chain/fork_database.cpp\<close> as a transition system on the linked blocks; \<open>fetch_branch_from\<close> with
    fuel, for which the length of the window is enough (C25 to C27).

  \<^bold>\<open>The chain state and the market.\<close>
  \<^item> \<open>Vesting\<close>: \<open>chain/vesting_balance_object.cpp\<close>, both policies behind one locale (C18 to C20).
  \<^item> \<open>Table\<close>: an index as an association list in creation order, with its sums.
  \<^item> \<open>Chain_State\<close>: the record \<open>chain\<close> of the tables and properties that the market reads and writes, the
    invariant \<open>chain_wf\<close>, the measure \<open>surplus\<close> (everything held in an asset less its supply), the relation
    \<open>shifts\<close> (an operation moves the surplus by a given amount and keeps the invariant), and the operations of
    \<open>chain/db_balance.cpp\<close> and the fee processing of \<open>chain/account_object.cpp\<close> (C28, C29).
  \<^item> \<open>Fees\<close>: \<open>calculate_fee\<close> of \<open>chain/protocol/fee_schedule.cpp\<close> and market fees (C30).
  \<^item> \<open>Debt_Cover\<close>, \<open>Debt_Cover_Correct\<close>: \<open>get_max_debt_to_cover\<close> of \<open>chain/market_object.cpp\<close>.  Its bisection ends because
    the interval shrinks; its search forward gets fuel 128, more than the Fibonacci steps up to the maximal
    supply.  The two conversions at the match price form a Galois connection, and the searches walk through
    its fixed points (C31).
  \<^item> \<open>Market_Fill\<close>, \<open>Matching\<close>: paying, filling, cancelling and matching of limit orders, positions and force
    settlements in \<open>chain/db_market.cpp\<close> (C32, C33).
  \<^item> \<open>Margin\<close>, \<open>No_Fuel\<close>, \<open>Margin_Correct\<close>, \<open>Margin_Loop\<close>: the order book, margin calls, global settlement, bids and revival
    (\<open>chain/db_market.cpp\<close>, \<open>check_for_blackswan\<close> of \<open>chain/db_update.cpp\<close>).  \<open>check_call_orders\<close> has fuel for its
    \<open>while\<close> loop: any fuel above the number of positions and limit orders is enough when no position has a
    target collateral ratio (C38; \<open>No_Fuel\<close> has the rules by which a computation does not run out of fuel); with
    one, the loop may not end (C39) (C35 to C39).
  \<^item> \<open>Expiry\<close>, \<open>Expiry_Correct\<close>: \<open>clear_expired_orders\<close> of \<open>chain/db_update.cpp\<close> (C40).

  \<^bold>\<open>Transactions and witnesses.\<close>
  \<^item> \<open>Authority\<close>, \<open>Authority_Correct\<close>: weighted authorities (\<open>chain/protocol/authority.hpp\<close>), the search of
    \<open>sign_state\<close> through accounts, and \<open>verify_authority\<close> (\<open>chain/protocol/transaction.cpp\<close>).  What it accepts is
    authorized in an inductive sense that does not mention the search (C6), and what the signatures authorize
    within the recursion limit is never found missing (C13).  Recovering keys from signatures and deriving
    addresses from keys are parameters.
  \<^item> \<open>Required_Signatures\<close>: \<open>get_required_signatures\<close> and its minimization: their results are accepted (C34).
    Under the premises there; without them the search can run into its recursion limit in the order in
    which it caches accounts, and a lemma shows a result that is rejected.
  \<^item> \<open>Witness_Schedule\<close>, \<open>Witness_Correct\<close>: \<open>chain/db_witness_schedule.cpp\<close> and the block bookkeeping of
    \<open>chain/db_update.cpp\<close>: slots and times (C8), the shuffle (C15), the irreversible block (C22).

  \<^bold>\<open>Operations.\<close>
  \<^item> \<open>Operation\<close>: sixteen operations of \<open>chain/protocol/transfer.cpp\<close>, \<open>market.cpp\<close> and \<open>asset_ops.cpp\<close> with their
    \<open>validate\<close>.
  \<^item> \<open>Feeds\<close>: \<open>update_median_feeds\<close> of \<open>chain/asset_object.cpp\<close>; \<open>std::nth_element\<close> is a parameter with what the
    standard promises of it as a hypothesis, and a sorting instance shows that it can be met (C21).
  \<^item> \<open>Evaluator\<close>, \<open>Market_Evaluator\<close>, \<open>Asset_Evaluator\<close>: the fee steps of \<open>chain/evaluator.cpp\<close> and the evaluators of
    \<open>chain/market_evaluator.cpp\<close>, \<open>chain/transfer_evaluator.cpp\<close> and \<open>chain/asset_evaluator.cpp\<close>.
  \<^item> \<open>Op_Dispatch\<close>: the template of \<open>chain/evaluator.hpp\<close> and \<open>apply_operation\<close> of \<open>chain/db_block.cpp\<close>: evaluate, take
    the fee, apply.
  \<^item> \<open>Sound_State\<close>: the invariant \<open>sound\<close>, which adds to \<open>chain_wf\<close> that positions are backed by the backing asset of
    their bitasset and that feeds and settlement prices are prices of the asset in it; \<open>moves\<close> is \<open>shifts\<close> for
    it.
  \<^item> \<open>Evaluator_Moves\<close>, \<open>Evaluator_Correct\<close>, \<open>Dispatch_Correct\<close>: what each fee step and each operation moves.  The
    contract of an evaluator is a locale, interpreted on each of the sixteen and on the dispatch; any run of
    valid operations conserves every asset and keeps the state sound (C9).

  \<^bold>\<open>Transactions in blocks.\<close>
  \<^item> \<open>Transaction\<close>: \<open>_apply_transaction\<close> and the steps of a block around it (\<open>chain/db_block.cpp\<close>): validation, the index of
    the known transactions and its clearing (\<open>chain/db_update.cpp\<close>), signatures, the reference block and the
    expiration, the operations, the header of a block, its summary.
  \<^item> \<open>Transaction_Correct\<close>: what it means that a transaction is accepted (\<open>transaction_accepted\<close>), and that none is
    accepted twice along the blocks of a history (C24).  The steps of a block that are not modelled are a
    relation that leaves the index, the summaries and the head alone and keeps the state sound.

  In the market theories an object passed by reference is passed by its id and read again where the
  code reads it, an iterator is the list of ids ahead of it, and an ordered index is the table sorted by its
  comparator.  Tables are read in full where the code reads members; members that no modelled operation
  reads are left out of the records.

  \<^bold>\<open>How the lemmas are grouped.\<close>  Each operation has a lemma about what it shifts (conservation and invariant) and,
  where a loop or a caller needs it, a frame lemma about what it keeps.  Composite operations are eliminated
  with the bundle \<open>result_elims\<close> into their steps, and the steps compose by \<open>shifts_step\<close> and \<open>conserves_trans\<close>.

  \<^bold>\<open>Not modelled.\<close>  The SDK client (\<open>bcx/\<close>, \<open>network/\<close>) is I/O and JSON glue.  Of \<open>fc/\<close>, cryptography, threads,
  serialization and logging; of the chain, pushing and generating blocks and pending transactions, the evaluators of accounts, committee, witnesses, workers, proposals, vesting,
  permissions and blinded transfers, those that create an asset or change its options, maintenance,
  notification, genesis and the API getters.  The members of the protocol types that only these read are
  left out with them.  Vendored code (websocketpp, secp256k1-zkp, editline,
  miniz) is not the program's.  Hash functions are parameters of the definitions that use them, \<open>boost\<close>
  integers wider than 64 bits are unbounded integers where the call sites stay below their width, and the
  base fee of an operation is a parameter of \<open>calculate_fee\<close>.
\<close>

end
